(* ===== verification/Prelude.thy ===== *)
theory Prelude
  imports Main "HOL-Library.Word"
begin

text \<open>
  Shared vocabulary of the development: the C integer types as words, the result type of a
  C function that can return \<open>NULL\<close> or run into undefined behaviour, and the generic list
  and word lemmas that more than one component uses.
\<close>

unbundle bit_operations_syntax

section \<open>C types\<close>

type_synonym u8 = "8 word"
type_synonym u16 = "16 word"
type_synonym u32 = "32 word"
type_synonym u64 = "64 word"
type_synonym bytes = "8 word list"

text \<open>The arena is a parameter: \<open>malloc n a\<close> and \<open>realloc m n a\<close> tell whether
  \<open>upb_Arena_Malloc\<close> and \<open>upb_Arena_Realloc\<close> find the memory, and the arena afterwards.\<close>

type_synonym 'a malloc = "nat \<Rightarrow> 'a \<Rightarrow> bool \<times> 'a"
type_synonym 'a realloc = "nat \<Rightarrow> nat \<Rightarrow> 'a \<Rightarrow> bool \<times> 'a"

section \<open>Results of C functions\<close>

text \<open>
  \<open>UB\<close> stands for undefined behaviour: a failed \<open>UPB_ASSERT\<close>, an access outside an array or
  a null dereference. \<open>Fail e\<close> is an error return the code makes on purpose (a \<open>NULL\<close>
  pointer, a \<open>false\<close>, a \<open>longjmp\<close> out of a decoder), with the reason where the code has one.
\<close>

datatype ('e, 'a) cres = UB | Fail 'e | Ok 'a

primrec cbind :: "('e, 'a) cres \<Rightarrow> ('a \<Rightarrow> ('e, 'b) cres) \<Rightarrow> ('e, 'b) cres" where
  "cbind UB f = UB"
| "cbind (Fail e) f = Fail e"
| "cbind (Ok x) f = f x"

definition cassert :: "bool \<Rightarrow> ('e, 'a) cres \<Rightarrow> ('e, 'a) cres" where
  "cassert b r = (if b then r else UB)"

named_theorems cres_simps \<open>rewriting of sequenced C computations\<close>

lemma cbind_Ok_iff [cres_simps]: "cbind r f = Ok y \<longleftrightarrow> (\<exists>x. r = Ok x \<and> f x = Ok y)"
  by (cases r) auto

lemma cbind_assoc: "cbind (cbind r f) g = cbind r (\<lambda>x. cbind (f x) g)"
  by (cases r) auto

lemma cbind_cong [fundef_cong]:
  "r = r' \<Longrightarrow> (\<And>x. r' = Ok x \<Longrightarrow> f x = g x) \<Longrightarrow> cbind r f = cbind r' g"
  by (cases r') auto

text \<open>A loop over a list whose body may fail.\<close>

primrec fold_cres :: "('x \<Rightarrow> 'a \<Rightarrow> ('e, 'a) cres) \<Rightarrow> 'x list \<Rightarrow> 'a \<Rightarrow> ('e, 'a) cres" where
  "fold_cres f [] a = Ok a"
| "fold_cres f (x # xs) a = cbind (f x a) (fold_cres f xs)"

lemma fold_cres_append: "fold_cres f (xs @ ys) a = cbind (fold_cres f xs a) (fold_cres f ys)"
proof (induction xs arbitrary: a)
  case (Cons x xs)
  have "fold_cres f (xs @ ys) = (\<lambda>a. cbind (fold_cres f xs a) (fold_cres f ys))"
    by (rule ext) (rule Cons.IH)
  then show ?case by (simp add: cbind_assoc)
qed simp

lemma cassert_True [simp]: "b \<Longrightarrow> cassert b r = r"
  by (simp add: cassert_def)

lemma cassert_Ok_iff [cres_simps]: "cassert b r = Ok y \<longleftrightarrow> b \<and> r = Ok y"
  by (simp add: cassert_def)

lemma option_eqI: "(\<And>v. a = Some v \<longleftrightarrow> b = Some v) \<Longrightarrow> a = b"
  by (cases a; cases b) auto

section \<open>Words\<close>

lemma unat_less_numeral_power [simp]:
  "unat (x :: u8) < 256" "unat (y :: u16) < 65536"
  "unat (z :: u32) < 4294967296" "unat (w :: u64) < 18446744073709551616"
  using unsigned_less [of x, where ?'a = nat] unsigned_less [of y, where ?'a = nat]
    unsigned_less [of z, where ?'a = nat] unsigned_less [of w, where ?'a = nat]
  by simp_all

lemma unat_ucast_up:
  assumes "LENGTH('a) \<le> LENGTH('b)"
  shows "unat (ucast (x :: 'a :: len word) :: 'b :: len word) = unat x"
proof -
  have "unat x < 2 ^ LENGTH('b)"
    by (rule less_le_trans [OF unsigned_less]) (rule power_increasing, use assms in simp_all)
  then show ?thesis by (simp add: unsigned_ucast_eq take_bit_nat_eq_self)
qed

lemma unat_ucast_down: "unat x < 2 ^ LENGTH('b) \<Longrightarrow> unat (ucast (x :: 'a :: len word) :: 'b :: len word) = unat x"
  by (simp add: unsigned_ucast_eq take_bit_nat_eq_self)

lemma drop_bit_eq_0_iff: "drop_bit n (x :: 'a :: len word) = 0 \<longleftrightarrow> unat x < 2 ^ n"
proof -
  have "drop_bit n x = 0 \<longleftrightarrow> unat (drop_bit n x) = 0"
    by (simp only: unat_eq_0)
  also have "\<dots> \<longleftrightarrow> unat x div 2 ^ n = 0"
    by (subst unat_drop_bit_eq) (simp only: drop_bit_eq_div)
  finally show ?thesis
    by (simp add: div_eq_0_iff)
qed

lemma unat_drop_bit_div: "unat (drop_bit n (x :: 'a :: len word)) = unat x div 2 ^ n"
  by (subst unat_drop_bit_eq) (rule drop_bit_eq_div)

lemma unat_take_bit_mod: "unat (take_bit n (x :: 'a :: len word)) = unat x mod 2 ^ n"
  by (subst unsigned_take_bit_eq, rule take_bit_eq_mod)

lemma not_bit_less_exp: "m < 2 ^ s \<Longrightarrow> s \<le> k \<Longrightarrow> \<not> bit (m :: nat) k"
  by (simp add: bit_iff_odd div_less order_less_le_trans [OF _ power_increasing])

end
