(* ===== verification/Base.thy ===== *)
theory Base
  imports Prelude
begin

text \<open>
  \<open>upb/base/internal/log2.h\<close>, \<open>upb/base/string_view.h\<close> and the integer helpers at the top
  of \<open>upb/hash/common.c\<close>: ceilings of binary logarithms, powers of two, population count
  and the comparison of string views.
\<close>

section \<open>upb/base/internal/log2.h\<close>

text \<open>\<open>__builtin_clz\<close> on a 32-bit argument: the number of leading zero bits.\<close>

fun clz_from :: "nat \<Rightarrow> u32 \<Rightarrow> nat" where
  "clz_from 0 w = 0"
| "clz_from (Suc n) w = (if bit w n then 0 else Suc (clz_from n w))"

definition builtin_clz :: "u32 \<Rightarrow> nat" where
  "builtin_clz w = clz_from 32 w"

definition upb_Log2Ceiling :: "int \<Rightarrow> nat" where
  "upb_Log2Ceiling x = (if x \<le> 1 then 0 else 32 - builtin_clz (word_of_int (x - 1)))"

text \<open>The portable loop of the same function: \<open>while ((1 << lg2) < x) lg2++\<close>.\<close>

function log2_loop :: "nat \<Rightarrow> int \<Rightarrow> nat" where
  "log2_loop lg2 x = (if 2 ^ lg2 < x then log2_loop (Suc lg2) x else lg2)"
  by pat_completeness auto
termination
  by (relation "measure (\<lambda>(lg2, x). nat (x - 2 ^ lg2))") auto

declare log2_loop.simps [simp del]

definition upb_Log2Ceiling_portable :: "int \<Rightarrow> nat" where
  "upb_Log2Ceiling_portable x = (if x \<le> 1 then 0 else log2_loop 0 x)"

definition upb_RoundUpToPowerOfTwo :: "int \<Rightarrow> int" where
  "upb_RoundUpToPowerOfTwo x = 2 ^ upb_Log2Ceiling x"

lemma clz_from_le: "clz_from n w \<le> n"
  by (induction n) auto

lemma bit_iff_odd_unat: "bit (w :: 'a :: len word) n \<longleftrightarrow> odd (unat w div 2 ^ n)"
  using bit_iff_odd [of "unat w" n] by (simp only: bit_unsigned_iff possible_bit_nat simp_thms)

lemma clz_from_bounds:
  assumes "unat w < 2 ^ n"
  shows "unat w < 2 ^ (n - clz_from n w) \<and> (0 < unat w \<longrightarrow> 2 ^ (n - clz_from n w - 1) \<le> unat w)"
  using assms
proof (induction n)
  case 0
  then show ?case by simp
next
  case (Suc n)
  have lt2: "unat w div 2 ^ n < 2"
    using Suc.prems by (simp only: power_Suc less_mult_imp_div_less)
  show ?case
  proof (cases "bit w n")
    case True
    then have "unat w div 2 ^ n \<noteq> 0"
      by (metis bit_iff_odd_unat even_zero)
    then have "2 ^ n \<le> unat w"
      by (metis div_less not_less)
    with True Suc.prems show ?thesis by simp
  next
    case False
    have "unat w div 2 ^ n = 0 \<or> unat w div 2 ^ n = 1"
      using lt2 by linarith
    with False have "unat w div 2 ^ n = 0"
      by (auto simp: bit_iff_odd_unat)
    then have "unat w < 2 ^ n" by (simp add: div_eq_0_iff)
    with Suc.IH False show ?thesis
      by simp
  qed
qed

lemma upb_Log2Ceiling_bounds:
  assumes "1 < x" and "x < 2 ^ 31"
  shows "x \<le> 2 ^ upb_Log2Ceiling x" and "2 ^ (upb_Log2Ceiling x - 1) < x"
    and "0 < upb_Log2Ceiling x" and "upb_Log2Ceiling x \<le> 31"
proof -
  let ?w = "word_of_int (x - 1) :: u32"
  let ?c = "clz_from 32 ?w"
  have w: "unat ?w = nat (x - 1)"
    using assms by (simp only: unat_eq_nat_uint uint_word_of_int) (simp add: take_bit_int_eq_self)
  from clz_from_bounds [of ?w 32] have
    up: "nat (x - 1) < 2 ^ (32 - ?c)" and lo: "2 ^ (32 - ?c - 1) \<le> nat (x - 1)"
    using assms w by auto
  have L: "upb_Log2Ceiling x = 32 - ?c"
    using assms by (simp add: upb_Log2Ceiling_def builtin_clz_def)
  from up have "int (nat (x - 1)) < int (2 ^ (32 - ?c))"
    by (simp only: of_nat_less_iff)
  then show "x \<le> 2 ^ upb_Log2Ceiling x"
    using assms L by simp
  from lo have "int (2 ^ (32 - ?c - 1)) \<le> int (nat (x - 1))"
    by (simp only: of_nat_le_iff)
  then show l: "2 ^ (upb_Log2Ceiling x - 1) < x"
    using assms L by simp
  show "0 < upb_Log2Ceiling x"
    using \<open>x \<le> 2 ^ upb_Log2Ceiling x\<close> assms by (cases "upb_Log2Ceiling x") auto
  show "upb_Log2Ceiling x \<le> 31"
  proof (rule ccontr)
    assume "\<not> ?thesis"
    then have "(2::int) ^ 31 \<le> 2 ^ (upb_Log2Ceiling x - 1)"
      by (intro power_increasing) simp_all
    with l assms show False by linarith
  qed
qed

lemma log2_loop_least:
  "(\<forall>m < lg2. 2 ^ m < x) \<Longrightarrow> x \<le> 2 ^ log2_loop lg2 x \<and> (\<forall>m < log2_loop lg2 x. 2 ^ m < x)"
proof (induction lg2 x rule: log2_loop.induct)
  case (1 lg2 x)
  then show ?case
    by (subst (1 2) log2_loop.simps) (auto simp: less_Suc_eq)
qed

lemma log2_unique:
  assumes "x \<le> 2 ^ a" "\<forall>m < a. (2::int) ^ m < x" "x \<le> 2 ^ b" "\<forall>m < b. (2::int) ^ m < x"
  shows "a = b"
  using assms by (metis linorder_neqE_nat linorder_not_less)

text \<open>The count-leading-zeros version of \<open>upb_Log2Ceiling\<close> that GCC builds use returns, for
  every \<open>int\<close> argument, the same value as the portable shift loop, and that value is the least
  exponent whose power of two reaches the argument.\<close>

theorem upb_Log2Ceiling_least:
  assumes "x < 2 ^ 31"
  shows "upb_Log2Ceiling x = upb_Log2Ceiling_portable x \<and> x \<le> 2 ^ upb_Log2Ceiling x \<and>
    (\<forall>m < upb_Log2Ceiling x. 2 ^ m < x)"
proof -
  note b = upb_Log2Ceiling_bounds [OF _ assms]
  have lower: "\<forall>m < upb_Log2Ceiling x. 2 ^ m < x"
  proof (cases "1 < x")
    case True
    show ?thesis
    proof (intro allI impI)
      fix m
      assume "m < upb_Log2Ceiling x"
      then have "(2::int) ^ m \<le> 2 ^ (upb_Log2Ceiling x - 1)"
        by (intro power_increasing) simp_all
      with b(2) [OF True] show "2 ^ m < x" by linarith
    qed
  qed (simp add: upb_Log2Ceiling_def)
  have upper: "x \<le> 2 ^ upb_Log2Ceiling x"
    using b(1) by (cases "1 < x") (simp_all add: upb_Log2Ceiling_def)
  have "upb_Log2Ceiling x = upb_Log2Ceiling_portable x"
  proof (cases "1 < x")
    case True
    from log2_loop_least [of 0 x] upper lower
    have "upb_Log2Ceiling x = log2_loop 0 x" by (intro log2_unique) auto
    with True show ?thesis by (simp add: upb_Log2Ceiling_portable_def)
  qed (simp add: upb_Log2Ceiling_def upb_Log2Ceiling_portable_def)
  with lower upper show ?thesis by blast
qed

theorem upb_Log2Ceiling_least_witness:
  "upb_Log2Ceiling 33 = upb_Log2Ceiling_portable 33 \<and> 33 \<le> (2::int) ^ upb_Log2Ceiling 33 \<and>
    upb_Log2Ceiling 33 = 6"
proof -
  have "upb_Log2Ceiling 33 = 6"
    by (simp add: upb_Log2Ceiling_def builtin_clz_def eval_nat_numeral)
  with upb_Log2Ceiling_least [of 33] show ?thesis by simp
qed

section \<open>upb/base/string_view.h\<close>

text \<open>A view is its bytes: \<open>data\<close> and \<open>size\<close> together denote a byte list. \<open>memcmp\<close> compares
  unsigned bytes and is modelled up to the sign of its result.\<close>

fun memcmp :: "bytes \<Rightarrow> bytes \<Rightarrow> nat \<Rightarrow> int" where
  "memcmp (a # as) (b # bs) (Suc n) =
     (if a = b then memcmp as bs n else if unat a < unat b then -1 else 1)"
| "memcmp _ _ _ = 0"

definition upb_StringView_IsEqual :: "bytes \<Rightarrow> bytes \<Rightarrow> bool" where
  "upb_StringView_IsEqual a b \<longleftrightarrow>
     length a = length b \<and> (length a = 0 \<or> memcmp a b (length a) = 0)"

text \<open>The difference of the two \<open>size_t\<close> sizes is converted to \<open>int\<close>, so it is taken modulo
  \<open>2 ^ 32\<close> and read as a signed number.\<close>

definition upb_StringView_Compare :: "bytes \<Rightarrow> bytes \<Rightarrow> int" where
  "upb_StringView_Compare a b =
     (let result = memcmp a b (min (length a) (length b))
      in if result = 0 then sint (word_of_int (int (length a) - int (length b)) :: u32)
         else result)"

lemma memcmp_eq_0: "n \<le> length a \<Longrightarrow> n \<le> length b \<Longrightarrow> memcmp a b n = 0 \<longleftrightarrow> take n a = take n b"
  by (induction a b n rule: memcmp.induct) auto

lemma upb_StringView_IsEqual_iff [simp]: "upb_StringView_IsEqual a b \<longleftrightarrow> a = b"
  by (auto simp: upb_StringView_IsEqual_def memcmp_eq_0)

text \<open>\<open>upb_StringView_Compare\<close> orders views as their byte strings are ordered
  lexicographically (a proper prefix first), and returns 0 exactly for equal views, provided
  both sizes are below \<open>2 ^ 31\<close> so that their difference fits the \<open>int\<close> result.\<close>

theorem upb_StringView_Compare_lexicographic:
  assumes "length a < 2 ^ 31" and "length b < 2 ^ 31"
  shows "(upb_StringView_Compare a b = 0 \<longleftrightarrow> a = b) \<and>
    (upb_StringView_Compare a b < 0 \<longleftrightarrow> (a, b) \<in> lexord {(x, y). unat x < unat y})"
proof -
  have s: "sint (word_of_int (int (length a) - int (length b)) :: u32) = int (length a) - int (length b)"
    using assms by (simp only: int_word_sint) simp
  have gen: "((memcmp a b (min (length a) (length b)) = 0 \<and> length a = length b) \<longleftrightarrow> a = b) \<and>
    ((memcmp a b (min (length a) (length b)) < 0 \<or>
      memcmp a b (min (length a) (length b)) = 0 \<and> length a < length b) \<longleftrightarrow>
      (a, b) \<in> lexord {(x, y). unat x < unat y})"
  proof (induction a arbitrary: b)
    case Nil
    then show ?case by (cases b) auto
  next
    case (Cons x a)
    then show ?case by (cases b) (auto simp: less_le)
  qed
  then show ?thesis
    unfolding upb_StringView_Compare_def Let_def s by auto
qed

theorem upb_StringView_Compare_lexicographic_witness:
  "upb_StringView_Compare [1, 2] [1, 2, 0] < 0 \<and> [1, 2] \<noteq> ([1, 2, 0] :: bytes)"
  using upb_StringView_Compare_lexicographic [of "[1, 2]" "[1, 2, 0]"] by simp

end
