(* ===== verification/WireEncode.thy ===== *)
theory WireEncode
  imports Base
begin

text \<open>
  The output side of \<open>upb/wire/encode.c\<close>: the buffer that is filled from its end towards its start,
  and the writers of the primitive wire values, with their refinement to putting bytes in front of
  the bytes already written.
\<close>

section \<open>Numbers\<close>

text \<open>\<open>encode_varint64\<close>: the bytes written to \<open>buf\<close>, in order.\<close>

function encode_varint64 :: "u64 \<Rightarrow> bytes" where
  "encode_varint64 val =
     (let byte = ucast (val AND 0x7F) :: u8;
          val' = drop_bit 7 val
      in if val' \<noteq> 0 then (byte OR 0x80) # encode_varint64 val' else [byte])"
  by pat_completeness auto
termination
proof (relation "measure unat", goal_cases)
  case (2 val byte val')
  then have "0 < unat val'" by (simp add: unat_gt_0)
  then show ?case using 2 by (simp only: in_measure unat_drop_bit_div) simp
qed simp

declare encode_varint64.simps [simp del]

definition encode_zz32 :: "u32 \<Rightarrow> u32" where
  "encode_zz32 n = push_bit 1 n XOR signed_drop_bit 31 n"

definition encode_zz64 :: "u64 \<Rightarrow> u64" where
  "encode_zz64 n = push_bit 1 n XOR signed_drop_bit 63 n"

section \<open>The buffer\<close>

datatype upb_EncodeStatus = EncodeOutOfMemory | EncodeMaxDepthExceeded | EncodeMissingRequired

text \<open>\<open>e_buf\<close> is the memory from \<open>buf\<close> to \<open>limit\<close>, \<open>e_ptr\<close> the index of \<open>ptr\<close> in it. A status other
  than \<open>Ok\<close> is a \<open>longjmp\<close>, the \<open>Fail\<close> of the model.\<close>

record 'a upb_encstate =
  e_arena :: 'a
  e_buf :: bytes
  e_ptr :: nat
  e_options :: u32
  e_depth :: nat

type_synonym 'a encoder = "'a upb_encstate \<Rightarrow> (upb_EncodeStatus, 'a upb_encstate) cres"

text \<open>The loop \<open>while (ret < bytes) ret *= 2\<close>, without the wrap-around of \<open>size_t\<close>: for more than \<open>2 ^ 63\<close>
  bytes the loop of the source does not end. A buffer of that size does not fit the address space.\<close>

function roundup_loop :: "nat \<Rightarrow> nat \<Rightarrow> nat" where
  "roundup_loop ret n = (if 0 < ret \<and> ret < n then roundup_loop (ret * 2) n else ret)"
  by pat_completeness auto
termination
  by (relation "measure (\<lambda>(ret, n). n - ret)") auto

declare roundup_loop.simps [simp del]

definition upb_roundup_pow2 :: "nat \<Rightarrow> nat" where
  "upb_roundup_pow2 n = roundup_loop 128 n"

text \<open>\<open>realloc\<close> leaves the old data at the start of the new memory (what follows is not
  initialised, here zero), and \<open>memmove\<close> copies it to the end.\<close>

definition encode_growbuffer :: "'a realloc \<Rightarrow> nat \<Rightarrow> 'a encoder" where
  "encode_growbuffer realloc n e =
     (let old_size = length (e_buf e);
          needed_size = n + (old_size - e_ptr e);
          new_size = upb_roundup_pow2 needed_size
      in case realloc old_size new_size (e_arena e) of (ok, a) \<Rightarrow>
           (if \<not> ok then Fail EncodeOutOfMemory
            else
              (let new_buf = take new_size (e_buf e @ replicate (new_size - old_size) 0);
                   buf = (if old_size > 0 then take (new_size - old_size) new_buf @ e_buf e else new_buf)
               in Ok (e\<lparr>e_arena := a, e_buf := buf, e_ptr := new_size - needed_size\<rparr>))))"

definition encode_reserve :: "'a realloc \<Rightarrow> nat \<Rightarrow> 'a encoder" where
  "encode_reserve realloc n e =
     (if e_ptr e < n then encode_growbuffer realloc n e else Ok (e\<lparr>e_ptr := e_ptr e - n\<rparr>))"

text \<open>\<open>memcpy(buf + i, data, len)\<close>; a write outside the buffer is \<open>UB\<close>.\<close>

definition write_at :: "nat \<Rightarrow> bytes \<Rightarrow> 'a encoder" where
  "write_at i data e =
     cassert (i + length data \<le> length (e_buf e))
       (Ok (e\<lparr>e_buf := take i (e_buf e) @ data @ drop (i + length data) (e_buf e)\<rparr>))"

definition encode_bytes :: "'a realloc \<Rightarrow> bytes \<Rightarrow> 'a encoder" where
  "encode_bytes realloc data e =
     (if data = [] then Ok e
      else cbind (encode_reserve realloc (length data) e) (\<lambda>e. write_at (e_ptr e) data e))"

text \<open>The little-endian bytes of a word, what \<open>memcpy\<close> of an integer sees on these builds.\<close>

definition le_bytes :: "nat \<Rightarrow> u64 \<Rightarrow> bytes" where
  "le_bytes n v = map (\<lambda>i. ucast (drop_bit (8 * i) v)) [0..<n]"

definition encode_fixed64 :: "'a realloc \<Rightarrow> u64 \<Rightarrow> 'a encoder" where
  "encode_fixed64 realloc val = encode_bytes realloc (le_bytes 8 val)"

definition encode_fixed32 :: "'a realloc \<Rightarrow> u32 \<Rightarrow> 'a encoder" where
  "encode_fixed32 realloc val = encode_bytes realloc (le_bytes 4 (ucast val))"

definition UPB_PB_VARINT_MAX_LEN :: nat where "UPB_PB_VARINT_MAX_LEN = 10"

definition encode_longvarint :: "'a realloc \<Rightarrow> u64 \<Rightarrow> 'a encoder" where
  "encode_longvarint realloc val e =
     cbind (encode_reserve realloc UPB_PB_VARINT_MAX_LEN e) (\<lambda>e.
     cbind (write_at (e_ptr e) (encode_varint64 val) e) (\<lambda>e.
       let len = length (encode_varint64 val);
           start = e_ptr e + UPB_PB_VARINT_MAX_LEN - len
       in cbind (write_at start (take len (drop (e_ptr e) (e_buf e))) e) (\<lambda>e.
            Ok (e\<lparr>e_ptr := start\<rparr>))))"

definition encode_varint :: "'a realloc \<Rightarrow> u64 \<Rightarrow> 'a encoder" where
  "encode_varint realloc val e =
     (if val < 128 \<and> e_ptr e \<noteq> 0
      then cbind (write_at (e_ptr e - 1) [ucast val] e) (\<lambda>e. Ok (e\<lparr>e_ptr := e_ptr e - 1\<rparr>))
      else encode_longvarint realloc val e)"

text \<open>\<open>double\<close> and \<open>float\<close> are kept as the words of their bits.\<close>

definition encode_double :: "'a realloc \<Rightarrow> u64 \<Rightarrow> 'a encoder" where
  "encode_double realloc d = encode_fixed64 realloc d"

definition encode_float :: "'a realloc \<Rightarrow> u32 \<Rightarrow> 'a encoder" where
  "encode_float realloc d = encode_fixed32 realloc d"

text \<open>The shift and the or are done at 32 bits.\<close>

definition encode_tag :: "'a realloc \<Rightarrow> u32 \<Rightarrow> u8 \<Rightarrow> 'a encoder" where
  "encode_tag realloc field_number wire_type =
     encode_varint realloc (ucast (push_bit 3 field_number OR ucast wire_type))"

section \<open>The bytes written\<close>

text \<open>What has been written is what lies between \<open>ptr\<close> and \<open>limit\<close>.\<close>

definition written :: "'a upb_encstate \<Rightarrow> bytes" where
  "written e = drop (e_ptr e) (e_buf e)"

definition enc_ok :: "'a upb_encstate \<Rightarrow> bool" where
  "enc_ok e \<longleftrightarrow> e_ptr e \<le> length (e_buf e)"

text \<open>\<open>puts e bs e'\<close>: the bytes \<open>bs\<close> have been put in front, and nothing else has changed.\<close>

definition puts :: "'a upb_encstate \<Rightarrow> bytes \<Rightarrow> 'a upb_encstate \<Rightarrow> bool" where
  "puts e bs e' \<longleftrightarrow> enc_ok e' \<and> written e' = bs @ written e \<and>
     e_options e' = e_options e \<and> e_depth e' = e_depth e"

lemma puts_refl: "enc_ok e \<Longrightarrow> puts e [] e"
  by (simp add: puts_def)

lemma puts_trans: "puts e bs e' \<Longrightarrow> puts e' cs e'' \<Longrightarrow> puts e (cs @ bs) e''"
  by (auto simp: puts_def)

lemma roundup_ge: "0 < ret \<Longrightarrow> n \<le> roundup_loop ret n"
proof (induction ret n rule: roundup_loop.induct)
  case (1 ret n)
  then show ?case by (subst roundup_loop.simps) auto
qed

lemma upb_roundup_pow2_ge: "n \<le> upb_roundup_pow2 n"
  by (simp add: upb_roundup_pow2_def roundup_ge)

text \<open>Room for \<open>n\<close> bytes: either memory is refused, or the bytes written are as before and there
  are \<open>n\<close> more below them.\<close>

lemma reserve_cases:
  assumes "enc_ok e"
  obtains (refused) "encode_reserve realloc n e = Fail EncodeOutOfMemory"
      "\<not> (\<forall>m n a. fst (realloc m n a))"
  | (room) e' where "encode_reserve realloc n e = Ok e'" "enc_ok e'"
      "drop (e_ptr e' + n) (e_buf e') = written e" "e_ptr e' + n \<le> length (e_buf e')"
      "e_options e' = e_options e" "e_depth e' = e_depth e"
proof (cases "e_ptr e < n")
  case False
  then show thesis
    using assms by (intro room [of "e\<lparr>e_ptr := e_ptr e - n\<rparr>"]) (auto simp: encode_reserve_def enc_ok_def written_def)
next
  case True
  let ?old = "length (e_buf e)"
  let ?need = "n + (?old - e_ptr e)"
  let ?new = "upb_roundup_pow2 ?need"
  have need: "?need \<le> ?new" by (rule upb_roundup_pow2_ge)
  have le: "e_ptr e \<le> ?old" using assms by (simp add: enc_ok_def)
  then have old: "?old \<le> ?new" using need True by linarith
  show thesis
  proof (cases "realloc ?old ?new (e_arena e)")
    case (Pair ok a)
    show thesis
    proof (cases ok)
      case False
      then have "\<not> (\<forall>m n a. fst (realloc m n a))" using Pair by (metis fst_conv)
      then show thesis using True Pair False
        by (intro refused) (simp_all add: encode_reserve_def encode_growbuffer_def Let_def)
    next
      case ok: True
      define new_buf where "new_buf = take ?new (e_buf e @ replicate (?new - ?old) 0)"
      define buf where "buf = (if ?old > 0 then take (?new - ?old) new_buf @ e_buf e else new_buf)"
      have nb: "length new_buf = ?new" using old by (simp add: new_buf_def)
      then have len: "length buf = ?new" using old by (simp add: buf_def)
      have tail: "drop (?new - ?need + n) buf = written e"
      proof (cases "?old > 0")
        case True
        have "length (take (?new - ?old) new_buf) = ?new - ?old" using nb by simp
        moreover have "?new - ?need + n - (?new - ?old) = e_ptr e" using need old le by linarith
        moreover have "?new - ?need + n \<ge> ?new - ?old" using need le by linarith
        ultimately show ?thesis using True by (simp add: buf_def written_def)
      next
        case False
        then have "?new - ?need + n = ?new" "written e = []" using need by (simp_all add: written_def)
        then show ?thesis using len by simp
      qed
      show thesis
        using True Pair ok len tail need
        by (intro room [of "e\<lparr>e_arena := a, e_buf := buf, e_ptr := ?new - ?need\<rparr>"])
          (auto simp: encode_reserve_def encode_growbuffer_def Let_def enc_ok_def buf_def new_buf_def)
    qed
  qed
qed

lemma write_written:
  assumes "enc_ok e" "drop (e_ptr e + length bs) (e_buf e) = rest" "e_ptr e + length bs \<le> length (e_buf e)"
  obtains e' where "write_at (e_ptr e) bs e = Ok e'" "enc_ok e'" "written e' = bs @ rest"
    "e_ptr e' = e_ptr e" "e_options e' = e_options e" "e_depth e' = e_depth e" "length (e_buf e') = length (e_buf e)"
  using assms
  by (intro that [of "e\<lparr>e_buf := take (e_ptr e) (e_buf e) @ bs @ drop (e_ptr e + length bs) (e_buf e)\<rparr>"])
    (auto simp: write_at_def enc_ok_def written_def)

lemma bytes_cases:
  assumes "enc_ok e"
  obtains (refused) "encode_bytes realloc bs e = Fail EncodeOutOfMemory" "\<not> (\<forall>m n a. fst (realloc m n a))"
  | (put) e' where "encode_bytes realloc bs e = Ok e'" "puts e bs e'"
proof (cases "bs = []")
  case True
  then show thesis using assms by (intro put [of e]) (simp_all add: encode_bytes_def puts_refl)
next
  case False
  show thesis
  proof (rule reserve_cases [OF assms, of realloc "length bs"])
    fix e1
    assume e1: "encode_reserve realloc (length bs) e = Ok e1" "enc_ok e1"
      "drop (e_ptr e1 + length bs) (e_buf e1) = written e" "e_ptr e1 + length bs \<le> length (e_buf e1)"
      "e_options e1 = e_options e" "e_depth e1 = e_depth e"
    show thesis
      by (rule write_written [OF e1(2-4)], rule put)
        (use e1 False in \<open>auto simp: encode_bytes_def puts_def\<close>)
  qed (use False in \<open>auto intro!: refused simp: encode_bytes_def\<close>)
qed

lemma length_encode_varint64: "length (encode_varint64 val) \<le> 10" "encode_varint64 val \<noteq> []"
proof -
  have "unat val < 2 ^ (7 * k) \<Longrightarrow> 0 < k \<Longrightarrow> length (encode_varint64 val) \<le> k" for k
  proof (induction k arbitrary: val)
    case (Suc k)
    show ?case
    proof (cases "drop_bit 7 val = 0")
      case True
      then show ?thesis by (subst encode_varint64.simps) simp
    next
      case False
      have "unat (drop_bit 7 val) < 2 ^ (7 * k)"
        using Suc.prems(1) by (simp add: unat_drop_bit_div less_mult_imp_div_less power_add mult.commute)
      moreover from False this have "0 < k" by (cases k) (auto simp: unat_eq_0)
      ultimately show ?thesis using Suc.IH False by (subst encode_varint64.simps) (simp add: Let_def)
    qed
  qed simp
  from this [of 10] show "length (encode_varint64 val) \<le> 10" 
    using less_trans [OF unat_less_numeral_power(4) [of val], of "2 ^ 70"] by simp
  show "encode_varint64 val \<noteq> []" by (subst encode_varint64.simps) (simp add: Let_def)
qed

text \<open>The bytes of a variable-length number, as arithmetic on natural numbers.\<close>

fun varint_bytes :: "nat \<Rightarrow> bytes" where
  "varint_bytes n = (if n < 128 then [of_nat n] else of_nat (128 + n mod 128) # varint_bytes (n div 128))"

declare varint_bytes.simps [simp del]

lemma or_0x80: "unat b < 128 \<Longrightarrow> (b :: u8) OR 0x80 = b + 0x80"
proof -
  assume "unat b < 128"
  have "\<not> bit b n \<or> \<not> bit (0x80 :: u8) n" for n
  proof (cases "n = 7")
    case True
    have "\<not> bit b 7" using \<open>unat b < 128\<close> by (simp add: bit_iff_odd_unat)
    then show ?thesis using True by simp
  next
    case False
    have "\<not> bit (push_bit 7 1 :: u8) n" using False by (simp add: bit_push_bit_iff bit_1_iff del: push_bit_of_1)
    moreover have "(push_bit 7 1 :: u8) = 0x80" by simp
    ultimately show ?thesis by (simp del: push_bit_of_1)
  qed
  then have "b AND 0x80 = 0" by (auto simp: bit_eq_iff bit_and_iff)
  then show ?thesis by (rule disjunctive_add_eq_or [symmetric])
qed

lemma and_0x7F: "unat (val AND 0x7F :: u64) = unat val mod 128"
proof -
  have "(0x7F :: u64) = mask 7" by (simp add: mask_eq_exp_minus_1)
  then have "unat (val AND 0x7F) = unat (take_bit 7 val)" by (simp only: take_bit_eq_mask)
  then show ?thesis by (simp only: unat_take_bit_mod) simp
qed

lemma encode_varint64_eq: "encode_varint64 val = varint_bytes (unat val)"
proof (induction val rule: encode_varint64.induct)
  case (1 val)
  let ?b = "ucast (val AND 0x7F) :: u8"
  have b: "unat ?b = unat val mod 128"
    by (subst unat_ucast_down) (simp_all add: and_0x7F)
  then have lt: "unat ?b < 128" by simp
  have z: "drop_bit 7 val = 0 \<longleftrightarrow> unat val < 128" by (simp add: drop_bit_eq_0_iff)
  show ?case
  proof (cases "unat val < 128")
    case True
    then have "unat ?b = unat val" using b by simp
    then have "?b = of_nat (unat val)" by (metis of_nat_unat ucast_id)
    then show ?thesis using True z
      by (subst encode_varint64.simps, subst varint_bytes.simps) (simp add: Let_def del: of_nat_unat)
  next
    case False
    have "unat (?b OR 0x80) = unat val mod 128 + 128"
      using b lt by (simp add: or_0x80 unat_word_ariths)
    moreover have "unat (of_nat (128 + unat val mod 128) :: u8) = 128 + unat val mod 128"
      by (simp only: unat_of_nat) simp
    ultimately have "?b OR 0x80 = of_nat (128 + unat val mod 128)"
      by (simp only: word_unat_eq_iff add.commute)
    moreover have "encode_varint64 (drop_bit 7 val) = varint_bytes (unat val div 128)"
      using 1 [OF refl refl] False z by (simp add: unat_drop_bit_div)
    ultimately show ?thesis using False z
      by (subst encode_varint64.simps, subst varint_bytes.simps) (simp add: Let_def)
  qed
qed

lemma varint_cases:
  assumes "enc_ok e"
  obtains (refused) "encode_varint realloc val e = Fail EncodeOutOfMemory" "\<not> (\<forall>m n a. fst (realloc m n a))"
  | (put) e' where "encode_varint realloc val e = Ok e'" "puts e (encode_varint64 val) e'"
proof (cases "val < 128 \<and> e_ptr e \<noteq> 0")
  case True
  have "encode_varint64 val = [ucast val]"
    using True by (simp add: encode_varint64_eq varint_bytes.simps word_less_nat_alt)
  moreover have "enc_ok (e\<lparr>e_ptr := e_ptr e - 1\<rparr>)" "drop (e_ptr e - 1 + 1) (e_buf e) = written e"
    "e_ptr e - 1 + 1 \<le> length (e_buf e)"
    using assms True by (auto simp: enc_ok_def written_def)
  ultimately show thesis
    using True assms
    by (intro put [of "e\<lparr>e_ptr := e_ptr e - 1, e_buf := take (e_ptr e - 1) (e_buf e) @ [ucast val] @ drop (e_ptr e) (e_buf e)\<rparr>"])
      (auto simp: encode_varint_def write_at_def puts_def enc_ok_def written_def)
next
  case False
  let ?bs = "encode_varint64 val"
  note len = length_encode_varint64 [of val]
  show thesis
  proof (rule reserve_cases [OF assms, of realloc 10])
    fix e1
    assume e1: "encode_reserve realloc 10 e = Ok e1" "enc_ok e1"
      "drop (e_ptr e1 + 10) (e_buf e1) = written e" "e_ptr e1 + 10 \<le> length (e_buf e1)"
      "e_options e1 = e_options e" "e_depth e1 = e_depth e"
    let ?p = "e_ptr e1" and ?start = "e_ptr e1 + 10 - length ?bs"
    define b2 where "b2 = take ?p (e_buf e1) @ ?bs @ drop (?p + length ?bs) (e_buf e1)"
    define b3 where "b3 = take ?start b2 @ ?bs @ drop (?start + length ?bs) b2"
    have l2: "length b2 = length (e_buf e1)" using e1(4) len(1) by (simp add: b2_def)
    have d2: "drop (?p + 10) b2 = written e" using e1(3,4) len(1) by (simp add: b2_def add.commute)
    have t2: "take (length ?bs) (drop ?p b2) = ?bs" using e1(4) by (simp add: b2_def)
    have lw: "length (written e) = length (e_buf e1) - (?p + 10)"
      using arg_cong [OF d2, of length] l2 by simp
    have "?start + length ?bs = ?p + 10" using len(1) by simp
    then have d3: "drop ?start b3 = ?bs @ written e" "length b3 = length (e_buf e1)"
      using l2 d2 e1(4) len(1) lw by (simp_all add: b3_def)
    show thesis
      using False e1 len(1) l2 t2 d3
      by (intro put [of "e1\<lparr>e_buf := b3, e_ptr := ?start\<rparr>"])
        (auto simp: encode_varint_def encode_longvarint_def UPB_PB_VARINT_MAX_LEN_def write_at_def Let_def
          puts_def enc_ok_def written_def b3_def simp flip: b2_def)
  qed (use False in \<open>auto intro!: refused simp: encode_varint_def encode_longvarint_def UPB_PB_VARINT_MAX_LEN_def\<close>)
qed

end
