(* ===== verification/WireRead.thy ===== *)
theory WireRead
  imports WireEncode
begin

text \<open>
  \<open>upb/wire/reader.h\<close>, \<open>upb/wire/internal/reader.h\<close> and \<open>upb/wire/reader.c\<close>: reading the primitive
  wire values. A reader gets the bytes that can be read at \<open>ptr\<close>; reading past them is \<open>UB\<close>, a
  \<open>NULL\<close> result is \<open>Fail ()\<close>, otherwise the value comes with the number of bytes consumed.
\<close>

section \<open>Readers\<close>

definition byte_at :: "bytes \<Rightarrow> nat \<Rightarrow> (unit, u8) cres" where
  "byte_at p i = cassert (i < length p) (Ok (p ! i))"

text \<open>The loop of \<open>_upb_WireReader_ReadLongVarint\<close>, for \<open>n\<close> more bytes from index \<open>i\<close>.\<close>

fun read_long_loop :: "bytes \<Rightarrow> nat \<Rightarrow> nat \<Rightarrow> u64 \<Rightarrow> (unit, u64 \<times> nat) cres" where
  "read_long_loop p i 0 val = Fail ()"
| "read_long_loop p i (Suc n) val =
     cbind (byte_at p i) (\<lambda>byte.
       let val = val + push_bit (i * 7) (ucast byte - 1) in
       if byte AND 0x80 = 0 then Ok (val, i + 1) else read_long_loop p (Suc i) n val)"

definition upb_WireReader_ReadLongVarint :: "bytes \<Rightarrow> u64 \<Rightarrow> (unit, u64 \<times> nat) cres" where
  "upb_WireReader_ReadLongVarint p val = read_long_loop p 1 9 val"

definition upb_WireReader_ReadVarint_max :: "bytes \<Rightarrow> nat \<Rightarrow> u64 \<Rightarrow> (unit, u64 \<times> nat) cres" where
  "upb_WireReader_ReadVarint_max p maxlen maxval =
     cbind (byte_at p 0) (\<lambda>byte.
       if byte AND 0x80 = 0 then Ok (ucast byte, 1)
       else
         cbind (upb_WireReader_ReadLongVarint p (ucast byte)) (\<lambda>(val, len).
           if (maxlen < 10 \<and> len > maxlen) \<or> val > maxval then Fail () else Ok (val, len)))"

definition upb_WireReader_ReadTag :: "bytes \<Rightarrow> (unit, u32 \<times> nat) cres" where
  "upb_WireReader_ReadTag p =
     cbind (upb_WireReader_ReadVarint_max p 5 0xFFFFFFFF) (\<lambda>(val, len). Ok (ucast val, len))"

definition upb_WireReader_GetFieldNumber :: "u32 \<Rightarrow> u32" where
  "upb_WireReader_GetFieldNumber tag = drop_bit 3 tag"

definition upb_WireReader_GetWireType :: "u32 \<Rightarrow> u8" where
  "upb_WireReader_GetWireType tag = ucast (tag AND 7)"

definition upb_WireReader_ReadVarint :: "bytes \<Rightarrow> (unit, u64 \<times> nat) cres" where
  "upb_WireReader_ReadVarint p = upb_WireReader_ReadVarint_max p 10 (- 1)"

definition upb_WireReader_SkipVarint :: "bytes \<Rightarrow> (unit, nat) cres" where
  "upb_WireReader_SkipVarint p = cbind (upb_WireReader_ReadVarint p) (\<lambda>(_, len). Ok len)"

text \<open>A size fits an \<open>int\<close>, and \<open>INT32_MAX\<close> is refused as well.\<close>

definition upb_WireReader_ReadSize :: "bytes \<Rightarrow> (unit, int \<times> nat) cres" where
  "upb_WireReader_ReadSize p =
     cbind (upb_WireReader_ReadVarint p) (\<lambda>(size64, len).
       if size64 \<ge> 0x7FFFFFFF then Fail () else Ok (uint size64, len))"

text \<open>\<open>memcpy\<close> of a little-endian word.\<close>

definition le_word :: "bytes \<Rightarrow> u64" where
  "le_word p = foldr (\<lambda>b acc. push_bit 8 acc OR ucast b) p 0"

definition upb_WireReader_ReadFixed32 :: "bytes \<Rightarrow> (unit, u32 \<times> nat) cres" where
  "upb_WireReader_ReadFixed32 p = cassert (4 \<le> length p) (Ok (ucast (le_word (take 4 p)), 4))"

definition upb_WireReader_ReadFixed64 :: "bytes \<Rightarrow> (unit, u64 \<times> nat) cres" where
  "upb_WireReader_ReadFixed64 p = cassert (8 \<le> length p) (Ok (le_word (take 8 p), 8))"

section \<open>Variable-length numbers\<close>

lemma length_varint_bytes: "n < 2 ^ (7 * k) \<Longrightarrow> 0 < k \<Longrightarrow> length (varint_bytes n) \<le> k"
proof (induction k arbitrary: n)
  case (Suc k)
  show ?case
  proof (cases "n < 128")
    case True
    then show ?thesis by (subst varint_bytes.simps) simp
  next
    case False
    have "n div 128 < 2 ^ (7 * k)"
      using Suc.prems(1) by (intro less_mult_imp_div_less) (simp add: power_add mult.commute)
    moreover from False Suc.prems(1) have "0 < k" by (cases k) auto
    ultimately show ?thesis using Suc.IH [of "n div 128"] False by (subst varint_bytes.simps) simp
  qed
qed simp

lemma and_0x80: "(b :: u8) AND 0x80 = 0 \<longleftrightarrow> unat b < 128"
proof -
  have m: "(0x80 :: u8) = push_bit 7 1" by (simp add: push_bit_eq_mult)
  have "b AND 0x80 = 0 \<longleftrightarrow> \<not> bit b 7"
  proof
    have "bit (b AND push_bit 7 1) 7 = bit b 7" by (simp add: bit_simps del: push_bit_of_1)
    then show "b AND 0x80 = 0 \<Longrightarrow> \<not> bit b 7" unfolding m by simp
  next
    assume *: "\<not> bit b 7"
    have "b AND push_bit 7 1 = 0"
    proof (rule bit_word_eqI)
      fix n assume "n < LENGTH(8)"
      with * show "bit (b AND push_bit 7 1) n = bit 0 n"
        by (cases "n = 7") (auto simp: bit_simps simp del: push_bit_of_1)
    qed
    then show "b AND 0x80 = 0" unfolding m .
  qed
  also have "\<dots> \<longleftrightarrow> unat b < 128"
  proof -
    have "unat b div 2 ^ 7 < 2" using unat_less_numeral_power(1) [of b] by (simp add: less_mult_imp_div_less)
    then have "odd (unat b div 2 ^ 7) \<longleftrightarrow> unat b div 2 ^ 7 \<noteq> 0"
      by (metis One_nat_def even_zero less_2_cases odd_one)
    then show ?thesis by (auto simp: bit_iff_odd_unat div_eq_0_iff)
  qed
  finally show ?thesis .
qed

text \<open>\<open>low\<close> is what the bytes read so far contribute; the last of them has left its flag, one unit at
  the next place.\<close>

lemma read_long_eq:
  "length pre = i \<Longrightarrow> 0 < i \<Longrightarrow> length (varint_bytes m) \<le> n \<Longrightarrow>
    read_long_loop (pre @ varint_bytes m @ rest) i n (of_nat (low + 2 ^ (7 * i))) =
      Ok (of_nat (low + m * 2 ^ (7 * i)), i + length (varint_bytes m))"
proof (induction m arbitrary: pre i n low rule: varint_bytes.induct)
  case (1 m)
  have "0 < length (varint_bytes m)" by (subst varint_bytes.simps) simp
  with "1.prems"(3) obtain n' where n: "n = Suc n'" by (cases n) auto
  show ?case
  proof (cases "m < 128")
    case True
    then have vb: "varint_bytes m = [of_nat m]" by (simp add: varint_bytes.simps)
    have u: "unat (of_nat m :: u8) = m" using True by (simp add: unat_of_nat)
    have c: "ucast (of_nat m :: u8) = (of_nat m :: u64)" by (metis u of_nat_unat)
    have "of_nat (low + 2 ^ (7 * i)) + push_bit (i * 7) (of_nat m - 1) = (of_nat (low + m * 2 ^ (7 * i)) :: u64)"
      by (simp add: push_bit_eq_mult algebra_simps)
    then show ?thesis
      using "1.prems"(1) u True by (simp add: n vb byte_at_def nth_append and_0x80 c Let_def del: of_nat_add)
  next
    case False
    then have vb: "varint_bytes m = of_nat (128 + m mod 128) # varint_bytes (m div 128)"
      by (simp add: varint_bytes.simps)
    let ?b = "of_nat (128 + m mod 128) :: u8"
    have u: "unat ?b = 128 + m mod 128" by (simp only: unat_of_nat) simp
    have c: "ucast ?b = (of_nat (128 + m mod 128) :: u64)" by (metis u of_nat_unat)
    define low' where "low' = low + m mod 128 * 2 ^ (7 * i)"
    have "of_nat (low + 2 ^ (7 * i)) + push_bit (i * 7) (ucast ?b - 1) = (of_nat (low' + 2 ^ (7 * Suc i)) :: u64)"
      unfolding c by (simp add: push_bit_eq_mult low'_def algebra_simps power_add)
    moreover have "read_long_loop ((pre @ [?b]) @ varint_bytes (m div 128) @ rest) (Suc i) n'
        (of_nat (low' + 2 ^ (7 * Suc i))) =
        Ok (of_nat (low' + m div 128 * 2 ^ (7 * Suc i)), Suc i + length (varint_bytes (m div 128)))"
      using "1.prems" n by (intro "1.IH" [OF False]) (simp_all add: vb)
    moreover have "low' + m div 128 * 2 ^ (7 * Suc i) = low + m * 2 ^ (7 * i)"
    proof -
      have "m div 128 * 2 ^ (7 * Suc i) = m div 128 * 128 * 2 ^ (7 * i)" by (simp add: power_add)
      then have "low' + m div 128 * 2 ^ (7 * Suc i) = low + (m div 128 * 128 + m mod 128) * 2 ^ (7 * i)"
        by (simp only: low'_def add_mult_distrib add.assoc add.commute)
      then show ?thesis by (simp only: div_mult_mod_eq)
    qed
    moreover have "byte_at (pre @ varint_bytes m @ rest) i = Ok ?b"
      using "1.prems"(1) by (simp add: byte_at_def vb nth_append)
    moreover have "?b AND 0x80 \<noteq> 0" unfolding and_0x80 u by simp
    ultimately show ?thesis by (simp add: n vb Let_def del: of_nat_add)
  qed
qed

lemma ReadVarint_max_varint_bytes:
  assumes "m \<le> unat maxval" "length (varint_bytes m) \<le> maxlen" "maxlen \<le> 10"
  shows "upb_WireReader_ReadVarint_max (varint_bytes m @ rest) maxlen maxval =
    Ok (of_nat m, length (varint_bytes m))"
proof (cases "m < 128")
  case True
  then have vb: "varint_bytes m = [of_nat m]" by (simp add: varint_bytes.simps)
  have u: "unat (of_nat m :: u8) = m" using True by (simp add: unat_of_nat)
  have c: "ucast (of_nat m :: u8) = (of_nat m :: u64)" by (metis u of_nat_unat)
  have "(of_nat m :: u8) AND 0x80 = 0" using u True by (simp only: and_0x80)
  then show ?thesis by (simp add: upb_WireReader_ReadVarint_max_def byte_at_def vb c)
next
  case False
  then have vb: "varint_bytes m = of_nat (128 + m mod 128) # varint_bytes (m div 128)"
    by (simp add: varint_bytes.simps)
  let ?b = "of_nat (128 + m mod 128) :: u8"
  have u: "unat ?b = 128 + m mod 128" by (simp only: unat_of_nat) simp
  have c: "ucast ?b = (of_nat (128 + m mod 128) :: u64)" by (metis u of_nat_unat)
  have len: "length (varint_bytes (m div 128)) \<le> 9" using assms(2,3) by (simp add: vb)
  have "read_long_loop ([?b] @ varint_bytes (m div 128) @ rest) 1 9 (of_nat (m mod 128 + 2 ^ (7 * 1))) =
      Ok (of_nat (m mod 128 + m div 128 * 2 ^ (7 * 1)), 1 + length (varint_bytes (m div 128)))"
    by (rule read_long_eq) (simp_all add: len)
  moreover have "m mod 128 + m div 128 * 2 ^ (7 * 1) = m" by simp
  moreover have "of_nat (m mod 128 + 2 ^ (7 * 1)) = (of_nat (128 + m mod 128) :: u64)"
    by (rule arg_cong [where f = of_nat]) simp
  ultimately have long: "upb_WireReader_ReadLongVarint (varint_bytes m @ rest) (ucast ?b) =
      Ok (of_nat m, length (varint_bytes m))"
    unfolding upb_WireReader_ReadLongVarint_def c by (simp add: vb del: of_nat_add)
  have "unat maxval < 2 ^ 64" using unsigned_less [of maxval] by simp
  then have mv: "\<not> (of_nat m :: u64) > maxval"
    using assms(1) by (simp add: word_less_nat_alt unat_of_nat)
  have "byte_at (varint_bytes m @ rest) 0 = Ok ?b" by (simp add: byte_at_def vb)
  moreover have "?b AND 0x80 \<noteq> 0" unfolding and_0x80 u by simp
  ultimately show ?thesis
    using long mv assms(2) by (simp add: upb_WireReader_ReadVarint_max_def)
qed


section \<open>Round trips\<close>

lemma le_word_le_bytes: "le_word (le_bytes n v) = take_bit (8 * n) v"
proof (induction n arbitrary: v)
  case 0
  show ?case by (simp add: le_word_def le_bytes_def)
next
  case (Suc n)
  have "le_bytes (Suc n) v = ucast v # le_bytes n (drop_bit 8 v)"
    by (simp add: le_bytes_def map_upt_Suc add.commute del: upt_Suc)
  then have "le_word (le_bytes (Suc n) v) = push_bit 8 (take_bit (8 * n) (drop_bit 8 v)) OR ucast (ucast v :: u8)"
    using Suc.IH by (simp add: le_word_def)
  also have "\<dots> = take_bit (8 * Suc n) v"
    by (rule bit_word_eqI) (auto simp: bit_simps)
  finally show ?case .
qed

lemma length_le_bytes [simp]: "length (le_bytes n v) = n"
  by (simp add: le_bytes_def)

lemma ReadVarint_encode_varint64:
  "upb_WireReader_ReadVarint (encode_varint64 val @ rest) = Ok (val, length (encode_varint64 val))"
  unfolding upb_WireReader_ReadVarint_def encode_varint64_eq
  by (subst ReadVarint_max_varint_bytes)
    (use length_encode_varint64 [of val] in \<open>simp_all add: encode_varint64_eq word_n1_ge flip: word_le_nat_alt\<close>)

lemma ReadTag_encode_varint64:
  "upb_WireReader_ReadTag (encode_varint64 (ucast tag) @ rest) = Ok (tag, length (encode_varint64 (ucast tag)))"
proof -
  have u: "unat (ucast tag :: u64) = unat tag" by (simp add: unat_ucast_up)
  have lt: "unat tag < 4294967296" using unsigned_less [of tag] by simp
  then have "length (varint_bytes (unat tag)) \<le> 5" by (intro length_varint_bytes less_trans [OF lt]) simp_all
  moreover have "unat (0xFFFFFFFF :: u64) = 4294967295" by simp
  with lt have "unat tag \<le> unat (0xFFFFFFFF :: u64)" by linarith
  ultimately have "upb_WireReader_ReadVarint_max (varint_bytes (unat tag) @ rest) 5 0xFFFFFFFF =
      Ok (of_nat (unat tag), length (varint_bytes (unat tag)))"
    by (intro ReadVarint_max_varint_bytes) simp_all
  moreover have "ucast (ucast tag :: u64) = tag" by (rule bit_word_eqI) (auto simp: bit_simps)
  then have "ucast (of_nat (unat tag) :: u64) = tag" by (metis u of_nat_unat)
  ultimately show ?thesis by (simp add: upb_WireReader_ReadTag_def encode_varint64_eq u)
qed


lemma mem_bytes_tag:
  assumes "field < 0x20000000" "wt < 8"
  shows "drop_bit 3 (push_bit 3 field OR ucast (wt :: u8)) = (field :: u32)"
    "ucast ((push_bit 3 field OR ucast wt) AND (7 :: u32)) = wt"
proof -
  have f: "take_bit 29 field = field"
    using assms(1) by (simp add: word_unat_eq_iff unat_take_bit_mod word_less_nat_alt)
  have w: "take_bit 3 wt = wt"
    using assms(2) by (simp add: word_unat_eq_iff unat_take_bit_mod word_less_nat_alt)
  have "drop_bit 3 (push_bit 3 (take_bit 29 field) OR ucast (take_bit 3 wt)) = take_bit 29 field"
    by (rule bit_word_eqI) (auto simp: bit_simps)
  then show "drop_bit 3 (push_bit 3 field OR ucast wt) = field" by (simp only: f w)
  have m: "(7 :: u32) = mask 3" by (simp add: mask_eq_exp_minus_1)
  have "ucast ((push_bit 3 field OR ucast (take_bit 3 wt)) AND mask 3) = take_bit 3 wt"
    by (rule bit_word_eqI) (auto simp: bit_simps)
  then show "ucast ((push_bit 3 field OR ucast wt) AND (7 :: u32)) = wt" by (simp only: w m)
qed

text \<open>C39: a number that the encoder has put in front of its output is read back by the reader, which
  consumes exactly the bytes written for it and stops at the older output.\<close>

theorem varint_roundtrip:
  assumes "enc_ok e" "encode_varint realloc val e = Ok e'"
  shows "\<exists>n. upb_WireReader_ReadVarint (written e') = Ok (val, n) \<and> n \<le> 10 \<and> drop n (written e') = written e \<and>
    upb_WireReader_SkipVarint (written e') = Ok n"
  using assms(1)
proof (cases rule: varint_cases [where realloc = realloc and val = val])
  case (put e'')
  then have "written e' = encode_varint64 val @ written e" using assms(2) by (simp add: puts_def)
  then show ?thesis
    using length_encode_varint64 [of val] by (simp add: ReadVarint_encode_varint64 upb_WireReader_SkipVarint_def)
qed (use assms(2) in simp)

text \<open>C40: a field tag that the encoder has put in front of its output is read back as the same field
  number and wire type, for every field number the format allows.\<close>

theorem tag_roundtrip:
  assumes "enc_ok e" "encode_tag realloc field wt e = Ok e'" "field < 0x20000000" "wt < 8"
  shows "\<exists>tag n. upb_WireReader_ReadTag (written e') = Ok (tag, n) \<and> drop n (written e') = written e \<and>
    upb_WireReader_GetFieldNumber tag = field \<and> upb_WireReader_GetWireType tag = wt"
  using assms(1)
proof (cases rule: varint_cases [where realloc = realloc and val = "ucast (push_bit 3 field OR ucast wt)"])
  case (put e'')
  then have "written e' = encode_varint64 (ucast (push_bit 3 field OR ucast wt)) @ written e"
    using assms(2) by (simp add: puts_def encode_tag_def)
  then show ?thesis
    using mem_bytes_tag [OF assms(3,4)]
    by (simp add: ReadTag_encode_varint64 upb_WireReader_GetFieldNumber_def upb_WireReader_GetWireType_def
        del: push_bit_of_1)
qed (use assms(2) in \<open>simp add: encode_tag_def\<close>)

text \<open>Fixed-width numbers that the encoder has put in front of its output are read back.\<close>

theorem fixed_roundtrip:
  assumes "enc_ok e" "encode_fixed32 realloc v32 e = Ok e'" "encode_fixed64 realloc v64 e' = Ok e''"
  shows "upb_WireReader_ReadFixed64 (written e'') = Ok (v64, 8) \<and>
    upb_WireReader_ReadFixed32 (drop 8 (written e'')) = Ok (v32, 4) \<and> drop 12 (written e'') = written e"
proof -
  have *: "puts e bs e'" if "enc_ok e" "encode_bytes realloc bs e = Ok e'" for bs and e e' :: "'a upb_encstate"
    using that(1) by (cases rule: bytes_cases [where realloc = realloc and bs = bs]) (use that(2) in simp_all)
  have p: "puts e (le_bytes 4 (ucast v32)) e'" using assms(1,2) unfolding encode_fixed32_def by (rule *)
  then have "enc_ok e'" by (simp add: puts_def)
  then have "puts e' (le_bytes 8 v64) e''" using assms(3) unfolding encode_fixed64_def by (rule *)
  moreover have "ucast (take_bit 32 (ucast v32 :: u64)) = v32" by (rule bit_word_eqI) (auto simp: bit_simps)
  ultimately show ?thesis
    using p by (simp add: puts_def upb_WireReader_ReadFixed64_def upb_WireReader_ReadFixed32_def le_word_le_bytes take_bit_word_eq_self)
qed


section \<open>Bounds\<close>

lemma read_long_bounds:
  "i + n \<le> length p \<Longrightarrow> read_long_loop p i n val = Fail () \<or>
    (\<exists>v len. read_long_loop p i n val = Ok (v, len) \<and> i < len \<and> len \<le> i + n)"
proof (induction n arbitrary: i val)
  case (Suc n)
  let ?val = "val + push_bit (i * 7) (ucast (p ! i) - 1)"
  from Suc.IH [of "Suc i" ?val] Suc.prems show ?case
    by (auto simp: byte_at_def Let_def)
qed simp

lemma ReadVarint_max_bounds:
  assumes "10 \<le> length p"
  shows "upb_WireReader_ReadVarint_max p maxlen maxval = Fail () \<or>
    (\<exists>v len. upb_WireReader_ReadVarint_max p maxlen maxval = Ok (v, len) \<and> 0 < len \<and> len \<le> 10 \<and>
       (0 < maxlen \<longrightarrow> maxlen < 10 \<longrightarrow> len \<le> maxlen) \<and> (v \<le> maxval \<or> v < 128))"
proof (cases "p ! 0 AND 0x80 = 0")
  case True
  then have "unat (p ! 0) < 128" by (simp only: and_0x80)
  then have "(ucast (p ! 0) :: u64) < 128" by (simp add: word_less_nat_alt unat_ucast_up)
  moreover have "p \<noteq> []" using assms by auto
  then have "byte_at p 0 = Ok (p ! 0)" by (simp add: byte_at_def)
  ultimately show ?thesis using True by (simp add: upb_WireReader_ReadVarint_max_def)
next
  case False
  have "1 + 9 \<le> length p" using assms by simp
  moreover have "p \<noteq> []" using assms by auto
  then have "byte_at p 0 = Ok (p ! 0)" by (simp add: byte_at_def)
  ultimately show ?thesis using read_long_bounds [of 1 9 p "ucast (p ! 0)"] False
    by (auto simp: upb_WireReader_ReadVarint_max_def upb_WireReader_ReadLongVarint_def split: if_splits)
qed

text \<open>With the ten bytes that the readers ask for they stay inside the input: a number ends
  after at most ten bytes, a tag after at most five, and a size fits an \<open>int\<close>.\<close>

theorem readers_in_bounds:
  assumes "10 \<le> length p"
  shows "upb_WireReader_ReadVarint p \<noteq> UB \<and> upb_WireReader_ReadTag p \<noteq> UB \<and> upb_WireReader_ReadSize p \<noteq> UB \<and>
    (\<forall>v n. upb_WireReader_ReadVarint p = Ok (v, n) \<longrightarrow> 0 < n \<and> n \<le> 10) \<and>
    (\<forall>tag n. upb_WireReader_ReadTag p = Ok (tag, n) \<longrightarrow> 0 < n \<and> n \<le> 5) \<and>
    (\<forall>size n. upb_WireReader_ReadSize p = Ok (size, n) \<longrightarrow> 0 < n \<and> n \<le> 10 \<and> 0 \<le> size \<and> size < 0x7FFFFFFF)"
proof -
  from ReadVarint_max_bounds [OF assms, of 10 "- 1"]
  have v: "upb_WireReader_ReadVarint p = Fail () \<or>
      (\<exists>v len. upb_WireReader_ReadVarint p = Ok (v, len) \<and> 0 < len \<and> len \<le> 10)"
    unfolding upb_WireReader_ReadVarint_def by auto
  from ReadVarint_max_bounds [OF assms, of 5 "0xFFFFFFFF"]
  have t: "upb_WireReader_ReadTag p = Fail () \<or>
      (\<exists>t len. upb_WireReader_ReadTag p = Ok (t, len) \<and> 0 < len \<and> len \<le> 5)"
    unfolding upb_WireReader_ReadTag_def by auto
  from v t show ?thesis
    by (auto simp: upb_WireReader_ReadSize_def word_le_def split: if_splits)
qed

section \<open>Instances\<close>

definition small_encoder :: "unit upb_encstate" where
  "small_encoder = \<lparr>e_arena = (), e_buf = replicate 16 0, e_ptr = 16, e_options = 0, e_depth = 64\<rparr>"

lemma small_encoder_ok: "enc_ok small_encoder" "written small_encoder = []"
  by (simp_all add: enc_ok_def small_encoder_def written_def)

theorem varint_roundtrip_witness:
  "\<exists>e n. encode_varint (\<lambda>_ _ _. (True, ())) 300 small_encoder = Ok e \<and>
    upb_WireReader_ReadVarint (written e) = Ok (300, n)"
proof (cases rule: varint_cases [OF small_encoder_ok(1), of "\<lambda>_ _ _. (True, ())" 300])
  case (2 e)
  with varint_roundtrip [OF small_encoder_ok(1) 2(1)] 2(1) show ?thesis
    by (auto simp: small_encoder_ok)
qed auto

theorem tag_roundtrip_witness:
  "\<exists>e tag n. encode_tag (\<lambda>_ _ _. (True, ())) 1000 2 small_encoder = Ok e \<and>
    upb_WireReader_ReadTag (written e) = Ok (tag, n) \<and>
    upb_WireReader_GetFieldNumber tag = 1000 \<and> upb_WireReader_GetWireType tag = 2"
proof (cases rule: varint_cases [OF small_encoder_ok(1), of "\<lambda>_ _ _. (True, ())" "ucast (push_bit 3 1000 OR ucast (2 :: u8) :: u32)"])
  case (2 e)
  then have e: "encode_tag (\<lambda>_ _ _. (True, ())) 1000 2 small_encoder = Ok e" by (simp only: encode_tag_def)
  have "(1000 :: u32) < 0x20000000" "(2 :: u8) < 8" by simp_all
  from tag_roundtrip [OF small_encoder_ok(1) e this] e show ?thesis by blast
qed auto

theorem fixed_roundtrip_witness:
  "\<exists>e e'. encode_fixed32 (\<lambda>_ _ _. (True, ())) 7 small_encoder = Ok e \<and>
    encode_fixed64 (\<lambda>_ _ _. (True, ())) 9 e = Ok e' \<and>
    upb_WireReader_ReadFixed64 (written e') = Ok (9, 8)"
proof -
  obtain e where e: "encode_fixed32 (\<lambda>_ _ _. (True, ())) 7 small_encoder = Ok e" "enc_ok e"
    by (rule bytes_cases [OF small_encoder_ok(1), of "\<lambda>_ _ _. (True, ())" "le_bytes 4 (ucast (7 :: u32))"])
      (auto simp: encode_fixed32_def puts_def)
  obtain e' where "encode_fixed64 (\<lambda>_ _ _. (True, ())) 9 e = Ok e'"
    by (rule bytes_cases [OF e(2), of "\<lambda>_ _ _. (True, ())" "le_bytes 8 9"])
      (auto simp: encode_fixed64_def puts_def)
  with fixed_roundtrip [OF small_encoder_ok(1) e(1) this] e(1) show ?thesis by blast
qed

theorem readers_in_bounds_witness: "upb_WireReader_ReadTag (replicate 10 0xFF) \<noteq> UB"
  using readers_in_bounds [of "replicate 10 0xFF"] by simp

end
