(* ===== verification/Memory.thy ===== *)
theory Memory
  imports WireRead
begin

text \<open>
  The memory of the C program, for the parts of the library that keep their data in structures of
  bytes: messages, arrays, arenas. An address that is not mapped has no byte; reading or writing it is
  \<open>UB\<close>. \<open>memcpy\<close>, \<open>memset\<close> and the accesses to members of structures go through \<open>load\<close> and \<open>store\<close>.
\<close>

type_synonym mem = "u64 \<Rightarrow> u8 option"

definition all_mapped :: "mem \<Rightarrow> u64 \<Rightarrow> nat \<Rightarrow> bool" where
  "all_mapped m p n = list_all (\<lambda>i. m (p + of_nat i) \<noteq> None) [0..<n]"

definition load :: "mem \<Rightarrow> u64 \<Rightarrow> nat \<Rightarrow> (unit, bytes) cres" where
  "load m p n = cassert (all_mapped m p n) (Ok (map (\<lambda>i. the (m (p + of_nat i))) [0..<n]))"

definition store :: "mem \<Rightarrow> u64 \<Rightarrow> bytes \<Rightarrow> (unit, mem) cres" where
  "store m p bs =
     cassert (all_mapped m p (length bs))
       (Ok (\<lambda>a. if unat (a - p) < length bs then Some (bs ! unat (a - p)) else m a))"

definition load64 :: "mem \<Rightarrow> u64 \<Rightarrow> (unit, u64) cres" where
  "load64 m p = cbind (load m p 8) (\<lambda>bs. Ok (le_word bs))"

definition load32 :: "mem \<Rightarrow> u64 \<Rightarrow> (unit, u32) cres" where
  "load32 m p = cbind (load m p 4) (\<lambda>bs. Ok (ucast (le_word bs)))"

definition load8 :: "mem \<Rightarrow> u64 \<Rightarrow> (unit, u8) cres" where
  "load8 m p = cbind (load m p 1) (\<lambda>bs. Ok (hd bs))"

definition store64 :: "mem \<Rightarrow> u64 \<Rightarrow> u64 \<Rightarrow> (unit, mem) cres" where
  "store64 m p x = store m p (le_bytes 8 x)"

definition store32 :: "mem \<Rightarrow> u64 \<Rightarrow> u32 \<Rightarrow> (unit, mem) cres" where
  "store32 m p x = store m p (le_bytes 4 (ucast x))"

definition store8 :: "mem \<Rightarrow> u64 \<Rightarrow> u8 \<Rightarrow> (unit, mem) cres" where
  "store8 m p x = store m p [x]"

section \<open>Ranges of addresses\<close>

definition range_of :: "u64 \<Rightarrow> nat \<Rightarrow> u64 set" where
  "range_of p n = {a. unat (a - p) < n}"

definition mapped :: "mem \<Rightarrow> u64 \<Rightarrow> nat \<Rightarrow> bool" where
  "mapped m p n \<longleftrightarrow> (\<forall>a \<in> range_of p n. m a \<noteq> None)"

lemma mapped_mono: "mapped m p n \<Longrightarrow> range_of q k \<subseteq> range_of p n \<Longrightarrow> mapped m q k"
  by (auto simp: mapped_def)

lemma unat_of_nat64: "n < 2 ^ 64 \<Longrightarrow> unat (of_nat n :: u64) = n"
  by (intro of_nat_inverse [OF refl]) simp

lemma range_of_iff: "n \<le> 2 ^ 64 \<Longrightarrow> a \<in> range_of p n \<longleftrightarrow> (\<exists>i < n. a = p + of_nat i)"
proof
  assume "a \<in> range_of p n"
  then show "\<exists>i < n. a = p + of_nat i" by (intro exI [of _ "unat (a - p)"]) (simp add: range_of_def)
next
  assume n: "n \<le> 2 ^ 64" and "\<exists>i < n. a = p + of_nat i"
  then obtain i where i: "i < n" "a = p + of_nat i" by blast
  then have "unat (a - p) = i" using n by (simp add: unat_of_nat64 del: unat_of_nat)
  then show "a \<in> range_of p n" using i by (simp add: range_of_def)
qed

lemma all_mapped_iff: "all_mapped m p n \<longleftrightarrow> (\<forall>i < n. m (p + of_nat i) \<noteq> None)"
  by (auto simp: all_mapped_def list_all_iff)

lemma all_mapped_eq: "n \<le> 2 ^ 64 \<Longrightarrow> all_mapped m p n = mapped m p n"
proof -
  assume n: "n \<le> 2 ^ 64"
  have "(\<forall>i < n. m (p + of_nat i) \<noteq> None) \<longleftrightarrow> (\<forall>a. (\<exists>i < n. a = p + of_nat i) \<longrightarrow> m a \<noteq> None)" by blast
  then show ?thesis using n by (simp only: all_mapped_iff mapped_def Ball_def range_of_iff)
qed

lemma load_Ok_iff:
  "n \<le> 2 ^ 64 \<Longrightarrow> load m p n = Ok bs \<longleftrightarrow> mapped m p n \<and> bs = map (\<lambda>i. the (m (p + of_nat i))) [0..<n]"
  by (auto simp only: load_def cres_simps all_mapped_eq cres.inject)

lemma store_Ok_iff:
  "length bs \<le> 2 ^ 64 \<Longrightarrow> store m p bs = Ok m' \<longleftrightarrow> mapped m p (length bs) \<and>
    m' = (\<lambda>a. if a \<in> range_of p (length bs) then Some (bs ! unat (a - p)) else m a)"
  by (auto simp only: store_def cres_simps all_mapped_eq cres.inject range_of_def mem_Collect_eq)

lemma load_length: "load m p n = Ok bs \<Longrightarrow> length bs = n"
  by (auto simp: load_def cres_simps)

lemma store_mapped: "store m p bs = Ok m' \<Longrightarrow> m' a = None \<longleftrightarrow> m a = None"
proof -
  assume s: "store m p bs = Ok m'"
  have "m a \<noteq> None" if "unat (a - p) < length bs"
  proof -
    have "\<forall>i < length bs. m (p + of_nat i) \<noteq> None" using s unfolding store_def cassert_Ok_iff all_mapped_iff by blast
    from this [rule_format, OF that] show ?thesis by simp
  qed
  moreover have "m' a = (if unat (a - p) < length bs then Some (bs ! unat (a - p)) else m a)"
    using s by (auto simp: store_def cres_simps)
  ultimately show ?thesis by auto
qed

lemma store_mapped_range: "store m p bs = Ok m' \<Longrightarrow> mapped m' q n \<longleftrightarrow> mapped m q n"
  by (simp add: mapped_def store_mapped)

lemma load_store_same:
  assumes "store m p bs = Ok m'" "length bs \<le> 2 ^ 64"
  shows "load m' p (length bs) = Ok bs"
  using assms store_mapped_range [OF assms(1)]
  by (auto simp: load_Ok_iff store_Ok_iff range_of_iff unat_of_nat64 intro!: nth_equalityI simp del: unat_of_nat)

lemma load_store_other:
  assumes "store m p bs = Ok m'" "range_of q n \<inter> range_of p (length bs) = {}" "n \<le> 2 ^ 64"
  shows "load m' q n = load m q n"
proof -
  have "m' (q + of_nat i) = m (q + of_nat i)" if "i < n" for i
  proof -
    have "q + of_nat i \<in> range_of q n" using that assms(3) by (auto simp: range_of_iff)
    then have "q + of_nat i \<notin> range_of p (length bs)" using assms(2) by blast
    then show ?thesis using assms(1) by (auto simp: store_def range_of_def cres_simps)
  qed
  then show ?thesis by (simp add: load_def all_mapped_iff cassert_def cong: map_cong)
qed

text \<open>Ranges inside one block, given by their offsets.\<close>

lemma range_of_offset: "o1 + k \<le> n \<Longrightarrow> n \<le> 2 ^ 64 \<Longrightarrow> range_of (p + of_nat o1) k \<subseteq> range_of p n"
proof
  fix a assume o: "o1 + k \<le> n" "n \<le> 2 ^ 64" and "a \<in> range_of (p + of_nat o1) k"
  then obtain i where "i < k" "a = p + of_nat o1 + of_nat i" by (auto simp: range_of_iff)
  then show "a \<in> range_of p n" using o by (auto simp: range_of_iff intro!: exI [of _ "o1 + i"])
qed

lemma of_nat_inj64: "(of_nat m :: u64) = of_nat n \<Longrightarrow> m < 2 ^ 64 \<Longrightarrow> n < 2 ^ 64 \<Longrightarrow> m = n"
  using unat_of_nat64 by metis

lemma ranges_apart:
  assumes "o1 + k1 \<le> o2 \<or> o2 + k2 \<le> o1" "o1 + k1 \<le> 2 ^ 64" "o2 + k2 \<le> 2 ^ 64"
  shows "range_of (p + of_nat o1) k1 \<inter> range_of (p + of_nat o2) k2 = {}"
proof (rule ccontr)
  assume "\<not> ?thesis"
  then obtain i j where ij: "i < k1" "j < k2" "p + of_nat o1 + of_nat i = p + of_nat o2 + (of_nat j :: u64)"
    using assms by (fastforce simp: range_of_iff)
  then have "(of_nat (o1 + i) :: u64) = of_nat (o2 + j)" by (simp add: add.assoc)
  then have "o1 + i = o2 + j" by (rule of_nat_inj64) (use ij assms in linarith)+
  then show False using ij assms(1) by linarith
qed

section \<open>Words in memory\<close>

lemma le_word_8: "le_word (le_bytes 8 x) = x"
  by (simp add: le_word_le_bytes take_bit_word_eq_self)

lemma le_word_4: "ucast (le_word (le_bytes 4 (ucast (x :: u32)))) = x"
  by (simp add: le_word_le_bytes take_bit_word_eq_self)
    (rule bit_word_eqI, simp add: bit_simps)

lemma load64_same: "store64 m p x = Ok m' \<Longrightarrow> load64 m' p = Ok x"
  using load_store_same [of m p "le_bytes 8 x" m'] by (simp add: load64_def store64_def le_word_8)

lemma load32_same: "store32 m p x = Ok m' \<Longrightarrow> load32 m' p = Ok x"
  using load_store_same [of m p "le_bytes 4 (ucast x)" m'] by (simp add: load32_def store32_def le_word_4)

lemma load8_same: "store8 m p x = Ok m' \<Longrightarrow> load8 m' p = Ok x"
  using load_store_same [of m p "[x]" m'] by (simp add: load8_def store8_def)

lemma store_exists: "mapped m p (length bs) \<Longrightarrow> length bs \<le> 2 ^ 64 \<Longrightarrow> \<exists>m'. store m p bs = Ok m'"
  by (simp add: store_Ok_iff)

lemma load_exists: "mapped m p n \<Longrightarrow> n \<le> 2 ^ 64 \<Longrightarrow> \<exists>bs. load m p n = Ok bs \<and> length bs = n"
  by (simp add: load_Ok_iff)

text \<open>What a store leaves alone outside its range, as one fact per kind of access.\<close>

lemma store_frame:
  assumes "store m p bs = Ok m'"
  shows "range_of q n \<inter> range_of p (length bs) = {} \<Longrightarrow> n \<le> 2 ^ 64 \<Longrightarrow> load m' q n = load m q n"
    "range_of q 8 \<inter> range_of p (length bs) = {} \<Longrightarrow> load64 m' q = load64 m q"
    "range_of q 4 \<inter> range_of p (length bs) = {} \<Longrightarrow> load32 m' q = load32 m q"
    "range_of q 1 \<inter> range_of p (length bs) = {} \<Longrightarrow> load8 m' q = load8 m q"
  using load_store_other [OF assms] by (simp_all add: load64_def load32_def load8_def)

end
