(* ===== verification/Arena.thy ===== *)
theory Arena
  imports Memory
begin

text \<open>
  \<open>upb/mem/alloc.h\<close>, \<open>upb/mem/alloc.c\<close>, \<open>upb/mem/internal/arena.h\<close> and the part of \<open>upb/mem/arena.c\<close> that
  serves one arena: blocks from the system allocator, allocation by moving a pointer, growing and
  shrinking the last allocation, freeing. The system's \<open>realloc\<close> is a parameter.
\<close>

section \<open>State\<close>

text \<open>\<open>f n s\<close> is \<open>realloc(NULL, n)\<close> in state \<open>s\<close> of the system's allocator: the address, or 0, and what
  the new memory happens to hold.\<close>

type_synonym 'x sys_malloc = "u64 \<Rightarrow> 'x \<Rightarrow> u64 \<times> (u64 \<Rightarrow> u8) \<times> 'x"

text \<open>A \<open>upb_MemBlock\<close>: its address, and \<open>size_or_hint\<close>. The links \<open>next\<close> are the order of the list.\<close>

record upb_MemBlock =
  blk_addr :: u64
  size_or_hint :: u64

text \<open>An arena with the memory it is in. \<open>block_alloc\<close> is a tagged pointer: whether there is an
  allocator, and whether there is an initial block. \<open>a_max_block\<close> is the global \<open>g_max_block_size\<close>.
  \<open>a_cleanup\<close> is the address of the function that is called when the arena has been freed, or 0.\<close>

record 'x heap =
  h_mem :: mem
  h_sys :: 'x
  a_ptr :: u64
  a_end :: u64
  a_blocks :: "upb_MemBlock list"
  a_has_alloc :: bool
  a_has_initial :: bool
  a_space_allocated :: u64
  a_max_block :: u64
  a_cleanup :: u64

definition UPB_ALIGN_MALLOC :: "u64 \<Rightarrow> u64" where
  "UPB_ALIGN_MALLOC n = (n + 8 - 1) div 8 * 8"

definition kUpb_MemblockReserve :: u64 where "kUpb_MemblockReserve = 16"

definition sizeof_upb_ArenaState :: u64 where "sizeof_upb_ArenaState = 72"

section \<open>Blocks\<close>

definition upb_global_allocfunc :: "'x sys_malloc \<Rightarrow> u64 \<Rightarrow> 'x \<Rightarrow> u64 \<times> (u64 \<Rightarrow> u8) \<times> 'x" where
  "upb_global_allocfunc f sz s = (if sz = 0 then (0, (\<lambda>_. 0), s) else f sz s)"

definition upb_malloc :: "'x sys_malloc \<Rightarrow> u64 \<Rightarrow> 'x heap \<Rightarrow> (unit, u64 \<times> 'x heap) cres" where
  "upb_malloc f sz h =
     cassert (a_has_alloc h)
       (case upb_global_allocfunc f sz (h_sys h) of (p, junk, s) \<Rightarrow>
          Ok (p, h\<lparr>h_sys := s,
                   h_mem := (if p = 0 then h_mem h
                     else (\<lambda>a. if unat (a - p) < unat sz then Some (junk a) else h_mem h a))\<rparr>))"

definition upb_ArenaHas :: "'x heap \<Rightarrow> u64" where
  "upb_ArenaHas h = a_end h - a_ptr h"

definition upb_Arena_SetMaxBlockSize :: "u64 \<Rightarrow> 'x heap \<Rightarrow> 'x heap" where
  "upb_Arena_SetMaxBlockSize mx h = h\<lparr>a_max_block := mx\<rparr>"

text \<open>Once a block is no longer the only one, its \<open>size_or_hint\<close> is set to its size.\<close>

definition upb_Arena_AddBlock :: "u64 \<Rightarrow> u64 \<Rightarrow> u64 \<Rightarrow> 'x heap \<Rightarrow> (unit, 'x heap) cres" where
  "upb_Arena_AddBlock ptr offset block_size h =
     cassert (offset \<ge> kUpb_MemblockReserve)
       (let start = ptr + offset;
            blocks = (case a_blocks h of
                        head # b # bs \<Rightarrow> head\<lparr>size_or_hint := a_end h - blk_addr head\<rparr> # b # bs
                      | bs \<Rightarrow> bs);
            h = h\<lparr>a_blocks := \<lparr>blk_addr = ptr, size_or_hint = block_size\<rparr> # blocks,
                  a_ptr := start, a_end := ptr + block_size\<rparr>
        in cassert (upb_ArenaHas h \<ge> block_size - offset) (Ok h))"

text \<open>The fast path of \<open>upb_Arena_Malloc\<close>: there is enough space.\<close>

definition arena_bump :: "u64 \<Rightarrow> 'x heap \<Rightarrow> (unit, u64 \<times> 'x heap) cres" where
  "arena_bump sz h =
     (let ret = a_ptr h in
      cassert (UPB_ALIGN_MALLOC ret = ret) (cassert (UPB_ALIGN_MALLOC sz = sz)
        (Ok (ret, h\<lparr>a_ptr := a_ptr h + sz\<rparr>))))"

text \<open>The size of the new block, whether it goes behind the head of the list, and the new hint of the
  head.\<close>

definition slow_block_size :: "'x heap \<Rightarrow> u64 \<Rightarrow> u64 \<times> bool \<times> u64" where
  "slow_block_size h sz =
     (let max_block_size = a_max_block h;
          last_block = a_blocks h;
          (last_size, current_free) =
            (case last_block of [] \<Rightarrow> (128, 0)
             | head # _ \<Rightarrow> (a_end h - blk_addr head, a_end h - a_ptr h));
          target_size = min (last_size * 2) max_block_size;
          future_free = max sz (target_size - kUpb_MemblockReserve) - sz;
          (target_size, future_free) =
            (if last_block \<noteq> [] \<and> current_free > future_free \<and> target_size < max_block_size then
               (let target_size = min (size_or_hint (hd last_block) * 2) max_block_size
                in (target_size, max sz (target_size - kUpb_MemblockReserve) - sz))
             else (target_size, future_free));
          insert_after_head = (last_block \<noteq> [] \<and> current_free \<ge> future_free);
          target_size = (if insert_after_head then sz + kUpb_MemblockReserve else target_size);
          hint =
            (if insert_after_head \<and> target_size \<le> max_block_size
             then min (size_or_hint (hd last_block) + drop_bit 1 sz) (drop_bit 1 max_block_size)
             else (case last_block of [] \<Rightarrow> 0 | head # _ \<Rightarrow> size_or_hint head))
      in (max (kUpb_MemblockReserve + sz) target_size, insert_after_head, hint))"

text \<open>After \<open>upb_Arena_AddBlock\<close> the call of \<open>upb_Arena_Malloc\<close> takes the fast path, by the assertion
  before it.\<close>

definition upb_Arena_SlowMalloc :: "'x sys_malloc \<Rightarrow> u64 \<Rightarrow> 'x heap \<Rightarrow> (unit, u64 \<times> 'x heap) cres" where
  "upb_Arena_SlowMalloc f sz h =
     (if \<not> a_has_alloc h \<and> \<not> a_has_initial h then Ok (0, h)
      else
        (case slow_block_size h sz of (block_size, insert_after_head, hint) \<Rightarrow>
           let h = h\<lparr>a_blocks := (case a_blocks h of [] \<Rightarrow> [] | head # bs \<Rightarrow> head\<lparr>size_or_hint := hint\<rparr> # bs)\<rparr>
           in cbind (upb_malloc f block_size h) (\<lambda>(block, h).
                if block = 0 then Ok (0, h)
                else
                  (let h = h\<lparr>a_space_allocated := a_space_allocated h + block_size\<rparr> in
                   if insert_after_head then
                     (case a_blocks h of
                        [] \<Rightarrow> UB
                      | head # bs \<Rightarrow>
                          Ok (block + kUpb_MemblockReserve,
                              h\<lparr>a_blocks := head # \<lparr>blk_addr = block, size_or_hint = block_size\<rparr> # bs\<rparr>))
                   else
                     cbind (upb_Arena_AddBlock block kUpb_MemblockReserve block_size h) (\<lambda>h.
                       cassert (upb_ArenaHas h \<ge> sz) (arena_bump (UPB_ALIGN_MALLOC sz) h))))))"

definition upb_Arena_Malloc :: "'x sys_malloc \<Rightarrow> u64 \<Rightarrow> 'x heap \<Rightarrow> (unit, u64 \<times> 'x heap) cres" where
  "upb_Arena_Malloc f sz h =
     (let sz = UPB_ALIGN_MALLOC sz in
      if upb_ArenaHas h < sz then upb_Arena_SlowMalloc f sz h else arena_bump sz h)"

section \<open>Growing and shrinking\<close>

definition upb_Arena_WasLastAlloc :: "u64 \<Rightarrow> u64 \<Rightarrow> 'x heap \<Rightarrow> bool" where
  "upb_Arena_WasLastAlloc ptr oldsize h =
     (case a_blocks h of
        _ # block # _ \<Rightarrow>
          ptr = blk_addr block + kUpb_MemblockReserve \<and> oldsize = size_or_hint block - kUpb_MemblockReserve
      | _ \<Rightarrow> False)"

definition upb_Arena_ShrinkLast :: "u64 \<Rightarrow> u64 \<Rightarrow> u64 \<Rightarrow> 'x heap \<Rightarrow> (unit, 'x heap) cres" where
  "upb_Arena_ShrinkLast ptr oldsize sz h =
     cassert (ptr \<noteq> 0 \<and> sz \<le> oldsize)
       (let sz = UPB_ALIGN_MALLOC sz; oldsize = UPB_ALIGN_MALLOC oldsize in
        if sz = oldsize then Ok h
        else if ptr + oldsize = a_ptr h then Ok (h\<lparr>a_ptr := ptr + sz\<rparr>)
        else cassert (upb_Arena_WasLastAlloc ptr oldsize h) (Ok h))"

definition upb_Arena_TryExtend :: "u64 \<Rightarrow> u64 \<Rightarrow> u64 \<Rightarrow> 'x heap \<Rightarrow> (unit, bool \<times> 'x heap) cres" where
  "upb_Arena_TryExtend ptr oldsize sz h =
     cassert (ptr \<noteq> 0 \<and> sz > oldsize)
       (let sz = UPB_ALIGN_MALLOC sz; oldsize = UPB_ALIGN_MALLOC oldsize in
        if sz = oldsize then Ok (True, h)
        else
          (let extend = sz - oldsize in
           if ptr + oldsize = a_ptr h \<and> upb_ArenaHas h \<ge> extend
           then Ok (True, h\<lparr>a_ptr := a_ptr h + extend\<rparr>) else Ok (False, h)))"

definition upb_Arena_Realloc :: "'x sys_malloc \<Rightarrow> u64 \<Rightarrow> u64 \<Rightarrow> u64 \<Rightarrow> 'x heap \<Rightarrow> (unit, u64 \<times> 'x heap) cres" where
  "upb_Arena_Realloc f ptr oldsize sz h =
     (let copy = (\<lambda>h. cbind (upb_Arena_Malloc f sz h) (\<lambda>(ret, h).
            if ret \<noteq> 0 \<and> oldsize > 0 then
              cbind (load (h_mem h) ptr (unat (min oldsize sz))) (\<lambda>bs.
              cbind (store (h_mem h) ret bs) (\<lambda>m. Ok (ret, h\<lparr>h_mem := m\<rparr>)))
            else Ok (ret, h)))
      in if ptr = 0 then copy h
         else if sz = oldsize then Ok (ptr, h)
         else if sz > oldsize then
           cbind (upb_Arena_TryExtend ptr oldsize sz h) (\<lambda>(extended, h).
             if extended then Ok (ptr, h) else copy h)
         else if ptr + UPB_ALIGN_MALLOC oldsize = a_ptr h then
           cbind (upb_Arena_ShrinkLast ptr oldsize sz h) (\<lambda>h. Ok (ptr, h))
         else Ok (ptr, h))"

section \<open>Creating and freeing\<close>

text \<open>The arena's own structure, 72 bytes behind the header of the first block, is not part of the
  memory that is given out.\<close>

definition upb_Arena_InitSlow :: "'x sys_malloc \<Rightarrow> bool \<Rightarrow> u64 \<Rightarrow> 'x heap \<Rightarrow> (unit, bool \<times> 'x heap) cres" where
  "upb_Arena_InitSlow f alloc first_size h =
     (let first_block_overhead = UPB_ALIGN_MALLOC (kUpb_MemblockReserve + sizeof_upb_ArenaState);
          block_size = first_block_overhead + max 256 (UPB_ALIGN_MALLOC first_size)
      in if \<not> alloc then Ok (False, h)
         else
           cbind (upb_malloc f block_size (h\<lparr>a_has_alloc := True\<rparr>)) (\<lambda>(p, h).
             if p = 0 then Ok (False, h)
             else
               cbind (upb_Arena_AddBlock p first_block_overhead block_size
                        (h\<lparr>a_has_initial := False, a_blocks := [], a_space_allocated := block_size, a_cleanup := 0\<rparr>))
                 (\<lambda>h. Ok (True, h))))"

definition upb_Arena_Init :: "'x sys_malloc \<Rightarrow> u64 \<Rightarrow> u64 \<Rightarrow> bool \<Rightarrow> 'x heap \<Rightarrow> (unit, bool \<times> 'x heap) cres" where
  "upb_Arena_Init f p n alloc h =
     (let (p, n) =
            (if p \<noteq> 0 then
               (let aligned = UPB_ALIGN_MALLOC p; delta = aligned - p
                in (aligned, if delta \<le> n then n - delta else 0))
             else (p, n))
      in if n < sizeof_upb_ArenaState \<or> p = 0
         then upb_Arena_InitSlow f alloc (if p \<noteq> 0 then 0 else n) h
         else Ok (True, h\<lparr>a_blocks := [], a_has_alloc := alloc, a_has_initial := True, a_space_allocated := 0,
                          a_cleanup := 0, a_ptr := UPB_ALIGN_MALLOC (p + sizeof_upb_ArenaState), a_end := p + n\<rparr>))"

definition upb_Arena_SetAllocCleanup :: "u64 \<Rightarrow> 'x heap \<Rightarrow> (unit, 'x heap) cres" where
  "upb_Arena_SetAllocCleanup func h = cassert (a_cleanup h = 0) (Ok (h\<lparr>a_cleanup := func\<rparr>))"

text \<open>The allocator, or \<open>NULL\<close>.\<close>

definition upb_Arena_GetUpbAlloc :: "'x heap \<Rightarrow> bool" where
  "upb_Arena_GetUpbAlloc h = a_has_alloc h"

text \<open>The decoder keeps an arena of its own on the stack, which takes over the state of the caller's arena and
  gives it back.\<close>

definition upb_Arena_SwapIn :: "'x heap \<Rightarrow> 'x heap \<Rightarrow> 'x heap" where
  "upb_Arena_SwapIn des src =
     des\<lparr>a_ptr := a_ptr src, a_end := a_end src, a_has_alloc := a_has_alloc src,
         a_has_initial := a_has_initial src, a_blocks := a_blocks src\<rparr>"

definition upb_Arena_SwapOut :: "'x heap \<Rightarrow> 'x heap \<Rightarrow> 'x heap" where
  "upb_Arena_SwapOut des src = des\<lparr>a_ptr := a_ptr src, a_end := a_end src, a_blocks := a_blocks src\<rparr>"

text \<open>\<open>_upb_Arena_DoFree\<close> of an arena that is not fused: the calls of \<open>upb_free_sized\<close>, in order; and the
  function that is called after them.\<close>

definition upb_Arena_DoFree :: "'x heap \<Rightarrow> (u64 \<times> u64) list" where
  "upb_Arena_DoFree h =
     (let blocks = (case a_blocks h of
                      head # b # bs \<Rightarrow> head\<lparr>size_or_hint := a_end h - blk_addr head\<rparr> # b # bs
                    | bs \<Rightarrow> bs)
      in map (\<lambda>b. (blk_addr b, size_or_hint b)) blocks)"

definition upb_Arena_DoFree_cleanup :: "'x heap \<Rightarrow> u64 option" where
  "upb_Arena_DoFree_cleanup h = (if a_cleanup h \<noteq> 0 then Some (a_cleanup h) else None)"

section \<open>Addresses\<close>

lemma range_of_interval:
  assumes "unat p + n \<le> 2 ^ 64"
  shows "a \<in> range_of p n \<longleftrightarrow> unat p \<le> unat a \<and> unat a < unat p + n"
proof (cases "p \<le> a")
  case True
  then have "unat (a - p) = unat a - unat p" by (rule unat_sub)
  then show ?thesis using True by (auto simp: range_of_def word_le_nat_alt)
next
  case False
  then have lt: "unat a < unat p" by (simp add: word_le_nat_alt)
  then have "unat (a - p) = 2 ^ 64 + unat a - unat p" by (simp add: unat_sub_if')
  then have "\<not> unat (a - p) < n" using assms lt by linarith
  then show ?thesis using lt by (simp add: range_of_def)
qed

lemma unat_plus64: "unat x + unat y < 2 ^ 64 \<Longrightarrow> unat (x + y :: u64) = unat x + unat y"
  by (simp add: unat_add_lem [THEN iffD1])

lemma align_unat:
  assumes "unat n \<le> 2 ^ 64 - 8"
  shows "unat (UPB_ALIGN_MALLOC n) = (unat n + 7) div 8 * 8"
proof -
  have 1: "n + 8 - 1 = n + 7" by simp
  have 2: "unat (n + 7) = unat n + 7" using assms by (subst unat_plus64) simp_all
  have 3: "unat ((n + 7) div 8) = (unat n + 7) div 8" by (simp add: unat_div 2)
  have "(unat n + 7) div 8 * 8 \<le> unat n + 7" by simp
  moreover have "unat n \<le> 18446744073709551608" using assms by simp
  ultimately have "(unat n + 7) div 8 * 8 < 2 ^ 64" by simp
  then have "unat ((n + 7) div 8 * 8) = (unat n + 7) div 8 * 8"
    using 3 by (subst unat_mult_lem [THEN iffD1]) simp_all
  then show ?thesis by (simp only: UPB_ALIGN_MALLOC_def 1)
qed

lemma align_ge: "unat n \<le> 2 ^ 64 - 8 \<Longrightarrow> unat n \<le> unat (UPB_ALIGN_MALLOC n) \<and> unat (UPB_ALIGN_MALLOC n) < unat n + 8"
  by (simp add: align_unat) linarith

lemma align_dvd: "unat n \<le> 2 ^ 64 - 8 \<Longrightarrow> 8 dvd unat (UPB_ALIGN_MALLOC n)"
  by (simp add: align_unat)

lemma dvd_8_le: "8 dvd unat (p :: u64) \<Longrightarrow> unat p \<le> 2 ^ 64 - 8"
proof -
  assume d: "8 dvd unat p"
  then obtain k where k: "unat p = 8 * k" by (rule dvdE)
  have "unat p < 2 ^ 64" by simp
  then show ?thesis using k by simp
qed

lemma align_id: "8 dvd unat p \<Longrightarrow> UPB_ALIGN_MALLOC p = p"
proof -
  assume d: "8 dvd unat p"
  then obtain k where k: "unat p = 8 * k" by (rule dvdE)
  have "unat (UPB_ALIGN_MALLOC p) = (8 * k + 7) div 8 * 8" using align_unat [OF dvd_8_le [OF d]] k by simp
  also have "\<dots> = unat p" using k by simp
  finally show ?thesis by (simp only: word_unat_eq_iff)
qed

lemma align_idem: "unat n \<le> 2 ^ 64 - 8 \<Longrightarrow> UPB_ALIGN_MALLOC (UPB_ALIGN_MALLOC n) = UPB_ALIGN_MALLOC n"
  by (rule align_id) (rule align_dvd)

section \<open>The system's allocator\<close>

text \<open>\<open>realloc\<close> returns \<open>NULL\<close> or new memory: aligned, not wrapping around, and apart from all memory
  in use.\<close>

locale sys_malloc =
  fixes f :: "'x sys_malloc" and used :: "'x \<Rightarrow> u64 set"
  assumes null: "f n s = (0, junk, s') \<Longrightarrow> used s \<subseteq> used s'"
    and fresh: "f n s = (p, junk, s') \<Longrightarrow> p \<noteq> 0 \<Longrightarrow>
      8 dvd unat p \<and> unat p + unat n < 2 ^ 64 \<and> range_of p (unat n) \<inter> used s = {} \<and>
      used s \<union> range_of p (unat n) \<subseteq> used s'"

section \<open>The invariant\<close>

text \<open>\<open>A\<close> lists the allocations of the arena: address and size, rounded up. An arena with an initial block
  must have an allocator. A fixed-size arena, which has the block and no allocator, is left out: it cannot
  serve a request for more than it has left.\<close>

definition free_bytes :: "'x heap \<Rightarrow> nat" where
  "free_bytes h = unat (a_end h) - unat (a_ptr h)"

definition alloc_ok :: "'x heap \<Rightarrow> u64 \<times> nat \<Rightarrow> bool" where
  "alloc_ok h x \<longleftrightarrow> fst x \<noteq> 0 \<and> 8 dvd unat (fst x) \<and> unat (fst x) + snd x < 2 ^ 64 \<and>
     mapped (h_mem h) (fst x) (snd x) \<and> range_of (fst x) (snd x) \<inter> range_of (a_ptr h) (free_bytes h) = {}"

fun apart_all :: "(u64 \<times> nat) list \<Rightarrow> bool" where
  "apart_all [] = True"
| "apart_all (x # xs) \<longleftrightarrow> (\<forall>y \<in> set xs. range_of (fst x) (snd x) \<inter> range_of (fst y) (snd y) = {}) \<and> apart_all xs"

definition arena_ok :: "('x \<Rightarrow> u64 set) \<Rightarrow> 'x heap \<Rightarrow> (u64 \<times> nat) list \<Rightarrow> bool" where
  "arena_ok used h A \<longleftrightarrow>
     {a. h_mem h a \<noteq> None} \<subseteq> used (h_sys h) \<and> 8 dvd unat (a_ptr h) \<and> a_ptr h \<le> a_end h \<and>
     mapped (h_mem h) (a_ptr h) (free_bytes h) \<and> (free_bytes h \<noteq> 0 \<longrightarrow> a_ptr h \<noteq> 0) \<and>
     (\<forall>x \<in> set A. alloc_ok h x) \<and> apart_all A \<and> (a_has_initial h \<longrightarrow> a_has_alloc h)"

lemma unat_has: "a_ptr h \<le> a_end h \<Longrightarrow> unat (upb_ArenaHas h) = free_bytes h"
  by (simp add: upb_ArenaHas_def free_bytes_def unat_sub)

lemma bump_ok:
  assumes ok: "arena_ok used h A" and n: "8 dvd unat n" "n \<le> upb_ArenaHas h" "n \<noteq> 0"
  shows "\<exists>h'. arena_bump n h = Ok (a_ptr h, h') \<and> a_ptr h \<noteq> 0 \<and> arena_ok used h' ((a_ptr h, unat n) # A) \<and> h_mem h' = h_mem h"
proof -
  let ?h = "h\<lparr>a_ptr := a_ptr h + n\<rparr>"
  have le: "a_ptr h \<le> a_end h" using ok by (simp add: arena_ok_def)
  have nb: "unat n \<le> free_bytes h" using n(2) unat_has [OF le] by (simp add: word_le_nat_alt)
  have e: "unat (a_ptr h) \<le> unat (a_end h)" using le by (simp add: word_le_nat_alt)
  have e2: "unat (a_end h) < 2 ^ 64" by simp
  have "unat (a_ptr h) + unat n \<le> unat (a_end h)" using nb e by (simp add: free_bytes_def)
  then have p': "unat (a_ptr h + n) = unat (a_ptr h) + unat n"
    using e2 by (intro unat_plus64) (rule le_less_trans)
  have fb: "free_bytes ?h = free_bytes h - unat n" using nb by (simp add: free_bytes_def p')
  have sum: "unat (a_ptr h) + free_bytes h < 2 ^ 64" using e e2 unfolding free_bytes_def by linarith
  have sub: "range_of (a_ptr ?h) (free_bytes ?h) \<subseteq> range_of (a_ptr h) (free_bytes h)"
    "range_of (a_ptr h) (unat n) \<subseteq> range_of (a_ptr h) (free_bytes h)"
    "range_of (a_ptr h) (unat n) \<inter> range_of (a_ptr ?h) (free_bytes ?h) = {}"
    using nb sum p' fb by (auto simp: range_of_interval)
  have "free_bytes h \<noteq> 0" using n(3) nb by (simp add: unat_eq_0 [symmetric])
  then have nz: "a_ptr h \<noteq> 0" using ok by (simp add: arena_ok_def)
  have al: "UPB_ALIGN_MALLOC (a_ptr h) = a_ptr h" "UPB_ALIGN_MALLOC n = n"
    using ok n(1) by (simp_all add: arena_ok_def align_id)
  have "alloc_ok ?h (a_ptr h, unat n)"
    using ok nz sub nb sum unfolding alloc_ok_def by (auto simp: arena_ok_def intro: mapped_mono)
  moreover have "alloc_ok ?h x" if "x \<in> set A" for x
  proof -
    have "alloc_ok h x" using ok that by (simp add: arena_ok_def)
    then show ?thesis using sub(1) by (auto simp: alloc_ok_def)
  qed
  moreover have "range_of (a_ptr h) (unat n) \<inter> range_of (fst x) (snd x) = {}" if "x \<in> set A" for x
  proof -
    have "alloc_ok h x" using ok that by (simp add: arena_ok_def)
    then show ?thesis using sub(2) by (auto simp: alloc_ok_def)
  qed
  moreover have "8 dvd unat (a_ptr ?h)" using ok n(1) p' by (simp add: arena_ok_def)
  moreover have "a_ptr ?h \<le> a_end ?h" using nb e p' by (simp add: word_le_nat_alt free_bytes_def)
  moreover have "mapped (h_mem ?h) (a_ptr ?h) (free_bytes ?h)" using ok sub(1) by (auto simp: arena_ok_def intro: mapped_mono)
  moreover have "a_ptr ?h \<noteq> 0" using p' nz by (auto simp: unat_eq_0 [symmetric])
  ultimately have "arena_ok used ?h ((a_ptr h, unat n) # A)"
    using ok by (simp add: arena_ok_def)
  then show ?thesis using al nz by (simp add: arena_bump_def Let_def)
qed

lemma bump_nothing:
  assumes ok: "arena_ok used h A"
  shows "arena_bump 0 h = Ok (a_ptr h, h)" "arena_ok used h (if a_ptr h = 0 then A else (a_ptr h, 0) # A)"
proof -
  have "UPB_ALIGN_MALLOC (a_ptr h) = a_ptr h" using ok by (intro align_id) (simp add: arena_ok_def)
  then show "arena_bump 0 h = Ok (a_ptr h, h)" by (simp add: arena_bump_def UPB_ALIGN_MALLOC_def)
  have "alloc_ok h (a_ptr h, 0)" if "a_ptr h \<noteq> 0"
    using ok that by (simp add: arena_ok_def alloc_ok_def mapped_def range_of_def)
  then show "arena_ok used h (if a_ptr h = 0 then A else (a_ptr h, 0) # A)"
    using ok by (simp add: arena_ok_def range_of_def)
qed

text \<open>A request fails: the block has not enough space, and there is no allocator or it refuses the next
  block.\<close>

definition no_memory :: "'x sys_malloc \<Rightarrow> 'x heap \<Rightarrow> u64 \<Rightarrow> bool" where
  "no_memory f h n \<longleftrightarrow> upb_ArenaHas h < UPB_ALIGN_MALLOC n \<and>
     (a_has_alloc h \<longrightarrow> fst (f (fst (slow_block_size h (UPB_ALIGN_MALLOC n))) (h_sys h)) = 0)"

text \<open>Some request of at most \<open>b\<close> bytes fails.\<close>

definition refused :: "'x sys_malloc \<Rightarrow> 'x heap \<Rightarrow> nat \<Rightarrow> bool" where
  "refused f h b \<longleftrightarrow> (\<exists>n. unat n \<le> b \<and> no_memory f h n)"

lemma refused_mono: "refused f h b \<Longrightarrow> b \<le> c \<Longrightarrow> refused f h c"
  unfolding refused_def by (meson le_trans)

definition keeps :: "'x heap \<Rightarrow> 'x heap \<Rightarrow> bool" where
  "keeps h h' \<longleftrightarrow> (\<forall>a. h_mem h a \<noteq> None \<longrightarrow> h_mem h' a = h_mem h a)"

lemma keeps_refl [simp]: "h_mem h' = h_mem h \<Longrightarrow> keeps h h'"
  by (simp add: keeps_def)

lemma keeps_mapped: "keeps h h' \<Longrightarrow> mapped (h_mem h) p n \<Longrightarrow> mapped (h_mem h') p n"
  by (fastforce simp: keeps_def mapped_def)

lemma alloc_mapped: "alloc_ok h x \<Longrightarrow> range_of (fst x) (snd x) \<subseteq> {a. h_mem h a \<noteq> None}"
  by (auto simp: alloc_ok_def mapped_def)

text \<open>A state that differs only in the bookkeeping of the blocks, or has more memory.\<close>

lemma arena_ok_cong:
  assumes "arena_ok used h A" "keeps h h'" "{a. h_mem h' a \<noteq> None} \<subseteq> used (h_sys h')"
    "a_ptr h' = a_ptr h" "a_end h' = a_end h" "a_has_initial h' \<longrightarrow> a_has_alloc h'"
  shows "arena_ok used h' A"
proof -
  have fb: "free_bytes h' = free_bytes h" using assms(4,5) by (simp add: free_bytes_def)
  have "alloc_ok h' x" if "x \<in> set A" for x
  proof -
    have "alloc_ok h x" using assms(1) that by (simp add: arena_ok_def)
    then show ?thesis using assms(4) fb keeps_mapped [OF assms(2)] by (simp add: alloc_ok_def)
  qed
  then show ?thesis using assms fb keeps_mapped [OF assms(2)] by (simp add: arena_ok_def)
qed

context sys_malloc begin

lemma upb_malloc_spec:
  assumes ok: "arena_ok used h A" and a: "a_has_alloc h" and n: "n \<noteq> 0"
  obtains p h' where "upb_malloc f n h = Ok (p, h')" "keeps h h'" "arena_ok used h' A"
    "h' = h\<lparr>h_sys := h_sys h', h_mem := h_mem h'\<rparr>"
    "p \<noteq> 0 \<Longrightarrow> 8 dvd unat p \<and> unat p + unat n < 2 ^ 64 \<and> mapped (h_mem h') p (unat n) \<and>
       range_of p (unat n) \<inter> {a. h_mem h a \<noteq> None} = {}"
proof -
  obtain p junk s where f: "f n (h_sys h) = (p, junk, s)" by (cases "f n (h_sys h)") auto
  have d: "{a. h_mem h a \<noteq> None} \<subseteq> used (h_sys h)" using ok by (simp add: arena_ok_def)
  show thesis
  proof (cases "p = 0")
    case True
    let ?h = "h\<lparr>h_sys := s\<rparr>"
    have "used (h_sys h) \<subseteq> used s" using null f True by blast
    then have "arena_ok used ?h A" using d ok by (intro arena_ok_cong [OF ok]) (auto simp: arena_ok_def)
    then show thesis using f True a n by (intro that [of 0 ?h]) (simp_all add: upb_malloc_def upb_global_allocfunc_def)
  next
    case False
    let ?m = "\<lambda>a. if unat (a - p) < unat n then Some (junk a) else h_mem h a"
    let ?h = "h\<lparr>h_sys := s, h_mem := ?m\<rparr>"
    note fr = fresh [OF f False]
    have m: "?m a = (if a \<in> range_of p (unat n) then Some (junk a) else h_mem h a)" for a by (simp add: range_of_def)
    have k: "keeps h ?h" using fr d by (auto simp: keeps_def m)
    have u: "{a. h_mem ?h a \<noteq> None} \<subseteq> used (h_sys ?h)" using fr d by (auto simp: m)
    have "arena_ok used ?h A" using ok u by (intro arena_ok_cong [OF ok k]) (simp_all add: arena_ok_def)
    moreover have "mapped (h_mem ?h) p (unat n)" by (simp add: mapped_def m)
    moreover have "range_of p (unat n) \<inter> {a. h_mem h a \<noteq> None} = {}" using fr d by blast
    ultimately show thesis
      using f False a n fr k by (intro that [of p ?h]) (simp_all add: upb_malloc_def upb_global_allocfunc_def)
  qed
qed

end

text \<open>A new block becomes the block that the arena allocates from.\<close>

lemma AddBlock_ok:
  assumes ok: "arena_ok used h A" and b: "8 dvd unat p" "unat p + unat bs < 2 ^ 64" "mapped (h_mem h) p (unat bs)" "p \<noteq> 0"
    "\<And>x. x \<in> set A \<Longrightarrow> range_of p (unat bs) \<inter> range_of (fst x) (snd x) = {}"
    and off: "16 \<le> unat off" "8 dvd unat off" "off \<le> bs"
  obtains h' where "upb_Arena_AddBlock p off bs h = Ok h'" "arena_ok used h' A" "h_mem h' = h_mem h"
    "unat (upb_ArenaHas h') = unat bs - unat off"
proof -
  let ?blocks = "case a_blocks h of head # b # bs \<Rightarrow> head\<lparr>size_or_hint := a_end h - blk_addr head\<rparr> # b # bs | bs \<Rightarrow> bs"
  let ?h = "h\<lparr>a_blocks := \<lparr>blk_addr = p, size_or_hint = bs\<rparr> # ?blocks, a_ptr := p + off, a_end := p + bs\<rparr>"
  have ob: "unat off \<le> unat bs" using off(3) by (simp add: word_le_nat_alt)
  have u: "unat (p + off) = unat p + unat off" "unat (p + bs) = unat p + unat bs"
    using b(2) ob by (intro unat_plus64; simp)+
  have le: "a_ptr ?h \<le> a_end ?h" using u ob by (simp add: word_le_nat_alt)
  have fb: "free_bytes ?h = unat bs - unat off" using u by (simp add: free_bytes_def)
  have sub: "range_of (a_ptr ?h) (free_bytes ?h) \<subseteq> range_of p (unat bs)"
    using u b(2) ob by (auto simp: fb range_of_interval)
  have "alloc_ok ?h x" if x: "x \<in> set A" for x
  proof -
    have "alloc_ok h x" using ok x by (simp add: arena_ok_def)
    then show ?thesis using sub b(5) [OF x] unfolding alloc_ok_def by auto
  qed
  moreover have "mapped (h_mem ?h) (a_ptr ?h) (free_bytes ?h)" using b(3) sub by (auto intro: mapped_mono)
  moreover have "a_ptr ?h \<noteq> 0" using u off(1) by (auto simp: unat_eq_0 [symmetric])
  moreover have "8 dvd unat (a_ptr ?h)" using b(1) off(2) u by simp
  ultimately have "arena_ok used ?h A" using ok le by (simp add: arena_ok_def)
  moreover have "unat (upb_ArenaHas ?h) = unat bs - unat off" using unat_has [OF le] fb by simp
  moreover from this have "upb_ArenaHas ?h \<ge> bs - off" using off(3) by (simp add: word_le_nat_alt unat_sub)
  moreover have "kUpb_MemblockReserve \<le> off" using off(1) by (simp add: kUpb_MemblockReserve_def word_le_nat_alt)
  ultimately show thesis by (intro that [of ?h]) (simp_all add: upb_Arena_AddBlock_def Let_def)
qed

lemma slow_block_size_cases:
  "slow_block_size h n = (bs, ins, hint) \<Longrightarrow>
    kUpb_MemblockReserve + n \<le> bs \<and> (ins \<longrightarrow> a_blocks h \<noteq> [] \<and> bs = kUpb_MemblockReserve + n)"
  by (auto simp: slow_block_size_def Let_def add.commute split: prod.splits)

context sys_malloc begin

lemma SlowMalloc_spec:
  assumes ok: "arena_ok used h A" and n: "8 dvd unat n" "n \<noteq> 0" "unat n \<le> 2 ^ 64 - 32"
  obtains p h' where "upb_Arena_SlowMalloc f n h = Ok (p, h')" "keeps h h'"
    "arena_ok used h' (if p = 0 then A else (p, unat n) # A)"
proof (cases "a_has_alloc h")
  case False
  then have "\<not> a_has_initial h" using ok by (simp add: arena_ok_def)
  then show thesis using False ok by (intro that [of 0 h]) (simp_all add: upb_Arena_SlowMalloc_def)
next
  case True
  obtain bs ins hint where s: "slow_block_size h n = (bs, ins, hint)" by (cases "slow_block_size h n") auto
  note bsc = slow_block_size_cases [OF s]
  let ?bl = "case a_blocks h of [] \<Rightarrow> [] | head # bs \<Rightarrow> head\<lparr>size_or_hint := hint\<rparr> # bs"
  let ?h = "h\<lparr>a_blocks := ?bl\<rparr>"
  have ok1: "arena_ok used ?h A" using ok by (intro arena_ok_cong [OF ok]) (simp_all add: arena_ok_def)
  have un: "unat (kUpb_MemblockReserve + n) = 16 + unat n"
    using n(3) by (subst unat_plus64) (simp_all add: kUpb_MemblockReserve_def)
  have bs: "16 + unat n \<le> unat bs" using bsc un by (simp add: word_le_nat_alt)
  then have "bs \<noteq> 0" by auto
  with upb_malloc_spec [OF ok1, of bs] True obtain p h1 where m: "upb_malloc f bs ?h = Ok (p, h1)" "keeps ?h h1"
    "arena_ok used h1 A" "h1 = ?h\<lparr>h_sys := h_sys h1, h_mem := h_mem h1\<rparr>"
    "p \<noteq> 0 \<Longrightarrow> 8 dvd unat p \<and> unat p + unat bs < 2 ^ 64 \<and> mapped (h_mem h1) p (unat bs) \<and>
       range_of p (unat bs) \<inter> {a. h_mem ?h a \<noteq> None} = {}" by auto
  have k: "keeps h h1" using m(2) by (simp add: keeps_def)
  show thesis
  proof (cases "p = 0")
    case True
    then show thesis using m k s \<open>a_has_alloc h\<close> by (intro that [of 0 h1]) (simp_all add: upb_Arena_SlowMalloc_def Let_def)
  next
    case False
    note b = m(5) [OF False]
    let ?h1 = "h1\<lparr>a_space_allocated := a_space_allocated h1 + bs\<rparr>"
    have dj: "range_of p (unat bs) \<inter> range_of (fst x) (snd x) = {}" if "x \<in> set A" for x
      using b alloc_mapped [of h x] ok that by (auto simp: arena_ok_def)
    show thesis
    proof (cases ins)
      case True
      then have bseq: "unat bs = 16 + unat n" using bsc un by simp
      obtain head rest where bl: "a_blocks h1 = head # rest"
        using bsc True by (subst (asm) m(4)) (cases "a_blocks h"; auto)
      let ?h2 = "?h1\<lparr>a_blocks := head # \<lparr>blk_addr = p, size_or_hint = bs\<rparr> # rest\<rparr>"
      have p16: "unat (p + kUpb_MemblockReserve) = unat p + 16"
        using b bseq by (subst unat_plus64) (simp_all add: kUpb_MemblockReserve_def)
      have sub: "range_of (p + kUpb_MemblockReserve) (unat n) \<subseteq> range_of p (unat bs)"
        using b bseq p16 by (auto simp: range_of_interval)
      have ok2: "arena_ok used ?h2 A" using m(3) by (intro arena_ok_cong [OF m(3)]) (simp_all add: arena_ok_def)
      have free: "range_of (a_ptr ?h2) (free_bytes ?h2) \<subseteq> {a. h_mem h a \<noteq> None}"
        using ok by (subst (1 2) m(4)) (auto simp: arena_ok_def mapped_def free_bytes_def)
      have "alloc_ok ?h2 (p + kUpb_MemblockReserve, unat n)"
      proof -
        have "p + kUpb_MemblockReserve \<noteq> 0" using p16 by (auto simp: unat_eq_0 [symmetric])
        moreover have "range_of (p + kUpb_MemblockReserve) (unat n) \<inter> range_of (a_ptr ?h2) (free_bytes ?h2) = {}"
          using sub free b by auto
        moreover have "mapped (h_mem ?h2) (p + kUpb_MemblockReserve) (unat n)" using b sub by (auto intro: mapped_mono)
        ultimately show ?thesis using b bseq p16 by (simp add: alloc_ok_def)
      qed
      then have "arena_ok used ?h2 ((p + kUpb_MemblockReserve, unat n) # A)"
        using ok2 dj sub by (fastforce simp: arena_ok_def)
      moreover have "p + kUpb_MemblockReserve \<noteq> 0" using p16 by (auto simp: unat_eq_0 [symmetric])
      moreover have "upb_Arena_SlowMalloc f n h = Ok (p + kUpb_MemblockReserve, ?h2)"
        using \<open>a_has_alloc h\<close> s m(1) False True bl by (simp add: upb_Arena_SlowMalloc_def Let_def)
      moreover have "keeps h ?h2" using k by (simp add: keeps_def)
      ultimately show thesis using that [of "p + kUpb_MemblockReserve" ?h2] by (simp only: if_False)
    next
      case not_ins: False
      have ok2: "arena_ok used ?h1 A" using m(3) by (intro arena_ok_cong [OF m(3)]) (simp_all add: arena_ok_def)
      have r16: "unat kUpb_MemblockReserve = 16" by (simp add: kUpb_MemblockReserve_def)
      have "kUpb_MemblockReserve \<le> bs" using bs r16 by (simp add: word_le_nat_alt)
      then obtain h2 where h2: "upb_Arena_AddBlock p kUpb_MemblockReserve bs ?h1 = Ok h2" "arena_ok used h2 A"
        "h_mem h2 = h_mem ?h1" "unat (upb_ArenaHas h2) = unat bs - 16"
        using AddBlock_ok [OF ok2, of p bs kUpb_MemblockReserve] b False dj r16 by auto
      have has: "n \<le> upb_ArenaHas h2" using h2(4) bs by (simp add: word_le_nat_alt)
      obtain h3 where h3: "arena_bump n h2 = Ok (a_ptr h2, h3)" "a_ptr h2 \<noteq> 0" "arena_ok used h3 ((a_ptr h2, unat n) # A)"
        "h_mem h3 = h_mem h2" using bump_ok [OF h2(2) n(1) has n(2)] by blast
      have "upb_Arena_SlowMalloc f n h = Ok (a_ptr h2, h3)"
        using \<open>a_has_alloc h\<close> s m(1) False not_ins h2(1) has h3(1) align_id [OF n(1)]
        by (simp add: upb_Arena_SlowMalloc_def Let_def)
      moreover have "keeps h h3" using k h3(4) h2(3) by (simp add: keeps_def)
      ultimately show thesis using h3(2,3) that [of "a_ptr h2" h3] by simp
    qed
  qed
qed

lemma Malloc_spec:
  assumes ok: "arena_ok used h A" and n: "n \<noteq> 0" "unat n \<le> 2 ^ 64 - 40"
  obtains p h' where "upb_Arena_Malloc f n h = Ok (p, h')" "keeps h h'"
    "arena_ok used h' (if p = 0 then A else (p, unat (UPB_ALIGN_MALLOC n)) # A)"
proof -
  let ?n = "UPB_ALIGN_MALLOC n"
  have n8: "unat n \<le> 2 ^ 64 - 8" using n(2) by simp
  have "unat n \<noteq> 0" using n(1) by (simp add: unat_eq_0)
  then have a: "8 dvd unat ?n" "?n \<noteq> 0" "unat ?n \<le> 2 ^ 64 - 32"
    using align_dvd [OF n8] align_ge [OF n8] n(2) by (auto simp: unat_eq_0 [symmetric])
  show thesis
  proof (cases "upb_ArenaHas h < ?n")
    case True
    obtain p h' where "upb_Arena_SlowMalloc f ?n h = Ok (p, h')" "keeps h h'"
      "arena_ok used h' (if p = 0 then A else (p, unat ?n) # A)" by (rule SlowMalloc_spec [OF ok a])
    then show thesis using True by (intro that) (simp_all add: upb_Arena_Malloc_def)
  next
    case False
    then obtain h' where "arena_bump ?n h = Ok (a_ptr h, h')" "a_ptr h \<noteq> 0" "arena_ok used h' ((a_ptr h, unat ?n) # A)"
      "h_mem h' = h_mem h" using bump_ok [OF ok a(1) _ a(2)] by (auto simp: not_less)
    then show thesis using False that [of "a_ptr h" h'] by (simp add: upb_Arena_Malloc_def)
  qed
qed

text \<open>The result is \<open>NULL\<close> only for want of memory. Nothing is done for a request of 0 bytes.\<close>

lemma SlowMalloc_null:
  assumes ok: "arena_ok used h A" and n: "unat n \<le> 2 ^ 64 - 32" and m: "upb_Arena_SlowMalloc f n h = Ok (p, h')"
  shows "p = 0 \<longleftrightarrow> (a_has_alloc h \<longrightarrow> fst (f (fst (slow_block_size h n)) (h_sys h)) = 0)"
proof (cases "a_has_alloc h")
  case False
  then have "\<not> a_has_initial h" using ok by (simp add: arena_ok_def)
  then show ?thesis using False m by (simp add: upb_Arena_SlowMalloc_def)
next
  case True
  obtain bs ins hint where s: "slow_block_size h n = (bs, ins, hint)" by (cases "slow_block_size h n") auto
  have "unat (kUpb_MemblockReserve + n) = 16 + unat n"
    using n by (subst unat_plus64) (simp_all add: kUpb_MemblockReserve_def)
  then have bs: "16 \<le> unat bs" using slow_block_size_cases [OF s] by (simp add: word_le_nat_alt)
  then have "bs \<noteq> 0" by auto
  obtain q junk s' where q: "f bs (h_sys h) = (q, junk, s')" by (cases "f bs (h_sys h)") auto
  have "q + kUpb_MemblockReserve \<noteq> 0" if "q \<noteq> 0"
  proof -
    have "unat (q + kUpb_MemblockReserve) = unat q + 16"
      using fresh [OF q that] bs by (subst unat_plus64) (simp_all add: kUpb_MemblockReserve_def)
    then show ?thesis by (auto simp: unat_eq_0 [symmetric])
  qed
  then show ?thesis using True m s q \<open>bs \<noteq> 0\<close>
    by (auto simp: upb_Arena_SlowMalloc_def upb_malloc_def upb_global_allocfunc_def Let_def cbind_Ok_iff cassert_Ok_iff
        upb_Arena_AddBlock_def arena_bump_def split: if_splits list.splits)
qed

lemma Malloc_null:
  assumes ok: "arena_ok used h A" and n: "n \<noteq> 0" "unat n \<le> 2 ^ 64 - 40" and m: "upb_Arena_Malloc f n h = Ok (p, h')"
  shows "p = 0 \<longleftrightarrow> no_memory f h n"
proof -
  let ?n = "UPB_ALIGN_MALLOC n"
  have n8: "unat n \<le> 2 ^ 64 - 8" using n(2) by simp
  have "unat n \<noteq> 0" using n(1) by (simp add: unat_eq_0)
  then have a: "8 dvd unat ?n" "?n \<noteq> 0" "unat ?n \<le> 2 ^ 64 - 32"
    using align_dvd [OF n8] align_ge [OF n8] n(2) by (auto simp: unat_eq_0 [symmetric])
  show ?thesis
  proof (cases "upb_ArenaHas h < ?n")
    case True
    then have "upb_Arena_SlowMalloc f ?n h = Ok (p, h')" using m by (simp add: upb_Arena_Malloc_def)
    from SlowMalloc_null [OF ok a(3) this] show ?thesis using True by (simp add: no_memory_def)
  next
    case False
    then have "?n \<le> upb_ArenaHas h" by (simp add: not_less)
    from bump_ok [OF ok a(1) this a(2)] have "p \<noteq> 0" using False m by (auto simp: upb_Arena_Malloc_def)
    then show ?thesis using False by (simp add: no_memory_def)
  qed
qed

lemma Malloc_nothing:
  "arena_ok used h A \<Longrightarrow> upb_Arena_Malloc f 0 h = Ok (a_ptr h, h) \<and>
     arena_ok used h (if a_ptr h = 0 then A else (a_ptr h, unat (UPB_ALIGN_MALLOC 0)) # A)"
proof -
  assume ok: "arena_ok used h A"
  have "UPB_ALIGN_MALLOC 0 = 0" by (simp add: UPB_ALIGN_MALLOC_def)
  then show ?thesis using bump_nothing [OF ok] by (simp add: upb_Arena_Malloc_def split: if_splits)
qed

lemma Malloc_any:
  assumes ok: "arena_ok used h A" and n: "unat n \<le> 2 ^ 64 - 40"
  obtains p h' where "upb_Arena_Malloc f n h = Ok (p, h')" "keeps h h'"
    "arena_ok used h' (if p = 0 then A else (p, unat (UPB_ALIGN_MALLOC n)) # A)"
    "p = 0 \<Longrightarrow> n = 0 \<or> no_memory f h n"
proof (cases "n = 0")
  case True
  show thesis by (rule that [of "a_ptr h" h]) (use Malloc_nothing [OF ok] in \<open>auto simp: True\<close>)
next
  case False
  obtain p h' where m: "upb_Arena_Malloc f n h = Ok (p, h')" "keeps h h'"
    "arena_ok used h' (if p = 0 then A else (p, unat (UPB_ALIGN_MALLOC n)) # A)"
    by (rule Malloc_spec [OF ok False n])
  then show thesis using Malloc_null [OF ok False n m(1)] that by blast
qed

end

text \<open>An arena that takes over another's state can serve the same clients.\<close>

lemma SwapIn_ok:
  "h_mem des = h_mem src \<Longrightarrow> h_sys des = h_sys src \<Longrightarrow>
    arena_ok used (upb_Arena_SwapIn des src) A \<longleftrightarrow> arena_ok used src A"
  by (simp add: arena_ok_def alloc_ok_def free_bytes_def upb_Arena_SwapIn_def)

lemma SwapOut_ok:
  "h_mem des = h_mem src \<Longrightarrow> h_sys des = h_sys src \<Longrightarrow> a_has_alloc des = a_has_alloc src \<Longrightarrow>
    a_has_initial des = a_has_initial src \<Longrightarrow>
    arena_ok used (upb_Arena_SwapOut des src) A \<longleftrightarrow> arena_ok used src A"
  by (simp add: arena_ok_def alloc_ok_def free_bytes_def upb_Arena_SwapOut_def)

end
