(* ===== verification/ArenaProps.thy ===== *)
theory ArenaProps
  imports Arena "HOL-Library.Multiset"
begin

text \<open>
  Growing, shrinking and moving an allocation, creating an arena, and what the arena promises its clients:
  every allocation has memory of its own, \<open>realloc\<close> keeps the bytes, and freeing returns every block to
  the system with its size.
\<close>

section \<open>Lists of allocations\<close>

lemma arena_ok_weaken: "arena_ok used h (x # A) \<Longrightarrow> arena_ok used h A"
  by (simp add: arena_ok_def)

lemma arena_ok_smaller:
  assumes ok: "arena_ok used h ((p, s) # A)" and t: "t \<le> s"
  shows "arena_ok used h ((p, t) # A)"
proof -
  have sub: "range_of p t \<subseteq> range_of p s" using t by (auto simp: range_of_def)
  have "alloc_ok h (p, t)" using ok sub t by (auto simp: arena_ok_def alloc_ok_def intro: mapped_mono)
  moreover have "range_of p t \<inter> range_of (fst x) (snd x) = {}" if "x \<in> set A" for x
  proof -
    have "range_of p s \<inter> range_of (fst x) (snd x) = {}" using ok that by (simp add: arena_ok_def)
    then show ?thesis using sub by blast
  qed
  ultimately show ?thesis using ok by (simp add: arena_ok_def)
qed

section \<open>Moving the end of the last allocation\<close>

text \<open>The allocation at \<open>p\<close> ends where the free part of the block begins; then that boundary can move.\<close>

lemma boundary_ok:
  assumes ok: "arena_ok used h ((p, s) # A)" and last: "unat (a_ptr h) = unat p + s"
    and t: "8 dvd t" "unat p + t \<le> unat (a_end h)" and q: "unat q = unat p + t"
  shows "arena_ok used (h\<lparr>a_ptr := q\<rparr>) ((p, t) # A)"
proof -
  let ?h = "h\<lparr>a_ptr := q\<rparr>"
  define E where "E = unat (a_end h)"
  have e: "E < 2 ^ 64" by (simp add: E_def)
  have le: "unat (a_ptr h) \<le> E" using ok by (simp add: arena_ok_def word_le_nat_alt E_def)
  have fb: "free_bytes h = E - unat (a_ptr h)" "free_bytes ?h = E - unat q" by (simp_all add: free_bytes_def E_def)
  note t2 = t(2) [folded E_def]
  have p: "alloc_ok h (p, s)" using ok by (simp add: arena_ok_def)
  let ?all = "range_of p (E - unat p)"
  have all: "?all = range_of p s \<union> range_of (a_ptr h) (free_bytes h)"
    using last le e by (auto simp: range_of_interval fb)
  have sub: "range_of p t \<subseteq> ?all" "range_of q (free_bytes ?h) \<subseteq> ?all"
    and dj: "range_of p t \<inter> range_of q (free_bytes ?h) = {}"
    using t(1) t2 q e by (auto simp: range_of_interval fb)
  have m: "mapped (h_mem h) p (E - unat p)"
    using ok p unfolding mapped_def all by (auto simp: arena_ok_def alloc_ok_def mapped_def)
  have pz: "p \<noteq> 0" using p by (simp add: alloc_ok_def)
  have "alloc_ok ?h (p, t)" using p t2 e dj mapped_mono [OF m sub(1)] by (simp add: alloc_ok_def)
  moreover have other: "range_of (fst x) (snd x) \<inter> ?all = {}" if "x \<in> set A" for x
  proof -
    have "alloc_ok h x" "range_of p s \<inter> range_of (fst x) (snd x) = {}" using ok that by (auto simp: arena_ok_def)
    then show ?thesis unfolding all alloc_ok_def by blast
  qed
  moreover have "alloc_ok ?h x" if "x \<in> set A" for x
  proof -
    have "alloc_ok h x" using ok that by (simp add: arena_ok_def)
    then show ?thesis using other [OF that] sub(2) by (auto simp: alloc_ok_def)
  qed
  moreover have "range_of p t \<inter> range_of (fst x) (snd x) = {}" if "x \<in> set A" for x
    using other [OF that] sub(1) by blast
  moreover have "8 dvd unat q" using p q t(1) by (simp add: alloc_ok_def)
  moreover have "q \<le> a_end h" using q t(2) by (simp add: word_le_nat_alt)
  moreover have "q \<noteq> 0" using q pz by (auto simp: unat_eq_0 [symmetric])
  moreover have "mapped (h_mem h) q (free_bytes ?h)" by (rule mapped_mono [OF m sub(2)])
  ultimately show ?thesis using ok by (simp add: arena_ok_def)
qed

lemma last_unat:
  assumes "alloc_ok h (p, unat s)" "p + s = a_ptr h"
  shows "unat (a_ptr h) = unat p + unat s"
  using assms unat_plus64 [of p s] by (simp add: alloc_ok_def)

lemma align_mono: "unat n \<le> 2 ^ 64 - 8 \<Longrightarrow> m \<le> n \<Longrightarrow> UPB_ALIGN_MALLOC m \<le> UPB_ALIGN_MALLOC n"
proof -
  assume n: "unat n \<le> 2 ^ 64 - 8" and "m \<le> n"
  then have m: "unat m \<le> unat n" by (simp add: word_le_nat_alt)
  then have "(unat m + 7) div 8 * 8 \<le> (unat n + 7) div 8 * 8" by (intro mult_le_mono1 div_le_mono) simp
  then show ?thesis using n m by (simp add: word_le_nat_alt align_unat)
qed

lemma TryExtend_spec:
  assumes ok: "arena_ok used h ((p, unat (UPB_ALIGN_MALLOC o1)) # A)" and n: "o1 < n" "unat n \<le> 2 ^ 64 - 8"
  obtains r h' where "upb_Arena_TryExtend p o1 n h = Ok (r, h')" "h_mem h' = h_mem h"
    "r \<Longrightarrow> arena_ok used h' ((p, unat (UPB_ALIGN_MALLOC n)) # A)" "\<not> r \<Longrightarrow> h' = h"
proof -
  let ?o = "UPB_ALIGN_MALLOC o1" and ?n = "UPB_ALIGN_MALLOC n"
  have p: "alloc_ok h (p, unat ?o)" using ok by (simp add: arena_ok_def)
  then have p0: "p \<noteq> 0" by (simp add: alloc_ok_def)
  have le: "?o \<le> ?n" using n by (intro align_mono) auto
  show thesis
  proof (cases "?n = ?o")
    case True
    then show thesis using ok p0 n by (intro that [of True h]) (simp_all add: upb_Arena_TryExtend_def)
  next
    case ne: False
    show thesis
    proof (cases "p + ?o = a_ptr h \<and> upb_ArenaHas h \<ge> ?n - ?o")
      case False
      then show thesis using ne p0 n by (intro that [of False h]) (auto simp: upb_Arena_TryExtend_def Let_def)
    next
      case True
      let ?h = "h\<lparr>a_ptr := a_ptr h + (?n - ?o)\<rparr>"
      have l: "unat (a_ptr h) = unat p + unat ?o" using last_unat [OF p] True by simp
      have el: "a_ptr h \<le> a_end h" using ok by (simp add: arena_ok_def)
      have d: "unat (?n - ?o) = unat ?n - unat ?o" using le by (rule unat_sub)
      have "unat ?n - unat ?o \<le> free_bytes h" using True unat_has [OF el] d by (simp add: word_le_nat_alt)
      then have e: "unat p + unat ?n \<le> unat (a_end h)"
        using l le el unfolding free_bytes_def word_le_nat_alt by linarith
      have lt: "unat p + unat ?n < 2 ^ 64" by (rule le_less_trans [OF e]) simp
      have "unat (a_ptr h) + unat (?n - ?o) = unat p + unat ?n" using l d le by (simp add: word_le_nat_alt)
      then have "unat (a_ptr h + (?n - ?o)) = unat p + unat ?n" using unat_plus64 lt by metis
      then have "arena_ok used ?h ((p, unat ?n) # A)"
        using align_dvd [OF n(2)] e by (intro boundary_ok [OF ok l])
      then show thesis using that [of True ?h] True ne p0 n by (simp add: upb_Arena_TryExtend_def Let_def)
    qed
  qed
qed

lemma ShrinkLast_spec:
  assumes ok: "arena_ok used h ((p, unat (UPB_ALIGN_MALLOC o1)) # A)" and n: "n \<le> o1" "unat o1 \<le> 2 ^ 64 - 8"
    and last: "p + UPB_ALIGN_MALLOC o1 = a_ptr h"
  obtains h' where "upb_Arena_ShrinkLast p o1 n h = Ok h'" "h_mem h' = h_mem h"
    "arena_ok used h' ((p, unat (UPB_ALIGN_MALLOC n)) # A)"
proof -
  let ?o = "UPB_ALIGN_MALLOC o1" and ?n = "UPB_ALIGN_MALLOC n"
  have p: "alloc_ok h (p, unat ?o)" using ok by (simp add: arena_ok_def)
  then have p0: "p \<noteq> 0" by (simp add: alloc_ok_def)
  have le: "unat ?n \<le> unat ?o" using align_mono [OF n(2,1)] by (simp add: word_le_nat_alt)
  have n8: "unat n \<le> 2 ^ 64 - 8" using n by (simp add: word_le_nat_alt)
  show thesis
  proof (cases "?n = ?o")
    case True
    then show thesis using ok p0 n by (intro that [of h]) (simp_all add: upb_Arena_ShrinkLast_def)
  next
    case False
    let ?h = "h\<lparr>a_ptr := p + ?n\<rparr>"
    have l: "unat (a_ptr h) = unat p + unat ?o" using last_unat [OF p last] .
    have "a_ptr h \<le> a_end h" using ok by (simp add: arena_ok_def)
    then have e: "unat p + unat ?n \<le> unat (a_end h)" using l le by (simp add: word_le_nat_alt)
    have "unat (p + ?n) = unat p + unat ?n" using p le by (intro unat_plus64) (simp add: alloc_ok_def)
    then have "arena_ok used ?h ((p, unat ?n) # A)"
      using align_dvd [OF n8] e by (intro boundary_ok [OF ok l])
    then show thesis using that [of ?h] False last p0 n by (simp add: upb_Arena_ShrinkLast_def Let_def)
  qed
qed

section \<open>Moving an allocation\<close>

lemma store_arena_ok:
  assumes "store (h_mem h) q bs = Ok m"
  shows "arena_ok used (h\<lparr>h_mem := m\<rparr>) A \<longleftrightarrow> arena_ok used h A"
proof -
  have a: "alloc_ok (h\<lparr>h_mem := m\<rparr>) x = alloc_ok h x" for x
    by (simp add: alloc_ok_def store_mapped_range [OF assms] free_bytes_def)
  show ?thesis
    by (simp add: arena_ok_def a store_mapped_range [OF assms] store_mapped [OF assms] free_bytes_def del: not_None_eq)
qed

text \<open>What is known of \<open>A\<close> and one more allocation, which may not exist yet.\<close>

definition with_alloc :: "u64 \<Rightarrow> u64 \<Rightarrow> (u64 \<times> nat) list \<Rightarrow> (u64 \<times> nat) list" where
  "with_alloc p n A = (if p = 0 then A else (p, unat (UPB_ALIGN_MALLOC n)) # A)"

lemma drop_old: "q \<noteq> 0 \<Longrightarrow> arena_ok used h ((q, unat (UPB_ALIGN_MALLOC n)) # with_alloc p o1 A) \<Longrightarrow>
    arena_ok used h (with_alloc q n A)"
  by (cases "p = 0") (simp_all add: with_alloc_def arena_ok_def)

text \<open>The mapped bytes outside the new place of the allocation are untouched.\<close>

definition mem_frame :: "'x heap \<Rightarrow> 'x heap \<Rightarrow> u64 \<Rightarrow> u64 \<Rightarrow> bool" where
  "mem_frame h h' q n \<longleftrightarrow>
     (\<forall>a. h_mem h a \<noteq> None \<and> a \<notin> range_of q (unat (UPB_ALIGN_MALLOC n)) \<longrightarrow> h_mem h' a = h_mem h a)"

lemma mem_frame_keeps: "keeps h h' \<Longrightarrow> mem_frame h h' q n"
  by (simp add: mem_frame_def keeps_def)

lemma keeps_load: "keeps h h' \<Longrightarrow> mapped (h_mem h) p n \<Longrightarrow> n \<le> 2 ^ 64 \<Longrightarrow> load (h_mem h') p n = load (h_mem h) p n"
proof -
  assume k: "keeps h h'" and m: "mapped (h_mem h) p n" "n \<le> 2 ^ 64"
  have "h_mem h' (p + of_nat i) = h_mem h (p + of_nat i)" if "i < n" for i
  proof -
    have "p + of_nat i \<in> range_of p n" using that m(2) by (auto simp: range_of_iff)
    then show ?thesis using m(1) k by (simp add: mapped_def keeps_def)
  qed
  then show ?thesis by (simp add: load_def all_mapped_iff cassert_def cong: map_cong)
qed

lemma range_align: "unat n \<le> 2 ^ 64 - 8 \<Longrightarrow> range_of p (unat n) \<subseteq> range_of p (unat (UPB_ALIGN_MALLOC n))"
  using align_ge [of n] by (auto simp: range_of_def)

text \<open>What a reallocation from \<open>o1\<close> to \<open>n\<close> bytes promises of its result \<open>q\<close>.\<close>

definition realloc_ok ::
    "('x \<Rightarrow> u64 set) \<Rightarrow> (u64 \<times> nat) list \<Rightarrow> u64 \<Rightarrow> u64 \<Rightarrow> u64 \<Rightarrow> 'x heap \<Rightarrow> u64 \<Rightarrow> 'x heap \<Rightarrow> bool" where
  "realloc_ok used A p o1 n h q h' \<longleftrightarrow>
     arena_ok used h' (if q = 0 then with_alloc p o1 A else with_alloc q n A) \<and> mem_frame h h' q n \<and>
     (if q = 0 then keeps h h'
      else load (h_mem h') q (unat (min o1 n)) = load (h_mem h) p (unat (min o1 n)))"

definition alloc_and_copy :: "'x sys_malloc \<Rightarrow> u64 \<Rightarrow> u64 \<Rightarrow> u64 \<Rightarrow> 'x heap \<Rightarrow> (unit, u64 \<times> 'x heap) cres" where
  "alloc_and_copy f p o1 n h =
     cbind (upb_Arena_Malloc f n h) (\<lambda>(ret, h).
       if ret \<noteq> 0 \<and> o1 > 0 then
         cbind (load (h_mem h) p (unat (min o1 n))) (\<lambda>bs.
         cbind (store (h_mem h) ret bs) (\<lambda>m. Ok (ret, h\<lparr>h_mem := m\<rparr>)))
       else Ok (ret, h))"

lemma Realloc_cases:
  "upb_Arena_Realloc f p o1 n h =
     (if p = 0 then alloc_and_copy f p o1 n h
      else if n = o1 then Ok (p, h)
      else if n > o1 then
        cbind (upb_Arena_TryExtend p o1 n h) (\<lambda>(extended, h).
          if extended then Ok (p, h) else alloc_and_copy f p o1 n h)
      else if p + UPB_ALIGN_MALLOC o1 = a_ptr h then
        cbind (upb_Arena_ShrinkLast p o1 n h) (\<lambda>h. Ok (p, h))
      else Ok (p, h))"
  by (simp only: upb_Arena_Realloc_def alloc_and_copy_def Let_def)

context sys_malloc begin

text \<open>The path that allocates and copies.\<close>

lemma Realloc_copy:
  assumes ok: "arena_ok used h (with_alloc p o1 A)" and po: "p = 0 \<longrightarrow> o1 = 0"
    and n: "unat n \<le> 2 ^ 64 - 40" "unat o1 \<le> 2 ^ 64 - 40"
  shows "\<exists>q h'. alloc_and_copy f p o1 n h = Ok (q, h') \<and> realloc_ok used A p o1 n h q h' \<and>
    (q = 0 \<longrightarrow> n = 0 \<or> no_memory f h n)"
proof -
  obtain q h1 where m: "upb_Arena_Malloc f n h = Ok (q, h1)" "keeps h h1"
    "arena_ok used h1 (if q = 0 then with_alloc p o1 A else (q, unat (UPB_ALIGN_MALLOC n)) # with_alloc p o1 A)"
    "q = 0 \<Longrightarrow> n = 0 \<or> no_memory f h n"
    by (rule Malloc_any [OF ok n(1)]) blast
  show ?thesis
  proof (cases "q = 0 \<or> o1 = 0")
    case True
    have "arena_ok used h1 (if q = 0 then with_alloc p o1 A else with_alloc q n A)"
    proof (cases "q = 0")
      case False
      then have "arena_ok used h1 ((q, unat (UPB_ALIGN_MALLOC n)) # with_alloc p o1 A)" using m(3) by simp
      then show ?thesis using False drop_old by simp
    qed (use m(3) in simp)
    moreover have "alloc_and_copy f p o1 n h = Ok (q, h1)" using m(1) True by (auto simp: alloc_and_copy_def)
    moreover have "load (h_mem h1) q (unat (min o1 n)) = load (h_mem h) p (unat (min o1 n))" if "q \<noteq> 0"
      using True that by (simp add: load_def all_mapped_def)
    ultimately show ?thesis using m(2,4) by (auto simp: realloc_ok_def mem_frame_keeps)
  next
    case False
    let ?k = "unat (min o1 n)"
    have p0: "p \<noteq> 0" using po False by auto
    have k: "?k \<le> unat o1" "?k \<le> unat n" "?k \<le> 2 ^ 64"
      using n by (simp_all add: min_def word_le_nat_alt split: if_splits)
    have o8: "unat o1 \<le> 2 ^ 64 - 8" "unat n \<le> 2 ^ 64 - 8" using n by simp_all
    have "alloc_ok h (p, unat (UPB_ALIGN_MALLOC o1))" using ok p0 by (simp add: with_alloc_def arena_ok_def)
    then have "mapped (h_mem h) p (unat (UPB_ALIGN_MALLOC o1))" by (simp add: alloc_ok_def)
    moreover have "range_of p ?k \<subseteq> range_of p (unat (UPB_ALIGN_MALLOC o1))"
      using align_ge [OF o8(1)] k(1) unfolding range_of_def by auto
    ultimately have mp: "mapped (h_mem h) p ?k" by (rule mapped_mono)
    then obtain bs where bs: "load (h_mem h) p ?k = Ok bs" "length bs = ?k" using load_exists k(3) by blast
    have l1: "load (h_mem h1) p ?k = Ok bs" using keeps_load [OF m(2) mp k(3)] bs(1) by simp
    have aq: "arena_ok used h1 ((q, unat (UPB_ALIGN_MALLOC n)) # with_alloc p o1 A)" using m(3) False by simp
    then have "mapped (h_mem h1) q (unat (UPB_ALIGN_MALLOC n))" by (simp add: arena_ok_def alloc_ok_def)
    moreover have sub: "range_of q (length bs) \<subseteq> range_of q (unat (UPB_ALIGN_MALLOC n))"
      using align_ge [OF o8(2)] k(2) bs(2) by (auto simp: range_of_def)
    ultimately have "mapped (h_mem h1) q (length bs)" by (rule mapped_mono)
    then obtain m' where st: "store (h_mem h1) q bs = Ok m'" using store_exists k(3) bs(2) by fastforce
    let ?h = "h1\<lparr>h_mem := m'\<rparr>"
    have "arena_ok used h1 (with_alloc q n A)" using aq False by (intro drop_old) simp_all
    then have ok': "arena_ok used ?h (with_alloc q n A)" by (simp add: store_arena_ok [OF st])
    have fr: "mem_frame h ?h q n"
      unfolding mem_frame_def
    proof (intro allI impI)
      fix a assume a: "h_mem h a \<noteq> None \<and> a \<notin> range_of q (unat (UPB_ALIGN_MALLOC n))"
      then have "a \<notin> range_of q (length bs)" using sub by blast
      then have "m' a = h_mem h1 a" using st bs(2) k(3) by (simp add: store_Ok_iff)
      then show "h_mem ?h a = h_mem h a" using a m(2) by (simp add: keeps_def)
    qed
    have "load m' q ?k = Ok bs" using load_store_same [OF st] bs(2) k(3) by simp
    then have "realloc_ok used A p o1 n h q ?h" using ok' fr False bs(1) by (simp add: realloc_ok_def)
    moreover have "alloc_and_copy f p o1 n h = Ok (q, ?h)"
      using False m(1) l1 st by (simp add: alloc_and_copy_def word_gt_0)
    ultimately show ?thesis using False by blast
  qed
qed

lemma Realloc_spec:
  assumes ok: "arena_ok used h (with_alloc p o1 A)" and po: "p = 0 \<longrightarrow> o1 = 0"
    and n: "unat n \<le> 2 ^ 64 - 40" "unat o1 \<le> 2 ^ 64 - 40"
  shows "\<exists>q h'. upb_Arena_Realloc f p o1 n h = Ok (q, h') \<and> realloc_ok used A p o1 n h q h' \<and>
    (q = 0 \<longrightarrow> n = 0 \<or> no_memory f h n)"
proof -
  note copy = Realloc_copy [OF assms]
  have o8: "unat o1 \<le> 2 ^ 64 - 8" "unat n \<le> 2 ^ 64 - 8" using n by simp_all
  consider "p = 0" | "p \<noteq> 0" "n = o1" | "p \<noteq> 0" "o1 < n" | "p \<noteq> 0" "n < o1" by (metis linorder_less_linear)
  then show ?thesis
  proof cases
    case 1
    then show ?thesis using copy by (simp only: Realloc_cases if_True simp_thms)
  next
    case 2
    then show ?thesis using ok by (simp add: Realloc_cases realloc_ok_def mem_frame_def)
  next
    case 3
    have wa: "arena_ok used h ((p, unat (UPB_ALIGN_MALLOC o1)) # A)" using ok 3 by (simp add: with_alloc_def)
    from wa 3(2) o8(2) obtain r h' where t: "upb_Arena_TryExtend p o1 n h = Ok (r, h')" "h_mem h' = h_mem h"
      "r \<Longrightarrow> arena_ok used h' ((p, unat (UPB_ALIGN_MALLOC n)) # A)" "\<not> r \<Longrightarrow> h' = h" by (rule TryExtend_spec) blast
    show ?thesis
    proof (cases r)
      case True
      then have "realloc_ok used A p o1 n h p h'" using 3 t by (simp add: realloc_ok_def with_alloc_def mem_frame_def)
      moreover have "upb_Arena_Realloc f p o1 n h = Ok (p, h')" using 3 t(1) True by (auto simp: Realloc_cases)
      ultimately show ?thesis using 3(1) by blast
    next
      case False
      have "upb_Arena_Realloc f p o1 n h = alloc_and_copy f p o1 n h" using 3 t(1,4) False by (auto simp: Realloc_cases)
      then show ?thesis using copy by simp
    qed
  next
    case 4
    have wa: "arena_ok used h ((p, unat (UPB_ALIGN_MALLOC o1)) # A)" using ok 4 by (simp add: with_alloc_def)
    show ?thesis
    proof (cases "p + UPB_ALIGN_MALLOC o1 = a_ptr h")
      case True
      then obtain h' where t: "upb_Arena_ShrinkLast p o1 n h = Ok h'" "h_mem h' = h_mem h"
        "arena_ok used h' ((p, unat (UPB_ALIGN_MALLOC n)) # A)"
        using ShrinkLast_spec [OF wa _ o8(1) True, of n] 4 by (auto simp: order_less_imp_le)
      then have "realloc_ok used A p o1 n h p h'" using 4 by (simp add: realloc_ok_def with_alloc_def mem_frame_def)
      moreover have "upb_Arena_Realloc f p o1 n h = Ok (p, h')" using 4 t(1) True by (auto simp: Realloc_cases)
      ultimately show ?thesis using 4(1) by blast
    next
      case False
      have "unat (UPB_ALIGN_MALLOC n) \<le> unat (UPB_ALIGN_MALLOC o1)"
        using align_mono [OF o8(1) order_less_imp_le [OF 4(2)]] by (simp add: word_le_nat_alt)
      then have "arena_ok used h ((p, unat (UPB_ALIGN_MALLOC n)) # A)" by (rule arena_ok_smaller [OF wa])
      then have "realloc_ok used A p o1 n h p h" using 4 by (simp add: realloc_ok_def with_alloc_def mem_frame_def)
      moreover have "upb_Arena_Realloc f p o1 n h = Ok (p, h)" using 4 False by (auto simp: Realloc_cases)
      ultimately show ?thesis using 4(1) by blast
    qed
  qed
qed

end

section \<open>Creating an arena\<close>

context sys_malloc begin

lemma InitSlow_spec:
  assumes ok: "arena_ok used h A" and n: "unat n \<le> 2 ^ 64 - 400"
  obtains r h' where "upb_Arena_InitSlow f alloc n h = Ok (r, h')" "keeps h h'" "arena_ok used h' A"
proof (cases alloc)
  case False
  then show thesis using ok by (intro that [of False h]) (simp_all add: upb_Arena_InitSlow_def)
next
  case True
  let ?h = "h\<lparr>a_has_alloc := True\<rparr>"
  let ?o = "UPB_ALIGN_MALLOC (kUpb_MemblockReserve + sizeof_upb_ArenaState)"
  let ?m = "max 256 (UPB_ALIGN_MALLOC n)"
  have n8: "unat n \<le> 2 ^ 64 - 8" using n by simp
  have o88: "?o = 88" by (simp add: UPB_ALIGN_MALLOC_def kUpb_MemblockReserve_def sizeof_upb_ArenaState_def)
  have "unat ?m < 2 ^ 64 - 100" using align_ge [OF n8] n by (simp add: max_def)
  then have bs: "unat (?o + ?m) = 88 + unat ?m" unfolding o88 by (subst unat_plus64) simp_all
  then have nz: "?o + ?m \<noteq> 0" by (auto simp: unat_eq_0 [symmetric])
  have ok1: "arena_ok used ?h A" using ok by (intro arena_ok_cong [OF ok]) (simp_all add: arena_ok_def)
  obtain p h1 where m: "upb_malloc f (?o + ?m) ?h = Ok (p, h1)" "keeps ?h h1" "arena_ok used h1 A"
    "p \<noteq> 0 \<Longrightarrow> 8 dvd unat p \<and> unat p + unat (?o + ?m) < 2 ^ 64 \<and> mapped (h_mem h1) p (unat (?o + ?m)) \<and>
       range_of p (unat (?o + ?m)) \<inter> {a. h_mem ?h a \<noteq> None} = {}"
    by (rule upb_malloc_spec [OF ok1 _ nz]) auto
  have k: "keeps h h1" using m(2) by (simp add: keeps_def)
  show thesis
  proof (cases "p = 0")
    case True
    then show thesis using m(1,3) k \<open>alloc\<close>
      by (intro that [of False h1]) (simp_all add: upb_Arena_InitSlow_def Let_def)
  next
    case False
    note b = m(4) [OF False]
    let ?h1 = "h1\<lparr>a_has_initial := False, a_blocks := [], a_space_allocated := ?o + ?m, a_cleanup := 0\<rparr>"
    have ok2: "arena_ok used ?h1 A" using m(3) by (intro arena_ok_cong [OF m(3)]) (simp_all add: arena_ok_def)
    have dj: "range_of p (unat (?o + ?m)) \<inter> range_of (fst x) (snd x) = {}" if "x \<in> set A" for x
      using b alloc_mapped [of h x] ok that by (auto simp: arena_ok_def)
    have off: "16 \<le> unat ?o" "8 dvd unat ?o" "?o \<le> ?o + ?m"
      using bs unfolding word_le_nat_alt by (simp_all add: o88)
    obtain h2 where h2: "upb_Arena_AddBlock p ?o (?o + ?m) ?h1 = Ok h2" "arena_ok used h2 A" "h_mem h2 = h_mem ?h1"
      by (rule AddBlock_ok [OF ok2 _ _ _ False dj off]) (use b in auto)
    have "keeps h h2" using k h2(3) by (simp add: keeps_def)
    moreover have "upb_Arena_InitSlow f alloc n h = Ok (True, h2)"
      using \<open>alloc\<close> m(1) False h2(1) by (simp add: upb_Arena_InitSlow_def Let_def)
    ultimately show thesis using h2(2) that by blast
  qed
qed

end

section \<open>What freeing returns to the system\<close>

text \<open>A system allocator that also writes down what it has given out.\<close>

definition logged :: "'x sys_malloc \<Rightarrow> ('x \<times> (u64 \<times> u64) list) sys_malloc" where
  "logged f n s =
     (case f n (fst s) of (p, junk, s') \<Rightarrow> (p, junk, s', if p = 0 then snd s else (p, n) # snd s))"

text \<open>The states of an arena whose every request has been fulfilled.\<close>

inductive arena_run :: "'x sys_malloc \<Rightarrow> ('x \<times> (u64 \<times> u64) list) heap \<Rightarrow> bool" for f where
  start: "snd (h_sys h) = [] \<Longrightarrow> upb_Arena_Init (logged f) p n alloc h = Ok (True, h') \<Longrightarrow> arena_run f h'"
| malloc: "arena_run f h \<Longrightarrow> upb_Arena_Malloc (logged f) n h = Ok (p, h') \<Longrightarrow> p \<noteq> 0 \<Longrightarrow> arena_run f h'"
| realloc: "arena_run f h \<Longrightarrow> upb_Arena_Realloc (logged f) p m n h = Ok (q, h') \<Longrightarrow> q \<noteq> 0 \<Longrightarrow> arena_run f h'"
| shrink: "arena_run f h \<Longrightarrow> upb_Arena_ShrinkLast p m n h = Ok h' \<Longrightarrow> arena_run f h'"
| max_block: "arena_run f h \<Longrightarrow> arena_run f (upb_Arena_SetMaxBlockSize n h)"

text \<open>The hint of the head is its size while it is the only block; other blocks have their sizes.\<close>

definition books :: "('x \<times> (u64 \<times> u64) list) heap \<Rightarrow> bool" where
  "books h \<longleftrightarrow>
     (case a_blocks h of
        [] \<Rightarrow> snd (h_sys h) = []
      | head # rest \<Rightarrow>
          mset (snd (h_sys h)) =
            add_mset (blk_addr head, a_end h - blk_addr head) (mset (map (\<lambda>b. (blk_addr b, size_or_hint b)) rest)) \<and>
          (rest = [] \<longrightarrow> size_or_hint head = a_end h - blk_addr head))"

lemma books_free: "books h \<Longrightarrow> mset (upb_Arena_DoFree h) = mset (snd (h_sys h))"
  by (auto simp: books_def upb_Arena_DoFree_def split: list.splits)

lemma books_cong:
  "books h \<Longrightarrow> a_blocks h' = a_blocks h \<Longrightarrow> a_end h' = a_end h \<Longrightarrow> snd (h_sys h') = snd (h_sys h) \<Longrightarrow> books h'"
  by (simp add: books_def split: list.splits)

lemma upb_malloc_log:
  assumes "upb_malloc (logged f) n h = Ok (p, h')" "p \<noteq> 0"
  shows "snd (h_sys h') = (p, n) # snd (h_sys h)" "a_blocks h' = a_blocks h" "a_end h' = a_end h"
    "a_has_alloc h'"
  using assms
  by (auto simp: upb_malloc_def upb_global_allocfunc_def logged_def cassert_Ok_iff split: prod.splits if_splits)

lemma AddBlock_books:
  assumes "upb_Arena_AddBlock p off bs h = Ok h'" "snd (h_sys h) = (p, bs) # snd (h_sys h0)" "books h0"
    "a_blocks h = a_blocks h0" "a_end h = a_end h0"
  shows "books h'"
  using assms by (auto simp: upb_Arena_AddBlock_def Let_def cassert_Ok_iff books_def split: list.splits)

lemma arena_bump_frame:
  "arena_bump n h = Ok (p, h') \<Longrightarrow> a_blocks h' = a_blocks h \<and> a_end h' = a_end h \<and> h_sys h' = h_sys h"
  by (auto simp: arena_bump_def Let_def cassert_Ok_iff)

lemma bump_books: "arena_bump n h = Ok (p, h') \<Longrightarrow> books h \<Longrightarrow> books h'"
  using arena_bump_frame [of n h p h'] by (auto intro: books_cong)

lemma slow_hint: "slow_block_size h n = (bs, False, hint) \<Longrightarrow> a_blocks h = head # rest \<Longrightarrow> hint = size_or_hint head"
  by (auto simp: slow_block_size_def Let_def split: prod.splits)

lemma SlowMalloc_books:
  assumes m: "upb_Arena_SlowMalloc (logged f) n h = Ok (p, h')" and p: "p \<noteq> 0" and b: "books h"
  shows "books h'"
proof -
  obtain bs ins hint where s: "slow_block_size h n = (bs, ins, hint)" by (cases "slow_block_size h n") auto
  let ?bl = "case a_blocks h of [] \<Rightarrow> [] | head # bs \<Rightarrow> head\<lparr>size_or_hint := hint\<rparr> # bs"
  let ?h = "h\<lparr>a_blocks := ?bl\<rparr>"
  have al: "\<not> (\<not> a_has_alloc h \<and> \<not> a_has_initial h)"
  proof
    assume "\<not> a_has_alloc h \<and> \<not> a_has_initial h"
    then have "upb_Arena_SlowMalloc (logged f) n h = Ok (0, h)" by (simp add: upb_Arena_SlowMalloc_def)
    then show False using m p by simp
  qed
  obtain q h1 where q: "upb_malloc (logged f) bs ?h = Ok (q, h1)" "q \<noteq> 0"
    using m p al s by (auto simp: upb_Arena_SlowMalloc_def Let_def cbind_Ok_iff split: if_splits prod.splits)
  note lg = upb_malloc_log [OF q]
  let ?h1 = "h1\<lparr>a_space_allocated := a_space_allocated h1 + bs\<rparr>"
  show ?thesis
  proof (cases ins)
    case True
    obtain head rest where hr: "a_blocks h = head # rest" using slow_block_size_cases [OF s] True by (cases "a_blocks h") auto
    have "h' = ?h1\<lparr>a_blocks := head\<lparr>size_or_hint := hint\<rparr> # \<lparr>blk_addr = q, size_or_hint = bs\<rparr> # rest\<rparr>"
      using m al s q True lg hr by (simp add: upb_Arena_SlowMalloc_def Let_def)
    then show ?thesis using b lg hr by (simp add: books_def)
  next
    case False
    have bl: "?bl = a_blocks h" using slow_hint [of h n bs hint] s False by (auto split: list.splits)
    obtain h2 where h2: "upb_Arena_AddBlock q kUpb_MemblockReserve bs ?h1 = Ok h2"
      "arena_bump (UPB_ALIGN_MALLOC n) h2 = Ok (p, h')"
      using m al s q False by (auto simp: upb_Arena_SlowMalloc_def Let_def cbind_Ok_iff cassert_Ok_iff)
    have "books h2" using AddBlock_books [OF h2(1) _ b] lg bl by simp
    then show ?thesis by (rule bump_books [OF h2(2)])
  qed
qed

lemma Malloc_books:
  "upb_Arena_Malloc (logged f) n h = Ok (p, h') \<Longrightarrow> p \<noteq> 0 \<Longrightarrow> books h \<Longrightarrow> books h'"
  by (auto simp: upb_Arena_Malloc_def Let_def split: if_splits dest: SlowMalloc_books bump_books)

lemma ShrinkLast_books: "upb_Arena_ShrinkLast p m n h = Ok h' \<Longrightarrow> books h \<Longrightarrow> books h'"
  by (auto simp: upb_Arena_ShrinkLast_def Let_def cassert_Ok_iff split: if_splits intro: books_cong)

lemma TryExtend_books: "upb_Arena_TryExtend p m n h = Ok (r, h') \<Longrightarrow> books h \<Longrightarrow> books h'"
  by (auto simp: upb_Arena_TryExtend_def Let_def cassert_Ok_iff split: if_splits intro: books_cong)

lemma alloc_and_copy_books:
  assumes "alloc_and_copy (logged f) p m n h = Ok (q, h')" "q \<noteq> 0" "books h"
  shows "books h'"
proof -
  obtain r h1 where r: "upb_Arena_Malloc (logged f) n h = Ok (r, h1)" "r = q"
    "h' = h1 \<or> (\<exists>m'. h' = h1\<lparr>h_mem := m'\<rparr>)"
    using assms(1) by (auto simp: alloc_and_copy_def cbind_Ok_iff split: if_splits)
  have "books h1" using Malloc_books [OF r(1)] r(2) assms by simp
  then show ?thesis using r(3) by (auto intro: books_cong)
qed

lemma Realloc_books:
  "upb_Arena_Realloc (logged f) p m n h = Ok (q, h') \<Longrightarrow> q \<noteq> 0 \<Longrightarrow> books h \<Longrightarrow> books h'"
  by (auto simp: Realloc_cases cbind_Ok_iff split: if_splits
      dest: alloc_and_copy_books ShrinkLast_books TryExtend_books)

lemma Init_books:
  assumes "upb_Arena_Init (logged f) p n alloc h = Ok (True, h')" and l: "snd (h_sys h) = []"
  shows "books h'"
proof -
  have slow: "books h'" if init: "upb_Arena_InitSlow (logged f) alloc k h = Ok (True, h')" for k
  proof -
    let ?o = "UPB_ALIGN_MALLOC (kUpb_MemblockReserve + sizeof_upb_ArenaState)"
    let ?bs = "?o + max 256 (UPB_ALIGN_MALLOC k)"
    obtain q h1 where q: "upb_malloc (logged f) ?bs (h\<lparr>a_has_alloc := True\<rparr>) = Ok (q, h1)" "q \<noteq> 0"
      "upb_Arena_AddBlock q ?o ?bs (h1\<lparr>a_has_initial := False, a_blocks := [], a_space_allocated := ?bs, a_cleanup := 0\<rparr>) = Ok h'"
      using init by (auto simp: upb_Arena_InitSlow_def Let_def cbind_Ok_iff split: if_splits)
    let ?e = "h\<lparr>a_blocks := [], a_end := a_end h1\<rparr>"
    have "books ?e" using l by (simp add: books_def)
    then show ?thesis using AddBlock_books [OF q(3), of ?e] upb_malloc_log(1) [OF q(1,2)] by simp
  qed
  show ?thesis using assms
    by (auto simp: upb_Arena_Init_def Let_def split: if_splits prod.splits dest: slow)
      (auto simp: books_def)
qed

lemma run_books: "arena_run f h \<Longrightarrow> books h"
proof (induction rule: arena_run.induct)
  case (start h p n alloc h')
  then show ?case by (intro Init_books)
next
  case (max_block h n)
  then show ?case by (auto simp: upb_Arena_SetMaxBlockSize_def intro: books_cong)
qed (auto dest: Malloc_books Realloc_books ShrinkLast_books)

section \<open>A series of allocations from a new arena\<close>

definition no_arena :: "mem \<Rightarrow> 'x \<Rightarrow> u64 \<Rightarrow> 'x heap" where
  "no_arena m s mx =
     \<lparr>h_mem = m, h_sys = s, a_ptr = 0, a_end = 0, a_blocks = [], a_has_alloc = False, a_has_initial = False,
      a_space_allocated = 0, a_max_block = mx, a_cleanup = 0\<rparr>"

fun mallocs :: "'x sys_malloc \<Rightarrow> u64 list \<Rightarrow> 'x heap \<Rightarrow> (unit, u64 list \<times> 'x heap) cres" where
  "mallocs f [] h = Ok ([], h)"
| "mallocs f (n # ns) h =
     cbind (upb_Arena_Malloc f n h) (\<lambda>(p, h). cbind (mallocs f ns h) (\<lambda>(ps, h). Ok (p # ps, h)))"

definition fulfilled :: "u64 list \<Rightarrow> u64 list \<Rightarrow> (u64 \<times> nat) list" where
  "fulfilled ns ps = map (\<lambda>(n, p). (p, unat (UPB_ALIGN_MALLOC n))) (filter (\<lambda>(n, p). p \<noteq> 0) (zip ns ps))"

lemma no_arena_ok: "{a. m a \<noteq> None} \<subseteq> used s \<Longrightarrow> arena_ok used (no_arena m s mx) []"
  by (simp add: arena_ok_def no_arena_def free_bytes_def mapped_def range_of_def)

lemma apart_all_iff:
  "apart_all (xs @ ys) \<longleftrightarrow> apart_all xs \<and> apart_all ys \<and>
     (\<forall>x \<in> set xs. \<forall>y \<in> set ys. range_of (fst x) (snd x) \<inter> range_of (fst y) (snd y) = {})"
  by (induction xs) auto

lemma arena_ok_swap: "arena_ok used h (xs @ a # ys) \<longleftrightarrow> arena_ok used h (a # xs @ ys)"
proof -
  have "apart_all (xs @ a # ys) = apart_all (a # xs @ ys)"
    by (simp add: apart_all_iff ball_Un ball_conj_distrib Int_commute) blast
  then show ?thesis by (auto simp: arena_ok_def)
qed

lemma align_dvd_any: "8 dvd unat (UPB_ALIGN_MALLOC n)"
proof -
  let ?x = "n + 8 - 1"
  have "unat (?x div 8) = unat ?x div 8" by (simp add: unat_div)
  moreover have "unat ?x div 8 * 8 < 2 ^ 64" by (rule le_less_trans [of _ "unat ?x"]) simp_all
  ultimately have "unat (?x div 8 * 8) = unat ?x div 8 * 8" by (subst unat_mult_lem [THEN iffD1]) simp_all
  then show ?thesis by (simp add: UPB_ALIGN_MALLOC_def)
qed

context sys_malloc begin

lemma mallocs_ok:
  "arena_ok used h A \<Longrightarrow> list_all (\<lambda>n. unat n \<le> 2 ^ 64 - 40) ns \<Longrightarrow>
    \<exists>ps h'. mallocs f ns h = Ok (ps, h') \<and> keeps h h' \<and> length ps = length ns \<and>
      arena_ok used h' (fulfilled ns ps @ A)"
proof (induction ns arbitrary: h A)
  case Nil
  then show ?case by (simp add: fulfilled_def)
next
  case (Cons n ns)
  have n: "unat n \<le> 2 ^ 64 - 40" using Cons.prems by simp
  obtain p h1 where m: "upb_Arena_Malloc f n h = Ok (p, h1)" "keeps h h1"
    "arena_ok used h1 (if p = 0 then A else (p, unat (UPB_ALIGN_MALLOC n)) # A)"
    by (rule Malloc_any [OF Cons.prems(1) n])
  obtain ps h2 where r: "mallocs f ns h1 = Ok (ps, h2)" "keeps h1 h2" "length ps = length ns"
    "arena_ok used h2 (fulfilled ns ps @ (if p = 0 then A else (p, unat (UPB_ALIGN_MALLOC n)) # A))"
    using Cons.IH [OF m(3)] Cons.prems by auto
  have "keeps h h2" using m(2) r(2) by (simp add: keeps_def)
  moreover have "arena_ok used h2 (fulfilled (n # ns) (p # ps) @ A)"
    using r(4) by (cases "p = 0") (simp_all add: fulfilled_def arena_ok_swap)
  moreover have "mallocs f (n # ns) h = Ok (p # ps, h2)" using m(1) r(1) by simp
  ultimately show ?case using r(3) by (intro exI [of _ "p # ps"] exI [of _ h2]) simp
qed

lemma Init_spec:
  assumes m: "{a. m a \<noteq> None} \<subseteq> used s" and p: "p \<noteq> 0 \<longrightarrow> mapped m p (unat n) \<and> unat p + unat n < 2 ^ 64"
    and n: "unat n \<le> 2 ^ 64 - 400"
  shows "\<exists>r h. upb_Arena_Init f p n True (no_arena m s mx) = Ok (r, h) \<and> keeps (no_arena m s mx) h \<and>
    arena_ok used h []"
proof -
  let ?h = "no_arena m s mx"
  note ok = no_arena_ok [of m used s mx, OF m]
  let ?q = "UPB_ALIGN_MALLOC p"
  let ?d = "?q - p"
  let ?n = "if ?d \<le> n then n - ?d else 0"
  have slow: ?thesis if i: "upb_Arena_Init f p n True ?h = upb_Arena_InitSlow f True k ?h" "unat k \<le> 2 ^ 64 - 400" for k
  proof -
    obtain r h where "upb_Arena_InitSlow f True k ?h = Ok (r, h)" "keeps ?h h" "arena_ok used h []"
      by (rule InitSlow_spec [OF ok i(2)])
    then show ?thesis using i(1) by auto
  qed
  consider "p = 0" | "p \<noteq> 0" "?n < sizeof_upb_ArenaState \<or> ?q = 0" | "p \<noteq> 0" "\<not> ?n < sizeof_upb_ArenaState" "?q \<noteq> 0"
    by blast
  then show ?thesis
  proof cases
    case 1
    then show ?thesis using n by (intro slow [of n]) (simp_all add: upb_Arena_Init_def)
  next
    case 2
    then have "upb_Arena_Init f p n True ?h = upb_Arena_InitSlow f True (if ?q \<noteq> 0 then 0 else ?n) ?h"
      by (simp add: upb_Arena_Init_def Let_def cong: if_cong)
    moreover have "unat (if ?q \<noteq> 0 then 0 else ?n) \<le> 2 ^ 64 - 400"
    proof -
      have "unat ?n \<le> unat n" by (simp add: unat_sub)
      then have "unat ?n \<le> 2 ^ 64 - 400" using n by (rule le_trans)
      then show ?thesis by (cases "?q \<noteq> 0") (simp_all only: if_True if_False unat_0 le0 simp_thms)
    qed
    ultimately show ?thesis by (rule slow)
  next
    case 3
    have pb: "mapped m p (unat n)" "unat p + unat n < 2 ^ 64" using p 3(1) by simp_all
    have n72: "72 \<le> unat ?n" using 3(2) by (simp add: sizeof_upb_ArenaState_def not_less word_le_nat_alt)
    have dn: "?d \<le> n" using n72 by (auto split: if_splits)
    have q8: "8 dvd unat ?q" by (simp add: align_dvd_any)
    have qp: "unat ?q = unat p + unat ?d"
    proof -
      have "unat p + unat ?d < 2 ^ 64" using pb(2) dn by (simp add: word_le_nat_alt)
      from unat_plus64 [OF this] show ?thesis by simp
    qed
    have nn: "unat ?n = unat n - unat ?d" "unat ?d \<le> unat n" using dn by (simp_all add: unat_sub word_le_nat_alt)
    let ?fin = "?q + ?n"
    have ue: "unat ?fin = unat p + unat n" using qp nn pb(2) by (subst unat_plus64) simp_all
    have u72: "unat (?q + sizeof_upb_ArenaState) = unat ?q + 72"
      using qp nn n72 pb(2) by (subst unat_plus64) (simp_all add: sizeof_upb_ArenaState_def)
    have al: "UPB_ALIGN_MALLOC (?q + sizeof_upb_ArenaState) = ?q + sizeof_upb_ArenaState"
      using q8 u72 by (intro align_id) simp
    let ?h2 = "?h\<lparr>a_blocks := [], a_has_alloc := True, a_has_initial := True, a_space_allocated := 0, a_cleanup := 0,
                 a_ptr := ?q + sizeof_upb_ArenaState, a_end := ?fin\<rparr>"
    have le: "unat ?d + 72 \<le> unat n" using nn n72 by linarith
    have "free_bytes ?h2 = unat n - unat ?d - 72" using u72 ue qp by (simp add: free_bytes_def)
    moreover have "unat (a_ptr ?h2) = unat p + unat ?d + 72" using u72 qp by simp
    ultimately have "range_of (a_ptr ?h2) (free_bytes ?h2) \<subseteq> range_of p (unat n)"
      using le pb(2) by (auto simp: range_of_interval)
    then have "mapped m (a_ptr ?h2) (free_bytes ?h2)" by (rule mapped_mono [OF pb(1)])
    moreover have "a_ptr ?h2 \<noteq> 0" using u72 by (auto simp: unat_eq_0 [symmetric])
    moreover have "a_ptr ?h2 \<le> ?fin" using u72 ue qp nn n72 by (simp add: word_le_nat_alt)
    moreover have "8 dvd unat (a_ptr ?h2)" using q8 u72 by simp
    ultimately have "arena_ok used ?h2 []" using m by (simp add: arena_ok_def no_arena_def)
    moreover have "upb_Arena_Init f p n True ?h = Ok (True, ?h2)"
      using 3 al by (simp add: upb_Arena_Init_def Let_def cong: if_cong)
    ultimately show ?thesis by (intro exI [of _ True] exI [of _ ?h2]) simp
  qed
qed

end

section \<open>A system allocator for examples\<close>

text \<open>It gives out increasing addresses and never takes memory back.\<close>

definition bump_sys :: "u64 sys_malloc" where
  "bump_sys n s =
     (if 8 dvd unat s \<and> s \<noteq> 0 \<and> unat s + unat n < 2 ^ 63 then (s, (\<lambda>_. 0), UPB_ALIGN_MALLOC (s + n))
      else (0, (\<lambda>_. 0), s))"

text \<open>Two more, which have one block and two blocks to give.\<close>

definition one_block :: "nat sys_malloc" where
  "one_block n k = (if k = 0 then (4096, (\<lambda>_. 0), 1) else (0, (\<lambda>_. 0), k))"

definition two_blocks :: "nat sys_malloc" where
  "two_blocks n k =
     (if k = 0 then (4096, (\<lambda>_. 0), 1) else if k = 1 then (8192, (\<lambda>_. 0), 2) else (0, (\<lambda>_. 0), k))"

definition below :: "u64 \<Rightarrow> u64 set" where
  "below s = {a. unat a < unat s}"

interpretation bump: sys_malloc bump_sys below
proof
  fix n s junk s'
  show "bump_sys n s = (0, junk, s') \<Longrightarrow> below s \<subseteq> below s'"
    by (auto simp: bump_sys_def split: if_splits)
next
  fix n s p junk s'
  assume b: "bump_sys n s = (p, junk, s')" and p: "p \<noteq> 0"
  then have s: "8 dvd unat s" "p = s" "unat s + unat n < 2 ^ 63" "s' = UPB_ALIGN_MALLOC (s + n)"
    by (auto simp: bump_sys_def split: if_splits)
  have u: "unat (s + n) = unat s + unat n" using s(3) by (intro unat_plus64) simp
  have "unat s + unat n \<le> unat s'" using align_ge [of "s + n"] u s(3,4) by simp
  then show "8 dvd unat p \<and> unat p + unat n < 2 ^ 64 \<and> range_of p (unat n) \<inter> below s = {} \<and>
      below s \<union> range_of p (unat n) \<subseteq> below s'"
    using s by (auto simp: below_def range_of_interval)
qed

interpretation logged_bump: sys_malloc "logged bump_sys" "\<lambda>s. below (fst s)"
proof
  fix n s junk s'
  show "logged bump_sys n s = (0, junk, s') \<Longrightarrow> below (fst s) \<subseteq> below (fst s')"
    using bump.null [of n "fst s" junk "fst s'"] by (auto simp: logged_def split: prod.splits if_splits)
next
  fix n s p junk s'
  assume b: "logged bump_sys n s = (p, junk, s')" and p: "p \<noteq> 0"
  then have "bump_sys n (fst s) = (p, junk, fst s')" by (auto simp: logged_def split: prod.splits)
  from bump.fresh [OF this p]
  show "8 dvd unat p \<and> unat p + unat n < 2 ^ 64 \<and> range_of p (unat n) \<inter> below (fst s) = {} \<and>
      below (fst s) \<union> range_of p (unat n) \<subseteq> below (fst s')" .
qed

section \<open>Properties\<close>

text \<open>C27: Let \<open>upb_Arena_Init\<close> be called with an allocator, for an arena in a buffer of the caller (mapped and
  not at the end of the address space) or in a block from the system, with a size of at most
  \<open>2 ^ 64 - 400\<close> bytes, and let \<open>upb_Arena_Malloc\<close> serve any requests of at most \<open>2 ^ 64 - 40\<close> bytes, 0
  included (the rounding of larger ones can wrap around). No call is undefined, and the allocations that
  were given out (the results that are not \<open>NULL\<close>) are aligned to 8 bytes, mapped, pairwise disjoint and
  apart from the arena's free space (\<open>arena_ok\<close>), while no byte that was mapped before changes. An
  arena without an allocator is left out: a call is undefined once its buffer is full.\<close>

theorem arena_allocations_apart:
  assumes "sys_malloc f used" "{a. m a \<noteq> None} \<subseteq> used s" "unat n \<le> 2 ^ 64 - 400"
    and "p \<noteq> 0 \<longrightarrow> mapped m p (unat n) \<and> unat p + unat n < 2 ^ 64"
    and "list_all (\<lambda>k. unat k \<le> 2 ^ 64 - 40) ns"
  shows "\<exists>r h. upb_Arena_Init f p n True (no_arena m s mx) = Ok (r, h) \<and>
    (\<exists>ps h'. mallocs f ns h = Ok (ps, h') \<and> length ps = length ns \<and> arena_ok used h' (fulfilled ns ps) \<and>
       (\<forall>a. m a \<noteq> None \<longrightarrow> h_mem h' a = m a))"
proof -
  obtain r h where i: "upb_Arena_Init f p n True (no_arena m s mx) = Ok (r, h)" "keeps (no_arena m s mx) h"
    "arena_ok used h []"
    using sys_malloc.Init_spec [OF assms(1,2,4,3), of mx] by blast
  obtain ps h' where r: "mallocs f ns h = Ok (ps, h')" "keeps h h'" "length ps = length ns"
    "arena_ok used h' (fulfilled ns ps)"
    using sys_malloc.mallocs_ok [OF assms(1) i(3) assms(5)] by auto
  have "\<forall>a. m a \<noteq> None \<longrightarrow> h_mem h' a = m a" using i(2) r(2) by (simp add: keeps_def no_arena_def)
  then show ?thesis using i(1) r by blast
qed

theorem arena_allocations_apart_witness:
  "\<exists>r h. upb_Arena_Init bump_sys 0 0 True (no_arena (\<lambda>_. None) 4096 32768) = Ok (r, h) \<and>
    (\<exists>ps h'. mallocs bump_sys [24, 300, 5000] h = Ok (ps, h') \<and> length ps = length [24 :: u64, 300, 5000] \<and>
       arena_ok below h' (fulfilled [24, 300, 5000] ps) \<and> (\<forall>a. None \<noteq> None \<longrightarrow> h_mem h' a = None))"
  using arena_allocations_apart [OF bump.sys_malloc_axioms, where m = "\<lambda>_. None" and s = 4096 and n = 0 and p = 0
      and mx = 32768 and ns = "[24, 300, 5000]"]
  by (simp only: list.pred_inject) simp

text \<open>C28: \<open>upb_Arena_Realloc\<close> from one size to another, both at most \<open>2 ^ 64 - 40\<close> bytes (beyond that the
  rounding can wrap around), of an allocation of the arena or of \<open>NULL\<close> with the size 0, is not undefined, whether
  it grows in place, moves, shrinks or keeps it: the result has the new size and memory of its own among the
  arena's other allocations, its first bytes are those of the old allocation, and no other mapped byte
  changes. It fails only when there is no memory (\<open>no_memory\<close>: the block is full and the system refuses the next
  one), or for 0 bytes from an arena without a block, and then everything is as before. The arena has an
  allocator, or has neither that nor an initial block (\<open>arena_ok\<close>).\<close>

theorem arena_realloc_keeps_bytes:
  assumes "sys_malloc f used" "arena_ok used h (with_alloc p k A)" "p = 0 \<longrightarrow> k = 0"
    and "unat n \<le> 2 ^ 64 - 40" "unat k \<le> 2 ^ 64 - 40"
  shows "\<exists>q h'. upb_Arena_Realloc f p k n h = Ok (q, h') \<and>
    arena_ok used h' (if q = 0 then with_alloc p k A else with_alloc q n A) \<and>
    (\<forall>a. h_mem h a \<noteq> None \<and> a \<notin> range_of q (unat (UPB_ALIGN_MALLOC n)) \<longrightarrow> h_mem h' a = h_mem h a) \<and>
    (if q = 0 then (\<forall>a. h_mem h a \<noteq> None \<longrightarrow> h_mem h' a = h_mem h a) \<and> (n = 0 \<or> no_memory f h n)
     else load (h_mem h') q (unat (min k n)) = load (h_mem h) p (unat (min k n)))"
proof -
  obtain q h' where r: "upb_Arena_Realloc f p k n h = Ok (q, h')" "realloc_ok used A p k n h q h'"
    "q = 0 \<longrightarrow> n = 0 \<or> no_memory f h n"
    using sys_malloc.Realloc_spec [OF assms] by blast
  show ?thesis using r(2,3) unfolding realloc_ok_def mem_frame_def keeps_def
    by (intro exI [of _ q] exI [of _ h'] conjI r(1)) (cases "q = 0"; simp)+
qed

theorem arena_realloc_keeps_bytes_witness:
  "let m = (\<lambda>a. if unat (a - 4096) < 1000 then Some 7 else None);
       h = no_arena m 8192 32768\<lparr>a_ptr := 4120, a_end := 5096, a_has_alloc := True\<rparr>
   in \<exists>q h'. upb_Arena_Realloc bump_sys 4096 24 500 h = Ok (q, h') \<and>
        arena_ok below h' (if q = 0 then with_alloc 4096 24 [] else with_alloc q 500 []) \<and>
        (\<forall>a. h_mem h a \<noteq> None \<and> a \<notin> range_of q (unat (UPB_ALIGN_MALLOC 500)) \<longrightarrow> h_mem h' a = h_mem h a) \<and>
        (if q = 0 then (\<forall>a. h_mem h a \<noteq> None \<longrightarrow> h_mem h' a = h_mem h a) \<and> (500 = (0 :: u64) \<or> no_memory bump_sys h 500)
         else load (h_mem h') q (unat (min 24 500 :: u64)) = load (h_mem h) 4096 (unat (min 24 500 :: u64)))"
proof -
  let ?m = "\<lambda>a :: u64. if unat (a - 4096) < 1000 then Some (7 :: u8) else None"
  let ?h = "no_arena ?m 8192 32768\<lparr>a_ptr := 4120, a_end := 5096, a_has_alloc := True\<rparr>"
  have m: "?m a = (if 4096 \<le> unat a \<and> unat a < 5096 then Some 7 else None)" for a
    using range_of_interval [of 4096 1000 a] by (simp add: range_of_def)
  have al: "UPB_ALIGN_MALLOC 24 = 24" by (simp add: UPB_ALIGN_MALLOC_def)
  have "arena_ok below ?h (with_alloc 4096 24 [])"
    unfolding arena_ok_def with_alloc_def no_arena_def al
    by (auto simp: m alloc_ok_def free_bytes_def mapped_def range_of_interval below_def split: if_splits)
  then show ?thesis unfolding Let_def
    by (rule arena_realloc_keeps_bytes [OF bump.sys_malloc_axioms]) simp_all
qed

text \<open>C34: When the last reference of an arena that is not fused is dropped, it returns to the system
  exactly the blocks it was given, each once and with its size: after any run of requests that were all
  fulfilled, in which a block's size is not stored while its header holds the growth hint.\<close>

theorem arena_frees_its_blocks:
  assumes "arena_run f h"
  shows "mset (upb_Arena_DoFree h) = mset (snd (h_sys h))"
  by (rule books_free) (rule run_books [OF assms])

theorem arena_frees_its_blocks_witness:
  "\<exists>h. arena_run two_blocks h \<and> length (upb_Arena_DoFree h) = 2 \<and>
     mset (upb_Arena_DoFree h) = mset (snd (h_sys h))"
proof -
  have "(case cbind (upb_Arena_Init (logged two_blocks) 0 0 True (no_arena (\<lambda>_. None) (0, []) 32768)) (\<lambda>(r, h).
           cbind (upb_Arena_Malloc (logged two_blocks) 600 h) (\<lambda>(p, h'). Ok (r, p \<noteq> 0, length (upb_Arena_DoFree h')))) of
           Ok x \<Rightarrow> x = (True, True, 2) | _ \<Rightarrow> False)"
    by code_simp
  then obtain h p h' where h: "upb_Arena_Init (logged two_blocks) 0 0 True (no_arena (\<lambda>_. None) (0, []) 32768) = Ok (True, h)"
    "upb_Arena_Malloc (logged two_blocks) 600 h = Ok (p, h')" "p \<noteq> 0" "length (upb_Arena_DoFree h') = 2"
    by (auto simp: cbind_Ok_iff split: cres.splits)
  have "arena_run two_blocks h'"
    by (rule arena_run.malloc [OF arena_run.start [OF _ h(1)] h(2,3)]) (simp add: no_arena_def)
  then show ?thesis using h(4) arena_frees_its_blocks [of two_blocks h'] by blast
qed

text \<open>C35: An arena that is created in a caller's buffer with no allocator does not fail when its buffer is
  full: \<open>upb_Arena_SlowMalloc\<close> tests the tagged pointer, whose tag is set, and calls \<open>upb_malloc\<close> on a null
  allocator.\<close>

theorem fixed_size_arena_full:
  assumes "upb_Arena_Init f p n False h = Ok (True, h')" "upb_ArenaHas h' < UPB_ALIGN_MALLOC k"
  shows "upb_Arena_Malloc f k h' = UB"
proof -
  have "a_has_initial h' \<and> \<not> a_has_alloc h'"
    using assms(1) by (auto simp: upb_Arena_Init_def upb_Arena_InitSlow_def Let_def split: if_splits prod.splits)
  then show ?thesis using assms(2)
    by (auto simp: upb_Arena_Malloc_def upb_Arena_SlowMalloc_def upb_malloc_def cassert_def Let_def split: prod.splits)
qed

theorem fixed_size_arena_full_witness:
  "\<exists>h. upb_Arena_Init bump_sys 4096 100 False (no_arena (\<lambda>_. Some 0) 8192 32768) = Ok (True, h) \<and>
     upb_Arena_Malloc bump_sys 64 h = UB"
proof -
  have "(case upb_Arena_Init bump_sys 4096 100 False (no_arena (\<lambda>_. Some 0) 8192 32768) of
           Ok (r, h) \<Rightarrow> r \<and> upb_ArenaHas h < UPB_ALIGN_MALLOC 64 | _ \<Rightarrow> False)"
    by code_simp
  then obtain h where "upb_Arena_Init bump_sys 4096 100 False (no_arena (\<lambda>_. Some 0) 8192 32768) = Ok (True, h)"
    "upb_ArenaHas h < UPB_ALIGN_MALLOC 64"
    by (auto split: cres.splits)
  then show ?thesis using fixed_size_arena_full by blast
qed

text \<open>When the system refuses a block, the header of the arena's only block can be left with the new
  growth hint in place of its size, and \<open>upb_Arena_Free\<close> then frees that block with the wrong size: here
  a block of 344 bytes is freed as one of 644.\<close>

theorem refused_block_corrupts_size:
  "cbind (upb_Arena_Init one_block 0 0 True (no_arena (\<lambda>_. None) 0 32768)) (\<lambda>(_, h).
     cbind (upb_Arena_Malloc one_block 600 h) (\<lambda>(p, h'). Ok (p, upb_Arena_DoFree h, upb_Arena_DoFree h'))) =
   Ok (0, [(4096, 344)], [(4096, 644)])"
  by code_simp

end
