(* ===== verification/Descriptor.thy ===== *)
theory Descriptor
  imports Base
begin

text \<open>
  \<open>upb/base/descriptor_constants.h\<close>, \<open>upb/mini_table/internal/size_log2.h\<close> and the constants
  of \<open>upb/mini_descriptor/internal/wire_constants.h\<close> and \<open>modifiers.h\<close>: field types, their C
  types and sizes, and the numbering the mini descriptor format uses.
\<close>

section \<open>Field types\<close>

datatype upb_FieldType =
    FT_Double | FT_Float | FT_Int64 | FT_UInt64 | FT_Int32 | FT_Fixed64 | FT_Fixed32
  | FT_Bool | FT_String | FT_Group | FT_Message | FT_Bytes | FT_UInt32 | FT_Enum
  | FT_SFixed32 | FT_SFixed64 | FT_SInt32 | FT_SInt64

datatype upb_CType =
    CT_Bool | CT_Float | CT_Int32 | CT_UInt32 | CT_Enum | CT_Message | CT_Double
  | CT_Int64 | CT_UInt64 | CT_String | CT_Bytes

fun upb_FieldType_num :: "upb_FieldType \<Rightarrow> nat" where
  "upb_FieldType_num FT_Double = 1"
| "upb_FieldType_num FT_Float = 2"
| "upb_FieldType_num FT_Int64 = 3"
| "upb_FieldType_num FT_UInt64 = 4"
| "upb_FieldType_num FT_Int32 = 5"
| "upb_FieldType_num FT_Fixed64 = 6"
| "upb_FieldType_num FT_Fixed32 = 7"
| "upb_FieldType_num FT_Bool = 8"
| "upb_FieldType_num FT_String = 9"
| "upb_FieldType_num FT_Group = 10"
| "upb_FieldType_num FT_Message = 11"
| "upb_FieldType_num FT_Bytes = 12"
| "upb_FieldType_num FT_UInt32 = 13"
| "upb_FieldType_num FT_Enum = 14"
| "upb_FieldType_num FT_SFixed32 = 15"
| "upb_FieldType_num FT_SFixed64 = 16"
| "upb_FieldType_num FT_SInt32 = 17"
| "upb_FieldType_num FT_SInt64 = 18"

fun upb_FieldType_CType :: "upb_FieldType \<Rightarrow> upb_CType" where
  "upb_FieldType_CType FT_Double = CT_Double"
| "upb_FieldType_CType FT_Float = CT_Float"
| "upb_FieldType_CType FT_Int64 = CT_Int64"
| "upb_FieldType_CType FT_UInt64 = CT_UInt64"
| "upb_FieldType_CType FT_Int32 = CT_Int32"
| "upb_FieldType_CType FT_Fixed64 = CT_UInt64"
| "upb_FieldType_CType FT_Fixed32 = CT_UInt32"
| "upb_FieldType_CType FT_Bool = CT_Bool"
| "upb_FieldType_CType FT_String = CT_String"
| "upb_FieldType_CType FT_Group = CT_Message"
| "upb_FieldType_CType FT_Message = CT_Message"
| "upb_FieldType_CType FT_Bytes = CT_Bytes"
| "upb_FieldType_CType FT_UInt32 = CT_UInt32"
| "upb_FieldType_CType FT_Enum = CT_Enum"
| "upb_FieldType_CType FT_SFixed32 = CT_Int32"
| "upb_FieldType_CType FT_SFixed64 = CT_Int64"
| "upb_FieldType_CType FT_SInt32 = CT_Int32"
| "upb_FieldType_CType FT_SInt64 = CT_Int64"

definition kUnpackableTypes :: u32 where
  "kUnpackableTypes =
     push_bit (upb_FieldType_num FT_String) 1 OR push_bit (upb_FieldType_num FT_Bytes) 1 OR
     push_bit (upb_FieldType_num FT_Message) 1 OR push_bit (upb_FieldType_num FT_Group) 1"

definition upb_FieldType_IsPackable :: "upb_FieldType \<Rightarrow> bool" where
  "upb_FieldType_IsPackable t \<longleftrightarrow>
     push_bit (upb_FieldType_num t) 1 AND NOT kUnpackableTypes \<noteq> 0"

text \<open>\<open>UPB_SIZE(a, b)\<close> is \<open>a\<close> on 32-bit and \<open>b\<close> on 64-bit hosts; the flag says which.\<close>

definition UPB_SIZE :: "bool \<Rightarrow> nat \<Rightarrow> nat \<Rightarrow> nat" where
  "UPB_SIZE is64 a b = (if is64 then b else a)"

fun upb_CType_SizeLg2 :: "bool \<Rightarrow> upb_CType \<Rightarrow> nat" where
  "upb_CType_SizeLg2 is64 CT_Bool = 0"
| "upb_CType_SizeLg2 is64 CT_Float = 2"
| "upb_CType_SizeLg2 is64 CT_Int32 = 2"
| "upb_CType_SizeLg2 is64 CT_UInt32 = 2"
| "upb_CType_SizeLg2 is64 CT_Enum = 2"
| "upb_CType_SizeLg2 is64 CT_Message = UPB_SIZE is64 2 3"
| "upb_CType_SizeLg2 is64 CT_Double = 3"
| "upb_CType_SizeLg2 is64 CT_Int64 = 3"
| "upb_CType_SizeLg2 is64 CT_UInt64 = 3"
| "upb_CType_SizeLg2 is64 CT_String = UPB_SIZE is64 3 4"
| "upb_CType_SizeLg2 is64 CT_Bytes = UPB_SIZE is64 3 4"

fun upb_FieldType_SizeLg2 :: "bool \<Rightarrow> upb_FieldType \<Rightarrow> nat" where
  "upb_FieldType_SizeLg2 is64 FT_Double = 3"
| "upb_FieldType_SizeLg2 is64 FT_Float = 2"
| "upb_FieldType_SizeLg2 is64 FT_Int64 = 3"
| "upb_FieldType_SizeLg2 is64 FT_UInt64 = 3"
| "upb_FieldType_SizeLg2 is64 FT_Int32 = 2"
| "upb_FieldType_SizeLg2 is64 FT_Fixed64 = 3"
| "upb_FieldType_SizeLg2 is64 FT_Fixed32 = 2"
| "upb_FieldType_SizeLg2 is64 FT_Bool = 0"
| "upb_FieldType_SizeLg2 is64 FT_String = UPB_SIZE is64 3 4"
| "upb_FieldType_SizeLg2 is64 FT_Group = UPB_SIZE is64 2 3"
| "upb_FieldType_SizeLg2 is64 FT_Message = UPB_SIZE is64 2 3"
| "upb_FieldType_SizeLg2 is64 FT_Bytes = UPB_SIZE is64 3 4"
| "upb_FieldType_SizeLg2 is64 FT_UInt32 = 2"
| "upb_FieldType_SizeLg2 is64 FT_Enum = 2"
| "upb_FieldType_SizeLg2 is64 FT_SFixed32 = 2"
| "upb_FieldType_SizeLg2 is64 FT_SFixed64 = 3"
| "upb_FieldType_SizeLg2 is64 FT_SInt32 = 2"
| "upb_FieldType_SizeLg2 is64 FT_SInt64 = 3"

lemma upb_FieldType_SizeLg2_CType:
  "upb_FieldType_SizeLg2 is64 t = upb_CType_SizeLg2 is64 (upb_FieldType_CType t)"
  by (cases t) simp_all

lemma upb_FieldType_IsPackable_iff:
  "upb_FieldType_IsPackable t \<longleftrightarrow> t \<notin> {FT_String, FT_Bytes, FT_Message, FT_Group}"
  by (cases t) (simp_all add: upb_FieldType_IsPackable_def kUnpackableTypes_def)

section \<open>Mini descriptor constants\<close>

definition kUpb_EncodedType_RepeatedBase :: nat where
  "kUpb_EncodedType_RepeatedBase = 20"

fun kUpb_EncodedToType :: "nat \<Rightarrow> upb_FieldType option" where
  "kUpb_EncodedToType n =
     (let tab = [FT_Double, FT_Float, FT_Fixed32, FT_Fixed64, FT_SFixed32, FT_SFixed64,
        FT_Int32, FT_UInt32, FT_SInt32, FT_Int64, FT_UInt64, FT_SInt64, FT_Enum, FT_Bool,
        FT_Bytes, FT_String, FT_Group, FT_Message, FT_Enum]
      in if n < length tab then Some (tab ! n) else None)"

definition kUpb_EncodedType_OpenEnum :: nat where "kUpb_EncodedType_OpenEnum = 12"
definition kUpb_EncodedType_Group :: nat where "kUpb_EncodedType_Group = 16"
definition kUpb_EncodedType_Message :: nat where "kUpb_EncodedType_Message = 17"
definition kUpb_EncodedType_ClosedEnum :: nat where "kUpb_EncodedType_ClosedEnum = 18"

definition kUpb_EncodedFieldModifier_FlipPacked :: u32 where
  "kUpb_EncodedFieldModifier_FlipPacked = 1"
definition kUpb_EncodedFieldModifier_IsRequired :: u32 where
  "kUpb_EncodedFieldModifier_IsRequired = 2"
definition kUpb_EncodedFieldModifier_IsProto3Singular :: u32 where
  "kUpb_EncodedFieldModifier_IsProto3Singular = 4"
definition kUpb_EncodedFieldModifier_FlipValidateUtf8 :: u32 where
  "kUpb_EncodedFieldModifier_FlipValidateUtf8 = 8"

text \<open>The characters of the format, as bytes.\<close>

definition kUpb_EncodedValue_MinField :: u8 where "kUpb_EncodedValue_MinField = 0x20"
definition kUpb_EncodedValue_MaxField :: u8 where "kUpb_EncodedValue_MaxField = 0x49"
definition kUpb_EncodedValue_MinModifier :: u8 where "kUpb_EncodedValue_MinModifier = 0x4C"
definition kUpb_EncodedValue_MaxModifier :: u8 where "kUpb_EncodedValue_MaxModifier = 0x5B"
definition kUpb_EncodedValue_End :: u8 where "kUpb_EncodedValue_End = 0x5E"
definition kUpb_EncodedValue_MinSkip :: u8 where "kUpb_EncodedValue_MinSkip = 0x5F"
definition kUpb_EncodedValue_MaxSkip :: u8 where "kUpb_EncodedValue_MaxSkip = 0x7E"
definition kUpb_EncodedValue_OneofSeparator :: u8 where
  "kUpb_EncodedValue_OneofSeparator = 0x7E"
definition kUpb_EncodedValue_FieldSeparator :: u8 where
  "kUpb_EncodedValue_FieldSeparator = 0x7C"
definition kUpb_EncodedValue_MinOneofField :: u8 where
  "kUpb_EncodedValue_MinOneofField = 0x20"
definition kUpb_EncodedValue_MaxOneofField :: u8 where
  "kUpb_EncodedValue_MaxOneofField = 0x62"
definition kUpb_EncodedValue_MaxEnumMask :: u8 where "kUpb_EncodedValue_MaxEnumMask = 0x41"

definition kUpb_EncodedVersion_EnumV1 :: u8 where "kUpb_EncodedVersion_EnumV1 = 0x21"
definition kUpb_EncodedVersion_ExtensionV1 :: u8 where "kUpb_EncodedVersion_ExtensionV1 = 0x23"
definition kUpb_EncodedVersion_MapV1 :: u8 where "kUpb_EncodedVersion_MapV1 = 0x25"
definition kUpb_EncodedVersion_MessageV1 :: u8 where "kUpb_EncodedVersion_MessageV1 = 0x24"
definition kUpb_EncodedVersion_MessageSetV1 :: u8 where
  "kUpb_EncodedVersion_MessageSetV1 = 0x26"

definition kUpb_FieldModifier_IsRepeated :: u64 where "kUpb_FieldModifier_IsRepeated = 1"
definition kUpb_FieldModifier_IsPacked :: u64 where "kUpb_FieldModifier_IsPacked = 2"
definition kUpb_FieldModifier_IsClosedEnum :: u64 where "kUpb_FieldModifier_IsClosedEnum = 4"
definition kUpb_FieldModifier_IsProto3Singular :: u64 where
  "kUpb_FieldModifier_IsProto3Singular = 8"
definition kUpb_FieldModifier_IsRequired :: u64 where "kUpb_FieldModifier_IsRequired = 16"
definition kUpb_FieldModifier_ValidateUtf8 :: u64 where "kUpb_FieldModifier_ValidateUtf8 = 32"

definition kUpb_MessageModifier_ValidateUtf8 :: u64 where
  "kUpb_MessageModifier_ValidateUtf8 = 1"
definition kUpb_MessageModifier_DefaultIsPacked :: u64 where
  "kUpb_MessageModifier_DefaultIsPacked = 2"
definition kUpb_MessageModifier_IsExtendable :: u64 where
  "kUpb_MessageModifier_IsExtendable = 4"

lemmas md_char_defs =
  kUpb_EncodedValue_MinField_def kUpb_EncodedValue_MaxField_def
  kUpb_EncodedValue_MinModifier_def kUpb_EncodedValue_MaxModifier_def
  kUpb_EncodedValue_End_def kUpb_EncodedValue_MinSkip_def kUpb_EncodedValue_MaxSkip_def
  kUpb_EncodedValue_OneofSeparator_def kUpb_EncodedValue_FieldSeparator_def
  kUpb_EncodedValue_MinOneofField_def kUpb_EncodedValue_MaxOneofField_def
  kUpb_EncodedValue_MaxEnumMask_def kUpb_EncodedVersion_EnumV1_def
  kUpb_EncodedVersion_ExtensionV1_def kUpb_EncodedVersion_MapV1_def
  kUpb_EncodedVersion_MessageV1_def kUpb_EncodedVersion_MessageSetV1_def

lemmas md_mod_defs =
  kUpb_EncodedFieldModifier_FlipPacked_def kUpb_EncodedFieldModifier_IsRequired_def
  kUpb_EncodedFieldModifier_IsProto3Singular_def
  kUpb_EncodedFieldModifier_FlipValidateUtf8_def
  kUpb_FieldModifier_IsRepeated_def kUpb_FieldModifier_IsPacked_def
  kUpb_FieldModifier_IsClosedEnum_def kUpb_FieldModifier_IsProto3Singular_def
  kUpb_FieldModifier_IsRequired_def kUpb_FieldModifier_ValidateUtf8_def
  kUpb_MessageModifier_ValidateUtf8_def kUpb_MessageModifier_DefaultIsPacked_def
  kUpb_MessageModifier_IsExtendable_def

end
