(* ===== verification/Array.thy ===== *)
theory Array
  imports ArenaProps Descriptor
begin

text \<open>
  \<open>upb/message/internal/array.h\<close> and \<open>upb/message/array.c\<close>: repeated fields, in the memory of the program.
  The structure is three words at \<open>arr\<close>: the data pointer with the logarithm of the element size and the
  frozen flag in its low bits, the size, the capacity.
\<close>

definition UPB_ARRAY_MASK_IMM :: u64 where "UPB_ARRAY_MASK_IMM = 4"
definition UPB_ARRAY_MASK_LG2 :: u64 where "UPB_ARRAY_MASK_LG2 = 3"
definition UPB_ARRAY_MASK_ALL :: u64 where "UPB_ARRAY_MASK_ALL = UPB_ARRAY_MASK_IMM OR UPB_ARRAY_MASK_LG2"

text \<open>The members of \<open>struct upb_Array\<close>.\<close>

definition arr_data :: "u64 \<Rightarrow> u64" where "arr_data arr = arr"
definition arr_size :: "u64 \<Rightarrow> u64" where "arr_size arr = arr + 8"
definition arr_capacity :: "u64 \<Rightarrow> u64" where "arr_capacity arr = arr + 16"

section \<open>The tagged pointer\<close>

definition upb_Array_ShallowFreeze :: "mem \<Rightarrow> u64 \<Rightarrow> (unit, mem) cres" where
  "upb_Array_ShallowFreeze m arr =
     cbind (load64 m (arr_data arr)) (\<lambda>d. store64 m (arr_data arr) (d OR UPB_ARRAY_MASK_IMM))"

definition upb_Array_IsFrozen :: "mem \<Rightarrow> u64 \<Rightarrow> (unit, bool) cres" where
  "upb_Array_IsFrozen m arr =
     cbind (load64 m (arr_data arr)) (\<lambda>d. Ok (d AND UPB_ARRAY_MASK_IMM \<noteq> 0))"

definition upb_Array_SetTaggedPtr :: "mem \<Rightarrow> u64 \<Rightarrow> u64 \<Rightarrow> nat \<Rightarrow> (unit, mem) cres" where
  "upb_Array_SetTaggedPtr m arr data lg2 =
     cassert (lg2 \<noteq> 1 \<and> lg2 \<le> 4)
       (let bits = lg2 - (if lg2 \<noteq> 0 then 1 else 0)
        in store64 m (arr_data arr) (data OR of_nat bits))"

definition upb_Array_ElemSizeLg2 :: "mem \<Rightarrow> u64 \<Rightarrow> (unit, nat) cres" where
  "upb_Array_ElemSizeLg2 m arr =
     cbind (load64 m (arr_data arr)) (\<lambda>d.
       let bits = d AND UPB_ARRAY_MASK_LG2; lg2 = bits + (if bits \<noteq> 0 then 1 else 0)
       in Ok (unat lg2))"

definition upb_Array_DataPtr :: "mem \<Rightarrow> u64 \<Rightarrow> (unit, u64) cres" where
  "upb_Array_DataPtr m arr =
     cbind (upb_Array_ElemSizeLg2 m arr) (\<lambda>_.
     cbind (load64 m (arr_data arr)) (\<lambda>d. Ok (d AND NOT UPB_ARRAY_MASK_ALL)))"

definition upb_Array_MutableDataPtr :: "mem \<Rightarrow> u64 \<Rightarrow> (unit, u64) cres" where
  "upb_Array_MutableDataPtr m arr = upb_Array_DataPtr m arr"

definition upb_Array_Size :: "mem \<Rightarrow> u64 \<Rightarrow> (unit, u64) cres" where
  "upb_Array_Size m arr = load64 m (arr_size arr)"

text \<open>\<open>UPB_ASSERT(!upb_Array_IsFrozen(arr))\<close>.\<close>

definition assert_mutable :: "mem \<Rightarrow> u64 \<Rightarrow> (unit, 'a) cres \<Rightarrow> (unit, 'a) cres" where
  "assert_mutable m arr r = cbind (upb_Array_IsFrozen m arr) (\<lambda>frozen. cassert (\<not> frozen) r)"

section \<open>Creating and growing\<close>

definition upb_Array_New_lg2 :: "'x sys_malloc \<Rightarrow> u64 \<Rightarrow> nat \<Rightarrow> 'x heap \<Rightarrow> (unit, u64 \<times> 'x heap) cres" where
  "upb_Array_New_lg2 f init_capacity lg2 h =
     cassert (lg2 \<noteq> 1 \<and> lg2 \<le> 4)
       (let array_size = UPB_ALIGN_MALLOC 24;
            bytes = array_size + push_bit lg2 init_capacity
        in cbind (upb_Arena_Malloc f bytes h) (\<lambda>(arr, h).
             if arr = 0 then Ok (0, h)
             else
               cbind (upb_Array_SetTaggedPtr (h_mem h) arr (arr + array_size) lg2) (\<lambda>m.
               cbind (store64 m (arr_size arr) 0) (\<lambda>m.
               cbind (store64 m (arr_capacity arr) init_capacity) (\<lambda>m.
               Ok (arr, h\<lparr>h_mem := m\<rparr>))))))"

definition upb_Array_New :: "'x sys_malloc \<Rightarrow> upb_CType \<Rightarrow> 'x heap \<Rightarrow> (unit, u64 \<times> 'x heap) cres" where
  "upb_Array_New f type h = upb_Array_New_lg2 f 4 (upb_CType_SizeLg2 True type) h"

text \<open>The loop that doubles the capacity. \<open>None\<close>: it does not end.\<close>

partial_function (option) double_capacity :: "u64 \<Rightarrow> u64 \<Rightarrow> u64 option" where
  "double_capacity new_capacity min_capacity =
     (if new_capacity < min_capacity then double_capacity (new_capacity * 2) min_capacity
      else Some new_capacity)"

text \<open>A loop without side effects that does not end is undefined behaviour.\<close>

definition upb_Array_Realloc :: "'x sys_malloc \<Rightarrow> u64 \<Rightarrow> u64 \<Rightarrow> 'x heap \<Rightarrow> (unit, bool \<times> 'x heap) cres" where
  "upb_Array_Realloc f arr min_capacity h =
     cbind (load64 (h_mem h) (arr_capacity arr)) (\<lambda>cap.
     cbind (upb_Array_ElemSizeLg2 (h_mem h) arr) (\<lambda>lg2.
     let old_bytes = push_bit lg2 cap in
     cbind (upb_Array_MutableDataPtr (h_mem h) arr) (\<lambda>ptr.
     case double_capacity (max cap 4) min_capacity of
       None \<Rightarrow> UB
     | Some new_capacity \<Rightarrow>
         (let new_bytes = push_bit lg2 new_capacity in
          cbind (upb_Arena_Realloc f ptr old_bytes new_bytes h) (\<lambda>(ptr, h).
            if ptr = 0 then Ok (False, h)
            else
              cbind (upb_Array_SetTaggedPtr (h_mem h) arr ptr lg2) (\<lambda>m.
              cbind (store64 m (arr_capacity arr) new_capacity) (\<lambda>m.
              Ok (True, h\<lparr>h_mem := m\<rparr>))))))))"

definition upb_Array_Reserve :: "'x sys_malloc \<Rightarrow> u64 \<Rightarrow> u64 \<Rightarrow> 'x heap \<Rightarrow> (unit, bool \<times> 'x heap) cres" where
  "upb_Array_Reserve f arr sz h =
     assert_mutable (h_mem h) arr
       (cbind (load64 (h_mem h) (arr_capacity arr)) (\<lambda>cap.
          if cap < sz then upb_Array_Realloc f arr sz h else Ok (True, h)))"

text \<open>The arena is not null.\<close>

definition upb_Array_ResizeUninitialized ::
    "'x sys_malloc \<Rightarrow> u64 \<Rightarrow> u64 \<Rightarrow> 'x heap \<Rightarrow> (unit, bool \<times> 'x heap) cres" where
  "upb_Array_ResizeUninitialized f arr sz h =
     assert_mutable (h_mem h) arr
       (cbind (upb_Array_Reserve f arr sz h) (\<lambda>(ok, h).
          if \<not> ok then Ok (False, h)
          else cbind (store64 (h_mem h) (arr_size arr) sz) (\<lambda>m. Ok (True, h\<lparr>h_mem := m\<rparr>))))"

section \<open>Elements\<close>

text \<open>An element is its bytes; a \<open>upb_MessageValue\<close> is 16 bytes, of which the first are copied.\<close>

definition upb_Array_set_elem :: "mem \<Rightarrow> u64 \<Rightarrow> u64 \<Rightarrow> bytes \<Rightarrow> u64 \<Rightarrow> (unit, mem) cres" where
  "upb_Array_set_elem m arr i data elem_size =
     assert_mutable m arr
       (cbind (load64 m (arr_size arr)) (\<lambda>sz. cassert (i < sz)
       (cbind (upb_Array_ElemSizeLg2 m arr) (\<lambda>lg2. cassert (elem_size = push_bit lg2 1)
       (cbind (upb_Array_MutableDataPtr m arr) (\<lambda>arr_data.
          store m (arr_data + i * elem_size) (take (unat elem_size) data)))))))"

definition upb_Array_Get :: "mem \<Rightarrow> u64 \<Rightarrow> u64 \<Rightarrow> (unit, bytes) cres" where
  "upb_Array_Get m arr i =
     cbind (upb_Array_Size m arr) (\<lambda>sz. cassert (i < sz)
       (cbind (upb_Array_DataPtr m arr) (\<lambda>data.
        cbind (upb_Array_ElemSizeLg2 m arr) (\<lambda>lg2.
          load m (data + push_bit lg2 i) (2 ^ lg2)))))"

definition upb_Array_Set :: "mem \<Rightarrow> u64 \<Rightarrow> u64 \<Rightarrow> bytes \<Rightarrow> (unit, mem) cres" where
  "upb_Array_Set m arr i val =
     assert_mutable m arr
       (cbind (upb_Array_Size m arr) (\<lambda>sz. cassert (i < sz)
       (cbind (upb_Array_MutableDataPtr m arr) (\<lambda>data.
        cbind (upb_Array_ElemSizeLg2 m arr) (\<lambda>lg2.
          store m (data + push_bit lg2 i) (take (2 ^ lg2) val))))))"

definition upb_Array_Append :: "'x sys_malloc \<Rightarrow> u64 \<Rightarrow> bytes \<Rightarrow> 'x heap \<Rightarrow> (unit, bool \<times> 'x heap) cres" where
  "upb_Array_Append f arr val h =
     assert_mutable (h_mem h) arr
       (cbind (load64 (h_mem h) (arr_size arr)) (\<lambda>sz.
        cbind (upb_Array_ResizeUninitialized f arr (sz + 1) h) (\<lambda>(ok, h).
          if \<not> ok then Ok (False, h)
          else
            cbind (load64 (h_mem h) (arr_size arr)) (\<lambda>sz.
            cbind (upb_Array_Set (h_mem h) arr (sz - 1) val) (\<lambda>m. Ok (True, h\<lparr>h_mem := m\<rparr>))))))"

definition upb_Array_Move :: "mem \<Rightarrow> u64 \<Rightarrow> u64 \<Rightarrow> u64 \<Rightarrow> u64 \<Rightarrow> (unit, mem) cres" where
  "upb_Array_Move m arr dst_idx src_idx num =
     assert_mutable m arr
       (cbind (upb_Array_ElemSizeLg2 m arr) (\<lambda>lg2.
        cbind (upb_Array_MutableDataPtr m arr) (\<lambda>data.
        cbind (load m (data + push_bit lg2 src_idx) (unat (push_bit lg2 num))) (\<lambda>bs.
          store m (data + push_bit lg2 dst_idx) bs))))"

definition upb_Array_Insert :: "'x sys_malloc \<Rightarrow> u64 \<Rightarrow> u64 \<Rightarrow> u64 \<Rightarrow> 'x heap \<Rightarrow> (unit, bool \<times> 'x heap) cres" where
  "upb_Array_Insert f arr i num h =
     assert_mutable (h_mem h) arr
       (cbind (load64 (h_mem h) (arr_size arr)) (\<lambda>oldsize.
          cassert (i \<le> oldsize \<and> num + oldsize \<ge> num)
            (cbind (upb_Array_ResizeUninitialized f arr (oldsize + num) h) (\<lambda>(ok, h).
               if \<not> ok then Ok (False, h)
               else cbind (upb_Array_Move (h_mem h) arr (i + num) i (oldsize - i)) (\<lambda>m.
                      Ok (True, h\<lparr>h_mem := m\<rparr>))))))"

definition upb_Array_Delete :: "mem \<Rightarrow> u64 \<Rightarrow> u64 \<Rightarrow> u64 \<Rightarrow> (unit, mem) cres" where
  "upb_Array_Delete m arr i num =
     assert_mutable m arr
       (let last = i + num in cassert (i \<le> last)
         (cbind (load64 m (arr_size arr)) (\<lambda>sz. cassert (last \<le> sz)
           (cbind (upb_Array_Move m arr i last (sz - last)) (\<lambda>m.
            cbind (load64 m (arr_size arr)) (\<lambda>sz. store64 m (arr_size arr) (sz - num)))))))"

definition upb_Array_Resize :: "'x sys_malloc \<Rightarrow> u64 \<Rightarrow> u64 \<Rightarrow> 'x heap \<Rightarrow> (unit, bool \<times> 'x heap) cres" where
  "upb_Array_Resize f arr sz h =
     assert_mutable (h_mem h) arr
       (cbind (load64 (h_mem h) (arr_size arr)) (\<lambda>oldsize.
        cbind (upb_Array_ResizeUninitialized f arr sz h) (\<lambda>(ok, h).
          if \<not> ok then Ok (False, h)
          else
            cbind (load64 (h_mem h) (arr_size arr)) (\<lambda>newsize.
              if newsize > oldsize then
                cbind (upb_Array_ElemSizeLg2 (h_mem h) arr) (\<lambda>lg2.
                cbind (upb_Array_MutableDataPtr (h_mem h) arr) (\<lambda>data.
                cbind (store (h_mem h) (data + push_bit lg2 oldsize)
                         (replicate (unat (push_bit lg2 (newsize - oldsize))) 0)) (\<lambda>m.
                Ok (True, h\<lparr>h_mem := m\<rparr>))))
              else Ok (True, h)))))"

section \<open>Parts of memory\<close>

lemma load_split:
  "load m p (a + b) = Ok (xs @ ys) \<longleftrightarrow> load m p a = Ok xs \<and> load m (p + of_nat a) b = Ok ys"
  if "length xs = a" "length ys = b"
proof -
  have 1: "all_mapped m p (a + b) \<longleftrightarrow> all_mapped m p a \<and> all_mapped m (p + of_nat a) b"
  proof -
    have "(\<forall>i < a + b. m (p + of_nat i) \<noteq> None) \<longleftrightarrow>
        (\<forall>i < a. m (p + of_nat i) \<noteq> None) \<and> (\<forall>i < b. m (p + of_nat (a + i)) \<noteq> None)"
    proof (intro iffI allI impI conjI)
      fix i
      assume h: "\<forall>i < a + b. m (p + of_nat i) \<noteq> None" and "i < b"
      then show "m (p + of_nat (a + i)) \<noteq> None" using h [rule_format, of "a + i"] by simp
    next
      fix i
      assume h: "(\<forall>i < a. m (p + of_nat i) \<noteq> None) \<and> (\<forall>i < b. m (p + of_nat (a + i)) \<noteq> None)" and i: "i < a + b"
      show "m (p + of_nat i) \<noteq> None"
      proof (cases "i < a")
        case False
        then have "i - a < b" "a + (i - a) = i" using i by simp_all
        then show ?thesis using conjunct2 [OF h, rule_format, of "i - a"] by simp
      qed (use h in blast)
    qed simp_all
    then show ?thesis by (simp only: all_mapped_iff of_nat_add add.assoc)
  qed
  have "[0..<a + b] = [0..<a] @ map (\<lambda>i. i + a) [0..<b]"
    using upt_add_eq_append [of 0 a b] map_add_upt [of a b] by (simp add: add.commute [of b a])
  then have "map (\<lambda>i. the (m (p + of_nat i))) [0..<a + b] =
      map (\<lambda>i. the (m (p + of_nat i))) [0..<a] @ map (\<lambda>i. the (m (p + of_nat a + of_nat i))) [0..<b]"
    by (simp add: comp_def algebra_simps)
  then show ?thesis unfolding load_def cassert_def 1 using that by auto
qed

lemma load_take_drop:
  assumes "load m p n = Ok bs" "i + k \<le> n"
  shows "load m (p + of_nat i) k = Ok (take k (drop i bs))"
proof -
  have len: "length bs = n" using load_length [OF assms(1)] .
  have "load m p (i + (n - i)) = Ok (take i bs @ drop i bs)" using assms by simp
  then have "load m (p + of_nat i) (n - i) = Ok (drop i bs)"
    using len assms(2) by (subst (asm) load_split) simp_all
  then have "load m (p + of_nat i) (k + (n - i - k)) = Ok (take k (drop i bs) @ drop k (drop i bs))"
    using assms(2) by (simp only: append_take_drop_id) simp
  then show ?thesis using len assms(2) by (subst (asm) load_split) simp_all
qed

text \<open>Writing into the middle of a block whose bytes are known.\<close>

lemma store_middle:
  assumes l: "load m p n = Ok bs" and i: "i + length cs \<le> n" and n: "n < 2 ^ 64"
  obtains m' where "store m (p + of_nat i) cs = Ok m'"
    "load m' p n = Ok (take i bs @ cs @ drop (i + length cs) bs)"
    "\<And>a. a \<notin> range_of (p + of_nat i) (length cs) \<Longrightarrow> m' a = m a"
proof -
  have len: "length bs = n" using load_length [OF l] .
  have "load m (p + of_nat i) (length cs) = Ok (take (length cs) (drop i bs))" by (rule load_take_drop [OF l i])
  then have mp: "mapped m (p + of_nat i) (length cs)" using i n by (simp add: load_Ok_iff)
  obtain m' where st: "store m (p + of_nat i) cs = Ok m'" using store_exists [OF mp] i n by auto
  have eq: "\<And>a. a \<notin> range_of (p + of_nat i) (length cs) \<Longrightarrow> m' a = m a"
    using st i n by (subst (asm) store_Ok_iff) auto
  have mid: "load m' (p + of_nat i) (length cs) = Ok cs" using load_store_same [OF st] i n by simp
  have left: "load m' p i = Ok (take i bs)"
  proof -
    have "load m (p + of_nat 0) i = Ok (take i (drop 0 bs))" using i by (intro load_take_drop [OF l]) simp
    moreover have "range_of (p + of_nat 0) i \<inter> range_of (p + of_nat i) (length cs) = {}"
      using i n by (intro ranges_apart) auto
    ultimately show ?thesis using load_store_other [OF st, of p i] i n by simp
  qed
  have right: "load m' (p + of_nat (i + length cs)) (n - (i + length cs)) = Ok (drop (i + length cs) bs)"
  proof -
    have "load m (p + of_nat (i + length cs)) (n - (i + length cs)) =
        Ok (take (n - (i + length cs)) (drop (i + length cs) bs))"
      using i by (intro load_take_drop [OF l]) simp
    moreover have "range_of (p + of_nat (i + length cs)) (n - (i + length cs)) \<inter> range_of (p + of_nat i) (length cs) = {}"
      using i n by (intro ranges_apart) auto
    ultimately show ?thesis using load_store_other [OF st] i n len by simp
  qed
  have "load m' (p + of_nat i) (length cs + (n - (i + length cs))) = Ok (cs @ drop (i + length cs) bs)"
    using mid right len i by (subst load_split) (simp_all add: add.assoc)
  then have "load m' p (i + (length cs + (n - (i + length cs)))) = Ok (take i bs @ cs @ drop (i + length cs) bs)"
    using left len i by (subst load_split) simp_all
  then show thesis using that [OF st _ eq] i by simp
qed

end
