(* ===== verification/Base92.thy ===== *)
theory Base92
  imports Descriptor
begin

text \<open>
  \<open>upb/mini_descriptor/internal/base92.c\<close> and \<open>base92.h\<close>: the base 92 alphabet of mini
  descriptors and the decoder of its variable-length numbers. \<open>char\<close> is signed, as on the
  x86 builds; a byte is compared through \<open>sint\<close> where the C code compares \<open>char\<close>s.
\<close>

definition kUpb_ToBase92 :: bytes where
  "kUpb_ToBase92 = map of_char
     '' !#$%&()*+,-./0123456789:;<=>?@ABCDEFGHIJKLMNOPQRSTUVWXYZ[]^_`abcdefghijklmnopqrstuvwxyz{|}~''"

definition kUpb_FromBase92 :: "int list" where
  "kUpb_FromBase92 =
     [0,  1,  -1, 2,  3,  4,  5,  -1, 6,  7,  8,  9,  10, 11, 12, 13, 14, 15, 16,
      17, 18, 19, 20, 21, 22, 23, 24, 25, 26, 27, 28, 29, 30, 31, 32, 33, 34, 35,
      36, 37, 38, 39, 40, 41, 42, 43, 44, 45, 46, 47, 48, 49, 50, 51, 52, 53, 54,
      55, 56, 57, -1, 58, 59, 60, 61, 62, 63, 64, 65, 66, 67, 68, 69, 70, 71, 72,
      73, 74, 75, 76, 77, 78, 79, 80, 81, 82, 83, 84, 85, 86, 87, 88, 89, 90, 91]"

definition upb_ToBase92 :: "int \<Rightarrow> (unit, u8) cres" where
  "upb_ToBase92 ch = cassert (0 \<le> ch \<and> ch < 92) (Ok (kUpb_ToBase92 ! nat ch))"

definition upb_FromBase92 :: "u8 \<Rightarrow> int" where
  "upb_FromBase92 ch =
     (if 0x20 > ch \<or> ch > 0x7E then -1 else kUpb_FromBase92 ! (unat ch - 0x20))"

text \<open>The loop of \<open>_upb_Base92_DecodeVarint\<close>. The input from \<open>ptr\<close> to \<open>end\<close> is a list;
  \<open>None\<close> is the \<open>NULL\<close> of an overlong number.\<close>

fun decode_varint_loop ::
    "nat \<Rightarrow> u8 \<Rightarrow> u8 \<Rightarrow> nat \<Rightarrow> u32 \<Rightarrow> u8 \<Rightarrow> bytes \<Rightarrow> (bytes \<times> u32) option" where
  "decode_varint_loop bits_per_char min_ch max_ch shift val ch rest =
     (let bits = word_of_int (upb_FromBase92 ch - upb_FromBase92 min_ch) :: u32;
          val' = val OR push_bit shift bits
      in case rest of
           [] \<Rightarrow> Some (rest, val')
         | c # cs \<Rightarrow>
             if sint c < uint min_ch \<or> uint max_ch < sint c then Some (rest, val')
             else if shift + bits_per_char \<ge> 32 then None
             else decode_varint_loop bits_per_char min_ch max_ch (shift + bits_per_char) val' c cs)"

declare decode_varint_loop.simps [simp del]

definition upb_Base92_DecodeVarint ::
    "u8 \<Rightarrow> u8 \<Rightarrow> u8 \<Rightarrow> bytes \<Rightarrow> (bytes \<times> u32) option" where
  "upb_Base92_DecodeVarint first_ch min_ch max_ch rest =
     decode_varint_loop (upb_Log2Ceiling (upb_FromBase92 max_ch - upb_FromBase92 min_ch))
       min_ch max_ch 0 0 first_ch rest"

section \<open>The alphabet\<close>

lemma length_kUpb_ToBase92 [simp]: "length kUpb_ToBase92 = 92"
  by (simp add: kUpb_ToBase92_def)

lemma kUpb_ToBase92_codes:
  "kUpb_ToBase92 = [
     32, 33, 35, 36, 37, 38, 40, 41, 42, 43, 44, 45, 46, 47, 48, 49, 50, 51, 52, 53, 54,
     55, 56, 57, 58, 59, 60, 61, 62, 63, 64, 65, 66, 67, 68, 69, 70, 71, 72, 73, 74, 75,
     76, 77, 78, 79, 80, 81, 82, 83, 84, 85, 86, 87, 88, 89, 90, 91, 93, 94, 95, 96, 97,
     98, 99, 100, 101, 102, 103, 104, 105, 106, 107, 108, 109, 110, 111, 112, 113, 114,
     115, 116, 117, 118, 119, 120, 121, 122, 123, 124, 125, 126]"
  by (simp add: kUpb_ToBase92_def)

lemma range_0_92: "map int [0..<92] = [
     0, 1, 2, 3, 4, 5, 6, 7, 8, 9, 10, 11, 12, 13, 14, 15, 16, 17, 18, 19, 20, 21, 22, 23,
     24, 25, 26, 27, 28, 29, 30, 31, 32, 33, 34, 35, 36, 37, 38, 39, 40, 41, 42, 43, 44,
     45, 46, 47, 48, 49, 50, 51, 52, 53, 54, 55, 56, 57, 58, 59, 60, 61, 62, 63, 64, 65,
     66, 67, 68, 69, 70, 71, 72, 73, 74, 75, 76, 77, 78, 79, 80, 81, 82, 83, 84, 85, 86,
     87, 88, 89, 90, 91]"
  by code_simp

lemma base92_table: "map upb_FromBase92 kUpb_ToBase92 = map int [0..<92]"
  unfolding kUpb_ToBase92_codes range_0_92
  by (simp add: upb_FromBase92_def kUpb_FromBase92_def)

lemma base92_range: "list_all (\<lambda>c. 0x20 \<le> c \<and> c \<le> 0x7E) kUpb_ToBase92"
  by (simp add: kUpb_ToBase92_codes)

lemma upb_FromBase92_ToBase92:
  assumes "i < 92"
  shows "upb_FromBase92 (kUpb_ToBase92 ! i) = int i"
    and "0x20 \<le> kUpb_ToBase92 ! i" and "kUpb_ToBase92 ! i \<le> 0x7E"
  using assms arg_cong [OF base92_table, of "\<lambda>xs. xs ! i"] base92_range
  by (simp_all add: list_all_length)

lemma sorted_kUpb_ToBase92: "sorted_wrt (<) kUpb_ToBase92"
  unfolding kUpb_ToBase92_codes by (simp add: sorted_wrt1 sorted_wrt2 transp_on_less del: sorted_wrt.simps)

lemma kUpb_ToBase92_strict_mono: "i < j \<Longrightarrow> j < 92 \<Longrightarrow> kUpb_ToBase92 ! i < kUpb_ToBase92 ! j"
  using sorted_kUpb_ToBase92 by (simp add: sorted_wrt_iff_nth_less)

lemma kUpb_ToBase92_mono: "i \<le> j \<Longrightarrow> j < 92 \<Longrightarrow> kUpb_ToBase92 ! i \<le> kUpb_ToBase92 ! j"
  using kUpb_ToBase92_strict_mono [of i j] by (cases "i = j") (auto intro: less_imp_le)

lemma sint_kUpb_ToBase92: "i < 92 \<Longrightarrow> sint (kUpb_ToBase92 ! i) = uint (kUpb_ToBase92 ! i)"
proof -
  assume "i < 92"
  then have "kUpb_ToBase92 ! i \<le> 0x7E" by (rule upb_FromBase92_ToBase92)
  then have "uint (kUpb_ToBase92 ! i) \<le> 0x7E" by (simp add: word_le_def)
  then show ?thesis
    by (simp only: sint_uint) (rule signed_take_bit_int_eq_self, simp_all add: order_trans [OF _ uint_ge_0])
qed

end
