(* ===== verification/MdEncode.thy ===== *)
theory MdEncode
  imports Base92
begin

text \<open>
  \<open>upb/mini_descriptor/internal/encode.c\<close>: the writer of mini descriptors. The buffer behind
  \<open>ptr\<close> is the list of bytes written so far, \<open>ptr\<close> its length and \<open>end\<close> a bound on it. The
  operations return \<open>Fail ()\<close> where the C code returns \<open>NULL\<close> (the buffer is full, or a field
  number that does not grow) and \<open>UB\<close> where an assertion fails.
\<close>

section \<open>State\<close>

definition kUpb_MtDataEncoder_MinSize :: int where
  "kUpb_MtDataEncoder_MinSize = 16"

record upb_MtDataEncoderInternal_EnumState =
  present_values_mask :: u64
  last_written_value :: u32

datatype oneof_state = NotStarted | StartedOneof | EmittedOneofField

record upb_MtDataEncoderInternal_MsgState =
  msg_modifiers :: u64
  last_field_num :: u32
  msg_oneof_state :: oneof_state

text \<open>The \<open>state\<close> union, tagged with the member last written; reading the other member is
  outside the API contract.\<close>

datatype enc_state =
    EnumState upb_MtDataEncoderInternal_EnumState
  | MsgState upb_MtDataEncoderInternal_MsgState
  | Uninitialized

record upb_MtDataEncoder =
  enc_out :: bytes
  enc_end :: nat
  buf_start :: nat
  enc_state :: enc_state

type_synonym enc_res = "(unit, upb_MtDataEncoder) cres"

primrec get_enum_state :: "enc_state \<Rightarrow> (unit, upb_MtDataEncoderInternal_EnumState) cres" where
  "get_enum_state (EnumState s) = Ok s"
| "get_enum_state (MsgState s) = UB"
| "get_enum_state Uninitialized = UB"

primrec get_msg_state :: "enc_state \<Rightarrow> (unit, upb_MtDataEncoderInternal_MsgState) cres" where
  "get_msg_state (EnumState s) = UB"
| "get_msg_state (MsgState s) = Ok s"
| "get_msg_state Uninitialized = UB"

definition upb_MtDataEncoder_GetInternal :: "upb_MtDataEncoder \<Rightarrow> upb_MtDataEncoder" where
  "upb_MtDataEncoder_GetInternal e = e\<lparr>buf_start := length (enc_out e)\<rparr>"

section \<open>Characters and numbers\<close>

definition upb_MtDataEncoder_PutRaw :: "upb_MtDataEncoder \<Rightarrow> u8 \<Rightarrow> enc_res" where
  "upb_MtDataEncoder_PutRaw e ch =
     cassert (int (length (enc_out e)) - int (buf_start e) < kUpb_MtDataEncoder_MinSize)
       (if length (enc_out e) = enc_end e then Fail ()
        else Ok (e\<lparr>enc_out := enc_out e @ [ch]\<rparr>))"

definition upb_MtDataEncoder_Put :: "upb_MtDataEncoder \<Rightarrow> int \<Rightarrow> enc_res" where
  "upb_MtDataEncoder_Put e ch =
     cbind (upb_ToBase92 ch) (\<lambda>c. upb_MtDataEncoder_PutRaw e c)"

lemma PutRaw_Ok_iff [cres_simps]:
  "upb_MtDataEncoder_PutRaw e ch = Ok e' \<longleftrightarrow>
     length (enc_out e) < buf_start e + 16 \<and> length (enc_out e) \<noteq> enc_end e \<and>
     e' = e\<lparr>enc_out := enc_out e @ [ch]\<rparr>"
  by (auto simp: upb_MtDataEncoder_PutRaw_def cassert_def kUpb_MtDataEncoder_MinSize_def)

lemma Put_Ok_iff [cres_simps]:
  "upb_MtDataEncoder_Put e ch = Ok e' \<longleftrightarrow>
     0 \<le> ch \<and> ch < 92 \<and> upb_MtDataEncoder_PutRaw e (kUpb_ToBase92 ! nat ch) = Ok e'"
  by (auto simp: upb_MtDataEncoder_Put_def upb_ToBase92_def cassert_def)

text \<open>The do-while loop of \<open>upb_MtDataEncoder_PutBase92Varint\<close>. Every round writes one byte and
  the \<open>MinSize\<close> assertion stops a loop that would write 16.\<close>

function put_varint_loop :: "upb_MtDataEncoder \<Rightarrow> nat \<Rightarrow> u32 \<Rightarrow> u32 \<Rightarrow> u8 \<Rightarrow> enc_res" where
  "put_varint_loop e shift msk val min_ch =
     (let bits = val AND msk in
      case upb_MtDataEncoder_Put e (uint bits + upb_FromBase92 min_ch) of
        UB \<Rightarrow> UB
      | Fail x \<Rightarrow> Fail x
      | Ok e' \<Rightarrow>
          let val' = drop_bit shift val in
          if val' = 0 then Ok e' else put_varint_loop e' shift msk val' min_ch)"
  by pat_completeness auto
termination
  by (relation "measure (\<lambda>(e, _). buf_start e + 16 - length (enc_out e))")
    (auto simp: cres_simps)

declare put_varint_loop.simps [simp del]

definition upb_MtDataEncoder_PutBase92Varint ::
    "upb_MtDataEncoder \<Rightarrow> u32 \<Rightarrow> u8 \<Rightarrow> u8 \<Rightarrow> enc_res" where
  "upb_MtDataEncoder_PutBase92Varint e val min_ch max_ch =
     (let shift = upb_Log2Ceiling (upb_FromBase92 max_ch - upb_FromBase92 min_ch + 1)
      in cassert (shift \<le> 6)
           (put_varint_loop e shift (push_bit shift 1 - 1) val min_ch))"

definition upb_MtDataEncoder_PutModifier :: "upb_MtDataEncoder \<Rightarrow> u64 \<Rightarrow> enc_res" where
  "upb_MtDataEncoder_PutModifier e m =
     (if m \<noteq> 0
      then upb_MtDataEncoder_PutBase92Varint e (ucast m)
             kUpb_EncodedValue_MinModifier kUpb_EncodedValue_MaxModifier
      else Ok e)"

section \<open>Messages, fields and oneofs\<close>

definition init_msg_state :: "u64 \<Rightarrow> enc_state" where
  "init_msg_state m = MsgState \<lparr>msg_modifiers = m, last_field_num = 0, msg_oneof_state = NotStarted\<rparr>"

definition upb_MtDataEncoder_MaybePutFieldSkip :: "upb_MtDataEncoder \<Rightarrow> u32 \<Rightarrow> enc_res" where
  "upb_MtDataEncoder_MaybePutFieldSkip e field_num =
     cbind (get_msg_state (enc_state e)) (\<lambda>s.
       if field_num \<le> last_field_num s then Fail ()
       else
         cbind
           (if last_field_num s + 1 \<noteq> field_num
            then upb_MtDataEncoder_PutBase92Varint e (field_num - last_field_num s)
                   kUpb_EncodedValue_MinSkip kUpb_EncodedValue_MaxSkip
            else Ok e)
           (\<lambda>e'. Ok (e'\<lparr>enc_state := MsgState (s\<lparr>last_field_num := field_num\<rparr>)\<rparr>)))"

fun kUpb_TypeToEncoded :: "upb_FieldType \<Rightarrow> nat" where
  "kUpb_TypeToEncoded FT_Double = 0"
| "kUpb_TypeToEncoded FT_Float = 1"
| "kUpb_TypeToEncoded FT_Int64 = 9"
| "kUpb_TypeToEncoded FT_UInt64 = 10"
| "kUpb_TypeToEncoded FT_Int32 = 6"
| "kUpb_TypeToEncoded FT_Fixed64 = 3"
| "kUpb_TypeToEncoded FT_Fixed32 = 2"
| "kUpb_TypeToEncoded FT_Bool = 13"
| "kUpb_TypeToEncoded FT_String = 15"
| "kUpb_TypeToEncoded FT_Group = 16"
| "kUpb_TypeToEncoded FT_Message = 17"
| "kUpb_TypeToEncoded FT_Bytes = 14"
| "kUpb_TypeToEncoded FT_UInt32 = 7"
| "kUpb_TypeToEncoded FT_Enum = 12"
| "kUpb_TypeToEncoded FT_SFixed32 = 4"
| "kUpb_TypeToEncoded FT_SFixed64 = 5"
| "kUpb_TypeToEncoded FT_SInt32 = 8"
| "kUpb_TypeToEncoded FT_SInt64 = 11"

definition encoded_type :: "upb_FieldType \<Rightarrow> u64 \<Rightarrow> nat" where
  "encoded_type type field_mod =
     (let t = (if field_mod AND kUpb_FieldModifier_IsClosedEnum \<noteq> 0
               then kUpb_EncodedType_ClosedEnum else kUpb_TypeToEncoded type)
      in if field_mod AND kUpb_FieldModifier_IsRepeated \<noteq> 0
         then t + kUpb_EncodedType_RepeatedBase else t)"

definition upb_MtDataEncoder_PutFieldType ::
    "upb_MtDataEncoder \<Rightarrow> upb_FieldType \<Rightarrow> u64 \<Rightarrow> enc_res" where
  "upb_MtDataEncoder_PutFieldType e type field_mod =
     cassert (field_mod AND kUpb_FieldModifier_IsClosedEnum \<noteq> 0 \<longrightarrow> type = FT_Enum)
       (upb_MtDataEncoder_Put e (int (encoded_type type field_mod)))"

definition flip_packed :: "upb_FieldType \<Rightarrow> u64 \<Rightarrow> u64 \<Rightarrow> u32" where
  "flip_packed type field_mod msg_mod =
     (if field_mod AND kUpb_FieldModifier_IsRepeated \<noteq> 0 \<and> upb_FieldType_IsPackable type
      then (let field_is_packed = (field_mod AND kUpb_FieldModifier_IsPacked \<noteq> 0);
                default_is_packed = (msg_mod AND kUpb_MessageModifier_DefaultIsPacked \<noteq> 0)
            in if field_is_packed \<noteq> default_is_packed
               then kUpb_EncodedFieldModifier_FlipPacked else 0)
      else 0)"

text \<open>The \<open>assert\<close> on the message validating UTF-8 is the \<open>UB\<close> branch.\<close>

definition flip_utf8 :: "upb_FieldType \<Rightarrow> u64 \<Rightarrow> u64 \<Rightarrow> (unit, u32) cres" where
  "flip_utf8 type field_mod msg_mod =
     (if type = FT_String
      then (let field_validates_utf8 = (field_mod AND kUpb_FieldModifier_ValidateUtf8 \<noteq> 0);
                message_validates_utf8 = (msg_mod AND kUpb_MessageModifier_ValidateUtf8 \<noteq> 0)
            in if field_validates_utf8 \<noteq> message_validates_utf8
               then cassert (\<not> message_validates_utf8)
                      (Ok kUpb_EncodedFieldModifier_FlipValidateUtf8)
               else Ok 0)
      else Ok 0)"

definition upb_MtDataEncoder_MaybePutModifiers ::
    "upb_MtDataEncoder \<Rightarrow> upb_FieldType \<Rightarrow> u64 \<Rightarrow> enc_res" where
  "upb_MtDataEncoder_MaybePutModifiers e type field_mod =
     cbind (get_msg_state (enc_state e)) (\<lambda>s.
       cbind (flip_utf8 type field_mod (msg_modifiers s)) (\<lambda>utf8.
         let singular = (if field_mod AND kUpb_FieldModifier_IsProto3Singular \<noteq> 0
                         then kUpb_EncodedFieldModifier_IsProto3Singular else 0);
             required = (if field_mod AND kUpb_FieldModifier_IsRequired \<noteq> 0
                         then kUpb_EncodedFieldModifier_IsRequired else 0)
         in upb_MtDataEncoder_PutModifier e
              (ucast (flip_packed type field_mod (msg_modifiers s) OR utf8 OR singular OR required))))"

definition upb_MtDataEncoder_PutField ::
    "upb_MtDataEncoder \<Rightarrow> upb_FieldType \<Rightarrow> u32 \<Rightarrow> u64 \<Rightarrow> enc_res" where
  "upb_MtDataEncoder_PutField e type field_num field_mod =
     cbind (upb_MtDataEncoder_MaybePutFieldSkip (upb_MtDataEncoder_GetInternal e) field_num) (\<lambda>e1.
     cbind (upb_MtDataEncoder_PutFieldType e1 type field_mod) (\<lambda>e2.
       upb_MtDataEncoder_MaybePutModifiers e2 type field_mod))"

definition upb_MtDataEncoder_EncodeExtension ::
    "upb_MtDataEncoder \<Rightarrow> upb_FieldType \<Rightarrow> u32 \<Rightarrow> u64 \<Rightarrow> enc_res" where
  "upb_MtDataEncoder_EncodeExtension e type field_num field_mod =
     cbind (upb_MtDataEncoder_PutRaw
              ((upb_MtDataEncoder_GetInternal e)\<lparr>enc_state := init_msg_state 0\<rparr>)
              kUpb_EncodedVersion_ExtensionV1)
       (\<lambda>e'. upb_MtDataEncoder_PutField e' type field_num field_mod)"

definition upb_MtDataEncoder_EncodeMap ::
    "upb_MtDataEncoder \<Rightarrow> upb_FieldType \<Rightarrow> upb_FieldType \<Rightarrow> u64 \<Rightarrow> u64 \<Rightarrow> enc_res" where
  "upb_MtDataEncoder_EncodeMap e key_type value_type key_mod value_mod =
     cbind (upb_MtDataEncoder_PutRaw
              ((upb_MtDataEncoder_GetInternal e)\<lparr>enc_state := init_msg_state 0\<rparr>)
              kUpb_EncodedVersion_MapV1) (\<lambda>e1.
     cbind (upb_MtDataEncoder_PutField e1 key_type 1 key_mod) (\<lambda>e2.
       upb_MtDataEncoder_PutField e2 value_type 2 value_mod))"

definition upb_MtDataEncoder_EncodeMessageSet :: "upb_MtDataEncoder \<Rightarrow> enc_res" where
  "upb_MtDataEncoder_EncodeMessageSet e =
     upb_MtDataEncoder_PutRaw (upb_MtDataEncoder_GetInternal e) kUpb_EncodedVersion_MessageSetV1"

definition upb_MtDataEncoder_StartMessage :: "upb_MtDataEncoder \<Rightarrow> u64 \<Rightarrow> enc_res" where
  "upb_MtDataEncoder_StartMessage e msg_mod =
     cbind (upb_MtDataEncoder_PutRaw
              ((upb_MtDataEncoder_GetInternal e)\<lparr>enc_state := init_msg_state msg_mod\<rparr>)
              kUpb_EncodedVersion_MessageV1)
       (\<lambda>e'. upb_MtDataEncoder_PutModifier e' msg_mod)"

text \<open>\<open>StartOneof\<close> does not test the pointer before it records the state; the \<open>NULL\<close> it then
  returns is the \<open>Fail\<close> here.\<close>

definition upb_MtDataEncoder_StartOneof :: "upb_MtDataEncoder \<Rightarrow> enc_res" where
  "upb_MtDataEncoder_StartOneof e =
     cbind (get_msg_state (enc_state e)) (\<lambda>s.
     cbind (upb_MtDataEncoder_Put (upb_MtDataEncoder_GetInternal e)
              (upb_FromBase92 (if msg_oneof_state s = NotStarted then kUpb_EncodedValue_End
                               else kUpb_EncodedValue_OneofSeparator)))
       (\<lambda>e'. Ok (e'\<lparr>enc_state := MsgState (s\<lparr>msg_oneof_state := StartedOneof\<rparr>)\<rparr>)))"

definition upb_MtDataEncoder_PutOneofField :: "upb_MtDataEncoder \<Rightarrow> u32 \<Rightarrow> enc_res" where
  "upb_MtDataEncoder_PutOneofField e field_num =
     cbind (get_msg_state (enc_state e)) (\<lambda>s.
     cbind (if msg_oneof_state s = EmittedOneofField
            then upb_MtDataEncoder_Put (upb_MtDataEncoder_GetInternal e)
                   (upb_FromBase92 kUpb_EncodedValue_FieldSeparator)
            else Ok (upb_MtDataEncoder_GetInternal e)) (\<lambda>e1.
     cbind (upb_MtDataEncoder_PutBase92Varint e1 field_num
              (kUpb_ToBase92 ! 0) (kUpb_ToBase92 ! 63))
       (\<lambda>e2. Ok (e2\<lparr>enc_state := MsgState (s\<lparr>msg_oneof_state := EmittedOneofField\<rparr>)\<rparr>))))"

section \<open>Enums\<close>

definition upb_MtDataEncoder_StartEnum :: "upb_MtDataEncoder \<Rightarrow> enc_res" where
  "upb_MtDataEncoder_StartEnum e =
     upb_MtDataEncoder_PutRaw
       ((upb_MtDataEncoder_GetInternal e)
          \<lparr>enc_state := EnumState \<lparr>present_values_mask = 0, last_written_value = 0\<rparr>\<rparr>)
       kUpb_EncodedVersion_EnumV1"

text \<open>The mask is passed as a \<open>char\<close>: its low byte, read as signed.\<close>

definition upb_MtDataEncoder_FlushDenseEnumMask :: "upb_MtDataEncoder \<Rightarrow> enc_res" where
  "upb_MtDataEncoder_FlushDenseEnumMask e =
     cbind (get_enum_state (enc_state e)) (\<lambda>s.
     cbind (upb_MtDataEncoder_Put e (sint (ucast (present_values_mask s) :: u8)))
       (\<lambda>e'. Ok (e'\<lparr>enc_state := EnumState
          \<lparr>present_values_mask = 0, last_written_value = last_written_value s + 5\<rparr>\<rparr>)))"

definition upb_MtDataEncoder_PutEnumValue :: "upb_MtDataEncoder \<Rightarrow> u32 \<Rightarrow> enc_res" where
  "upb_MtDataEncoder_PutEnumValue e0 val =
     (let e = upb_MtDataEncoder_GetInternal e0 in
      cbind (get_enum_state (enc_state e)) (\<lambda>s.
      cassert (last_written_value s \<le> val)
        (let delta = val - last_written_value s in
         cbind
           (if 5 \<le> delta \<and> present_values_mask s \<noteq> 0
            then cbind (upb_MtDataEncoder_FlushDenseEnumMask e) (\<lambda>e1. Ok (e1, delta - 5))
            else Ok (e, delta)) (\<lambda>(e1, delta1).
         cbind
           (if 5 \<le> delta1
            then cbind (upb_MtDataEncoder_PutBase92Varint e1 delta1
                          kUpb_EncodedValue_MinSkip kUpb_EncodedValue_MaxSkip) (\<lambda>e2.
                 cbind (get_enum_state (enc_state e2)) (\<lambda>s2.
                   Ok (e2\<lparr>enc_state := EnumState
                       (s2\<lparr>last_written_value := last_written_value s2 + delta1\<rparr>)\<rparr>, 0)))
            else Ok (e1, delta1)) (\<lambda>(e2, delta2).
         cbind (get_enum_state (enc_state e2)) (\<lambda>s2.
         cassert (drop_bit (unat delta2) (present_values_mask s2) = 0)
           (Ok (e2\<lparr>enc_state := EnumState
              (s2\<lparr>present_values_mask := present_values_mask s2 OR push_bit (unat delta2) 1\<rparr>)\<rparr>))))))))"

definition upb_MtDataEncoder_EndEnum :: "upb_MtDataEncoder \<Rightarrow> enc_res" where
  "upb_MtDataEncoder_EndEnum e0 =
     (let e = upb_MtDataEncoder_GetInternal e0 in
      cbind (get_enum_state (enc_state e)) (\<lambda>s.
        if present_values_mask s = 0 then Ok e else upb_MtDataEncoder_FlushDenseEnumMask e))"

end
