(* ===== verification/MdVarint.thy ===== *)
theory MdVarint
  imports MdEncode
begin

text \<open>
  The variable-length numbers of mini descriptors: what \<open>upb_MtDataEncoder_PutBase92Varint\<close>
  writes, \<open>_upb_Base92_DecodeVarint\<close> reads back.
\<close>

section \<open>The digits of a number\<close>

text \<open>The characters of \<open>n\<close>, least significant digit first, for the range of \<open>2 ^ sh\<close>
  characters that starts at index \<open>a\<close> of the alphabet.\<close>

function varint_chars :: "nat \<Rightarrow> nat \<Rightarrow> nat \<Rightarrow> bytes" where
  "varint_chars a sh n = kUpb_ToBase92 ! (a + n mod 2 ^ sh) #
     (if sh = 0 \<or> n div 2 ^ sh = 0 then [] else varint_chars a sh (n div 2 ^ sh))"
  by pat_completeness auto
termination
proof (relation "measure (\<lambda>(_, _, n). n)", goal_cases)
  case (2 a sh n)
  then have "n \<noteq> 0" by (intro notI) simp
  moreover have "1 < (2::nat) ^ sh" using 2 by (intro one_less_power) auto
  ultimately show ?case by simp
qed simp

declare varint_chars.simps [simp del]

lemma varint_chars_not_Nil [simp]: "varint_chars a sh n \<noteq> []"
  by (subst varint_chars.simps) simp

lemma length_varint_chars:
  "0 < sh \<Longrightarrow> n < 2 ^ (sh * k) \<Longrightarrow> 0 < k \<Longrightarrow> length (varint_chars a sh n) \<le> k"
proof (induction k arbitrary: n)
  case (Suc k)
  show ?case
  proof (cases "n div 2 ^ sh = 0")
    case True
    then show ?thesis by (subst varint_chars.simps) simp
  next
    case False
    have "n div 2 ^ sh < 2 ^ (sh * k)"
      using Suc.prems(2) by (simp add: less_mult_imp_div_less power_add mult.commute)
    moreover from False this have "0 < k" by (cases k) auto
    ultimately show ?thesis
      using Suc.IH [of "n div 2 ^ sh"] Suc.prems(1) False
      by (subst varint_chars.simps) simp
  qed
qed simp

lemma set_varint_chars:
  "a + 2 ^ sh \<le> 92 \<Longrightarrow> set (varint_chars a sh n) \<subseteq> {kUpb_ToBase92 ! i |i. a \<le> i \<and> i < a + 2 ^ sh}"
proof (induction a sh n rule: varint_chars.induct)
  case (1 a sh n)
  have "kUpb_ToBase92 ! (a + n mod 2 ^ sh) \<in> {kUpb_ToBase92 ! i |i. a \<le> i \<and> i < a + 2 ^ sh}"
    by (auto intro!: exI [of _ "a + n mod 2 ^ sh"])
  with 1 show ?case
    by (subst varint_chars.simps) auto
qed

section \<open>The writer\<close>

lemma uint_and_mask_shift: "sh < 32 \<Longrightarrow> uint ((val::u32) AND (push_bit sh 1 - 1)) = int (unat val mod 2 ^ sh)"
proof -
  assume sh: "sh < 32"
  have "unat (val AND (push_bit sh 1 - 1)) = unat (take_bit sh val)"
    by (simp add: push_bit_eq_mult mask_eq_exp_minus_1 [symmetric] take_bit_eq_mask [symmetric])
  also have "\<dots> = unat val mod 2 ^ sh"
    by (rule unat_take_bit_mod)
  finally show ?thesis by (metis int_nat_eq uint_nat)
qed

lemma put_varint_loop_eq:
  assumes "0 < sh" "sh < 32" "a + 2 ^ sh \<le> 92"
    and "length (enc_out e) + length (varint_chars a sh (unat val)) \<le> buf_start e + 16"
    and "length (enc_out e) + length (varint_chars a sh (unat val)) \<le> enc_end e"
  shows "put_varint_loop e sh (push_bit sh 1 - 1) val (kUpb_ToBase92 ! a) =
    Ok (e\<lparr>enc_out := enc_out e @ varint_chars a sh (unat val)\<rparr>)"
  using assms(4-)
proof (induction "length (varint_chars a sh (unat val))" arbitrary: e val)
  case (Suc k)
  have a: "a < 92" using assms(3) by (metis add_leD1 add_less_le_mono less_eq_Suc_le
        linorder_neqE_nat not_add_less1 order_le_less_trans zero_less_numeral zero_less_power
        le_neq_implies_less add_le_same_cancel1 leD)
  let ?c = "kUpb_ToBase92 ! (a + unat val mod 2 ^ sh)"
  have idx: "a + unat val mod 2 ^ sh < 92"
    using assms(3) by (meson add_strict_left_mono less_le_trans mod_less_divisor zero_less_numeral
        zero_less_power)
  have put: "upb_MtDataEncoder_Put e (uint (val AND (push_bit sh 1 - 1)) + upb_FromBase92 (kUpb_ToBase92 ! a))
      = Ok (e\<lparr>enc_out := enc_out e @ [?c]\<rparr>)"
    using Suc.hyps(2) Suc.prems idx
    by (subst uint_and_mask_shift)
      (auto simp: assms(2) upb_FromBase92_ToBase92(1) [OF a] Put_Ok_iff PutRaw_Ok_iff nat_add_distrib
        add.commute nat_int_add)
  have sz: "unat (drop_bit sh val) = unat val div 2 ^ sh" for val :: u32
    by (rule unat_drop_bit_div)
  have z: "drop_bit sh val = 0 \<longleftrightarrow> unat val div 2 ^ sh = 0"
    by (metis sz unat_eq_0)
  show ?case
  proof (cases "drop_bit sh val = 0")
    case True
    then show ?thesis
      by (subst put_varint_loop.simps, subst varint_chars.simps) (simp add: put z [symmetric] del: push_bit_of_1)
  next
    case False
    then have "varint_chars a sh (unat val) = ?c # varint_chars a sh (unat (drop_bit sh val))"
      using assms(1) by (subst varint_chars.simps) (simp only: sz z, simp)
    then show ?thesis
      using Suc.hyps(1) [of "drop_bit sh val" "e\<lparr>enc_out := enc_out e @ [?c]\<rparr>"]
        Suc.hyps(2) Suc.prems False
      by (subst put_varint_loop.simps) (simp add: put del: push_bit_of_1)
  qed
qed simp

section \<open>The reader\<close>

definition not_in_range :: "u8 \<Rightarrow> u8 \<Rightarrow> bytes \<Rightarrow> bool" where
  "not_in_range mn mx rest \<longleftrightarrow> (rest = [] \<or> sint (hd rest) < uint mn \<or> uint mx < sint (hd rest))"

lemma or_push_bit_eq_add:
  assumes "unat (val::u32) < 2 ^ s" "m * 2 ^ s < 2 ^ 32"
  shows "unat (val OR push_bit s (of_nat m)) = unat val + m * 2 ^ s"
proof -
  have "unat (push_bit s (of_nat m :: u32)) = unat (of_nat (m * 2 ^ s) :: u32)"
    by (simp add: push_bit_eq_mult)
  also have "\<dots> = push_bit s m"
    using assms(2) by (simp only: unat_of_nat len_num1 len_bit0 push_bit_eq_mult) simp
  finally have "unat (val OR push_bit s (of_nat m)) = unat val OR push_bit s m"
    by (simp only: unsigned_or_eq)
  also have "\<dots> = unat val + push_bit s m"
  proof -
    have "\<not> bit (unat val) k" if "s \<le> k" for k
      using not_bit_less_exp [OF assms(1) that] .
    then show ?thesis
      by (intro disjunctive_add_eq_or [symmetric] bit_eqI) (auto simp: bit_and_iff bit_push_bit_iff)
  qed
  finally show ?thesis by (simp add: push_bit_eq_mult)
qed

lemma decode_varint_loop_eq:
  assumes "varint_chars a sh n = c # cs" "0 < sh" "a + 2 ^ sh \<le> 92"
    and "not_in_range (kUpb_ToBase92 ! a) (kUpb_ToBase92 ! (a + 2 ^ sh - 1)) rest"
    and "unat val < 2 ^ shift" "n * 2 ^ shift < 2 ^ 32"
  shows "decode_varint_loop sh (kUpb_ToBase92 ! a) (kUpb_ToBase92 ! (a + 2 ^ sh - 1)) shift val c (cs @ rest) =
    Some (rest, of_nat (unat val + n * 2 ^ shift))"
  using assms
proof (induction a sh n arbitrary: shift val c cs rule: varint_chars.induct)
  case (1 a sh n)
  let ?d = "n mod 2 ^ sh"
  have d: "?d < 2 ^ sh" and a: "a < 92"
    using "1.prems"(3) by (simp, metis add_leD1 le_neq_implies_less add_le_same_cancel1 leD
        zero_less_numeral zero_less_power)
  have c: "c = kUpb_ToBase92 ! (a + ?d)"
    and cs: "cs = (if n div 2 ^ sh = 0 then [] else varint_chars a sh (n div 2 ^ sh))"
    using "1.prems"(1,2) by (simp_all add: varint_chars.simps [of a sh n] split: if_splits)
  have bits: "word_of_int (upb_FromBase92 c - upb_FromBase92 (kUpb_ToBase92 ! a)) = (of_nat ?d :: u32)"
    using "1.prems"(3) d
    by (subst c, subst upb_FromBase92_ToBase92(1), linarith)
      (simp add: upb_FromBase92_ToBase92(1) [OF a])
  have "?d * 2 ^ shift \<le> n * 2 ^ shift" by simp
  then have val': "unat (val OR push_bit shift (of_nat ?d)) = unat val + ?d * 2 ^ shift" (is "unat ?val' = _")
    by (rule or_push_bit_eq_add [OF "1.prems"(5) order_le_less_trans [OF _ "1.prems"(6)]])
  show ?case
  proof (cases "n div 2 ^ sh = 0")
    case True
    then have "?d = n" by (simp add: div_eq_0_iff)
    then have "?val' = of_nat (unat val + n * 2 ^ shift)"
      using unat_word_ariths(1) val' by (metis of_nat_unat ucast_id)
    then show ?thesis
      using True "1.prems"(4) \<open>?d = n\<close>
      by (subst decode_varint_loop.simps)
        (auto simp: cs Let_def bits not_in_range_def simp del: of_int_diff split: list.split)
  next
    case False
    obtain c' cs' where c': "varint_chars a sh (n div 2 ^ sh) = c' # cs'"
      by (cases "varint_chars a sh (n div 2 ^ sh)") auto
    then obtain i where i: "c' = kUpb_ToBase92 ! i" "a \<le> i" "i < a + 2 ^ sh"
      using set_varint_chars [OF "1.prems"(3), of "n div 2 ^ sh"] by auto
    have "2 ^ sh \<le> n" using False by (simp add: div_eq_0_iff)
    then have "2 ^ sh * 2 ^ shift \<le> n * 2 ^ shift" by (rule mult_le_mono1)
    from order_le_less_trans [OF this "1.prems"(6)] have "(2::nat) ^ (shift + sh) < 2 ^ 32"
      by (simp add: power_add mult.commute)
    then have shift: "shift + sh < 32" by (rule power_less_imp_less_exp [rotated]) simp
    have "n * 2 ^ shift = (n div 2 ^ sh * 2 ^ sh + ?d) * 2 ^ shift" by (simp only: div_mult_mod_eq)
    then have n: "n * 2 ^ shift = n div 2 ^ sh * 2 ^ (shift + sh) + ?d * 2 ^ shift"
      by (simp only: add_mult_distrib power_add) (simp only: mult.assoc mult.commute [of "2 ^ sh"])
    have "unat val + ?d * 2 ^ shift < (?d + 1) * 2 ^ shift" using "1.prems"(5) by simp
    also have "\<dots> \<le> 2 ^ sh * 2 ^ shift" using d by (intro mult_le_mono1) linarith
    finally have lt: "unat ?val' < 2 ^ (shift + sh)" by (simp add: val' power_add mult.commute)
    have "decode_varint_loop sh (kUpb_ToBase92 ! a) (kUpb_ToBase92 ! (a + 2 ^ sh - 1)) (shift + sh) ?val' c' (cs' @ rest) =
      Some (rest, of_nat (unat ?val' + n div 2 ^ sh * 2 ^ (shift + sh)))"
      using "1.IH" [OF _ c' "1.prems"(2-4) lt] False "1.prems"(2,6) n by simp
    moreover have "unat ?val' + n div 2 ^ sh * 2 ^ (shift + sh) = unat val + n * 2 ^ shift"
      using n val' by simp
    moreover have "uint (kUpb_ToBase92 ! a) \<le> uint c'" "uint c' \<le> uint (kUpb_ToBase92 ! (a + 2 ^ sh - 1))"
      using kUpb_ToBase92_mono [of a i] kUpb_ToBase92_mono [of i "a + 2 ^ sh - 1"] i "1.prems"(3)
      by (simp_all add: word_le_def)
    moreover have "sint c' = uint c'" using i "1.prems"(3) by (simp add: sint_kUpb_ToBase92)
    ultimately show ?thesis
      using False shift
      by (subst decode_varint_loop.simps) (simp add: cs c' bits not_less del: of_nat_add of_int_diff)
  qed
qed

section \<open>The round trip\<close>

text \<open>The three ranges of characters the format gives to numbers: field and enum skips, modifiers,
  and the field numbers of oneofs. Each has a power of two of characters.\<close>

definition varint_ranges :: "(u8 \<times> u8) set" where
  "varint_ranges =
     {(kUpb_EncodedValue_MinSkip, kUpb_EncodedValue_MaxSkip),
      (kUpb_EncodedValue_MinModifier, kUpb_EncodedValue_MaxModifier),
      (kUpb_ToBase92 ! 0, kUpb_ToBase92 ! 63)}"

lemma range_chars:
  "kUpb_EncodedValue_MinSkip = kUpb_ToBase92 ! 60" "kUpb_EncodedValue_MaxSkip = kUpb_ToBase92 ! 91"
  "kUpb_EncodedValue_MinModifier = kUpb_ToBase92 ! 42"
  "kUpb_EncodedValue_MaxModifier = kUpb_ToBase92 ! 57"
  by (simp_all add: md_char_defs kUpb_ToBase92_codes)

lemma log2_ranges:
  "upb_Log2Ceiling 31 = 5" "upb_Log2Ceiling 32 = 5" "upb_Log2Ceiling 15 = 4"
  "upb_Log2Ceiling 16 = 4" "upb_Log2Ceiling 63 = 6" "upb_Log2Ceiling 64 = 6"
  by code_simp+

lemma varint_ranges_bounds:
  assumes "(mn, mx) \<in> varint_ranges"
  obtains a sh where "mn = kUpb_ToBase92 ! a" "mx = kUpb_ToBase92 ! (a + 2 ^ sh - 1)"
    "a + 2 ^ sh \<le> 92" "4 \<le> sh" "sh \<le> 6"
    "upb_Log2Ceiling (upb_FromBase92 mx - upb_FromBase92 mn) = sh"
    "upb_Log2Ceiling (upb_FromBase92 mx - upb_FromBase92 mn + 1) = sh"
proof -
  from assms obtain a sh :: nat where sh: "a = 60 \<and> sh = 5 \<or> a = 42 \<and> sh = 4 \<or> a = 0 \<and> sh = 6"
    and mn: "mn = kUpb_ToBase92 ! a" and mx: "mx = kUpb_ToBase92 ! (a + 2 ^ sh - 1)"
    unfolding varint_ranges_def range_chars by fastforce
  show thesis
    by (rule that [OF mn mx]; use sh in \<open>elim disjE; elim conjE; hypsubst\<close>;
        simp add: mn mx upb_FromBase92_ToBase92(1) log2_ranges)
qed

lemma varint_written:
  assumes "(mn, mx) \<in> varint_ranges"
    and "buf_start e \<le> length (enc_out e)" "length (enc_out e) + 8 \<le> buf_start e + 16"
    and "length (enc_out e) + 8 \<le> enc_end e"
  obtains c cs where "length (c # cs) \<le> 8"
    "upb_MtDataEncoder_PutBase92Varint e val mn mx = Ok (e\<lparr>enc_out := enc_out e @ c # cs\<rparr>)"
    "uint mn \<le> sint c" "sint c \<le> uint mx"
    "\<And>rest. not_in_range mn mx rest \<Longrightarrow> upb_Base92_DecodeVarint c mn mx (cs @ rest) = Some (rest, val)"
proof -
  obtain a sh where *: "mn = kUpb_ToBase92 ! a" "mx = kUpb_ToBase92 ! (a + 2 ^ sh - 1)"
    "a + 2 ^ sh \<le> 92" "4 \<le> sh" "sh \<le> 6"
    "upb_Log2Ceiling (upb_FromBase92 mx - upb_FromBase92 mn) = sh"
    "upb_Log2Ceiling (upb_FromBase92 mx - upb_FromBase92 mn + 1) = sh"
    by (rule varint_ranges_bounds [OF assms(1)])
  obtain c cs where c: "varint_chars a sh (unat val) = c # cs"
    by (cases "varint_chars a sh (unat val)") auto
  have "(2::nat) ^ 32 \<le> 2 ^ (sh * 8)" using *(4) by (intro power_increasing) auto
  then have len: "length (c # cs) \<le> 8"
    using length_varint_chars [of sh "unat val" 8 a] *(4) c unat_less_numeral_power(3) [of val] by simp
  obtain i where i: "c = kUpb_ToBase92 ! i" "a \<le> i" "i < a + 2 ^ sh"
    using set_varint_chars [OF *(3), of "unat val"] c by auto
  then have "uint mn \<le> sint c" "sint c \<le> uint mx"
    using kUpb_ToBase92_mono [of a i] kUpb_ToBase92_mono [of i "a + 2 ^ sh - 1"] *(1-3)
    by (simp_all add: sint_kUpb_ToBase92 word_le_def)
  moreover have "put_varint_loop e sh (push_bit sh 1 - 1) val mn = Ok (e\<lparr>enc_out := enc_out e @ c # cs\<rparr>)"
    using put_varint_loop_eq [of sh a e val] * assms(3,4) len c by simp
  then have "upb_MtDataEncoder_PutBase92Varint e val mn mx = Ok (e\<lparr>enc_out := enc_out e @ c # cs\<rparr>)"
    using *(5) by (simp add: upb_MtDataEncoder_PutBase92Varint_def *(7) del: push_bit_of_1)
  moreover have "upb_Base92_DecodeVarint c mn mx (cs @ rest) = Some (rest, val)"
    if "not_in_range mn mx rest" for rest
  proof -
    have "decode_varint_loop sh mn mx 0 0 c (cs @ rest) = Some (rest, val)"
      using decode_varint_loop_eq [OF c, of rest 0 0] *(1-4) that unat_less_numeral_power(3) [of val] by simp
    then show ?thesis by (simp add: upb_Base92_DecodeVarint_def *(6))
  qed
  ultimately show thesis using len that by blast
qed

text \<open>
  C19: a number written with the characters of one of the format's three ranges takes at most 8
  bytes, and decoding those bytes in front of any text that does not go on in the same range
  returns the number and that text: the writer's and the reader's idea of how many bits a
  character carries, and of the 32-bit overlong check, agree.
\<close>

theorem base92_varint_roundtrip:
  assumes "(mn, mx) \<in> varint_ranges"
    and "buf_start e \<le> length (enc_out e)" "length (enc_out e) + 8 \<le> buf_start e + 16"
    and "length (enc_out e) + 8 \<le> enc_end e"
    and "not_in_range mn mx rest"
  shows "\<exists>c cs. length (c # cs) \<le> 8 \<and>
    upb_MtDataEncoder_PutBase92Varint e val mn mx = Ok (e\<lparr>enc_out := enc_out e @ c # cs\<rparr>) \<and>
    upb_Base92_DecodeVarint c mn mx (cs @ rest) = Some (rest, val)"
  by (rule varint_written [OF assms(1-4), of val]) (use assms(5) in blast)

theorem base92_varint_roundtrip_witness:
  "\<exists>c cs. length (c # cs) \<le> 8 \<and>
    upb_MtDataEncoder_PutBase92Varint
      \<lparr>enc_out = [33], enc_end = 100, buf_start = 0, enc_state = Uninitialized\<rparr> 0xFFFFFFFF
      kUpb_EncodedValue_MinSkip kUpb_EncodedValue_MaxSkip =
      Ok (\<lparr>enc_out = 33 # c # cs, enc_end = 100, buf_start = 0, enc_state = Uninitialized\<rparr>) \<and>
    upb_Base92_DecodeVarint c kUpb_EncodedValue_MinSkip kUpb_EncodedValue_MaxSkip (cs @ [33]) =
      Some ([33], 0xFFFFFFFF)"
  using base92_varint_roundtrip [of kUpb_EncodedValue_MinSkip kUpb_EncodedValue_MaxSkip
      "\<lparr>enc_out = [33], enc_end = 100, buf_start = 0, enc_state = Uninitialized\<rparr>" "[33]"]
  by (simp add: varint_ranges_def not_in_range_def md_char_defs)

end
