(* ===== verification/MdEnum.thy ===== *)
theory MdEnum
  imports MdVarint
begin

text \<open>
  \<open>upb/mini_descriptor/internal/decoder.h\<close>, \<open>upb/mini_descriptor/build_enum.c\<close> and
  \<open>upb/mini_table/internal/enum.h\<close>: building the validation table of a closed enum from its
  mini descriptor, and testing a number against that table.
\<close>

section \<open>upb_MdDecoder\<close>

text \<open>The \<open>longjmp\<close>s of the decoders, one constructor per message that
  \<open>upb_MdDecoder_ErrorJmp\<close> formats.\<close>

datatype md_error =
    OutOfMemory
  | OverlongVarint
  | InvalidEnumVersion u8
  | UnexpectedCharacter u8
  | InvalidFieldType int
  | CannotFlipPacked u32
  | CannotFlipValidateUtf8 u32
  | InvalidModifiersForRepeated u32
  | SingularAndRequired u32
  | SingularSubmessage u32
  | EmptyOneof
  | NoSuchOneofField u32
  | CannotAddToOneof u32
  | ExtensionMessageModifiers
  | ExtensionOneofs
  | InvalidChar u8
  | MessageTooLarge
  | TooManyRequired
  | MapFieldNumber u32 u32
  | MapFieldNotScalar
  | MapFieldType
  | MapFieldCount u16
  | MapOneof
  | MessageSetLength
  | InvalidMessageVersion u8
  | NotExtendable
  | InvalidExtVersion u8
  | InvalidExtension

definition upb_MdDecoder_DecodeBase92Varint ::
    "u8 \<Rightarrow> u8 \<Rightarrow> u8 \<Rightarrow> bytes \<Rightarrow> (md_error, bytes \<times> u32) cres" where
  "upb_MdDecoder_DecodeBase92Varint first_ch min_ch max_ch rest =
     (case upb_Base92_DecodeVarint first_ch min_ch max_ch rest of
        None \<Rightarrow> Fail OverlongVarint | Some r \<Rightarrow> Ok r)"

lemma decode_varint_loop_length:
  "decode_varint_loop b mn mx shift val ch rest = Some (rest', val') \<Longrightarrow> length rest' \<le> length rest"
proof (induction rest arbitrary: shift val ch)
  case Nil
  then show ?case by (simp add: decode_varint_loop.simps)
next
  case (Cons c cs)
  then show ?case
    by (subst (asm) (2) decode_varint_loop.simps)
      (auto simp: Let_def split: if_splits intro: le_SucI)
qed

lemma DecodeBase92Varint_length:
  "upb_MdDecoder_DecodeBase92Varint first_ch mn mx rest = Ok (rest', val) \<Longrightarrow>
     length rest' \<le> length rest"
  by (auto simp: upb_MdDecoder_DecodeBase92Varint_def upb_Base92_DecodeVarint_def
      split: option.splits dest: decode_varint_loop_length)

section \<open>The table\<close>

text \<open>\<open>data\<close> holds the mask words and then the listed values; reading past it is \<open>UB\<close>.\<close>

record upb_MiniTableEnum =
  mask_limit :: u32
  value_count :: u32
  enum_data :: "u32 list"

definition enum_data_at :: "upb_MiniTableEnum \<Rightarrow> nat \<Rightarrow> ('e, u32) cres" where
  "enum_data_at e i = cassert (i < length (enum_data e)) (Ok (enum_data e ! i))"

fun enum_scan :: "upb_MiniTableEnum \<Rightarrow> nat \<Rightarrow> nat \<Rightarrow> u32 \<Rightarrow> ('e, bool) cres" where
  "enum_scan e p 0 val = Ok False"
| "enum_scan e p (Suc n) val =
     cbind (enum_data_at e p) (\<lambda>v. if v = val then Ok True else enum_scan e (Suc p) n val)"

definition upb_MiniTableEnum_CheckValue :: "upb_MiniTableEnum \<Rightarrow> u32 \<Rightarrow> (unit, bool) cres" where
  "upb_MiniTableEnum_CheckValue e val =
     (if val < 64 then
        cbind (enum_data_at e 0) (\<lambda>d0. cbind (enum_data_at e 1) (\<lambda>d1.
          let mk = (ucast d0 :: u64) OR push_bit 32 (ucast d1);
              bt = push_bit (unat val) (1 :: u64)
          in Ok (mk AND bt \<noteq> 0)))
      else if val < mask_limit e then
        cbind (enum_data_at e (unat (val div 32))) (\<lambda>mk.
          Ok (mk AND push_bit (unat (val mod 32)) 1 \<noteq> 0))
      else enum_scan e (unat (mask_limit e div 32)) (unat (value_count e)) val)"

section \<open>The builder\<close>

record 'a upb_MdEnumDecoder =
  ed_arena :: 'a
  enum_table :: upb_MiniTableEnum
  enum_value_count :: u32
  enum_data_count :: u32
  enum_data_capacity :: u32

definition upb_MiniTableEnum_Size :: "u32 \<Rightarrow> nat" where
  "upb_MiniTableEnum_Size count = max 8 (8 + 4 * unat count)"

text \<open>\<open>UPB_SIZEOF_FLEX_WOULD_OVERFLOW\<close> for this struct, with \<open>SIZE_MAX = 2 ^ 64 - 1\<close>.\<close>

definition enum_size_overflows :: "u32 \<Rightarrow> bool" where
  "enum_size_overflows count \<longleftrightarrow> (2 ^ 64 - 1 - 8) div 4 < uint count"

definition upb_MiniTable_AddEnumDataMember ::
    "'a realloc \<Rightarrow> 'a upb_MdEnumDecoder \<Rightarrow> u32 \<Rightarrow> (md_error, 'a upb_MdEnumDecoder) cres" where
  "upb_MiniTable_AddEnumDataMember realloc d val =
     cbind
       (if enum_data_count d = enum_data_capacity d then
          (let old_sz = upb_MiniTableEnum_Size (enum_data_capacity d) in
           if enum_data_capacity d > (2 ^ 32 - 1) div 2 then Fail OutOfMemory
           else
             (let new_capacity = max 2 (enum_data_capacity d * 2) in
              if enum_size_overflows new_capacity then Fail OutOfMemory
              else
                (case realloc old_sz (upb_MiniTableEnum_Size new_capacity) (ed_arena d) of
                   (ok, a) \<Rightarrow>
                     if ok then Ok (d\<lparr>ed_arena := a, enum_data_capacity := new_capacity\<rparr>)
                     else Fail OutOfMemory)))
        else Ok d)
       (\<lambda>d. cassert (length (enum_data (enum_table d)) = unat (enum_data_count d) \<and>
                    enum_data_count d < enum_data_capacity d)
         (Ok (d\<lparr>enum_table := (enum_table d)\<lparr>enum_data := enum_data (enum_table d) @ [val]\<rparr>,
                enum_data_count := enum_data_count d + 1\<rparr>)))"

lemma AddEnumDataMember_Ok:
  assumes "upb_MiniTable_AddEnumDataMember realloc d val = Ok d'"
  shows "length (enum_data (enum_table d)) = unat (enum_data_count d) \<and>
    enum_table d' = (enum_table d)\<lparr>enum_data := enum_data (enum_table d) @ [val]\<rparr> \<and>
    enum_data_count d' = enum_data_count d + 1 \<and> enum_value_count d' = enum_value_count d"
  using assms
  by (auto simp: upb_MiniTable_AddEnumDataMember_def cres_simps Let_def
      split: if_splits prod.splits)

text \<open>The inner loop of \<open>upb_MiniTableEnum_BuildValue\<close>: one zero word per 32 values until the
  mask reaches \<open>new_mask_limit\<close>.\<close>

function extend_mask ::
    "'a realloc \<Rightarrow> u32 \<Rightarrow> 'a upb_MdEnumDecoder \<Rightarrow> (md_error, 'a upb_MdEnumDecoder) cres" where
  "extend_mask realloc new_mask_limit d =
     (if mask_limit (enum_table d) < new_mask_limit then
        (case upb_MiniTable_AddEnumDataMember realloc d 0 of
           UB \<Rightarrow> UB
         | Fail e \<Rightarrow> Fail e
         | Ok d' \<Rightarrow> extend_mask realloc new_mask_limit
             (d'\<lparr>enum_table := (enum_table d')\<lparr>mask_limit := mask_limit (enum_table d') + 32\<rparr>\<rparr>))
      else Ok d)"
  by pat_completeness auto
termination
proof (relation "measure (\<lambda>(_, _, d). 2 ^ 32 - length (enum_data (enum_table d)))", goal_cases)
  case (2 realloc new_mask_limit d d')
  have "length (enum_data (enum_table d)) < 2 ^ 32"
    using AddEnumDataMember_Ok [OF 2(2)] unat_less_numeral_power(3) [of "enum_data_count d"]
    by simp
  moreover have "length (enum_data (enum_table d')) = Suc (length (enum_data (enum_table d)))"
    using AddEnumDataMember_Ok [OF 2(2)] by simp
  ultimately show ?case by simp
qed simp

declare extend_mask.simps [simp del]

definition upb_MiniTableEnum_BuildValue ::
    "'a realloc \<Rightarrow> u32 \<Rightarrow> 'a upb_MdEnumDecoder \<Rightarrow> (md_error, 'a upb_MdEnumDecoder) cres" where
  "upb_MiniTableEnum_BuildValue realloc val d0 =
     (let d = d0\<lparr>enum_value_count := enum_value_count d0 + 1\<rparr>;
          table = enum_table d
      in if value_count table \<noteq> 0 \<or> (val > 512 \<and> enum_value_count d < val div 32)
         then
           cassert (value_count table = 0 \<longrightarrow> enum_data_count d = mask_limit table div 32)
             (cbind (upb_MiniTable_AddEnumDataMember realloc d val) (\<lambda>d.
                Ok (d\<lparr>enum_table := (enum_table d)
                   \<lparr>value_count := value_count (enum_table d) + 1\<rparr>\<rparr>)))
         else
           (let new_mask_limit = (val div 32 + 1) * 32 in
            cbind (extend_mask realloc new_mask_limit d) (\<lambda>d.
              let i = unat (val div 32) in
              cbind (enum_data_at (enum_table d) i) (\<lambda>w.
                Ok (d\<lparr>enum_table := (enum_table d)\<lparr>enum_data :=
                   (enum_data (enum_table d))[i := w OR push_bit (unat (val mod 32)) 1]\<rparr>\<rparr>)))))"

text \<open>\<open>for (int i = 0; i < 5; i++, base++, mask >>= 1)\<close>.\<close>

fun build_mask_bits ::
    "'a realloc \<Rightarrow> nat \<Rightarrow> u32 \<Rightarrow> u32 \<Rightarrow> 'a upb_MdEnumDecoder \<Rightarrow>
     (md_error, u32 \<times> 'a upb_MdEnumDecoder) cres" where
  "build_mask_bits realloc 0 msk base d = Ok (base, d)"
| "build_mask_bits realloc (Suc n) msk base d =
     cbind (if msk AND 1 \<noteq> 0 then upb_MiniTableEnum_BuildValue realloc base d else Ok d)
       (\<lambda>d. build_mask_bits realloc n (drop_bit 1 msk) (base + 1) d)"

text \<open>The main loop. \<open>char\<close> is signed, so a byte of 128 or more passes the first comparison; its
  base 92 value is \<open>-1\<close>, a mask with every bit set.\<close>

function build_enum_loop ::
    "'a realloc \<Rightarrow> bytes \<Rightarrow> u32 \<Rightarrow> 'a upb_MdEnumDecoder \<Rightarrow>
     (md_error, 'a upb_MdEnumDecoder) cres" where
  "build_enum_loop realloc [] base d = Ok d"
| "build_enum_loop realloc (ch # ptr) base d =
     (if sint ch \<le> sint kUpb_EncodedValue_MaxEnumMask then
        cbind (build_mask_bits realloc 5 (word_of_int (upb_FromBase92 ch)) base d)
          (\<lambda>(base', d'). build_enum_loop realloc ptr base' d')
      else if sint kUpb_EncodedValue_MinSkip \<le> sint ch \<and> sint ch \<le> sint kUpb_EncodedValue_MaxSkip
      then
        (case upb_MdDecoder_DecodeBase92Varint ch kUpb_EncodedValue_MinSkip
                kUpb_EncodedValue_MaxSkip ptr of
           UB \<Rightarrow> UB
         | Fail e \<Rightarrow> Fail e
         | Ok (ptr', skip) \<Rightarrow> build_enum_loop realloc ptr' (base + skip) d)
      else Fail (UnexpectedCharacter ch))"
  by pat_completeness auto
termination
  by (relation "measure (\<lambda>(_, ptr, _). length ptr)") (auto dest: DecodeBase92Varint_length)

definition upb_MtDecoder_DoBuildMiniTableEnum ::
    "'a realloc \<Rightarrow> bool \<Rightarrow> bytes \<Rightarrow> 'a upb_MdEnumDecoder \<Rightarrow>
     (md_error, 'a upb_MdEnumDecoder) cres" where
  "upb_MtDecoder_DoBuildMiniTableEnum realloc have_table data d =
     cbind (case data of [] \<Rightarrow> Ok []
            | c # cs \<Rightarrow> if c \<noteq> kUpb_EncodedVersion_EnumV1 then Fail (InvalidEnumVersion c) else Ok cs)
       (\<lambda>ptr.
     if \<not> have_table then Fail OutOfMemory
     else
       cbind (upb_MiniTable_AddEnumDataMember realloc
                (d\<lparr>enum_table := (enum_table d)\<lparr>mask_limit := 64\<rparr>\<rparr>) 0) (\<lambda>d.
       cbind (upb_MiniTable_AddEnumDataMember realloc d 0) (\<lambda>d.
         build_enum_loop realloc ptr 0
           (d\<lparr>enum_table := (enum_table d)\<lparr>value_count := 0\<rparr>\<rparr>))))"

text \<open>\<open>garbage\<close> is what the two header words of the fresh allocation happen to hold.\<close>

definition upb_MiniTableEnum_Build ::
    "'a malloc \<Rightarrow> 'a realloc \<Rightarrow> u32 \<times> u32 \<Rightarrow> bytes \<Rightarrow> 'a \<Rightarrow>
     (md_error, 'a upb_MdEnumDecoder) cres" where
  "upb_MiniTableEnum_Build malloc realloc garbage data a =
     (let initial_capacity = 2 in
      case malloc (upb_MiniTableEnum_Size initial_capacity) a of
        (ok, a') \<Rightarrow>
          upb_MtDecoder_DoBuildMiniTableEnum realloc ok data
            \<lparr>ed_arena = a',
             enum_table = \<lparr>mask_limit = fst garbage, value_count = snd garbage, enum_data = []\<rparr>,
             enum_value_count = 0, enum_data_count = 0, enum_data_capacity = initial_capacity\<rparr>)"

end
