(* ===== verification/MiniTable.thy ===== *)
theory MiniTable
  imports MdEnum
begin

text \<open>
  The tables that describe a message type: \<open>upb/mini_table/internal/field.h\<close>, \<open>message.h\<close>,
  \<open>extension.h\<close>, \<open>sub.h\<close>, \<open>message.c\<close> and \<open>upb/mini_table/message.c\<close>. A pointer to a field is its
  index in the table's array; a pointer to another table is a reference into a store of tables.
\<close>

section \<open>Fields\<close>

record upb_MiniTableField =
  f_number :: u32
  f_offset :: u16
  f_presence :: u16
  f_submsg_index :: u16
  f_descriptortype :: upb_FieldType
  f_mode :: u8

definition kUpb_NoSub :: u16 where "kUpb_NoSub = - 1"

definition kUpb_FieldMode_Map :: u8 where "kUpb_FieldMode_Map = 0"
definition kUpb_FieldMode_Array :: u8 where "kUpb_FieldMode_Array = 1"
definition kUpb_FieldMode_Scalar :: u8 where "kUpb_FieldMode_Scalar = 2"
definition kUpb_FieldMode_Mask :: u8 where "kUpb_FieldMode_Mask = 3"

definition kUpb_LabelFlags_IsPacked :: u8 where "kUpb_LabelFlags_IsPacked = 4"
definition kUpb_LabelFlags_IsExtension :: u8 where "kUpb_LabelFlags_IsExtension = 8"
definition kUpb_LabelFlags_IsAlternate :: u8 where "kUpb_LabelFlags_IsAlternate = 16"

definition kUpb_FieldRep_1Byte :: nat where "kUpb_FieldRep_1Byte = 0"
definition kUpb_FieldRep_4Byte :: nat where "kUpb_FieldRep_4Byte = 1"
definition kUpb_FieldRep_StringView :: nat where "kUpb_FieldRep_StringView = 2"
definition kUpb_FieldRep_8Byte :: nat where "kUpb_FieldRep_8Byte = 3"
definition kUpb_FieldRep_Shift :: nat where "kUpb_FieldRep_Shift = 6"

lemmas field_mode_defs =
  kUpb_FieldMode_Map_def kUpb_FieldMode_Array_def kUpb_FieldMode_Scalar_def kUpb_FieldMode_Mask_def
  kUpb_LabelFlags_IsPacked_def kUpb_LabelFlags_IsExtension_def kUpb_LabelFlags_IsAlternate_def
  kUpb_FieldRep_1Byte_def kUpb_FieldRep_4Byte_def kUpb_FieldRep_StringView_def
  kUpb_FieldRep_8Byte_def kUpb_FieldRep_Shift_def

definition upb_MiniTableField_Mode :: "upb_MiniTableField \<Rightarrow> u8" where
  "upb_MiniTableField_Mode f = f_mode f AND kUpb_FieldMode_Mask"

definition upb_MiniTableField_GetRep :: "upb_MiniTableField \<Rightarrow> nat" where
  "upb_MiniTableField_GetRep f = unat (drop_bit kUpb_FieldRep_Shift (f_mode f))"

definition upb_MiniTableField_IsArray :: "upb_MiniTableField \<Rightarrow> bool" where
  "upb_MiniTableField_IsArray f \<longleftrightarrow> upb_MiniTableField_Mode f = kUpb_FieldMode_Array"

definition upb_MiniTableField_IsMap :: "upb_MiniTableField \<Rightarrow> bool" where
  "upb_MiniTableField_IsMap f \<longleftrightarrow> upb_MiniTableField_Mode f = kUpb_FieldMode_Map"

definition upb_MiniTableField_IsScalar :: "upb_MiniTableField \<Rightarrow> bool" where
  "upb_MiniTableField_IsScalar f \<longleftrightarrow> upb_MiniTableField_Mode f = kUpb_FieldMode_Scalar"

definition upb_MiniTableField_IsAlternate :: "upb_MiniTableField \<Rightarrow> bool" where
  "upb_MiniTableField_IsAlternate f \<longleftrightarrow> f_mode f AND kUpb_LabelFlags_IsAlternate \<noteq> 0"

definition upb_MiniTableField_IsExtension :: "upb_MiniTableField \<Rightarrow> bool" where
  "upb_MiniTableField_IsExtension f \<longleftrightarrow> f_mode f AND kUpb_LabelFlags_IsExtension \<noteq> 0"

definition upb_MiniTableField_IsPacked :: "upb_MiniTableField \<Rightarrow> bool" where
  "upb_MiniTableField_IsPacked f \<longleftrightarrow> f_mode f AND kUpb_LabelFlags_IsPacked \<noteq> 0"

definition upb_MiniTableField_Type :: "upb_MiniTableField \<Rightarrow> ('e, upb_FieldType) cres" where
  "upb_MiniTableField_Type f =
     (let type = f_descriptortype f in
      if upb_MiniTableField_IsAlternate f then
        (if type = FT_Int32 then Ok FT_Enum else if type = FT_Bytes then Ok FT_String else UB)
      else Ok type)"

definition upb_MiniTableField_CType :: "upb_MiniTableField \<Rightarrow> ('e, upb_CType) cres" where
  "upb_MiniTableField_CType f =
     cbind (upb_MiniTableField_Type f) (\<lambda>type. Ok (upb_FieldType_CType type))"

text \<open>\<open>presence\<close> is an \<open>int16_t\<close>.\<close>

definition upb_MiniTableField_HasHasbit :: "upb_MiniTableField \<Rightarrow> bool" where
  "upb_MiniTableField_HasHasbit f \<longleftrightarrow> sint (f_presence f) > 0"

definition upb_MiniTableField_HasbitMask :: "upb_MiniTableField \<Rightarrow> ('e, u8) cres" where
  "upb_MiniTableField_HasbitMask f =
     cassert (upb_MiniTableField_HasHasbit f)
       (let index = f_presence f in Ok (push_bit (unat (index mod 8)) 1))"

definition upb_MiniTableField_HasbitOffset :: "upb_MiniTableField \<Rightarrow> ('e, u16) cres" where
  "upb_MiniTableField_HasbitOffset f =
     cassert (upb_MiniTableField_HasHasbit f) (let index = f_presence f in Ok (index div 8))"

definition upb_MiniTableField_IsClosedEnum :: "upb_MiniTableField \<Rightarrow> bool" where
  "upb_MiniTableField_IsClosedEnum f \<longleftrightarrow> f_descriptortype f = FT_Enum"

definition upb_MiniTableField_IsInOneof :: "upb_MiniTableField \<Rightarrow> bool" where
  "upb_MiniTableField_IsInOneof f \<longleftrightarrow> sint (f_presence f) < 0"

definition upb_MiniTableField_IsSubMessage :: "upb_MiniTableField \<Rightarrow> bool" where
  "upb_MiniTableField_IsSubMessage f \<longleftrightarrow>
     f_descriptortype f = FT_Message \<or> f_descriptortype f = FT_Group"

definition upb_MiniTableField_HasPresence :: "upb_MiniTableField \<Rightarrow> bool" where
  "upb_MiniTableField_HasPresence f \<longleftrightarrow>
     (if upb_MiniTableField_IsExtension f then upb_MiniTableField_IsScalar f else f_presence f \<noteq> 0)"

text \<open>\<open>~(ptrdiff_t)presence\<close>, at the width of a \<open>size_t\<close>.\<close>

definition upb_MiniTableField_OneofOffset :: "upb_MiniTableField \<Rightarrow> ('e, u64) cres" where
  "upb_MiniTableField_OneofOffset f =
     cassert (upb_MiniTableField_IsInOneof f) (Ok (NOT (scast (f_presence f))))"

definition upb_MiniTableField_ElemSizeLg2 :: "bool \<Rightarrow> upb_MiniTableField \<Rightarrow> ('e, nat) cres" where
  "upb_MiniTableField_ElemSizeLg2 is64 f =
     cbind (upb_MiniTableField_Type f) (\<lambda>type. Ok (upb_FieldType_SizeLg2 is64 type))"

text \<open>\<open>UPB_ASSUME\<close>s of the accessors of arrays and maps, on a 64-bit host.\<close>

definition upb_MiniTableField_CheckIsArray :: "upb_MiniTableField \<Rightarrow> bool" where
  "upb_MiniTableField_CheckIsArray f \<longleftrightarrow>
     upb_MiniTableField_GetRep f = kUpb_FieldRep_8Byte \<and> upb_MiniTableField_IsArray f \<and> f_presence f = 0"

definition upb_MiniTableField_CheckIsMap :: "upb_MiniTableField \<Rightarrow> bool" where
  "upb_MiniTableField_CheckIsMap f \<longleftrightarrow>
     upb_MiniTableField_GetRep f = kUpb_FieldRep_8Byte \<and> upb_MiniTableField_IsMap f \<and> f_presence f = 0"

section \<open>Messages\<close>

text \<open>The extension modes are bits of a byte.\<close>

definition kUpb_ExtMode_NonExtendable :: u8 where "kUpb_ExtMode_NonExtendable = 0"
definition kUpb_ExtMode_Extendable :: u8 where "kUpb_ExtMode_Extendable = 1"
definition kUpb_ExtMode_IsMessageSet :: u8 where "kUpb_ExtMode_IsMessageSet = 2"
definition kUpb_ExtMode_IsMapEntry :: u8 where "kUpb_ExtMode_IsMapEntry = 4"

lemmas ext_mode_defs =
  kUpb_ExtMode_NonExtendable_def kUpb_ExtMode_Extendable_def kUpb_ExtMode_IsMessageSet_def
  kUpb_ExtMode_IsMapEntry_def

text \<open>The union \<open>upb_MiniTableSub\<close>: a sub-message table (by reference), an enum, or \<open>NULL\<close>.\<close>

datatype upb_MiniTableSub = SubNull | SubMsg nat | SubEnum upb_MiniTableEnum

record upb_MiniTable =
  mt_subs :: "upb_MiniTableSub list"
  mt_fields :: "upb_MiniTableField list"
  mt_size :: u16
  mt_field_count :: u16
  mt_ext :: u8
  mt_dense_below :: u8
  mt_table_mask :: u8
  mt_required_count :: u8

text \<open>\<open>_kUpb_MiniTable_Empty\<close>; the reference 0 always stands for it. A \<open>struct upb_Message\<close> has 8
  bytes.\<close>

definition kUpb_MiniTable_Empty :: upb_MiniTable where
  "kUpb_MiniTable_Empty =
     \<lparr>mt_subs = [], mt_fields = [], mt_size = 8, mt_field_count = 0,
      mt_ext = kUpb_ExtMode_NonExtendable, mt_dense_below = 0, mt_table_mask = - 1, mt_required_count = 0\<rparr>"

definition upb_MiniTable_Empty :: nat where "upb_MiniTable_Empty = 0"

definition upb_MiniTable_IsEmpty :: "nat \<Rightarrow> bool" where
  "upb_MiniTable_IsEmpty m \<longleftrightarrow> m = upb_MiniTable_Empty"

definition upb_MiniTable_FieldCount :: "upb_MiniTable \<Rightarrow> nat" where
  "upb_MiniTable_FieldCount m = unat (mt_field_count m)"

definition upb_MiniTable_GetFieldByIndex :: "upb_MiniTable \<Rightarrow> nat \<Rightarrow> ('e, upb_MiniTableField) cres" where
  "upb_MiniTable_GetFieldByIndex m i = cassert (i < length (mt_fields m)) (Ok (mt_fields m ! i))"

definition upb_MiniTable_GetSubTableByIndex :: "upb_MiniTable \<Rightarrow> nat \<Rightarrow> ('e, nat) cres" where
  "upb_MiniTable_GetSubTableByIndex m i =
     cassert (i < length (mt_subs m)) (case mt_subs m ! i of SubMsg s \<Rightarrow> Ok s | _ \<Rightarrow> UB)"

definition upb_MiniTable_SubMessage :: "upb_MiniTable \<Rightarrow> upb_MiniTableField \<Rightarrow> ('e, nat option) cres" where
  "upb_MiniTable_SubMessage m f =
     cbind (upb_MiniTableField_CType f) (\<lambda>t.
       if t \<noteq> CT_Message then Ok None
       else cbind (upb_MiniTable_GetSubTableByIndex m (unat (f_submsg_index f))) (\<lambda>s. Ok (Some s)))"

definition upb_MiniTable_GetSubMessageTable ::
    "upb_MiniTable \<Rightarrow> upb_MiniTableField \<Rightarrow> ('e, nat option) cres" where
  "upb_MiniTable_GetSubMessageTable m f =
     cbind (upb_MiniTableField_CType f) (\<lambda>t. cassert (t = CT_Message)
       (cbind (upb_MiniTable_SubMessage m f) (\<lambda>ret.
          case ret of None \<Rightarrow> UB | Some s \<Rightarrow> Ok (if upb_MiniTable_IsEmpty s then None else Some s))))"

definition upb_MiniTable_FieldIsLinked :: "upb_MiniTable \<Rightarrow> upb_MiniTableField \<Rightarrow> ('e, bool) cres" where
  "upb_MiniTable_FieldIsLinked m f =
     cbind (upb_MiniTable_GetSubMessageTable m f) (\<lambda>s. Ok (s \<noteq> None))"

definition upb_MiniTable_MapEntrySubMessage ::
    "upb_MiniTable \<Rightarrow> upb_MiniTableField \<Rightarrow> ('e, nat option) cres" where
  "upb_MiniTable_MapEntrySubMessage m f =
     cbind (upb_MiniTable_FieldIsLinked m f) (\<lambda>l.
       cassert (l \<and> upb_MiniTableField_IsMap f) (upb_MiniTable_SubMessage m f))"

definition upb_MiniTable_GetSubEnumTable ::
    "upb_MiniTable \<Rightarrow> upb_MiniTableField \<Rightarrow> ('e, upb_MiniTableEnum option) cres" where
  "upb_MiniTable_GetSubEnumTable m f =
     cbind (upb_MiniTableField_CType f) (\<lambda>t. cassert (t = CT_Enum)
       (let i = unat (f_submsg_index f) in
        cassert (i < length (mt_subs m))
          (case mt_subs m ! i of SubNull \<Rightarrow> Ok None | SubEnum e \<Rightarrow> Ok (Some e) | SubMsg s \<Rightarrow> UB)))"

definition upb_MiniTable_MapKey :: "upb_MiniTable \<Rightarrow> ('e, upb_MiniTableField) cres" where
  "upb_MiniTable_MapKey m =
     cassert (upb_MiniTable_FieldCount m = 2)
       (cbind (upb_MiniTable_GetFieldByIndex m 0) (\<lambda>f. cassert (f_number f = 1) (Ok f)))"

definition upb_MiniTable_MapValue :: "upb_MiniTable \<Rightarrow> ('e, upb_MiniTableField) cres" where
  "upb_MiniTable_MapValue m =
     cassert (upb_MiniTable_FieldCount m = 2)
       (cbind (upb_MiniTable_GetFieldByIndex m 1) (\<lambda>f. cassert (f_number f = 2) (Ok f)))"

text \<open>\<open>1ULL << 64\<close> is undefined: the assertion lets 64 through, the shift does not.\<close>

definition upb_MiniTable_RequiredMask :: "upb_MiniTable \<Rightarrow> ('e, u64) cres" where
  "upb_MiniTable_RequiredMask m =
     (let n = unat (mt_required_count m) in
      cassert (0 < n \<and> n \<le> 64) (cassert (n < 64) (Ok (push_bit n 1 - 1))))"

section \<open>Finding a field\<close>

text \<open>The binary search. All indices are below \<open>2 ^ 16\<close>, so \<open>int32_t\<close> and \<open>uint32_t\<close> do not wrap.\<close>

function find_loop :: "upb_MiniTableField list \<Rightarrow> u32 \<Rightarrow> int \<Rightarrow> int \<Rightarrow> ('e, nat option) cres" where
  "find_loop base num lo hi =
     (if hi \<ge> lo then
        (let mid = (hi + lo) div 2 in
         cassert (0 \<le> mid \<and> nat mid < length base)
           (let n = f_number (base ! nat mid) in
            if n = num then Ok (Some (nat mid))
            else if n < num then find_loop base num (mid + 1) hi
            else find_loop base num lo (mid - 1)))
      else Ok None)"
  by pat_completeness auto
termination
  by (relation "measure (\<lambda>(base, num, lo, hi). nat (hi + 1 - lo))") auto

declare find_loop.simps [simp del]

definition upb_MiniTable_FindFieldByNumber :: "upb_MiniTable \<Rightarrow> u32 \<Rightarrow> ('e, nat option) cres" where
  "upb_MiniTable_FindFieldByNumber m num =
     (let i = ucast num - 1 :: u64 in
      if i < ucast (mt_dense_below m) then
        cassert (unat i < length (mt_fields m) \<and> f_number (mt_fields m ! unat i) = num) (Ok (Some (unat i)))
      else find_loop (mt_fields m) num (uint (mt_dense_below m)) (uint (mt_field_count m) - 1))"

text \<open>The two walks over the members of a oneof: all fields with the same \<open>presence\<close>.\<close>

definition find_presence :: "upb_MiniTable \<Rightarrow> nat \<Rightarrow> u16 \<Rightarrow> ('e, nat option) cres" where
  "find_presence m from p =
     cassert (unat (mt_field_count m) \<le> length (mt_fields m))
       (Ok (find (\<lambda>i. f_presence (mt_fields m ! i) = p) [from..<unat (mt_field_count m)]))"

definition upb_MiniTable_GetOneof :: "upb_MiniTable \<Rightarrow> upb_MiniTableField \<Rightarrow> ('e, nat option) cres" where
  "upb_MiniTable_GetOneof m f =
     (if \<not> upb_MiniTableField_IsInOneof f then Ok None else find_presence m 0 (f_presence f))"

text \<open>The next member behind the field at index \<open>i\<close>, if there is one.\<close>

definition upb_MiniTable_NextOneofField :: "upb_MiniTable \<Rightarrow> nat \<Rightarrow> ('e, nat option) cres" where
  "upb_MiniTable_NextOneofField m i =
     cbind (upb_MiniTable_GetFieldByIndex m i) (\<lambda>f. find_presence m (Suc i) (f_presence f))"

section \<open>Extensions\<close>

record upb_MiniTableExtension =
  ext_field :: upb_MiniTableField
  ext_extendee :: nat
  ext_sub :: upb_MiniTableSub

definition upb_MiniTableExtension_CType :: "upb_MiniTableExtension \<Rightarrow> ('e, upb_CType) cres" where
  "upb_MiniTableExtension_CType e = upb_MiniTableField_CType (ext_field e)"

definition upb_MiniTableExtension_Number :: "upb_MiniTableExtension \<Rightarrow> u32" where
  "upb_MiniTableExtension_Number e = f_number (ext_field e)"

definition upb_MiniTableExtension_GetSubMessage :: "upb_MiniTableExtension \<Rightarrow> ('e, nat option) cres" where
  "upb_MiniTableExtension_GetSubMessage e =
     cbind (upb_MiniTableExtension_CType e) (\<lambda>t.
       if t \<noteq> CT_Message then Ok None
       else (case ext_sub e of SubMsg m \<Rightarrow> Ok (Some m) | SubNull \<Rightarrow> Ok None | SubEnum _ \<Rightarrow> UB))"

definition upb_MiniTableExtension_GetSubEnum ::
    "upb_MiniTableExtension \<Rightarrow> ('e, upb_MiniTableEnum option) cres" where
  "upb_MiniTableExtension_GetSubEnum e =
     cbind (upb_MiniTableExtension_CType e) (\<lambda>t.
       if t \<noteq> CT_Enum then Ok None
       else (case ext_sub e of SubEnum en \<Rightarrow> Ok (Some en) | SubNull \<Rightarrow> Ok None | SubMsg _ \<Rightarrow> UB))"

text \<open>The setters return whether the extension has the right type.\<close>

definition upb_MiniTableExtension_SetSubMessage ::
    "upb_MiniTableExtension \<Rightarrow> nat \<Rightarrow> bool \<times> upb_MiniTableExtension" where
  "upb_MiniTableExtension_SetSubMessage e m =
     (if f_descriptortype (ext_field e) \<noteq> FT_Message then (False, e)
      else (True, e\<lparr>ext_sub := SubMsg m\<rparr>))"

definition upb_MiniTableExtension_SetSubEnum ::
    "upb_MiniTableExtension \<Rightarrow> upb_MiniTableEnum \<Rightarrow> bool \<times> upb_MiniTableExtension" where
  "upb_MiniTableExtension_SetSubEnum e en =
     (if f_descriptortype (ext_field e) \<noteq> FT_Enum then (False, e)
      else (True, e\<lparr>ext_sub := SubEnum en\<rparr>))"

definition upb_MiniTableExtension_GetRep :: "upb_MiniTableExtension \<Rightarrow> nat" where
  "upb_MiniTableExtension_GetRep e = upb_MiniTableField_GetRep (ext_field e)"

section \<open>Linking\<close>

text \<open>\<open>upb/mini_descriptor/link.c\<close>. \<open>field\<close> is an index of the table's array; \<open>sub\<close> is the
  sub-message's table and its reference.\<close>

definition upb_MiniTable_SetSubMessage ::
    "upb_MiniTable \<Rightarrow> nat \<Rightarrow> nat \<Rightarrow> upb_MiniTable \<Rightarrow> (unit, bool \<times> upb_MiniTable) cres" where
  "upb_MiniTable_SetSubMessage table field sub_ref sub =
     cassert (field < unat (mt_field_count table)) (cbind (upb_MiniTable_GetFieldByIndex table field) (\<lambda>f.
       let sub_is_map = mt_ext sub AND kUpb_ExtMode_IsMapEntry \<noteq> 0;
           set_sub = (\<lambda>f'.
             let idx = unat (f_submsg_index f) in
             cassert (idx < length (mt_subs table))
               (Ok (True, table\<lparr>mt_fields := (mt_fields table)[field := f'],
                                mt_subs := (mt_subs table)[idx := SubMsg sub_ref]\<rparr>)))
       in case f_descriptortype f of
            FT_Message \<Rightarrow>
              (if sub_is_map then
                 (if mt_ext table AND kUpb_ExtMode_IsMapEntry \<noteq> 0 then Ok (False, table)
                  else set_sub (f\<lparr>f_mode := (f_mode f AND NOT kUpb_FieldMode_Mask) OR kUpb_FieldMode_Map\<rparr>))
               else set_sub f)
          | FT_Group \<Rightarrow> if sub_is_map then Ok (False, table) else set_sub f
          | _ \<Rightarrow> Ok (False, table)))"

definition upb_MiniTable_SetSubEnum ::
    "upb_MiniTable \<Rightarrow> nat \<Rightarrow> upb_MiniTableEnum \<Rightarrow> (unit, bool \<times> upb_MiniTable) cres" where
  "upb_MiniTable_SetSubEnum table field sub =
     cassert (field < unat (mt_field_count table)) (cbind (upb_MiniTable_GetFieldByIndex table field) (\<lambda>f.
       if f_descriptortype f \<noteq> FT_Enum then Ok (False, table)
       else (let idx = unat (f_submsg_index f) in
             cassert (idx < length (mt_subs table))
               (Ok (True, table\<lparr>mt_subs := (mt_subs table)[idx := SubEnum sub]\<rparr>)))))"

text \<open>The indices of the fields that need a sub-message and of those that need an enum.\<close>

definition is_message_field :: "upb_MiniTable \<Rightarrow> nat \<Rightarrow> (unit, bool) cres" where
  "is_message_field m i =
     cbind (upb_MiniTable_GetFieldByIndex m i) (\<lambda>f.
     cbind (upb_MiniTableField_CType f) (\<lambda>t. Ok (t = CT_Message)))"

definition is_closed_enum_field :: "upb_MiniTable \<Rightarrow> nat \<Rightarrow> (unit, bool) cres" where
  "is_closed_enum_field m i =
     cbind (upb_MiniTable_GetFieldByIndex m i) (\<lambda>f. Ok (upb_MiniTableField_IsClosedEnum f))"

definition collect_fields ::
    "(nat \<Rightarrow> (unit, bool) cres) \<Rightarrow> nat \<Rightarrow> (unit, nat list) cres" where
  "collect_fields p n =
     fold_cres (\<lambda>i subs. cbind (p i) (\<lambda>b. Ok (if b then subs @ [i] else subs))) [0..<n] []"

definition upb_MiniTable_GetSubList :: "upb_MiniTable \<Rightarrow> (unit, nat list \<times> u32) cres" where
  "upb_MiniTable_GetSubList m =
     cbind (collect_fields (is_message_field m) (upb_MiniTable_FieldCount m)) (\<lambda>msgs.
     cbind (collect_fields (is_closed_enum_field m) (upb_MiniTable_FieldCount m)) (\<lambda>enums.
       Ok (msgs @ enums, push_bit 16 (of_nat (length msgs)) OR of_nat (length enums))))"

text \<open>The two loops of \<open>upb_MiniTable_Link\<close>: \<open>Fail ()\<close> is the early \<open>return false\<close> (the table may
  already have changed; callers give up on it), and a missing sub-table is \<open>NULL\<close>. The code reads
  \<open>sub_tables[msg_count]\<close> before it compares the count with \<open>sub_table_count\<close>, so a list that is too
  short is read behind its end: \<open>UB\<close>, before the \<open>return false\<close> that was meant for it.\<close>

definition link_messages ::
    "(nat \<times> upb_MiniTable) option list \<Rightarrow> nat \<Rightarrow> upb_MiniTable \<Rightarrow> (unit, upb_MiniTable \<times> nat) cres" where
  "link_messages subs n m0 =
     fold_cres (\<lambda>i (m, cnt).
       cbind (is_message_field m i) (\<lambda>b.
         if \<not> b then Ok (m, cnt)
         else cassert (cnt < length subs) (case subs ! cnt of
                 None \<Rightarrow> Ok (m, cnt + 1)
               | Some (r, sub) \<Rightarrow>
                   cbind (upb_MiniTable_SetSubMessage m i r sub) (\<lambda>(ok, m').
                     if ok then Ok (m', cnt + 1) else Fail ())))) [0..<n] (m0, 0)"

definition link_enums ::
    "upb_MiniTableEnum option list \<Rightarrow> nat \<Rightarrow> upb_MiniTable \<Rightarrow> (unit, upb_MiniTable \<times> nat) cres" where
  "link_enums subs n m0 =
     fold_cres (\<lambda>i (m, cnt).
       cbind (is_closed_enum_field m i) (\<lambda>b.
         if \<not> b then Ok (m, cnt)
         else cassert (cnt < length subs) (case subs ! cnt of
                 None \<Rightarrow> Ok (m, cnt + 1)
               | Some sub \<Rightarrow>
                   cbind (upb_MiniTable_SetSubEnum m i sub) (\<lambda>(ok, m').
                     if ok then Ok (m', cnt + 1) else Fail ())))) [0..<n] (m0, 0)"

definition upb_MiniTable_Link ::
    "upb_MiniTable \<Rightarrow> (nat \<times> upb_MiniTable) option list \<Rightarrow> upb_MiniTableEnum option list \<Rightarrow>
     (unit, upb_MiniTable) cres" where
  "upb_MiniTable_Link m sub_tables sub_enums =
     cbind (link_messages sub_tables (upb_MiniTable_FieldCount m) m) (\<lambda>(m1, msg_count).
     cbind (link_enums sub_enums (upb_MiniTable_FieldCount m1) m1) (\<lambda>(m2, enum_count).
       if msg_count = length sub_tables \<and> enum_count = length sub_enums then Ok m2 else Fail ()))"

section \<open>Finding a field, against the list of fields\<close>

text \<open>The fields are sorted by number, and the first \<open>dense_below\<close> of them have the numbers from 1.\<close>

definition fields_ok :: "upb_MiniTable \<Rightarrow> bool" where
  "fields_ok m \<longleftrightarrow> length (mt_fields m) = unat (mt_field_count m) \<and>
     sorted_wrt (<) (map f_number (mt_fields m)) \<and>
     unat (mt_dense_below m) \<le> length (mt_fields m) \<and>
     (\<forall>i < unat (mt_dense_below m). unat (f_number (mt_fields m ! i)) = i + 1)"

definition field_index :: "upb_MiniTableField list \<Rightarrow> u32 \<Rightarrow> nat option" where
  "field_index fs num = find (\<lambda>i. f_number (fs ! i) = num) [0..<length fs]"

lemma sorted_numbers_less:
  "sorted_wrt (<) (map f_number fs) \<Longrightarrow> i < j \<Longrightarrow> j < length fs \<Longrightarrow> f_number (fs ! i) < f_number (fs ! j)"
  by (auto simp: sorted_wrt_iff_nth_less)

lemma field_index_Some:
  assumes "sorted_wrt (<) (map f_number fs)" "i < length fs" "f_number (fs ! i) = num"
  shows "field_index fs num = Some i"
proof (cases "field_index fs num")
  case None
  then have "\<not> (\<exists>j. j \<in> set [0..<length fs] \<and> f_number (fs ! j) = num)"
    unfolding field_index_def find_None_iff .
  then have False using assms(2,3) by auto
  then show ?thesis ..
next
  case (Some j)
  then have j: "j < length fs" "f_number (fs ! j) = num" by (auto simp: field_index_def find_Some_iff)
  then have "i = j"
    using sorted_numbers_less [OF assms(1), of i j] sorted_numbers_less [OF assms(1), of j i] assms(2,3)
    by (cases i j rule: linorder_cases) auto
  then show ?thesis using Some by simp
qed

lemma field_index_None:
  "(\<And>i. i < length fs \<Longrightarrow> f_number (fs ! i) \<noteq> num) \<Longrightarrow> field_index fs num = None"
  by (auto simp: field_index_def find_None_iff)

lemma find_loop_eq:
  "sorted_wrt (<) (map f_number fs) \<Longrightarrow> 0 \<le> lo \<Longrightarrow> hi < int (length fs) \<Longrightarrow>
    (\<And>i. i < length fs \<Longrightarrow> f_number (fs ! i) = num \<Longrightarrow> lo \<le> int i \<and> int i \<le> hi) \<Longrightarrow>
    (find_loop fs num lo hi :: ('e, nat option) cres) = Ok (field_index fs num)"
proof (induction fs num lo hi rule: find_loop.induct)
  case (1 fs num lo hi)
  let ?mid = "(hi + lo) div 2"
  note less = sorted_numbers_less [OF "1.prems"(1)]
  show ?case
  proof (cases "hi \<ge> lo")
    case False
    then have "field_index fs num = None" using "1.prems"(4) by (intro field_index_None) fastforce
    then show ?thesis using False by (simp add: find_loop.simps)
  next
    case True
    then have mid: "lo \<le> ?mid" "?mid \<le> hi" "0 \<le> ?mid" "nat ?mid < length fs"
      using "1.prems"(2,3) by linarith+
    show ?thesis
    proof (cases "f_number (fs ! nat ?mid)" num rule: linorder_cases)
      case equal
      then show ?thesis
        using field_index_Some [OF "1.prems"(1) mid(4)] True mid by (simp add: find_loop.simps)
    next
      case ls: less
      have "?mid + 1 \<le> int i" if "i < length fs" "f_number (fs ! i) = num" for i
      proof (rule ccontr)
        assume "\<not> ?thesis"
        then have "i = nat ?mid \<or> i < nat ?mid" by linarith
        then show False using less [OF _ mid(4), of i] ls that by auto
      qed
      then have "(find_loop fs num (?mid + 1) hi :: ('e, nat option) cres) = Ok (field_index fs num)"
        using "1.IH"(1) [OF True refl refl _ ls] "1.prems" mid order_less_imp_not_eq [OF ls] by auto
      then show ?thesis using True mid ls by (subst find_loop.simps) (auto simp: Let_def)
    next
      case gt: greater
      have "int i \<le> ?mid - 1" if "i < length fs" "f_number (fs ! i) = num" for i
      proof (rule ccontr)
        assume "\<not> ?thesis"
        then have "i = nat ?mid \<or> nat ?mid < i" by linarith
        then show False using less [of "nat ?mid" i] gt that by auto
      qed
      then have "(find_loop fs num lo (?mid - 1) :: ('e, nat option) cres) = Ok (field_index fs num)"
        using "1.IH"(2) [OF True refl refl] "1.prems" mid gt by auto
      then show ?thesis using True mid gt by (subst find_loop.simps) (auto simp: Let_def)
    qed
  qed
qed

lemma FindFieldByNumber_eq:
  assumes "fields_ok m"
  shows "upb_MiniTable_FindFieldByNumber m num = Ok (field_index (mt_fields m) num)"
proof -
  let ?fs = "mt_fields m" and ?d = "unat (mt_dense_below m)"
  have sorted: "sorted_wrt (<) (map f_number ?fs)" and d: "?d \<le> length ?fs"
    and dense: "\<And>i. i < ?d \<Longrightarrow> unat (f_number (?fs ! i)) = i + 1"
    and len: "length ?fs = unat (mt_field_count m)"
    using assms by (auto simp: fields_ok_def)
  have d64: "unat (ucast (mt_dense_below m) :: u64) = ?d" by (simp add: unat_ucast_up)
  have n64: "unat (ucast num :: u64) = unat num" by (simp add: unat_ucast_up)
  have sub: "unat (ucast num - 1 :: u64) = unat num - 1" if "num \<noteq> 0"
  proof -
    have "(ucast num :: u64) \<noteq> 0" using that n64 by (metis unat_0 unat_eq_0)
    then show ?thesis using n64 by (simp add: unat_minus_one)
  qed
  show ?thesis
  proof (cases "ucast num - 1 < (ucast (mt_dense_below m) :: u64)")
    case True
    then have lt: "unat (ucast num - 1 :: u64) < ?d" by (simp add: word_less_nat_alt d64)
    have "num \<noteq> 0"
    proof
      assume "num = 0"
      then have "unat (ucast num - 1 :: u64) = 18446744073709551615" by (simp add: unsigned_minus_1_eq_mask mask_eq_exp_minus_1)
      then show False using lt unat_less_numeral_power(1) [of "mt_dense_below m"] by linarith
    qed
    then have i: "unat (ucast num - 1 :: u64) = unat num - 1" by (rule sub)
    then have "unat num - 1 < ?d" "0 < unat num" using lt \<open>num \<noteq> 0\<close> by (simp_all add: unat_gt_0)
    then have "unat (f_number (?fs ! (unat num - 1))) = unat num" using dense by simp
    then have num: "f_number (?fs ! (unat num - 1)) = num" by (simp add: word_unat_eq_iff)
    have "unat num - 1 < length ?fs" using lt d i by linarith
    then show ?thesis
      using True num field_index_Some [OF sorted _ num] by (simp add: upb_MiniTable_FindFieldByNumber_def i)
  next
    case False
    have ge: "?d \<le> i" if "i < length ?fs" "f_number (?fs ! i) = num" for i
    proof (rule ccontr)
      assume "\<not> ?thesis"
      then have lt: "i < ?d" by simp
      then have "unat num = i + 1" using dense [OF lt] that(2) by simp
      moreover from this have "num \<noteq> 0" by auto
      ultimately have "unat (ucast num - 1 :: u64) = i" using sub by simp
      then show False using False lt by (simp add: word_less_nat_alt d64)
    qed
    have range: "int ?d \<le> int i \<and> int i \<le> int (length ?fs) - 1"
      if "i < length ?fs" "f_number (?fs ! i) = num" for i
      using ge [OF that] that(1) by linarith
    have "find_loop ?fs num (int ?d) (int (length ?fs) - 1) = Ok (field_index ?fs num)"
      by (rule find_loop_eq [OF sorted _ _ range]) simp_all
    moreover have "uint (mt_dense_below m) = int ?d" "uint (mt_field_count m) = int (length ?fs)"
      by (simp_all add: len)
    ultimately show ?thesis
      using False by (simp only: upb_MiniTable_FindFieldByNumber_def Let_def if_False)
  qed
qed

section \<open>Properties\<close>

text \<open>C36: in a table whose fields are sorted by number and whose first fields are numbered
  densely, the search finds exactly the field with the number asked for, through the direct index as
  well as through the binary search, and stays inside the array.\<close>

theorem find_field_correct:
  fixes r :: "('e, nat option) cres"
  assumes "fields_ok m" "r = upb_MiniTable_FindFieldByNumber m num"
  shows "r \<noteq> UB \<and> (r = Ok (Some i) \<longleftrightarrow> i < length (mt_fields m) \<and> f_number (mt_fields m ! i) = num) \<and>
    (r = Ok None \<longleftrightarrow> num \<notin> f_number ` set (mt_fields m))"
proof -
  have sorted: "sorted_wrt (<) (map f_number (mt_fields m))" using assms by (simp add: fields_ok_def)
  have "field_index (mt_fields m) num = Some i \<longleftrightarrow> i < length (mt_fields m) \<and> f_number (mt_fields m ! i) = num"
    using field_index_Some [OF sorted] by (auto simp: field_index_def find_Some_iff)
  moreover have "field_index (mt_fields m) num = None \<longleftrightarrow> num \<notin> f_number ` set (mt_fields m)"
    by (auto simp: field_index_def find_None_iff set_conv_nth)
  ultimately show ?thesis by (simp add: assms(2) FindFieldByNumber_eq [OF assms(1)])
qed

definition numbered_field :: "u32 \<Rightarrow> upb_MiniTableField" where
  "numbered_field n = \<lparr>f_number = n, f_offset = 0, f_presence = 0, f_submsg_index = 0,
     f_descriptortype = FT_Int32, f_mode = 0\<rparr>"

definition small_table :: upb_MiniTable where
  "small_table = kUpb_MiniTable_Empty
     \<lparr>mt_fields := map numbered_field [1, 2, 7, 300], mt_field_count := 4, mt_dense_below := 2\<rparr>"

lemma all_less_two: "(\<forall>i<2::nat. P i) \<longleftrightarrow> P 0 \<and> P 1"
  by (auto dest: less_2_cases)

theorem find_field_correct_witness:
  "(upb_MiniTable_FindFieldByNumber small_table 300 :: (unit, nat option) cres) = Ok (Some 3)"
proof -
  have "fields_ok small_table"
    by (simp add: fields_ok_def small_table_def numbered_field_def all_less_two)
  from find_field_correct [OF this refl, where num = 300 and i = 3 and 'e = unit] show ?thesis
    by (simp add: small_table_def numbered_field_def)
qed

end
