(* ===== verification/Message.thy ===== *)
theory Message
  imports Array MiniTable
begin

text \<open>
  \<open>upb/message/internal/types.h\<close>, \<open>tagged_ptr.h\<close> and the accessors of the fields of a message from
  \<open>upb/message/internal/accessors.h\<close> and \<open>message.h\<close>. A message is a block of memory at \<open>msg\<close>: a header
  word, the presence bits, the case words of the oneofs and the values, where its mini table says. A
  \<open>upb_MessageValue\<close> is its bytes; \<open>float\<close> and \<open>double\<close> are their bit patterns. The host is
  little-endian, so \<open>upb_BigEndian64\<close> is the identity.
\<close>

section \<open>The header word\<close>

definition upb_Message_ShallowFreeze :: "mem \<Rightarrow> u64 \<Rightarrow> (unit, mem) cres" where
  "upb_Message_ShallowFreeze m msg = cbind (load64 m msg) (\<lambda>w. store64 m msg (w OR 1))"

definition upb_Message_IsFrozen :: "mem \<Rightarrow> u64 \<Rightarrow> (unit, bool) cres" where
  "upb_Message_IsFrozen m msg = cbind (load64 m msg) (\<lambda>w. Ok (w AND 1 \<noteq> 0))"

definition upb_Message_GetInternal :: "mem \<Rightarrow> u64 \<Rightarrow> (unit, u64) cres" where
  "upb_Message_GetInternal m msg = cbind (load64 m msg) (\<lambda>w. Ok (w AND NOT 1))"

text \<open>\<open>UPB_ASSERT(!upb_Message_IsFrozen(msg))\<close>.\<close>

definition assert_not_frozen :: "mem \<Rightarrow> u64 \<Rightarrow> (unit, 'a) cres \<Rightarrow> (unit, 'a) cres" where
  "assert_not_frozen m msg r = cbind (upb_Message_IsFrozen m msg) (\<lambda>frozen. cassert (\<not> frozen) r)"

definition upb_Message_SetInternal :: "mem \<Rightarrow> u64 \<Rightarrow> u64 \<Rightarrow> (unit, mem) cres" where
  "upb_Message_SetInternal m msg internal = assert_not_frozen m msg (store64 m msg internal)"

section \<open>Tagged pointers to messages\<close>

definition upb_TaggedMessagePtr_Pack :: "u64 \<Rightarrow> bool \<Rightarrow> (unit, u64) cres" where
  "upb_TaggedMessagePtr_Pack ptr emp = cassert (ptr AND 1 = 0) (Ok (ptr OR (if emp then 1 else 0)))"

definition upb_TaggedMessagePtr_IsEmpty :: "u64 \<Rightarrow> bool" where
  "upb_TaggedMessagePtr_IsEmpty ptr \<longleftrightarrow> ptr AND 1 \<noteq> 0"

definition upb_TaggedMessagePtr_GetMessage :: "u64 \<Rightarrow> u64" where
  "upb_TaggedMessagePtr_GetMessage ptr = ptr AND NOT 1"

definition upb_TaggedMessagePtr_GetNonEmptyMessage :: "u64 \<Rightarrow> (unit, u64) cres" where
  "upb_TaggedMessagePtr_GetNonEmptyMessage ptr =
     cassert (\<not> upb_TaggedMessagePtr_IsEmpty ptr) (Ok (upb_TaggedMessagePtr_GetMessage ptr))"

definition upb_TaggedMessagePtr_GetEmptyMessage :: "u64 \<Rightarrow> (unit, u64) cres" where
  "upb_TaggedMessagePtr_GetEmptyMessage ptr =
     cassert (upb_TaggedMessagePtr_IsEmpty ptr) (Ok (upb_TaggedMessagePtr_GetMessage ptr))"

section \<open>Presence bits\<close>

definition upb_Message_GetHasbit :: "mem \<Rightarrow> u64 \<Rightarrow> upb_MiniTableField \<Rightarrow> (unit, bool) cres" where
  "upb_Message_GetHasbit m msg f =
     cbind (upb_MiniTableField_HasbitOffset f) (\<lambda>offset.
     cbind (upb_MiniTableField_HasbitMask f) (\<lambda>mask.
     cbind (load8 m (msg + ucast offset)) (\<lambda>b. Ok (b AND mask \<noteq> 0))))"

definition upb_Message_SetHasbit :: "mem \<Rightarrow> u64 \<Rightarrow> upb_MiniTableField \<Rightarrow> (unit, mem) cres" where
  "upb_Message_SetHasbit m msg f =
     cbind (upb_MiniTableField_HasbitOffset f) (\<lambda>offset.
     cbind (upb_MiniTableField_HasbitMask f) (\<lambda>mask.
     cbind (load8 m (msg + ucast offset)) (\<lambda>b. store8 m (msg + ucast offset) (b OR mask))))"

definition upb_Message_ClearHasbit :: "mem \<Rightarrow> u64 \<Rightarrow> upb_MiniTableField \<Rightarrow> (unit, mem) cres" where
  "upb_Message_ClearHasbit m msg f =
     cbind (upb_MiniTableField_HasbitOffset f) (\<lambda>offset.
     cbind (upb_MiniTableField_HasbitMask f) (\<lambda>mask.
     cbind (load8 m (msg + ucast offset)) (\<lambda>b. store8 m (msg + ucast offset) (b AND NOT mask))))"

section \<open>Oneof cases\<close>

definition upb_Message_OneofCasePtr :: "u64 \<Rightarrow> upb_MiniTableField \<Rightarrow> (unit, u64) cres" where
  "upb_Message_OneofCasePtr msg f = cbind (upb_MiniTableField_OneofOffset f) (\<lambda>offset. Ok (msg + offset))"

definition upb_Message_GetOneofCase :: "mem \<Rightarrow> u64 \<Rightarrow> upb_MiniTableField \<Rightarrow> (unit, u32) cres" where
  "upb_Message_GetOneofCase m msg f = cbind (upb_Message_OneofCasePtr msg f) (load32 m)"

definition upb_Message_SetOneofCase :: "mem \<Rightarrow> u64 \<Rightarrow> upb_MiniTableField \<Rightarrow> (unit, mem) cres" where
  "upb_Message_SetOneofCase m msg f =
     cbind (upb_Message_OneofCasePtr msg f) (\<lambda>ptr. store32 m ptr (f_number f))"

definition upb_Message_ClearOneofCase :: "mem \<Rightarrow> u64 \<Rightarrow> upb_MiniTableField \<Rightarrow> (unit, bool \<times> mem) cres" where
  "upb_Message_ClearOneofCase m msg f =
     cbind (upb_Message_OneofCasePtr msg f) (\<lambda>ptr.
     cbind (load32 m ptr) (\<lambda>c.
       if c \<noteq> f_number f then Ok (False, m)
       else cbind (store32 m ptr 0) (\<lambda>m. Ok (True, m))))"

definition upb_Message_WhichOneofFieldNumber :: "mem \<Rightarrow> u64 \<Rightarrow> upb_MiniTableField \<Rightarrow> (unit, u32) cres" where
  "upb_Message_WhichOneofFieldNumber m msg f =
     cassert (upb_MiniTableField_IsInOneof f) (upb_Message_GetOneofCase m msg f)"

text \<open>The field found is an index into the table.\<close>

definition upb_Message_WhichOneof ::
    "mem \<Rightarrow> u64 \<Rightarrow> upb_MiniTable \<Rightarrow> upb_MiniTableField \<Rightarrow> (unit, nat option) cres" where
  "upb_Message_WhichOneof m msg t f =
     cbind (upb_Message_WhichOneofFieldNumber m msg f) (\<lambda>field_number.
       if field_number = 0 then Ok None else upb_MiniTable_FindFieldByNumber t field_number)"

section \<open>Presence\<close>

definition upb_Message_IsInitializedShallow :: "mem \<Rightarrow> u64 \<Rightarrow> upb_MiniTable \<Rightarrow> (unit, bool) cres" where
  "upb_Message_IsInitializedShallow m msg t =
     cbind (load64 m (msg + 8)) (\<lambda>bits.
     cbind (upb_MiniTable_RequiredMask t) (\<lambda>mask. Ok (mask AND NOT bits = 0)))"

definition upb_Message_DataPtr :: "u64 \<Rightarrow> upb_MiniTableField \<Rightarrow> u64" where
  "upb_Message_DataPtr msg f = msg + ucast (f_offset f)"

definition upb_Message_MutableDataPtr :: "u64 \<Rightarrow> upb_MiniTableField \<Rightarrow> u64" where
  "upb_Message_MutableDataPtr msg f = msg + ucast (f_offset f)"

definition upb_Message_SetPresence :: "mem \<Rightarrow> u64 \<Rightarrow> upb_MiniTableField \<Rightarrow> (unit, mem) cres" where
  "upb_Message_SetPresence m msg f =
     (if upb_MiniTableField_HasHasbit f then upb_Message_SetHasbit m msg f
      else if upb_MiniTableField_IsInOneof f then upb_Message_SetOneofCase m msg f
      else Ok m)"

definition upb_Message_HasBaseField :: "mem \<Rightarrow> u64 \<Rightarrow> upb_MiniTableField \<Rightarrow> (unit, bool) cres" where
  "upb_Message_HasBaseField m msg f =
     cassert (upb_MiniTableField_HasPresence f \<and> \<not> upb_MiniTableField_IsExtension f)
       (if upb_MiniTableField_IsInOneof f then
          cbind (upb_Message_GetOneofCase m msg f) (\<lambda>c. Ok (c = f_number f))
        else upb_Message_GetHasbit m msg f)"

section \<open>Values\<close>

text \<open>The number of bytes in each branch of \<open>upb_MiniTableField_DataCopy\<close>.\<close>

definition data_size :: "upb_MiniTableField \<Rightarrow> (unit, nat) cres" where
  "data_size f =
     (let rep = upb_MiniTableField_GetRep f in
      if rep = kUpb_FieldRep_1Byte then Ok 1
      else if rep = kUpb_FieldRep_4Byte then Ok 4
      else if rep = kUpb_FieldRep_8Byte then Ok 8
      else if rep = kUpb_FieldRep_StringView then Ok 16
      else UB)"

text \<open>A copy from the bytes of a local variable to memory, to a local variable, and from memory.\<close>

definition upb_MiniTableField_DataCopy :: "mem \<Rightarrow> upb_MiniTableField \<Rightarrow> u64 \<Rightarrow> bytes \<Rightarrow> (unit, mem) cres" where
  "upb_MiniTableField_DataCopy m f to from =
     cbind (data_size f) (\<lambda>n. cassert (n \<le> length from) (store m to (take n from)))"

definition upb_MiniTableField_DataCopy_local :: "upb_MiniTableField \<Rightarrow> bytes \<Rightarrow> (unit, bytes) cres" where
  "upb_MiniTableField_DataCopy_local f from =
     cbind (data_size f) (\<lambda>n. cassert (n \<le> length from) (Ok (take n from)))"

definition upb_MiniTableField_DataLoad :: "mem \<Rightarrow> upb_MiniTableField \<Rightarrow> u64 \<Rightarrow> (unit, bytes) cres" where
  "upb_MiniTableField_DataLoad m f from = cbind (data_size f) (load m from)"

text \<open>\<open>upb_StringView_IsEqual\<close> of two views given by their bytes: the data pointer and the size.\<close>

definition string_views_equal :: "mem \<Rightarrow> bytes \<Rightarrow> bytes \<Rightarrow> (unit, bool) cres" where
  "string_views_equal m a b =
     (let a_data = le_word (take 8 a); a_size = le_word (take 8 (drop 8 a));
          b_data = le_word (take 8 b); b_size = le_word (take 8 (drop 8 b))
      in if a_size \<noteq> b_size then Ok False
         else if a_size = 0 then Ok True
         else
           cbind (load m a_data (unat a_size)) (\<lambda>xs.
           cbind (load m b_data (unat b_size)) (\<lambda>ys. Ok (xs = ys))))"

definition upb_MiniTableField_DataEquals ::
    "mem \<Rightarrow> upb_MiniTableField \<Rightarrow> bytes \<Rightarrow> bytes \<Rightarrow> (unit, bool) cres" where
  "upb_MiniTableField_DataEquals m f a b =
     cbind (data_size f) (\<lambda>n. cassert (n \<le> length a \<and> n \<le> length b)
       (if upb_MiniTableField_GetRep f = kUpb_FieldRep_StringView then string_views_equal m a b
        else Ok (take n a = take n b)))"

definition upb_MiniTableField_DataClear :: "mem \<Rightarrow> upb_MiniTableField \<Rightarrow> u64 \<Rightarrow> (unit, mem) cres" where
  "upb_MiniTableField_DataClear m f val = upb_MiniTableField_DataCopy m f val (replicate 16 0)"

definition upb_MiniTableField_DataIsZero :: "mem \<Rightarrow> upb_MiniTableField \<Rightarrow> bytes \<Rightarrow> (unit, bool) cres" where
  "upb_MiniTableField_DataIsZero m f val = upb_MiniTableField_DataEquals m f val (replicate 16 0)"

section \<open>Fields\<close>

definition upb_Message_GetNonExtensionField ::
    "mem \<Rightarrow> u64 \<Rightarrow> upb_MiniTableField \<Rightarrow> bytes \<Rightarrow> (unit, bytes) cres" where
  "upb_Message_GetNonExtensionField m msg f default_val =
     cassert (\<not> upb_MiniTableField_IsExtension f)
       (cbind
          (if upb_MiniTableField_IsInOneof f then Ok True
           else cbind (upb_MiniTableField_DataIsZero m f default_val) (\<lambda>zero. Ok (\<not> zero)))
          (\<lambda>check.
            cbind (if check then cbind (upb_Message_HasBaseField m msg f) (\<lambda>has. Ok (\<not> has)) else Ok False)
              (\<lambda>use_default.
                if use_default then upb_MiniTableField_DataCopy_local f default_val
                else upb_MiniTableField_DataLoad m f (upb_Message_DataPtr msg f))))"

definition upb_Message_SetBaseField :: "mem \<Rightarrow> u64 \<Rightarrow> upb_MiniTableField \<Rightarrow> bytes \<Rightarrow> (unit, mem) cres" where
  "upb_Message_SetBaseField m msg f val =
     assert_not_frozen m msg
       (cassert (\<not> upb_MiniTableField_IsExtension f)
         (cbind (upb_Message_SetPresence m msg f) (\<lambda>m.
            upb_MiniTableField_DataCopy m f (upb_Message_MutableDataPtr msg f) val)))"

definition upb_Message_ClearBaseField :: "mem \<Rightarrow> u64 \<Rightarrow> upb_MiniTableField \<Rightarrow> (unit, mem) cres" where
  "upb_Message_ClearBaseField m msg f =
     assert_not_frozen m msg
       (let zeros = replicate 16 0;
            clear_data = (\<lambda>m. upb_MiniTableField_DataCopy m f (upb_Message_MutableDataPtr msg f) zeros)
        in if upb_MiniTableField_HasHasbit f then cbind (upb_Message_ClearHasbit m msg f) clear_data
           else if upb_MiniTableField_IsInOneof f then
             cbind (upb_Message_OneofCasePtr msg f) (\<lambda>ptr.
             cbind (load32 m ptr) (\<lambda>c.
               if c \<noteq> f_number f then Ok m else cbind (store32 m ptr 0) clear_data))
           else clear_data m)"

text \<open>A field number without a field gives a null pointer, which is dereferenced.\<close>

definition upb_Message_ClearOneof ::
    "mem \<Rightarrow> u64 \<Rightarrow> upb_MiniTable \<Rightarrow> upb_MiniTableField \<Rightarrow> (unit, mem) cres" where
  "upb_Message_ClearOneof m msg t f =
     assert_not_frozen m msg
       (cbind (upb_Message_WhichOneofFieldNumber m msg f) (\<lambda>field_number.
          if field_number = 0 then Ok m
          else
            cbind (upb_MiniTable_FindFieldByNumber t field_number) (\<lambda>i.
              case i of None \<Rightarrow> UB | Some i \<Rightarrow> upb_Message_ClearBaseField m msg (mt_fields t ! i))))"

text \<open>\<open>memset\<close> overwrites the pointer to the internal data, of which the size is then set to 0.\<close>

definition upb_Message_Clear :: "mem \<Rightarrow> u64 \<Rightarrow> upb_MiniTable \<Rightarrow> (unit, mem) cres" where
  "upb_Message_Clear m msg t =
     assert_not_frozen m msg
       (cbind (upb_Message_GetInternal m msg) (\<lambda>internal.
        cbind (store m msg (replicate (unat (mt_size t)) 0)) (\<lambda>m.
          if internal \<noteq> 0 then store32 m internal 0 else Ok m)))"

definition upb_Message_New :: "'x sys_malloc \<Rightarrow> upb_MiniTable \<Rightarrow> 'x heap \<Rightarrow> (unit, u64 \<times> 'x heap) cres" where
  "upb_Message_New f t h =
     (let size = unat (mt_size t) in
      cbind (upb_Arena_Malloc f (of_nat size) h) (\<lambda>(msg, h).
        if msg = 0 then Ok (0, h)
        else cbind (store (h_mem h) msg (replicate size 0)) (\<lambda>m. Ok (msg, h\<lparr>h_mem := m\<rparr>))))"

section \<open>Typed accessors\<close>

text \<open>The \<open>UPB_ASSUME\<close>s at their start.\<close>

definition assume_type ::
    "upb_MiniTableField \<Rightarrow> upb_CType list \<Rightarrow> nat \<Rightarrow> (unit, 'a) cres \<Rightarrow> (unit, 'a) cres" where
  "assume_type f types rep r =
     cbind (upb_MiniTableField_CType f) (\<lambda>t.
       cassert (list_ex ((=) t) types \<and> upb_MiniTableField_IsScalar f \<and> upb_MiniTableField_GetRep f = rep) r)"

definition upb_Message_SetBaseFieldBool :: "mem \<Rightarrow> u64 \<Rightarrow> upb_MiniTableField \<Rightarrow> bool \<Rightarrow> (unit, mem) cres" where
  "upb_Message_SetBaseFieldBool m msg f value =
     assume_type f [CT_Bool] kUpb_FieldRep_1Byte (upb_Message_SetBaseField m msg f [if value then 1 else 0])"

definition upb_Message_SetBaseFieldDouble :: "mem \<Rightarrow> u64 \<Rightarrow> upb_MiniTableField \<Rightarrow> u64 \<Rightarrow> (unit, mem) cres" where
  "upb_Message_SetBaseFieldDouble m msg f value =
     assume_type f [CT_Double] kUpb_FieldRep_8Byte (upb_Message_SetBaseField m msg f (le_bytes 8 value))"

definition upb_Message_SetBaseFieldFloat :: "mem \<Rightarrow> u64 \<Rightarrow> upb_MiniTableField \<Rightarrow> u32 \<Rightarrow> (unit, mem) cres" where
  "upb_Message_SetBaseFieldFloat m msg f value =
     assume_type f [CT_Float] kUpb_FieldRep_4Byte (upb_Message_SetBaseField m msg f (le_bytes 4 (ucast value)))"

definition upb_Message_SetBaseFieldInt32 :: "mem \<Rightarrow> u64 \<Rightarrow> upb_MiniTableField \<Rightarrow> u32 \<Rightarrow> (unit, mem) cres" where
  "upb_Message_SetBaseFieldInt32 m msg f value =
     assume_type f [CT_Int32, CT_Enum] kUpb_FieldRep_4Byte
       (upb_Message_SetBaseField m msg f (le_bytes 4 (ucast value)))"

definition upb_Message_SetBaseFieldInt64 :: "mem \<Rightarrow> u64 \<Rightarrow> upb_MiniTableField \<Rightarrow> u64 \<Rightarrow> (unit, mem) cres" where
  "upb_Message_SetBaseFieldInt64 m msg f value =
     assume_type f [CT_Int64] kUpb_FieldRep_8Byte (upb_Message_SetBaseField m msg f (le_bytes 8 value))"

definition upb_Message_SetBaseFieldUInt32 :: "mem \<Rightarrow> u64 \<Rightarrow> upb_MiniTableField \<Rightarrow> u32 \<Rightarrow> (unit, mem) cres" where
  "upb_Message_SetBaseFieldUInt32 m msg f value =
     assume_type f [CT_UInt32] kUpb_FieldRep_4Byte (upb_Message_SetBaseField m msg f (le_bytes 4 (ucast value)))"

definition upb_Message_SetBaseFieldUInt64 :: "mem \<Rightarrow> u64 \<Rightarrow> upb_MiniTableField \<Rightarrow> u64 \<Rightarrow> (unit, mem) cres" where
  "upb_Message_SetBaseFieldUInt64 m msg f value =
     assume_type f [CT_UInt64] kUpb_FieldRep_8Byte (upb_Message_SetBaseField m msg f (le_bytes 8 value))"

definition upb_Message_SetBaseFieldString ::
    "mem \<Rightarrow> u64 \<Rightarrow> upb_MiniTableField \<Rightarrow> u64 \<Rightarrow> u64 \<Rightarrow> (unit, mem) cres" where
  "upb_Message_SetBaseFieldString m msg f data sz =
     assume_type f [CT_String, CT_Bytes] kUpb_FieldRep_StringView
       (upb_Message_SetBaseField m msg f (le_bytes 8 data @ le_bytes 8 sz))"

definition upb_Message_SetTaggedMessagePtr ::
    "mem \<Rightarrow> u64 \<Rightarrow> upb_MiniTableField \<Rightarrow> u64 \<Rightarrow> (unit, mem) cres" where
  "upb_Message_SetTaggedMessagePtr m msg f sub_message =
     assume_type f [CT_Message] kUpb_FieldRep_8Byte (upb_Message_SetBaseField m msg f (le_bytes 8 sub_message))"

definition upb_Message_SetBaseFieldMessage ::
    "mem \<Rightarrow> u64 \<Rightarrow> upb_MiniTableField \<Rightarrow> u64 \<Rightarrow> (unit, mem) cres" where
  "upb_Message_SetBaseFieldMessage m msg f value =
     cbind (upb_TaggedMessagePtr_Pack value False) (upb_Message_SetTaggedMessagePtr m msg f)"

definition upb_Message_SetMessage :: "mem \<Rightarrow> u64 \<Rightarrow> upb_MiniTableField \<Rightarrow> u64 \<Rightarrow> (unit, mem) cres" where
  "upb_Message_SetMessage m msg f value =
     cassert (\<not> upb_MiniTableField_IsExtension f) (upb_Message_SetBaseFieldMessage m msg f value)"

text \<open>The sub-table of a closed enum must be linked.\<close>

definition upb_Message_SetClosedEnum ::
    "mem \<Rightarrow> u64 \<Rightarrow> upb_MiniTable \<Rightarrow> upb_MiniTableField \<Rightarrow> u32 \<Rightarrow> (unit, mem) cres" where
  "upb_Message_SetClosedEnum m msg t f value =
     cassert (upb_MiniTableField_IsClosedEnum f \<and> upb_MiniTableField_GetRep f = kUpb_FieldRep_4Byte)
       (cbind (upb_MiniTable_GetSubEnumTable t f) (\<lambda>e.
          case e of
            None \<Rightarrow> UB
          | Some e \<Rightarrow>
              cbind (upb_MiniTableEnum_CheckValue e value) (\<lambda>ok. cassert ok
                (upb_Message_SetBaseField m msg f (le_bytes 4 (ucast value))))))"

definition upb_Message_GetArray :: "mem \<Rightarrow> u64 \<Rightarrow> upb_MiniTableField \<Rightarrow> (unit, u64) cres" where
  "upb_Message_GetArray m msg f =
     cassert (upb_MiniTableField_CheckIsArray f)
       (cbind (upb_Message_GetNonExtensionField m msg f (replicate 8 0)) (\<lambda>v. Ok (le_word v)))"

definition upb_Message_GetTaggedMessagePtr ::
    "mem \<Rightarrow> u64 \<Rightarrow> upb_MiniTableField \<Rightarrow> u64 \<Rightarrow> (unit, u64) cres" where
  "upb_Message_GetTaggedMessagePtr m msg f default_val =
     assume_type f [CT_Message] kUpb_FieldRep_8Byte
       (cbind (upb_Message_GetNonExtensionField m msg f (le_bytes 8 default_val)) (\<lambda>v. Ok (le_word v)))"

definition upb_Message_GetMessage :: "mem \<Rightarrow> u64 \<Rightarrow> upb_MiniTableField \<Rightarrow> (unit, u64) cres" where
  "upb_Message_GetMessage m msg f =
     cbind (upb_Message_GetTaggedMessagePtr m msg f 0) upb_TaggedMessagePtr_GetNonEmptyMessage"

definition upb_Message_GetMutableArray :: "mem \<Rightarrow> u64 \<Rightarrow> upb_MiniTableField \<Rightarrow> (unit, u64) cres" where
  "upb_Message_GetMutableArray m msg f =
     cassert (upb_MiniTableField_CheckIsArray f) (upb_Message_GetArray m msg f)"

definition upb_Message_GetMutableMessage :: "mem \<Rightarrow> u64 \<Rightarrow> upb_MiniTableField \<Rightarrow> (unit, u64) cres" where
  "upb_Message_GetMutableMessage m msg f = upb_Message_GetMessage m msg f"

section \<open>Creating what a field points to\<close>

text \<open>The field is also set when there is no memory, to \<open>NULL\<close>.\<close>

definition upb_Message_GetOrCreateMutableArray ::
    "'x sys_malloc \<Rightarrow> u64 \<Rightarrow> upb_MiniTableField \<Rightarrow> 'x heap \<Rightarrow> (unit, u64 \<times> 'x heap) cres" where
  "upb_Message_GetOrCreateMutableArray f msg field h =
     cassert (upb_MiniTableField_CheckIsArray field)
       (cbind (upb_Message_GetMutableArray (h_mem h) msg field) (\<lambda>arr.
          if arr \<noteq> 0 then Ok (arr, h)
          else
            cbind (upb_MiniTableField_ElemSizeLg2 True field) (\<lambda>lg2.
            cbind (upb_Array_New_lg2 f 4 lg2 h) (\<lambda>(arr, h).
            cbind (upb_Message_SetBaseField (h_mem h) msg field (le_bytes 8 arr)) (\<lambda>m.
              Ok (arr, h\<lparr>h_mem := m\<rparr>))))))"

definition upb_Message_ResizeArrayUninitialized ::
    "'x sys_malloc \<Rightarrow> u64 \<Rightarrow> upb_MiniTableField \<Rightarrow> u64 \<Rightarrow> 'x heap \<Rightarrow> (unit, u64 \<times> 'x heap) cres" where
  "upb_Message_ResizeArrayUninitialized f msg field sz h =
     cassert (upb_MiniTableField_CheckIsArray field)
       (cbind (upb_Message_GetOrCreateMutableArray f msg field h) (\<lambda>(arr, h).
          if arr = 0 then Ok (0, h)
          else
            cbind (upb_Array_ResizeUninitialized f arr sz h) (\<lambda>(ok, h).
              if \<not> ok then Ok (0, h)
              else cbind (upb_Array_MutableDataPtr (h_mem h) arr) (\<lambda>data. Ok (data, h)))))"

text \<open>\<open>tables\<close> are the mini tables that the references stand for.\<close>

definition upb_Message_GetOrCreateMutableMessage ::
    "'x sys_malloc \<Rightarrow> (nat \<Rightarrow> upb_MiniTable) \<Rightarrow> u64 \<Rightarrow> upb_MiniTable \<Rightarrow> upb_MiniTableField \<Rightarrow> 'x heap \<Rightarrow>
     (unit, u64 \<times> 'x heap) cres" where
  "upb_Message_GetOrCreateMutableMessage f tables msg mini_table field h =
     cbind (upb_MiniTableField_CType field) (\<lambda>type.
       cassert (type = CT_Message \<and> \<not> upb_MiniTableField_IsExtension field)
         (cbind (load64 (h_mem h) (msg + ucast (f_offset field))) (\<lambda>sub_message.
            if sub_message \<noteq> 0 then Ok (sub_message, h)
            else
              cbind (upb_MiniTable_SubMessage mini_table field) (\<lambda>sub_mini_table.
                case sub_mini_table of
                  None \<Rightarrow> UB
                | Some s \<Rightarrow>
                    cbind (upb_Message_New f (tables s) h) (\<lambda>(sub_message, h).
                    cbind (store64 (h_mem h) (msg + ucast (f_offset field)) sub_message) (\<lambda>m.
                    cbind (upb_Message_SetPresence m msg field) (\<lambda>m.
                      Ok (sub_message, h\<lparr>h_mem := m\<rparr>)))))))) "

end
