(* ===== verification/Table.thy ===== *)
theory Table
  imports Base
begin

text \<open>
  The shared part of \<open>upb/hash/common.c\<close> and \<open>common.h\<close>: a chained hash table whose nodes
  live in one array (coalesced chaining with eviction, as in Lua). Pointers between entries are
  indices into the array, \<open>NULL\<close> is \<open>None\<close>. An access outside the array, a null dereference,
  a failed \<open>UPB_ASSERT\<close> or a walk that follows a cyclic chain for ever is \<open>UB\<close>.
\<close>

section \<open>Data\<close>

text \<open>A key is an integer or a string owned by the table; the zero word marks an empty entry. A
  lookup key is one or the other as well.\<close>

datatype upb_key = KeyNum u64 | KeyStr bytes

definition upb_key_empty :: upb_key where
  "upb_key_empty = KeyNum 0"

record upb_tabent =
  ent_val :: u64
  ent_key :: upb_key
  ent_next :: "nat option"

record upb_table =
  entries :: "upb_tabent list"
  tab_count :: u32
  tab_mask :: u32

definition upb_tabent_isempty :: "upb_tabent \<Rightarrow> bool" where
  "upb_tabent_isempty e \<longleftrightarrow> ent_key e = upb_key_empty"

definition zero_ent :: upb_tabent where
  "zero_ent = \<lparr>ent_val = 0, ent_key = upb_key_empty, ent_next = None\<rparr>"

definition upb_table_size :: "upb_table \<Rightarrow> nat" where
  "upb_table_size t = unat (tab_mask t + 1)"

definition ent_at :: "upb_tabent list \<Rightarrow> nat \<Rightarrow> (unit, upb_tabent) cres" where
  "ent_at es i = cassert (i < length es) (Ok (es ! i))"

type_synonym hashfunc_t = "upb_key \<Rightarrow> (unit, u32) cres"
type_synonym eqlfunc_t = "upb_key \<Rightarrow> upb_key \<Rightarrow> (unit, bool) cres"

section \<open>Operations\<close>

definition getentry :: "upb_table \<Rightarrow> u32 \<Rightarrow> nat" where
  "getentry t hash = unat (hash AND tab_mask t)"

definition isfull :: "upb_table \<Rightarrow> bool" where
  "isfull t \<longleftrightarrow>
     (let size = of_nat (upb_table_size t) :: u32
      in tab_count t = size - drop_bit 3 size)"

text \<open>An entry has 24 bytes; no table is made when \<open>init\<close> fails.\<close>

definition table_init :: "'a malloc \<Rightarrow> nat \<Rightarrow> 'a \<Rightarrow> upb_table option \<times> 'a" where
  "table_init malloc size_lg2 a =
     (if size_lg2 \<ge> 32 then (None, a)
      else
        (let size = 2 ^ size_lg2 in
         case malloc (size * 24) a of
           (ok, a') \<Rightarrow>
             if ok then (Some \<lparr>entries = replicate size zero_ent, tab_count = 0,
                               tab_mask = of_nat size - 1\<rparr>, a')
             else (None, a')))"

text \<open>The two loops of \<open>emptyent\<close>: the entries behind \<open>e\<close>, then all from the start.\<close>

definition emptyent :: "upb_tabent list \<Rightarrow> nat \<Rightarrow> (unit, nat) cres" where
  "emptyent es e =
     (case find (\<lambda>i. upb_tabent_isempty (es ! i)) ([e + 1..<length es] @ [0..<length es]) of
        Some i \<Rightarrow> Ok i | None \<Rightarrow> UB)"

text \<open>The loop over a chain. No chain is longer than the array, so a walk that uses up
  \<open>fuel = length es\<close> would never end.\<close>

fun findentry_loop ::
    "eqlfunc_t \<Rightarrow> upb_tabent list \<Rightarrow> nat \<Rightarrow> upb_key \<Rightarrow> nat \<Rightarrow> (unit, nat option) cres" where
  "findentry_loop eql es 0 key e = UB"
| "findentry_loop eql es (Suc n) key e =
     cbind (ent_at es e) (\<lambda>x. cbind (eql (ent_key x) key) (\<lambda>b.
       if b then Ok (Some e)
       else (case ent_next x of None \<Rightarrow> Ok None | Some e' \<Rightarrow> findentry_loop eql es n key e')))"

definition findentry :: "eqlfunc_t \<Rightarrow> upb_table \<Rightarrow> upb_key \<Rightarrow> u32 \<Rightarrow> (unit, nat option) cres" where
  "findentry eql t key hash =
     (if tab_count t = 0 then Ok None
      else
        (let e = getentry t hash in
         cbind (ent_at (entries t) e) (\<lambda>x.
           if upb_tabent_isempty x then Ok None
           else findentry_loop eql (entries t) (length (entries t)) key e)))"

definition table_lookup :: "eqlfunc_t \<Rightarrow> upb_table \<Rightarrow> upb_key \<Rightarrow> u32 \<Rightarrow> (unit, u64 option) cres" where
  "table_lookup eql t key hash =
     cbind (findentry eql t key hash) (\<lambda>r.
       case r of None \<Rightarrow> Ok None | Some e \<Rightarrow> cbind (ent_at (entries t) e) (\<lambda>x. Ok (Some (ent_val x))))"

text \<open>\<open>while (chain->next != mainpos_e) chain = chain->next\<close>.\<close>

fun find_prev :: "upb_tabent list \<Rightarrow> nat \<Rightarrow> nat \<Rightarrow> nat \<Rightarrow> (unit, nat) cres" where
  "find_prev es 0 target chain = UB"
| "find_prev es (Suc n) target chain =
     cbind (ent_at es chain) (\<lambda>x.
       if ent_next x = Some target then Ok chain
       else (case ent_next x of None \<Rightarrow> UB | Some chain' \<Rightarrow> find_prev es n target chain'))"

definition upd_ent :: "nat \<Rightarrow> (upb_tabent \<Rightarrow> upb_tabent) \<Rightarrow> upb_tabent list \<Rightarrow> upb_tabent list" where
  "upd_ent i f es = es[i := f (es ! i)]"

text \<open>\<open>insert\<close> up to the assignment of the key and value: the entries rearranged, and \<open>our_e\<close>.\<close>

definition insert_place ::
    "hashfunc_t \<Rightarrow> upb_table \<Rightarrow> u32 \<Rightarrow> (unit, upb_tabent list \<times> nat) cres" where
  "insert_place hashfunc t hash =
     (let es = entries t; mainpos_e = getentry t hash in
      cbind (ent_at es mainpos_e) (\<lambda>m.
        if upb_tabent_isempty m
        then Ok (upd_ent mainpos_e (ent_next_update (\<lambda>_. None)) es, mainpos_e)
        else
          cbind (emptyent es mainpos_e) (\<lambda>new_e.
          cbind (hashfunc (ent_key m)) (\<lambda>h.
            let chain = getentry t h in
            if chain = mainpos_e
            then Ok (upd_ent mainpos_e (ent_next_update (\<lambda>_. Some new_e))
                       (upd_ent new_e (ent_next_update (\<lambda>_. ent_next m)) es), new_e)
            else
              (let es' = es[new_e := m] in
               cbind (find_prev es' (length es') mainpos_e chain) (\<lambda>prev.
                 Ok (upd_ent mainpos_e (ent_next_update (\<lambda>_. None))
                       (upd_ent prev (ent_next_update (\<lambda>_. Some new_e)) es'), mainpos_e)))))))"

definition table_insert ::
    "hashfunc_t \<Rightarrow> eqlfunc_t \<Rightarrow> upb_table \<Rightarrow> upb_key \<Rightarrow> upb_key \<Rightarrow> u64 \<Rightarrow> u32 \<Rightarrow>
     (unit, upb_table) cres" where
  "table_insert hashfunc eql t key tabkey val hash =
     cbind (findentry eql t key hash) (\<lambda>r. cassert (r = None)
       (let t1 = t\<lparr>tab_count := tab_count t + 1\<rparr> in
        cbind (insert_place hashfunc t1 hash) (\<lambda>(es, our_e).
          let t2 = t1\<lparr>entries := upd_ent our_e (\<lambda>e. e\<lparr>ent_key := tabkey, ent_val := val\<rparr>) es\<rparr> in
          cbind (findentry eql t2 key hash) (\<lambda>r. cassert (r = Some our_e) (Ok t2)))))"

text \<open>The loop of \<open>rm\<close>: \<open>while (chain->next && !eql(chain->next->key, key)) chain = chain->next\<close>,
  giving \<open>chain\<close>.\<close>

fun rm_loop :: "eqlfunc_t \<Rightarrow> upb_tabent list \<Rightarrow> nat \<Rightarrow> upb_key \<Rightarrow> nat \<Rightarrow> (unit, nat) cres" where
  "rm_loop eql es 0 key chain = UB"
| "rm_loop eql es (Suc n) key chain =
     cbind (ent_at es chain) (\<lambda>c.
       case ent_next c of
         None \<Rightarrow> Ok chain
       | Some nx \<Rightarrow> cbind (ent_at es nx) (\<lambda>x. cbind (eql (ent_key x) key) (\<lambda>b.
           if b then Ok chain else rm_loop eql es n key nx)))"

definition table_rm :: "eqlfunc_t \<Rightarrow> upb_table \<Rightarrow> upb_key \<Rightarrow> u32 \<Rightarrow>
    (unit, upb_table \<times> u64 option) cres" where
  "table_rm eql t key hash =
     (let es = entries t; chain = getentry t hash in
      cbind (ent_at es chain) (\<lambda>c.
        if upb_tabent_isempty c then Ok (t, None)
        else cbind (eql (ent_key c) key) (\<lambda>b.
          if b then
            (case ent_next c of
               Some move \<Rightarrow> cbind (ent_at es move) (\<lambda>m.
                 Ok (t\<lparr>tab_count := tab_count t - 1,
                       entries := upd_ent move (ent_key_update (\<lambda>_. upb_key_empty)) (es[chain := m])\<rparr>,
                     Some (ent_val c)))
             | None \<Rightarrow>
                 Ok (t\<lparr>tab_count := tab_count t - 1,
                       entries := upd_ent chain (ent_key_update (\<lambda>_. upb_key_empty)) es\<rparr>,
                     Some (ent_val c)))
          else
            cbind (rm_loop eql es (length es) key chain) (\<lambda>chain.
            cbind (ent_at es chain) (\<lambda>c.
              case ent_next c of
                Some rm \<Rightarrow> cbind (ent_at es rm) (\<lambda>r.
                  Ok (t\<lparr>tab_count := tab_count t - 1,
                        entries := upd_ent chain (ent_next_update (\<lambda>_. ent_next r))
                          (upd_ent rm (ent_key_update (\<lambda>_. upb_key_empty)) es)\<rparr>,
                      Some (ent_val r)))
              | None \<Rightarrow> Ok (t, None))))))"

text \<open>\<open>memset\<close> of all entries, and the loop for the predecessor with the removal in
  \<open>upb_strtable_removeiter\<close> and \<open>upb_inttable_removeiter\<close>.\<close>

definition table_clear :: "upb_table \<Rightarrow> upb_table" where
  "table_clear t = t\<lparr>tab_count := 0, entries := replicate (upb_table_size t) zero_ent\<rparr>"

definition table_removeiter :: "upb_table \<Rightarrow> nat \<Rightarrow> (unit, upb_table) cres" where
  "table_removeiter t i =
     cbind (ent_at (entries t) i) (\<lambda>ent.
       let es = entries t;
           es' = (case find (\<lambda>e. ent_next (es ! e) = Some i) [0..<length es] of
                    Some prev \<Rightarrow> upd_ent prev (ent_next_update (\<lambda>_. ent_next ent)) es
                  | None \<Rightarrow> es)
       in Ok (t\<lparr>tab_count := tab_count t - 1,
                entries := upd_ent i (\<lambda>e. e\<lparr>ent_key := upb_key_empty, ent_next := None\<rparr>) es'\<rparr>))"

definition table_setentryvalue :: "upb_table \<Rightarrow> nat \<Rightarrow> u64 \<Rightarrow> (unit, upb_table) cres" where
  "table_setentryvalue t i v =
     cbind (ent_at (entries t) i) (\<lambda>_. Ok (t\<lparr>entries := upd_ent i (ent_val_update (\<lambda>_. v)) (entries t)\<rparr>))"

text \<open>\<open>_upb_popcnt32\<close> and \<open>_upb_log2_table_size\<close>.\<close>

function upb_popcnt32 :: "u32 \<Rightarrow> nat" where
  "upb_popcnt32 i = (if i = 0 then 0 else unat (i AND 1) + upb_popcnt32 (drop_bit 1 i))"
  by pat_completeness auto
termination
proof (relation "measure unat", goal_cases)
  case (2 i)
  then have "0 < unat i" by (simp add: unat_gt_0)
  then show ?case by (simp only: in_measure unat_drop_bit_div) simp
qed simp

declare upb_popcnt32.simps [simp del]

definition upb_log2_table_size :: "upb_table \<Rightarrow> nat" where
  "upb_log2_table_size t = upb_popcnt32 (tab_mask t)"

text \<open>\<open>next\<close>: the first entry in use behind index \<open>i\<close>; \<open>SIZE_MAX - 1\<close> when there is none.\<close>

function next_loop :: "upb_table \<Rightarrow> nat \<Rightarrow> u64" where
  "next_loop t i =
     (if i \<ge> upb_table_size t then - 2
      else if i < length (entries t) \<and> upb_tabent_isempty (entries t ! i) then next_loop t (Suc i)
      else of_nat i)"
  by pat_completeness auto
termination
  by (relation "measure (\<lambda>(t, i). upb_table_size t - i)") auto

declare next_loop.simps [simp del]

definition table_next :: "upb_table \<Rightarrow> u64 \<Rightarrow> u64" where
  "table_next t i = next_loop t (unat (i + 1))"

definition table_begin :: "upb_table \<Rightarrow> u64" where
  "table_begin t = table_next t (- 1)"

lemma next_loop_bounds:
  "unat (next_loop t i) < upb_table_size t \<Longrightarrow> i \<le> unat (next_loop t i)"
proof (induction t i rule: next_loop.induct)
  case (1 t i)
  have size: "upb_table_size t < 2 ^ 32" by (simp add: upb_table_size_def)
  consider "i \<ge> upb_table_size t" | "\<not> i \<ge> upb_table_size t"
    "i < length (entries t) \<and> upb_tabent_isempty (entries t ! i)" |
    "\<not> i \<ge> upb_table_size t" "\<not> (i < length (entries t) \<and> upb_tabent_isempty (entries t ! i))" by blast
  then show ?case
  proof cases
    case 1
    then show ?thesis using "1.prems" size by (simp add: next_loop.simps)
  next
    case 2
    then show ?thesis using "1.IH" [OF 2] "1.prems" by (simp add: next_loop.simps [of t i])
  next
    case 3
    then have "i < 2 ^ 64" using size by simp
    moreover have "next_loop t i = of_nat i" using 3 by (subst next_loop.simps) argo
    ultimately show ?thesis by (simp add: unat_of_nat)
  qed
qed

text \<open>The loop \<open>for (i = begin(t); i < upb_table_size(t); i = next(t, i))\<close> over the entries, with a
  body that may fail.\<close>

function table_foreach ::
    "upb_table \<Rightarrow> (upb_tabent \<Rightarrow> 'a \<Rightarrow> (unit, 'a) cres) \<Rightarrow> u64 \<Rightarrow> 'a \<Rightarrow> (unit, 'a) cres" where
  "table_foreach t f i a =
     (if unat i < upb_table_size t then
        cbind (ent_at (entries t) (unat i)) (\<lambda>e.
        cbind (f e a) (\<lambda>a'. table_foreach t f (table_next t i) a'))
      else Ok a)"
  by pat_completeness auto
termination
proof (relation "measure (\<lambda>(t, f, i, a). upb_table_size t - unat i)", goal_cases)
  case (2 t f i a e a')
  have "unat (i + 1) = unat i + 1"
    using 2(1) unat_less_numeral_power(3) [of "tab_mask t + 1"]
    by (simp add: upb_table_size_def unat_word_ariths)
  then show ?case
    using 2(1) next_loop_bounds [of t "unat (i + 1)"]
    by (cases "unat (table_next t i) < upb_table_size t") (auto simp: table_next_def)
qed simp

declare table_foreach.simps [simp del]

text \<open>Rehashing: all entries of \<open>t\<close> into the new table.\<close>

definition table_rehash :: "hashfunc_t \<Rightarrow> eqlfunc_t \<Rightarrow> upb_table \<Rightarrow> upb_table \<Rightarrow> (unit, upb_table) cres" where
  "table_rehash hashfunc eql t new =
     table_foreach t (\<lambda>e nt. cbind (hashfunc (ent_key e)) (\<lambda>hash.
       table_insert hashfunc eql nt (ent_key e) (ent_key e) (ent_val e) hash)) (table_begin t) new"

end
