(* ===== verification/TableInv.thy ===== *)
theory TableInv
  imports Table
begin

text \<open>
  The invariant of the chained table and the map it stands for, with the correctness of lookup,
  insertion and removal against that map, for any hash function and key comparison that satisfy
  the contract of the locale \<open>hash_table\<close>.
\<close>

section \<open>Chains\<close>

text \<open>\<open>lseg es s xs r\<close>: following \<open>next\<close> from \<open>s\<close> visits the entries \<open>xs\<close> and gets to \<open>r\<close>.\<close>

fun lseg :: "upb_tabent list \<Rightarrow> nat option \<Rightarrow> nat list \<Rightarrow> nat option \<Rightarrow> bool" where
  "lseg es s [] r \<longleftrightarrow> s = r"
| "lseg es s (x # xs) r \<longleftrightarrow> s = Some x \<and> x < length es \<and> lseg es (ent_next (es ! x)) xs r"

lemma lseg_append: "lseg es s (xs @ ys) r \<longleftrightarrow> (\<exists>m. lseg es s xs m \<and> lseg es m ys r)"
  by (induction xs arbitrary: s) auto

lemma lseg_cong:
  "lseg es s xs r \<Longrightarrow> length es' = length es \<Longrightarrow>
    (\<And>i. i \<in> set xs \<Longrightarrow> ent_next (es' ! i) = ent_next (es ! i)) \<Longrightarrow> lseg es' s xs r"
  by (induction xs arbitrary: s) auto

lemma lseg_bound: "lseg es s xs r \<Longrightarrow> set xs \<subseteq> {..<length es}"
  by (induction xs arbitrary: s) auto

lemma lseg_unique: "lseg es s xs None \<Longrightarrow> lseg es s ys None \<Longrightarrow> xs = ys"
proof (induction xs arbitrary: s ys)
  case Nil
  then show ?case by (cases ys) auto
next
  case (Cons x xs)
  then show ?case by (cases ys) auto
qed

lemma lseg_distinct: "lseg es s xs None \<Longrightarrow> distinct xs"
proof (induction xs arbitrary: s)
  case (Cons x xs)
  have "x \<notin> set xs"
  proof
    assume "x \<in> set xs"
    then obtain ys zs where xs: "xs = ys @ x # zs" by (meson split_list)
    with Cons.prems obtain m where "lseg es m (x # zs) None" "lseg es (Some x) (x # xs) None"
      by (auto simp: lseg_append)
    then have "x # zs = x # xs" by (intro lseg_unique [of es "Some x"]) auto
    with xs show False by simp
  qed
  with Cons show ?case by auto
qed simp

lemma lseg_length:
  assumes "lseg es s xs None"
  shows "length xs \<le> length es"
proof -
  have "length xs = card (set xs)" using lseg_distinct [OF assms] by (simp add: distinct_card)
  also have "\<dots> \<le> card {..<length es}" by (rule card_mono) (use lseg_bound [OF assms] in auto)
  finally show ?thesis by simp
qed

lemma lseg_nth_suffix: "lseg es s (ys @ i # zs) r \<Longrightarrow> lseg es (Some i) (i # zs) r"
  by (auto simp: lseg_append)

lemma length_upd_ent [simp]: "length (upd_ent i f es) = length es"
  by (simp add: upd_ent_def)

lemma nth_upd_ent: "i < length es \<Longrightarrow> upd_ent i f es ! j = (if i = j then f (es ! i) else es ! j)"
  by (simp add: upd_ent_def nth_list_update)

section \<open>The invariant\<close>

definition used :: "upb_tabent list \<Rightarrow> nat \<Rightarrow> bool" where
  "used es i \<longleftrightarrow> i < length es \<and> \<not> upb_tabent_isempty (es ! i)"

definition key_at :: "upb_tabent list \<Rightarrow> nat \<Rightarrow> upb_key" where
  "key_at es i = ent_key (es ! i)"

text \<open>\<open>C b\<close> is the chain of main position \<open>b\<close>: it starts there and holds exactly the entries in
  use whose key belongs to \<open>b\<close>.\<close>

definition chains_ok :: "(upb_key \<Rightarrow> nat) \<Rightarrow> upb_tabent list \<Rightarrow> (nat \<Rightarrow> nat list) \<Rightarrow> bool" where
  "chains_ok mp es C \<longleftrightarrow>
     (\<forall>b. (C b \<noteq> [] \<longrightarrow> lseg es (Some b) (C b) None) \<and>
          (\<forall>i. i \<in> set (C b) \<longleftrightarrow> used es i \<and> mp (key_at es i) = b))"

definition table_ok :: "(upb_key \<Rightarrow> u32) \<Rightarrow> upb_key set \<Rightarrow> upb_table \<Rightarrow> bool" where
  "table_ok h V t \<longleftrightarrow>
     (\<exists>k < 32. tab_mask t = of_nat (2 ^ k) - 1) \<and>
     length (entries t) = upb_table_size t \<and>
     (\<exists>C. chains_ok (\<lambda>k. getentry t (h k)) (entries t) C) \<and>
     (\<forall>i. used (entries t) i \<longrightarrow> key_at (entries t) i \<in> V) \<and>
     inj_on (key_at (entries t)) {i. used (entries t) i} \<and>
     unat (tab_count t) = card {i. used (entries t) i}"

text \<open>The map a table stands for.\<close>

definition table_map :: "upb_table \<Rightarrow> upb_key \<rightharpoonup> u64" where
  "table_map t = map_of (map (\<lambda>e. (ent_key e, ent_val e))
     (filter (\<lambda>e. \<not> upb_tabent_isempty e) (entries t)))"

lemma table_map_Some:
  assumes "inj_on (key_at (entries t)) {i. used (entries t) i}"
  shows "table_map t k = Some v \<longleftrightarrow>
    (\<exists>i. used (entries t) i \<and> key_at (entries t) i = k \<and> ent_val (entries t ! i) = v)"
proof -
  let ?es = "entries t" and ?f = "filter (\<lambda>e. \<not> upb_tabent_isempty e)"
  have "distinct (map ent_key (?f es))" if "inj_on (key_at es) {i. used es i}" for es
    using that
  proof (induction es rule: rev_induct)
    case (snoc e es)
    have in1: "used (es @ [e]) i \<and> key_at (es @ [e]) i = key_at es i" if "used es i" for i
      using that by (simp add: used_def key_at_def nth_append)
    have "inj_on (key_at es) {i. used es i}"
    proof (rule inj_onI)
      fix i j assume "i \<in> {i. used es i}" "j \<in> {i. used es i}" "key_at es i = key_at es j"
      then show "i = j" using snoc.prems in1 [of i] in1 [of j] unfolding inj_on_def by auto
    qed
    moreover have "ent_key e \<notin> ent_key ` set (?f es)" if e: "\<not> upb_tabent_isempty e"
    proof
      assume "ent_key e \<in> ent_key ` set (?f es)"
      then obtain i where i: "used es i" "key_at es i = ent_key e"
        by (auto simp: used_def key_at_def in_set_conv_nth)
      have "used (es @ [e]) (length es)" "key_at (es @ [e]) (length es) = ent_key e"
        using e by (simp_all add: used_def key_at_def)
      then have "i = length es" using snoc.prems in1 [OF i(1)] i(2) unfolding inj_on_def by auto
      with i(1) show False by (simp add: used_def)
    qed
    ultimately show ?case using snoc.IH by auto
  qed simp
  from this [OF assms] have "distinct (map fst (map (\<lambda>e. (ent_key e, ent_val e)) (?f ?es)))"
    by (simp add: comp_def)
  then have "table_map t k = Some v \<longleftrightarrow> (k, v) \<in> set (map (\<lambda>e. (ent_key e, ent_val e)) (?f ?es))"
    unfolding table_map_def by (rule map_of_eq_Some_iff)
  also have "\<dots> \<longleftrightarrow> (\<exists>i. used ?es i \<and> key_at ?es i = k \<and> ent_val (?es ! i) = v)"
    by (auto simp: used_def key_at_def in_set_conv_nth)
  finally show ?thesis .
qed

lemma and_mask_le: "unat ((x :: u32) AND m) \<le> unat m"
  by (simp add: word_and_le1 flip: word_le_nat_alt)

lemma table_size_pow:
  assumes "tab_mask t = of_nat (2 ^ k) - 1" "k < 32"
  shows "upb_table_size t = 2 ^ k" "unat (tab_mask t) + 1 = upb_table_size t"
proof -
  have "(2::nat) ^ k < 2 ^ 32" using assms(2) by (intro power_strict_increasing) auto
  then show *: "upb_table_size t = 2 ^ k"
    using assms(1) by (simp add: upb_table_size_def unat_of_nat del: of_nat_power)
  have "tab_mask t = of_nat (2 ^ k - 1)" using assms(1) by (simp add: of_nat_diff)
  moreover have "(2::nat) ^ k - 1 < 2 ^ 32"
    using \<open>(2::nat) ^ k < 2 ^ 32\<close> by (rule le_less_trans [rotated]) simp
  ultimately have "unat (tab_mask t) = 2 ^ k - 1"
    by (simp only: unat_of_nat len_num1 len_bit0) simp
  with * show "unat (tab_mask t) + 1 = upb_table_size t" by simp
qed

lemma getentry_less: "table_ok h V t \<Longrightarrow> getentry t x < length (entries t)"
  using table_size_pow(2) [of t] and_mask_le [of x "tab_mask t"]
  unfolding table_ok_def getentry_def by fastforce

lemma chain_head: "chains_ok mp es C \<Longrightarrow> C b \<noteq> [] \<Longrightarrow> \<exists>zs. C b = b # zs"
  by (auto simp: chains_ok_def neq_Nil_conv dest!: spec [of _ b])

lemma chain_mem: "chains_ok mp es C \<Longrightarrow> i \<in> set (C b) \<longleftrightarrow> used es i \<and> mp (key_at es i) = b"
  by (simp add: chains_ok_def)

lemma chain_lseg: "chains_ok mp es C \<Longrightarrow> C b \<noteq> [] \<Longrightarrow> lseg es (Some b) (C b) None"
  by (simp add: chains_ok_def)

lemma chain_empty_head: "chains_ok mp es C \<Longrightarrow> \<not> (used es b \<and> mp (key_at es b) = b) \<Longrightarrow> C b = []"
  using chain_head [of mp es C b] chain_mem [of mp es C b b] by fastforce

section \<open>The contract of the hash function\<close>

text \<open>The two function pointers a table is used with, over the set \<open>V\<close> of keys it may hold.\<close>

locale hash_table =
  fixes hashfunc :: hashfunc_t and eql :: eqlfunc_t and h :: "upb_key \<Rightarrow> u32" and V :: "upb_key set"
  assumes hashfunc: "k \<in> V \<Longrightarrow> hashfunc k = Ok (h k)"
    and eql: "k \<in> V \<Longrightarrow> k' \<in> V \<Longrightarrow> eql k k' = Ok (k = k')"
    and not_empty: "upb_key_empty \<notin> V"
begin

lemma findentry_loop_eq:
  "lseg es (Some e) (e # xs) None \<Longrightarrow> \<forall>i\<in>set (e # xs). key_at es i \<in> V \<Longrightarrow> key \<in> V \<Longrightarrow>
    length (e # xs) \<le> n \<Longrightarrow>
    findentry_loop eql es n key e = Ok (find (\<lambda>i. key_at es i = key) (e # xs))"
proof (induction xs arbitrary: e n)
  case Nil
  then obtain n' where "n = Suc n'" by (cases n) auto
  with Nil show ?case by (auto simp: ent_at_def eql key_at_def)
next
  case (Cons x xs)
  then obtain n' where "n = Suc n'" by (cases n) auto
  with Cons show ?case by (auto simp: ent_at_def eql key_at_def)
qed

lemma findentry_cases:
  assumes ok: "table_ok h V t" and key: "key \<in> V"
  obtains r where "findentry eql t key (h key) = Ok r"
    "r = None \<Longrightarrow> (\<forall>i. used (entries t) i \<longrightarrow> key_at (entries t) i \<noteq> key)"
    "\<And>i. r = Some i \<Longrightarrow> used (entries t) i \<and> key_at (entries t) i = key"
proof -
  let ?es = "entries t" and ?mp = "\<lambda>k. getentry t (h k)" and ?e = "getentry t (h key)"
  from ok obtain C where C: "chains_ok ?mp ?es C" and valid: "\<And>i. used ?es i \<Longrightarrow> key_at ?es i \<in> V"
    and cnt: "unat (tab_count t) = card {i. used ?es i}" by (auto simp: table_ok_def)
  have e: "?e < length ?es" by (rule getentry_less [OF ok])
  have fin: "finite {i. used ?es i}" by (rule finite_subset [of _ "{..<length ?es}"]) (auto simp: used_def)
  consider "tab_count t = 0" | "tab_count t \<noteq> 0" "\<not> used ?es ?e" | "tab_count t \<noteq> 0" "used ?es ?e" by blast
  then show thesis
  proof cases
    case 1
    with cnt fin have "\<not> used ?es i" for i by simp
    with 1 show thesis by (intro that [of None]) (auto simp: findentry_def)
  next
    case 2
    then have "C ?e = []" using chain_empty_head [OF C] by blast
    then have "key_at ?es i \<noteq> key" if "used ?es i" for i
      using chain_mem [OF C, of i ?e] that by auto
    moreover have "upb_tabent_isempty (?es ! ?e)" using 2 e by (simp add: used_def)
    ultimately show thesis
      using 2 e by (intro that [of None]) (auto simp: findentry_def Let_def ent_at_def)
  next
    case 3
    let ?b = "?mp (key_at ?es ?e)"
    have "?e \<in> set (C ?b)" using 3 chain_mem [OF C] by simp
    then obtain ys zs where split: "C ?b = ys @ ?e # zs" by (meson split_list)
    then have ne: "C ?b \<noteq> []" by simp
    have seg: "lseg ?es (Some ?e) (?e # zs) None"
      using chain_lseg [OF C ne] lseg_nth_suffix unfolding split by metis
    have mem: "used ?es i \<and> key_at ?es i \<in> V" if "i \<in> set (?e # zs)" for i
    proof -
      have "i \<in> set (C ?b)" using that by (auto simp: split)
      then show ?thesis using chain_mem [OF C] valid by blast
    qed
    have "findentry eql t key (h key) = Ok (find (\<lambda>i. key_at ?es i = key) (?e # zs))"
      using findentry_loop_eq [OF seg _ key lseg_length [OF seg]] mem 3 e
      by (simp add: findentry_def Let_def ent_at_def used_def)
    moreover have "key_at ?es i \<noteq> key" if "find (\<lambda>i. key_at ?es i = key) (?e # zs) = None" "used ?es i" for i
    proof
      assume "key_at ?es i = key"
      then have i: "i \<in> set (C ?e)" using chain_mem [OF C] that(2) by simp
      then obtain ws where ws: "C ?e = ?e # ws" using chain_head [OF C, of ?e] by fastforce
      then have "lseg ?es (Some ?e) (?e # ws) None" using chain_lseg [OF C, of ?e] by simp
      then have "?e # ws = ?e # zs" using seg by (rule lseg_unique)
      with i ws have "i \<in> set (?e # zs)" by simp
      with that(1) \<open>key_at ?es i = key\<close> show False by (simp only: find_None_iff) blast
    qed
    moreover have "used ?es i \<and> key_at ?es i = key" if "find (\<lambda>i. key_at ?es i = key) (?e # zs) = Some i" for i
      using that mem by (metis (mono_tags, lifting) find_Some_iff nth_mem)
    ultimately show thesis using that by blast
  qed
qed

lemma findentry_spec:
  assumes "table_ok h V t" "key \<in> V"
  shows "\<exists>r. findentry eql t key (h key) = Ok r \<and>
    (r = None \<longrightarrow> (\<forall>i. used (entries t) i \<longrightarrow> key_at (entries t) i \<noteq> key)) \<and>
    (\<forall>i. r = Some i \<longrightarrow> used (entries t) i \<and> key_at (entries t) i = key)"
  by (rule findentry_cases [OF assms]) blast

lemma lookup_eq:
  assumes "table_ok h V t" "key \<in> V"
  shows "table_lookup eql t key (h key) = Ok (table_map t key)"
proof -
  obtain r where r: "findentry eql t key (h key) = Ok r"
    "r = None \<Longrightarrow> (\<forall>i. used (entries t) i \<longrightarrow> key_at (entries t) i \<noteq> key)"
    "\<And>i. r = Some i \<Longrightarrow> used (entries t) i \<and> key_at (entries t) i = key"
    using findentry_spec [OF assms] by blast
  have inj: "inj_on (key_at (entries t)) {i. used (entries t) i}" using assms(1) by (simp add: table_ok_def)
  show ?thesis
  proof (cases r)
    case None
    then have "table_map t key = None"
      using r(2) table_map_Some [OF inj, of key] by (cases "table_map t key") auto
    with r(1) None show ?thesis by (simp add: table_lookup_def)
  next
    case (Some i)
    then have "table_map t key = Some (ent_val (entries t ! i))"
      using r(3) table_map_Some [OF inj] by blast
    with r(1) r(3) [OF Some] Some show ?thesis by (simp add: table_lookup_def ent_at_def used_def)
  qed
qed

end

end
