(* ===== verification/TableOps.thy ===== *)
theory TableOps
  imports TableInv
begin

text \<open>
  Insertion into and removal from the chained table, against the map the table stands for.
\<close>

section \<open>What an insertion changes\<close>

text \<open>\<open>new\<close> is the entry that becomes used, \<open>our\<close> the entry of the new key: the same one, or
  \<open>our\<close> held an entry that moves to \<open>new\<close>.\<close>

definition placed :: "upb_tabent list \<Rightarrow> upb_tabent list \<Rightarrow> nat \<Rightarrow> nat \<Rightarrow> upb_key \<Rightarrow> u64 \<Rightarrow> bool" where
  "placed es es' new our key val \<longleftrightarrow>
     length es' = length es \<and> new < length es \<and> \<not> used es new \<and> our < length es \<and>
     (our \<noteq> new \<longrightarrow> used es our) \<and>
     (\<forall>i < length es. ent_key (es' ! i) =
        (if i = our then key else if i = new then ent_key (es ! our) else ent_key (es ! i))) \<and>
     (\<forall>i < length es. ent_val (es' ! i) =
        (if i = our then val else if i = new then ent_val (es ! our) else ent_val (es ! i)))"

lemma finite_used [simp]: "finite {i. used es i}"
  by (rule finite_subset [of _ "{..<length es}"]) (auto simp: used_def)

lemma used_cong: "length es' = length es \<Longrightarrow> ent_key (es' ! i) = ent_key (es ! i) \<Longrightarrow> used es' i = used es i"
  by (simp add: used_def upb_tabent_isempty_def)

lemma placed_used:
  assumes "placed es es' new our key val" "key \<noteq> upb_key_empty"
  shows "used es' i \<longleftrightarrow> i = new \<or> used es i"
proof (cases "i < length es")
  case True
  then have "ent_key (es' ! i) = (if i = our then key else if i = new then ent_key (es ! our) else ent_key (es ! i))"
    using assms(1) unfolding placed_def by blast
  then show ?thesis
    using assms(1) True \<open>key \<noteq> upb_key_empty\<close> unfolding placed_def used_def upb_tabent_isempty_def
    by (elim conjE) (cases "i = our"; cases "i = new"; simp)
next
  case False
  then show ?thesis using assms(1) unfolding placed_def used_def by (elim conjE) auto
qed

lemma placed_key:
  assumes "placed es es' new our key val" "i < length es"
  shows "key_at es' i = (if i = our then key else if i = new then key_at es our else key_at es i)"
  using assms by (simp add: placed_def key_at_def)

lemma placed_inj:
  assumes "placed es es' new our key val" "key \<noteq> upb_key_empty"
    and "inj_on (key_at es) {i. used es i}" "\<And>i. used es i \<Longrightarrow> key_at es i \<noteq> key"
  shows "inj_on (key_at es') {i. used es' i}"
proof (rule inj_onI)
  fix i j assume "i \<in> {i. used es' i}" "j \<in> {i. used es' i}" "key_at es' i = key_at es' j"
  then have ij: "i = new \<or> used es i" "j = new \<or> used es j" "key_at es' i = key_at es' j"
    using placed_used [OF assms(1,2)] by auto
  have p: "new < length es" "\<not> used es new" "our \<noteq> new \<longrightarrow> used es our"
    using assms(1) by (auto simp: placed_def)
  have b: "i < length es" "j < length es" using ij(1,2) p(1) by (auto simp: used_def)
  have eq: "i' = j'" if "used es i'" "used es j'" "key_at es i' = key_at es j'" for i' j'
    using assms(3) that by (auto simp: inj_on_def)
  show "i = j"
    using ij p assms(4) eq unfolding placed_key [OF assms(1) b(1)] placed_key [OF assms(1) b(2)]
    by (smt (verit))
qed

lemma placed_map:
  assumes "placed (entries t) (entries t') new our key val" "key \<noteq> upb_key_empty"
    and "inj_on (key_at (entries t)) {i. used (entries t) i}"
    and "\<And>i. used (entries t) i \<Longrightarrow> key_at (entries t) i \<noteq> key"
  shows "table_map t' = (table_map t)(key \<mapsto> val)"
proof (rule ext)
  fix k
  let ?es = "entries t" and ?es' = "entries t'"
  have inj': "inj_on (key_at ?es') {i. used ?es' i}" by (rule placed_inj [OF assms])
  have p: "new < length ?es" "\<not> used ?es new" "our \<noteq> new \<longrightarrow> used ?es our" "our < length ?es"
    and vals: "\<And>i. i < length ?es \<Longrightarrow> ent_val (?es' ! i) =
        (if i = our then val else if i = new then ent_val (?es ! our) else ent_val (?es ! i))"
    using assms(1) by (auto simp: placed_def)
  have "table_map t' k = Some v \<longleftrightarrow> ((table_map t)(key \<mapsto> val)) k = Some v" for v
  proof (cases "k = key")
    case True
    have "(\<exists>i. used ?es' i \<and> key_at ?es' i = key \<and> ent_val (?es' ! i) = v) \<longleftrightarrow> v = val"
    proof
      assume "\<exists>i. used ?es' i \<and> key_at ?es' i = key \<and> ent_val (?es' ! i) = v"
      then obtain i where i: "used ?es' i" "key_at ?es' i = key" "ent_val (?es' ! i) = v" by blast
      then have "i < length ?es" using assms(1) by (simp add: placed_def used_def)
      then have "i = our"
        using i placed_used [OF assms(1,2)] placed_key [OF assms(1)] assms(4) p by (auto split: if_splits)
      then show "v = val" using i(3) vals p(4) by simp
    next
      assume "v = val"
      then show "\<exists>i. used ?es' i \<and> key_at ?es' i = key \<and> ent_val (?es' ! i) = v"
        using p vals placed_used [OF assms(1,2)] placed_key [OF assms(1)]
        by (intro exI [of _ our]) auto
    qed
    then show ?thesis using table_map_Some [OF inj'] True by auto
  next
    case False
    have "(\<exists>i. used ?es' i \<and> key_at ?es' i = k \<and> ent_val (?es' ! i) = v) \<longleftrightarrow>
      (\<exists>i. used ?es i \<and> key_at ?es i = k \<and> ent_val (?es ! i) = v)"
    proof
      assume "\<exists>i. used ?es' i \<and> key_at ?es' i = k \<and> ent_val (?es' ! i) = v"
      then obtain i where i: "used ?es' i" "key_at ?es' i = k" "ent_val (?es' ! i) = v" by blast
      then have b: "i < length ?es" using assms(1) by (simp add: placed_def used_def)
      then have "i \<noteq> our" using i(2) False placed_key [OF assms(1) b] by auto
      then show "\<exists>i. used ?es i \<and> key_at ?es i = k \<and> ent_val (?es ! i) = v"
        using i b p vals [OF b] placed_used [OF assms(1,2)] placed_key [OF assms(1) b]
        by (cases "i = new") auto
    next
      assume "\<exists>i. used ?es i \<and> key_at ?es i = k \<and> ent_val (?es ! i) = v"
      then obtain i where i: "used ?es i" "key_at ?es i = k" "ent_val (?es ! i) = v" by blast
      then have b: "i < length ?es" by (simp add: used_def)
      show "\<exists>i. used ?es' i \<and> key_at ?es' i = k \<and> ent_val (?es' ! i) = v"
      proof (cases "i = our")
        case True
        then have "new \<noteq> our" using i(1) p(2) by auto
        then show ?thesis
          using i True p vals [OF p(1)] placed_used [OF assms(1,2)] placed_key [OF assms(1) p(1)]
          by (intro exI [of _ new]) auto
      next
        case ne: False
        then show ?thesis
          using i b p vals [OF b] placed_used [OF assms(1,2)] placed_key [OF assms(1) b]
          by (intro exI [of _ i]) auto
      qed
    qed
    then show ?thesis using table_map_Some [OF inj'] table_map_Some [OF assms(3)] False by simp
  qed
  then show "table_map t' k = ((table_map t)(key \<mapsto> val)) k"
    by (metis not_None_eq)
qed

lemma emptyent_spec:
  assumes "i < length es" "\<not> used es i"
  shows "\<exists>new. emptyent es e = Ok new \<and> new < length es \<and> \<not> used es new"
proof -
  let ?P = "\<lambda>i. upb_tabent_isempty (es ! i)" and ?xs = "[e + 1..<length es] @ [0..<length es]"
  have "find ?P ?xs \<noteq> None" using assms by (auto simp: find_None_iff used_def)
  then obtain new where new: "find ?P ?xs = Some new" by blast
  then have "new \<in> set ?xs" "?P new"
    by (metis find_Some_iff nth_mem, metis find_Some_iff)
  with new show ?thesis by (auto simp: emptyent_def used_def)
qed

lemma find_prev_eq:
  "lseg es (Some c) ys (Some t) \<Longrightarrow> ys \<noteq> [] \<Longrightarrow> t \<notin> set ys \<Longrightarrow> length ys \<le> n \<Longrightarrow>
    find_prev es n t c = Ok (last ys)"
proof (induction ys arbitrary: c n)
  case (Cons y ys)
  then obtain n' where n: "n = Suc n'" by (cases n) auto
  show ?case
  proof (cases ys)
    case Nil
    with Cons.prems n show ?thesis by (simp add: ent_at_def)
  next
    case (Cons z zs)
    with Cons.prems n Cons.IH [of z n'] show ?thesis by (auto simp: ent_at_def)
  qed
qed simp

text \<open>The chains after an insertion, from those before.\<close>

lemma placed_chains:
  assumes p: "placed es es' new our key val" and key: "key \<noteq> upb_key_empty" and C: "chains_ok mp es C"
    and set: "\<And>b. set (C' b) = (if b = mp key then {our} else {}) \<union>
      (if our \<noteq> new \<and> b = mp (key_at es our) then insert new (set (C b) - {our}) else set (C b) - {our})"
    and seg: "\<And>b. C' b \<noteq> [] \<Longrightarrow> lseg es' (Some b) (C' b) None"
  shows "chains_ok mp es' C'"
  unfolding chains_ok_def
proof (intro allI conjI impI)
  fix b i
  have pl: "new < length es" "\<not> used es new" "our \<noteq> new \<longrightarrow> used es our" "our < length es"
    using p by (auto simp: placed_def)
  show "i \<in> set (C' b) \<longleftrightarrow> used es' i \<and> mp (key_at es' i) = b"
  proof (cases "i < length es")
    case True
    show ?thesis
      unfolding set placed_used [OF p key] placed_key [OF p True]
      using pl chain_mem [OF C, of i b] chain_mem [OF C, of our b] chain_mem [OF C, of new b]
      by (cases "i = our"; cases "i = new"; simp) blast+
  next
    case False
    then have "i \<noteq> our" "i \<noteq> new" "\<not> used es i" "\<not> used es' i"
      using pl p by (auto simp: used_def placed_def)
    then show ?thesis unfolding set using chain_mem [OF C, of i b] by auto
  qed
qed (rule seg)

abbreviation (input) fill :: "upb_key \<Rightarrow> u64 \<Rightarrow> upb_tabent \<Rightarrow> upb_tabent" where
  "fill key val \<equiv> (\<lambda>e. e\<lparr>ent_key := key, ent_val := val\<rparr>)"

lemma lseg_other:
  "chains_ok mp es C \<Longrightarrow> C b \<noteq> [] \<Longrightarrow> length es' = length es \<Longrightarrow>
    (\<And>i. i \<in> set (C b) \<Longrightarrow> ent_next (es' ! i) = ent_next (es ! i)) \<Longrightarrow> lseg es' (Some b) (C b) None"
  using chain_lseg lseg_cong by blast

lemma place_free:
  fixes val :: u64
  assumes C: "chains_ok mp es C" and m: "m < length es" "\<not> used es m"
    and key: "key \<noteq> upb_key_empty" "mp key = m"
  defines "es' \<equiv> upd_ent m (fill key val) (upd_ent m (ent_next_update (\<lambda>_. None)) es)"
  shows "placed es es' m m key val \<and> chains_ok mp es' (C(m := [m]))"
proof
  show p: "placed es es' m m key val"
    using m by (simp add: placed_def es'_def nth_upd_ent)
  have empty: "C m = []" using chain_empty_head [OF C] m(2) by blast
  show "chains_ok mp es' (C(m := [m]))"
  proof (rule placed_chains [OF p key(1) C])
    fix b
    show "set ((C(m := [m])) b) = (if b = mp key then {m} else {}) \<union>
      (if m \<noteq> m \<and> b = mp (key_at es m) then insert m (set (C b) - {m}) else set (C b) - {m})"
      using m(2) key(2) empty chain_mem [OF C, of m b] by auto
    show "lseg es' (Some b) ((C(m := [m])) b) None" if "(C(m := [m])) b \<noteq> []"
    proof (cases "b = m")
      case True
      then show ?thesis using m(1) by (simp add: es'_def nth_upd_ent)
    next
      case False
      have "m \<notin> set (C b)" using chain_mem [OF C, of m b] m(2) by auto
      then show ?thesis using False that m(1) by (auto intro!: lseg_other [OF C] simp: es'_def nth_upd_ent)
    qed
  qed
qed

lemma place_append:
  fixes val :: u64
  assumes C: "chains_ok mp es C" and m: "used es m" "mp (key_at es m) = m"
    and new: "new < length es" "\<not> used es new" and key: "key \<noteq> upb_key_empty" "mp key = m"
  defines "es' \<equiv> upd_ent new (fill key val) (upd_ent m (ent_next_update (\<lambda>_. Some new))
      (upd_ent new (ent_next_update (\<lambda>_. ent_next (es ! m))) es))"
  shows "\<exists>C'. placed es es' new new key val \<and> chains_ok mp es' C'"
proof -
  have ml: "m < length es" and ne: "m \<noteq> new" using m(1) new(2) by (auto simp: used_def)
  have p: "placed es es' new new key val"
    using new ml ne by (simp add: placed_def es'_def nth_upd_ent)
  have "m \<in> set (C m)" using chain_mem [OF C] m by simp
  then obtain zs where zs: "C m = m # zs" using chain_head [OF C, of m] by fastforce
  have seg: "lseg es (ent_next (es ! m)) zs None" and "m \<notin> set zs"
    using chain_lseg [OF C, of m] lseg_distinct [of es "Some m" "C m"] by (auto simp: zs)
  have "new \<notin> set zs" using chain_mem [OF C, of new m] new(2) zs by auto
  have "lseg es' (ent_next (es ! m)) zs None"
    by (rule lseg_cong [OF seg])
      (use ml new(1) \<open>m \<notin> set zs\<close> \<open>new \<notin> set zs\<close> in \<open>auto simp: es'_def nth_upd_ent\<close>)
  then have seg': "lseg es' (Some m) (m # new # zs) None"
    using ml new(1) ne by (simp add: es'_def nth_upd_ent)
  have "chains_ok mp es' (C(m := m # new # zs))"
  proof (rule placed_chains [OF p key(1) C])
    fix b
    show "set ((C(m := m # new # zs)) b) = (if b = mp key then {new} else {}) \<union>
      (if new \<noteq> new \<and> b = mp (key_at es new) then insert new (set (C b) - {new}) else set (C b) - {new})"
      using new(2) key(2) zs chain_mem [OF C, of new b] by auto
    show "lseg es' (Some b) ((C(m := m # new # zs)) b) None" if "(C(m := m # new # zs)) b \<noteq> []"
    proof (cases "b = m")
      case True
      then show ?thesis using seg' by simp
    next
      case False
      have "m \<notin> set (C b)" "new \<notin> set (C b)"
        using chain_mem [OF C, of _ b] m(2) new(2) False by auto
      then show ?thesis
        using False that ml new(1) by (auto intro!: lseg_other [OF C] simp: es'_def nth_upd_ent)
    qed
  qed
  with p show ?thesis by blast
qed

lemma place_evict:
  assumes C: "chains_ok mp es C" and m: "used es m" "mp (key_at es m) = b" "b \<noteq> m"
    and new: "new < length es" "\<not> used es new" and key: "key \<noteq> upb_key_empty" "mp key = m"
  shows "\<exists>prev. find_prev (es[new := es ! m]) (length es) m b = Ok prev \<and>
    (let es' = upd_ent m (fill key val) (upd_ent m (ent_next_update (\<lambda>_. None))
           (upd_ent prev (ent_next_update (\<lambda>_. Some new)) (es[new := es ! m])))
     in \<exists>C'. placed es es' new m key val \<and> chains_ok mp es' C')"
proof -
  have ml: "m < length es" and ne: "m \<noteq> new" using m(1) new(2) by (auto simp: used_def)
  have "m \<in> set (C b)" using chain_mem [OF C] m by simp
  then obtain ys zs where split: "C b = ys @ m # zs" by (meson split_list)
  have "ys \<noteq> []" using chain_head [OF C, of b] split m(3) by (cases ys) auto
  have seg: "lseg es (Some b) (ys @ m # zs) None" using chain_lseg [OF C, of b] split by simp
  then have dist: "distinct (ys @ m # zs)" by (rule lseg_distinct)
  have notnew: "new \<notin> set (ys @ m # zs)" using chain_mem [OF C, of new b] new(2) split by auto
  have empty: "C m = []" using chain_empty_head [OF C] m by blast
  let ?es1 = "es[new := es ! m]" and ?prev = "last ys"
  have segy: "lseg es (Some b) ys (Some m)" and segz: "lseg es (ent_next (es ! m)) zs None"
    using seg by (auto simp: lseg_append)
  have "lseg ?es1 (Some b) ys (Some m)"
    by (rule lseg_cong [OF segy]) (simp, subst nth_list_update_neq, use notnew in auto)
  moreover have "length ys \<le> length es" using lseg_length [OF seg] by simp
  ultimately have prev: "find_prev ?es1 (length es) m b = Ok ?prev"
    using dist \<open>ys \<noteq> []\<close> by (intro find_prev_eq) auto
  obtain ws where ws: "ys = ws @ [?prev]" using \<open>ys \<noteq> []\<close> by (metis append_butlast_last_id)
  have pl: "?prev < length es" using lseg_bound [OF segy] ws by (metis last_in_set \<open>ys \<noteq> []\<close> lessThan_iff subsetD)
  have pne: "?prev \<noteq> m" "?prev \<noteq> new" "?prev \<notin> set ws" "?prev \<notin> set zs"
    using dist notnew ws by (metis Un_iff distinct.simps(2) distinct_append in_set_conv_decomp set_append
        disjoint_iff list.set_intros(1) list.set_intros(2) not_distinct_conv_prefix)+
  define es' where "es' = upd_ent m (fill key val) (upd_ent m (ent_next_update (\<lambda>_. None))
           (upd_ent ?prev (ent_next_update (\<lambda>_. Some new)) ?es1))"
  have len: "length es' = length es" by (simp add: es'_def)
  have nxt: "ent_next (es' ! i) = (if i = m then None else if i = ?prev then Some new
      else if i = new then ent_next (es ! m) else ent_next (es ! i))" if "i < length es" for i
    using that ml pl new(1) pne by (auto simp: es'_def nth_upd_ent nth_list_update)
  have p: "placed es es' new m key val"
    using new ml ne m(1) pl by (auto simp: placed_def es'_def nth_upd_ent nth_list_update)
  have "chains_ok mp es' (C(b := ys @ new # zs, m := [m]))"
  proof (rule placed_chains [OF p key(1) C])
    fix c
    show "set ((C(b := ys @ new # zs, m := [m])) c) = (if c = mp key then {m} else {}) \<union>
      (if m \<noteq> new \<and> c = mp (key_at es m) then insert new (set (C c) - {m}) else set (C c) - {m})"
      using ne key(2) m split dist empty chain_mem [OF C, of m c] by auto
    show "lseg es' (Some c) ((C(b := ys @ new # zs, m := [m])) c) None"
      if "(C(b := ys @ new # zs, m := [m])) c \<noteq> []"
    proof -
      consider "c = m" | "c = b" | "c \<noteq> m" "c \<noteq> b" by blast
      then show ?thesis
      proof cases
        case 1
        then show ?thesis using ml by (simp add: len nxt)
      next
        case 2
        have segw: "lseg es (Some b) ws (Some ?prev)" using segy by (subst (asm) ws) (auto simp: lseg_append)
        have same: "ent_next (es' ! i) = ent_next (es ! i)" if "i \<in> set ws \<union> set zs" for i
        proof -
          have "i \<in> set ys \<union> set zs" using that ws by (metis UnE UnI1 UnI2 set_append)
          then have "i \<noteq> m" "i \<noteq> new" using dist notnew by auto
          moreover have "i \<noteq> ?prev" using that pne(3,4) by blast
          moreover have "i < length es" using that lseg_bound [OF segw] lseg_bound [OF segz] by blast
          ultimately show ?thesis by (simp add: nxt)
        qed
        have "lseg es' (Some b) ws (Some ?prev)" by (rule lseg_cong [OF segw len]) (simp add: same)
        moreover have "lseg es' (ent_next (es ! m)) zs None"
          by (rule lseg_cong [OF segz len]) (simp add: same)
        ultimately have "lseg es' (Some b) ((ws @ [?prev]) @ new # zs) None"
          using pl new(1) pne ne by (auto simp: lseg_append len nxt)
        then show ?thesis using 2 m(3) ws by simp
      next
        case 3
        have "i \<noteq> m \<and> i \<noteq> new \<and> i \<noteq> ?prev \<and> i < length es" if i: "i \<in> set (C c)" for i
        proof -
          have "?prev \<in> set (C b)" using ws split by (metis in_set_conv_decomp append.assoc append_Cons)
          then show ?thesis using i chain_mem [OF C, of i c] chain_mem [OF C, of ?prev b] m(2) new(2) 3
            by (auto simp: used_def)
        qed
        then show ?thesis using 3 that by (auto intro!: lseg_other [OF C] simp: len nxt)
      qed
    qed
  qed
  with p prev show ?thesis unfolding Let_def es'_def by blast
qed

section \<open>Insertion\<close>

lemma getentry_mask: "tab_mask t' = tab_mask t \<Longrightarrow> getentry t' = getentry t"
  by (simp add: getentry_def fun_eq_iff)

lemma insert_place_mask:
  "insert_place hashfunc (t\<lparr>tab_count := c\<rparr>) hash = insert_place hashfunc t hash"
  using getentry_mask [of "t\<lparr>tab_count := c\<rparr>" t]
  by (simp add: insert_place_def Let_def cong del: if_weak_cong)

context hash_table
begin

lemma insert_place_spec:
  assumes ok: "table_ok h V t" and key: "key \<in> V" and room: "i < length (entries t)" "\<not> used (entries t) i"
  shows "\<exists>es our new C. insert_place hashfunc t (h key) = Ok (es, our) \<and>
    placed (entries t) (upd_ent our (fill key val) es) new our key val \<and>
    chains_ok (\<lambda>k. getentry t (h k)) (upd_ent our (fill key val) es) C"
proof -
  let ?es = "entries t" and ?mp = "\<lambda>k. getentry t (h k)" and ?m = "getentry t (h key)"
  from ok obtain C where C: "chains_ok ?mp ?es C" and valid: "\<And>i. used ?es i \<Longrightarrow> key_at ?es i \<in> V"
    by (auto simp: table_ok_def)
  have ml: "?m < length ?es" by (rule getentry_less [OF ok])
  have kne: "key \<noteq> upb_key_empty" using key not_empty by auto
  show ?thesis
  proof (cases "used ?es ?m")
    case False
    then have "upb_tabent_isempty (?es ! ?m)" using ml by (simp add: used_def)
    then have "insert_place hashfunc t (h key) = Ok (upd_ent ?m (ent_next_update (\<lambda>_. None)) ?es, ?m)"
      using ml by (simp add: insert_place_def Let_def ent_at_def)
    with place_free [OF C ml False kne, of val] show ?thesis by blast
  next
    case True
    obtain new where new: "emptyent ?es ?m = Ok new" "new < length ?es" "\<not> used ?es new"
      using emptyent_spec [OF room] by blast
    have ne: "\<not> upb_tabent_isempty (?es ! ?m)" using True by (simp add: used_def)
    have hash: "hashfunc (ent_key (?es ! ?m)) = Ok (h (key_at ?es ?m))"
      using valid [OF True] hashfunc by (simp add: key_at_def)
    show ?thesis
    proof (cases "?mp (key_at ?es ?m) = ?m")
      case mp: True
      then have "insert_place hashfunc t (h key) = Ok (upd_ent ?m (ent_next_update (\<lambda>_. Some new))
          (upd_ent new (ent_next_update (\<lambda>_. ent_next (?es ! ?m))) ?es), new)"
        using ml ne new(1) hash by (simp add: insert_place_def Let_def ent_at_def)
      with place_append [OF C True mp new(2,3) kne, of val] show ?thesis by blast
    next
      case mp: False
      obtain prev where prev: "find_prev (?es[new := ?es ! ?m]) (length ?es) ?m (?mp (key_at ?es ?m)) = Ok prev"
        and pl: "let es' = upd_ent ?m (fill key val) (upd_ent ?m (ent_next_update (\<lambda>_. None))
           (upd_ent prev (ent_next_update (\<lambda>_. Some new)) (?es[new := ?es ! ?m])))
          in \<exists>C'. placed ?es es' new ?m key val \<and> chains_ok ?mp es' C'"
        using place_evict [OF C True refl mp new(2,3) kne refl, of val] by blast
      have "insert_place hashfunc t (h key) = Ok (upd_ent ?m (ent_next_update (\<lambda>_. None))
           (upd_ent prev (ent_next_update (\<lambda>_. Some new)) (?es[new := ?es ! ?m])), ?m)"
        using ml ne new(1) hash mp prev by (simp add: insert_place_def Let_def ent_at_def)
      with pl show ?thesis unfolding Let_def by blast
    qed
  qed
qed

lemma insert_spec:
  assumes ok: "table_ok h V t" and key: "key \<in> V" and absent: "table_map t key = None"
    and room: "unat (tab_count t) < length (entries t)"
  obtains t' where "table_insert hashfunc eql t key key val (h key) = Ok t'" "table_ok h V t'"
    "table_map t' = (table_map t)(key \<mapsto> val)" "tab_mask t' = tab_mask t"
    "unat (tab_count t') = unat (tab_count t) + 1"
proof -
  let ?es = "entries t"
  have inj: "inj_on (key_at ?es) {i. used ?es i}" and cnt: "unat (tab_count t) = card {i. used ?es i}"
    and valid: "\<And>i. used ?es i \<Longrightarrow> key_at ?es i \<in> V" and size: "length ?es = upb_table_size t"
    and pow: "\<exists>k < 32. tab_mask t = of_nat (2 ^ k) - 1"
    using ok by (auto simp: table_ok_def)
  have kne: "key \<noteq> upb_key_empty" using key not_empty by auto
  have nokey: "key_at ?es i \<noteq> key" if "used ?es i" for i
    using that absent table_map_Some [OF inj] by force
  obtain i where i: "i < length ?es" "\<not> used ?es i"
  proof (rule ccontr)
    assume "\<not> thesis"
    then have "{..<length ?es} \<subseteq> {i. used ?es i}" using that by auto
    from card_mono [OF finite_used this] show False using room cnt by simp
  qed
  obtain es our new C where place: "insert_place hashfunc t (h key) = Ok (es, our)"
    and p: "placed ?es (upd_ent our (fill key val) es) new our key val"
    and C: "chains_ok (\<lambda>k. getentry t (h k)) (upd_ent our (fill key val) es) C"
    using insert_place_spec [OF ok key i] by blast
  define es' where "es' = upd_ent our (fill key val) es"
  define t' where "t' = t\<lparr>tab_count := tab_count t + 1, entries := es'\<rparr>"
  have p': "placed (entries t) (entries t') new our key val" using p by (simp add: t'_def es'_def)
  have used': "used es' j \<longleftrightarrow> j = new \<or> used ?es j" for j
    using placed_used [OF p kne] by (simp add: es'_def)
  have "new \<notin> {i. used ?es i}" using p by (simp add: placed_def)
  then have card: "card {i. used es' i} = card {i. used ?es i} + 1"
    using used' by (simp add: insert_def [symmetric] Collect_disj_eq)
  have "length ?es \<le> 2 ^ 31"
    using pow size table_size_pow(1) [of t] power_increasing [of _ 31 "2::nat"] by fastforce
  then have c': "unat (tab_count t + 1) = unat (tab_count t) + 1"
    using room by (simp add: unat_word_ariths)
  have mp: "getentry t' = getentry t" by (rule getentry_mask) (simp add: t'_def)
  have key': "key_at es' j = (if j = our then key else if j = new then key_at ?es our else key_at ?es j)"
    if "j < length ?es" for j
    using placed_key [OF p that] by (simp add: es'_def)
  have ok': "table_ok h V t'"
    unfolding table_ok_def mp
  proof (intro conjI allI impI)
    show "\<exists>C. chains_ok (\<lambda>k. getentry t (h k)) (entries t') C" using C by (auto simp: t'_def es'_def)
    show "length (entries t') = upb_table_size t'"
      using p size by (simp add: placed_def t'_def es'_def upb_table_size_def)
    show "key_at (entries t') j \<in> V" if "used (entries t') j" for j
    proof -
      have "j = new \<or> used ?es j" using that used' by (simp add: t'_def)
      moreover have "new < length ?es" "our \<noteq> new \<longrightarrow> used ?es our" using p by (auto simp: placed_def)
      ultimately show ?thesis using key' [of j] valid key
        by (auto simp: t'_def used_def split: if_splits)
    qed
    show "inj_on (key_at (entries t')) {i. used (entries t') i}"
      by (rule placed_inj [OF p' kne inj]) (rule nokey)
  qed (use pow card cnt c' in \<open>simp_all add: t'_def\<close>)
  have map': "table_map t' = (table_map t)(key \<mapsto> val)"
    by (rule placed_map [OF p' kne inj]) (rule nokey)
  have "findentry eql t key (h key) = Ok None"
    using findentry_spec [OF ok key] nokey by (metis not_None_eq)
  moreover have "findentry eql t' key (h key) = Ok (Some our)"
  proof -
    have our: "used es' our" "key_at es' our = key"
      using used' p key' by (auto simp: placed_def)
    obtain r where r: "findentry eql t' key (h key) = Ok r"
      "r = None \<longrightarrow> (\<forall>i. used es' i \<longrightarrow> key_at es' i \<noteq> key)"
      "\<forall>i. r = Some i \<longrightarrow> used es' i \<and> key_at es' i = key"
      using findentry_spec [OF ok' key] by (auto simp: t'_def)
    moreover have "inj_on (key_at es') {i. used es' i}" using ok' by (simp add: table_ok_def t'_def)
    ultimately show ?thesis using our by (cases r) (auto dest: inj_onD)
  qed
  ultimately have "table_insert hashfunc eql t key key val (h key) = Ok t'"
    by (simp add: table_insert_def insert_place_mask place es'_def t'_def Let_def)
  then show thesis using ok' map' by (rule that) (simp_all add: t'_def c')
qed

end

end
