(* ===== verification/TableRemove.thy ===== *)
theory TableRemove
  imports TableOps
begin

text \<open>
  Removal from the chained table and iteration over it, against the map the table stands for.
\<close>

section \<open>What a removal changes\<close>

text \<open>\<open>gone\<close> is the entry that becomes unused, \<open>our\<close> the entry of the key: the same one, or the
  content of \<open>gone\<close> moves to \<open>our\<close>.\<close>

definition removed :: "upb_tabent list \<Rightarrow> upb_tabent list \<Rightarrow> nat \<Rightarrow> nat \<Rightarrow> bool" where
  "removed es es' gone our \<longleftrightarrow>
     length es' = length es \<and> used es gone \<and> used es our \<and>
     (\<forall>i < length es. ent_key (es' ! i) =
        (if i = gone then upb_key_empty else if i = our then ent_key (es ! gone) else ent_key (es ! i))) \<and>
     (\<forall>i < length es. i \<noteq> gone \<longrightarrow> ent_val (es' ! i) =
        (if i = our then ent_val (es ! gone) else ent_val (es ! i)))"

lemma removed_used:
  assumes "removed es es' gone our"
  shows "used es' i \<longleftrightarrow> used es i \<and> i \<noteq> gone"
proof (cases "i < length es")
  case True
  then have "ent_key (es' ! i) =
      (if i = gone then upb_key_empty else if i = our then ent_key (es ! gone) else ent_key (es ! i))"
    using assms unfolding removed_def by blast
  then show ?thesis
    using assms True unfolding removed_def used_def upb_tabent_isempty_def
    by (elim conjE) (cases "i = our"; cases "i = gone"; simp)
next
  case False
  then show ?thesis using assms unfolding removed_def used_def by (elim conjE) auto
qed

lemma removed_key:
  assumes "removed es es' gone our" "i < length es" "i \<noteq> gone"
  shows "key_at es' i = (if i = our then key_at es gone else key_at es i)"
    and "ent_val (es' ! i) = (if i = our then ent_val (es ! gone) else ent_val (es ! i))"
  using assms by (simp_all add: removed_def key_at_def)

lemma removed_inj:
  assumes r: "removed es es' gone our" and inj: "inj_on (key_at es) {i. used es i}"
  shows "inj_on (key_at es') {i. used es' i}"
proof (rule inj_onI)
  fix i j assume "i \<in> {i. used es' i}" "j \<in> {i. used es' i}" and eq: "key_at es' i = key_at es' j"
  then have ij: "used es i" "i \<noteq> gone" "used es j" "j \<noteq> gone" using removed_used [OF r] by auto
  have u: "used es gone" "used es our" using r by (auto simp: removed_def)
  have b: "i < length es" "j < length es" using ij by (auto simp: used_def)
  have "key_at es i' = key_at es j' \<longleftrightarrow> i' = j'" if "used es i'" "used es j'" for i' j'
    using inj that by (auto simp: inj_on_def)
  then show "i = j"
    using eq ij u unfolding removed_key(1) [OF r b(1) ij(2)] removed_key(1) [OF r b(2) ij(4)]
    by (metis (full_types))
qed

lemma removed_map:
  assumes r: "removed (entries t) (entries t') gone our"
    and inj: "inj_on (key_at (entries t)) {i. used (entries t) i}"
  shows "table_map t' = (table_map t)(key_at (entries t) our := None)"
proof (rule ext)
  fix k
  let ?es = "entries t" and ?es' = "entries t'" and ?key = "key_at (entries t) our"
  have inj': "inj_on (key_at ?es') {i. used ?es' i}" by (rule removed_inj [OF r inj])
  have u: "used ?es gone" "used ?es our" using r by (auto simp: removed_def)
  have eq: "i = j" if "used ?es i" "used ?es j" "key_at ?es i = key_at ?es j" for i j
    using inj that by (auto simp: inj_on_def)
  have "table_map t' k = Some v \<longleftrightarrow> ((table_map t)(?key := None)) k = Some v" for v
  proof (cases "k = ?key")
    case True
    have "key_at ?es' i \<noteq> ?key" if "used ?es' i" for i
    proof -
      have i: "used ?es i" "i \<noteq> gone" using that removed_used [OF r] by auto
      then have "i < length ?es" by (simp add: used_def)
      from removed_key(1) [OF r this i(2)] show ?thesis using eq [of i our] eq [of gone our] i u by auto
    qed
    then show ?thesis using table_map_Some [OF inj'] True by auto
  next
    case False
    have "(\<exists>i. used ?es' i \<and> key_at ?es' i = k \<and> ent_val (?es' ! i) = v) \<longleftrightarrow>
      (\<exists>i. used ?es i \<and> key_at ?es i = k \<and> ent_val (?es ! i) = v)"
    proof
      assume "\<exists>i. used ?es' i \<and> key_at ?es' i = k \<and> ent_val (?es' ! i) = v"
      then obtain i where i: "used ?es' i" "key_at ?es' i = k" "ent_val (?es' ! i) = v" by blast
      then have i': "used ?es i" "i \<noteq> gone" using removed_used [OF r] by auto
      then have b: "i < length ?es" by (simp add: used_def)
      show "\<exists>i. used ?es i \<and> key_at ?es i = k \<and> ent_val (?es ! i) = v"
        using i(2,3) i' u(1) unfolding removed_key [OF r b i'(2)] by (cases "i = our") auto
    next
      assume "\<exists>i. used ?es i \<and> key_at ?es i = k \<and> ent_val (?es ! i) = v"
      then obtain i where i: "used ?es i" "key_at ?es i = k" "ent_val (?es ! i) = v" by blast
      have ne: "i \<noteq> our" using i(2) False by auto
      have b: "i < length ?es" "our < length ?es" using i(1) u by (auto simp: used_def)
      show "\<exists>i. used ?es' i \<and> key_at ?es' i = k \<and> ent_val (?es' ! i) = v"
      proof (cases "i = gone")
        case True
        then have "our \<noteq> gone" using ne by simp
        from removed_key [OF r b(2) this] show ?thesis
          using True i u \<open>our \<noteq> gone\<close> removed_used [OF r] by (intro exI [of _ our]) auto
      next
        case False
        from removed_key [OF r b(1) this] show ?thesis
          using False ne i removed_used [OF r] by (intro exI [of _ i]) auto
      qed
    qed
    then show ?thesis using table_map_Some [OF inj'] table_map_Some [OF inj] False by simp
  qed
  then show "table_map t' k = ((table_map t)(?key := None)) k" by (metis not_None_eq)
qed

lemma removed_chains:
  assumes r: "removed es es' gone our" and C: "chains_ok mp es C" and mp: "mp (key_at es gone) = mp (key_at es our)"
    and set: "\<And>b. set (C' b) = set (C b) - {gone}"
    and seg: "\<And>b. C' b \<noteq> [] \<Longrightarrow> lseg es' (Some b) (C' b) None"
  shows "chains_ok mp es' C'"
  unfolding chains_ok_def
proof (intro allI conjI impI)
  fix b i
  show "i \<in> set (C' b) \<longleftrightarrow> used es' i \<and> mp (key_at es' i) = b"
  proof (cases "used es i \<and> i \<noteq> gone")
    case True
    then have "i < length es" by (simp add: used_def)
    from removed_key(1) [OF r this] True show ?thesis
      unfolding set removed_used [OF r] using chain_mem [OF C, of i b] mp by auto
  next
    case False
    then show ?thesis unfolding set removed_used [OF r] using chain_mem [OF C, of i b] by auto
  qed
qed (rule seg)

lemma removed_ok:
  assumes ok: "table_ok h V t" and r: "removed (entries t) es' gone our"
    and C: "chains_ok (\<lambda>k. getentry t (h k)) es' C"
  defines "t' \<equiv> t\<lparr>tab_count := tab_count t - 1, entries := es'\<rparr>"
  shows "table_ok h V t'" and "table_map t' = (table_map t)(key_at (entries t) our := None)"
    and "unat (tab_count t') = unat (tab_count t) - 1"
proof -
  let ?es = "entries t"
  have inj: "inj_on (key_at ?es) {i. used ?es i}" and cnt: "unat (tab_count t) = card {i. used ?es i}"
    and valid: "\<And>i. used ?es i \<Longrightarrow> key_at ?es i \<in> V" and size: "length ?es = upb_table_size t"
    and pow: "\<exists>k < 32. tab_mask t = of_nat (2 ^ k) - 1"
    using ok by (auto simp: table_ok_def)
  have u: "used ?es gone" "used ?es our" using r by (auto simp: removed_def)
  have mp: "getentry t' = getentry t" by (rule getentry_mask) (simp add: t'_def)
  have r': "removed (entries t) (entries t') gone our" using r by (simp add: t'_def)
  have "{i. used es' i} = {i. used ?es i} - {gone}" using removed_used [OF r] by auto
  then have card: "card {i. used es' i} = card {i. used ?es i} - 1" using u(1) by simp
  have "0 < card {i. used ?es i}" using u(1) by (auto simp: card_gt_0_iff)
  then have "1 \<le> tab_count t" using cnt by (simp add: word_le_nat_alt)
  then show c': "unat (tab_count t') = unat (tab_count t) - 1" by (simp add: t'_def unat_sub)
  show "table_map t' = (table_map t)(key_at (entries t) our := None)"
    by (rule removed_map [OF r' inj])
  show "table_ok h V t'"
    unfolding table_ok_def mp
  proof (intro conjI allI impI)
    show "\<exists>C. chains_ok (\<lambda>k. getentry t (h k)) (entries t') C" using C by (auto simp: t'_def)
    show "length (entries t') = upb_table_size t'"
      using r size by (simp add: removed_def t'_def upb_table_size_def)
    show "key_at (entries t') j \<in> V" if "used (entries t') j" for j
    proof -
      have j: "used ?es j" "j \<noteq> gone" using that removed_used [OF r'] by auto
      then have "j < length ?es" by (simp add: used_def)
      from removed_key(1) [OF r' this j(2)] show ?thesis using valid [OF j(1)] valid [OF u(1)] by auto
    qed
    show "inj_on (key_at (entries t')) {i. used (entries t') i}" by (rule removed_inj [OF r' inj])
  qed (use pow card cnt c' in \<open>simp_all add: t'_def\<close>)
qed

section \<open>Removal\<close>

text \<open>The two ways to unlink: the head of a chain with a successor takes over the successor's
  content; any other entry is skipped by its predecessor.\<close>

lemma unlink_head:
  assumes C: "chains_ok mp es C" and b: "used es b" "mp (key_at es b) = b" and nx: "ent_next (es ! b) = Some m"
  defines "es' \<equiv> upd_ent m (ent_key_update (\<lambda>_. upb_key_empty)) (es[b := es ! m])"
  shows "m < length es \<and> removed es es' m b \<and> (\<exists>C'. chains_ok mp es' C')"
proof -
  have bl: "b < length es" using b(1) by (simp add: used_def)
  have "b \<in> set (C b)" using chain_mem [OF C] b by simp
  then obtain zs where "C b = b # zs" using chain_head [OF C, of b] by fastforce
  moreover from this have "lseg es (Some m) zs None" using chain_lseg [OF C, of b] nx by simp
  ultimately obtain ws where C_b: "C b = b # m # ws" and seg: "lseg es (ent_next (es ! m)) ws None"
    and ml: "m < length es"
    by (cases zs) auto
  have dist: "distinct (b # m # ws)" using lseg_distinct [of es "Some b" "C b"] chain_lseg [OF C, of b] C_b by simp
  have m: "used es m" "mp (key_at es m) = b" using chain_mem [OF C, of m b] C_b by auto
  have r: "removed es es' m b"
    using b(1) m(1) bl ml dist by (auto simp: removed_def es'_def nth_upd_ent nth_list_update)
  have nxt: "ent_next (es' ! i) = (if i = b then ent_next (es ! m) else ent_next (es ! i))" if "i < length es" for i
    using that bl ml dist by (auto simp: es'_def nth_upd_ent nth_list_update)
  have "chains_ok mp es' (C(b := b # ws))"
  proof (rule removed_chains [OF r C])
    show "mp (key_at es m) = mp (key_at es b)" using m(2) b(2) by simp
    fix c
    show "set ((C(b := b # ws)) c) = set (C c) - {m}"
      using C_b dist m(2) chain_mem [OF C, of m c] by auto
    show "lseg es' (Some c) ((C(b := b # ws)) c) None" if "(C(b := b # ws)) c \<noteq> []"
    proof (cases "c = b")
      case True
      have "lseg es' (ent_next (es ! m)) ws None"
        by (rule lseg_cong [OF seg]; (subst nxt)?) (use dist lseg_bound [OF seg] in \<open>auto simp: es'_def\<close>)
      then show ?thesis using True bl by (simp add: nxt) (simp add: es'_def)
    next
      case False
      have "b \<notin> set (C c)" using chain_mem [OF C, of b c] b(2) False by auto
      moreover have "set (C c) \<subseteq> {..<length es}" using chain_mem [OF C, of _ c] by (auto simp: used_def)
      ultimately show ?thesis using False that
        by (auto intro!: lseg_other [OF C] simp: nxt) (auto simp: es'_def)
    qed
  qed
  with r ml show ?thesis by blast
qed

lemma unlink_alone:
  assumes C: "chains_ok mp es C" and b: "used es b" "mp (key_at es b) = b" and nx: "ent_next (es ! b) = None"
  defines "es' \<equiv> upd_ent b (ent_key_update (\<lambda>_. upb_key_empty)) es"
  shows "removed es es' b b \<and> (\<exists>C'. chains_ok mp es' C')"
proof -
  have bl: "b < length es" using b(1) by (simp add: used_def)
  have "b \<in> set (C b)" using chain_mem [OF C] b by simp
  then obtain zs where zs: "C b = b # zs" using chain_head [OF C, of b] by fastforce
  then have "lseg es None zs None" using chain_lseg [OF C, of b] nx by simp
  then have C_b: "C b = [b]" using zs by (cases zs) auto
  have r: "removed es es' b b" using b(1) bl by (auto simp: removed_def es'_def nth_upd_ent)
  have "chains_ok mp es' (C(b := []))"
  proof (rule removed_chains [OF r C refl])
    fix c
    show "set ((C(b := [])) c) = set (C c) - {b}" using C_b b(2) chain_mem [OF C, of b c] by auto
    show "lseg es' (Some c) ((C(b := [])) c) None" if "(C(b := [])) c \<noteq> []"
      using that bl by (auto intro!: lseg_other [OF C] simp: es'_def nth_upd_ent split: if_splits)
  qed
  with r show ?thesis by blast
qed

lemma unlink_inner:
  assumes C: "chains_ok mp es C" and split: "C b = ys @ rm # zs" and ys: "ys \<noteq> []"
  defines "es' \<equiv> upd_ent (last ys) (ent_next_update (\<lambda>_. ent_next (es ! rm)))
      (upd_ent rm (ent_key_update (\<lambda>_. upb_key_empty)) es)"
  shows "removed es es' rm rm \<and> (\<exists>C'. chains_ok mp es' C')"
proof -
  have seg: "lseg es (Some b) (ys @ rm # zs) None" using chain_lseg [OF C, of b] split by simp
  then have dist: "distinct (ys @ rm # zs)" by (rule lseg_distinct)
  have rm: "used es rm" "mp (key_at es rm) = b" using chain_mem [OF C, of rm b] split by auto
  then have rml: "rm < length es" by (simp add: used_def)
  obtain ws where ws: "ys = ws @ [last ys]" using ys by (metis append_butlast_last_id)
  let ?p = "last ys"
  have p: "?p \<in> set ys" using ys by simp
  have pu: "used es ?p" "mp (key_at es ?p) = b" using chain_mem [OF C, of ?p b] split p by auto
  then have pl: "?p < length es" by (simp add: used_def)
  have pne: "?p \<noteq> rm" "?p \<notin> set zs" using p dist by auto
  have "?p \<notin> set ws" using dist ws by (metis distinct_append not_distinct_conv_prefix)
  have r: "removed es es' rm rm" using rm rml pl pne by (auto simp: removed_def es'_def nth_upd_ent)
  have len: "length es' = length es" by (simp add: es'_def)
  have nxt: "ent_next (es' ! i) = (if i = ?p then ent_next (es ! rm) else ent_next (es ! i))" if "i < length es" for i
    using that pl rml pne by (auto simp: es'_def nth_upd_ent)
  have segw: "lseg es (Some b) ws (Some ?p)" and segz: "lseg es (ent_next (es ! rm)) zs None"
    using seg by (subst (asm) ws; auto simp: lseg_append)+
  have "lseg es' (Some b) ws (Some ?p)"
    by (rule lseg_cong [OF segw len], subst nxt)
      (use \<open>?p \<notin> set ws\<close> lseg_bound [OF segw] in auto)
  moreover have "lseg es' (ent_next (es ! rm)) zs None"
    by (rule lseg_cong [OF segz len], subst nxt) (use pne lseg_bound [OF segz] in auto)
  ultimately have "lseg es' (Some b) ((ws @ [?p]) @ zs) None"
    using pl by (auto simp: lseg_append len nxt)
  then have seg': "lseg es' (Some b) (ys @ zs) None" using ws by simp
  have "chains_ok mp es' (C(b := ys @ zs))"
  proof (rule removed_chains [OF r C refl])
    fix c
    show "set ((C(b := ys @ zs)) c) = set (C c) - {rm}"
      using split dist rm(2) chain_mem [OF C, of rm c] by auto
    show "lseg es' (Some c) ((C(b := ys @ zs)) c) None" if "(C(b := ys @ zs)) c \<noteq> []"
    proof (cases "c = b")
      case True
      then show ?thesis using seg' by simp
    next
      case False
      have "?p \<notin> set (C c)" using chain_mem [OF C, of ?p c] pu(2) False by auto
      moreover have "set (C c) \<subseteq> {..<length es}" using chain_mem [OF C, of _ c] by (auto simp: used_def)
      ultimately show ?thesis using False that
        by (auto intro!: lseg_other [OF C _ len] simp: nxt)
    qed
  qed
  with r show ?thesis by blast
qed

context hash_table
begin

text \<open>The walk to the predecessor of the key's entry.\<close>

lemma rm_loop_absent:
  "lseg es (Some c) (c # xs) None \<Longrightarrow> \<forall>i\<in>set xs. key_at es i \<in> V \<and> key_at es i \<noteq> key \<Longrightarrow> key \<in> V \<Longrightarrow>
    length (c # xs) \<le> n \<Longrightarrow> \<exists>p. rm_loop eql es n key c = Ok p \<and> p < length es \<and> ent_next (es ! p) = None"
proof (induction xs arbitrary: c n)
  case Nil
  then obtain n' where "n = Suc n'" by (cases n) auto
  with Nil show ?case by (auto simp: ent_at_def)
next
  case (Cons x xs)
  then obtain n' where "n = Suc n'" by (cases n) auto
  with Cons show ?case by (auto simp: ent_at_def eql key_at_def)
qed

lemma rm_loop_present:
  "lseg es (Some c) (c # ys @ r # zs) None \<Longrightarrow> \<forall>i\<in>set ys. key_at es i \<in> V \<and> key_at es i \<noteq> key \<Longrightarrow>
    key_at es r = key \<Longrightarrow> key \<in> V \<Longrightarrow> length (c # ys @ r # zs) \<le> n \<Longrightarrow>
    rm_loop eql es n key c = Ok (last (c # ys)) \<and> ent_next (es ! last (c # ys)) = Some r"
proof (induction ys arbitrary: c n)
  case Nil
  then obtain n' where "n = Suc n'" by (cases n) auto
  with Nil show ?case by (auto simp: ent_at_def eql key_at_def)
next
  case (Cons y ys)
  then obtain n' where "n = Suc n'" by (cases n) auto
  with Cons show ?case by (auto simp: ent_at_def eql key_at_def)
qed

lemma rm_spec:
  assumes ok: "table_ok h V t" and key: "key \<in> V"
  shows "\<exists>t'. table_rm eql t key (h key) = Ok (t', table_map t key) \<and> table_ok h V t' \<and>
    table_map t' = (table_map t)(key := None) \<and> tab_mask t' = tab_mask t \<and>
    unat (tab_count t') = unat (tab_count t) - (if table_map t key = None then 0 else 1)"
proof -
  let ?es = "entries t" and ?mp = "\<lambda>k. getentry t (h k)" and ?m = "getentry t (h key)"
  from ok obtain C where C: "chains_ok ?mp ?es C" and valid: "\<And>i. used ?es i \<Longrightarrow> key_at ?es i \<in> V"
    and inj: "inj_on (key_at ?es) {i. used ?es i}" by (auto simp: table_ok_def)
  have ml: "?m < length ?es" by (rule getentry_less [OF ok])
  have none: "table_map t key = None" if "\<And>i. i \<in> set (C ?m) \<Longrightarrow> key_at ?es i \<noteq> key"
    using that chain_mem [OF C, of _ ?m] table_map_Some [OF inj, of key] by (cases "table_map t key") auto
  have found: "\<exists>t'. Ok (t\<lparr>tab_count := tab_count t - 1, entries := es'\<rparr>, Some (ent_val (?es ! our))) =
      Ok (t', table_map t key) \<and> table_ok h V t' \<and> table_map t' = (table_map t)(key := None) \<and>
      tab_mask t' = tab_mask t \<and>
      unat (tab_count t') = unat (tab_count t) - (if table_map t key = None then 0 else 1)"
    if "removed ?es es' gone our" "chains_ok ?mp es' C'" "key_at ?es our = key" for es' gone our C'
  proof -
    have "used ?es our" using that(1) by (simp add: removed_def)
    then have "table_map t key = Some (ent_val (?es ! our))" using that(3) table_map_Some [OF inj] by blast
    then show ?thesis using removed_ok [OF ok that(1,2)] that(3) by simp
  qed
  show ?thesis
  proof (cases "used ?es ?m")
    case False
    then have "upb_tabent_isempty (?es ! ?m)" using ml by (simp add: used_def)
    moreover have "C ?m = []" using chain_empty_head [OF C] False by blast
    then have m: "table_map t key = None" using none by simp
    ultimately show ?thesis using ml ok by (auto simp: table_rm_def Let_def ent_at_def)
  next
    case u: True
    then have ne: "\<not> upb_tabent_isempty (?es ! ?m)" by (simp add: used_def)
    have eq: "eql (ent_key (?es ! ?m)) key = Ok (key_at ?es ?m = key)"
      using eql [OF valid [OF u] key] by (simp add: key_at_def)
    show ?thesis
    proof (cases "key_at ?es ?m = key")
      case True
      then have mp: "?mp (key_at ?es ?m) = ?m" by simp
      show ?thesis
      proof (cases "ent_next (?es ! ?m)")
        case None
        have rm: "table_rm eql t key (h key) = Ok (t\<lparr>tab_count := tab_count t - 1,
            entries := upd_ent ?m (ent_key_update (\<lambda>_. upb_key_empty)) ?es\<rparr>, Some (ent_val (?es ! ?m)))"
          using ml ne eq True None by (simp add: table_rm_def Let_def ent_at_def)
        obtain C' where "removed ?es (upd_ent ?m (ent_key_update (\<lambda>_. upb_key_empty)) ?es) ?m ?m"
          "chains_ok ?mp (upd_ent ?m (ent_key_update (\<lambda>_. upb_key_empty)) ?es) C'"
          using unlink_alone [OF C u mp None] by blast
        from found [OF this True] show ?thesis unfolding rm .
      next
        case (Some mv)
        then have mv: "mv < length ?es" using unlink_head [OF C u mp Some] by blast
        have rm: "table_rm eql t key (h key) = Ok (t\<lparr>tab_count := tab_count t - 1,
            entries := upd_ent mv (ent_key_update (\<lambda>_. upb_key_empty)) (?es[?m := ?es ! mv])\<rparr>,
            Some (ent_val (?es ! ?m)))"
          using ml ne eq True Some mv by (simp add: table_rm_def Let_def ent_at_def)
        obtain C' where "removed ?es (upd_ent mv (ent_key_update (\<lambda>_. upb_key_empty)) (?es[?m := ?es ! mv])) mv ?m"
          "chains_ok ?mp (upd_ent mv (ent_key_update (\<lambda>_. upb_key_empty)) (?es[?m := ?es ! mv])) C'"
          using unlink_head [OF C u mp Some] by blast
        from found [OF this True] show ?thesis unfolding rm .
      qed
    next
      case False
      let ?b = "?mp (key_at ?es ?m)"
      have "?m \<in> set (C ?b)" using u chain_mem [OF C] by simp
      then obtain ys zs where split: "C ?b = ys @ ?m # zs" by (meson split_list)
      then have seg: "lseg ?es (Some ?m) (?m # zs) None"
        using chain_lseg [OF C, of ?b] lseg_nth_suffix [of ?es "Some ?b" ys ?m zs None] by simp
      have len: "length (?m # zs) \<le> length ?es" by (rule lseg_length [OF seg])
      have validz: "key_at ?es i \<in> V" if "i \<in> set zs" for i
        using that split valid chain_mem [OF C, of i ?b] by auto
      show ?thesis
      proof (cases "\<exists>i\<in>set zs. key_at ?es i = key")
        case present: True
        then obtain ws r vs where zs: "zs = ws @ r # vs" "key_at ?es r = key" "\<forall>i\<in>set ws. key_at ?es i \<noteq> key"
          using split_list_first_prop [OF present] by blast
        let ?p = "last (?m # ws)"
        have loop: "rm_loop eql ?es (length ?es) key ?m = Ok ?p" "ent_next (?es ! ?p) = Some r"
          using rm_loop_present [of ?es ?m ws r vs key "length ?es"] seg len zs validz key by auto
        have split': "C ?b = (ys @ ?m # ws) @ r # vs" using split zs(1) by simp
        have "?p \<in> set (C ?b)" "r \<in> set (C ?b)" using split' by auto
        then have b: "?p < length ?es" "r < length ?es" using chain_mem [OF C, of _ ?b] by (auto simp: used_def)
        have rm: "table_rm eql t key (h key) = Ok (t\<lparr>tab_count := tab_count t - 1,
            entries := upd_ent ?p (ent_next_update (\<lambda>_. ent_next (?es ! r)))
              (upd_ent r (ent_key_update (\<lambda>_. upb_key_empty)) ?es)\<rparr>, Some (ent_val (?es ! r)))"
          using ml ne eq False loop b by (simp add: table_rm_def Let_def ent_at_def)
        have "last (ys @ ?m # ws) = ?p" by simp
        then obtain C' where "removed ?es (upd_ent ?p (ent_next_update (\<lambda>_. ent_next (?es ! r)))
              (upd_ent r (ent_key_update (\<lambda>_. upb_key_empty)) ?es)) r r"
          "chains_ok ?mp (upd_ent ?p (ent_next_update (\<lambda>_. ent_next (?es ! r)))
              (upd_ent r (ent_key_update (\<lambda>_. upb_key_empty)) ?es)) C'"
          using unlink_inner [OF C split'] by auto
        from found [OF this zs(2)] show ?thesis unfolding rm .
      next
        case absent: False
        then obtain p where p: "rm_loop eql ?es (length ?es) key ?m = Ok p" "p < length ?es" "ent_next (?es ! p) = None"
          using rm_loop_absent [OF seg _ key len] validz by auto
        have "table_map t key = None"
        proof (rule none)
          fix i assume i: "i \<in> set (C ?m)"
          then obtain ws where ws: "C ?m = ?m # ws" using chain_head [OF C, of ?m] by fastforce
          then have "lseg ?es (Some ?m) (?m # ws) None" using chain_lseg [OF C, of ?m] by simp
          then have "?m # ws = ?m # zs" using seg by (rule lseg_unique)
          then show "key_at ?es i \<noteq> key" using i ws False absent by auto
        qed
        then show ?thesis using ml ne eq False p ok by (auto simp: table_rm_def Let_def ent_at_def)
      qed
    qed
  qed
qed

end

end
