(* ===== verification/TableIter.thy ===== *)
theory TableIter
  imports TableRemove
begin

text \<open>
  Iteration over the chained table visits every entry in use once, in the order of the array; from
  that, rehashing into a bigger table keeps the map.
\<close>

lemma next_loop_eq:
  assumes "length (entries t) = upb_table_size t" "i \<le> upb_table_size t"
  shows "next_loop t i = (case filter (used (entries t)) [i..<upb_table_size t] of
    [] \<Rightarrow> - 2 | j # js \<Rightarrow> of_nat j)"
  using assms
proof (induction t i rule: next_loop.induct)
  case (1 t i)
  show ?case
  proof (cases "i < upb_table_size t")
    case False
    then show ?thesis using "1.prems" by (simp add: next_loop.simps)
  next
    case True
    then have upt: "[i..<upb_table_size t] = i # [Suc i..<upb_table_size t]" by (rule upt_conv_Cons)
    show ?thesis
    proof (cases "upb_tabent_isempty (entries t ! i)")
      case e: True
      then show ?thesis
        using "1.IH" True "1.prems" by (simp add: next_loop.simps [of t i] upt used_def)
    next
      case e: False
      have "next_loop t i = of_nat i" using True e by (subst next_loop.simps) auto
      then show ?thesis using True e "1.prems"(1) by (simp add: upt used_def)
    qed
  qed
qed

lemma filter_upt_Cons:
  assumes "filter P [i..<n] = j # js"
  shows "i \<le> j" "j < n" "P j" "js = filter P [Suc j..<n]"
proof -
  from assms obtain us vs where split: "[i..<n] = us @ j # vs" "\<forall>u\<in>set us. \<not> P u" "P j" "js = filter P vs"
    by (metis filter_eq_Cons_iff)
  from split(1) have "j \<in> set [i..<n]" by (metis in_set_conv_decomp)
  then show "i \<le> j" "j < n" by auto
  have len: "length us < n - i" using arg_cong [OF split(1), of length] by simp
  have "j = [i..<n] ! length us" by (simp add: split(1))
  then have "j = i + length us" using len by simp
  moreover have "vs = drop (Suc (length us)) [i..<n]" by (simp add: split(1))
  ultimately show "js = filter P [Suc j..<n]" by (simp add: split(4) add.commute)
qed (metis assms list.set_intros(1) mem_Collect_eq set_filter)

lemma foreach_from:
  assumes len: "length (entries t) = upb_table_size t" and i: "i \<le> upb_table_size t"
  shows "table_foreach t f (next_loop t i) a =
    fold_cres f (map ((!) (entries t)) (filter (used (entries t)) [i..<upb_table_size t])) a"
  using i
proof (induction "upb_table_size t - i" arbitrary: i a rule: less_induct)
  case less
  let ?n = "upb_table_size t" and ?xs = "filter (used (entries t)) [i..<upb_table_size t]"
  have n: "?n < 2 ^ 32" by (simp add: upb_table_size_def)
  show ?case
  proof (cases ?xs)
    case Nil
    then have "next_loop t i = - 2" using next_loop_eq [OF len less.prems] by simp
    then show ?thesis using n Nil by (simp add: table_foreach.simps)
  next
    case (Cons j js)
    note j = filter_upt_Cons [OF Cons]
    have nx: "next_loop t i = of_nat j" using next_loop_eq [OF len less.prems] Cons by simp
    have uj: "unat (of_nat j :: u64) = j" using j(2) n by (simp add: unat_of_nat)
    have "unat (of_nat j + 1 :: u64) = j + 1" using j(2) n by (simp add: unat_of_nat unat_word_ariths)
    then have "table_next t (of_nat j) = next_loop t (Suc j)" by (simp add: table_next_def)
    moreover have "table_foreach t f (next_loop t (Suc j)) = fold_cres f (map ((!) (entries t)) js)"
      by (rule ext) (use less.hyps [of "Suc j"] j in simp)
    ultimately show ?thesis
      using j(2) len unfolding nx Cons
      by (subst table_foreach.simps) (simp add: uj ent_at_def)
  qed
qed

text \<open>The entries in use, in the order of the array.\<close>

definition used_entries :: "upb_table \<Rightarrow> upb_tabent list" where
  "used_entries t = filter (\<lambda>e. \<not> upb_tabent_isempty e) (entries t)"

lemma used_entries_nth:
  "used_entries t = map ((!) (entries t)) (filter (used (entries t)) [0..<length (entries t)])"
proof -
  have "filter (used (entries t)) [0..<length (entries t)] =
    filter (\<lambda>i. \<not> upb_tabent_isempty (entries t ! i)) [0..<length (entries t)]"
    by (rule filter_cong) (auto simp: used_def)
  then show ?thesis
    using filter_map [of "\<lambda>e. \<not> upb_tabent_isempty e" "(!) (entries t)" "[0..<length (entries t)]"]
    by (simp add: used_entries_def map_nth comp_def)
qed

lemma foreach_eq:
  assumes "table_ok h V t"
  shows "table_foreach t f (table_begin t) a = fold_cres f (used_entries t) a"
proof -
  have len: "length (entries t) = upb_table_size t" using assms by (simp add: table_ok_def)
  then show ?thesis
    using foreach_from [OF len, of 0 f a] by (simp add: table_begin_def table_next_def used_entries_nth)
qed

lemma table_map_used: "table_map t = map_of (map (\<lambda>e. (ent_key e, ent_val e)) (used_entries t))"
  by (simp add: table_map_def used_entries_def)

lemma distinct_used_keys:
  assumes "table_ok h V t"
  shows "distinct (map ent_key (used_entries t))"
proof -
  have "inj_on (key_at (entries t)) (set (filter (used (entries t)) [0..<length (entries t)]))"
    using assms by (auto simp: table_ok_def intro: inj_on_subset)
  moreover have "map ent_key (used_entries t) =
    map (key_at (entries t)) (filter (used (entries t)) [0..<length (entries t)])"
    by (simp add: used_entries_nth key_at_def)
  ultimately show ?thesis by (simp add: distinct_map)
qed

lemma length_used_entries:
  assumes "table_ok h V t"
  shows "length (used_entries t) = unat (tab_count t)"
proof -
  have "{i. used (entries t) i} = set (filter (used (entries t)) [0..<length (entries t)])"
    by (auto simp: used_def)
  then have "card {i. used (entries t) i} = length (filter (used (entries t)) [0..<length (entries t)])"
    by (metis distinct_card distinct_filter distinct_upt)
  then show ?thesis using assms by (simp add: table_ok_def used_entries_nth)
qed

lemma used_entries_valid:
  assumes "table_ok h V t" "e \<in> set (used_entries t)"
  shows "ent_key e \<in> V"
  using assms by (auto simp: table_ok_def used_entries_nth key_at_def)

lemma init_ok:
  assumes "table_init malloc size_lg2 a = (Some t, a')"
  shows "table_ok h V t" "table_map t = Map.empty" "tab_count t = 0"
    "length (entries t) = 2 ^ size_lg2" "tab_mask t = of_nat (2 ^ size_lg2) - 1" "size_lg2 < 32"
proof -
  from assms show lt: "size_lg2 < 32" by (simp add: table_init_def split: if_splits)
  from assms have t: "t = \<lparr>entries = replicate (2 ^ size_lg2) zero_ent, tab_count = 0,
      tab_mask = of_nat (2 ^ size_lg2) - 1\<rparr>"
    by (auto simp: table_init_def Let_def split: if_splits prod.splits)
  have none: "\<not> used (entries t) i" for i
    by (auto simp: t used_def zero_ent_def upb_tabent_isempty_def)
  then show "table_map t = Map.empty"
    by (auto simp: t table_map_def filter_empty_conv zero_ent_def upb_tabent_isempty_def)
  show m: "tab_mask t = of_nat (2 ^ size_lg2) - 1" and "tab_count t = 0" by (simp_all only: t upb_table.select_convs)
  show len: "length (entries t) = 2 ^ size_lg2" by (simp add: t)
  have "chains_ok mp (entries t) (\<lambda>_. [])" for mp using none by (simp add: chains_ok_def)
  then show "table_ok h V t"
    unfolding table_ok_def using m lt none len table_size_pow(1) [OF m lt] \<open>tab_count t = 0\<close>
    by (auto simp: inj_on_def)
qed

lemma popcnt_mask:
  assumes "k < 32"
  shows "upb_popcnt32 (of_nat (2 ^ k) - 1) = k"
  using assms
proof (induction k)
  case (Suc k)
  define w :: u32 where "w = of_nat (2 ^ Suc k) - 1"
  have "(2::nat) ^ Suc k < 2 ^ 32" by (rule power_strict_increasing) (use Suc.prems in auto)
  then have lt: "2 ^ Suc k - 1 < (2::nat) ^ 32" by simp
  have "w = of_nat (2 ^ Suc k - 1)" by (simp add: w_def of_nat_diff)
  then have w: "unat w = 2 ^ Suc k - 1" using lt by (simp only: unat_of_nat len_num1 len_bit0) simp
  have "w \<noteq> 0" using w by (metis One_nat_def one_less_numeral_iff one_less_power power_eq_0_iff
        semiring_norm(76) unat_0 zero_less_Suc zero_less_diff less_numeral_extra(3))
  have "unat (drop_bit 1 w) = 2 ^ k - 1" by (simp only: unat_drop_bit_div w) simp
  then have "drop_bit 1 w = of_nat (2 ^ k) - 1"
  proof -
    have "drop_bit 1 w = of_nat (unat (drop_bit 1 w))" by simp
    also have "\<dots> = of_nat (2 ^ k - 1)" using \<open>unat (drop_bit 1 w) = 2 ^ k - 1\<close> by (simp only:)
    finally show ?thesis by (simp add: of_nat_diff)
  qed
  moreover have "w AND 1 = 1"
  proof -
    have "odd (unat w)" using w by simp
    then have "odd w" using bit_iff_odd_unat [of w 0] by (simp add: bit_0)
    then show ?thesis by (simp add: and_one_eq odd_iff_mod_2_eq_one)
  qed
  ultimately have "upb_popcnt32 w = Suc k"
    using Suc \<open>w \<noteq> 0\<close> by (subst upb_popcnt32.simps) simp
  then show ?case by (simp add: w_def)
qed (simp add: upb_popcnt32.simps)

lemma log2_table_size:
  assumes "table_ok h V t"
  shows "upb_table_size t = 2 ^ upb_log2_table_size t \<and> upb_log2_table_size t < 32"
  using assms table_size_pow(1) [of t] popcnt_mask unfolding table_ok_def upb_log2_table_size_def by fastforce

lemma isfull_iff:
  assumes "table_ok h V t"
  shows "isfull t \<longleftrightarrow> unat (tab_count t) = upb_table_size t - upb_table_size t div 8"
proof -
  let ?n = "upb_table_size t" and ?w = "of_nat (upb_table_size t) :: u32"
  have n: "?n < 2 ^ 32" by (simp add: upb_table_size_def)
  have w: "unat ?w = ?n" using n by (simp add: unat_of_nat)
  have d: "unat (drop_bit 3 ?w) = ?n div 8" unfolding unat_drop_bit_div w by simp
  then have "drop_bit 3 ?w \<le> ?w" by (simp add: word_le_nat_alt w)
  then have "unat (?w - drop_bit 3 ?w) = ?n - ?n div 8" by (simp add: unat_sub w d)
  then show ?thesis unfolding isfull_def Let_def by (metis word_unat_eq_iff)
qed

lemma table_init_total:
  assumes "table_ok h V t" "\<And>n a. fst (malloc n a)" "upb_table_size t < 2 ^ 31"
  shows "fst (table_init malloc (upb_log2_table_size t + 1) a) \<noteq> None"
proof -
  have "(2::nat) ^ upb_log2_table_size t < 2 ^ 31" using assms(1,3) log2_table_size by metis
  then have "upb_log2_table_size t + 1 < 32" using power_less_imp_less_exp [of 2 _ 31] by simp
  then show ?thesis using assms(2)
    by (auto simp: table_init_def Let_def split: prod.splits) (metis fst_conv)
qed

context hash_table
begin

lemma rehash_fold:
  assumes "table_ok h V nt" "distinct (map ent_key es)" "\<And>e. e \<in> set es \<Longrightarrow> ent_key e \<in> V"
    and "\<And>e. e \<in> set es \<Longrightarrow> table_map nt (ent_key e) = None"
    and "unat (tab_count nt) + length es \<le> length (entries nt)"
  shows "\<exists>nt'. fold_cres (\<lambda>e nt. cbind (hashfunc (ent_key e)) (\<lambda>hash.
       table_insert hashfunc eql nt (ent_key e) (ent_key e) (ent_val e) hash)) es nt = Ok nt' \<and>
    table_ok h V nt' \<and> table_map nt' = table_map nt ++ map_of (map (\<lambda>e. (ent_key e, ent_val e)) es) \<and>
    tab_mask nt' = tab_mask nt \<and> unat (tab_count nt') = unat (tab_count nt) + length es"
  using assms
proof (induction es arbitrary: nt)
  case (Cons e es)
  have "unat (tab_count nt) < length (entries nt)" using Cons.prems(5) by simp
  with Cons.prems obtain nt1 where nt1: "table_insert hashfunc eql nt (ent_key e) (ent_key e) (ent_val e) (h (ent_key e)) = Ok nt1"
    "table_ok h V nt1" "table_map nt1 = (table_map nt)(ent_key e \<mapsto> ent_val e)" "tab_mask nt1 = tab_mask nt"
    "unat (tab_count nt1) = unat (tab_count nt) + 1"
    using insert_spec [of nt "ent_key e" "ent_val e"] by auto
  have len: "length (entries nt1) = length (entries nt)"
    using nt1(2,4) Cons.prems(1) by (simp add: table_ok_def upb_table_size_def)
  have "table_map nt1 (ent_key e') = None" if "e' \<in> set es" for e'
  proof -
    have "ent_key e' \<noteq> ent_key e" 
    proof
      assume "ent_key e' = ent_key e"
      then have "ent_key e \<in> ent_key ` set es" using that by (intro image_eqI [of _ _ e']) auto
      with Cons.prems(2) show False by simp
    qed
    then show ?thesis using that Cons.prems(4) [of e'] nt1(3) by simp
  qed
  then obtain nt' where "fold_cres (\<lambda>e nt. cbind (hashfunc (ent_key e)) (\<lambda>hash.
       table_insert hashfunc eql nt (ent_key e) (ent_key e) (ent_val e) hash)) es nt1 = Ok nt'"
    "table_ok h V nt'" "table_map nt' = table_map nt1 ++ map_of (map (\<lambda>e. (ent_key e, ent_val e)) es)"
    "tab_mask nt' = tab_mask nt1" "unat (tab_count nt') = unat (tab_count nt1) + length es"
    using Cons.IH [OF nt1(2)] Cons.prems(2,3,5) nt1(5) len by auto
  moreover have "(table_map nt)(ent_key e \<mapsto> ent_val e) ++ map_of (map (\<lambda>e. (ent_key e, ent_val e)) es) =
    table_map nt ++ map_of (map (\<lambda>e. (ent_key e, ent_val e)) (e # es))" (is "?l = ?r")
  proof -
    have "ent_key e \<notin> dom (map_of (map (\<lambda>e. (ent_key e, ent_val e)) es))"
      using Cons.prems(2) by (auto simp: dom_map_of_conv_image_fst)
    then show ?thesis by (auto simp: map_add_def fun_eq_iff split: option.splits)
  qed
  then have "table_map nt1 ++ map_of (map (\<lambda>e. (ent_key e, ent_val e)) es) = ?r"
    by (simp only: nt1(3))
  ultimately show ?case
    using nt1 Cons.prems(3) hashfunc by (intro exI [of _ nt']) (simp del: map_of.simps list.map(2))
qed auto

lemma rehash_spec:
  assumes ok: "table_ok h V t" and new: "table_ok h V nt" "table_map nt = Map.empty" "tab_count nt = 0"
    and room: "unat (tab_count t) \<le> length (entries nt)"
  obtains nt' where "table_rehash hashfunc eql t nt = Ok nt'" "table_ok h V nt'"
    "table_map nt' = table_map t" "tab_mask nt' = tab_mask nt" "unat (tab_count nt') = unat (tab_count t)"
proof -
  obtain nt' where "fold_cres (\<lambda>e nt. cbind (hashfunc (ent_key e)) (\<lambda>hash.
       table_insert hashfunc eql nt (ent_key e) (ent_key e) (ent_val e) hash)) (used_entries t) nt = Ok nt'"
    "table_ok h V nt'" "table_map nt' = table_map nt ++ map_of (map (\<lambda>e. (ent_key e, ent_val e)) (used_entries t))"
    "tab_mask nt' = tab_mask nt" "unat (tab_count nt') = unat (tab_count nt) + length (used_entries t)"
    using rehash_fold [OF new(1) distinct_used_keys [OF ok] used_entries_valid [OF ok]]
      new length_used_entries [OF ok] room by auto
  then show thesis
    using that [of nt'] foreach_eq [OF ok, of _ nt] new length_used_entries [OF ok] table_map_used [of t]
    by (simp add: table_rehash_def)
qed

text \<open>Growing a table: the new one has twice the slots, the same map and room for one more entry.\<close>

definition grown :: "upb_table \<Rightarrow> upb_table \<Rightarrow> bool" where
  "grown t nt \<longleftrightarrow> table_ok h V nt \<and> table_map nt = table_map t \<and>
     unat (tab_count nt) = unat (tab_count t) \<and> upb_table_size nt = 2 * upb_table_size t \<and>
     unat (tab_count nt) < upb_table_size nt - upb_table_size nt div 8"

lemma grow_spec:
  assumes ok: "table_ok h V t" and load: "unat (tab_count t) \<le> upb_table_size t - upb_table_size t div 8"
    and init: "table_init malloc (upb_log2_table_size t + 1) a = (Some nt, a')"
  obtains nt' where "table_rehash hashfunc eql t nt = Ok nt'" "grown t nt'"
proof -
  note nt = init_ok [OF init]
  have size: "upb_table_size nt = 2 * upb_table_size t" "0 < upb_table_size t"
    using nt(1,4) log2_table_size [OF ok] by (simp_all add: table_ok_def)
  have len: "length (entries nt) = 2 * upb_table_size t" using nt(1) size by (simp add: table_ok_def)
  have "unat (tab_count t) \<le> length (entries nt)" using load len by linarith
  then obtain nt' where nt': "table_rehash hashfunc eql t nt = Ok nt'" "table_ok h V nt'"
    "table_map nt' = table_map t" "tab_mask nt' = tab_mask nt" "unat (tab_count nt') = unat (tab_count t)"
    using rehash_spec [OF ok nt(1-3)] by metis
  have size': "upb_table_size nt' = 2 * upb_table_size t" using nt'(4) size(1) by (simp add: upb_table_size_def)
  have "2 * upb_table_size t div 8 < upb_table_size t" using size(2) by (intro less_mult_imp_div_less) simp
  then have "unat (tab_count nt') < upb_table_size nt' - upb_table_size nt' div 8"
    using load unfolding nt'(5) size' by linarith
  then show thesis using nt' size' by (intro that [of nt']) (simp_all add: grown_def)
qed

end

end
