(* ===== verification/StrTable.thy ===== *)
theory StrTable
  imports TableIter
begin

text \<open>
  The string tables of \<open>upb/hash/common.c\<close> and \<open>str_table.h\<close>: the Wyhash function, the
  operations of \<open>upb_strtable\<close>, and their correctness as a map from strings to values.
\<close>

section \<open>Wyhash\<close>

text \<open>\<open>UnalignedLoad64\<close> and \<open>UnalignedLoad32\<close> on a little-endian machine.\<close>

definition UnalignedLoad64 :: "bytes \<Rightarrow> u64" where
  "UnalignedLoad64 p = foldr (\<lambda>b acc. push_bit 8 acc OR ucast b) (take 8 p) 0"

definition UnalignedLoad32 :: "bytes \<Rightarrow> u32" where
  "UnalignedLoad32 p = foldr (\<lambda>b acc. push_bit 8 acc OR ucast b) (take 4 p) 0"

definition upb_umul128 :: "u64 \<Rightarrow> u64 \<Rightarrow> u64 \<times> u64" where
  "upb_umul128 v0 v1 =
     (let p = (ucast v0 :: 128 word) * ucast v1 in (ucast p, ucast (drop_bit 64 p)))"

definition WyhashMix :: "u64 \<Rightarrow> u64 \<Rightarrow> u64" where
  "WyhashMix v0 v1 = (let (low, high) = upb_umul128 v0 v1 in low XOR high)"

text \<open>The do-while loop over chunks of 64 bytes, with the two states.\<close>

function wyhash_loop64 :: "u64 list \<Rightarrow> bytes \<Rightarrow> u64 \<Rightarrow> u64 \<Rightarrow> bytes \<times> u64 \<times> u64" where
  "wyhash_loop64 salt ptr cs ds =
     (if length ptr \<le> 64 then (ptr, cs, ds)
      else
        (let ld = (\<lambda>i. UnalignedLoad64 (drop (8 * i) ptr));
             cs0 = WyhashMix (ld 0 XOR salt ! 1) (ld 1 XOR cs);
             cs1 = WyhashMix (ld 2 XOR salt ! 2) (ld 3 XOR cs);
             ds0 = WyhashMix (ld 4 XOR salt ! 3) (ld 5 XOR ds);
             ds1 = WyhashMix (ld 6 XOR salt ! 4) (ld 7 XOR ds)
         in wyhash_loop64 salt (drop 64 ptr) (cs0 XOR cs1) (ds0 XOR ds1)))"
  by pat_completeness auto
termination
  by (relation "measure (\<lambda>(_, ptr, _). length ptr)") auto

function wyhash_loop16 :: "u64 list \<Rightarrow> bytes \<Rightarrow> u64 \<Rightarrow> bytes \<times> u64" where
  "wyhash_loop16 salt ptr cs =
     (if length ptr \<le> 16 then (ptr, cs)
      else
        (let a = UnalignedLoad64 ptr; b = UnalignedLoad64 (drop 8 ptr)
         in wyhash_loop16 salt (drop 16 ptr) (WyhashMix (a XOR salt ! 1) (b XOR cs))))"
  by pat_completeness auto
termination
  by (relation "measure (\<lambda>(_, ptr, _). length ptr)") auto

declare wyhash_loop64.simps [simp del] wyhash_loop16.simps [simp del]

definition Wyhash :: "bytes \<Rightarrow> u64 \<Rightarrow> u64 list \<Rightarrow> u64" where
  "Wyhash data seed salt =
     (let starting_length = of_nat (length data) :: u64;
          cs = seed XOR salt ! 0;
          (ptr, cs) = (if length data > 64
                       then (let (ptr, c, d) = wyhash_loop64 salt data cs cs in (ptr, c XOR d))
                       else (data, cs));
          (ptr, cs) = wyhash_loop16 salt ptr cs;
          len = length ptr;
          (a, b) =
            (if len > 8 then (UnalignedLoad64 ptr, UnalignedLoad64 (drop (len - 8) ptr))
             else if len > 3 then (ucast (UnalignedLoad32 ptr), ucast (UnalignedLoad32 (drop (len - 4) ptr)))
             else if len > 0 then
               (push_bit 16 (ucast (ptr ! 0)) OR push_bit 8 (ucast (ptr ! (len div 2))) OR
                ucast (ptr ! (len - 1)), 0)
             else (0, 0));
          w = WyhashMix (a XOR salt ! 1) (b XOR cs);
          z = salt ! 1 XOR starting_length
      in WyhashMix w z)"

definition kWyhashSalt :: "u64 list" where
  "kWyhashSalt =
     [0x243F6A8885A308D3, 0x13198A2E03707344, 0xA4093822299F31D0, 0x082EFA98EC4E6C89,
      0x452821E638D01377]"

definition upb_Hash :: "bytes \<Rightarrow> u64 \<Rightarrow> u32" where
  "upb_Hash p seed = ucast (Wyhash p seed kWyhashSalt)"

section \<open>Keys\<close>

text \<open>\<open>seed\<close> stands for the address that \<open>_upb_Seed\<close> returns. Reading the string of an entry that
  has none is a null dereference.\<close>

fun strhash :: "u64 \<Rightarrow> hashfunc_t" where
  "strhash seed (KeyStr s) = Ok (upb_Hash s seed)"
| "strhash seed (KeyNum n) = UB"

fun streql :: eqlfunc_t where
  "streql (KeyStr k1) (KeyStr k2) =
     Ok (length k1 = length k2 \<and> (length k1 = 0 \<or> memcmp k1 k2 (length k1) = 0))"
| "streql _ _ = UB"

text \<open>\<open>upb_SizePrefixString_Copy\<close>: the size is a \<open>uint32_t\<close>; 4 bytes of size and one of \<open>NUL\<close>.\<close>

definition upb_SizePrefixString_Copy :: "'a malloc \<Rightarrow> bytes \<Rightarrow> 'a \<Rightarrow> upb_key option \<times> 'a" where
  "upb_SizePrefixString_Copy malloc s a =
     (if length s > 2 ^ 32 - 1 then (None, a)
      else case malloc (4 + length s + 1) a of
        (ok, a') \<Rightarrow> (if ok then Some (KeyStr s) else None, a'))"

section \<open>Operations\<close>

type_synonym upb_strtable = upb_table

definition upb_entries_needed_for :: "u64 \<Rightarrow> (unit, u64) cres" where
  "upb_entries_needed_for expected_size =
     (let need_entries = expected_size + 1 + expected_size div 7
      in cassert (need_entries - drop_bit 3 need_entries \<ge> expected_size) (Ok need_entries))"

text \<open>The argument of \<open>upb_Log2Ceiling\<close> is an \<open>int\<close>, and \<open>size_lg2\<close> is passed as a \<open>uint8_t\<close>.\<close>

definition upb_strtable_init ::
    "'a malloc \<Rightarrow> u64 \<Rightarrow> 'a \<Rightarrow> (unit, upb_strtable option \<times> 'a) cres" where
  "upb_strtable_init malloc expected_size a =
     cbind (upb_entries_needed_for expected_size) (\<lambda>need.
       let size_lg2 = upb_Log2Ceiling (sint (ucast need :: u32))
       in Ok (table_init malloc size_lg2 a))"

definition upb_strtable_count :: "upb_strtable \<Rightarrow> u64" where
  "upb_strtable_count t = ucast (tab_count t)"

definition upb_strtable_clear :: "upb_strtable \<Rightarrow> upb_strtable" where
  "upb_strtable_clear t = table_clear t"

definition upb_strtable_resize ::
    "u64 \<Rightarrow> 'a malloc \<Rightarrow> upb_strtable \<Rightarrow> nat \<Rightarrow> 'a \<Rightarrow> (unit, bool \<times> upb_strtable \<times> 'a) cres" where
  "upb_strtable_resize seed malloc t size_lg2 a =
     (case table_init malloc size_lg2 a of
        (None, a') \<Rightarrow> Ok (False, t, a')
      | (Some new_table, a') \<Rightarrow>
          cbind (table_rehash (strhash seed) streql t new_table) (\<lambda>nt. Ok (True, nt, a')))"

definition upb_strtable_insert ::
    "u64 \<Rightarrow> 'a malloc \<Rightarrow> upb_strtable \<Rightarrow> bytes \<Rightarrow> u64 \<Rightarrow> 'a \<Rightarrow> (unit, bool \<times> upb_strtable \<times> 'a) cres" where
  "upb_strtable_insert seed malloc t k v a =
     cbind (if isfull t then upb_strtable_resize seed malloc t (upb_log2_table_size t + 1) a
            else Ok (True, t, a)) (\<lambda>(ok, t, a).
       if \<not> ok then Ok (False, t, a)
       else
         (case upb_SizePrefixString_Copy malloc k a of
            (None, a') \<Rightarrow> Ok (False, t, a')
          | (Some key, a') \<Rightarrow>
              cbind (table_insert (strhash seed) streql t (KeyStr k) key v (upb_Hash k seed))
                (\<lambda>t'. Ok (True, t', a'))))"

definition upb_strtable_lookup2 :: "u64 \<Rightarrow> upb_strtable \<Rightarrow> bytes \<Rightarrow> (unit, u64 option) cres" where
  "upb_strtable_lookup2 seed t key = table_lookup streql t (KeyStr key) (upb_Hash key seed)"

definition upb_strtable_remove2 ::
    "u64 \<Rightarrow> upb_strtable \<Rightarrow> bytes \<Rightarrow> (unit, upb_strtable \<times> u64 option) cres" where
  "upb_strtable_remove2 seed t key = table_rm streql t (KeyStr key) (upb_Hash key seed)"

fun key_strview :: "upb_key \<Rightarrow> (unit, bytes) cres" where
  "key_strview (KeyStr s) = Ok s"
| "key_strview (KeyNum n) = UB"

text \<open>\<open>None\<close> when the iteration is over, else the key, the value and the new iterator.\<close>

definition upb_strtable_next2 :: "upb_strtable \<Rightarrow> u64 \<Rightarrow> (unit, (bytes \<times> u64 \<times> u64) option) cres" where
  "upb_strtable_next2 t iter =
     (let tab_idx = table_next t iter in
      if unat tab_idx < upb_table_size t then
        cbind (ent_at (entries t) (unat tab_idx)) (\<lambda>ent.
        cbind (key_strview (ent_key ent)) (\<lambda>s. Ok (Some (s, ent_val ent, tab_idx))))
      else Ok None)"

definition upb_strtable_removeiter :: "upb_strtable \<Rightarrow> u64 \<Rightarrow> (unit, upb_strtable) cres" where
  "upb_strtable_removeiter t iter = table_removeiter t (unat iter)"

definition upb_strtable_setentryvalue :: "upb_strtable \<Rightarrow> u64 \<Rightarrow> u64 \<Rightarrow> (unit, upb_strtable) cres" where
  "upb_strtable_setentryvalue t iter v = table_setentryvalue t (unat iter) v"

text \<open>The deprecated iterators: a table, or \<open>NULL\<close> for one that is done, and an index.\<close>

record upb_strtable_iter =
  iter_t :: "upb_strtable option"
  iter_index :: u64

definition upb_strtable_begin :: "upb_strtable \<Rightarrow> upb_strtable_iter" where
  "upb_strtable_begin t = \<lparr>iter_t = Some t, iter_index = table_begin t\<rparr>"

definition upb_strtable_next :: "upb_strtable_iter \<Rightarrow> (unit, upb_strtable_iter) cres" where
  "upb_strtable_next i =
     (case iter_t i of None \<Rightarrow> UB
      | Some t \<Rightarrow> Ok (i\<lparr>iter_index := table_next t (iter_index i)\<rparr>))"

definition upb_strtable_done :: "upb_strtable_iter \<Rightarrow> (unit, bool) cres" where
  "upb_strtable_done i =
     (case iter_t i of
        None \<Rightarrow> Ok True
      | Some t \<Rightarrow>
          if unat (iter_index i) \<ge> upb_table_size t then Ok True
          else cbind (ent_at (entries t) (unat (iter_index i))) (\<lambda>e. Ok (upb_tabent_isempty e)))"

definition str_tabent :: "upb_strtable_iter \<Rightarrow> (unit, upb_tabent) cres" where
  "str_tabent i =
     (case iter_t i of None \<Rightarrow> UB | Some t \<Rightarrow> ent_at (entries t) (unat (iter_index i)))"

definition upb_strtable_iter_key :: "upb_strtable_iter \<Rightarrow> (unit, bytes) cres" where
  "upb_strtable_iter_key i =
     cbind (upb_strtable_done i) (\<lambda>d. cassert (\<not> d)
       (cbind (str_tabent i) (\<lambda>e. key_strview (ent_key e))))"

definition upb_strtable_iter_value :: "upb_strtable_iter \<Rightarrow> (unit, u64) cres" where
  "upb_strtable_iter_value i =
     cbind (upb_strtable_done i) (\<lambda>d. cassert (\<not> d) (cbind (str_tabent i) (\<lambda>e. Ok (ent_val e))))"

definition upb_strtable_iter_setdone :: "upb_strtable_iter \<Rightarrow> upb_strtable_iter" where
  "upb_strtable_iter_setdone i = i\<lparr>iter_t := None, iter_index := - 1\<rparr>"

section \<open>The contract of the hash function\<close>

definition str_hash :: "u64 \<Rightarrow> upb_key \<Rightarrow> u32" where
  "str_hash seed k = (case k of KeyStr s \<Rightarrow> upb_Hash s seed | KeyNum n \<Rightarrow> 0)"

interpretation str: hash_table "strhash seed" streql "str_hash seed" "range KeyStr" for seed
  by unfold_locales (auto simp: str_hash_def upb_key_empty_def memcmp_eq_0)

section \<open>The map from strings\<close>

definition strtable_map :: "upb_strtable \<Rightarrow> bytes \<rightharpoonup> u64" where
  "strtable_map t s = table_map t (KeyStr s)"

text \<open>The invariant: the chains are sound for this seed's hash, and the load is at most 7/8.\<close>

definition strtable_ok :: "u64 \<Rightarrow> upb_strtable \<Rightarrow> bool" where
  "strtable_ok seed t \<longleftrightarrow> table_ok (str_hash seed) (range KeyStr) t \<and>
     unat (tab_count t) \<le> upb_table_size t - upb_table_size t div 8"

lemma strtable_lookup:
  "strtable_ok seed t \<Longrightarrow> upb_strtable_lookup2 seed t s = Ok (strtable_map t s)"
  using str.lookup_eq [of seed t "KeyStr s"]
  by (simp add: strtable_ok_def upb_strtable_lookup2_def strtable_map_def str_hash_def)

lemma strtable_remove:
  assumes "strtable_ok seed t"
  obtains t' where "upb_strtable_remove2 seed t s = Ok (t', strtable_map t s)" "strtable_ok seed t'"
    "strtable_map t' = (strtable_map t)(s := None)"
proof -
  obtain t' where "table_rm streql t (KeyStr s) (str_hash seed (KeyStr s)) = Ok (t', table_map t (KeyStr s))"
    "table_ok (str_hash seed) (range KeyStr) t'" "table_map t' = (table_map t)(KeyStr s := None)"
    "tab_mask t' = tab_mask t" "unat (tab_count t') \<le> unat (tab_count t)"
    using str.rm_spec [of seed t "KeyStr s"] assms by (auto simp: strtable_ok_def)
  then show thesis
    using assms by (intro that [of t'])
      (auto simp: upb_strtable_remove2_def strtable_map_def str_hash_def strtable_ok_def upb_table_size_def fun_eq_iff)
qed

lemma strtable_resize:
  assumes ok: "strtable_ok seed t"
  shows "\<exists>b t' a'. upb_strtable_resize seed malloc t (upb_log2_table_size t + 1) a = Ok (b, t', a') \<and>
    strtable_ok seed t' \<and> strtable_map t' = strtable_map t \<and>
    (b \<longrightarrow> unat (tab_count t') < upb_table_size t' - upb_table_size t' div 8) \<and>
    ((\<forall>n a. fst (malloc n a)) \<and> upb_table_size t < 2 ^ 31 \<longrightarrow> b)"
proof (cases "table_init malloc (upb_log2_table_size t + 1) a")
  case (Pair r a')
  have t: "table_ok (str_hash seed) (range KeyStr) t" "unat (tab_count t) \<le> upb_table_size t - upb_table_size t div 8"
    using ok by (auto simp: strtable_ok_def)
  show ?thesis
  proof (cases r)
    case None
    then have "\<not> ((\<forall>n a. fst (malloc n a)) \<and> upb_table_size t < 2 ^ 31)"
      using Pair table_init_total [OF t(1), of malloc a] by auto
    then show ?thesis using ok Pair None
      by (intro exI [of _ False] exI [of _ t] exI [of _ a']) (simp add: upb_strtable_resize_def)
  next
    case (Some nt)
    obtain nt' where "table_rehash (strhash seed) streql t nt = Ok nt'" "str.grown seed t nt'"
      using str.grow_spec [OF t Pair [unfolded Some]] .
    moreover from this have "table_ok (str_hash seed) (range KeyStr) nt' \<and> table_map nt' = table_map t"
      "unat (tab_count nt') < upb_table_size nt' - upb_table_size nt' div 8" by (auto simp: str.grown_def)
    ultimately show ?thesis
      using Pair Some
      by (intro exI [of _ True] exI [of _ nt'] exI [of _ a'])
        (simp add: upb_strtable_resize_def strtable_ok_def strtable_map_def fun_eq_iff)
  qed
qed

text \<open>Insertion on any arena: either it is refused and the map is unchanged, or the key is in.\<close>

lemma strtable_insert:
  assumes ok: "strtable_ok seed t" and absent: "strtable_map t k = None"
  shows "\<exists>b t' a'. upb_strtable_insert seed malloc t k v a = Ok (b, t', a') \<and> strtable_ok seed t' \<and>
    strtable_map t' = (if b then (strtable_map t)(k \<mapsto> v) else strtable_map t) \<and>
    ((\<forall>n a. fst (malloc n a)) \<and> upb_table_size t < 2 ^ 31 \<and> length k < 2 ^ 32 \<longrightarrow> b)"
proof -
  have "\<exists>b t1 a1. (if isfull t then upb_strtable_resize seed malloc t (upb_log2_table_size t + 1) a
        else Ok (True, t, a)) = Ok (b, t1, a1) \<and> strtable_ok seed t1 \<and> strtable_map t1 = strtable_map t \<and>
      (b \<longrightarrow> unat (tab_count t1) < upb_table_size t1 - upb_table_size t1 div 8) \<and>
      ((\<forall>n a. fst (malloc n a)) \<and> upb_table_size t < 2 ^ 31 \<longrightarrow> b)"
  proof (cases "isfull t")
    case True
    then show ?thesis using strtable_resize [OF ok] by simp
  next
    case False
    then show ?thesis using ok isfull_iff [of "str_hash seed" "range KeyStr" t] by (auto simp: strtable_ok_def)
  qed
  then obtain b t1 a1 where t1: "(if isfull t then upb_strtable_resize seed malloc t (upb_log2_table_size t + 1) a
        else Ok (True, t, a)) = Ok (b, t1, a1)" "strtable_ok seed t1" "strtable_map t1 = strtable_map t"
      "b \<longrightarrow> unat (tab_count t1) < upb_table_size t1 - upb_table_size t1 div 8"
      "(\<forall>n a. fst (malloc n a)) \<and> upb_table_size t < 2 ^ 31 \<longrightarrow> b" by blast
  show ?thesis
  proof (cases "b \<and> fst (upb_SizePrefixString_Copy malloc k a1) \<noteq> None")
    case False
    obtain r a2 where copy: "upb_SizePrefixString_Copy malloc k a1 = (r, a2)" by fastforce
    have "\<not> ((\<forall>n a. fst (malloc n a)) \<and> upb_table_size t < 2 ^ 31 \<and> length k < 2 ^ 32)"
    proof
      assume m: "(\<forall>n a. fst (malloc n a)) \<and> upb_table_size t < 2 ^ 31 \<and> length k < 2 ^ 32"
      then have "r \<noteq> None"
        using copy by (auto simp: upb_SizePrefixString_Copy_def split: if_splits prod.splits) (metis fst_conv)
      with m False t1(5) copy show False by simp
    qed
    moreover have "\<exists>a'. upb_strtable_insert seed malloc t k v a = Ok (False, t1, a')"
      unfolding upb_strtable_insert_def t1(1) using False copy by auto
    ultimately show ?thesis using t1(2,3) by auto
  next
    case True
    then obtain a2 where copy: "upb_SizePrefixString_Copy malloc k a1 = (Some (KeyStr k), a2)"
      by (cases "upb_SizePrefixString_Copy malloc k a1")
        (auto simp: upb_SizePrefixString_Copy_def split: if_splits prod.splits)
    have tok: "table_ok (str_hash seed) (range KeyStr) t1" using t1(2) by (simp add: strtable_ok_def)
    have "table_map t1 (KeyStr k) = None" using t1(3) absent by (metis strtable_map_def)
    moreover have room: "unat (tab_count t1) < length (entries t1)"
      using tok t1(4) True by (simp add: table_ok_def)
    ultimately obtain t2 where t2: "table_insert (strhash seed) streql t1 (KeyStr k) (KeyStr k) v (str_hash seed (KeyStr k)) = Ok t2"
      "table_ok (str_hash seed) (range KeyStr) t2" "table_map t2 = (table_map t1)(KeyStr k \<mapsto> v)"
      "tab_mask t2 = tab_mask t1" "unat (tab_count t2) = unat (tab_count t1) + 1"
      using str.insert_spec [OF tok, of "KeyStr k" v] by auto
    have "strtable_map t2 = (strtable_map t)(k \<mapsto> v)"
      using t2(3) t1(3) by (auto simp: strtable_map_def fun_eq_iff)
    moreover have "strtable_ok seed t2"
      using t2 t1(4) True by (simp add: strtable_ok_def upb_table_size_def)
    moreover have "upb_strtable_insert seed malloc t k v a = Ok (True, t2, a2)"
      unfolding upb_strtable_insert_def t1(1) using True copy t2(1) by (simp add: str_hash_def)
    ultimately show ?thesis by auto
  qed
qed

section \<open>Iteration\<close>

text \<open>The loop \<open>while (upb_strtable_next2(t, &key, &val, &iter))\<close>, with fuel, collecting what it sees.\<close>

fun strtable_items :: "nat \<Rightarrow> upb_strtable \<Rightarrow> u64 \<Rightarrow> (unit, (bytes \<times> u64) list) cres" where
  "strtable_items 0 t iter = UB"
| "strtable_items (Suc n) t iter =
     cbind (upb_strtable_next2 t iter) (\<lambda>r.
       case r of None \<Rightarrow> Ok []
       | Some (k, v, iter') \<Rightarrow> cbind (strtable_items n t iter') (\<lambda>xs. Ok ((k, v) # xs)))"

lemma strtable_items_from:
  assumes len: "length (entries t) = upb_table_size t"
    and str: "\<And>i. used (entries t) i \<Longrightarrow> key_at (entries t) i = KeyStr (f i)"
    and "unat (iter + 1) = i" "i \<le> upb_table_size t" "length (filter (used (entries t)) [i..<upb_table_size t]) < n"
  shows "strtable_items n t iter =
    Ok (map (\<lambda>j. (f j, ent_val (entries t ! j))) (filter (used (entries t)) [i..<upb_table_size t]))"
  using assms(3-)
proof (induction n arbitrary: i iter)
  case (Suc n)
  have size: "upb_table_size t < 2 ^ 32" by (simp add: upb_table_size_def)
  have nx: "table_next t iter = (case filter (used (entries t)) [i..<upb_table_size t] of
    [] \<Rightarrow> - 2 | j # js \<Rightarrow> of_nat j)"
    using next_loop_eq [OF len Suc.prems(2)] Suc.prems(1) by (simp add: table_next_def)
  show ?case
  proof (cases "filter (used (entries t)) [i..<upb_table_size t]")
    case Nil
    then show ?thesis using nx size by (simp add: upb_strtable_next2_def)
  next
    case (Cons j js)
    note j = filter_upt_Cons [OF Cons]
    have uj: "unat (of_nat j :: u64) = j" using j(2) size by (simp add: unat_of_nat)
    have sj: "unat (of_nat j + 1 :: u64) = Suc j" using j(2) size by (simp add: unat_of_nat unat_word_ariths)
    have "ent_key (entries t ! j) = KeyStr (f j)" using str [OF j(3)] by (simp add: key_at_def)
    then have "upb_strtable_next2 t iter = Ok (Some (f j, ent_val (entries t ! j), of_nat j))"
      using nx Cons j(2) len by (simp add: upb_strtable_next2_def uj ent_at_def)
    moreover have "strtable_items n t (of_nat j) =
      Ok (map (\<lambda>j. (f j, ent_val (entries t ! j))) js)"
      using Suc.IH [of "of_nat j" "Suc j"] sj j Suc.prems(3) Cons by simp
    ultimately show ?thesis using Cons by simp
  qed
qed simp

lemma strtable_items_all:
  assumes "strtable_ok seed t" "unat (tab_count t) < n"
  shows "\<exists>xs. strtable_items n t (- 1) = Ok xs \<and> distinct (map fst xs) \<and> map_of xs = strtable_map t \<and>
    length xs = unat (tab_count t)"
proof -
  let ?es = "entries t"
  have ok: "table_ok (str_hash seed) (range KeyStr) t" using assms(1) by (simp add: strtable_ok_def)
  then have len: "length ?es = upb_table_size t" and inj: "inj_on (key_at ?es) {i. used ?es i}"
    by (simp_all add: table_ok_def)
  define f where "f i = (case key_at ?es i of KeyStr s \<Rightarrow> s | KeyNum n \<Rightarrow> [])" for i
  have f: "key_at ?es i = KeyStr (f i)" if "used ?es i" for i
    using ok that by (auto simp: table_ok_def f_def)
  let ?is = "filter (used ?es) [0..<upb_table_size t]"
  let ?xs = "map (\<lambda>j. (f j, ent_val (?es ! j))) ?is"
  have cnt: "length ?is = unat (tab_count t)"
    using length_used_entries [OF ok] used_entries_nth [of t] len by simp
  have "strtable_items n t (- 1) = Ok ?xs"
    by (rule strtable_items_from [OF len f]) (use assms(2) cnt in auto)
  moreover have "inj_on f (set ?is)"
  proof (rule inj_onI)
    fix i j assume "i \<in> set ?is" "j \<in> set ?is" "f i = f j"
    then show "i = j" using inj f [of i] f [of j] by (auto simp: inj_on_def)
  qed
  then have dist: "distinct (map fst ?xs)" by (simp add: comp_def distinct_map)
  moreover have "map_of ?xs = strtable_map t"
  proof
    fix s
    have "map_of ?xs s = Some v \<longleftrightarrow> strtable_map t s = Some v" for v
    proof -
      have "map_of ?xs s = Some v \<longleftrightarrow> (s, v) \<in> set ?xs" by (rule map_of_eq_Some_iff [OF dist])
      also have "\<dots> \<longleftrightarrow> (\<exists>i. used ?es i \<and> f i = s \<and> ent_val (?es ! i) = v)"
        unfolding set_map set_filter set_upt len [symmetric] image_iff used_def by auto
      also have "\<dots> \<longleftrightarrow> (\<exists>i. used ?es i \<and> key_at ?es i = KeyStr s \<and> ent_val (?es ! i) = v)"
      proof -
        have "used ?es i \<and> f i = s \<longleftrightarrow> used ?es i \<and> key_at ?es i = KeyStr s" for i
          using f [of i] by (cases "used ?es i") simp_all
        then show ?thesis by (simp only: conj_assoc [symmetric])
      qed
      also have "\<dots> \<longleftrightarrow> strtable_map t s = Some v"
        unfolding strtable_map_def by (rule table_map_Some [OF inj, symmetric])
      finally show ?thesis .
    qed
    then show "map_of ?xs s = strtable_map t s" by (rule option_eqI)
  qed
  ultimately show ?thesis using cnt by auto
qed

lemma entries_needed:
  fixes n :: u64
  assumes n: "unat n < 2 ^ 30"
  defines "m \<equiv> unat n + 1 + unat n div 7"
  shows "upb_entries_needed_for n = Ok (n + 1 + n div 7)" "unat (n + 1 + n div 7) = m"
    "m - m div 8 = unat n + 1"
proof -
  let ?need = "n + 1 + n div 7"
  show need: "unat ?need = m"
    using n by (simp add: m_def unat_word_ariths unat_div_distrib)
  show m8: "m - m div 8 = unat n + 1"
  proof -
    have "m = unat n mod 7 + 1 + unat n div 7 * 8"
      using div_mult_mod_eq [of "unat n" 7] unfolding m_def by linarith
    moreover have "(unat n mod 7 + 1) div 8 = 0" using mod_less_divisor [of 7 "unat n"] by simp
    ultimately have "m div 8 = unat n div 7" by (metis add.left_neutral add.commute div_mult_self1 zero_neq_numeral)
    then show ?thesis by (simp add: m_def)
  qed
  have d8: "unat (drop_bit 3 ?need) = m div 8" unfolding unat_drop_bit_div need by simp
  then have "unat (?need - drop_bit 3 ?need) = m - m div 8"
    using need by (simp add: unat_sub word_le_nat_alt)
  then show "upb_entries_needed_for n = Ok ?need"
    using m8 by (simp add: upb_entries_needed_for_def word_le_nat_alt)
qed

section \<open>The properties\<close>

text \<open>
  The empty table. If the arena has room, a table made for an expected size below
  \<open>2 ^ 30\<close> satisfies the invariant, stands for the empty map and takes that many strings
  before it has to grow.
\<close>

theorem strtable_init_correct:
  assumes "n < 2 ^ 30" "\<And>n a. fst (malloc n a)"
  shows "\<exists>t a'. upb_strtable_init malloc n a = Ok (Some t, a') \<and> strtable_ok seed t \<and>
    strtable_map t = Map.empty \<and> unat n \<le> upb_table_size t - upb_table_size t div 8"
proof -
  have n: "unat n < 2 ^ 30" using assms(1) by (simp add: word_less_nat_alt)
  define m where "m = unat n + 1 + unat n div 7"
  have m: "m < 2 ^ 31" "1 \<le> m" using n by (simp_all add: m_def)
  let ?need = "n + 1 + n div 7"
  note needed = entries_needed [OF n]
  then have need: "unat ?need = m" and m8: "m - m div 8 = unat n + 1" by (simp_all add: m_def)
  from needed(1) have "upb_entries_needed_for n = Ok ?need" .
  moreover have "sint (ucast ?need :: u32) = int m"
  proof -
    have "unat (ucast ?need :: u32) = m"
      unfolding unsigned_ucast_eq need by (rule take_bit_nat_eq_self) (use m in simp)
    then have "uint (ucast ?need :: u32) = int m" by (metis int_nat_eq uint_nat)
    then show ?thesis
      unfolding sint_uint by (subst signed_take_bit_int_eq_self) (use m(1) in simp_all)
  qed
  moreover define lg where "lg = upb_Log2Ceiling (int m)"
  have "m \<le> 2 ^ lg \<and> lg < 32"
  proof (cases "m = 1")
    case True
    then show ?thesis by (simp add: lg_def upb_Log2Ceiling_def)
  next
    case False
    then have b: "int m \<le> 2 ^ lg" "2 ^ (lg - 1) < int m"
      using upb_Log2Ceiling_bounds [of "int m"] m by (simp_all add: lg_def)
    have "(2::int) ^ (lg - 1) < 2 ^ 31" by (rule less_trans [OF b(2)]) (use m(1) in simp)
    then have "lg - 1 < 31" by (rule power_less_imp_less_exp [rotated]) simp
    moreover have "m \<le> 2 ^ lg" using b(1) by (metis of_nat_le_iff of_nat_numeral of_nat_power)
    ultimately show ?thesis by simp
  qed
  then have lg: "m \<le> 2 ^ lg" "lg < 32" by auto
  obtain a' where "malloc (2 ^ lg * 24) a = (True, a')" using assms(2) [of "2 ^ lg * 24" a]
    by (cases "malloc (2 ^ lg * 24) a") auto
  then obtain t where t: "table_init malloc lg a = (Some t, a')"
    using lg(2) by (simp add: table_init_def Let_def)
  note ok = init_ok [OF t]
  have size: "upb_table_size t = 2 ^ lg" using ok(1,4) by (simp add: table_ok_def)
  have "m - m div 8 \<le> 2 ^ lg - 2 ^ lg div 8"
  proof -
    obtain d where d: "2 ^ lg = m + d" using lg(1) le_Suc_ex by blast
    have "m mod 8 < 8" by simp
    then have "m + d < (m div 8 + d + 1) * 8"
      using div_mult_mod_eq [of m 8] by (simp only: add_mult_distrib)
    then have "(m + d) div 8 < m div 8 + d + 1" by (rule less_mult_imp_div_less)
    then show ?thesis unfolding d by linarith
  qed
  then have "strtable_ok seed t \<and> unat n \<le> upb_table_size t - upb_table_size t div 8"
    using ok(1,3) size m8 by (simp add: strtable_ok_def)
  moreover have "strtable_map t = Map.empty" using ok(2) by (simp add: strtable_map_def fun_eq_iff)
  ultimately show ?thesis
    using t by (simp add: upb_strtable_init_def lg_def)
qed

text \<open>
  C18: lookup in a string table. In every table that satisfies the invariant, \<open>lookup2\<close> ends without
  undefined behaviour and returns exactly the value the table's map gives to the string, and
  nothing for a string the map does not hold.
\<close>

theorem strtable_lookup_correct:
  assumes "strtable_ok seed t"
  shows "upb_strtable_lookup2 seed t s = Ok (strtable_map t s)"
  by (rule strtable_lookup [OF assms])

text \<open>
  C9: insertion of a new string, whatever the arena does: the operation ends without a failed
  assertion, keeps the invariant, and either returns true and has added exactly this string with
  this value, or returns false and has left the map as it was. It cannot return false when memory
  is found, the table has fewer than \<open>2 ^ 31\<close> slots and the key fewer than \<open>2 ^ 32\<close> bytes.
\<close>

theorem strtable_insert_correct:
  assumes "strtable_ok seed t" "strtable_map t k = None"
  shows "\<exists>b t' a'. upb_strtable_insert seed malloc t k v a = Ok (b, t', a') \<and> strtable_ok seed t' \<and>
    strtable_map t' = (if b then (strtable_map t)(k \<mapsto> v) else strtable_map t) \<and>
    ((\<forall>n a. fst (malloc n a)) \<and> upb_table_size t < 2 ^ 31 \<and> length k < 2 ^ 32 \<longrightarrow> b)"
  by (rule strtable_insert [OF assms])

text \<open>
  C11: removal of a string returns the value the map had for it, or nothing; the invariant is kept
  and the new map lacks exactly this string.
\<close>

theorem strtable_remove_correct:
  assumes "strtable_ok seed t"
  shows "\<exists>t'. upb_strtable_remove2 seed t s = Ok (t', strtable_map t s) \<and> strtable_ok seed t' \<and>
    strtable_map t' = (strtable_map t)(s := None)"
  by (rule strtable_remove [OF assms]) blast

text \<open>
  Iteration over a string table with \<open>next2\<close> from \<open>UPB_STRTABLE_BEGIN\<close> ends and yields every
  string of the map exactly once, with its value; their number is \<open>upb_strtable_count\<close>.
\<close>

theorem strtable_iteration_correct:
  assumes "strtable_ok seed t"
  shows "\<exists>xs. strtable_items (unat (upb_strtable_count t) + 1) t (- 1) = Ok xs \<and> distinct (map fst xs) \<and>
    map_of xs = strtable_map t \<and> length xs = unat (upb_strtable_count t)"
proof -
  have "unat (upb_strtable_count t) = unat (tab_count t)"
    unfolding upb_strtable_count_def unsigned_ucast_eq
    by (rule take_bit_nat_eq_self) (rule less_trans [OF unat_less_numeral_power(3)], simp)
  then show ?thesis using strtable_items_all [OF assms, of "unat (tab_count t) + 1"] by simp
qed

section \<open>Witnesses\<close>

text \<open>A full table with a single slot: its one chain does not depend on the hash.\<close>

definition one_entry :: "bytes \<Rightarrow> u64 \<Rightarrow> upb_strtable" where
  "one_entry s v =
     \<lparr>entries = [\<lparr>ent_val = v, ent_key = KeyStr s, ent_next = None\<rparr>], tab_count = 1, tab_mask = 0\<rparr>"

lemma one_entry_ok: "strtable_ok seed (one_entry s v)"
proof -
  let ?t = "one_entry s v"
  have used: "used (entries ?t) i \<longleftrightarrow> i = 0" for i
    by (auto simp: used_def one_entry_def upb_tabent_isempty_def upb_key_empty_def)
  have C: "chains_ok (\<lambda>k. getentry ?t (str_hash seed k)) (entries ?t) (\<lambda>b. if b = 0 then [0] else [])"
    using used by (auto simp: chains_ok_def getentry_def one_entry_def key_at_def)
  have m: "\<exists>k < 32. tab_mask ?t = of_nat (2 ^ k) - 1"
    by (intro exI [of _ 0]) (simp add: one_entry_def)
  have key: "key_at (entries ?t) 0 = KeyStr s" by (simp add: one_entry_def key_at_def)
  have n: "length (entries ?t) = upb_table_size ?t" "upb_table_size ?t = 1" "unat (tab_count ?t) = 1"
    by (simp_all add: one_entry_def upb_table_size_def)
  have set: "{i. used (entries ?t) i} = {0}" using used by simp
  have "table_ok (str_hash seed) (range KeyStr) ?t"
    unfolding table_ok_def set
  proof (intro conjI allI impI)
    show "\<exists>C. chains_ok (\<lambda>k. getentry ?t (str_hash seed k)) (entries ?t) C" using C by blast
  qed (use m n used key in auto)
  then show ?thesis using n by (simp add: strtable_ok_def)
qed

lemma one_entry_size [simp]: "upb_table_size (one_entry s v) = 1" "upb_strtable_count (one_entry s v) = 1"
  by (simp_all add: upb_table_size_def upb_strtable_count_def one_entry_def)

lemma one_entry_map: "strtable_map (one_entry s v) = [s \<mapsto> v]"
  by (auto simp: strtable_map_def table_map_def one_entry_def upb_tabent_isempty_def upb_key_empty_def fun_eq_iff)

theorem strtable_init_correct_witness:
  "\<exists>t a'. upb_strtable_init (\<lambda>n a. (True, a)) 10 () = Ok (Some t, a') \<and> strtable_ok 0x1000 t \<and>
    strtable_map t = Map.empty \<and> unat (10 :: u64) \<le> upb_table_size t - upb_table_size t div 8"
  by (rule strtable_init_correct) simp_all

theorem strtable_lookup_correct_witness:
  "upb_strtable_lookup2 0x1000 (one_entry [97] 7) [97] = Ok (Some 7) \<and>
   upb_strtable_lookup2 0x1000 (one_entry [97] 7) [98] = Ok None"
  using strtable_lookup_correct [OF one_entry_ok, of "0x1000" "[97]" 7 "[97]"]
    strtable_lookup_correct [OF one_entry_ok, of "0x1000" "[97]" 7 "[98]"]
  by (simp add: one_entry_map)

theorem strtable_insert_correct_witness:
  "\<exists>t'. upb_strtable_insert 0x1000 (\<lambda>n a. (True, a)) (one_entry [97] 7) [98] 8 () = Ok (True, t', ()) \<and>
    strtable_map t' = [[97] \<mapsto> 7, [98] \<mapsto> 8]"
  using strtable_insert_correct [OF one_entry_ok, of "[97]" 7 "[98]" "0x1000" "\<lambda>n a. (True, a)" 8 "()"]
  by (auto simp: one_entry_map)

theorem strtable_remove_correct_witness:
  "\<exists>t'. upb_strtable_remove2 0x1000 (one_entry [97] 7) [97] = Ok (t', Some 7) \<and>
    strtable_map t' = Map.empty"
  using strtable_remove_correct [OF one_entry_ok, of "0x1000" "[97]" 7 "[97]"]
  by (auto simp: one_entry_map)

theorem strtable_iteration_correct_witness:
  "\<exists>xs. strtable_items 2 (one_entry [97] 7) (- 1) = Ok xs \<and> map_of xs = [[97] \<mapsto> 7] \<and> length xs = 1"
  using strtable_iteration_correct [OF one_entry_ok, of "[97]" 7]
  by (auto simp: one_entry_map numeral_2_eq_2 simp del: strtable_items.simps)

end
