(* ===== verification/IntTable.thy ===== *)
theory IntTable
  imports StrTable
begin

text \<open>
  The integer tables of \<open>upb/hash/common.c\<close> and \<open>int_table.h\<close>: small keys live in an array with a
  bit mask of the keys present, the others in a chained table of \<open>Table\<close>. The hash part is the
  second client of the locale \<open>hash_table\<close>.
\<close>

section \<open>State\<close>

record upb_inttable =
  it_t :: upb_table
  it_array :: "u64 list"
  presence_mask :: bytes
  array_size :: u32
  array_count :: u32

section \<open>Keys\<close>

definition upb_inthash :: "u64 \<Rightarrow> u32" where
  "upb_inthash key = ucast key XOR ucast (drop_bit 32 key)"

text \<open>The union \<open>upb_key\<close> of an integer table holds a number; reading it in a string table is an
  error of the model.\<close>

fun inthash :: hashfunc_t where
  "inthash (KeyNum n) = Ok (upb_inthash n)"
| "inthash (KeyStr s) = UB"

fun inteql :: eqlfunc_t where
  "inteql (KeyNum k1) (KeyNum k2) = Ok (k1 = k2)"
| "inteql _ _ = UB"

fun key_num :: "upb_key \<Rightarrow> (unit, u64) cres" where
  "key_num (KeyNum n) = Ok n"
| "key_num (KeyStr s) = UB"

definition is_pow2 :: "u64 \<Rightarrow> bool" where
  "is_pow2 v \<longleftrightarrow> v = 0 \<or> (v AND (v - 1)) = 0"

text \<open>The loop \<open>while (v >>= 1) ret++\<close>, and the ceiling, at most \<open>UPB_MAXARRSIZE = 16\<close>.\<close>

function log2_shifts :: "u64 \<Rightarrow> nat" where
  "log2_shifts v = (let v' = drop_bit 1 v in if v' \<noteq> 0 then Suc (log2_shifts v') else 0)"
  by pat_completeness auto
termination
proof (relation "measure unat", goal_cases)
  case (2 v v')
  then have "0 < unat v'" by (simp add: unat_gt_0)
  then show ?case using 2(1) by (simp only: in_measure unat_drop_bit_div) simp
qed simp

declare log2_shifts.simps [simp del]

definition log2ceil :: "u64 \<Rightarrow> nat" where
  "log2ceil v = min 16 (if is_pow2 v then log2_shifts v else log2_shifts v + 1)"

section \<open>The array part\<close>

definition kInttableSentinel :: u64 where
  "kInttableSentinel = - 1"

definition presence_mask_arr_size :: "u32 \<Rightarrow> u32" where
  "presence_mask_arr_size n = (n + 7) div 8"

definition upb_inttable_arrhas :: "upb_inttable \<Rightarrow> u64 \<Rightarrow> (unit, bool) cres" where
  "upb_inttable_arrhas t key =
     (let i = unat (key div 8) in
      cassert (i < length (presence_mask t))
        (Ok ((presence_mask t ! i AND push_bit (unat (key mod 8)) 1) \<noteq> 0)))"

definition inttable_array_get :: "upb_inttable \<Rightarrow> u64 \<Rightarrow> (unit, u64 option) cres" where
  "inttable_array_get t key =
     cassert (key < ucast (array_size t)) (cbind (upb_inttable_arrhas t key) (\<lambda>b.
       cassert (unat key < length (it_array t)) (Ok (if b then Some (it_array t ! unat key) else None))))"

text \<open>Where the value of a key is stored: a slot of the array or an entry of the hash part.\<close>

datatype val_ref = InArray nat | InTable nat

definition inttable_val :: "upb_inttable \<Rightarrow> u64 \<Rightarrow> (unit, val_ref option) cres" where
  "inttable_val t key =
     (if key < ucast (array_size t) then
        cbind (inttable_array_get t key) (\<lambda>r. Ok (map_option (\<lambda>_. InArray (unat key)) r))
      else
        cbind (findentry inteql (it_t t) (KeyNum key) (upb_inthash key)) (\<lambda>e.
          Ok (map_option InTable e)))"

definition read_ref :: "upb_inttable \<Rightarrow> val_ref \<Rightarrow> (unit, u64) cres" where
  "read_ref t r = (case r of
     InArray i \<Rightarrow> cassert (i < length (it_array t)) (Ok (it_array t ! i))
   | InTable i \<Rightarrow> cbind (ent_at (entries (it_t t)) i) (\<lambda>e. Ok (ent_val e)))"

definition set_array :: "upb_inttable \<Rightarrow> nat \<Rightarrow> u64 \<Rightarrow> (unit, upb_inttable) cres" where
  "set_array t i v = cassert (i < length (it_array t)) (Ok (t\<lparr>it_array := (it_array t)[i := v]\<rparr>))"

definition write_ref :: "upb_inttable \<Rightarrow> val_ref \<Rightarrow> u64 \<Rightarrow> (unit, upb_inttable) cres" where
  "write_ref t r v = (case r of
     InArray i \<Rightarrow> set_array t i v
   | InTable i \<Rightarrow> cbind (table_setentryvalue (it_t t) i v) (\<lambda>h. Ok (t\<lparr>it_t := h\<rparr>)))"

text \<open>\<open>presence_mask[key / 8] |= 1 << (key % 8)\<close> and \<open>&= ~(1 << (key % 8))\<close>.\<close>

definition set_present :: "upb_inttable \<Rightarrow> u64 \<Rightarrow> bool \<Rightarrow> (unit, upb_inttable) cres" where
  "set_present t key b =
     (let i = unat (key div 8); m = push_bit (unat (key mod 8)) 1; p = presence_mask t in
      cassert (i < length p)
        (Ok (t\<lparr>presence_mask := p[i := (if b then p ! i OR m else p ! i AND NOT m)]\<rparr>)))"

section \<open>Operations\<close>

definition upb_inttable_count :: "upb_inttable \<Rightarrow> u64" where
  "upb_inttable_count t = ucast (tab_count (it_t t)) + ucast (array_count t)"

text \<open>The table, or \<open>NULL\<close>: an uninitialised one. \<open>hsize_lg2\<close> becomes a \<open>uint8_t\<close>.\<close>

definition upb_inttable_sizedinit ::
    "'a malloc \<Rightarrow> u32 \<Rightarrow> nat \<Rightarrow> 'a \<Rightarrow> upb_inttable option \<times> 'a" where
  "upb_inttable_sizedinit malloc asize hsize_lg2 a =
     (case table_init malloc (hsize_lg2 mod 256) a of
        (None, a) \<Rightarrow> (None, a)
      | (Some h, a) \<Rightarrow>
          (let asz = max 1 asize;
               n = unat asz;
               presence_bytes = unat (presence_mask_arr_size asz)
           in case malloc (n * 8 + presence_bytes) a of (ok, a) \<Rightarrow>
                (if ok then
                   Some \<lparr>it_t = h, it_array = replicate n (- 1), presence_mask = replicate presence_bytes 0,
                         array_size = asz, array_count = 0\<rparr>
                 else None, a)))"

definition upb_inttable_init :: "'a malloc \<Rightarrow> 'a \<Rightarrow> upb_inttable option \<times> 'a" where
  "upb_inttable_init malloc a = upb_inttable_sizedinit malloc 0 3 a"

text \<open>The hash part after a resize when it was full: \<open>None\<close> when there is no memory.\<close>

definition inttable_grow :: "'a malloc \<Rightarrow> upb_table \<Rightarrow> 'a \<Rightarrow> (unit, upb_table option \<times> 'a) cres" where
  "inttable_grow malloc h a =
     (if isfull h then
        (case table_init malloc ((upb_log2_table_size h + 1) mod 256) a of
           (None, a) \<Rightarrow> Ok (None, a)
         | (Some new_table, a) \<Rightarrow>
             cbind (table_rehash inthash inteql h new_table) (\<lambda>new_table.
               cassert (tab_count h = tab_count new_table) (Ok (Some new_table, a))))
      else Ok (Some h, a))"

definition upb_inttable_insert ::
    "'a malloc \<Rightarrow> upb_inttable \<Rightarrow> u64 \<Rightarrow> u64 \<Rightarrow> 'a \<Rightarrow> (unit, bool \<times> upb_inttable \<times> 'a) cres" where
  "upb_inttable_insert malloc t key val a =
     (if key < ucast (array_size t) then
        cbind (upb_inttable_arrhas t key) (\<lambda>b. cassert (\<not> b)
          (cbind (set_array (t\<lparr>array_count := array_count t + 1\<rparr>) (unat key) val) (\<lambda>t.
           cbind (set_present t key True) (\<lambda>t. Ok (True, t, a)))))
      else
        cbind (inttable_grow malloc (it_t t) a) (\<lambda>(h, a).
          case h of
            None \<Rightarrow> Ok (False, t, a)
          | Some h \<Rightarrow>
              cbind (table_insert inthash inteql h (KeyNum key) (KeyNum key) val (upb_inthash key))
                (\<lambda>h. Ok (True, t\<lparr>it_t := h\<rparr>, a))))"

definition upb_inttable_lookup :: "upb_inttable \<Rightarrow> u64 \<Rightarrow> (unit, u64 option) cres" where
  "upb_inttable_lookup t key =
     cbind (inttable_val t key) (\<lambda>r.
       case r of None \<Rightarrow> Ok None | Some r \<Rightarrow> cbind (read_ref t r) (\<lambda>v. Ok (Some v)))"

definition upb_inttable_replace :: "upb_inttable \<Rightarrow> u64 \<Rightarrow> u64 \<Rightarrow> (unit, bool \<times> upb_inttable) cres" where
  "upb_inttable_replace t key val =
     cbind (inttable_val t key) (\<lambda>r.
       case r of None \<Rightarrow> Ok (False, t) | Some r \<Rightarrow> cbind (write_ref t r val) (\<lambda>t. Ok (True, t)))"

text \<open>The value removed, if there was one.\<close>

definition upb_inttable_remove :: "upb_inttable \<Rightarrow> u64 \<Rightarrow> (unit, upb_inttable \<times> u64 option) cres" where
  "upb_inttable_remove t key =
     (if key < ucast (array_size t) then
        cbind (upb_inttable_arrhas t key) (\<lambda>b.
          if b then
            cbind (read_ref t (InArray (unat key))) (\<lambda>v.
            cbind (set_array (t\<lparr>array_count := array_count t - 1\<rparr>) (unat key) kInttableSentinel) (\<lambda>t.
            cbind (set_present t key False) (\<lambda>t. Ok (t, Some v))))
          else Ok (t, None))
      else
        cbind (table_rm inteql (it_t t) (KeyNum key) (upb_inthash key)) (\<lambda>(h, v).
          Ok (t\<lparr>it_t := h\<rparr>, v)))"

definition upb_inttable_clear :: "upb_inttable \<Rightarrow> upb_inttable" where
  "upb_inttable_clear t =
     t\<lparr>array_count := 0,
       it_array := replicate (unat (array_size t)) (- 1),
       presence_mask := replicate (unat (presence_mask_arr_size (array_size t))) 0,
       it_t := table_clear (it_t t)\<rparr>"

section \<open>Iteration\<close>

text \<open>\<open>while ((size_t)++i < t->array_size)\<close>: the first key present from \<open>i\<close> on.\<close>

fun array_scan :: "upb_inttable \<Rightarrow> nat \<Rightarrow> u64 \<Rightarrow> (unit, (u64 \<times> u64) option) cres" where
  "array_scan t 0 i = Ok None"
| "array_scan t (Suc n) i =
     cbind (inttable_array_get t i) (\<lambda>ent.
       case ent of Some v \<Rightarrow> Ok (Some (i, v)) | None \<Rightarrow> array_scan t n (i + 1))"

text \<open>The key, the value and the iterator of the next element, or the end.\<close>

definition upb_inttable_next :: "upb_inttable \<Rightarrow> u64 \<Rightarrow> (unit, (u64 \<times> u64 \<times> u64) option) cres" where
  "upb_inttable_next t iter =
     (let asz = ucast (array_size t) :: u64;
          from_table = (\<lambda>i.
            let tab_idx = table_next (it_t t) (i - asz) in
            if unat tab_idx < upb_table_size (it_t t) then
              cbind (ent_at (entries (it_t t)) (unat tab_idx)) (\<lambda>ent.
              cbind (key_num (ent_key ent)) (\<lambda>k. Ok (Some (k, ent_val ent, tab_idx + asz))))
            else Ok None)
      in if iter + 1 \<le> asz then
           cbind (array_scan t (unat (asz - (iter + 1))) (iter + 1)) (\<lambda>r.
             case r of Some (k, v) \<Rightarrow> Ok (Some (k, v, k)) | None \<Rightarrow> from_table (asz - 1))
         else from_table iter)"

definition upb_inttable_removeiter :: "upb_inttable \<Rightarrow> u64 \<Rightarrow> (unit, upb_inttable) cres" where
  "upb_inttable_removeiter t iter =
     (if iter < ucast (array_size t)
      then set_array (t\<lparr>array_count := array_count t - 1\<rparr>) (unat iter) (- 1)
      else cbind (table_removeiter (it_t t) (unat (iter - ucast (array_size t))))
             (\<lambda>h. Ok (t\<lparr>it_t := h\<rparr>)))"

definition upb_inttable_setentryvalue :: "upb_inttable \<Rightarrow> u64 \<Rightarrow> u64 \<Rightarrow> (unit, upb_inttable) cres" where
  "upb_inttable_setentryvalue t iter v =
     (if iter < ucast (array_size t) then set_array t (unat iter) v
      else cbind (table_setentryvalue (it_t t) (unat (iter - ucast (array_size t))) v)
             (\<lambda>h. Ok (t\<lparr>it_t := h\<rparr>)))"

definition upb_inttable_done :: "upb_inttable \<Rightarrow> u64 \<Rightarrow> (unit, bool) cres" where
  "upb_inttable_done t iter =
     (if unat iter \<ge> unat (array_size t) + upb_table_size (it_t t) then Ok True
      else if iter < ucast (array_size t) then cbind (upb_inttable_arrhas t iter) (\<lambda>b. Ok (\<not> b))
      else cbind (ent_at (entries (it_t t)) (unat (iter - ucast (array_size t))))
             (\<lambda>e. Ok (upb_tabent_isempty e)))"

definition upb_inttable_iter_key :: "upb_inttable \<Rightarrow> u64 \<Rightarrow> (unit, u64) cres" where
  "upb_inttable_iter_key t iter =
     cbind (upb_inttable_done t iter) (\<lambda>d. cassert (\<not> d)
       (if iter < ucast (array_size t) then Ok iter
        else cbind (ent_at (entries (it_t t)) (unat (iter - ucast (array_size t))))
               (\<lambda>e. key_num (ent_key e))))"

definition upb_inttable_iter_value :: "upb_inttable \<Rightarrow> u64 \<Rightarrow> (unit, u64) cres" where
  "upb_inttable_iter_value t iter =
     cbind (upb_inttable_done t iter) (\<lambda>d. cassert (\<not> d)
       (if iter < ucast (array_size t) then read_ref t (InArray (unat iter))
        else read_ref t (InTable (unat (iter - ucast (array_size t))))))"

text \<open>The loop \<open>while (upb_inttable_next(t, &key, &val, &iter))\<close>; every round takes another slot, so
  \<open>inttable_fuel\<close> rounds are enough.\<close>

fun inttable_foreach ::
    "nat \<Rightarrow> upb_inttable \<Rightarrow> (u64 \<Rightarrow> u64 \<Rightarrow> 'b \<Rightarrow> (unit, 'b) cres) \<Rightarrow> u64 \<Rightarrow> 'b \<Rightarrow> (unit, 'b) cres" where
  "inttable_foreach 0 t f iter b = UB"
| "inttable_foreach (Suc n) t f iter b =
     cbind (upb_inttable_next t iter) (\<lambda>r.
       case r of None \<Rightarrow> Ok b
       | Some (key, val, iter) \<Rightarrow> cbind (f key val b) (inttable_foreach n t f iter))"

definition inttable_fuel :: "upb_inttable \<Rightarrow> nat" where
  "inttable_fuel t = unat (array_size t) + upb_table_size (it_t t) + 1"

section \<open>Compaction\<close>

text \<open>The histogram: per power of two the number of keys and the largest key.\<close>

definition compact_hist :: "upb_inttable \<Rightarrow> (unit, u32 list \<times> u64 list) cres" where
  "compact_hist t =
     inttable_foreach (inttable_fuel t) t (\<lambda>key val (counts, maxs).
       let bucket = log2ceil key in
       Ok (counts[bucket := counts ! bucket + 1], maxs[bucket := max (maxs ! bucket) key]))
       (- 1) (replicate 17 0, replicate 17 0)"

text \<open>The loop that looks for the densest array. In \<open>arr_count >= (1 << size_lg2) * MIN_DENSITY\<close> the
  density is 0.1, and no count makes the two sides equal up to rounding.\<close>

fun compact_size :: "u32 list \<Rightarrow> nat \<Rightarrow> u32 \<Rightarrow> nat \<times> u32" where
  "compact_size counts 0 arr_count = (0, arr_count)"
| "compact_size counts (Suc k) arr_count =
     (if counts ! Suc k = 0 then compact_size counts k arr_count
      else if 10 * unat arr_count \<ge> 2 ^ Suc k then (Suc k, arr_count)
      else compact_size counts k (arr_count - counts ! Suc k))"

definition upb_inttable_compact ::
    "'a malloc \<Rightarrow> upb_inttable \<Rightarrow> 'a \<Rightarrow> (unit, bool \<times> upb_inttable \<times> 'a) cres" where
  "upb_inttable_compact malloc t a =
     cbind (compact_hist t) (\<lambda>(counts, maxs).
       let (size_lg2, arr_count) = compact_size counts 16 (ucast (upb_inttable_count t)) in
       cassert (ucast arr_count \<le> upb_inttable_count t)
         (let arr_size = maxs ! size_lg2 + 1;
              hash_count = ucast (upb_inttable_count t - ucast arr_count) :: u32 in
          cbind (if hash_count \<noteq> 0 then upb_entries_needed_for (ucast hash_count) else Ok 0) (\<lambda>hash_size.
            case upb_inttable_sizedinit malloc (ucast arr_size) (log2ceil hash_size) a of
              (None, a) \<Rightarrow> Ok (False, t, a)
            | (Some new_t, a) \<Rightarrow>
                cbind (inttable_foreach (inttable_fuel t) t (\<lambda>key val (new_t, a).
                    cbind (upb_inttable_insert malloc new_t key val a) (\<lambda>(_, new_t, a). Ok (new_t, a)))
                  (- 1) (new_t, a)) (\<lambda>(new_t, a).
                  cassert (ucast (array_size new_t) = arr_size) (Ok (True, new_t, a))))))"

end
