(* ===== verification/MsgMap.thy ===== *)
theory MsgMap
  imports Message StrTable IntTable
begin

text \<open>
  \<open>upb/message/internal/map.h\<close> and \<open>upb/message/map.c\<close>: the maps of messages, as hash tables of strings or
  of integers in the memory of an arena. A key or a value is its bytes in a \<open>upb_MessageValue\<close>, but a key
  that is a string is given by the bytes it points to, as in the tables, which copy it. A value that is
  a string is stored in the table as a pointer to a copy of the view. The tables themselves are values:
  of the memory for their entries only the request to the arena is modelled.
\<close>

section \<open>Data\<close>

datatype upb_MapInsertStatus =
    kUpb_MapInsertStatus_Inserted | kUpb_MapInsertStatus_Replaced | kUpb_MapInsertStatus_OutOfMemory

text \<open>The union of the two tables, with \<open>is_strtable\<close> as its tag.\<close>

datatype upb_Map_Table = Strtable upb_strtable | Inttable upb_inttable

record upb_Map =
  map_key_size :: nat
  map_val_size :: nat
  map_is_frozen :: bool
  map_t :: upb_Map_Table

definition UPB_MAPTYPE_STRING :: nat where
  "UPB_MAPTYPE_STRING = 0"

definition kUpb_Map_Begin :: u64 where
  "kUpb_Map_Begin = - 1"

fun upb_Map_CTypeSize :: "upb_CType \<Rightarrow> nat" where
  "upb_Map_CTypeSize CT_Bool = 1"
| "upb_Map_CTypeSize CT_Float = 4"
| "upb_Map_CTypeSize CT_Int32 = 4"
| "upb_Map_CTypeSize CT_UInt32 = 4"
| "upb_Map_CTypeSize CT_Enum = 4"
| "upb_Map_CTypeSize CT_Message = 8"
| "upb_Map_CTypeSize CT_Double = 8"
| "upb_Map_CTypeSize CT_Int64 = 8"
| "upb_Map_CTypeSize CT_UInt64 = 8"
| "upb_Map_CTypeSize CT_String = UPB_MAPTYPE_STRING"
| "upb_Map_CTypeSize CT_Bytes = UPB_MAPTYPE_STRING"

definition upb_Map_ShallowFreeze :: "upb_Map \<Rightarrow> upb_Map" where
  "upb_Map_ShallowFreeze mp = mp\<lparr>map_is_frozen := True\<rparr>"

definition upb_Map_IsFrozen :: "upb_Map \<Rightarrow> bool" where
  "upb_Map_IsFrozen mp = map_is_frozen mp"

text \<open>The requests of the tables go to the arena. The tables expect an answer; an undefined call of the arena,
  which its invariant \<open>arena_ok\<close> excludes (lemma \<open>request_defined\<close>), would count as a refusal.\<close>

definition arena_request :: "'x sys_malloc \<Rightarrow> 'x heap malloc" where
  "arena_request f n h =
     (case upb_Arena_Malloc f (of_nat n) h of Ok (p, h') \<Rightarrow> (p \<noteq> 0, h') | _ \<Rightarrow> (False, h))"

section \<open>Keys and values in the tables\<close>

definition upb_map_tokey :: "bytes \<Rightarrow> nat \<Rightarrow> (unit, bytes) cres" where
  "upb_map_tokey key sz =
     (if sz = UPB_MAPTYPE_STRING then Ok key else cassert (sz \<le> length key) (Ok (take sz key)))"

definition upb_map_tointkey :: "bytes \<Rightarrow> nat \<Rightarrow> (unit, u64) cres" where
  "upb_map_tointkey key key_size =
     cassert (key_size \<le> length key \<and> key_size \<le> 8) (Ok (le_word (take key_size key)))"

definition upb_map_fromkey :: "bytes \<Rightarrow> nat \<Rightarrow> (unit, bytes) cres" where
  "upb_map_fromkey key sz =
     (if sz = UPB_MAPTYPE_STRING then Ok key else cassert (sz \<le> length key) (Ok (take sz key)))"

text \<open>\<open>memcpy(key, &intkey, sz)\<close>.\<close>

definition intkey_bytes :: "u64 \<Rightarrow> nat \<Rightarrow> (unit, bytes) cres" where
  "intkey_bytes intkey sz = cassert (sz \<le> 8) (Ok (take sz (le_bytes 8 intkey)))"

definition upb_map_tovalue ::
    "'x sys_malloc \<Rightarrow> bytes \<Rightarrow> nat \<Rightarrow> 'x heap \<Rightarrow> (unit, u64 option \<times> 'x heap) cres" where
  "upb_map_tovalue f val sz h =
     (if sz = UPB_MAPTYPE_STRING then
        cbind (upb_Arena_Malloc f 16 h) (\<lambda>(strp, h).
          if strp = 0 then Ok (None, h)
          else cassert (16 \<le> length val)
            (cbind (store (h_mem h) strp (take 16 val)) (\<lambda>m. Ok (Some strp, h\<lparr>h_mem := m\<rparr>))))
      else cassert (sz \<le> length val \<and> sz \<le> 8) (Ok (Some (le_word (take sz val)), h)))"

definition upb_map_fromvalue :: "mem \<Rightarrow> u64 \<Rightarrow> nat \<Rightarrow> (unit, bytes) cres" where
  "upb_map_fromvalue m val sz =
     (if sz = UPB_MAPTYPE_STRING then load m val 16
      else cassert (sz \<le> 8) (Ok (take sz (le_bytes 8 val))))"

section \<open>Operations with explicit sizes\<close>

definition upb_Map_Clear :: "upb_Map \<Rightarrow> (unit, upb_Map) cres" where
  "upb_Map_Clear mp =
     cassert (\<not> upb_Map_IsFrozen mp)
       (case map_t mp of
          Strtable t \<Rightarrow> Ok (mp\<lparr>map_t := Strtable (upb_strtable_clear t)\<rparr>)
        | Inttable t \<Rightarrow> Ok (mp\<lparr>map_t := Inttable (upb_inttable_clear t)\<rparr>))"

text \<open>The value removed, if there was one.\<close>

definition upb_Map_Delete_sized ::
    "u64 \<Rightarrow> upb_Map \<Rightarrow> bytes \<Rightarrow> nat \<Rightarrow> (unit, upb_Map \<times> u64 option) cres" where
  "upb_Map_Delete_sized seed mp key key_size =
     cassert (\<not> upb_Map_IsFrozen mp)
       (case map_t mp of
          Strtable t \<Rightarrow>
            cbind (upb_map_tokey key key_size) (\<lambda>k.
            cbind (upb_strtable_remove2 seed t k) (\<lambda>(t, v). Ok (mp\<lparr>map_t := Strtable t\<rparr>, v)))
        | Inttable t \<Rightarrow>
            cbind (upb_map_tointkey key key_size) (\<lambda>k.
            cbind (upb_inttable_remove t k) (\<lambda>(t, v). Ok (mp\<lparr>map_t := Inttable t\<rparr>, v))))"

text \<open>What is found, and what is stored through \<open>val\<close>, which may be null (\<open>want\<close> false).\<close>

definition upb_Map_Get_sized ::
    "u64 \<Rightarrow> mem \<Rightarrow> upb_Map \<Rightarrow> bytes \<Rightarrow> nat \<Rightarrow> bool \<Rightarrow> nat \<Rightarrow> (unit, bool \<times> bytes option) cres" where
  "upb_Map_Get_sized seed m mp key key_size want val_size =
     cbind
       (case map_t mp of
          Strtable t \<Rightarrow> cbind (upb_map_tokey key key_size) (upb_strtable_lookup2 seed t)
        | Inttable t \<Rightarrow> cbind (upb_map_tointkey key key_size) (upb_inttable_lookup t))
       (\<lambda>r. case r of
          None \<Rightarrow> Ok (False, None)
        | Some tabval \<Rightarrow>
            if want then cbind (upb_map_fromvalue m tabval val_size) (\<lambda>v. Ok (True, Some v))
            else Ok (True, None))"

text \<open>The key is removed before it is inserted again.\<close>

definition upb_Map_Insert_sized ::
    "u64 \<Rightarrow> 'x sys_malloc \<Rightarrow> upb_Map \<Rightarrow> bytes \<Rightarrow> nat \<Rightarrow> bytes \<Rightarrow> nat \<Rightarrow> 'x heap \<Rightarrow>
     (unit, upb_MapInsertStatus \<times> upb_Map \<times> 'x heap) cres" where
  "upb_Map_Insert_sized seed f mp key key_size val val_size h =
     (let status = (\<lambda>ok removed.
            if \<not> ok then kUpb_MapInsertStatus_OutOfMemory
            else if removed then kUpb_MapInsertStatus_Replaced else kUpb_MapInsertStatus_Inserted)
      in cassert (\<not> upb_Map_IsFrozen mp)
        (cbind (upb_map_tovalue f val val_size h) (\<lambda>(tabval, h).
          case tabval of
            None \<Rightarrow> Ok (kUpb_MapInsertStatus_OutOfMemory, mp, h)
          | Some tabval \<Rightarrow>
              (case map_t mp of
                 Strtable t \<Rightarrow>
                   cbind (upb_map_tokey key key_size) (\<lambda>k.
                   cbind (upb_strtable_remove2 seed t k) (\<lambda>(t, v).
                   cbind (upb_strtable_insert seed (arena_request f) t k tabval h) (\<lambda>(ok, t, h).
                     Ok (status ok (v \<noteq> None), mp\<lparr>map_t := Strtable t\<rparr>, h))))
               | Inttable t \<Rightarrow>
                   cbind (upb_map_tointkey key key_size) (\<lambda>k.
                   cbind (upb_inttable_remove t k) (\<lambda>(t, v).
                   cbind (upb_inttable_insert (arena_request f) t k tabval h) (\<lambda>(ok, t, h).
                     Ok (status ok (v \<noteq> None), mp\<lparr>map_t := Inttable t\<rparr>, h))))))))"

definition upb_Map_Size :: "upb_Map \<Rightarrow> u64" where
  "upb_Map_Size mp =
     (case map_t mp of Strtable t \<Rightarrow> ucast (tab_count t) | Inttable t \<Rightarrow> upb_inttable_count t)"

text \<open>A \<open>upb_Map\<close> has 48 bytes. The map, or \<open>NULL\<close>.\<close>

definition upb_Map_New_sized ::
    "'x sys_malloc \<Rightarrow> nat \<Rightarrow> nat \<Rightarrow> 'x heap \<Rightarrow> (unit, upb_Map option \<times> 'x heap) cres" where
  "upb_Map_New_sized f key_size value_size h =
     (let new = (\<lambda>t. \<lparr>map_key_size = key_size, map_val_size = value_size, map_is_frozen = False, map_t = t\<rparr>)
      in cbind (upb_Arena_Malloc f 48 h) (\<lambda>(p, h).
        if p = 0 then Ok (None, h)
        else if key_size \<le> 8 \<and> key_size \<noteq> UPB_MAPTYPE_STRING then
          (case upb_inttable_init (arena_request f) h of
             (t, h) \<Rightarrow> Ok (map_option (\<lambda>t. new (Inttable t)) t, h))
        else
          cbind (upb_strtable_init (arena_request f) 4 h) (\<lambda>(t, h).
            Ok (map_option (\<lambda>t. new (Strtable t)) t, h))))"

section \<open>The operations of the interface\<close>

definition upb_Map_New ::
    "'x sys_malloc \<Rightarrow> upb_CType \<Rightarrow> upb_CType \<Rightarrow> 'x heap \<Rightarrow> (unit, upb_Map option \<times> 'x heap) cres" where
  "upb_Map_New f key_type value_type h =
     upb_Map_New_sized f (upb_Map_CTypeSize key_type) (upb_Map_CTypeSize value_type) h"

definition upb_Map_Get ::
    "u64 \<Rightarrow> mem \<Rightarrow> upb_Map \<Rightarrow> bytes \<Rightarrow> bool \<Rightarrow> (unit, bool \<times> bytes option) cres" where
  "upb_Map_Get seed m mp key want = upb_Map_Get_sized seed m mp key (map_key_size mp) want (map_val_size mp)"

definition upb_Map_GetMutable :: "u64 \<Rightarrow> mem \<Rightarrow> upb_Map \<Rightarrow> bytes \<Rightarrow> (unit, u64) cres" where
  "upb_Map_GetMutable seed m mp key =
     cassert (map_val_size mp = 8)
       (cbind (upb_Map_Get_sized seed m mp key (map_key_size mp) True 8) (\<lambda>(found, val).
          Ok (case val of Some v \<Rightarrow> le_word v | None \<Rightarrow> 0)))"

definition upb_Map_Insert ::
    "u64 \<Rightarrow> 'x sys_malloc \<Rightarrow> upb_Map \<Rightarrow> bytes \<Rightarrow> bytes \<Rightarrow> 'x heap \<Rightarrow>
     (unit, upb_MapInsertStatus \<times> upb_Map \<times> 'x heap) cres" where
  "upb_Map_Insert seed f mp key val h =
     upb_Map_Insert_sized seed f mp key (map_key_size mp) val (map_val_size mp) h"

definition upb_Map_Set ::
    "u64 \<Rightarrow> 'x sys_malloc \<Rightarrow> upb_Map \<Rightarrow> bytes \<Rightarrow> bytes \<Rightarrow> 'x heap \<Rightarrow> (unit, bool \<times> upb_Map \<times> 'x heap) cres" where
  "upb_Map_Set seed f mp key val h =
     cbind (upb_Map_Insert seed f mp key val h) (\<lambda>(status, mp, h).
       Ok (status \<noteq> kUpb_MapInsertStatus_OutOfMemory, mp, h))"

text \<open>\<open>v\<close> is the content of the uninitialised variable: it is what the value is made from when the key
  is not in the map.\<close>

definition upb_Map_Delete ::
    "u64 \<Rightarrow> mem \<Rightarrow> u64 \<Rightarrow> upb_Map \<Rightarrow> bytes \<Rightarrow> bool \<Rightarrow> (unit, bool \<times> bytes option \<times> upb_Map) cres" where
  "upb_Map_Delete seed m v mp key want =
     cbind (upb_Map_Delete_sized seed mp key (map_key_size mp)) (\<lambda>(mp', removed).
       if want then
         cbind (upb_map_fromvalue m (case removed of Some u \<Rightarrow> u | None \<Rightarrow> v) (map_val_size mp)) (\<lambda>val.
           Ok (removed \<noteq> None, Some val, mp'))
       else Ok (removed \<noteq> None, None, mp'))"

text \<open>The key, the value and the next iterator.\<close>

definition upb_Map_Next :: "mem \<Rightarrow> upb_Map \<Rightarrow> u64 \<Rightarrow> (unit, (bytes \<times> bytes \<times> u64) option) cres" where
  "upb_Map_Next m mp iter =
     cbind
       (case map_t mp of
          Strtable t \<Rightarrow>
            cbind (upb_strtable_next2 t iter) (\<lambda>r.
              case r of
                None \<Rightarrow> Ok None
              | Some (strkey, v, iter) \<Rightarrow>
                  cbind (upb_map_fromkey strkey (map_key_size mp)) (\<lambda>key. Ok (Some (key, v, iter))))
        | Inttable t \<Rightarrow>
            cbind (upb_inttable_next t iter) (\<lambda>r.
              case r of
                None \<Rightarrow> Ok None
              | Some (intkey, v, iter) \<Rightarrow>
                  cbind (intkey_bytes intkey (map_key_size mp)) (\<lambda>key. Ok (Some (key, v, iter)))))
       (\<lambda>r. case r of
          None \<Rightarrow> Ok None
        | Some (key, v, iter) \<Rightarrow>
            cbind (upb_map_fromvalue m v (map_val_size mp)) (\<lambda>val. Ok (Some (key, val, iter))))"

text \<open>The arena is \<open>NULL\<close>, so a value that is a string is written through a null arena. \<open>old\<close> is the
  content of the uninitialised \<open>v\<close>, of which only the bytes of the value are overwritten.\<close>

definition upb_Map_SetEntryValue :: "u64 \<Rightarrow> upb_Map \<Rightarrow> u64 \<Rightarrow> bytes \<Rightarrow> (unit, upb_Map) cres" where
  "upb_Map_SetEntryValue old mp iter val =
     (let sz = map_val_size mp in
      cassert (sz \<noteq> UPB_MAPTYPE_STRING \<and> sz \<le> length val \<and> sz \<le> 8)
        (let v = le_word (take sz val @ drop sz (le_bytes 8 old)) in
         case map_t mp of
           Strtable t \<Rightarrow> cbind (upb_strtable_setentryvalue t iter v) (\<lambda>t. Ok (mp\<lparr>map_t := Strtable t\<rparr>))
         | Inttable t \<Rightarrow> cbind (upb_inttable_setentryvalue t iter v) (\<lambda>t. Ok (mp\<lparr>map_t := Inttable t\<rparr>))))"

section \<open>The deprecated iterators\<close>

definition strtable_iter_at :: "upb_strtable \<Rightarrow> u64 \<Rightarrow> upb_strtable_iter" where
  "strtable_iter_at t i = \<lparr>iter_t = Some t, iter_index = i\<rparr>"

text \<open>The next iterator, and whether there is one more. At the end \<open>upb_inttable_next\<close> leaves
  \<open>INTPTR_MAX - 1\<close>.\<close>

definition upb_map_next :: "upb_Map \<Rightarrow> u64 \<Rightarrow> (unit, u64 \<times> bool) cres" where
  "upb_map_next mp iter =
     (case map_t mp of
        Strtable t \<Rightarrow>
          cbind (upb_strtable_next (strtable_iter_at t iter)) (\<lambda>it.
          cbind (upb_strtable_done it) (\<lambda>d. Ok (iter_index it, \<not> d)))
      | Inttable t \<Rightarrow>
          cbind (upb_inttable_next t iter) (\<lambda>r.
            let int_iter = (case r of Some (_, _, i) \<Rightarrow> i | None \<Rightarrow> 0x7FFFFFFFFFFFFFFE)
            in cbind (upb_inttable_done t int_iter) (\<lambda>d. Ok (int_iter, \<not> d))))"

definition upb_MapIterator_Next :: "upb_Map \<Rightarrow> u64 \<Rightarrow> (unit, u64 \<times> bool) cres" where
  "upb_MapIterator_Next mp iter = upb_map_next mp iter"

definition upb_MapIterator_Done :: "upb_Map \<Rightarrow> u64 \<Rightarrow> (unit, bool) cres" where
  "upb_MapIterator_Done mp iter =
     cassert (iter \<noteq> kUpb_Map_Begin)
       (case map_t mp of
          Strtable t \<Rightarrow> upb_strtable_done (strtable_iter_at t iter)
        | Inttable t \<Rightarrow> upb_inttable_done t iter)"

definition upb_MapIterator_Key :: "upb_Map \<Rightarrow> u64 \<Rightarrow> (unit, bytes) cres" where
  "upb_MapIterator_Key mp iter =
     (case map_t mp of
        Strtable t \<Rightarrow>
          cbind (upb_strtable_iter_key (strtable_iter_at t iter)) (\<lambda>k. upb_map_fromkey k (map_key_size mp))
      | Inttable t \<Rightarrow> cbind (upb_inttable_iter_key t iter) (\<lambda>k. intkey_bytes k (map_key_size mp)))"

definition upb_MapIterator_Value :: "mem \<Rightarrow> upb_Map \<Rightarrow> u64 \<Rightarrow> (unit, bytes) cres" where
  "upb_MapIterator_Value m mp iter =
     cbind
       (case map_t mp of
          Strtable t \<Rightarrow> upb_strtable_iter_value (strtable_iter_at t iter)
        | Inttable t \<Rightarrow> upb_inttable_iter_value t iter)
       (\<lambda>v. upb_map_fromvalue m v (map_val_size mp))"

end
