(* ===== verification/IntTableProps.thy ===== *)
theory IntTableProps
  imports IntTable
begin

text \<open>
  The integer table is a map from 64-bit keys to values: its invariant, and the correctness of
  every operation against the map, the array part and the hash part together.
\<close>

section \<open>The contract of the hash function\<close>

definition int_hash :: "upb_key \<Rightarrow> u32" where
  "int_hash k = (case k of KeyNum n \<Rightarrow> upb_inthash n | KeyStr s \<Rightarrow> 0)"

definition int_keys :: "upb_key set" where
  "int_keys = KeyNum ` (- {0})"

lemma int_keys_iff [simp]: "KeyNum n \<in> int_keys \<longleftrightarrow> n \<noteq> 0"
  by (auto simp: int_keys_def)

lemma int_hash_KeyNum [simp]: "int_hash (KeyNum n) = upb_inthash n"
  by (simp add: int_hash_def)

interpretation int: hash_table inthash inteql int_hash int_keys
  by unfold_locales (auto simp: int_keys_def upb_key_empty_def)

section \<open>The map from integers\<close>

definition present :: "upb_inttable \<Rightarrow> nat \<Rightarrow> bool" where
  "present t i \<longleftrightarrow> bit (presence_mask t ! (i div 8)) (i mod 8)"

definition inttable_map :: "upb_inttable \<Rightarrow> u64 \<rightharpoonup> u64" where
  "inttable_map t k =
     (if unat k < unat (array_size t)
      then (if present t (unat k) then Some (it_array t ! unat k) else None)
      else table_map (it_t t) (KeyNum k))"

text \<open>The invariant. The key 0 never gets into the hash part: the array part is never empty.\<close>

definition array_ok :: "upb_inttable \<Rightarrow> bool" where
  "array_ok t \<longleftrightarrow> array_size t \<noteq> 0 \<and> length (it_array t) = unat (array_size t) \<and>
     length (presence_mask t) = (unat (array_size t) + 7) div 8 \<and>
     unat (array_count t) = card {i. i < unat (array_size t) \<and> present t i}"

definition inttable_ok :: "upb_inttable \<Rightarrow> bool" where
  "inttable_ok t \<longleftrightarrow> array_ok t \<and> table_ok int_hash int_keys (it_t t) \<and>
     unat (tab_count (it_t t)) \<le> upb_table_size (it_t t) - upb_table_size (it_t t) div 8 \<and>
     (\<forall>k. unat k < unat (array_size t) \<longrightarrow> table_map (it_t t) (KeyNum k) = None)"

lemma less_array_size: "(key :: u64) < ucast (array_size t) \<longleftrightarrow> unat key < unat (array_size t)"
proof -
  have "unat (ucast (array_size t) :: u64) = unat (array_size t)"
    unfolding unsigned_ucast_eq by (rule take_bit_nat_eq_self) (rule less_trans [OF unat_less_numeral_power(3)], simp)
  then show ?thesis by (simp add: word_less_nat_alt)
qed

lemma and_push_1: "(w AND push_bit n 1) \<noteq> 0 \<longleftrightarrow> bit w n" for w :: u8
proof
  assume "bit w n"
  then have "n < 8" using bit_imp_le_length [of w n] by simp
  then have "bit (w AND push_bit n 1) n" using \<open>bit w n\<close> by (simp add: bit_simps del: push_bit_of_1)
  then show "(w AND push_bit n 1) \<noteq> 0" by (metis bit_0_eq bot_apply bot_bool_def)
next
  assume "(w AND push_bit n 1) \<noteq> 0"
  then obtain m where "bit (w AND push_bit n 1) m" by (auto simp: bit_eq_iff)
  then show "bit w n" by (auto simp: bit_simps simp del: push_bit_of_1)
qed

lemma unat_div_mod_8: "unat (key div 8 :: u64) = unat key div 8" "unat (key mod 8 :: u64) = unat key mod 8"
  by (simp_all add: unat_div unat_mod)

lemma arrhas_eq:
  assumes "array_ok t" "unat key < unat (array_size t)"
  shows "upb_inttable_arrhas t key = Ok (present t (unat key))"
proof -
  have "unat key div 8 < length (presence_mask t)" using assms by (simp add: array_ok_def)
  then show ?thesis
    by (simp add: upb_inttable_arrhas_def Let_def unat_div_mod_8 and_push_1 present_def del: push_bit_of_1)
qed

lemma set_present_eq:
  assumes "unat key div 8 < length (presence_mask t)"
  obtains t' where "set_present t key b = Ok t'" "it_t t' = it_t t" "it_array t' = it_array t"
    "array_size t' = array_size t" "array_count t' = array_count t"
    "length (presence_mask t') = length (presence_mask t)"
    "\<And>i. present t' i = (if i = unat key then b else present t i)"
proof -
  define p where "p = presence_mask t"
  define m :: u8 where "m = push_bit (unat key mod 8) 1"
  define w where "w = (if b then p ! (unat key div 8) OR m else p ! (unat key div 8) AND NOT m)"
  have lt: "unat key div 8 < length p" using assms by (simp add: p_def)
  have w: "bit w j = (if j = unat key mod 8 then b else bit (p ! (unat key div 8)) j)" if "j < 8" for j
    using that by (auto simp: w_def m_def bit_simps simp del: push_bit_of_1)
  define t' where "t' = t\<lparr>presence_mask := p[unat key div 8 := w]\<rparr>"
  have "set_present t key b = Ok t'"
    using lt by (simp add: set_present_def t'_def Let_def unat_div_mod_8 w_def m_def p_def)
  moreover have "present t' i = (if i = unat key then b else present t i)" for i
  proof (cases "i div 8 = unat key div 8")
    case True
    then have "present t' i = bit w (i mod 8)" using lt by (simp add: present_def t'_def)
    moreover have "i = unat key \<longleftrightarrow> i mod 8 = unat key mod 8"
      using True by (metis div_mult_mod_eq)
    ultimately show ?thesis using w [of "i mod 8"] True by (simp add: present_def p_def)
  next
    case False
    then show ?thesis by (auto simp: present_def t'_def p_def)
  qed
  ultimately show thesis using that [of t'] by (simp add: t'_def p_def)
qed

lemma inttable_lookup:
  assumes "inttable_ok t"
  shows "upb_inttable_lookup t key = Ok (inttable_map t key)"
proof (cases "unat key < unat (array_size t)")
  case True
  have a: "array_ok t" using assms by (simp add: inttable_ok_def)
  then have "unat key < length (it_array t)" using True by (simp add: array_ok_def)
  then show ?thesis
    using arrhas_eq [OF a True] True
    by (simp add: upb_inttable_lookup_def inttable_val_def less_array_size inttable_array_get_def
        inttable_map_def read_ref_def)
next
  case False
  have "key \<noteq> 0" using False assms by (auto simp: inttable_ok_def array_ok_def unat_gt_0)
  then have "table_lookup inteql (it_t t) (KeyNum key) (upb_inthash key) = Ok (table_map (it_t t) (KeyNum key))"
    using int.lookup_eq [of "it_t t" "KeyNum key"] assms by (simp add: inttable_ok_def)
  then show ?thesis
    using False
    by (cases "findentry inteql (it_t t) (KeyNum key) (upb_inthash key)")
      (auto simp: upb_inttable_lookup_def inttable_val_def less_array_size inttable_map_def
        table_lookup_def read_ref_def cbind_assoc split: option.splits)
qed

section \<open>Writing a value in place\<close>

lemma setentryvalue_spec:
  assumes ok: "table_ok h V t" and i: "used (entries t) i" "key_at (entries t) i = k"
  obtains t' where "table_setentryvalue t i v = Ok t'" "table_ok h V t'" "table_map t' = (table_map t)(k \<mapsto> v)"
    "tab_count t' = tab_count t" "tab_mask t' = tab_mask t"
proof -
  let ?es = "entries t"
  define es where "es = upd_ent i (ent_val_update (\<lambda>_. v)) ?es"
  define t' where "t' = t\<lparr>entries := es\<rparr>"
  have lt: "i < length ?es" using i by (simp add: used_def)
  have nth: "ent_key (es ! j) = ent_key (?es ! j)" "ent_next (es ! j) = ent_next (?es ! j)"
    "ent_val (es ! j) = (if j = i then v else ent_val (?es ! j))" for j
    using lt by (auto simp: es_def nth_upd_ent)
  have len: "length es = length ?es" by (simp add: es_def)
  have used: "used es = used ?es" by (rule ext) (rule used_cong [OF len nth(1)])
  have key: "key_at es = key_at ?es" using nth(1) by (auto simp: key_at_def)
  have seg: "lseg es s xs r \<longleftrightarrow> lseg ?es s xs r" for s xs r
    using lseg_cong [of ?es s xs r es] lseg_cong [of es s xs r ?es] len nth(2) by auto
  have ok': "table_ok h V t'"
    using ok by (simp add: table_ok_def t'_def len used key seg chains_ok_def getentry_def upb_table_size_def)
  have inj: "inj_on (key_at ?es) {i. used ?es i}" using ok by (simp add: table_ok_def)
  have "table_map t' k' = Some w \<longleftrightarrow> ((table_map t)(k \<mapsto> v)) k' = Some w" for k' w
  proof -
    have "table_map t' k' = Some w \<longleftrightarrow> (\<exists>j. used ?es j \<and> key_at ?es j = k' \<and> ent_val (es ! j) = w)"
      using table_map_Some [of t' k' w] inj by (simp add: t'_def used key)
    also have "\<dots> \<longleftrightarrow> ((table_map t)(k \<mapsto> v)) k' = Some w"
    proof (cases "k' = k")
      case True
      have "j = i" if "used ?es j" "key_at ?es j = k" for j
        using inj_onD [OF inj, of j i] i that by simp
      then have "(\<exists>j. used ?es j \<and> key_at ?es j = k \<and> ent_val (es ! j) = w) \<longleftrightarrow> v = w"
        using i nth(3) [of i] by metis
      then show ?thesis using True by simp
    next
      case False
      then have "ent_val (es ! j) = ent_val (?es ! j)" if "key_at ?es j = k'" for j
        using nth(3) [of j] i that by auto
      then have "(\<exists>j. used ?es j \<and> key_at ?es j = k' \<and> ent_val (es ! j) = w) \<longleftrightarrow> table_map t k' = Some w"
        unfolding table_map_Some [OF inj] by metis
      then show ?thesis using False by simp
    qed
    finally show ?thesis .
  qed
  then have "table_map t' = (table_map t)(k \<mapsto> v)" by (intro ext option_eqI)
  moreover have "table_setentryvalue t i v = Ok t'"
    using lt by (simp add: table_setentryvalue_def ent_at_def t'_def es_def)
  ultimately show thesis using ok' by (intro that [of t']) (simp_all add: t'_def)
qed

lemma table_clear_ok:
  assumes "table_ok h V t"
  shows "table_ok h V (table_clear t)" "table_map (table_clear t) = Map.empty"
proof -
  have none: "\<not> used (entries (table_clear t)) i" for i
    by (auto simp: table_clear_def used_def zero_ent_def upb_tabent_isempty_def)
  then show "table_map (table_clear t) = Map.empty"
    by (auto simp: table_map_def filter_empty_conv used_def in_set_conv_nth)
  have "chains_ok mp (entries (table_clear t)) (\<lambda>_. [])" for mp using none by (simp add: chains_ok_def)
  then show "table_ok h V (table_clear t)"
    using assms none unfolding table_ok_def
    by (auto simp: table_clear_def upb_table_size_def inj_on_def)
qed

section \<open>Writing to the array part\<close>

text \<open>\<open>array_written t t' k r\<close>: only what the array part says of the key \<open>k\<close> has changed, to \<open>r\<close>.\<close>

definition array_written :: "upb_inttable \<Rightarrow> upb_inttable \<Rightarrow> u64 \<Rightarrow> u64 option \<Rightarrow> bool" where
  "array_written t t' k r \<longleftrightarrow> array_ok t' \<and> array_size t' = array_size t \<and> it_t t' = it_t t \<and>
     inttable_map t' = (inttable_map t)(k := r)"

lemma array_writtenI:
  assumes ok: "array_ok t" and k: "unat k < unat (array_size t)"
    and arr: "it_array t' = (it_array t)[unat k := v]" and hash: "it_t t' = it_t t"
    and size: "array_size t' = array_size t" "length (presence_mask t') = length (presence_mask t)"
    and pres: "\<And>i. i < unat (array_size t) \<Longrightarrow> present t' i = (if i = unat k then b else present t i)"
    and count: "unat (array_count t') + (if present t (unat k) then 1 else 0) =
      unat (array_count t) + (if b then 1 else 0)"
  shows "array_written t t' k (if b then Some v else None)"
proof -
  let ?n = "unat (array_size t)" and ?k = "unat k"
  let ?P = "{i. i < ?n \<and> present t i}" and ?P' = "{i. i < ?n \<and> present t' i}"
  have P': "?P' = (if b then insert ?k ?P else ?P - {?k})"
    using pres k by (auto split: if_splits)
  have fin: "finite ?P" by simp
  have "card ?P' + (if present t ?k then 1 else 0) = card ?P + (if b then 1 else 0)"
  proof (cases "present t ?k")
    case True
    then have "Suc (card (?P - {?k})) = card ?P" using fin k by (intro card_Suc_Diff1) auto
    then show ?thesis unfolding P' using True fin k by (auto simp: insert_absorb)
  qed (use P' fin in auto)
  then have card: "unat (array_count t') = card ?P'" using ok count by (simp add: array_ok_def)
  have "inttable_map t' j = ((inttable_map t)(k := (if b then Some v else None))) j" for j
    using ok k arr hash size pres [of "unat j"]
    by (auto simp: inttable_map_def array_ok_def nth_list_update word_unat_eq_iff)
  then show ?thesis
    using ok arr hash size card by (auto simp: array_written_def array_ok_def)
qed

lemma array_written_ok:
  assumes "inttable_ok t" "array_written t t' k r"
  shows "inttable_ok t' \<and> inttable_map t' = (inttable_map t)(k := r)"
  using assms by (auto simp: inttable_ok_def array_written_def)

text \<open>A hash part with another map for the keys outside the array.\<close>

lemma hash_part_ok:
  assumes ok: "inttable_ok t" and h: "table_ok int_hash int_keys h"
    "unat (tab_count h) \<le> upb_table_size h - upb_table_size h div 8"
    "table_map h = (table_map (it_t t))(KeyNum k := r)" and k: "\<not> unat k < unat (array_size t)"
  shows "inttable_ok (t\<lparr>it_t := h\<rparr>) \<and> inttable_map (t\<lparr>it_t := h\<rparr>) = (inttable_map t)(k := r)"
  using assms by (auto simp: inttable_ok_def array_ok_def inttable_map_def present_def)

lemma array_count_bound:
  assumes "array_ok t" "unat k < unat (array_size t)" "\<not> present t (unat k)"
  shows "unat (array_count t) < unat (array_size t)"
proof -
  let ?P = "{i. i < unat (array_size t) \<and> present t i}"
  have "card ?P < card {..<unat (array_size t)}"
    by (rule psubset_card_mono) (use assms in auto)
  then show ?thesis using assms(1) by (simp add: array_ok_def)
qed

lemma array_insert:
  assumes ok: "array_ok t" and k: "unat key < unat (array_size t)" and absent: "\<not> present t (unat key)"
  obtains t' where "upb_inttable_insert malloc t key v a = Ok (True, t', a)" "array_written t t' key (Some v)"
proof -
  define t1 where "t1 = t\<lparr>array_count := array_count t + 1, it_array := (it_array t)[unat key := v]\<rparr>"
  have len: "unat key < length (it_array t)" using ok k by (simp add: array_ok_def)
  have pres: "present t1 = present t" by (simp add: present_def t1_def fun_eq_iff)
  have "unat (array_count t) + 1 < 4294967296"
    using array_count_bound [OF ok k absent] unat_less_numeral_power(3) [of "array_size t"] by linarith
  then have "unat (array_count t + 1) = unat (array_count t) + 1" by (simp add: unat_word_ariths)
  moreover obtain t' where t': "set_present t1 key True = Ok t'" "it_t t' = it_t t1" "it_array t' = it_array t1"
    "array_size t' = array_size t1" "array_count t' = array_count t1"
    "length (presence_mask t') = length (presence_mask t1)"
    "\<And>i. present t' i = (if i = unat key then True else present t1 i)"
    by (rule set_present_eq [of key t1 True]) (use ok k in \<open>simp_all add: t1_def array_ok_def\<close>)
  ultimately have "array_written t t' key (if True then Some v else None)"
    using absent pres by (intro array_writtenI [OF ok k]) (simp_all add: t1_def)
  moreover have "upb_inttable_insert malloc t key v a = Ok (True, t', a)"
    using k absent len t'(1)
    by (simp add: upb_inttable_insert_def less_array_size arrhas_eq [OF ok k] set_array_def t1_def)
  ultimately show thesis using that by simp
qed

lemma array_remove:
  assumes ok: "array_ok t" and k: "unat key < unat (array_size t)"
  obtains t' where "upb_inttable_remove t key = Ok (t', inttable_map t key)" "array_written t t' key None"
proof (cases "present t (unat key)")
  case False
  then have m: "inttable_map t key = None" using k by (simp add: inttable_map_def)
  have "array_written t t key None"
    using ok fun_upd_triv [of "inttable_map t" key] unfolding m by (simp add: array_written_def)
  then show thesis
    using False k m by (intro that [of t]) (simp_all add: upb_inttable_remove_def less_array_size arrhas_eq [OF ok k])
next
  case True
  define t1 where "t1 = t\<lparr>array_count := array_count t - 1,
    it_array := (it_array t)[unat key := kInttableSentinel]\<rparr>"
  have len: "unat key < length (it_array t)" using ok k by (simp add: array_ok_def)
  have "card {i. i < unat (array_size t) \<and> present t i} \<noteq> 0" using True k by auto
  then have "unat (array_count t) \<noteq> 0" using ok by (simp add: array_ok_def)
  then have "unat (array_count t - 1) = unat (array_count t) - 1"
    by (intro unat_minus_one) auto
  with \<open>unat (array_count t) \<noteq> 0\<close> have "unat (array_count t - 1) + 1 = unat (array_count t)" by linarith
  moreover have pres: "present t1 = present t" by (simp add: present_def t1_def fun_eq_iff)
  moreover obtain t' where t': "set_present t1 key False = Ok t'" "it_t t' = it_t t1" "it_array t' = it_array t1"
    "array_size t' = array_size t1" "array_count t' = array_count t1"
    "length (presence_mask t') = length (presence_mask t1)"
    "\<And>i. present t' i = (if i = unat key then False else present t1 i)"
    by (rule set_present_eq [of key t1 False]) (use ok k in \<open>simp_all add: t1_def array_ok_def\<close>)
  ultimately have "array_written t t' key (if False then Some kInttableSentinel else None)"
    using True by (intro array_writtenI [OF ok k]) (simp_all add: t1_def)
  moreover have "upb_inttable_remove t key = Ok (t', inttable_map t key)"
    using k True len t'(1)
    by (simp add: upb_inttable_remove_def less_array_size arrhas_eq [OF ok k] set_array_def t1_def
        read_ref_def inttable_map_def)
  ultimately show thesis using that by simp
qed

section \<open>The operations against the map\<close>

lemma inttable_nonzero: "inttable_ok t \<Longrightarrow> \<not> unat key < unat (array_size t) \<Longrightarrow> key \<noteq> 0"
  by (auto simp: inttable_ok_def array_ok_def unat_gt_0)

lemma inttable_grow_spec:
  assumes ok: "inttable_ok t"
  obtains (refused) a' where "inttable_grow malloc (it_t t) a = Ok (None, a')" "isfull (it_t t)"
      "\<not> ((\<forall>n a. fst (malloc n a)) \<and> upb_table_size (it_t t) < 2 ^ 31)"
  | (grown) h a' where "inttable_grow malloc (it_t t) a = Ok (Some h, a')"
      "table_ok int_hash int_keys h" "table_map h = table_map (it_t t)"
      "unat (tab_count h) < upb_table_size h - upb_table_size h div 8"
proof -
  let ?h = "it_t t"
  have h: "table_ok int_hash int_keys ?h" "unat (tab_count ?h) \<le> upb_table_size ?h - upb_table_size ?h div 8"
    using ok by (auto simp: inttable_ok_def)
  have log: "(upb_log2_table_size ?h + 1) mod 256 = upb_log2_table_size ?h + 1"
    using log2_table_size [OF h(1)] by simp
  show thesis
  proof (cases "isfull ?h")
    case False
    then show thesis using h isfull_iff [OF h(1)]
      by (intro grown [of ?h a]) (auto simp: inttable_grow_def)
  next
    case True
    show thesis
    proof (cases "table_init malloc (upb_log2_table_size ?h + 1) a")
      case (Pair r a')
      show thesis
      proof (cases r)
        case None
        then show thesis
          using True Pair log table_init_total [OF h(1), of malloc a]
          by (intro refused [of a']) (auto simp: inttable_grow_def)
      next
        case (Some nt)
        obtain nt' where nt': "table_rehash inthash inteql ?h nt = Ok nt'" "int.grown ?h nt'"
          using int.grow_spec [OF h Pair [unfolded Some]] .
        then have "tab_count ?h = tab_count nt'" by (simp add: int.grown_def word_unat_eq_iff)
        moreover from nt'(2) have "table_ok int_hash int_keys nt'" "table_map nt' = table_map ?h"
          "unat (tab_count nt') < upb_table_size nt' - upb_table_size nt' div 8" by (auto simp: int.grown_def)
        ultimately show thesis
          using True Pair Some log nt'(1) by (intro grown [of nt' a']) (simp_all add: inttable_grow_def)
      qed
    qed
  qed
qed

lemma inttable_insert:
  assumes ok: "inttable_ok t" and absent: "inttable_map t k = None"
  shows "\<exists>b t' a'. upb_inttable_insert malloc t k v a = Ok (b, t', a') \<and> inttable_ok t' \<and>
    inttable_map t' = (if b then (inttable_map t)(k \<mapsto> v) else inttable_map t) \<and>
    array_size t' = array_size t \<and>
    ((\<forall>n a. fst (malloc n a)) \<and> (isfull (it_t t) \<longrightarrow> upb_table_size (it_t t) < 2 ^ 31) \<longrightarrow> b)"
proof (cases "unat k < unat (array_size t)")
  case True
  then have "\<not> present t (unat k)" using absent by (simp add: inttable_map_def split: if_splits)
  then obtain t' where t': "upb_inttable_insert malloc t k v a = Ok (True, t', a)" "array_written t t' k (Some v)"
    using array_insert [OF _ True, of malloc v a] ok unfolding inttable_ok_def by blast
  then show ?thesis using array_written_ok [OF ok t'(2)]
    by (intro exI [of _ True] exI [of _ t'] exI [of _ a]) (simp add: array_written_def)
next
  case False
  from ok show ?thesis
  proof (cases rule: inttable_grow_spec [where malloc = malloc and a = a])
    case (refused a')
    then show ?thesis using ok False
      by (intro exI [of _ False] exI [of _ t] exI [of _ a'])
        (simp add: upb_inttable_insert_def less_array_size)
  next
    case (grown h a')
    have len: "length (entries h) = upb_table_size h" using grown(2) by (simp add: table_ok_def)
    have "table_map h (KeyNum k) = None" using absent False grown(3) by (simp add: inttable_map_def)
    moreover have "unat (tab_count h) < length (entries h)" using grown(4) len by linarith
    moreover have "KeyNum k \<in> int_keys" using inttable_nonzero [OF ok False] by simp
    ultimately obtain h' where h': "table_insert inthash inteql h (KeyNum k) (KeyNum k) v (upb_inthash k) = Ok h'"
      "table_ok int_hash int_keys h'" "table_map h' = (table_map h)(KeyNum k \<mapsto> v)"
      "tab_mask h' = tab_mask h" "unat (tab_count h') = unat (tab_count h) + 1"
      using int.insert_spec [OF grown(2), of "KeyNum k" v] by (metis int_hash_KeyNum)
    then have "unat (tab_count h') \<le> upb_table_size h' - upb_table_size h' div 8"
      using grown(4) by (simp add: upb_table_size_def)
    from hash_part_ok [OF ok h'(2) this _ False, of "Some v"] h'(3) grown(3) show ?thesis
      using h'(1) grown(1) False
      by (intro exI [of _ True] exI [of _ "t\<lparr>it_t := h'\<rparr>"] exI [of _ a'])
        (simp add: upb_inttable_insert_def less_array_size)
  qed
qed

lemma inttable_remove:
  assumes ok: "inttable_ok t"
  shows "\<exists>t'. upb_inttable_remove t k = Ok (t', inttable_map t k) \<and> inttable_ok t' \<and>
    inttable_map t' = (inttable_map t)(k := None)"
proof (cases "unat k < unat (array_size t)")
  case True
  obtain t' where t': "upb_inttable_remove t k = Ok (t', inttable_map t k)" "array_written t t' k None"
    using array_remove [OF _ True] ok unfolding inttable_ok_def by blast
  then show ?thesis using array_written_ok [OF ok t'(2)] by (intro exI [of _ t']) simp
next
  case False
  have "KeyNum k \<in> int_keys" using inttable_nonzero [OF ok False] by simp
  then obtain h where h: "table_rm inteql (it_t t) (KeyNum k) (upb_inthash k) = Ok (h, table_map (it_t t) (KeyNum k))"
    "table_ok int_hash int_keys h" "table_map h = (table_map (it_t t))(KeyNum k := None)"
    "tab_mask h = tab_mask (it_t t)" "unat (tab_count h) \<le> unat (tab_count (it_t t))"
    using int.rm_spec [of "it_t t" "KeyNum k"] ok by (auto simp: inttable_ok_def)
  then have "unat (tab_count h) \<le> upb_table_size h - upb_table_size h div 8"
    using ok by (simp add: inttable_ok_def upb_table_size_def)
  from hash_part_ok [OF ok h(2) this h(3) False] show ?thesis
    using h(1) False
    by (intro exI [of _ "t\<lparr>it_t := h\<rparr>"]) (simp add: upb_inttable_remove_def less_array_size inttable_map_def)
qed

lemma inttable_replace:
  assumes ok: "inttable_ok t"
  shows "\<exists>t'. upb_inttable_replace t k v = Ok (inttable_map t k \<noteq> None, t') \<and> inttable_ok t' \<and>
    inttable_map t' = (if inttable_map t k = None then inttable_map t else (inttable_map t)(k \<mapsto> v))"
proof (cases "unat k < unat (array_size t)")
  case True
  have a: "array_ok t" and len: "unat k < length (it_array t)"
    using ok True by (auto simp: inttable_ok_def array_ok_def)
  show ?thesis
  proof (cases "present t (unat k)")
    case False
    then show ?thesis using ok True len
      by (auto simp: upb_inttable_replace_def inttable_val_def less_array_size inttable_array_get_def
          arrhas_eq [OF a True] inttable_map_def)
  next
    case pres: True
    define t' where "t' = t\<lparr>it_array := (it_array t)[unat k := v]\<rparr>"
    have "array_written t t' k (if True then Some v else None)"
      using pres by (intro array_writtenI [OF a True]) (auto simp: t'_def present_def)
    then have "inttable_ok t' \<and> inttable_map t' = (inttable_map t)(k \<mapsto> v)"
      using array_written_ok [OF ok] by simp
    then show ?thesis using pres True len
      by (intro exI [of _ t'])
        (simp add: upb_inttable_replace_def inttable_val_def less_array_size inttable_array_get_def
          arrhas_eq [OF a True] inttable_map_def write_ref_def set_array_def t'_def)
  qed
next
  case False
  let ?h = "it_t t"
  have h: "table_ok int_hash int_keys ?h" and key: "KeyNum k \<in> int_keys"
    using ok inttable_nonzero [OF ok False] by (auto simp: inttable_ok_def)
  have inj: "inj_on (key_at (entries ?h)) {i. used (entries ?h) i}" using h by (simp add: table_ok_def)
  obtain r where r: "findentry inteql ?h (KeyNum k) (upb_inthash k) = Ok r"
    "r = None \<longrightarrow> (\<forall>i. used (entries ?h) i \<longrightarrow> key_at (entries ?h) i \<noteq> KeyNum k)"
    "\<forall>i. r = Some i \<longrightarrow> used (entries ?h) i \<and> key_at (entries ?h) i = KeyNum k"
    using int.findentry_spec [OF h key] by auto
  show ?thesis
  proof (cases r)
    case None
    then have "table_map ?h (KeyNum k) = None"
      using r(2) table_map_Some [OF inj, of "KeyNum k"] by (cases "table_map ?h (KeyNum k)") auto
    then show ?thesis using None r(1) False ok
      by (auto simp: upb_inttable_replace_def inttable_val_def less_array_size inttable_map_def)
  next
    case (Some i)
    then have i: "used (entries ?h) i" "key_at (entries ?h) i = KeyNum k" using r(3) by auto
    then have some: "table_map ?h (KeyNum k) \<noteq> None"
      using table_map_Some [OF inj, of "KeyNum k" "ent_val (entries ?h ! i)"] by auto
    obtain h' where h': "table_setentryvalue ?h i v = Ok h'" "table_ok int_hash int_keys h'"
      "table_map h' = (table_map ?h)(KeyNum k \<mapsto> v)" "tab_count h' = tab_count ?h" "tab_mask h' = tab_mask ?h"
      by (rule setentryvalue_spec [OF h i])
    then have "unat (tab_count h') \<le> upb_table_size h' - upb_table_size h' div 8"
      using ok by (simp add: inttable_ok_def upb_table_size_def)
    from hash_part_ok [OF ok h'(2) this h'(3) False] show ?thesis
      using h'(1) r(1) Some False some
      by (intro exI [of _ "t\<lparr>it_t := h'\<rparr>"])
        (auto simp: upb_inttable_replace_def inttable_val_def less_array_size inttable_map_def write_ref_def)
  qed
qed

lemma presence_bytes:
  assumes "unat n + 7 < 2 ^ 32"
  shows "unat (presence_mask_arr_size n) = (unat n + 7) div 8"
proof -
  have "unat (n + 7) = unat n + 7" using assms by (simp add: unat_word_ariths)
  then show ?thesis by (simp add: presence_mask_arr_size_def unat_div)
qed

text \<open>An empty array part of \<open>n\<close> slots, on a hash part with no entry.\<close>

lemma empty_ok:
  assumes t: "array_size t = n" "n \<noteq> 0" "it_array t = replicate (unat n) (- 1)" "array_count t = 0"
    "presence_mask t = replicate ((unat n + 7) div 8) 0"
    and h: "table_ok int_hash int_keys (it_t t)" "table_map (it_t t) = Map.empty" "tab_count (it_t t) = 0"
  shows "inttable_ok t" "inttable_map t = Map.empty"
proof -
  have none: "\<not> present t i" if "i < unat n" for i
  proof -
    have "i div 8 < (unat n + 7) div 8" using that by linarith
    then show ?thesis by (simp add: present_def t)
  qed
  then show "inttable_ok t" using assms by (auto simp: inttable_ok_def array_ok_def)
  show "inttable_map t = Map.empty" using none assms by (auto simp: inttable_map_def fun_eq_iff)
qed

lemma inttable_clear:
  assumes ok: "inttable_ok t" and n: "unat (array_size t) + 7 < 2 ^ 32"
  shows "inttable_ok (upb_inttable_clear t) \<and> inttable_map (upb_inttable_clear t) = Map.empty"
proof -
  have h: "table_ok int_hash int_keys (it_t t)" and "array_size t \<noteq> 0"
    using ok by (auto simp: inttable_ok_def array_ok_def)
  then show ?thesis
    using table_clear_ok [OF h] presence_bytes [OF n]
    by (intro conjI empty_ok [where n = "array_size t"]) (simp_all add: upb_inttable_clear_def table_clear_def)
qed

lemma inttable_sizedinit:
  assumes "upb_inttable_sizedinit malloc asize lg a = (Some t, a')" "lg < 256" "unat asize + 7 < 2 ^ 32"
  shows "inttable_ok t" "inttable_map t = Map.empty" "array_size t = max 1 asize"
    "tab_count (it_t t) = 0" "upb_table_size (it_t t) = 2 ^ lg"
proof -
  obtain h a1 where h: "table_init malloc lg a = (Some h, a1)"
    using assms by (cases "table_init malloc lg a") (auto simp: upb_inttable_sizedinit_def split: option.splits)
  have n: "unat (max 1 asize) + 7 < 2 ^ 32" using assms(3) by (simp add: max_def)
  have t: "t = \<lparr>it_t = h, it_array = replicate (unat (max 1 asize)) (- 1),
      presence_mask = replicate ((unat (max 1 asize) + 7) div 8) 0, array_size = max 1 asize, array_count = 0\<rparr>"
    using assms h presence_bytes [OF n] by (auto simp: upb_inttable_sizedinit_def Let_def split: prod.splits if_splits)
  note h = init_ok [OF h]
  have "max 1 asize \<noteq> 0" by (auto simp: max_def split: if_splits)
  then show "inttable_ok t" "inttable_map t = Map.empty"
    using h by (auto intro: empty_ok [where n = "max 1 asize"] simp: t)
  show "array_size t = max 1 asize" "tab_count (it_t t) = 0" "upb_table_size (it_t t) = 2 ^ lg"
    using h by (simp_all add: t table_ok_def)
qed

end
