(* ===== verification/IntIter.thy ===== *)
theory IntIter
  imports IntTableProps
begin

text \<open>
  Iteration over an integer table with \<open>upb_inttable_next\<close> visits the keys of the array part in
  order, then those of the hash part; from that, compaction keeps the map.
\<close>

section \<open>Slots\<close>

text \<open>The positions of an iterator: the array part, then the entries of the hash part.\<close>

definition slots :: "upb_inttable \<Rightarrow> nat" where
  "slots t = unat (array_size t) + upb_table_size (it_t t)"

definition slot_used :: "upb_inttable \<Rightarrow> nat \<Rightarrow> bool" where
  "slot_used t s =
     (if s < unat (array_size t) then present t s else used (entries (it_t t)) (s - unat (array_size t)))"

definition slot_item :: "upb_inttable \<Rightarrow> nat \<Rightarrow> u64 \<times> u64" where
  "slot_item t s =
     (if s < unat (array_size t) then (of_nat s, it_array t ! s)
      else (let e = entries (it_t t) ! (s - unat (array_size t))
            in (case ent_key e of KeyNum n \<Rightarrow> n | KeyStr _ \<Rightarrow> 0, ent_val e)))"

definition inttable_items :: "upb_inttable \<Rightarrow> (u64 \<times> u64) list" where
  "inttable_items t = map (slot_item t) (filter (slot_used t) [0..<slots t])"

lemma slots_bound: "slots t < 2 ^ 34"
proof -
  have "upb_table_size (it_t t) < 2 ^ 32" by (simp add: upb_table_size_def)
  moreover have "unat (array_size t) < 2 ^ 32" by simp
  ultimately have "slots t < 2 ^ 32 + 2 ^ 32" unfolding slots_def by (rule add_strict_mono [rotated])
  then show ?thesis by simp
qed

lemma unat_array_size: "unat (ucast (array_size t) :: u64) = unat (array_size t)"
  unfolding unsigned_ucast_eq by (rule take_bit_nat_eq_self) (rule less_trans [OF unat_less_numeral_power(3)], simp)

lemma array_scan_eq:
  assumes "array_ok t" "unat i + n = unat (array_size t)"
  shows "array_scan t n i = Ok (case filter (present t) [unat i..<unat (array_size t)] of
    [] \<Rightarrow> None | j # js \<Rightarrow> Some (of_nat j, it_array t ! j))"
  using assms(2)
proof (induction n arbitrary: i)
  case (Suc n)
  have lt: "unat i < unat (array_size t)" using Suc.prems by simp
  then have upt: "[unat i..<unat (array_size t)] = unat i # [Suc (unat i)..<unat (array_size t)]"
    by (rule upt_conv_Cons)
  have len: "unat i < length (it_array t)" using lt assms(1) by (simp add: array_ok_def)
  have get: "inttable_array_get t i = Ok (if present t (unat i) then Some (it_array t ! unat i) else None)"
    using arrhas_eq [OF assms(1) lt] lt len by (simp add: inttable_array_get_def less_array_size)
  have "unat i + 1 < 2 ^ 64" by (rule le_less_trans [of _ "unat (array_size t)"])
    (use lt less_trans [OF unat_less_numeral_power(3) [of "array_size t"], of "2 ^ 64"] in simp_all)
  then have "unat (i + 1) = Suc (unat i)" by (simp add: unat_word_ariths)
  then show ?case using Suc.IH [of "i + 1"] Suc.prems get by (simp add: upt)
qed simp

lemma filter_slots_table:
  "q \<le> upb_table_size (it_t t) \<Longrightarrow>
    filter (slot_used t) [unat (array_size t) + q..<slots t] =
    map (\<lambda>i. i + unat (array_size t)) (filter (used (entries (it_t t))) [q..<upb_table_size (it_t t)])"
proof -
  have "[unat (array_size t) + q..<slots t] = map (\<lambda>i. i + unat (array_size t)) [q..<upb_table_size (it_t t)]"
    by (rule nth_equalityI) (auto simp: slots_def)
  then show ?thesis by (simp add: filter_map comp_def slot_used_def)
qed

definition next_result :: "upb_inttable \<Rightarrow> nat list \<Rightarrow> (u64 \<times> u64 \<times> u64) option" where
  "next_result t ss = (case ss of [] \<Rightarrow> None
     | s # _ \<Rightarrow> (case slot_item t s of (k, v) \<Rightarrow> Some (k, v, of_nat s)))"

lemma next_table_part:
  assumes ok: "inttable_ok t" and q: "q \<le> upb_table_size (it_t t)"
  shows "(let tab_idx = next_loop (it_t t) q in
      if unat tab_idx < upb_table_size (it_t t) then
        cbind (ent_at (entries (it_t t)) (unat tab_idx)) (\<lambda>ent.
        cbind (key_num (ent_key ent)) (\<lambda>k. Ok (Some (k, ent_val ent, tab_idx + ucast (array_size t)))))
      else Ok None) = Ok (next_result t (filter (slot_used t) [unat (array_size t) + q..<slots t]))"
proof -
  let ?h = "it_t t" and ?es = "entries (it_t t)"
  have h: "length ?es = upb_table_size ?h" "\<And>i. used ?es i \<Longrightarrow> key_at ?es i \<in> int_keys"
    using ok by (auto simp: inttable_ok_def table_ok_def)
  have n: "upb_table_size ?h < 2 ^ 32" by (simp add: upb_table_size_def)
  show ?thesis
  proof (cases "filter (used ?es) [q..<upb_table_size ?h]")
    case Nil
    then show ?thesis
      using next_loop_eq [OF h(1) q] n filter_slots_table [OF q] by (simp add: next_result_def)
  next
    case (Cons j js)
    note j = filter_upt_Cons [OF Cons]
    have nx: "next_loop ?h q = of_nat j" using next_loop_eq [OF h(1) q] Cons by simp
    have uj: "unat (of_nat j :: u64) = j" using j(2) n by (simp add: unat_of_nat)
    obtain k where k: "ent_key (?es ! j) = KeyNum k" using h(2) [OF j(3)] by (auto simp: key_at_def int_keys_def)
    have "of_nat (unat (array_size t)) = (ucast (array_size t) :: u64)"
      by simp
    then show ?thesis
      using nx uj j(2) k h(1) filter_slots_table [OF q] Cons
      by (simp add: next_result_def slot_item_def ent_at_def)
  qed
qed

lemma next_eq:
  assumes ok: "inttable_ok t" and p: "unat (iter + 1) = p" "p \<le> slots t"
  shows "upb_inttable_next t iter = Ok (next_result t (filter (slot_used t) [p..<slots t]))"
proof (cases "p \<le> unat (array_size t)")
  case True
  let ?n = "unat (array_size t)" and ?asz = "ucast (array_size t) :: u64"
  have a: "array_ok t" using ok by (simp add: inttable_ok_def)
  have le: "iter + 1 \<le> ?asz" using True p unat_array_size [of t] by (simp add: word_le_nat_alt)
  then have sub: "unat (?asz - (iter + 1)) = ?n - p" by (simp only: unat_sub p unat_array_size)
  have scan: "array_scan t (?n - p) (iter + 1) = Ok (case filter (present t) [p..<?n] of
      [] \<Rightarrow> None | j # js \<Rightarrow> Some (of_nat j, it_array t ! j))"
    using array_scan_eq [OF a, of "iter + 1" "?n - p"] True p(1) by simp
  have split: "[p..<slots t] = [p..<?n] @ [?n..<slots t]"
    unfolding slots_def by (rule upt_add_eq_append [OF True])
  have arr: "filter (slot_used t) [p..<?n] = filter (present t) [p..<?n]"
    by (rule filter_cong) (auto simp: slot_used_def)
  show ?thesis
  proof (cases "filter (present t) [p..<?n]")
    case Nil
    have "table_next (it_t t) (?asz - 1 - ?asz) = next_loop (it_t t) 0" by (simp add: table_next_def)
    then show ?thesis
      using next_table_part [OF ok, of 0] le scan Nil
      by (simp add: upb_inttable_next_def Let_def sub split arr cong: if_cong split del: if_split)
  next
    case (Cons j js)
    then show ?thesis
      using filter_upt_Cons(2) [OF Cons] le scan
      by (simp add: upb_inttable_next_def Let_def sub split arr next_result_def slot_item_def)
  qed
next
  case False
  let ?n = "unat (array_size t)" and ?asz = "ucast (array_size t) :: u64"
  have gt: "\<not> iter + 1 \<le> ?asz" using False p unat_array_size [of t] by (simp add: word_le_nat_alt)
  have "unat (iter - ?asz + 1) = unat (iter + 1 - ?asz)" by (simp add: algebra_simps)
  also have "\<dots> = p - ?n"
    using gt by (subst unat_sub) (auto simp: p(1) unat_array_size)
  finally have "table_next (it_t t) (iter - ?asz) = next_loop (it_t t) (p - ?n)" by (simp add: table_next_def)
  then show ?thesis
    using next_table_part [OF ok, of "p - ?n"] gt False p(2)
    by (simp add: upb_inttable_next_def Let_def slots_def cong: if_cong split del: if_split)
qed

lemma inttable_foreach_from:
  assumes ok: "inttable_ok t"
  shows "unat (iter + 1) = p \<Longrightarrow> p \<le> slots t \<Longrightarrow> slots t - p < n \<Longrightarrow>
    inttable_foreach n t f iter b =
      fold_cres (\<lambda>(k, v). f k v) (map (slot_item t) (filter (slot_used t) [p..<slots t])) b"
proof (induction n arbitrary: iter b p)
  case (Suc n)
  note nx = next_eq [OF ok Suc.prems(1,2)]
  show ?case
  proof (cases "filter (slot_used t) [p..<slots t]")
    case Nil
    then show ?thesis using nx by (simp add: next_result_def)
  next
    case (Cons s ss)
    note s = filter_upt_Cons [OF Cons]
    have "s < 2 ^ 34" using s(2) slots_bound [of t] by linarith
    then have "unat (of_nat s + 1 :: u64) = Suc s" by (simp add: unat_word_ariths unat_of_nat)
    then have "inttable_foreach n t f (of_nat s) = fold_cres (\<lambda>(k, v). f k v) (map (slot_item t) ss)"
      using Suc.IH [of "of_nat s" "Suc s"] s Suc.prems by (intro ext) simp
    then show ?thesis
      using nx by (cases "slot_item t s") (simp add: next_result_def Cons)
  qed
qed simp

lemma inttable_foreach_eq:
  assumes "inttable_ok t"
  shows "inttable_foreach (inttable_fuel t) t f (- 1) b = fold_cres (\<lambda>(k, v). f k v) (inttable_items t) b"
  using inttable_foreach_from [OF assms, of "- 1" 0 "inttable_fuel t"]
  by (simp add: inttable_items_def inttable_fuel_def slots_def)

section \<open>The items and the map\<close>

lemma unat_of_slot: "s < unat (array_size t) \<Longrightarrow> unat (of_nat s :: u64) = s"
  using less_trans [OF unat_less_numeral_power(3) [of "array_size t"], of "2 ^ 64"]
  by (simp add: unat_of_nat)

lemma items_split:
  assumes "inttable_ok t"
  shows "inttable_items t = map (\<lambda>i. (of_nat i, it_array t ! i)) (filter (present t) [0..<unat (array_size t)]) @
    map (\<lambda>e. (case ent_key e of KeyNum n \<Rightarrow> n | KeyStr _ \<Rightarrow> 0, ent_val e)) (used_entries (it_t t))"
proof -
  let ?n = "unat (array_size t)"
  have split: "[0..<slots t] = [0..<?n] @ [?n..<slots t]"
    unfolding slots_def by (rule upt_add_eq_append) simp
  have arr: "filter (slot_used t) [0..<?n] = filter (present t) [0..<?n]"
    by (rule filter_cong) (auto simp: slot_used_def)
  have tab: "filter (slot_used t) [?n..<slots t] =
      map (\<lambda>i. i + ?n) (filter (used (entries (it_t t))) [0..<upb_table_size (it_t t)])"
    using filter_slots_table [of 0 t] by simp
  have len: "length (entries (it_t t)) = upb_table_size (it_t t)"
    using assms by (simp add: inttable_ok_def table_ok_def)
  have "map (slot_item t) (filter (present t) [0..<?n]) =
      map (\<lambda>i. (of_nat i, it_array t ! i)) (filter (present t) [0..<?n])"
    by (rule map_cong) (auto simp: slot_item_def)
  moreover have "map (slot_item t \<circ> (\<lambda>i. i + ?n)) is =
      map (\<lambda>e. (case ent_key e of KeyNum n \<Rightarrow> n | KeyStr _ \<Rightarrow> 0, ent_val e)) (map ((!) (entries (it_t t))) is)" for "is"
    by (simp add: slot_item_def Let_def)
  ultimately show ?thesis
    unfolding inttable_items_def split filter_append map_append arr tab
    by (simp only: map_map used_entries_nth len)
qed

lemma items_spec:
  assumes ok: "inttable_ok t"
  shows "distinct (map fst (inttable_items t))" "map_of (inttable_items t) = inttable_map t"
    "length (inttable_items t) = unat (array_count t) + unat (tab_count (it_t t))"
proof -
  let ?n = "unat (array_size t)" and ?h = "it_t t" and ?js = "filter (present t) [0..<unat (array_size t)]"
  let ?num = "\<lambda>e. case ent_key e of KeyNum n \<Rightarrow> n | KeyStr _ \<Rightarrow> 0"
  have h: "table_ok int_hash int_keys ?h" and low: "\<And>k. unat k < ?n \<Longrightarrow> table_map ?h (KeyNum k) = None"
    and a: "array_ok t" using ok by (auto simp: inttable_ok_def)
  have keys: "ent_key e = KeyNum (?num e)" if "e \<in> set (used_entries ?h)" for e
    using used_entries_valid [OF h that] by (auto simp: int_keys_def)
  have inj: "inj_on (of_nat :: nat \<Rightarrow> u64) (set ?js)"
  proof (rule inj_onI)
    fix x y assume "x \<in> set ?js" "y \<in> set ?js" and eq: "of_nat x = (of_nat y :: u64)"
    then have "x < ?n" "y < ?n" by auto
    then show "x = y" using unat_of_slot [of x t] unat_of_slot [of y t] eq by metis
  qed
  have dk: "distinct (map ent_key (used_entries ?h))" by (rule distinct_used_keys [OF h])
  have km: "map ent_key (used_entries ?h) = map KeyNum (map ?num (used_entries ?h))"
    using keys by simp
  have dt: "distinct (map ?num (used_entries ?h))" using dk unfolding km by (simp only: distinct_map)
  have tm: "map_of (map (\<lambda>e. (?num e, ent_val e)) (used_entries ?h)) k = table_map ?h (KeyNum k)" for k
  proof -
    have 1: "map (\<lambda>e. (ent_key e, ent_val e)) (used_entries ?h) =
        map (\<lambda>(k, v). (KeyNum k, v)) (map (\<lambda>e. (?num e, ent_val e)) (used_entries ?h))"
      using keys by simp
    have 2: "map_of (map (\<lambda>(k, v). (KeyNum k, v)) xs) (KeyNum k) = map_of xs k" for xs :: "(u64 \<times> u64) list"
      by (induction xs) auto
    show ?thesis unfolding table_map_used 1 2 by (rule refl)
  qed
  have am: "map_of (map (\<lambda>i. (of_nat i, it_array t ! i)) ?js) k =
      (if unat k < ?n \<and> present t (unat k) then Some (it_array t ! unat k) else None)" for k :: u64
  proof (cases "unat k < ?n \<and> present t (unat k)")
    case True
    have "map_of (map (\<lambda>i. (of_nat i, it_array t ! i)) ?js) (of_nat (unat k) :: u64) = Some (it_array t ! unat k)"
      using True inj by (intro map_of_is_SomeI) (auto simp: distinct_map comp_def simp del: of_nat_unat)
    then show ?thesis using True by simp
  next
    case False
    have "k \<notin> fst ` set (map (\<lambda>i. (of_nat i, it_array t ! i)) ?js)"
      using False unat_of_slot [of _ t] by auto
    then have "map_of (map (\<lambda>i. (of_nat i, it_array t ! i)) ?js) k = None"
      by (rule iffD2 [OF map_of_eq_None_iff])
    then show ?thesis by (simp only: False if_False)
  qed
  have disj: "unat k \<ge> ?n" if "k \<in> set (map ?num (used_entries ?h))" for k
  proof (rule ccontr)
    assume "\<not> ?thesis"
    then have "map_of (map (\<lambda>e. (?num e, ent_val e)) (used_entries ?h)) k = None"
      using low [of k] tm [of k] by simp
    then show False using that by (auto simp: map_of_eq_None_iff image_iff)
  qed
  have "distinct (map (of_nat :: nat \<Rightarrow> u64) ?js)" using inj by (simp add: distinct_map)
  moreover have "set (map (of_nat :: nat \<Rightarrow> u64) ?js) \<inter> set (map ?num (used_entries ?h)) = {}"
    using disj unat_of_slot [of _ t] by fastforce
  ultimately show "distinct (map fst (inttable_items t))"
    using dt unfolding items_split [OF ok] by (simp add: comp_def)
  show "map_of (inttable_items t) = inttable_map t"
  proof
    fix k
    show "map_of (inttable_items t) k = inttable_map t k"
      using am [of k] tm [of k] low [of k]
      unfolding items_split [OF ok] map_of_append inttable_map_def
      by (auto simp: map_add_def split: option.splits)
  qed
  have "card {i. i < ?n \<and> present t i} = card (set ?js)" by (rule arg_cong [where f = card]) auto
  also have "\<dots> = length ?js" by (rule distinct_card) simp
  finally show "length (inttable_items t) = unat (array_count t) + unat (tab_count ?h)"
    using a length_used_entries [OF h] unfolding items_split [OF ok] by (simp add: array_ok_def)
qed

end
