(* ===== verification/IntCompact.thy ===== *)
theory IntCompact
  imports IntIter
begin

text \<open>
  \<open>upb_inttable_compact\<close> rebuilds the table around the densest array; the map does not change.
\<close>

section \<open>Refilling a table\<close>

lemma dom_inttable_map:
  assumes "inttable_ok t"
  shows "finite (dom (inttable_map t))"
    "card (dom (inttable_map t)) = unat (array_count t) + unat (tab_count (it_t t))"
proof -
  note xs = items_spec [OF assms]
  have dom: "dom (inttable_map t) = set (map fst (inttable_items t))"
    unfolding xs(2) [symmetric] by (simp add: dom_map_of_conv_image_fst)
  then show "finite (dom (inttable_map t))" by simp
  have "card (set (map fst (inttable_items t))) = length (map fst (inttable_items t))"
    by (rule distinct_card [OF xs(1)])
  then show "card (dom (inttable_map t)) = unat (array_count t) + unat (tab_count (it_t t))"
    unfolding dom using xs(3) by simp
qed

lemma full_size:
  assumes "inttable_ok t" "isfull (it_t t)" "card (dom (inttable_map t)) < 2 ^ 30"
  shows "upb_table_size (it_t t) < 2 ^ 31"
proof -
  have "unat (tab_count (it_t t)) = upb_table_size (it_t t) - upb_table_size (it_t t) div 8"
    using assms(1,2) isfull_iff [of int_hash int_keys "it_t t"] by (simp add: inttable_ok_def)
  then have "upb_table_size (it_t t) - upb_table_size (it_t t) div 8 < 2 ^ 30"
    using dom_inttable_map(2) [OF assms(1)] assms(3) by linarith
  then show ?thesis by simp
qed

lemma refill:
  assumes mem: "\<And>n a. fst (malloc n a)"
  shows "inttable_ok nt \<Longrightarrow> distinct (map fst xs) \<Longrightarrow> (\<And>k. k \<in> fst ` set xs \<Longrightarrow> inttable_map nt k = None) \<Longrightarrow>
    card (dom (inttable_map nt)) + length xs \<le> 2 ^ 30 \<Longrightarrow>
    \<exists>nt' a'. fold_cres (\<lambda>(key, val) (new_t, a).
        cbind (upb_inttable_insert malloc new_t key val a) (\<lambda>(_, new_t, a). Ok (new_t, a))) xs (nt, a) = Ok (nt', a') \<and>
      inttable_ok nt' \<and> inttable_map nt' = inttable_map nt ++ map_of xs \<and> array_size nt' = array_size nt"
proof (induction xs arbitrary: nt a)
  case (Cons x xs)
  obtain k v where x: "x = (k, v)" by (cases x)
  have absent: "inttable_map nt k = None" using Cons.prems(3) [of k] by (simp add: x)
  have "isfull (it_t nt) \<Longrightarrow> upb_table_size (it_t nt) < 2 ^ 31"
    using full_size [OF Cons.prems(1)] Cons.prems(4) by simp
  then obtain nt1 a1 where nt1: "upb_inttable_insert malloc nt k v a = Ok (True, nt1, a1)" "inttable_ok nt1"
    "inttable_map nt1 = (inttable_map nt)(k \<mapsto> v)" "array_size nt1 = array_size nt"
    using inttable_insert [OF Cons.prems(1) absent, of malloc v a] mem by auto
  have none: "inttable_map nt1 k' = None" if "k' \<in> fst ` set xs" for k'
    using Cons.prems(2) Cons.prems(3) [of k'] that nt1(3) by (auto simp: x)
  have "card (dom (inttable_map nt1)) \<le> Suc (card (dom (inttable_map nt)))"
    unfolding nt1(3) using dom_inttable_map(1) [OF Cons.prems(1)] by (simp add: card_insert_if)
  then have "card (dom (inttable_map nt1)) + length xs \<le> 2 ^ 30" using Cons.prems(4) by simp
  then obtain nt' a' where nt': "fold_cres (\<lambda>(key, val) (new_t, a).
        cbind (upb_inttable_insert malloc new_t key val a) (\<lambda>(_, new_t, a). Ok (new_t, a))) xs (nt1, a1) = Ok (nt', a')"
    "inttable_ok nt'" "inttable_map nt' = inttable_map nt1 ++ map_of xs" "array_size nt' = array_size nt1"
    using Cons.IH [OF nt1(2) _ none, where a = a1] Cons.prems(2) by auto
  have "k \<notin> fst ` set xs" using Cons.prems(2) by (simp add: x)
  then have "map_of xs k = None" by (simp add: map_of_eq_None_iff)
  then have "(inttable_map nt)(k \<mapsto> v) ++ map_of xs = inttable_map nt ++ map_of (x # xs)"
    by (auto simp: x map_add_def fun_eq_iff split: option.splits)
  then have "inttable_map nt' = inttable_map nt ++ map_of (x # xs)" using nt'(3) nt1(3) by simp
  then show ?case
    using nt'(1,2,4) nt1(1,4) by (intro exI [of _ nt'] exI [of _ a']) (simp add: x del: map_of.simps)
qed auto

section \<open>The histogram\<close>

lemma log2ceil_le: "log2ceil v \<le> 16"
  by (simp add: log2ceil_def)

definition in_bucket :: "(u64 \<times> u64) list \<Rightarrow> nat \<Rightarrow> nat" where
  "in_bucket xs i = length (filter (\<lambda>x. log2ceil (fst x) = i) xs)"

lemma hist_fold:
  assumes "length cs = 17" "length ms = 17"
  shows "\<exists>cs' ms'. fold_cres (\<lambda>(key, val) (counts, maxs).
       let bucket = log2ceil key in
       Ok (counts[bucket := counts ! bucket + 1], maxs[bucket := max (maxs ! bucket) key])) xs (cs, ms) =
       (Ok (cs', ms') :: (unit, u32 list \<times> u64 list) cres) \<and>
     length cs' = 17 \<and> length ms' = 17 \<and>
     (\<forall>i < 17. cs' ! i = cs ! i + of_nat (in_bucket xs i) \<and> ms' ! i \<in> insert (ms ! i) (fst ` set xs))"
  using assms
proof (induction xs arbitrary: cs ms)
  case (Cons x xs)
  obtain k v where x: "x = (k, v)" by (cases x)
  let ?b = "log2ceil k"
  have b: "?b < 17" using log2ceil_le [of k] by simp
  obtain cs' ms' where ih: "fold_cres (\<lambda>(key, val) (counts, maxs).
       let bucket = log2ceil key in
       Ok (counts[bucket := counts ! bucket + 1], maxs[bucket := max (maxs ! bucket) key])) xs
       (cs[?b := cs ! ?b + 1], ms[?b := max (ms ! ?b) k]) = (Ok (cs', ms') :: (unit, u32 list \<times> u64 list) cres)" "length cs' = 17" "length ms' = 17"
    "\<forall>i < 17. cs' ! i = cs[?b := cs ! ?b + 1] ! i + of_nat (in_bucket xs i) \<and>
      ms' ! i \<in> insert (ms[?b := max (ms ! ?b) k] ! i) (fst ` set xs)"
    using Cons.IH [of "cs[?b := cs ! ?b + 1]" "ms[?b := max (ms ! ?b) k]"] Cons.prems
    unfolding length_list_update by blast
  have "cs' ! i = cs ! i + of_nat (in_bucket (x # xs) i)" if "i < 17" for i
    using ih(4) that b Cons.prems by (cases "i = ?b") (simp_all add: x in_bucket_def)
  moreover have "ms' ! i \<in> insert (ms ! i) (fst ` set (x # xs))" if "i < 17" for i
    using ih(4) that b Cons.prems by (cases "i = ?b") (auto simp: x max_def split: if_splits)
  ultimately show ?case using ih(1-3) by (intro exI [of _ cs'] exI [of _ ms']) (simp add: x Let_def)
qed (auto simp: in_bucket_def)

lemma sum_buckets: "(\<Sum>i\<le>16. in_bucket xs i) = length xs"
proof (induction xs)
  case (Cons x xs)
  have "(\<Sum>i\<le>16. in_bucket (x # xs) i) = (\<Sum>i\<le>16. in_bucket xs i + (if i = log2ceil (fst x) then 1 else 0))"
    by (rule sum.cong) (auto simp: in_bucket_def)
  also have "\<dots> = length xs + 1"
    using log2ceil_le [of "fst x"] Cons.IH by (simp add: sum.distrib sum.delta)
  finally show ?case by simp
qed (simp add: in_bucket_def)

lemma compact_size_spec:
  "unat arr = (\<Sum>i\<le>k. unat (cs ! i)) \<Longrightarrow> compact_size cs k arr = (lg, arr') \<Longrightarrow>
    lg \<le> k \<and> unat arr' \<le> unat arr"
proof (induction cs k arr arbitrary: lg arr' rule: compact_size.induct)
  case (2 cs k arr)
  show ?case
  proof (cases "cs ! Suc k = 0")
    case True
    then show ?thesis using "2.IH"(1) [of lg arr'] "2.prems" by simp
  next
    case nz: False
    show ?thesis
    proof (cases "10 * unat arr \<ge> 2 ^ Suc k")
      case False
      have "cs ! Suc k \<le> arr" using "2.prems"(1) by (simp add: word_le_nat_alt)
      then have "unat (arr - cs ! Suc k) = unat arr - unat (cs ! Suc k)" by (rule unat_sub)
      moreover have "compact_size cs k (arr - cs ! Suc k) = (lg, arr')"
        using "2.prems"(2) nz False by simp
      ultimately show ?thesis
        using "2.IH"(2) [OF nz False, of lg arr'] "2.prems"(1) by simp
    qed (use "2.prems" nz in auto)
  qed
qed auto

section \<open>Compaction\<close>

lemma sizedinit_total:
  assumes mem: "\<And>n a. fst (malloc n a)" and lt: "lg < 32"
  shows "\<exists>t a'. upb_inttable_sizedinit malloc n lg a = (Some t, a')"
proof -
  have all: "\<exists>a'. malloc n a = (True, a')" for n a using mem [of n a] by (cases "malloc n a") auto
  obtain h a1 where "table_init malloc lg a = (Some h, a1)"
    using all [of "2 ^ lg * 24" a] lt by (auto simp: table_init_def Let_def)
  moreover obtain a2 where "malloc (unat (max 1 n) * 8 + unat (presence_mask_arr_size (max 1 n))) a1 = (True, a2)"
    using all by blast
  ultimately show ?thesis using lt by (simp add: upb_inttable_sizedinit_def Let_def)
qed

lemma compact:
  assumes ok: "inttable_ok t" and mem: "\<And>n a. fst (malloc n a)"
    and keys: "\<And>k. inttable_map t k \<noteq> None \<Longrightarrow> unat k < 2 ^ 32 - 8"
    and count: "card (dom (inttable_map t)) < 2 ^ 30"
  shows "\<exists>t' a'. upb_inttable_compact malloc t a = Ok (True, t', a') \<and> inttable_ok t' \<and>
    inttable_map t' = inttable_map t"
proof -
  let ?xs = "inttable_items t"
  define n where "n = card (dom (inttable_map t))"
  note xs = items_spec [OF ok] and dom = dom_inttable_map [OF ok]
  have len: "length ?xs = n" using xs(3) dom(2) by (simp add: n_def)
  have n: "n < 2 ^ 30" using count by (simp add: n_def)
  obtain cs ms where hist: "compact_hist t = Ok (cs, ms)" "length cs = 17" "length ms = 17"
    "\<forall>i < 17. cs ! i = (0 :: u32) + of_nat (in_bucket ?xs i) \<and> ms ! i \<in> insert 0 (fst ` set ?xs)"
    using hist_fold [of "replicate 17 0" "replicate 17 0" ?xs]
    by (auto simp: compact_hist_def inttable_foreach_eq [OF ok])
  have total: "unat (upb_inttable_count t) = n"
  proof -
    have "unat (ucast (tab_count (it_t t)) :: u64) = unat (tab_count (it_t t))"
      "unat (ucast (array_count t) :: u64) = unat (array_count t)"
      by (simp_all add: unat_ucast_up)
    then show ?thesis
      using n xs(3) len by (simp add: upb_inttable_count_def unat_word_ariths)
  qed
  have total32: "unat (ucast (upb_inttable_count t) :: u32) = n"
    using n by (simp add: unsigned_ucast_eq total take_bit_nat_eq_self)
  have cs: "unat (cs ! i) = in_bucket ?xs i" if "i \<le> 16" for i
  proof -
    have "in_bucket ?xs i \<le> n" unfolding in_bucket_def len [symmetric] by (rule length_filter_le)
    then show ?thesis using hist(4) that n by (simp add: unat_of_nat)
  qed
  obtain lg arr where size: "compact_size cs 16 (ucast (upb_inttable_count t)) = (lg, arr)"
    by (cases "compact_size cs 16 (ucast (upb_inttable_count t))")
  have "unat (ucast (upb_inttable_count t) :: u32) = (\<Sum>i\<le>16. unat (cs ! i))"
    using sum_buckets [of ?xs] cs by (simp add: total32 len)
  from compact_size_spec [OF this size] have lg: "lg \<le> 16" "unat arr \<le> n" by (simp_all add: total32)
  define asize where "asize = ms ! lg + 1"
  have m: "unat (ms ! lg) < 2 ^ 32 - 8"
  proof -
    have "ms ! lg = 0 \<or> inttable_map t (ms ! lg) \<noteq> None"
      using hist(4) lg(1) by (auto simp: xs(2) [symmetric] map_of_eq_None_iff)
    then show ?thesis using keys by auto
  qed
  then have as: "unat asize = unat (ms ! lg) + 1" by (simp add: asize_def unat_word_ariths)
  then have as32: "unat (ucast asize :: u32) = unat (ms ! lg) + 1"
    using m by (simp add: unsigned_ucast_eq take_bit_nat_eq_self)
  then have nz: "(ucast asize :: u32) \<noteq> 0" by auto
  have le: "ucast arr \<le> upb_inttable_count t"
    using lg(2) by (simp add: word_le_nat_alt total unat_ucast_up)
  define hc :: u32 where "hc = ucast (upb_inttable_count t - ucast arr)"
  have "unat (upb_inttable_count t - ucast arr) \<le> n"
    using le by (simp add: unat_sub total)
  then have "unat hc < 2 ^ 30"
    using n unfolding hc_def unsigned_ucast_eq by (simp add: take_bit_nat_eq_self)
  then have hcu: "unat (ucast hc :: u64) < 2 ^ 30"
    by (simp add: unat_ucast_up)
  obtain hs where hs: "(if hc \<noteq> 0 then upb_entries_needed_for (ucast hc) else Ok 0) = Ok hs"
    using entries_needed(1) [OF hcu] by (cases "hc \<noteq> 0") auto
  have lt: "log2ceil hs < 32" using log2ceil_le [of hs] by simp
  obtain nt a1 where nt: "upb_inttable_sizedinit malloc (ucast asize) (log2ceil hs) a = (Some nt, a1)"
    using sizedinit_total [where malloc = malloc, OF mem lt, of "ucast asize" a] by blast
  note init = inttable_sizedinit [OF nt]
  have bounds: "log2ceil hs < 256" "unat (ucast asize :: u32) + 7 < 2 ^ 32" using lt m as32 by simp_all
  have card: "card (dom (inttable_map nt)) + length ?xs \<le> 2 ^ 30"
    using init(2) [OF bounds] n len by simp
  obtain t' a' where t': "fold_cres (\<lambda>(key, val) (new_t, a).
        cbind (upb_inttable_insert malloc new_t key val a) (\<lambda>(_, new_t, a). Ok (new_t, a))) ?xs (nt, a1) = Ok (t', a')"
    "inttable_ok t'" "inttable_map t' = inttable_map nt ++ map_of ?xs" "array_size t' = array_size nt"
    using refill [where malloc = malloc and a = a1, OF mem init(1) [OF bounds] xs(1) _ card] init(2) [OF bounds]
    by auto
  have "(ucast (array_size t') :: u64) = asize"
  proof -
    have "(1::u32) \<le> ucast asize" using nz by (simp add: word_le_nat_alt unat_gt_0 Suc_le_eq)
    then have "array_size t' = ucast asize" using t'(4) init(3) [OF bounds] by (simp add: max_def)
    then have "unat (ucast (array_size t') :: u64) = unat asize"
      using as as32 by (simp add: unat_ucast_up)
    then show ?thesis by (simp add: word_unat_eq_iff)
  qed
  then have "upb_inttable_compact malloc t a = Ok (True, t', a')"
    using hist(1) size le hs nt t'(1)
    by (simp add: upb_inttable_compact_def Let_def inttable_foreach_eq [OF ok]
        flip: hc_def asize_def cong: if_cong split del: if_split)
  moreover have "inttable_map t' = inttable_map t" using t'(3) init(2) [OF bounds] xs(2) by simp
  ultimately show ?thesis using t'(2) by blast
qed

section \<open>The properties\<close>

text \<open>
  C15: lookup in an integer table. In every table that satisfies the invariant, \<open>lookup\<close> ends
  without undefined behaviour and returns exactly the value of the table's map, whether the key
  belongs to the array part or to the hash part.
\<close>

theorem inttable_lookup_correct:
  assumes "inttable_ok t"
  shows "upb_inttable_lookup t key = Ok (inttable_map t key)"
  by (rule inttable_lookup [OF assms])

text \<open>
  C12: insertion of a new integer key, whatever the arena does: no assertion fails, the invariant is
  kept, and either the operation returns true and has added exactly this key, or it returns false
  and the map is as before. It returns true when memory is found and a full hash part can still be
  doubled.
\<close>

theorem inttable_insert_correct:
  assumes "inttable_ok t" "inttable_map t k = None"
  shows "\<exists>b t' a'. upb_inttable_insert malloc t k v a = Ok (b, t', a') \<and> inttable_ok t' \<and>
    inttable_map t' = (if b then (inttable_map t)(k \<mapsto> v) else inttable_map t) \<and>
    array_size t' = array_size t \<and>
    ((\<forall>n a. fst (malloc n a)) \<and> (isfull (it_t t) \<longrightarrow> upb_table_size (it_t t) < 2 ^ 31) \<longrightarrow> b)"
  by (rule inttable_insert [OF assms])

text \<open>
  C14: removal and replacement. \<open>remove\<close> returns the value the map had for the key, or nothing, and
  the new map lacks exactly this key; \<open>replace\<close> returns whether the key was there and changes only
  its value. Both keep the invariant.
\<close>

theorem inttable_remove_replace_correct:
  assumes "inttable_ok t"
  shows "\<exists>t1 t2. upb_inttable_remove t k = Ok (t1, inttable_map t k) \<and> inttable_ok t1 \<and>
    inttable_map t1 = (inttable_map t)(k := None) \<and>
    upb_inttable_replace t k v = Ok (inttable_map t k \<noteq> None, t2) \<and> inttable_ok t2 \<and>
    inttable_map t2 = (if inttable_map t k = None then inttable_map t else (inttable_map t)(k \<mapsto> v))"
  using inttable_remove [OF assms] inttable_replace [OF assms] by blast

text \<open>
  C13: compaction. When memory is found, every key is below \<open>2 ^ 32 - 8\<close> and there are fewer than
  \<open>2 ^ 30\<close> of them, \<open>compact\<close> ends with true, without a failed assertion, and the new table
  satisfies the invariant and stands for the same map.
\<close>

theorem inttable_compact_correct:
  assumes "inttable_ok t" "\<And>n a. fst (malloc n a)"
    and "\<And>k. inttable_map t k \<noteq> None \<Longrightarrow> unat k < 2 ^ 32 - 8"
    and "card (dom (inttable_map t)) < 2 ^ 30"
  shows "\<exists>t' a'. upb_inttable_compact malloc t a = Ok (True, t', a') \<and> inttable_ok t' \<and>
    inttable_map t' = inttable_map t"
  by (rule compact [OF assms])

text \<open>The table with two colliding keys in the hash part and the key 0 in the array part.\<close>

definition insert_all :: "upb_inttable \<Rightarrow> (u64 \<times> u64) list \<Rightarrow> (unit, upb_inttable) cres" where
  "insert_all t xs = fold_cres (\<lambda>(k, v) t.
     cbind (upb_inttable_insert (\<lambda>_ _. (True, ())) t k v ()) (\<lambda>(_, t, _). Ok t)) xs t"

definition fresh_inttable :: "upb_inttable" where
  "fresh_inttable = the (fst (upb_inttable_init (\<lambda>_ _. (True, ())) ()))"

text \<open>
  C16: what \<open>upb_inttable_removeiter\<close> does to a table with the keys 0, 8 and 16, the last two on one
  chain of the hash part. Removing 8, the head of the chain, at the iterator that stands on it
  makes the key 16 disappear as well, although the table still counts two keys; removing 0 at the
  iterator leaves its presence bit, so that lookup still finds the key, with the value
  \<open>UINT64_MAX\<close>.
\<close>

theorem inttable_removeiter_loses_key:
  "\<exists>t t1 t2. insert_all fresh_inttable [(0, 5), (8, 6), (16, 7)] = Ok t \<and> upb_inttable_count t = 3 \<and>
    upb_inttable_lookup t 16 = Ok (Some 7) \<and>
    upb_inttable_next t (- 1) = Ok (Some (0, 5, 0)) \<and> upb_inttable_next t 0 = Ok (Some (8, 6, 1)) \<and>
    upb_inttable_removeiter t 1 = Ok t1 \<and> upb_inttable_count t1 = 2 \<and>
    upb_inttable_lookup t1 16 = Ok None \<and>
    upb_inttable_removeiter t 0 = Ok t2 \<and> upb_inttable_lookup t2 0 = Ok (Some (- 1))"
proof -
  have "(case insert_all fresh_inttable [(0, 5), (8, 6), (16, 7)] of
     Ok t \<Rightarrow> upb_inttable_count t = 3 \<and>
       upb_inttable_lookup t 16 = Ok (Some 7) \<and>
       upb_inttable_next t (- 1) = Ok (Some (0, 5, 0)) \<and> upb_inttable_next t 0 = Ok (Some (8, 6, 1)) \<and>
       (case upb_inttable_removeiter t 1 of Ok t1 \<Rightarrow> upb_inttable_count t1 = 2 \<and>
         upb_inttable_lookup t1 16 = Ok None | _ \<Rightarrow> False) \<and>
       (case upb_inttable_removeiter t 0 of Ok t2 \<Rightarrow> upb_inttable_lookup t2 0 = Ok (Some (- 1)) | _ \<Rightarrow> False)
   | _ \<Rightarrow> False)"
    by code_simp
  then show ?thesis by (auto split: cres.splits)
qed

section \<open>Witnesses\<close>

lemma fresh_ok: "inttable_ok fresh_inttable" "inttable_map fresh_inttable = Map.empty"
  "array_size fresh_inttable = 1" "upb_table_size (it_t fresh_inttable) = 8"
proof -
  have "upb_inttable_sizedinit (\<lambda>_ _. (True, ())) 0 3 () = (Some fresh_inttable, ())"
    unfolding fresh_inttable_def upb_inttable_init_def
    by (cases "upb_inttable_sizedinit (\<lambda>_ _. (True, ())) 0 3 ()")
      (use sizedinit_total [of "\<lambda>_ _. (True, ())" 3 0 "()"] in auto)
  note init = inttable_sizedinit [OF this]
  show "inttable_ok fresh_inttable" "inttable_map fresh_inttable = Map.empty"
    by (rule init; simp)+
  show "array_size fresh_inttable = 1" using init(3) by simp
  show "upb_table_size (it_t fresh_inttable) = 8" using init(5) by simp
qed

theorem inttable_lookup_correct_witness: "upb_inttable_lookup fresh_inttable 5 = Ok None"
  using inttable_lookup_correct [OF fresh_ok(1), of 5] by (simp add: fresh_ok)

theorem inttable_insert_correct_witness:
  "\<exists>t'. upb_inttable_insert (\<lambda>_ _. (True, ())) fresh_inttable 5 6 () = Ok (True, t', ()) \<and>
    inttable_map t' = [5 \<mapsto> 6]"
  using inttable_insert_correct [OF fresh_ok(1), of 5 "\<lambda>_ _. (True, ())" 6 "()"]
  by (auto simp: fresh_ok)

theorem inttable_remove_replace_correct_witness:
  "\<exists>t1 t2. upb_inttable_remove fresh_inttable 5 = Ok (t1, None) \<and> inttable_map t1 = Map.empty \<and>
    upb_inttable_replace fresh_inttable 5 6 = Ok (False, t2) \<and> inttable_map t2 = Map.empty"
  using inttable_remove_replace_correct [OF fresh_ok(1), of 5 6] by (auto simp: fresh_ok)

theorem inttable_compact_correct_witness:
  "\<exists>t t'. upb_inttable_insert (\<lambda>_ _. (True, ())) fresh_inttable 5 6 () = Ok (True, t, ()) \<and>
    upb_inttable_compact (\<lambda>_ _. (True, ())) t () = Ok (True, t', ()) \<and> inttable_map t' = [5 \<mapsto> 6]"
proof -
  obtain t where t: "upb_inttable_insert (\<lambda>_ _. (True, ())) fresh_inttable 5 6 () = Ok (True, t, ())"
    "inttable_ok t" "inttable_map t = [5 \<mapsto> 6]"
    using inttable_insert [OF fresh_ok(1), of 5 "\<lambda>_ _. (True, ())" 6 "()"] by (auto simp: fresh_ok)
  have "unat k < 2 ^ 32 - 8" if "inttable_map t k \<noteq> None" for k
    using that by (cases "k = 5") (simp_all add: t(3))
  then obtain t' where "upb_inttable_compact (\<lambda>_ _. (True, ())) t () = Ok (True, t', ())"
    "inttable_map t' = [5 \<mapsto> 6]"
    using inttable_compact_correct [OF t(2), of "\<lambda>_ _. (True, ())" "()"] t(3) by auto
  then show ?thesis using t(1) by blast
qed

end
