(* ===== verification/Utf8.thy ===== *)
theory Utf8
  imports WireRead
begin

text \<open>
  \<open>utf8_range/utf8_range.c\<close>, the check of the strings of a message, and \<open>upb/lex/unicode.h\<close> and \<open>.c\<close>,
  the writer of UTF-8: a string is valid iff it is a sequence of what the writer writes for Unicode
  scalar values. The vectorised variants, which need SSE 4.1 or NEON, are not modelled; without them
  the code uses the functions here.
\<close>

section \<open>Code points\<close>

definition upb_Unicode_IsHigh :: "u32 \<Rightarrow> bool" where
  "upb_Unicode_IsHigh cp \<longleftrightarrow> cp \<ge> 0xd800 \<and> cp \<le> 0xdbff"

definition upb_Unicode_IsLow :: "u32 \<Rightarrow> bool" where
  "upb_Unicode_IsLow cp \<longleftrightarrow> cp \<ge> 0xdc00 \<and> cp \<le> 0xdfff"

definition upb_Unicode_ToHigh :: "u32 \<Rightarrow> u16" where
  "upb_Unicode_ToHigh cp = ucast (drop_bit 10 cp + 0xd7c0)"

definition upb_Unicode_ToLow :: "u32 \<Rightarrow> u16" where
  "upb_Unicode_ToLow cp = ucast ((cp AND 0x3ff) OR 0xdc00)"

definition upb_Unicode_FromPair :: "u32 \<Rightarrow> u32 \<Rightarrow> u32" where
  "upb_Unicode_FromPair high low = push_bit 10 (high AND 0x3ff) + (low AND 0x3ff) + 0x10000"

text \<open>The bytes written; none on an error.\<close>

definition upb_Unicode_ToUTF8 :: "u32 \<Rightarrow> bytes" where
  "upb_Unicode_ToUTF8 cp =
     (if cp \<le> 0x7f then [ucast cp]
      else if cp \<le> 0x07ff then
        [ucast (drop_bit 6 cp OR 0xc0), ucast ((cp AND 0x3f) OR 0x80)]
      else if cp \<le> 0xffff then
        [ucast (drop_bit 12 cp OR 0xe0), ucast ((drop_bit 6 cp AND 0x3f) OR 0x80), ucast ((cp AND 0x3f) OR 0x80)]
      else if cp \<le> 0x10ffff then
        [ucast (drop_bit 18 cp OR 0xf0), ucast ((drop_bit 12 cp AND 0x3f) OR 0x80),
         ucast ((drop_bit 6 cp AND 0x3f) OR 0x80), ucast ((cp AND 0x3f) OR 0x80)]
      else [])"

section \<open>The check\<close>

definition utf8_range_UnalignedLoad64 :: "bytes \<Rightarrow> u64" where
  "utf8_range_UnalignedLoad64 p = le_word (take 8 p)"

definition utf8_range_AsciiIsAscii :: "u8 \<Rightarrow> bool" where
  "utf8_range_AsciiIsAscii c \<longleftrightarrow> c < 128"

definition utf8_range_IsTrailByteOk :: "u8 \<Rightarrow> bool" where
  "utf8_range_IsTrailByteOk c \<longleftrightarrow> sint c \<le> sint (0xBF :: u8)"

text \<open>One round of the loop of \<open>utf8_range_ValidateUTF8Naive\<close>: the length of the code point that
  \<open>data\<close> starts with, \<open>None\<close> where the function returns.\<close>

definition codepoint_bytes :: "bytes \<Rightarrow> nat option" where
  "codepoint_bytes data =
     (let len = length data; byte1 = data ! 0; byte2 = data ! 1; byte3 = data ! 2; byte4 = data ! 3 in
      if utf8_range_AsciiIsAscii byte1 then Some 1
      else if len \<ge> 2 \<and> byte1 \<ge> 0xC2 \<and> byte1 \<le> 0xDF \<and> utf8_range_IsTrailByteOk byte2 then Some 2
      else if len \<ge> 3 then
        (if \<not> utf8_range_IsTrailByteOk byte2 \<or> \<not> utf8_range_IsTrailByteOk byte3 then None
         else if (byte1 = 0xE0 \<and> byte2 \<ge> 0xA0) \<or> (byte1 \<ge> 0xE1 \<and> byte1 \<le> 0xEC) \<or>
                 (byte1 = 0xED \<and> byte2 \<le> 0x9F) \<or> (byte1 \<ge> 0xEE \<and> byte1 \<le> 0xEF) then Some 3
         else if len \<ge> 4 then
           (if \<not> utf8_range_IsTrailByteOk byte4 then None
            else if (byte1 = 0xF0 \<and> byte2 \<ge> 0x90) \<or> (byte1 \<ge> 0xF1 \<and> byte1 \<le> 0xF3) \<or>
                    (byte1 = 0xF4 \<and> byte2 \<le> 0x8F) then Some 4
            else None)
         else None)
      else None)"

lemma codepoint_bytes_pos: "codepoint_bytes data = Some k \<Longrightarrow> 0 < k"
  by (auto simp: codepoint_bytes_def Let_def split: if_splits)

function naive_loop :: "bool \<Rightarrow> bytes \<Rightarrow> nat \<Rightarrow> nat \<Rightarrow> nat" where
  "naive_loop return_position data cb err_pos =
     (if cb < length data then
        (let err_pos = (if return_position then err_pos + cb else err_pos);
             data = drop cb data
         in case codepoint_bytes data of
              Some k \<Rightarrow> naive_loop return_position data k err_pos
            | None \<Rightarrow> err_pos)
      else if return_position then err_pos + cb else err_pos + 1)"
  by pat_completeness auto
termination
  by (relation "measure (\<lambda>(rp, data, cb, err). length data - cb)") (auto dest: codepoint_bytes_pos)

declare naive_loop.simps [simp del]

definition utf8_range_ValidateUTF8Naive :: "bytes \<Rightarrow> bool \<Rightarrow> nat" where
  "utf8_range_ValidateUTF8Naive data return_position = naive_loop return_position data 0 0"

fun skip_words :: "bytes \<Rightarrow> bytes" where
  "skip_words data =
     (if 8 \<le> length data \<and> utf8_range_UnalignedLoad64 data AND 0x8080808080808080 = 0
      then skip_words (drop 8 data) else data)"

declare skip_words.simps [simp del]

definition utf8_range_SkipAscii :: "bytes \<Rightarrow> bytes" where
  "utf8_range_SkipAscii data = dropWhile utf8_range_AsciiIsAscii (skip_words data)"

definition utf8_range_Validate :: "bytes \<Rightarrow> bool \<Rightarrow> nat" where
  "utf8_range_Validate data return_position =
     (if data = [] then (if return_position then 0 else 1)
      else
        (let rest = utf8_range_SkipAscii data
         in (if return_position then length data - length rest else 0) +
            utf8_range_ValidateUTF8Naive rest return_position))"

definition utf8_range_IsValid :: "bytes \<Rightarrow> bool" where
  "utf8_range_IsValid data \<longleftrightarrow> utf8_range_Validate data False \<noteq> 0"

definition utf8_range_ValidPrefix :: "bytes \<Rightarrow> nat" where
  "utf8_range_ValidPrefix data = utf8_range_Validate data True"

section \<open>Bytes and code points\<close>

definition scalar_value :: "u32 \<Rightarrow> bool" where
  "scalar_value cp \<longleftrightarrow> cp \<le> 0x10ffff \<and> \<not> upb_Unicode_IsHigh cp \<and> \<not> upb_Unicode_IsLow cp"

definition utf8_text :: "bytes \<Rightarrow> bool" where
  "utf8_text data \<longleftrightarrow> (\<exists>cps. (\<forall>cp \<in> set cps. scalar_value cp) \<and> data = concat (map upb_Unicode_ToUTF8 cps))"

lemma sint_u8: "sint (c :: u8) = (if uint c < 128 then uint c else uint c - 256)"
proof -
  have b: "0 \<le> uint c" "uint c < 256" using unsigned_less [of c, where ?'a = int] by simp_all
  have e: "sint c = (uint c + 128) mod 256 - 128"
    using int_word_sint [of "uint c", where 'a = 8] by simp
  show ?thesis
  proof (cases "uint c < 128")
    case True
    then have "(uint c + 128) mod 256 = uint c + 128" using b by (intro mod_pos_pos_trivial) simp_all
    with e True show ?thesis by simp
  next
    case False
    then have "(uint c + 128 - 256) mod 256 = uint c + 128 - 256" using b by (intro mod_pos_pos_trivial) simp_all
    then have "(uint c + 128) mod 256 = uint c + 128 - 256" by (metis minus_mod_self2)
    with e False show ?thesis by simp
  qed
qed

lemma trail_byte: "utf8_range_IsTrailByteOk c \<longleftrightarrow> 128 \<le> unat c \<and> unat c < 192"
proof -
  have "sint (0xBF :: u8) = - 65" by simp
  then have "utf8_range_IsTrailByteOk c \<longleftrightarrow> sint c \<le> - 65" by (simp only: utf8_range_IsTrailByteOk_def)
  also have "\<dots> \<longleftrightarrow> 128 \<le> uint c \<and> uint c < 192"
  proof -
    have "0 \<le> uint c" "uint c < 256" using unsigned_less [of c, where ?'a = int] by simp_all
    then show ?thesis by (cases "uint c < 128"; simp only: sint_u8 if_True if_False; linarith)
  qed
  also have "\<dots> \<longleftrightarrow> 128 \<le> int (unat c) \<and> int (unat c) < 192" by simp
  finally show ?thesis by linarith
qed

text \<open>The bytes of a code point as numbers.\<close>

lemma or_disjoint: "k < 2 ^ n \<Longrightarrow> (m * 2 ^ n :: nat) OR k = m * 2 ^ n + k"
proof -
  assume "k < 2 ^ n"
  then have "push_bit n m AND k = 0"
    by (intro bit_eqI) (auto simp: bit_and_iff bit_push_bit_iff not_bit_less_exp)
  from disjunctive_add_eq_or [OF this] show ?thesis by (simp add: push_bit_eq_mult)
qed

lemma low_bits: "unat ((cp :: u32) AND 0x3f) = unat cp mod 64"
proof -
  have "(0x3f :: u32) = mask 6" by (simp add: mask_eq_exp_minus_1)
  then have "unat (cp AND 0x3f) = unat (take_bit 6 cp)" by (simp only: take_bit_eq_mask)
  then show ?thesis by (simp only: unat_take_bit_mod) simp
qed

lemma unat_trail: "unat (ucast ((x AND 0x3f) OR 0x80 :: u32) :: u8) = 128 + unat x mod 64"
proof -
  have "unat (x AND 0x3f OR 0x80) = (unat x mod 64) OR (1 * 2 ^ 7)"
    by (simp only: unsigned_or_eq low_bits) simp
  also have "\<dots> = 128 + unat x mod 64"
    using or_disjoint [of "unat x mod 64" 7 1] by (simp add: or.commute)
  finally show ?thesis
    by (subst unat_ucast_down) (simp_all, linarith?)
qed


lemma unat_lead:
  assumes "unat x < 2 ^ n" "m * 2 ^ n + 2 ^ n \<le> 256" "unat w = m * 2 ^ n"
  shows "unat (ucast (x OR w :: u32) :: u8) = m * 2 ^ n + unat x"
proof -
  have "unat (x OR w) = (m * 2 ^ n) OR unat x" by (simp only: unsigned_or_eq assms(3) or.commute)
  also have "\<dots> = m * 2 ^ n + unat x" by (rule or_disjoint [OF assms(1)])
  finally show ?thesis using assms(1,2) by (subst unat_ucast_down) simp_all
qed

lemma u8_eq_iff: "(b :: u8) = of_nat n \<longleftrightarrow> unat b = n" if "n < 256"
  using that by (simp add: word_unat_eq_iff unat_of_nat)

text \<open>The writer in the numbers of its bytes.\<close>

definition utf8_numbers :: "nat \<Rightarrow> nat list" where
  "utf8_numbers n =
     (if n < 128 then [n]
      else if n < 2048 then [192 + n div 64, 128 + n mod 64]
      else if n < 65536 then [224 + n div 4096, 128 + n div 64 mod 64, 128 + n mod 64]
      else [240 + n div 262144, 128 + n div 4096 mod 64, 128 + n div 64 mod 64, 128 + n mod 64])"

lemma ToUTF8_numbers:
  assumes "unat cp \<le> 1114111"
  shows "map unat (upb_Unicode_ToUTF8 cp) = utf8_numbers (unat cp)"
proof -
  have l: "unat (ucast cp :: u8) = unat cp" if "unat cp < 128"
    using that by (subst unat_ucast_down) simp_all
  have l2: "unat (ucast (drop_bit 6 cp OR 0xc0) :: u8) = 192 + unat cp div 64" if "unat cp < 2048"
    using that unat_lead [of "drop_bit 6 cp" 5 6 "0xc0"] by (simp add: unat_drop_bit_div less_mult_imp_div_less)
  have l3: "unat (ucast (drop_bit 12 cp OR 0xe0) :: u8) = 224 + unat cp div 4096" if "unat cp < 65536"
    using that unat_lead [of "drop_bit 12 cp" 4 14 "0xe0"] by (simp add: unat_drop_bit_div less_mult_imp_div_less)
  have l4: "unat (ucast (drop_bit 18 cp OR 0xf0) :: u8) = 240 + unat cp div 262144"
    using assms unat_lead [of "drop_bit 18 cp" 3 30 "0xf0"] by (simp add: unat_drop_bit_div less_mult_imp_div_less)
  show ?thesis
    using assms by (simp add: upb_Unicode_ToUTF8_def utf8_numbers_def word_le_nat_alt unat_trail unat_drop_bit_div
        l l2 l3 l4)
qed


definition scalar_number :: "nat \<Rightarrow> bool" where
  "scalar_number n \<longleftrightarrow> n \<le> 1114111 \<and> \<not> (55296 \<le> n \<and> n \<le> 57343)"

lemma scalar_value_iff: "scalar_value cp \<longleftrightarrow> scalar_number (unat cp)"
  by (auto simp: scalar_value_def scalar_number_def upb_Unicode_IsHigh_def upb_Unicode_IsLow_def word_le_nat_alt)

lemma map_unat_eq: "map unat xs = map unat ys \<longleftrightarrow> xs = (ys :: bytes)"
  by (auto simp: inj_map_eq_map inj_def word_unat_eq_iff)

lemma ToUTF8_unique:
  assumes "scalar_number n" "map unat data = utf8_numbers n"
  shows "\<exists>cp. scalar_value cp \<and> data = upb_Unicode_ToUTF8 cp"
proof -
  have u: "unat (of_nat n :: u32) = n" using assms(1) by (simp add: scalar_number_def unat_of_nat)
  then have "map unat data = map unat (upb_Unicode_ToUTF8 (of_nat n))"
    using assms ToUTF8_numbers [of "of_nat n"] by (simp add: scalar_number_def)
  with assms(1) u show ?thesis by (auto simp: map_unat_eq scalar_value_iff intro!: exI [of _ "of_nat n :: u32"])
qed

text \<open>One round of the check, in the numbers of the bytes.\<close>

definition codepoint_numbers :: "nat list \<Rightarrow> nat option" where
  "codepoint_numbers bs =
     (let len = length bs; b1 = bs ! 0; b2 = bs ! 1; b3 = bs ! 2; b4 = bs ! 3;
          trail = (\<lambda>b. 128 \<le> b \<and> b < 192) in
      if b1 < 128 then Some 1
      else if len \<ge> 2 \<and> b1 \<ge> 194 \<and> b1 \<le> 223 \<and> trail b2 then Some 2
      else if len \<ge> 3 then
        (if \<not> trail b2 \<or> \<not> trail b3 then None
         else if (b1 = 224 \<and> b2 \<ge> 160) \<or> (b1 \<ge> 225 \<and> b1 \<le> 236) \<or> (b1 = 237 \<and> b2 \<le> 159) \<or>
                 (b1 \<ge> 238 \<and> b1 \<le> 239) then Some 3
         else if len \<ge> 4 then
           (if \<not> trail b4 then None
            else if (b1 = 240 \<and> b2 \<ge> 144) \<or> (b1 \<ge> 241 \<and> b1 \<le> 243) \<or> (b1 = 244 \<and> b2 \<le> 143) then Some 4
            else None)
         else None)
      else None)"

lemma codepoint_bytes_numbers:
  assumes "data \<noteq> []"
  shows "codepoint_bytes data = codepoint_numbers (map unat data)"
proof -
  note simps = codepoint_bytes_def codepoint_numbers_def utf8_range_AsciiIsAscii_def trail_byte
    word_less_nat_alt word_le_nat_alt word_unat_eq_iff Let_def
  consider a where "data = [a]" | a b where "data = [a, b]" | a b c where "data = [a, b, c]"
    | a b c d r where "data = a # b # c # d # r"
    using assms by (metis list.exhaust)
  then show ?thesis by cases (simp_all add: simps)
qed


lemma codepoint_numbers_2: "2 \<le> q \<Longrightarrow> q < 32 \<Longrightarrow> r < 64 \<Longrightarrow> codepoint_numbers ((192 + q) # (128 + r) # rest) = Some 2"
  by (simp add: codepoint_numbers_def)

lemma codepoint_numbers_3:
  "q < 16 \<Longrightarrow> r < 64 \<Longrightarrow> s < 64 \<Longrightarrow> (q = 0 \<Longrightarrow> 32 \<le> r) \<Longrightarrow> (q = 13 \<Longrightarrow> r < 32) \<Longrightarrow>
    codepoint_numbers ((224 + q) # (128 + r) # (128 + s) # rest) = Some 3"
  by (cases "q = 0"; cases "q = 13"; cases "q < 13") (simp_all add: codepoint_numbers_def)

lemma codepoint_numbers_4:
  "q \<le> 4 \<Longrightarrow> r < 64 \<Longrightarrow> s < 64 \<Longrightarrow> t < 64 \<Longrightarrow> (q = 0 \<Longrightarrow> 16 \<le> r) \<Longrightarrow> (q = 4 \<Longrightarrow> r < 16) \<Longrightarrow>
    codepoint_numbers ((240 + q) # (128 + r) # (128 + s) # (128 + t) # rest) = Some 4"
  by (cases "q = 0"; cases "q = 4") (simp_all add: codepoint_numbers_def)

lemma div_64: "(n :: nat) = n div 64 * 64 + n mod 64" "n mod 64 < 64"
  "n div 64 = n div 4096 * 64 + n div 64 mod 64" "n div 64 mod 64 < 64"
  "n div 4096 = n div 262144 * 64 + n div 4096 mod 64" "n div 4096 mod 64 < 64"
proof -
  have "n div 4096 = n div 64 div 64" "n div 262144 = n div 4096 div 64" by (simp_all flip: div_mult2_eq)
  then show "n div 64 = n div 4096 * 64 + n div 64 mod 64" "n div 4096 = n div 262144 * 64 + n div 4096 mod 64"
    by simp_all
qed simp_all

lemma codepoint_numbers_written:
  assumes "scalar_number n"
  shows "codepoint_numbers (utf8_numbers n @ rest) = Some (length (utf8_numbers n))"
proof -
  note d = div_64 [of n]
  have s: "n < 55296 \<or> 57343 < n" "n \<le> 1114111" using assms by (auto simp: scalar_number_def)
  consider "n < 128" | "128 \<le> n" "n < 2048" | "2048 \<le> n" "n < 65536" | "65536 \<le> n" by linarith
  then show ?thesis
  proof cases
    case 1
    then show ?thesis by (simp add: utf8_numbers_def codepoint_numbers_def)
  next
    case 2
    have "codepoint_numbers ((192 + n div 64) # (128 + n mod 64) # rest) = Some 2"
      by (rule codepoint_numbers_2) (use d 2 in linarith)+
    then show ?thesis using 2 by (simp add: utf8_numbers_def)
  next
    case 3
    have "codepoint_numbers ((224 + n div 4096) # (128 + n div 64 mod 64) # (128 + n mod 64) # rest) = Some 3"
      by (rule codepoint_numbers_3) (use d 3 s in \<open>(elim disjE; linarith)+\<close>)
    then show ?thesis using 3 by (simp add: utf8_numbers_def)
  next
    case 4
    have "codepoint_numbers ((240 + n div 262144) # (128 + n div 4096 mod 64) # (128 + n div 64 mod 64) # (128 + n mod 64) # rest) = Some 4"
      by (rule codepoint_numbers_4) (use d 4 s in linarith)+
    then show ?thesis using 4 by (simp add: utf8_numbers_def)
  qed
qed


lemma number_1: "a < 128 \<Longrightarrow> \<exists>n. scalar_number n \<and> [a] = utf8_numbers n"
  by (intro exI [of _ a]) (simp add: scalar_number_def utf8_numbers_def)

lemma number_2:
  assumes "2 \<le> q" "q < 32" "r < 64"
  shows "\<exists>n. scalar_number n \<and> [192 + q, 128 + r] = utf8_numbers n"
  using assms by (intro exI [of _ "q * 64 + r"]) (simp add: scalar_number_def utf8_numbers_def)

lemma mul_64: "s < 64 \<Longrightarrow> (x * 64 + s) div 64 = (x :: nat)" "s < 64 \<Longrightarrow> (x * 64 + s) mod 64 = (s :: nat)"
  by simp_all

lemma number_3:
  assumes "q < 16" "r < 64" "s < 64" "q = 0 \<Longrightarrow> 32 \<le> r" "q = 13 \<Longrightarrow> r < 32"
  shows "\<exists>n. scalar_number n \<and> [224 + q, 128 + r, 128 + s] = utf8_numbers n"
proof -
  let ?n = "(q * 64 + r) * 64 + s"
  have d: "?n div 64 = q * 64 + r" "?n mod 64 = s" "?n div 4096 = q"
  proof -
    show "?n div 64 = q * 64 + r" "?n mod 64 = s" by (rule mul_64 [OF assms(3)])+
    have "?n div 4096 = ?n div 64 div 64" by (simp flip: div_mult2_eq)
    then show "?n div 4096 = q" using assms(2,3) by simp
  qed
  have l: "2048 \<le> ?n" "?n < 65536" using assms(1-4) by (cases "q = 0"; simp)+
  have "\<not> (55296 \<le> ?n \<and> ?n \<le> 57343)"
    using assms(2,3,5) by (cases "q < 13"; cases "q = 13") auto
  then have "scalar_number ?n" using l by (simp add: scalar_number_def)
  moreover have "utf8_numbers ?n = [224 + q, 128 + r, 128 + s]"
    using l assms(2) d by (simp add: utf8_numbers_def)
  ultimately show ?thesis by metis
qed

lemma number_4:
  assumes "q \<le> 4" "r < 64" "s < 64" "t < 64" "q = 0 \<Longrightarrow> 16 \<le> r" "q = 4 \<Longrightarrow> r < 16"
  shows "\<exists>n. scalar_number n \<and> [240 + q, 128 + r, 128 + s, 128 + t] = utf8_numbers n"
proof -
  let ?n = "((q * 64 + r) * 64 + s) * 64 + t"
  have d: "?n div 64 = (q * 64 + r) * 64 + s" "?n mod 64 = t" "?n div 4096 = q * 64 + r" "?n div 262144 = q"
    "((q * 64 + r) * 64 + s) mod 64 = s"
  proof -
    show "((q * 64 + r) * 64 + s) mod 64 = s" by (rule mul_64 [OF assms(3)])
    show 1: "?n div 64 = (q * 64 + r) * 64 + s" "?n mod 64 = t" by (rule mul_64 [OF assms(4)])+
    have "?n div 4096 = ?n div 64 div 64" by (simp flip: div_mult2_eq)
    then show 2: "?n div 4096 = q * 64 + r" using assms(3) 1 by simp
    have "?n div 262144 = ?n div 4096 div 64" by (simp flip: div_mult2_eq)
    then show "?n div 262144 = q" using assms(2) 2 by simp
  qed
  have l: "65536 \<le> ?n" "?n \<le> 1114111" using assms by (cases "q = 0"; cases "q = 4"; simp)+
  then have "scalar_number ?n" by (simp add: scalar_number_def)
  moreover have "utf8_numbers ?n = [240 + q, 128 + r, 128 + s, 128 + t]"
    using l assms(2,3) d by (simp add: utf8_numbers_def)
  ultimately show ?thesis by metis
qed


lemma codepoint_numbers_read:
  assumes "codepoint_numbers bs = Some k" "bs \<noteq> []" "\<forall>b \<in> set bs. b < 256"
  shows "k \<le> length bs \<and> (\<exists>n. scalar_number n \<and> take k bs = utf8_numbers n)"
proof -
  have two: "\<exists>n. scalar_number n \<and> [a, b] = utf8_numbers n" if "194 \<le> a" "a \<le> 223" "128 \<le> b" "b < 192" for a b
    using number_2 [of "a - 192" "b - 128"] that by simp
  have three: "\<exists>n. scalar_number n \<and> [a, b, c] = utf8_numbers n"
    if "128 \<le> b" "b < 192" "128 \<le> c" "c < 192"
      "a = 224 \<and> 160 \<le> b \<or> 225 \<le> a \<and> a \<le> 236 \<or> a = 237 \<and> b \<le> 159 \<or> 238 \<le> a \<and> a \<le> 239" for a b c
    using number_3 [of "a - 224" "b - 128" "c - 128"] that by auto
  have four: "\<exists>n. scalar_number n \<and> [a, b, c, d] = utf8_numbers n"
    if "128 \<le> b" "b < 192" "128 \<le> c" "c < 192" "128 \<le> d" "d < 192"
      "a = 240 \<and> 144 \<le> b \<or> 241 \<le> a \<and> a \<le> 243 \<or> a = 244 \<and> b \<le> 143" for a b c d
    using number_4 [of "a - 240" "b - 128" "c - 128" "d - 128"] that by auto
  consider a where "bs = [a]" | a b where "bs = [a, b]" | a b c where "bs = [a, b, c]"
    | a b c d r where "bs = a # b # c # d # r"
    using assms(2) by (metis list.exhaust)
  then show ?thesis
  proof cases
    case 1
    then show ?thesis using assms(1) number_1 by (auto simp: codepoint_numbers_def Let_def split: if_splits)
  next
    case 2
    then show ?thesis using assms(1) number_1 two by (auto simp: codepoint_numbers_def Let_def split: if_splits)
  next
    case 3
    then show ?thesis using assms(1) number_1 two three
      by (auto simp: codepoint_numbers_def Let_def split: if_splits)
  next
    case 4
    then show ?thesis using assms(1) number_1 two three four
      by (auto simp: codepoint_numbers_def Let_def split: if_splits)
  qed
qed


section \<open>Texts\<close>

lemma codepoint_written:
  assumes "scalar_value cp"
  shows "codepoint_bytes (upb_Unicode_ToUTF8 cp @ rest) = Some (length (upb_Unicode_ToUTF8 cp))"
    "upb_Unicode_ToUTF8 cp \<noteq> []"
proof -
  have s: "scalar_number (unat cp)" using assms by (simp only: scalar_value_iff)
  then have m: "map unat (upb_Unicode_ToUTF8 cp) = utf8_numbers (unat cp)"
    by (intro ToUTF8_numbers) (simp add: scalar_number_def)
  have ne: "utf8_numbers (unat cp) \<noteq> []" by (simp add: utf8_numbers_def)
  then show "upb_Unicode_ToUTF8 cp \<noteq> []" using m by auto
  then have "codepoint_bytes (upb_Unicode_ToUTF8 cp @ rest) =
      codepoint_numbers (utf8_numbers (unat cp) @ map unat rest)"
    by (subst codepoint_bytes_numbers) (simp_all add: m)
  also have "\<dots> = Some (length (utf8_numbers (unat cp)))" by (rule codepoint_numbers_written [OF s])
  finally show "codepoint_bytes (upb_Unicode_ToUTF8 cp @ rest) = Some (length (upb_Unicode_ToUTF8 cp))"
    by (simp flip: m)
qed

lemma codepoint_read:
  assumes "codepoint_bytes data = Some k" "data \<noteq> []"
  obtains cp where "scalar_value cp" "take k data = upb_Unicode_ToUTF8 cp" "k \<le> length data"
proof -
  have c: "codepoint_numbers (map unat data) = Some k" using assms by (simp add: codepoint_bytes_numbers)
  have "k \<le> length (map unat data) \<and> (\<exists>n. scalar_number n \<and> take k (map unat data) = utf8_numbers n)"
    by (rule codepoint_numbers_read [OF c]) (use assms(2) in auto)
  then obtain n where "k \<le> length data" "scalar_number n" "map unat (take k data) = utf8_numbers n"
    by (auto simp: take_map)
  then show thesis using ToUTF8_unique [of n "take k data"] that by blast
qed

lemma utf8_text_Nil [simp]: "utf8_text []"
  by (auto simp: utf8_text_def intro: exI [of _ "[]"])

lemma utf8_text_ToUTF8: "scalar_value cp \<Longrightarrow> utf8_text data \<Longrightarrow> utf8_text (upb_Unicode_ToUTF8 cp @ data)"
proof -
  assume "scalar_value cp" "utf8_text data"
  then obtain cps where "\<forall>c \<in> set cps. scalar_value c" "data = concat (map upb_Unicode_ToUTF8 cps)"
    by (auto simp: utf8_text_def)
  then show ?thesis
    using \<open>scalar_value cp\<close> unfolding utf8_text_def by (intro exI [of _ "cp # cps"]) simp
qed

lemma utf8_text_step:
  assumes "data \<noteq> []"
  shows "utf8_text data \<longleftrightarrow> (\<exists>k. codepoint_bytes data = Some k \<and> k \<le> length data \<and> utf8_text (drop k data))"
proof
  assume "utf8_text data"
  then obtain cps where c: "\<forall>cp \<in> set cps. scalar_value cp" "data = concat (map upb_Unicode_ToUTF8 cps)"
    by (auto simp: utf8_text_def)
  then obtain cp cs where cs: "cps = cp # cs" using assms by (cases cps) auto
  then have d: "data = upb_Unicode_ToUTF8 cp @ concat (map upb_Unicode_ToUTF8 cs)" using c by simp
  have "scalar_value cp" using c cs by simp
  note w = codepoint_written [OF this]
  have "utf8_text (concat (map upb_Unicode_ToUTF8 cs))" using c cs by (auto simp: utf8_text_def)
  then show "\<exists>k. codepoint_bytes data = Some k \<and> k \<le> length data \<and> utf8_text (drop k data)"
    unfolding d by (intro exI [of _ "length (upb_Unicode_ToUTF8 cp)"]) (simp add: w)
next
  assume "\<exists>k. codepoint_bytes data = Some k \<and> k \<le> length data \<and> utf8_text (drop k data)"
  then obtain k where k: "codepoint_bytes data = Some k" "utf8_text (drop k data)" by blast
  from k(1) assms obtain cp where "scalar_value cp" "take k data = upb_Unicode_ToUTF8 cp" by (rule codepoint_read)
  then show "utf8_text data" using utf8_text_ToUTF8 [OF _ k(2)] by (metis append_take_drop_id)
qed

lemma naive_loop_valid:
  "cb \<le> length data \<Longrightarrow> naive_loop False data cb 0 = (if utf8_text (drop cb data) then 1 else 0)"
proof (induction False data cb "0 :: nat" rule: naive_loop.induct)
  case (1 data cb)
  show ?case
  proof (cases "cb < length data")
    case False
    then show ?thesis by (simp add: naive_loop.simps)
  next
    case True
    then have ne: "drop cb data \<noteq> []" by simp
    show ?thesis
    proof (cases "codepoint_bytes (drop cb data)")
      case None
      then show ?thesis using True utf8_text_step [OF ne] by (simp add: naive_loop.simps)
    next
      case (Some k)
      then have "k \<le> length (drop cb data)" using ne by (rule codepoint_read)
      then have "naive_loop False (drop cb data) k 0 = (if utf8_text (drop k (drop cb data)) then 1 else 0)"
        using 1 True Some by simp
      then show ?thesis
        using True Some utf8_text_step [OF ne] \<open>k \<le> length (drop cb data)\<close> by (subst naive_loop.simps) simp
    qed
  qed
qed

text \<open>The length of the longest prefix that is a text.\<close>

definition text_prefix :: "bytes \<Rightarrow> nat \<Rightarrow> bool" where
  "text_prefix data n \<longleftrightarrow> n \<le> length data \<and> utf8_text (take n data) \<and>
     (\<forall>m \<le> length data. utf8_text (take m data) \<longrightarrow> m \<le> n)"

lemma codepoint_take:
  assumes "codepoint_bytes (take m data) = Some k" "take m data \<noteq> []"
  shows "codepoint_bytes data = Some k"
proof -
  from assms obtain cp where cp: "scalar_value cp" "take k (take m data) = upb_Unicode_ToUTF8 cp" "k \<le> length (take m data)"
    by (rule codepoint_read)
  have "data = take k (take m data) @ drop k (take m data) @ drop m data"
    by (metis append.assoc append_take_drop_id)
  then have "codepoint_bytes data = Some (length (upb_Unicode_ToUTF8 cp))"
    using codepoint_written(1) [OF cp(1)] cp(2) by metis
  moreover have "length (upb_Unicode_ToUTF8 cp) = k" using cp(2,3) by (metis length_take min.absorb2)
  ultimately show ?thesis by simp
qed

lemma text_prefix_step:
  assumes "data \<noteq> []"
  shows "codepoint_bytes data = None \<Longrightarrow> text_prefix data 0"
    "codepoint_bytes data = Some k \<Longrightarrow> text_prefix (drop k data) n \<Longrightarrow> text_prefix data (k + n)"
proof -
  have none: "\<not> utf8_text (take m data)" if "codepoint_bytes data = None" "0 < m" for m
  proof
    have ne: "take m data \<noteq> []" using assms that(2) by simp
    assume "utf8_text (take m data)"
    then obtain k where "codepoint_bytes (take m data) = Some k" using utf8_text_step [OF ne] by blast
    then show False using codepoint_take [OF _ ne] that(1) by simp
  qed
  then show "codepoint_bytes data = None \<Longrightarrow> text_prefix data 0"
    by (auto simp: text_prefix_def)
next
  assume k: "codepoint_bytes data = Some k" and n: "text_prefix (drop k data) n"
  from k assms obtain cp where cp: "scalar_value cp" "take k data = upb_Unicode_ToUTF8 cp" "k \<le> length data"
    by (rule codepoint_read)
  have "utf8_text (take (k + n) data)"
    using n utf8_text_ToUTF8 [OF cp(1)] by (simp add: take_add text_prefix_def flip: cp(2))
  moreover have "m \<le> k + n" if m: "m \<le> length data" "utf8_text (take m data)" for m
  proof (cases "m = 0")
    case False
    then have ne: "take m data \<noteq> []" using assms by simp
    then obtain k' where "codepoint_bytes (take m data) = Some k'" "k' \<le> m" "utf8_text (drop k' (take m data))"
      using utf8_text_step [OF ne] m by auto
    moreover from this have "k' = k" using codepoint_take [OF _ ne] k by simp
    ultimately have "utf8_text (take (m - k) (drop k data))" "k \<le> m" by (simp_all add: drop_take)
    then have "m - k \<le> n" using n m(1) by (auto simp: text_prefix_def)
    then show ?thesis by simp
  qed simp
  ultimately show "text_prefix data (k + n)"
    using n cp(3) by (auto simp: text_prefix_def)
qed

lemma naive_loop_prefix:
  "cb \<le> length data \<Longrightarrow> \<exists>n. naive_loop True data cb err = err + cb + n \<and> text_prefix (drop cb data) n"
proof (induction True data cb err rule: naive_loop.induct)
  case (1 data cb err)
  show ?case
  proof (cases "cb < length data")
    case False
    then have "drop cb data = []" by simp
    then show ?thesis using False by (intro exI [of _ 0]) (simp add: naive_loop.simps text_prefix_def)
  next
    case True
    then have ne: "drop cb data \<noteq> []" by simp
    show ?thesis
    proof (cases "codepoint_bytes (drop cb data)")
      case None
      then show ?thesis using True text_prefix_step(1) [OF ne None] by (intro exI [of _ 0]) (simp add: naive_loop.simps)
    next
      case (Some k)
      then have "k \<le> length (drop cb data)" using ne by (rule codepoint_read)
      then have "\<exists>n. naive_loop True (drop cb data) k (err + cb) = err + cb + k + n \<and>
          text_prefix (drop k (drop cb data)) n" using 1 True Some by simp
      then obtain n where "naive_loop True (drop cb data) k (err + cb) = err + cb + k + n"
        "text_prefix (drop k (drop cb data)) n" by blast
      then show ?thesis using True Some text_prefix_step(2) [OF ne Some]
        by (intro exI [of _ "k + n"]) (simp add: naive_loop.simps [of _ data])
    qed
  qed
qed


section \<open>The skipping of ASCII\<close>

lemma bit_le_word:
  "length p \<le> 8 \<Longrightarrow> i < length p \<Longrightarrow> j < 8 \<Longrightarrow> bit (le_word p) (8 * i + j) = bit (p ! i) j"
proof (induction p arbitrary: i)
  case (Cons b p)
  have w: "le_word (b # p) = push_bit 8 (le_word p) OR ucast b" by (simp add: le_word_def)
  show ?case
  proof (cases i)
    case 0
    then show ?thesis unfolding w using Cons.prems(3) by (simp add: bit_or_iff bit_push_bit_iff bit_ucast_iff)
  next
    case (Suc i')
    have "\<not> bit (ucast b :: u64) (8 * i + j)"
      using Suc by (auto simp: bit_ucast_iff dest: bit_imp_le_length)
    moreover have "bit (le_word p) (8 * i' + j) = bit (p ! i') j" using Cons Suc by simp
    moreover have "8 * i + j < 64" using Cons.prems by simp
    moreover have "8 * i + j = 8 + (8 * i' + j)" using Suc by simp
    ultimately show ?thesis unfolding w by (simp add: bit_or_iff bit_push_bit_iff Suc)
  qed
qed simp

lemma ascii_bit: "\<not> bit c 7 \<Longrightarrow> utf8_range_AsciiIsAscii c"
proof -
  assume *: "\<not> bit c 7"
  have m: "(0x80 :: u8) = push_bit 7 1" by (simp add: push_bit_eq_mult)
  have "c AND push_bit 7 1 = 0"
  proof (rule bit_word_eqI)
    fix n assume "n < LENGTH(8)"
    with * show "bit (c AND push_bit 7 1) n = bit 0 n"
      by (cases "n = 7") (auto simp: bit_simps simp del: push_bit_of_1)
  qed
  then have "c AND 0x80 = 0" unfolding m .
  then show ?thesis by (simp only: and_0x80 utf8_range_AsciiIsAscii_def word_less_nat_alt) simp
qed

lemma ascii_word:
  assumes "8 \<le> length data" "utf8_range_UnalignedLoad64 data AND 0x8080808080808080 = 0" "i < 8"
  shows "utf8_range_AsciiIsAscii (data ! i)"
proof (rule ascii_bit)
  have m: "(0x8080808080808080 :: u64) = le_word (replicate 8 0x80)" by code_simp
  have b: "bit (0x80 :: u8) 7" by (simp add: bit_iff_odd_unat)
  have "bit (le_word (replicate 8 0x80)) (8 * i + 7)"
    using bit_le_word [of "replicate 8 0x80" i 7] assms(3) b by simp
  moreover have "\<not> bit (le_word (take 8 data) AND le_word (replicate 8 0x80)) (8 * i + 7)"
    using assms(2) unfolding utf8_range_UnalignedLoad64_def m by simp
  ultimately have "\<not> bit (le_word (take 8 data)) (8 * i + 7)" by (simp add: bit_and_iff)
  then show "\<not> bit (data ! i) 7"
    using bit_le_word [of "take 8 data" i 7] assms(1,3) by simp
qed

lemma skip_words_ascii:
  "\<exists>n. n \<le> length data \<and> skip_words data = drop n data \<and> (\<forall>b \<in> set (take n data). utf8_range_AsciiIsAscii b)"
proof (induction data rule: skip_words.induct)
  case (1 data)
  show ?case
  proof (cases "8 \<le> length data \<and> utf8_range_UnalignedLoad64 data AND 0x8080808080808080 = 0")
    case True
    then obtain n where n: "n \<le> length (drop 8 data)" "skip_words (drop 8 data) = drop n (drop 8 data)"
      "\<forall>b \<in> set (take n (drop 8 data)). utf8_range_AsciiIsAscii b" using 1 by blast
    have "\<forall>b \<in> set (take 8 data). utf8_range_AsciiIsAscii b"
      using True ascii_word by (auto simp: in_set_conv_nth)
    then have "\<forall>b \<in> set (take (8 + n) data). utf8_range_AsciiIsAscii b"
      using n(3) by (simp only: take_add set_append) blast
    then show ?thesis
      using True n(1,2) by (intro exI [of _ "8 + n"]) (auto simp: skip_words.simps [of data] add.commute)
  next
    case False
    then have "skip_words data = data" by (subst skip_words.simps) (simp only: if_False)
    then show ?thesis by (intro exI [of _ 0]) simp
  qed
qed

lemma skip_ascii:
  obtains n where "n \<le> length data" "utf8_range_SkipAscii data = drop n data"
    "\<forall>b \<in> set (take n data). utf8_range_AsciiIsAscii b"
proof -
  obtain n where n: "n \<le> length data" "skip_words data = drop n data"
    "\<forall>b \<in> set (take n data). utf8_range_AsciiIsAscii b" using skip_words_ascii [of data] by blast
  define m where "m = length (takeWhile utf8_range_AsciiIsAscii (drop n data))"
  have "utf8_range_SkipAscii data = drop m (drop n data)"
    unfolding utf8_range_SkipAscii_def n(2) m_def by (rule dropWhile_eq_drop)
  moreover have "take m (drop n data) = takeWhile utf8_range_AsciiIsAscii (drop n data)"
    unfolding m_def by (metis takeWhile_eq_take)
  then have "\<forall>b \<in> set (take (n + m) data). utf8_range_AsciiIsAscii b"
    using n(3) by (auto simp: take_add dest: set_takeWhileD)
  moreover have "n + m \<le> length data"
    using n(1) length_takeWhile_le [of utf8_range_AsciiIsAscii "drop n data"] by (simp add: m_def)
  ultimately show thesis by (intro that [of "n + m"]) (simp_all add: add.commute)
qed


lemma ascii_codepoint: "utf8_range_AsciiIsAscii b \<Longrightarrow> codepoint_bytes (b # data) = Some 1"
  by (simp add: codepoint_bytes_def)

lemma ascii_text:
  "\<forall>b \<in> set bs. utf8_range_AsciiIsAscii b \<Longrightarrow> utf8_text (bs @ data) \<longleftrightarrow> utf8_text data"
  by (induction bs) (simp_all add: utf8_text_step ascii_codepoint)

lemma ascii_prefix:
  "\<forall>b \<in> set bs. utf8_range_AsciiIsAscii b \<Longrightarrow> text_prefix data n \<Longrightarrow> text_prefix (bs @ data) (length bs + n)"
proof (induction bs)
  case (Cons b bs)
  then have "text_prefix (drop 1 (b # bs @ data)) (length bs + n)" by simp
  moreover have "codepoint_bytes (b # bs @ data) = Some 1" using Cons.prems by (simp add: ascii_codepoint)
  ultimately show ?case
    using text_prefix_step(2) [where data = "b # bs @ data" and k = 1 and n = "length bs + n"] by simp
qed simp

lemma IsValid_iff_text: "utf8_range_IsValid data \<longleftrightarrow> utf8_text data"
proof (cases "data = []")
  case False
  obtain n where n: "utf8_range_SkipAscii data = drop n data" "\<forall>b \<in> set (take n data). utf8_range_AsciiIsAscii b"
    by (rule skip_ascii)
  have "utf8_range_IsValid data \<longleftrightarrow> utf8_text (drop n data)"
    using False n(1) naive_loop_valid [of 0 "drop n data"]
    by (simp add: utf8_range_IsValid_def utf8_range_Validate_def utf8_range_ValidateUTF8Naive_def)
  also have "\<dots> \<longleftrightarrow> utf8_text data" using ascii_text [OF n(2), of "drop n data"] by simp
  finally show ?thesis .
qed (simp add: utf8_range_IsValid_def utf8_range_Validate_def)

section \<open>Properties\<close>

text \<open>C10: the check of the strings accepts exactly UTF-8: a string is valid if and only if it is a
  sequence of what the writer \<open>upb_Unicode_ToUTF8\<close> writes for Unicode scalar values, that is for code
  points up to 0x10FFFF that are no surrogates. Overlong forms and truncated sequences are refused.\<close>

theorem utf8_valid_iff:
  "utf8_range_IsValid data \<longleftrightarrow>
    (\<exists>cps. (\<forall>cp \<in> set cps. cp \<le> 0x10ffff \<and> \<not> upb_Unicode_IsHigh cp \<and> \<not> upb_Unicode_IsLow cp) \<and>
      data = concat (map upb_Unicode_ToUTF8 cps))"
  unfolding IsValid_iff_text utf8_text_def scalar_value_def ..

text \<open>C22: the length that \<open>utf8_range_ValidPrefix\<close> returns is that of a valid prefix, and no longer
  prefix is valid.\<close>

theorem utf8_valid_prefix_longest:
  "utf8_range_ValidPrefix data \<le> length data \<and> utf8_range_IsValid (take (utf8_range_ValidPrefix data) data) \<and>
    (\<forall>m \<le> length data. utf8_range_IsValid (take m data) \<longrightarrow> m \<le> utf8_range_ValidPrefix data)"
proof -
  have "text_prefix data (utf8_range_ValidPrefix data)"
  proof (cases "data = []")
    case False
    obtain n where n: "n \<le> length data" "utf8_range_SkipAscii data = drop n data"
      "\<forall>b \<in> set (take n data). utf8_range_AsciiIsAscii b" by (rule skip_ascii)
    obtain m where m: "naive_loop True (drop n data) 0 0 = m" "text_prefix (drop n data) m"
      using naive_loop_prefix [of 0 "drop n data" 0] by auto
    have "text_prefix (take n data @ drop n data) (length (take n data) + m)" by (rule ascii_prefix [OF n(3) m(2)])
    moreover have "utf8_range_ValidPrefix data = length (take n data) + m"
      using False n(1,2) m(1)
      by (simp add: utf8_range_ValidPrefix_def utf8_range_Validate_def utf8_range_ValidateUTF8Naive_def)
    ultimately show ?thesis by simp
  qed (simp add: utf8_range_ValidPrefix_def utf8_range_Validate_def text_prefix_def)
  then show ?thesis by (simp add: text_prefix_def IsValid_iff_text)
qed


section \<open>Instances\<close>

theorem utf8_valid_iff_witness: "utf8_range_IsValid [0x61, 0xC3, 0xA9]"
proof -
  have "[0x61, 0xC3, 0xA9] = concat (map upb_Unicode_ToUTF8 [0x61, 0xE9])" by code_simp
  then have "\<exists>cps. (\<forall>cp \<in> set cps. cp \<le> 0x10ffff \<and> \<not> upb_Unicode_IsHigh cp \<and> \<not> upb_Unicode_IsLow cp) \<and>
      [0x61, 0xC3, 0xA9] = concat (map upb_Unicode_ToUTF8 cps)"
    by (intro exI [of _ "[0x61, 0xE9]"]) (simp add: upb_Unicode_IsHigh_def upb_Unicode_IsLow_def)
  then show ?thesis using utf8_valid_iff [of "[0x61, 0xC3, 0xA9]"] by blast
qed

theorem utf8_valid_prefix_longest_witness:
  "utf8_range_ValidPrefix [0x61, 0xC0, 0x80] \<le> 3 \<and> \<not> utf8_range_IsValid [0x61, 0xC0]"
proof -
  have "utf8_range_ValidPrefix [0x61, 0xC0, 0x80] = 1" by code_simp
  then show ?thesis using utf8_valid_prefix_longest [of "[0x61, 0xC0, 0x80]"]
    by (auto dest: spec [of _ 2] simp: eval_nat_numeral)
qed

end
