(* ===== verification/MsgMapOps.thy ===== *)
theory MsgMapOps
  imports MsgMap IntCompact ArenaProps Utf8
begin

text \<open>
  A map of a message is a finite map from keys to values, whichever table it is kept in and wherever
  the arena puts the strings.
\<close>

section \<open>Bytes and words\<close>

lemma le_bytes_word:
  assumes "length bs \<le> 8"
  shows "take (length bs) (le_bytes 8 (le_word bs)) = bs"
proof (rule nth_equalityI)
  show "length (take (length bs) (le_bytes 8 (le_word bs))) = length bs" using assms by simp
  fix i assume "i < length (take (length bs) (le_bytes 8 (le_word bs)))"
  then have i: "i < length bs" by simp
  have "(ucast (drop_bit (8 * i) (le_word bs)) :: u8) = bs ! i"
  proof (rule bit_word_eqI)
    fix j assume "j < LENGTH(8)"
    then show "bit (ucast (drop_bit (8 * i) (le_word bs)) :: u8) j = bit (bs ! i) j"
      using bit_le_word [OF assms i] i assms by (simp add: bit_simps)
  qed
  then show "take (length bs) (le_bytes 8 (le_word bs)) ! i = bs ! i"
    using i assms by (simp add: le_bytes_def)
qed

lemma le_word_inj: "length k = length k' \<Longrightarrow> length k \<le> 8 \<Longrightarrow> le_word k = le_word k' \<Longrightarrow> k = k'"
  by (metis le_bytes_word)

section \<open>Dictionaries\<close>

text \<open>What a map asks of its table. The last law says that an insertion changes the memory by its
  requests only.\<close>

locale dictionary =
  fixes ok :: "'t \<Rightarrow> bool" and content :: "'t \<Rightarrow> 'k \<Rightarrow> u64 option"
    and look :: "'t \<Rightarrow> 'k \<Rightarrow> (unit, u64 option) cres"
    and rem :: "'t \<Rightarrow> 'k \<Rightarrow> (unit, 't \<times> u64 option) cres"
    and ins :: "'a malloc \<Rightarrow> 't \<Rightarrow> 'k \<Rightarrow> u64 \<Rightarrow> 'a \<Rightarrow> (unit, bool \<times> 't \<times> 'a) cres"
  assumes look: "ok t \<Longrightarrow> look t k = Ok (content t k)"
    and rem: "ok t \<Longrightarrow> \<exists>t'. rem t k = Ok (t', content t k) \<and> ok t' \<and> content t' = (content t)(k := None)"
    and ins: "ok t \<Longrightarrow> content t k = None \<Longrightarrow> \<exists>b t' a'. ins mal t k v a = Ok (b, t', a') \<and> ok t' \<and>
      content t' = (if b then (content t)(k \<mapsto> v) else content t)"
    and ins_frame: "ins mal t k v a = Ok (b, t', a') \<Longrightarrow> P a \<Longrightarrow>
      (\<And>n a. P a \<Longrightarrow> 0 < n \<Longrightarrow> n < 2 ^ 40 \<Longrightarrow> P (snd (mal n a))) \<Longrightarrow> P a'"
begin

lemma replace:
  assumes "ok t" "P a" "\<And>n a. P a \<Longrightarrow> 0 < n \<Longrightarrow> n < 2 ^ 40 \<Longrightarrow> P (snd (mal n a))"
  shows "\<exists>b t' a'. cbind (rem t k) (\<lambda>(t, v). cbind (ins mal t k u a) (\<lambda>(b, t, a). Ok (r b v t a))) =
      Ok (r b (content t k) t' a') \<and> ok t' \<and> P a' \<and>
    content t' = (if b then (content t)(k \<mapsto> u) else (content t)(k := None))"
proof -
  obtain t1 where 1: "rem t k = Ok (t1, content t k)" "ok t1" "content t1 = (content t)(k := None)"
    using rem [OF assms(1)] by blast
  then have "content t1 k = None" by simp
  then obtain b t2 a2 where 2: "ins mal t1 k u a = Ok (b, t2, a2)" "ok t2"
    "content t2 = (if b then (content t1)(k \<mapsto> u) else content t1)"
    using ins [OF 1(2)] by blast
  have "P a2" using ins_frame [OF 2(1), of P] assms(2,3) by blast
  then show ?thesis using 1 2 by (intro exI [of _ b] exI [of _ t2] exI [of _ a2]) simp
qed

end

section \<open>The requests of the tables\<close>

lemma table_init_frame:
  assumes "P a" "\<And>n a. P a \<Longrightarrow> 0 < n \<Longrightarrow> n < 2 ^ 40 \<Longrightarrow> P (snd (mal n a))"
  shows "P (snd (table_init mal lg a))"
proof (cases "lg < 32")
  case True
  then have "(2 :: nat) ^ lg \<le> 2 ^ 31" by (intro power_increasing) simp_all
  then have "2 ^ lg * 24 < (2 :: nat) ^ 40" by simp
  then have "P (snd (mal (2 ^ lg * 24) a))" by (intro assms) simp_all
  then show ?thesis using True by (cases "mal (2 ^ lg * 24) a") (auto simp: table_init_def Let_def)
qed (use assms in \<open>simp add: table_init_def\<close>)

lemma Copy_frame:
  assumes "P a" "\<And>n a. P a \<Longrightarrow> 0 < n \<Longrightarrow> n < 2 ^ 40 \<Longrightarrow> P (snd (mal n a))"
  shows "P (snd (upb_SizePrefixString_Copy mal s a))"
proof (cases "length s > 2 ^ 32 - 1")
  case False
  then have "P (snd (mal (4 + length s + 1) a))" by (intro assms) simp_all
  then show ?thesis using False by (auto simp: upb_SizePrefixString_Copy_def split: prod.split)
qed (use assms in \<open>simp add: upb_SizePrefixString_Copy_def\<close>)

lemma strtable_insert_frame:
  assumes run: "upb_strtable_insert seed mal t k v a = Ok (b, t', a')" and p: "P a"
    and step: "\<And>n a. P a \<Longrightarrow> 0 < n \<Longrightarrow> n < 2 ^ 40 \<Longrightarrow> P (snd (mal n a))"
  shows "P a'"
proof -
  obtain b1 t1 a1 where 1: "(if isfull t then upb_strtable_resize seed mal t (upb_log2_table_size t + 1) a
      else Ok (True, t, a)) = Ok (b1, t1, a1)"
    "(if \<not> b1 then Ok (False, t1, a1)
      else case upb_SizePrefixString_Copy mal k a1 of
          (None, a') \<Rightarrow> Ok (False, t1, a')
        | (Some key, a') \<Rightarrow> cbind (table_insert (strhash seed) streql t1 (KeyStr k) key v (upb_Hash k seed))
            (\<lambda>t'. Ok (True, t', a'))) = Ok (b, t', a')"
    using run unfolding upb_strtable_insert_def cbind_Ok_iff by auto
  have "P a1"
    using 1(1) table_init_frame [of P a mal "upb_log2_table_size t + 1", OF p step] p
    by (auto simp: upb_strtable_resize_def cbind_Ok_iff split: if_splits prod.splits option.splits)
  then show ?thesis
    using 1(2) Copy_frame [of P a1 mal k, OF _ step]
    by (auto simp: cbind_Ok_iff split: if_splits prod.splits option.splits)
qed

lemma inttable_insert_frame:
  assumes run: "upb_inttable_insert mal t k v a = Ok (b, t', a')" and p: "P a"
    and step: "\<And>n a. P a \<Longrightarrow> 0 < n \<Longrightarrow> n < 2 ^ 40 \<Longrightarrow> P (snd (mal n a))"
  shows "P a'"
proof -
  have grow: "P a1" if "inttable_grow mal h a = Ok (r, a1)" for h r a1
    using that table_init_frame [of P a mal "(upb_log2_table_size h + 1) mod 256", OF p step] p
    by (auto simp: inttable_grow_def cbind_Ok_iff cassert_Ok_iff split: if_splits prod.splits option.splits)
  show ?thesis
  proof (cases "k < ucast (array_size t)")
    case True
    then show ?thesis using run p by (auto simp: upb_inttable_insert_def cbind_Ok_iff cassert_Ok_iff)
  next
    case False
    then obtain h a1 where 1: "inttable_grow mal (it_t t) a = Ok (h, a1)"
      "(case h of None \<Rightarrow> Ok (False, t, a1)
        | Some h \<Rightarrow> cbind (table_insert inthash inteql h (KeyNum k) (KeyNum k) v (upb_inthash k))
            (\<lambda>h. Ok (True, t\<lparr>it_t := h\<rparr>, a1))) = Ok (b, t', a')"
      using run by (auto simp: upb_inttable_insert_def cbind_Ok_iff)
    then show ?thesis using grow [OF 1(1)] by (auto simp: cbind_Ok_iff split: option.splits)
  qed
qed

lemma inttable_init_frame:
  assumes p: "P a" and step: "\<And>n a. P a \<Longrightarrow> 0 < n \<Longrightarrow> n < 2 ^ 40 \<Longrightarrow> P (snd (mal n a))"
  shows "P (snd (upb_inttable_init mal a))"
proof -
  obtain h a1 where 1: "table_init mal 3 a = (h, a1)" by fastforce
  have "P a1" using table_init_frame [of P a mal 3, OF p step] 1 by simp
  then have "P (snd (mal (1 * 8 + unat (presence_mask_arr_size 1)) a1))"
    by (rule step) (simp_all add: presence_mask_arr_size_def)
  then show ?thesis
    using 1 \<open>P a1\<close>
    by (auto simp: upb_inttable_init_def upb_inttable_sizedinit_def Let_def split: prod.splits option.splits)
qed

lemma strtable_init_frame:
  assumes run: "upb_strtable_init mal n a = Ok (r, a')" and p: "P a"
    and step: "\<And>n a. P a \<Longrightarrow> 0 < n \<Longrightarrow> n < 2 ^ 40 \<Longrightarrow> P (snd (mal n a))"
  shows "P a'"
proof -
  obtain lg where "table_init mal lg a = (r, a')"
    using run by (auto simp: upb_strtable_init_def cbind_Ok_iff Let_def)
  then show ?thesis using table_init_frame [of P a mal lg, OF p step] by simp
qed

interpretation strd: dictionary "strtable_ok seed" strtable_map "upb_strtable_lookup2 seed"
    "upb_strtable_remove2 seed" "upb_strtable_insert seed" for seed
proof
  fix t k mal v a b t' a' P
  show "strtable_ok seed t \<Longrightarrow> upb_strtable_lookup2 seed t k = Ok (strtable_map t k)" by (rule strtable_lookup)
  show "strtable_ok seed t \<Longrightarrow> \<exists>t'. upb_strtable_remove2 seed t k = Ok (t', strtable_map t k) \<and>
      strtable_ok seed t' \<and> strtable_map t' = (strtable_map t)(k := None)"
    by (rule strtable_remove) blast+
  show "strtable_ok seed t \<Longrightarrow> strtable_map t k = None \<Longrightarrow>
      \<exists>b t' a'. upb_strtable_insert seed mal t k v a = Ok (b, t', a') \<and> strtable_ok seed t' \<and>
        strtable_map t' = (if b then (strtable_map t)(k \<mapsto> v) else strtable_map t)"
    using strtable_insert [of seed t k mal v a] by blast
  show "upb_strtable_insert seed mal t k v a = Ok (b, t', a') \<Longrightarrow> P a \<Longrightarrow>
      (\<And>n a. P a \<Longrightarrow> 0 < n \<Longrightarrow> n < 2 ^ 40 \<Longrightarrow> P (snd (mal n a))) \<Longrightarrow> P a'"
    by (rule strtable_insert_frame)
qed

interpretation intd: dictionary inttable_ok inttable_map upb_inttable_lookup upb_inttable_remove upb_inttable_insert
proof
  fix t k mal v a b t' a' P
  show "inttable_ok t \<Longrightarrow> upb_inttable_lookup t k = Ok (inttable_map t k)" by (rule inttable_lookup)
  show "inttable_ok t \<Longrightarrow> \<exists>t'. upb_inttable_remove t k = Ok (t', inttable_map t k) \<and>
      inttable_ok t' \<and> inttable_map t' = (inttable_map t)(k := None)"
    by (rule inttable_remove)
  show "inttable_ok t \<Longrightarrow> inttable_map t k = None \<Longrightarrow>
      \<exists>b t' a'. upb_inttable_insert mal t k v a = Ok (b, t', a') \<and> inttable_ok t' \<and>
        inttable_map t' = (if b then (inttable_map t)(k \<mapsto> v) else inttable_map t)"
    using inttable_insert [of t k mal v a] by blast
  show "upb_inttable_insert mal t k v a = Ok (b, t', a') \<Longrightarrow> P a \<Longrightarrow>
      (\<And>n a. P a \<Longrightarrow> 0 < n \<Longrightarrow> n < 2 ^ 40 \<Longrightarrow> P (snd (mal n a))) \<Longrightarrow> P a'"
    by (rule inttable_insert_frame)
qed

section \<open>The memory\<close>

text \<open>A heap that has come from another one: the arena has more allocations, and the old ones hold the
  bytes they held.\<close>

definition from_heap :: "('x \<Rightarrow> u64 set) \<Rightarrow> (u64 \<times> nat) list \<Rightarrow> 'x heap \<Rightarrow> 'x heap \<Rightarrow> bool" where
  "from_heap taken A h h' \<longleftrightarrow> (\<exists>B. arena_ok taken h' (B @ A)) \<and>
     (\<forall>x \<in> set A. \<forall>a \<in> range_of (fst x) (snd x). h_mem h' a = h_mem h a)"

lemma keeps_allocs:
  assumes "arena_ok taken h A" "keeps h h'" "x \<in> set A" "a \<in> range_of (fst x) (snd x)"
  shows "h_mem h' a = h_mem h a"
proof -
  have "alloc_ok h x" using assms(1,3) by (simp add: arena_ok_def)
  then have "h_mem h a \<noteq> None" using alloc_mapped assms(4) by blast
  then show ?thesis using assms(2) by (simp add: keeps_def)
qed

lemma request_defined:
  assumes sys: "sys_malloc f taken" and ok: "arena_ok taken h A" and n: "0 < n" "n < 2 ^ 40"
  obtains q h' where "upb_Arena_Malloc f (of_nat n) h = Ok (q, h')" "arena_request f n h = (q \<noteq> 0, h')" "keeps h h'"
    "arena_ok taken h' (if q = 0 then A else (q, unat (UPB_ALIGN_MALLOC (of_nat n))) # A)"
proof -
  have u: "unat (of_nat n :: u64) = n" using n by (intro unat_of_nat64) simp
  then have "of_nat n \<noteq> (0 :: u64)" "unat (of_nat n :: u64) \<le> 2 ^ 64 - 40" using n by (auto simp: unat_eq_0 [symmetric])
  then obtain q h' where "upb_Arena_Malloc f (of_nat n) h = Ok (q, h')" "keeps h h'"
    "arena_ok taken h' (if q = 0 then A else (q, unat (UPB_ALIGN_MALLOC (of_nat n))) # A)"
    using sys_malloc.Malloc_spec [OF sys ok] by blast
  then show thesis by (intro that) (simp_all add: arena_request_def)
qed

lemma request_from_heap:
  assumes sys: "sys_malloc f taken" and p: "from_heap taken A h0 h" and n: "0 < n" "n < 2 ^ 40"
  shows "from_heap taken A h0 (snd (arena_request f n h))"
proof -
  obtain B where ok: "arena_ok taken h (B @ A)" using p by (auto simp: from_heap_def)
  obtain q h' where 1: "arena_request f n h = (q \<noteq> 0, h')" "keeps h h'"
    "arena_ok taken h' (if q = 0 then B @ A else (q, unat (UPB_ALIGN_MALLOC (of_nat n))) # (B @ A))"
    by (rule request_defined [OF sys ok n])
  have "\<exists>B'. arena_ok taken h' (B' @ A)"
    using 1(3) by (cases "q = 0") (auto intro: exI [of _ "(q, unat (UPB_ALIGN_MALLOC (of_nat n))) # B"])
  moreover have "h_mem h' a = h_mem h0 a" if "x \<in> set A" "a \<in> range_of (fst x) (snd x)" for x a
    using keeps_allocs [OF ok 1(2) _ that(2)] that p by (simp add: from_heap_def)
  ultimately show ?thesis by (simp add: 1(1) from_heap_def)
qed

lemma from_heap_refl: "arena_ok taken h A \<Longrightarrow> from_heap taken A h h"
  by (auto simp: from_heap_def intro: exI [of _ "[]"])

text \<open>A request whose bytes are then written.\<close>

lemma Malloc_store:
  assumes sys: "sys_malloc f taken" and ok: "arena_ok taken h A" and bs: "length bs = 16"
  shows "\<exists>p h1. upb_Arena_Malloc f 16 h = Ok (p, h1) \<and>
    (p = 0 \<longrightarrow> from_heap taken A h h1) \<and>
    (p \<noteq> 0 \<longrightarrow> (\<exists>m. store (h_mem h1) p bs = Ok m \<and> arena_ok taken (h1\<lparr>h_mem := m\<rparr>) ((p, 16) # A) \<and>
      from_heap taken A h (h1\<lparr>h_mem := m\<rparr>)))"
proof -
  have al: "unat (UPB_ALIGN_MALLOC (16 :: u64)) = 16" by (simp add: UPB_ALIGN_MALLOC_def)
  obtain p h1 where 1: "upb_Arena_Malloc f 16 h = Ok (p, h1)" "keeps h h1"
    "arena_ok taken h1 (if p = 0 then A else (p, 16) # A)"
    using sys_malloc.Malloc_spec [OF sys ok, of 16] unfolding al by auto
  show ?thesis
  proof (cases "p = 0")
    case True
    then have "from_heap taken A h h1"
      using 1(3) keeps_allocs [OF ok 1(2)] by (auto simp: from_heap_def intro: exI [of _ "[]"])
    then show ?thesis using 1(1) True by auto
  next
    case False
    have ao: "alloc_ok h1 (p, 16)" using 1(3) False by (simp add: arena_ok_def)
    then obtain m where m: "store (h_mem h1) p bs = Ok m"
      using store_exists [of "h_mem h1" p bs] bs by (auto simp: alloc_ok_def)
    have ok1: "arena_ok taken (h1\<lparr>h_mem := m\<rparr>) ((p, 16) # A)" using 1(3) False store_arena_ok [OF m] by simp
    have "m a = h_mem h a" if x: "x \<in> set A" "a \<in> range_of (fst x) (snd x)" for x a
    proof -
      have "a \<notin> range_of p (length bs)" using 1(3) False x bs by (fastforce simp: arena_ok_def)
      then have "m a = h_mem h1 a" using m bs by (simp add: store_Ok_iff)
      then show ?thesis using keeps_allocs [OF ok 1(2) x] by simp
    qed
    then have "from_heap taken A h (h1\<lparr>h_mem := m\<rparr>)"
      using ok1 by (auto simp: from_heap_def intro: exI [of _ "[(p, 16)]"])
    then show ?thesis using 1(1) False m ok1 by auto
  qed
qed

lemma from_heap_trans:
  assumes "from_heap taken A h h1" "from_heap taken (B @ A) h1 h2"
  shows "from_heap taken A h h2"
  using assms by (force simp: from_heap_def simp flip: append_assoc)

section \<open>The finite map\<close>

text \<open>The bytes of a value that is in the table.\<close>

definition map_value :: "mem \<Rightarrow> nat \<Rightarrow> u64 \<Rightarrow> bytes" where
  "map_value m vs u = (case upb_map_fromvalue m u vs of Ok bs \<Rightarrow> bs | _ \<Rightarrow> [])"

definition contents :: "bytes set \<Rightarrow> (bytes \<Rightarrow> 'k) \<Rightarrow> ('k \<Rightarrow> u64 option) \<Rightarrow> mem \<Rightarrow> nat \<Rightarrow> bytes \<Rightarrow> bytes option" where
  "contents K e c m vs k = (if k \<in> K then map_option (map_value m vs) (c (e k)) else None)"

definition map_contents :: "mem \<Rightarrow> upb_Map \<Rightarrow> bytes \<Rightarrow> bytes option" where
  "map_contents m mp =
     (case map_t mp of
        Strtable t \<Rightarrow> contents UNIV (\<lambda>s. s) (strtable_map t) m (map_val_size mp)
      | Inttable t \<Rightarrow> contents {k. length k = map_key_size mp} le_word (inttable_map t) m (map_val_size mp))"

text \<open>The key of the map that the bytes of a \<open>upb_MessageValue\<close> are.\<close>

definition map_key :: "upb_Map \<Rightarrow> bytes \<Rightarrow> bytes" where
  "map_key mp key = (if map_key_size mp = 0 then key else take (map_key_size mp) key)"

definition val_bytes :: "upb_Map \<Rightarrow> bytes \<Rightarrow> bytes" where
  "val_bytes mp val = (if map_val_size mp = 0 then val else take (map_val_size mp) val)"

text \<open>Strings are kept in allocations of their own.\<close>

definition stored :: "(u64 \<times> nat) list \<Rightarrow> nat \<Rightarrow> u64 set \<Rightarrow> bool" where
  "stored A vs S \<longleftrightarrow> vs \<in> {0, 1, 4, 8} \<and> (vs = 0 \<longrightarrow> (\<forall>u \<in> S. (u, 16) \<in> set A))"

definition map_ok :: "u64 \<Rightarrow> ('x \<Rightarrow> u64 set) \<Rightarrow> (u64 \<times> nat) list \<Rightarrow> 'x heap \<Rightarrow> upb_Map \<Rightarrow> bool" where
  "map_ok seed taken A h mp \<longleftrightarrow> arena_ok taken h A \<and>
     (case map_t mp of
        Strtable t \<Rightarrow> map_key_size mp = 0 \<and> strtable_ok seed t \<and> stored A (map_val_size mp) (ran (strtable_map t))
      | Inttable t \<Rightarrow> map_key_size mp \<in> {1, 4, 8} \<and> inttable_ok t \<and>
          (\<forall>k \<in> dom (inttable_map t). unat k < 2 ^ (8 * map_key_size mp)) \<and>
          stored A (map_val_size mp) (ran (inttable_map t)))"

lemma value_same:
  assumes h: "from_heap taken A h h'" and s: "stored A vs S" "u \<in> S"
  shows "map_value (h_mem h') vs u = map_value (h_mem h) vs u"
proof (cases "vs = 0")
  case True
  have same: "h_mem h' (u + of_nat i) = h_mem h (u + of_nat i)" if "i < 16" for i
  proof -
    have "(u, 16) \<in> set A" using s True by (simp add: stored_def)
    moreover have "u + of_nat i \<in> range_of u 16" using that by (auto simp: range_of_iff)
    ultimately show ?thesis using h by (fastforce simp: from_heap_def)
  qed
  have "map (\<lambda>i. the (h_mem h' (u + of_nat i))) [0..<16] = map (\<lambda>i. the (h_mem h (u + of_nat i))) [0..<16]"
    by (intro map_cong refl) (simp add: same)
  moreover have "all_mapped (h_mem h') u 16 = all_mapped (h_mem h) u 16"
    unfolding all_mapped_iff by (intro all_cong1 imp_cong refl) (simp add: same)
  ultimately have "load (h_mem h') u 16 = load (h_mem h) u 16" by (simp only: load_def)
  then show ?thesis by (simp add: map_value_def upb_map_fromvalue_def UPB_MAPTYPE_STRING_def True)
qed (simp add: map_value_def upb_map_fromvalue_def UPB_MAPTYPE_STRING_def)

lemma stored_mono: "stored A vs S \<Longrightarrow> set A \<subseteq> set B \<Longrightarrow> stored B vs S"
  by (auto simp: stored_def)

lemma contents_update:
  assumes e: "inj_on e K" "k0 \<in> K" and same: "\<And>u. u \<in> ran c \<Longrightarrow> map_value m' vs u = map_value m vs u"
  shows "contents K e (c(e k0 \<mapsto> u)) m' vs = (contents K e c m vs)(k0 \<mapsto> map_value m' vs u)"
    "contents K e (c(e k0 := None)) m' vs = (contents K e c m vs)(k0 := None)"
    "contents K e c m' vs = contents K e c m vs"
proof -
  have k: "e k = e k0 \<longleftrightarrow> k = k0" if "k \<in> K" for k using e that by (auto simp: inj_on_def)
  have mo: "map_option (map_value m' vs) (c x) = map_option (map_value m vs) (c x)" for x
    using same by (cases "c x") (auto simp: ran_def)
  show "contents K e (c(e k0 \<mapsto> u)) m' vs = (contents K e c m vs)(k0 \<mapsto> map_value m' vs u)"
    "contents K e (c(e k0 := None)) m' vs = (contents K e c m vs)(k0 := None)"
    "contents K e c m' vs = contents K e c m vs"
    using e(2) k mo by (auto simp: contents_def fun_eq_iff)
qed

lemma tovalue_spec:
  assumes sys: "sys_malloc f taken" and ok: "arena_ok taken h A" and val: "length val = 16"
    and vs: "vs \<in> {0, 1, 4, 8}"
  shows "\<exists>r h1 B. upb_map_tovalue f val vs h = Ok (r, h1) \<and> arena_ok taken h1 (B @ A) \<and> from_heap taken A h h1 \<and>
    (\<forall>u. r = Some u \<longrightarrow> stored (B @ A) vs {u} \<and>
       map_value (h_mem h1) vs u = (if vs = 0 then val else take vs val))"
proof (cases "vs = 0")
  case True
  obtain p h1 where 1: "upb_Arena_Malloc f 16 h = Ok (p, h1)" "p = 0 \<longrightarrow> from_heap taken A h h1"
    "p \<noteq> 0 \<longrightarrow> (\<exists>m. store (h_mem h1) p val = Ok m \<and> arena_ok taken (h1\<lparr>h_mem := m\<rparr>) ((p, 16) # A) \<and>
      from_heap taken A h (h1\<lparr>h_mem := m\<rparr>))"
    using Malloc_store [OF sys ok val] by blast
  show ?thesis
  proof (cases "p = 0")
    case p: True
    have "upb_map_tovalue f val vs h = Ok (None, h1)"
      using True 1(1) p by (simp add: upb_map_tovalue_def UPB_MAPTYPE_STRING_def)
    then show ?thesis using 1(2) p by (auto simp: from_heap_def)
  next
    case False
    then obtain m where m: "store (h_mem h1) p val = Ok m" "arena_ok taken (h1\<lparr>h_mem := m\<rparr>) ((p, 16) # A)"
      "from_heap taken A h (h1\<lparr>h_mem := m\<rparr>)" using 1(3) by blast
    have "upb_map_tovalue f val vs h = Ok (Some p, h1\<lparr>h_mem := m\<rparr>)"
      using True 1(1) False m(1) val by (simp add: upb_map_tovalue_def UPB_MAPTYPE_STRING_def cassert_def)
    moreover have "load m p 16 = Ok val" using load_store_same [OF m(1)] val by simp
    then have "map_value m vs p = val" by (simp add: map_value_def upb_map_fromvalue_def UPB_MAPTYPE_STRING_def True)
    ultimately show ?thesis
      using m(2,3) True
      by (intro exI [of _ "Some p"] exI [of _ "h1\<lparr>h_mem := m\<rparr>"] exI [of _ "[(p, 16)]"]) (simp add: stored_def)
  qed
next
  case False
  then have "upb_map_tovalue f val vs h = Ok (Some (le_word (take vs val)), h)"
    using vs val by (auto simp: upb_map_tovalue_def UPB_MAPTYPE_STRING_def cassert_def)
  moreover have "take vs (le_bytes 8 (le_word (take vs val))) = take vs val"
    using le_bytes_word [of "take vs val"] vs val by auto
  then have "map_value m vs (le_word (take vs val)) = take vs val" for m
    using False vs by (auto simp: map_value_def upb_map_fromvalue_def UPB_MAPTYPE_STRING_def cassert_def)
  ultimately show ?thesis
    using False vs ok from_heap_refl [OF ok]
    by (intro exI [of _ "Some (le_word (take vs val))"] exI [of _ h] exI [of _ "[]"]) (simp add: stored_def)
qed

section \<open>The operations\<close>

lemma map_keys:
  assumes ok: "map_ok seed taken A h mp" and key: "map_key_size mp \<le> length key"
  shows "map_t mp = Strtable t \<Longrightarrow> upb_map_tokey key (map_key_size mp) = Ok (map_key mp key)"
    "map_t mp = Inttable it \<Longrightarrow> upb_map_tointkey key (map_key_size mp) = Ok (le_word (map_key mp key))"
    "map_t mp = Inttable it \<Longrightarrow> length (map_key mp key) = map_key_size mp \<and> map_key_size mp \<le> 8"
    "map_t mp = Inttable it \<Longrightarrow> inj_on le_word {k. length k = map_key_size mp}"
    "map_t mp = Inttable it \<Longrightarrow> unat (le_word (map_key mp key)) < 2 ^ (8 * map_key_size mp)"
proof -
  show "map_t mp = Strtable t \<Longrightarrow> upb_map_tokey key (map_key_size mp) = Ok (map_key mp key)"
    using ok by (auto simp: map_ok_def upb_map_tokey_def map_key_def UPB_MAPTYPE_STRING_def)
  assume t: "map_t mp = Inttable it"
  then have ks: "map_key_size mp \<in> {1, 4, 8}" using ok by (simp add: map_ok_def)
  then have mk: "map_key mp key = take (map_key_size mp) key" by (auto simp: map_key_def)
  show "upb_map_tointkey key (map_key_size mp) = Ok (le_word (map_key mp key))"
    using ks key by (auto simp: upb_map_tointkey_def mk cassert_def)
  show l: "length (map_key mp key) = map_key_size mp \<and> map_key_size mp \<le> 8" using ks key by (auto simp: mk)
  show "inj_on le_word {k. length k = map_key_size mp}" using ks le_word_inj by (intro inj_onI) auto
  have "le_word (map_key mp key) = le_word (take (map_key_size mp) (le_bytes 8 (le_word (map_key mp key))))"
    using le_bytes_word [of "map_key mp key"] l by simp
  also have "take (map_key_size mp) (le_bytes 8 w) = le_bytes (map_key_size mp) w" for w
    using l by (simp add: le_bytes_def take_map)
  finally have "le_word (map_key mp key) = take_bit (8 * map_key_size mp) (le_word (map_key mp key))"
    by (simp add: le_word_le_bytes)
  then show "unat (le_word (map_key mp key)) < 2 ^ (8 * map_key_size mp)"
    by (metis unat_take_bit_mod mod_less_divisor zero_less_numeral zero_less_power)
qed

lemma value_loaded:
  assumes a: "arena_ok taken h A" and s: "stored A vs S" "u \<in> S"
  shows "upb_map_fromvalue (h_mem h) u vs = Ok (map_value (h_mem h) vs u)"
proof (cases "vs = 0")
  case True
  then have "alloc_ok h (u, 16)" using s a by (auto simp: stored_def arena_ok_def)
  then obtain bs where "load (h_mem h) u 16 = Ok bs"
    using load_exists [of "h_mem h" u 16] by (auto simp: alloc_ok_def)
  then show ?thesis by (simp add: map_value_def upb_map_fromvalue_def UPB_MAPTYPE_STRING_def True)
next
  case False
  then show ?thesis
    using s by (auto simp: map_value_def upb_map_fromvalue_def UPB_MAPTYPE_STRING_def stored_def cassert_def)
qed

lemma Map_Get_spec:
  assumes ok: "map_ok seed taken A h mp" and key: "map_key_size mp \<le> length key"
  shows "upb_Map_Get seed (h_mem h) mp key want =
    Ok (map_contents (h_mem h) mp (map_key mp key) \<noteq> None,
        if want then map_contents (h_mem h) mp (map_key mp key) else None)"
proof -
  have a: "arena_ok taken h A" using ok by (simp add: map_ok_def)
  show ?thesis
  proof (cases "map_t mp")
    case (Strtable t)
    then have o: "upb_strtable_lookup2 seed t (map_key mp key) = Ok (strtable_map t (map_key mp key))"
      "stored A (map_val_size mp) (ran (strtable_map t))"
      using ok strd.look by (auto simp: map_ok_def)
    then show ?thesis
      using Strtable map_keys(1) [OF ok key Strtable] o(1) value_loaded [OF a o(2) ranI]
      by (cases "strtable_map t (map_key mp key)")
        (simp_all add: upb_Map_Get_def upb_Map_Get_sized_def map_contents_def contents_def)
  next
    case (Inttable t)
    then have o: "upb_inttable_lookup t (le_word (map_key mp key)) = Ok (inttable_map t (le_word (map_key mp key)))"
      "stored A (map_val_size mp) (ran (inttable_map t))"
      using ok intd.look by (auto simp: map_ok_def)
    then show ?thesis
      using Inttable map_keys(2,3) [OF ok key Inttable] o(1) value_loaded [OF a o(2) ranI]
      by (cases "inttable_map t (le_word (map_key mp key))")
        (simp_all add: upb_Map_Get_def upb_Map_Get_sized_def map_contents_def contents_def)
  qed
qed

lemma Map_Delete_spec:
  assumes ok: "map_ok seed taken A h mp" and key: "map_key_size mp \<le> length key" and nf: "\<not> map_is_frozen mp"
  shows "\<exists>mp' u. upb_Map_Delete_sized seed mp key (map_key_size mp) = Ok (mp', u) \<and> map_ok seed taken A h mp' \<and>
    map_option (map_value (h_mem h) (map_val_size mp)) u = map_contents (h_mem h) mp (map_key mp key) \<and>
    map_contents (h_mem h) mp' = (map_contents (h_mem h) mp)(map_key mp key := None) \<and>
    (\<forall>v. u = Some v \<longrightarrow> stored A (map_val_size mp) {v}) \<and> map_val_size mp' = map_val_size mp"
proof (cases "map_t mp")
  case (Strtable t)
  have o: "strtable_ok seed t" "stored A (map_val_size mp) (ran (strtable_map t))"
    using ok Strtable by (auto simp: map_ok_def)
  obtain t' where t': "upb_strtable_remove2 seed t (map_key mp key) = Ok (t', strtable_map t (map_key mp key))"
    "strtable_ok seed t'" "strtable_map t' = (strtable_map t)(map_key mp key := None)"
    using strd.rem [OF o(1)] by blast
  have "stored A (map_val_size mp) (ran (strtable_map t'))" using o(2) t'(3) by (auto simp: stored_def ran_def)
  moreover have "contents UNIV (\<lambda>s. s) (strtable_map t') (h_mem h) (map_val_size mp) =
      (contents UNIV (\<lambda>s. s) (strtable_map t) (h_mem h) (map_val_size mp))(map_key mp key := None)"
    unfolding t'(3) using contents_update(2) [of "\<lambda>s. s" UNIV "map_key mp key" "strtable_map t" "h_mem h"] by simp
  ultimately show ?thesis
    using map_keys(1) [OF ok key Strtable] Strtable t' nf ok o(2)
    by (intro exI [of _ "mp\<lparr>map_t := Strtable t'\<rparr>"] exI [of _ "strtable_map t (map_key mp key)"])
      (auto simp: upb_Map_Delete_sized_def upb_Map_IsFrozen_def map_ok_def map_contents_def contents_def stored_def ran_def)
next
  case (Inttable t)
  note k = map_keys(2-5) [OF ok key Inttable]
  have o: "inttable_ok t" "stored A (map_val_size mp) (ran (inttable_map t))"
    using ok Inttable by (auto simp: map_ok_def)
  let ?k = "le_word (map_key mp key)"
  obtain t' where t': "upb_inttable_remove t ?k = Ok (t', inttable_map t ?k)"
    "inttable_ok t'" "inttable_map t' = (inttable_map t)(?k := None)"
    using intd.rem [OF o(1)] by blast
  have "stored A (map_val_size mp) (ran (inttable_map t'))" using o(2) t'(3) by (auto simp: stored_def ran_def)
  moreover have "contents {k. length k = map_key_size mp} le_word (inttable_map t') (h_mem h) (map_val_size mp) =
      (contents {k. length k = map_key_size mp} le_word (inttable_map t) (h_mem h) (map_val_size mp))(map_key mp key := None)"
    unfolding t'(3) using k(2) by (intro contents_update(2) [OF k(3)]) simp_all
  ultimately show ?thesis
    using k(1,2) Inttable t' nf ok o(2)
    by (intro exI [of _ "mp\<lparr>map_t := Inttable t'\<rparr>"] exI [of _ "inttable_map t ?k"])
      (auto simp: upb_Map_Delete_sized_def upb_Map_IsFrozen_def map_ok_def map_contents_def contents_def stored_def ran_def)
qed

text \<open>The insertion, up to the memory for the value.\<close>

definition inserted :: "upb_MapInsertStatus \<Rightarrow> (bytes \<Rightarrow> bytes option) \<Rightarrow> bytes \<Rightarrow> bytes \<Rightarrow> (bytes \<Rightarrow> bytes option) \<Rightarrow> bool" where
  "inserted st M k v M' \<longleftrightarrow>
     (case st of
        kUpb_MapInsertStatus_Inserted \<Rightarrow> M k = None \<and> M' = M(k \<mapsto> v)
      | kUpb_MapInsertStatus_Replaced \<Rightarrow> M k \<noteq> None \<and> M' = M(k \<mapsto> v)
      | kUpb_MapInsertStatus_OutOfMemory \<Rightarrow> M' = M \<or> M' = M(k := None))"

lemma table_step:
  assumes e: "inj_on e K" "k \<in> K" and s: "stored A vs (ran c)" "from_heap taken A h h2"
    and c': "c' = (if b then c(e k \<mapsto> u) else c(e k := None))"
    and v: "b \<Longrightarrow> map_value (h_mem h2) vs u = v"
  shows "inserted (if \<not> b then kUpb_MapInsertStatus_OutOfMemory
      else if c (e k) \<noteq> None then kUpb_MapInsertStatus_Replaced else kUpb_MapInsertStatus_Inserted)
    (contents K e c (h_mem h) vs) k v (contents K e c' (h_mem h2) vs)"
proof -
  have same: "map_value (h_mem h2) vs u = map_value (h_mem h) vs u" if "u \<in> ran c" for u
    by (rule value_same [OF s(2,1) that])
  note up = contents_update [OF e same]
  have "contents K e c (h_mem h) vs k = None \<longleftrightarrow> c (e k) = None" using e(2) by (simp add: contents_def)
  then show ?thesis using up v by (cases b) (auto simp: c' inserted_def)
qed

lemma stored_step:
  assumes "stored A vs (ran c)" "stored A vs {u}" "c' = (if b then c(k \<mapsto> u) else c(k := None))"
  shows "stored A vs (ran c')"
  using assms by (auto simp: stored_def ran_def split: if_splits)

abbreviation insert_status :: "bool \<Rightarrow> u64 option \<Rightarrow> upb_MapInsertStatus" where
  "insert_status b v \<equiv> if \<not> b then kUpb_MapInsertStatus_OutOfMemory
     else if v \<noteq> None then kUpb_MapInsertStatus_Replaced else kUpb_MapInsertStatus_Inserted"

text \<open>The word for the value has been made, in the heap \<open>h1\<close>.\<close>

definition value_ready ::
    "('x \<Rightarrow> u64 set) \<Rightarrow> (u64 \<times> nat) list \<Rightarrow> 'x heap \<Rightarrow> nat \<Rightarrow> bytes \<Rightarrow> u64 \<Rightarrow> (u64 \<times> nat) list \<Rightarrow> 'x heap \<Rightarrow> bool" where
  "value_ready taken A h vs v u B h1 \<longleftrightarrow> arena_ok taken h1 (B @ A) \<and> from_heap taken A h h1 \<and>
     stored (B @ A) vs {u} \<and> map_value (h_mem h1) vs u = v"

lemma value_ready_then:
  assumes r: "value_ready taken A h vs v u B h1" and h2: "from_heap taken (B @ A) h1 h2"
  shows "from_heap taken A h h2" "map_value (h_mem h2) vs u = v"
    "\<exists>B'. arena_ok taken h2 ((B' @ B) @ A)"
    "\<And>c c'. stored A vs (ran c) \<Longrightarrow> c' = (if b then c(k \<mapsto> u) else c(k := None)) \<Longrightarrow> stored (B' @ B @ A) vs (ran c')"
proof -
  show "from_heap taken A h h2" using r from_heap_trans [OF _ h2] by (simp add: value_ready_def)
  show "map_value (h_mem h2) vs u = v" using r value_same [OF h2, of vs "{u}" u] by (simp add: value_ready_def)
  show "\<exists>B'. arena_ok taken h2 ((B' @ B) @ A)" using h2 by (simp add: from_heap_def)
  fix c c' assume c: "stored A vs (ran c)" "c' = (if b then c(k \<mapsto> u) else c(k := None))"
  have "stored (B @ A) vs (ran c')"
    by (rule stored_step [OF stored_mono [OF c(1)] _ c(2)]) (use r in \<open>auto simp: value_ready_def\<close>)
  then show "stored (B' @ B @ A) vs (ran c')" by (rule stored_mono) auto
qed

text \<open>The insertion into each kind of table.\<close>

lemma Insert_str:
  assumes sys: "sys_malloc f taken" and ok: "map_ok seed taken A h mp" and t: "map_t mp = Strtable t"
    and r: "value_ready taken A h (map_val_size mp) v u B h1"
  shows "\<exists>b t' h2 B'. cbind (upb_strtable_remove2 seed t k) (\<lambda>(t, v).
      cbind (upb_strtable_insert seed (arena_request f) t k u h1) (\<lambda>(b, t, h).
        Ok (insert_status b v, mp\<lparr>map_t := Strtable t\<rparr>, h))) =
      Ok (insert_status b (strtable_map t k), mp\<lparr>map_t := Strtable t'\<rparr>, h2) \<and>
    map_ok seed taken (B' @ A) h2 (mp\<lparr>map_t := Strtable t'\<rparr>) \<and> from_heap taken A h h2 \<and>
    inserted (insert_status b (strtable_map t k)) (map_contents (h_mem h) mp) k v
      (map_contents (h_mem h2) (mp\<lparr>map_t := Strtable t'\<rparr>))"
proof -
  have o: "strtable_ok seed t" "stored A (map_val_size mp) (ran (strtable_map t))" "map_key_size mp = 0"
    using ok t by (auto simp: map_ok_def)
  have p: "from_heap taken (B @ A) h1 h1" using r by (intro from_heap_refl) (simp add: value_ready_def)
  obtain b t' h2 where 2: "cbind (upb_strtable_remove2 seed t k) (\<lambda>(t, v).
      cbind (upb_strtable_insert seed (arena_request f) t k u h1) (\<lambda>(b, t, h).
        Ok (insert_status b v, mp\<lparr>map_t := Strtable t\<rparr>, h))) =
      Ok (insert_status b (strtable_map t k), mp\<lparr>map_t := Strtable t'\<rparr>, h2)"
    "strtable_ok seed t'" "from_heap taken (B @ A) h1 h2"
    "strtable_map t' = (if b then (strtable_map t)(k \<mapsto> u) else (strtable_map t)(k := None))"
    using strd.replace [where mal = "arena_request f" and P = "from_heap taken (B @ A) h1" and k = k and u = u
        and r = "\<lambda>b v t h. (insert_status b v, mp\<lparr>map_t := Strtable t\<rparr>, h)", OF o(1) p request_from_heap [OF sys]]
    by blast
  note n = value_ready_then [OF r 2(3)]
  obtain B' where B': "arena_ok taken h2 ((B' @ B) @ A)" using n(3) by blast
  have "map_ok seed taken ((B' @ B) @ A) h2 (mp\<lparr>map_t := Strtable t'\<rparr>)"
    using B' 2(2) o(3) n(4) [OF o(2) 2(4)] by (simp add: map_ok_def)
  moreover have "inserted (insert_status b (strtable_map t k)) (map_contents (h_mem h) mp) k v
      (map_contents (h_mem h2) (mp\<lparr>map_t := Strtable t'\<rparr>))"
    using table_step [where e = "\<lambda>s. s" and K = UNIV and k = k, OF _ _ o(2) n(1) 2(4) n(2)] t
    by (simp add: map_contents_def split del: if_split)
  ultimately show ?thesis using 2(1) n(1) by blast
qed

lemma Insert_int:
  assumes sys: "sys_malloc f taken" and ok: "map_ok seed taken A h mp" and t: "map_t mp = Inttable t"
    and r: "value_ready taken A h (map_val_size mp) v u B h1"
    and k: "length k = map_key_size mp" "inj_on le_word {k. length k = map_key_size mp}"
      "unat (le_word k) < 2 ^ (8 * map_key_size mp)"
  shows "\<exists>b t' h2 B'. cbind (upb_inttable_remove t (le_word k)) (\<lambda>(t, v).
      cbind (upb_inttable_insert (arena_request f) t (le_word k) u h1) (\<lambda>(b, t, h).
        Ok (insert_status b v, mp\<lparr>map_t := Inttable t\<rparr>, h))) =
      Ok (insert_status b (inttable_map t (le_word k)), mp\<lparr>map_t := Inttable t'\<rparr>, h2) \<and>
    map_ok seed taken (B' @ A) h2 (mp\<lparr>map_t := Inttable t'\<rparr>) \<and> from_heap taken A h h2 \<and>
    inserted (insert_status b (inttable_map t (le_word k))) (map_contents (h_mem h) mp) k v
      (map_contents (h_mem h2) (mp\<lparr>map_t := Inttable t'\<rparr>))"
proof -
  have o: "inttable_ok t" "stored A (map_val_size mp) (ran (inttable_map t))" "map_key_size mp \<in> {1, 4, 8}"
    "\<forall>k \<in> dom (inttable_map t). unat k < 2 ^ (8 * map_key_size mp)"
    using ok t by (auto simp: map_ok_def)
  have p: "from_heap taken (B @ A) h1 h1" using r by (intro from_heap_refl) (simp add: value_ready_def)
  obtain b t' h2 where 2: "cbind (upb_inttable_remove t (le_word k)) (\<lambda>(t, v).
      cbind (upb_inttable_insert (arena_request f) t (le_word k) u h1) (\<lambda>(b, t, h).
        Ok (insert_status b v, mp\<lparr>map_t := Inttable t\<rparr>, h))) =
      Ok (insert_status b (inttable_map t (le_word k)), mp\<lparr>map_t := Inttable t'\<rparr>, h2)"
    "inttable_ok t'" "from_heap taken (B @ A) h1 h2"
    "inttable_map t' = (if b then (inttable_map t)(le_word k \<mapsto> u) else (inttable_map t)(le_word k := None))"
    using intd.replace [where mal = "arena_request f" and P = "from_heap taken (B @ A) h1" and k = "le_word k" and u = u
        and r = "\<lambda>b v t h. (insert_status b v, mp\<lparr>map_t := Inttable t\<rparr>, h)", OF o(1) p request_from_heap [OF sys]]
    by blast
  note n = value_ready_then [OF r 2(3)]
  obtain B' where B': "arena_ok taken h2 ((B' @ B) @ A)" using n(3) by blast
  have "unat x < 2 ^ (8 * map_key_size mp)" if "x \<in> dom (inttable_map t')" for x
    using that k(3) o(4) by (auto simp: 2(4) split: if_splits)
  then have "map_ok seed taken ((B' @ B) @ A) h2 (mp\<lparr>map_t := Inttable t'\<rparr>)"
    using B' 2(2) o(3) n(4) [OF o(2) 2(4)] by (simp add: map_ok_def)
  moreover have "inserted (insert_status b (inttable_map t (le_word k))) (map_contents (h_mem h) mp) k v
      (map_contents (h_mem h2) (mp\<lparr>map_t := Inttable t'\<rparr>))"
    using table_step [OF k(2) _ o(2) n(1) 2(4) n(2)] k(1) t by (simp add: map_contents_def)
  ultimately show ?thesis using 2(1) n(1) by blast
qed

lemma contents_kept:
  assumes "from_heap taken A h h1" "stored A vs (ran c)"
  shows "contents K e c (h_mem h1) vs = contents K e c (h_mem h) vs"
proof
  fix k show "contents K e c (h_mem h1) vs k = contents K e c (h_mem h) vs k"
    using value_same [OF assms ranI] by (cases "c (e k)") (simp_all add: contents_def)
qed

lemma map_kept:
  assumes ok: "map_ok seed taken A h mp" and h1: "arena_ok taken h1 (B @ A)" "from_heap taken A h h1"
  shows "map_ok seed taken (B @ A) h1 mp" "map_contents (h_mem h1) mp = map_contents (h_mem h) mp"
proof -
  have sub: "set A \<subseteq> set (B @ A)" by simp
  show "map_ok seed taken (B @ A) h1 mp"
    using ok h1(1) stored_mono [OF _ sub] by (auto simp: map_ok_def split: upb_Map_Table.splits)
  show "map_contents (h_mem h1) mp = map_contents (h_mem h) mp"
    using ok by (auto simp: map_ok_def map_contents_def contents_kept [OF h1(2)] split: upb_Map_Table.splits)
qed

lemma Map_Insert_spec:
  assumes sys: "sys_malloc f taken" and ok: "map_ok seed taken A h mp" and key: "map_key_size mp \<le> length key"
    and nf: "\<not> map_is_frozen mp" and val: "length val = 16"
  shows "\<exists>st mp' h' B. upb_Map_Insert seed f mp key val h = Ok (st, mp', h') \<and>
    map_ok seed taken (B @ A) h' mp' \<and> from_heap taken A h h' \<and>
    inserted st (map_contents (h_mem h) mp) (map_key mp key) (val_bytes mp val) (map_contents (h_mem h') mp')"
proof -
  have a: "arena_ok taken h A" and vs: "map_val_size mp \<in> {0, 1, 4, 8}"
    using ok by (auto simp: map_ok_def stored_def split: upb_Map_Table.splits)
  obtain r h1 B where 1: "upb_map_tovalue f val (map_val_size mp) h = Ok (r, h1)" "arena_ok taken h1 (B @ A)"
    "from_heap taken A h h1"
    "\<forall>u. r = Some u \<longrightarrow> stored (B @ A) (map_val_size mp) {u} \<and>
       map_value (h_mem h1) (map_val_size mp) u = val_bytes mp val"
    using tovalue_spec [OF sys a val vs] unfolding val_bytes_def by blast
  note defs = upb_Map_Insert_def upb_Map_Insert_sized_def upb_Map_IsFrozen_def Let_def
  show ?thesis
  proof (cases r)
    case None
    have "upb_Map_Insert seed f mp key val h = Ok (kUpb_MapInsertStatus_OutOfMemory, mp, h1)"
      using 1(1) None nf by (simp add: defs)
    then show ?thesis using map_kept [OF ok 1(2,3)] 1(3) by (auto simp: inserted_def)
  next
    case (Some u)
    have rd: "value_ready taken A h (map_val_size mp) (val_bytes mp val) u B h1"
      using 1 Some by (simp add: value_ready_def)
    show ?thesis
    proof (cases "map_t mp")
      case (Strtable t)
      obtain b t' h2 B' where 2: "cbind (upb_strtable_remove2 seed t (map_key mp key)) (\<lambda>(t, v).
          cbind (upb_strtable_insert seed (arena_request f) t (map_key mp key) u h1) (\<lambda>(b, t, h).
            Ok (insert_status b v, mp\<lparr>map_t := Strtable t\<rparr>, h))) =
          Ok (insert_status b (strtable_map t (map_key mp key)), mp\<lparr>map_t := Strtable t'\<rparr>, h2)"
        "map_ok seed taken (B' @ A) h2 (mp\<lparr>map_t := Strtable t'\<rparr>)" "from_heap taken A h h2"
        "inserted (insert_status b (strtable_map t (map_key mp key))) (map_contents (h_mem h) mp) (map_key mp key)
          (val_bytes mp val) (map_contents (h_mem h2) (mp\<lparr>map_t := Strtable t'\<rparr>))"
        using Insert_str [OF sys ok Strtable rd, of "map_key mp key"] by blast
      have "upb_Map_Insert seed f mp key val h =
          Ok (insert_status b (strtable_map t (map_key mp key)), mp\<lparr>map_t := Strtable t'\<rparr>, h2)"
        using 1(1) Some nf Strtable map_keys(1) [OF ok key Strtable] 2(1) by (simp only: defs) simp
      then show ?thesis using 2 by blast
    next
      case (Inttable t)
      note k = map_keys(2-5) [OF ok key Inttable]
      let ?k = "le_word (map_key mp key)"
      obtain b t' h2 B' where 2: "cbind (upb_inttable_remove t ?k) (\<lambda>(t, v).
          cbind (upb_inttable_insert (arena_request f) t ?k u h1) (\<lambda>(b, t, h).
            Ok (insert_status b v, mp\<lparr>map_t := Inttable t\<rparr>, h))) =
          Ok (insert_status b (inttable_map t ?k), mp\<lparr>map_t := Inttable t'\<rparr>, h2)"
        "map_ok seed taken (B' @ A) h2 (mp\<lparr>map_t := Inttable t'\<rparr>)" "from_heap taken A h h2"
        "inserted (insert_status b (inttable_map t ?k)) (map_contents (h_mem h) mp) (map_key mp key)
          (val_bytes mp val) (map_contents (h_mem h2) (mp\<lparr>map_t := Inttable t'\<rparr>))"
        using Insert_int [OF sys ok Inttable rd conjunct1 [OF k(2)] k(3,4)] by blast
      have "upb_Map_Insert seed f mp key val h =
          Ok (insert_status b (inttable_map t ?k), mp\<lparr>map_t := Inttable t'\<rparr>, h2)"
        using 1(1) Some nf Inttable k(1) 2(1) by (simp only: defs) simp
      then show ?thesis using 2 by blast
    qed
  qed
qed

end
