(* ===== verification/MsgMapProps.thy ===== *)
theory MsgMapProps
  imports MsgMapOps
begin

text \<open>
  New maps, the iteration over a map, and the properties of maps.
\<close>

section \<open>New maps\<close>

lemma strtable_init_empty:
  assumes "upb_strtable_init mal 4 a = Ok (Some t, a')"
  shows "strtable_ok seed t" "strtable_map t = Map.empty"
proof -
  obtain lg where lg: "table_init mal lg a = (Some t, a')"
    using assms by (auto simp: upb_strtable_init_def cbind_Ok_iff Let_def)
  note i = init_ok [OF lg]
  show "strtable_ok seed t" "strtable_map t = Map.empty"
    using i by (auto simp: strtable_ok_def strtable_map_def fun_eq_iff)
qed

lemma inttable_init_empty:
  assumes "upb_inttable_init mal a = (Some t, a')"
  shows "inttable_ok t" "inttable_map t = Map.empty"
  using inttable_sizedinit [OF assms [unfolded upb_inttable_init_def]] by simp_all

lemma empty_contents: "contents K e Map.empty m vs = Map.empty"
  by (simp add: contents_def fun_eq_iff)

lemma CTypeSize_cases: "upb_Map_CTypeSize t \<in> {0, 1, 4, 8}"
  by (cases t) (simp_all add: UPB_MAPTYPE_STRING_def)

lemma Malloc_from_heap:
  assumes "sys_malloc f taken" "arena_ok taken h A" "n \<noteq> 0" "unat n \<le> 2 ^ 64 - 40"
  obtains p h1 where "upb_Arena_Malloc f n h = Ok (p, h1)" "from_heap taken A h h1"
proof -
  obtain p h1 where 1: "upb_Arena_Malloc f n h = Ok (p, h1)" "keeps h h1"
    "arena_ok taken h1 (if p = 0 then A else (p, unat (UPB_ALIGN_MALLOC n)) # A)"
    using sys_malloc.Malloc_spec [OF assms] by blast
  have "\<exists>B. arena_ok taken h1 (B @ A)"
    using 1(3) by (cases "p = 0") (auto intro: exI [of _ "[]"] exI [of _ "[(p, unat (UPB_ALIGN_MALLOC n))]"])
  then show thesis using that 1 keeps_allocs [OF assms(2) 1(2)] by (simp add: from_heap_def)
qed

lemma New_map_spec:
  assumes sys: "sys_malloc f taken" and ok: "arena_ok taken h A"
  shows "\<exists>r h'. upb_Map_New f kt vt h = Ok (r, h') \<and> from_heap taken A h h' \<and>
    (\<forall>mp. r = Some mp \<longrightarrow> (\<exists>B. map_ok seed taken (B @ A) h' mp) \<and> \<not> map_is_frozen mp \<and>
      map_key_size mp = upb_Map_CTypeSize kt \<and> map_val_size mp = upb_Map_CTypeSize vt \<and>
      map_contents (h_mem h') mp = Map.empty)"
proof -
  let ?ks = "upb_Map_CTypeSize kt" and ?vs = "upb_Map_CTypeSize vt"
  let ?new = "\<lambda>t. \<lparr>map_key_size = ?ks, map_val_size = ?vs, map_is_frozen = False, map_t = t\<rparr>"
  obtain p h1 where 1: "upb_Arena_Malloc f 48 h = Ok (p, h1)" "from_heap taken A h h1"
    by (rule Malloc_from_heap [OF sys ok, of 48]) simp_all
  note step = request_from_heap [OF sys]
  note defs = upb_Map_New_def upb_Map_New_sized_def Let_def
  have st: "stored B ?vs {}" for B using CTypeSize_cases [of vt] by (simp add: stored_def)
  show ?thesis
  proof (cases "p = 0")
    case True
    then show ?thesis using 1 by (simp add: defs)
  next
    case p: False
    show ?thesis
    proof (cases "?ks = 0")
      case True
      have "upb_entries_needed_for 4 = Ok 5" by code_simp
      then obtain t h2 where 2: "upb_strtable_init (arena_request f) 4 h1 = Ok (t, h2)"
        by (cases "table_init (arena_request f) (upb_Log2Ceiling (sint (ucast (5 :: u64) :: u32))) h1")
          (simp add: upb_strtable_init_def)
      have f2: "from_heap taken A h h2"
        by (rule strtable_init_frame [where P = "from_heap taken A h", OF 2 1(2) step])
      have run: "upb_Map_New f kt vt h = Ok (map_option (\<lambda>t. ?new (Strtable t)) t, h2)"
        using 1(1) p True 2 by (simp add: defs UPB_MAPTYPE_STRING_def)
      have "(\<exists>B. map_ok seed taken (B @ A) h2 (?new (Strtable t'))) \<and>
          map_contents (h_mem h2) (?new (Strtable t')) = Map.empty" if "t = Some t'" for t'
        using strtable_init_empty [OF 2 [unfolded that]] f2 st True
        by (auto simp: map_ok_def map_contents_def empty_contents from_heap_def)
      then show ?thesis using run f2 by auto
    next
      case False
      obtain t h2 where 2: "upb_inttable_init (arena_request f) h1 = (t, h2)" by fastforce
      have f2: "from_heap taken A h h2"
        using inttable_init_frame [where P = "from_heap taken A h" and mal = "arena_request f", OF 1(2) step] 2 by simp
      have ks: "?ks \<in> {1, 4, 8}" using CTypeSize_cases [of kt] False by simp
      then have run: "upb_Map_New f kt vt h = Ok (map_option (\<lambda>t. ?new (Inttable t)) t, h2)"
        using 1(1) p False 2 by (auto simp: defs UPB_MAPTYPE_STRING_def)
      have "(\<exists>B. map_ok seed taken (B @ A) h2 (?new (Inttable t'))) \<and>
          map_contents (h_mem h2) (?new (Inttable t')) = Map.empty" if "t = Some t'" for t'
        using inttable_init_empty [OF 2 [unfolded that]] f2 st ks
        by (auto simp: map_ok_def map_contents_def empty_contents from_heap_def)
      then show ?thesis using run f2 by auto
    qed
  qed
qed

section \<open>Iteration\<close>

text \<open>The loop \<open>while (upb_Map_Next(map, &key, &val, &iter))\<close>, with fuel, collecting what it sees.\<close>

fun map_items :: "nat \<Rightarrow> mem \<Rightarrow> upb_Map \<Rightarrow> u64 \<Rightarrow> (unit, (bytes \<times> bytes) list) cres" where
  "map_items 0 m mp iter = UB"
| "map_items (Suc n) m mp iter =
     cbind (upb_Map_Next m mp iter) (\<lambda>r.
       case r of None \<Rightarrow> Ok []
       | Some (k, v, iter') \<Rightarrow> cbind (map_items n m mp iter') (\<lambda>xs. Ok ((k, v) # xs)))"

lemma map_items_str:
  assumes "map_t mp = Strtable t" "map_key_size mp = 0"
  shows "strtable_items n t iter = Ok xs \<Longrightarrow>
    (\<And>k u. (k, u) \<in> set xs \<Longrightarrow> upb_map_fromvalue m u (map_val_size mp) = Ok (val u)) \<Longrightarrow>
    map_items n m mp iter = Ok (map (\<lambda>(k, u). (k, val u)) xs)"
proof (induction n arbitrary: iter xs)
  case (Suc n)
  obtain r where r: "upb_strtable_next2 t iter = Ok r"
    "(case r of None \<Rightarrow> Ok [] | Some (k, v, iter') \<Rightarrow> cbind (strtable_items n t iter') (\<lambda>xs. Ok ((k, v) # xs))) = Ok xs"
    using Suc.prems(1) by (auto simp: cbind_Ok_iff)
  show ?case
  proof (cases r)
    case None
    then show ?thesis using r assms by (simp add: upb_Map_Next_def)
  next
    case (Some x)
    obtain k u i where x: "x = (k, u, i)" by (cases x)
    obtain ys where ys: "strtable_items n t i = Ok ys" "xs = (k, u) # ys"
      using r(2) Some x by (auto simp: cbind_Ok_iff)
    have "map_items n m mp i = Ok (map (\<lambda>(k, u). (k, val u)) ys)"
    proof (rule Suc.IH [OF ys(1)])
      show "upb_map_fromvalue m u' (map_val_size mp) = Ok (val u')" if "(k', u') \<in> set ys" for k' u'
        using Suc.prems(2) [of k' u'] that ys(2) by simp
    qed
    then show ?thesis
      using r(1) Some x assms Suc.prems(2) [of k u] ys(2)
      by (simp add: upb_Map_Next_def upb_map_fromkey_def UPB_MAPTYPE_STRING_def)
  qed
qed simp

lemma map_items_int:
  assumes t: "map_t mp = Inttable t" "inttable_ok t" "map_key_size mp \<le> 8"
    and v: "\<And>k u. (k, u) \<in> set (inttable_items t) \<Longrightarrow> upb_map_fromvalue m u (map_val_size mp) = Ok (val u)"
  shows "unat (iter + 1) = p \<Longrightarrow> p \<le> slots t \<Longrightarrow> length (filter (slot_used t) [p..<slots t]) < n \<Longrightarrow>
    map_items n m mp iter =
      Ok (map (\<lambda>(k, u). (take (map_key_size mp) (le_bytes 8 k), val u))
        (map (slot_item t) (filter (slot_used t) [p..<slots t])))"
proof (induction n arbitrary: iter p)
  case (Suc n)
  note nx = next_eq [OF t(2) Suc.prems(1,2)]
  show ?case
  proof (cases "filter (slot_used t) [p..<slots t]")
    case Nil
    then show ?thesis using nx t(1) by (simp add: next_result_def upb_Map_Next_def)
  next
    case (Cons s ss)
    note s = filter_upt_Cons [OF Cons]
    have "s < 2 ^ 34" using s(2) slots_bound [of t] by linarith
    then have u: "unat (of_nat s + 1 :: u64) = Suc s" by (simp add: unat_word_ariths unat_of_nat)
    obtain k w where kw: "slot_item t s = (k, w)" by (cases "slot_item t s")
    have "s \<in> set (filter (slot_used t) [0..<slots t])" using s(2,3) by simp
    then have "(k, w) \<in> set (inttable_items t)" 
      unfolding inttable_items_def set_map kw [symmetric] by (rule imageI)
    then have "upb_Map_Next m mp iter = Ok (Some (take (map_key_size mp) (le_bytes 8 k), val w, of_nat s))"
      using nx Cons kw t(1,3) v by (simp add: next_result_def upb_Map_Next_def intkey_bytes_def cassert_def)
    moreover have "map_items n m mp (of_nat s) =
        Ok (map (\<lambda>(k, u). (take (map_key_size mp) (le_bytes 8 k), val u)) (map (slot_item t) ss))"
      using Suc.IH [OF u] s Suc.prems(3) Cons by simp
    ultimately show ?thesis by (simp add: Cons kw)
  qed
qed simp

lemma map_items_all_str:
  assumes ok: "map_ok seed taken A h mp" and Strtable: "map_t mp = Strtable t"
  shows "\<exists>xs. map_items (unat (upb_Map_Size mp) + 1) (h_mem h) mp kUpb_Map_Begin = Ok xs \<and>
    distinct (map fst xs) \<and> map_of xs = map_contents (h_mem h) mp \<and> length xs = unat (upb_Map_Size mp)"
proof -
  let ?vs = "map_val_size mp"
  have o: "arena_ok taken h A" "map_key_size mp = 0" "strtable_ok seed t" "stored A ?vs (ran (strtable_map t))"
    using ok Strtable by (auto simp: map_ok_def)
  have n: "unat (upb_Map_Size mp) = unat (tab_count t)" by (simp add: upb_Map_Size_def Strtable unat_ucast_up)
  obtain xs where xs: "strtable_items (unat (tab_count t) + 1) t (- 1) = Ok xs" "distinct (map fst xs)"
    "map_of xs = strtable_map t" "length xs = unat (tab_count t)"
    using strtable_items_all [OF o(3), of "unat (tab_count t) + 1"] by auto
  have v: "upb_map_fromvalue (h_mem h) u ?vs = Ok (map_value (h_mem h) ?vs u)" if "(k, u) \<in> set xs" for k u
  proof -
    have "strtable_map t k = Some u" using that xs(2) by (simp flip: xs(3))
    then show ?thesis by (rule value_loaded [OF o(1,4) ranI])
  qed
  have "map_items (unat (tab_count t) + 1) (h_mem h) mp (- 1) = Ok (map (\<lambda>(k, u). (k, map_value (h_mem h) ?vs u)) xs)"
    by (rule map_items_str [OF Strtable o(2) xs(1) v])
  moreover have "distinct (map fst (map (\<lambda>(k, u). (k, map_value (h_mem h) ?vs u)) xs))"
    using xs(2) by (simp add: comp_def case_prod_beta)
  ultimately show ?thesis
    using xs(3,4)
    by (simp add: n kUpb_Map_Begin_def map_of_map map_contents_def Strtable contents_def fun_eq_iff)
qed

text \<open>The items of an integer table, as the keys and values of the map.\<close>

definition int_item :: "mem \<Rightarrow> upb_Map \<Rightarrow> u64 \<times> u64 \<Rightarrow> bytes \<times> bytes" where
  "int_item m mp = (\<lambda>(w, u). (take (map_key_size mp) (le_bytes 8 w), map_value m (map_val_size mp) u))"

lemma int_items_contents:
  assumes ok: "map_ok seed taken A h mp" and Inttable: "map_t mp = Inttable t"
  shows "distinct (map fst (map (int_item (h_mem h) mp) (inttable_items t)))"
    "map_of (map (int_item (h_mem h) mp) (inttable_items t)) = map_contents (h_mem h) mp"
proof -
  let ?vs = "map_val_size mp" and ?ks = "map_key_size mp"
  have o: "arena_ok taken h A" "?ks \<in> {1, 4, 8}" "inttable_ok t" "stored A ?vs (ran (inttable_map t))"
    "\<forall>k \<in> dom (inttable_map t). unat k < 2 ^ (8 * ?ks)"
    using ok Inttable by (auto simp: map_ok_def)
  have ks: "?ks \<le> 8" using o(2) by auto
  note it = items_spec [OF o(3)]
  have in_map: "(w, u) \<in> set (inttable_items t) \<longleftrightarrow> inttable_map t w = Some u" for w u
    using map_of_eq_Some_iff [OF it(1)] it(2) by simp
  let ?key = "\<lambda>w. take ?ks (le_bytes 8 w)"
  have word_again: "le_word (?key w) = w" if "w \<in> dom (inttable_map t)" for w
  proof -
    have "unat w < 2 ^ (8 * ?ks)" using o(5) that by blast
    then have "take_bit (8 * ?ks) w = w" by (simp add: word_unat_eq_iff unat_take_bit_mod)
    moreover have "?key w = le_bytes ?ks w" using ks by (simp add: le_bytes_def take_map)
    ultimately show ?thesis by (simp add: le_word_le_bytes)
  qed
  let ?xs = "map (\<lambda>(w, u). (?key w, map_value (h_mem h) ?vs u)) (inttable_items t)"
  have dist: "distinct (map fst ?xs)"
  proof -
    have "inj_on ?key (set (map fst (inttable_items t)))"
    proof (rule inj_onI)
      fix x y assume "x \<in> set (map fst (inttable_items t))" "y \<in> set (map fst (inttable_items t))" "?key x = ?key y"
      moreover from this have "x \<in> dom (inttable_map t)" "y \<in> dom (inttable_map t)" by (auto simp: in_map)
      ultimately show "x = y" using word_again by metis
    qed
    then have "distinct (map ?key (map fst (inttable_items t)))" using it(1) unfolding distinct_map [of ?key] by blast
    moreover have "map fst ?xs = map ?key (map fst (inttable_items t))" by (simp add: case_prod_beta)
    ultimately show ?thesis by (simp only:)
  qed
  moreover have "map_of ?xs = map_contents (h_mem h) mp"
  proof
    fix k
    have "map_of ?xs k = Some z \<longleftrightarrow> map_contents (h_mem h) mp k = Some z" for z
    proof -
      have "map_of ?xs k = Some z \<longleftrightarrow> (\<exists>w u. inttable_map t w = Some u \<and> k = ?key w \<and> z = map_value (h_mem h) ?vs u)"
        unfolding map_of_eq_Some_iff [OF dist] set_map image_iff by (simp add: Bex_def split_paired_Ex in_map)
      also have "\<dots> \<longleftrightarrow> (\<exists>u. length k = ?ks \<and> inttable_map t (le_word k) = Some u \<and> z = map_value (h_mem h) ?vs u)"
      proof
        assume "\<exists>w u. inttable_map t w = Some u \<and> k = ?key w \<and> z = map_value (h_mem h) ?vs u"
        then obtain w u where w: "inttable_map t w = Some u" "k = ?key w" "z = map_value (h_mem h) ?vs u" by blast
        then have "le_word k = w" "length k = ?ks" using word_again [of w] ks by auto
        then show "\<exists>u. length k = ?ks \<and> inttable_map t (le_word k) = Some u \<and> z = map_value (h_mem h) ?vs u"
          using w by blast
      next
        assume r: "\<exists>u. length k = ?ks \<and> inttable_map t (le_word k) = Some u \<and> z = map_value (h_mem h) ?vs u"
        then have "?key (le_word k) = k" using le_bytes_word [of k] ks by auto
        then show "\<exists>w u. inttable_map t w = Some u \<and> k = ?key w \<and> z = map_value (h_mem h) ?vs u"
          using r by metis
      qed
      also have "\<dots> \<longleftrightarrow> map_contents (h_mem h) mp k = Some z"
        by (auto simp: map_contents_def Inttable contents_def)
      finally show ?thesis .
    qed
    then show "map_of ?xs k = map_contents (h_mem h) mp k" by (rule option_eqI)
  qed
  ultimately show "distinct (map fst (map (int_item (h_mem h) mp) (inttable_items t)))"
    "map_of (map (int_item (h_mem h) mp) (inttable_items t)) = map_contents (h_mem h) mp"
    by (simp_all only: int_item_def)
qed

lemma map_items_all_int:
  assumes ok: "map_ok seed taken A h mp" and Inttable: "map_t mp = Inttable t"
  shows "\<exists>xs. map_items (unat (upb_Map_Size mp) + 1) (h_mem h) mp kUpb_Map_Begin = Ok xs \<and>
    distinct (map fst xs) \<and> map_of xs = map_contents (h_mem h) mp \<and> length xs = unat (upb_Map_Size mp)"
proof -
  let ?vs = "map_val_size mp" and ?ks = "map_key_size mp"
  have o: "arena_ok taken h A" "?ks \<in> {1, 4, 8}" "inttable_ok t" "stored A ?vs (ran (inttable_map t))"
    "\<forall>k \<in> dom (inttable_map t). unat k < 2 ^ (8 * ?ks)"
    using ok Inttable by (auto simp: map_ok_def)
  have ks: "?ks \<le> 8" using o(2) by auto
  note it = items_spec [OF o(3)]
  have in_map: "(w, u) \<in> set (inttable_items t) \<longleftrightarrow> inttable_map t w = Some u" for w u
    using map_of_eq_Some_iff [OF it(1)] it(2) by simp
  have v: "upb_map_fromvalue (h_mem h) u ?vs = Ok (map_value (h_mem h) ?vs u)" if "(k, u) \<in> set (inttable_items t)" for k u
    using that unfolding in_map by (rule value_loaded [OF o(1,4) ranI])
  have "unat (tab_count (it_t t)) + unat (array_count t) < 18446744073709551616"
  proof -
    have "unat (array_count t) < 4294967296" using unsigned_less [of "array_count t", where ?'a = nat] by simp
    moreover have "unat (tab_count (it_t t)) < 4294967296"
      using unsigned_less [of "tab_count (it_t t)", where ?'a = nat] by simp
    ultimately show ?thesis by linarith
  qed
  then have n: "unat (upb_Map_Size mp) = length (inttable_items t)"
    by (simp add: upb_Map_Size_def Inttable upb_inttable_count_def it(3) unat_word_ariths unat_ucast_up)
  have "map_items (unat (upb_Map_Size mp) + 1) (h_mem h) mp kUpb_Map_Begin = Ok (map (int_item (h_mem h) mp) (inttable_items t))"
    using map_items_int [OF Inttable o(3) ks v, where iter = "- 1" and p = 0 and n = "unat (upb_Map_Size mp) + 1"]
    by (simp add: kUpb_Map_Begin_def n inttable_items_def int_item_def)
  then show ?thesis using int_items_contents [OF ok Inttable] n
    by (intro exI [of _ "map (int_item (h_mem h) mp) (inttable_items t)"]) (simp del: map_map)
qed

lemma map_items_all:
  assumes ok: "map_ok seed taken A h mp"
  shows "\<exists>xs. map_items (unat (upb_Map_Size mp) + 1) (h_mem h) mp kUpb_Map_Begin = Ok xs \<and>
    distinct (map fst xs) \<and> map_of xs = map_contents (h_mem h) mp \<and> length xs = unat (upb_Map_Size mp)"
  using map_items_all_str [OF ok] map_items_all_int [OF ok] by (cases "map_t mp") blast+

section \<open>Without memory\<close>

lemma strtable_insert_refused:
  assumes "\<And>n. 0 < n \<Longrightarrow> n < 2 ^ 40 \<Longrightarrow> mal n a = (False, a)"
  shows "upb_strtable_insert seed mal t k v a = Ok (False, t, a)"
proof -
  have "table_init mal lg a = (None, a)" for lg
  proof (cases "lg < 32")
    case True
    then have "(2 :: nat) ^ lg \<le> 2 ^ 31" by (intro power_increasing) simp_all
    then have "mal (2 ^ lg * 24) a = (False, a)" by (intro assms) simp_all
    then show ?thesis using True by (simp add: table_init_def Let_def)
  qed (simp add: table_init_def)
  moreover have "upb_SizePrefixString_Copy mal k a = (None, a)"
  proof (cases "length k > 2 ^ 32 - 1")
    case False
    then have "mal (4 + length k + 1) a = (False, a)" by (intro assms) simp_all
    then show ?thesis using False by (simp add: upb_SizePrefixString_Copy_def)
  qed (simp add: upb_SizePrefixString_Copy_def)
  ultimately show ?thesis by (simp add: upb_strtable_insert_def upb_strtable_resize_def)
qed

section \<open>Examples\<close>

text \<open>A map from strings to \<open>int32\<close> with one key, an empty one from \<open>int32\<close> to strings, an arena with 4 KiB to give, and an empty one that cannot
  grow.\<close>

definition example_map :: upb_Map where
  "example_map = \<lparr>map_key_size = 0, map_val_size = 4, map_is_frozen = False, map_t = Strtable (one_entry [97] 7)\<rparr>"

definition int_map :: upb_Map where
  "int_map = \<lparr>map_key_size = 4, map_val_size = 0, map_is_frozen = False, map_t = Inttable fresh_inttable\<rparr>"

definition example_heap :: "u64 heap" where
  "example_heap = no_arena (\<lambda>a. if unat (a - 4096) < 4096 then Some 0 else None) 8192 32768
     \<lparr>a_ptr := 4096, a_end := 8192, a_has_alloc := True\<rparr>"

definition full_heap :: "u64 heap" where
  "full_heap = no_arena (\<lambda>_. None) 8192 32768"

lemma example_heap_ok: "arena_ok below example_heap []"
proof -
  have m: "(if unat (a - 4096) < 4096 then Some 0 else None) = (if 4096 \<le> unat a \<and> unat a < 8192 then Some (0 :: u8) else None)"
    for a :: u64
    using range_of_interval [of 4096 4096 a] by (simp add: range_of_def)
  show ?thesis
    unfolding arena_ok_def no_arena_def example_heap_def m
    by (auto simp: free_bytes_def mapped_def range_of_interval below_def split: if_splits)
qed

lemma full_heap_ok: "arena_ok below full_heap []"
  by (simp add: full_heap_def no_arena_def arena_ok_def free_bytes_def mapped_def range_of_def)

lemma example_map_ok: "arena_ok taken h [] \<Longrightarrow> map_ok 0x1000 taken [] h example_map"
  by (simp add: map_ok_def example_map_def stored_def one_entry_ok)

lemma example_contents: "map_contents m example_map = [[97] \<mapsto> [7, 0, 0, 0]]"
proof -
  have "map_value m 4 7 = [7, 0, 0, 0]"
    by (simp add: map_value_def upb_map_fromvalue_def UPB_MAPTYPE_STRING_def cassert_def le_bytes_def upt_rec)
  then show ?thesis by (auto simp: map_contents_def example_map_def contents_def one_entry_map fun_eq_iff)
qed

lemma example_simps [simp]:
  "map_key_size example_map = 0" "map_val_size example_map = 4" "\<not> map_is_frozen example_map"
  "map_key example_map k = k"
  by (simp_all add: example_map_def map_key_def)

lemma int_map_ok: "arena_ok taken h [] \<Longrightarrow> map_ok seed taken [] h int_map"
  by (simp add: map_ok_def int_map_def stored_def fresh_ok)

lemma int_map_contents: "map_contents m int_map = Map.empty"
  by (simp add: map_contents_def int_map_def contents_def fresh_ok fun_eq_iff)

section \<open>Properties\<close>

text \<open>C37: a new map, in any arena that satisfies the invariant of arenas (an arena with an initial block has
  an allocator): either a map, which satisfies its invariant, has the sizes of its types and is empty,
  or \<open>NULL\<close>. No byte of an older allocation is changed.\<close>

theorem map_new_empty:
  assumes "sys_malloc f taken" "arena_ok taken h A"
  shows "\<exists>r h'. upb_Map_New f kt vt h = Ok (r, h') \<and> from_heap taken A h h' \<and>
    (\<forall>mp. r = Some mp \<longrightarrow> (\<exists>B. map_ok seed taken (B @ A) h' mp) \<and> \<not> map_is_frozen mp \<and>
      map_key_size mp = upb_Map_CTypeSize kt \<and> map_val_size mp = upb_Map_CTypeSize vt \<and>
      map_contents (h_mem h') mp = Map.empty)"
  by (rule New_map_spec [OF assms])

theorem map_new_empty_witness:
  "\<exists>mp h'. upb_Map_New bump_sys CT_Int32 CT_String example_heap = Ok (Some mp, h') \<and>
     map_contents (h_mem h') mp = Map.empty"
proof -
  obtain r h' where n: "upb_Map_New bump_sys CT_Int32 CT_String example_heap = Ok (r, h')"
    "\<forall>mp. r = Some mp \<longrightarrow> map_contents (h_mem h') mp = Map.empty"
    using map_new_empty [OF bump.sys_malloc_axioms example_heap_ok, of CT_Int32 CT_String] by blast
  have "case upb_Map_New bump_sys CT_Int32 CT_String example_heap of Ok (Some _, _) \<Rightarrow> True | _ \<Rightarrow> False" by code_simp
  then show ?thesis using n by (auto split: cres.splits option.splits)
qed

text \<open>C5: insertion into a map refines the update of a finite map from keys to values, for maps of strings
  and of integers, with values that are kept in the table and with strings that are copied into the
  arena (whose invariant asks that one with an initial block has an allocator). Whatever the arena does,
  the operation ends, keeps the invariant and changes no byte of an
  older allocation; it says rightly whether the key was new (\<open>inserted\<close>) and only the entry of this key is
  changed. Without memory the map is as before or has lost the key.\<close>

theorem map_insert_refines:
  assumes "sys_malloc f taken" "map_ok seed taken A h mp" "map_key_size mp \<le> length key"
    and "\<not> map_is_frozen mp" "length val = 16"
  shows "\<exists>st mp' h' B. upb_Map_Insert seed f mp key val h = Ok (st, mp', h') \<and>
    map_ok seed taken (B @ A) h' mp' \<and> from_heap taken A h h' \<and>
    inserted st (map_contents (h_mem h) mp) (map_key mp key) (val_bytes mp val) (map_contents (h_mem h') mp')"
  by (rule Map_Insert_spec [OF assms])

theorem map_insert_refines_witness:
  "\<exists>mp' h'. upb_Map_Insert 0 bump_sys int_map [5, 0, 0, 0] (replicate 16 5) example_heap =
      Ok (kUpb_MapInsertStatus_Inserted, mp', h') \<and>
     map_contents (h_mem h') mp' = [[5, 0, 0, 0] \<mapsto> replicate 16 5]"
proof -
  have k: "map_key_size int_map \<le> length [5 :: u8, 0, 0, 0]" "\<not> map_is_frozen int_map"
    "length (replicate 16 (5 :: u8)) = 16" "map_key int_map [5, 0, 0, 0] = [5, 0, 0, 0]"
    "val_bytes int_map v = v" for v
    by (simp_all add: int_map_def map_key_def val_bytes_def)
  obtain st mp' h' where i: "upb_Map_Insert 0 bump_sys int_map [5, 0, 0, 0] (replicate 16 5) example_heap = Ok (st, mp', h')"
    "inserted st (map_contents (h_mem example_heap) int_map) (map_key int_map [5, 0, 0, 0])
      (val_bytes int_map (replicate 16 5)) (map_contents (h_mem h') mp')"
    using map_insert_refines [OF bump.sys_malloc_axioms int_map_ok [OF example_heap_ok] k(1-3), of 0] by blast
  have "case upb_Map_Insert 0 bump_sys int_map [5, 0, 0, 0] (replicate 16 5) example_heap of
      Ok (st, _, _) \<Rightarrow> st = kUpb_MapInsertStatus_Inserted | _ \<Rightarrow> False" by code_simp
  then have "st = kUpb_MapInsertStatus_Inserted" unfolding i(1) by simp
  then show ?thesis using i unfolding k int_map_contents inserted_def by (intro exI [of _ mp'] exI [of _ h']) simp
qed

text \<open>C6: lookup and removal. A lookup finds the value of the finite map, or nothing. A removal says whether
  the key was there, keeps the invariant and removes exactly this key; where a value is asked for it is
  the removed one, but for a key that was not there it is made from the uninitialised word \<open>w\<close>: its bytes,
  or for a map of strings what is at the address \<open>w\<close>.\<close>

theorem map_get_delete_correct:
  assumes "map_ok seed taken A h mp" "map_key_size mp \<le> length key" "\<not> map_is_frozen mp"
  shows "\<exists>mp'. upb_Map_Get seed (h_mem h) mp key want =
      Ok (map_contents (h_mem h) mp (map_key mp key) \<noteq> None,
          if want then map_contents (h_mem h) mp (map_key mp key) else None) \<and>
    upb_Map_Delete seed (h_mem h) w mp key want =
      (if want \<and> map_contents (h_mem h) mp (map_key mp key) = None
       then cbind (upb_map_fromvalue (h_mem h) w (map_val_size mp)) (\<lambda>v. Ok (False, Some v, mp'))
       else Ok (map_contents (h_mem h) mp (map_key mp key) \<noteq> None,
                if want then map_contents (h_mem h) mp (map_key mp key) else None, mp')) \<and>
    map_ok seed taken A h mp' \<and>
    map_contents (h_mem h) mp' = (map_contents (h_mem h) mp)(map_key mp key := None)"
proof -
  obtain mp' u where d: "upb_Map_Delete_sized seed mp key (map_key_size mp) = Ok (mp', u)" "map_ok seed taken A h mp'"
    "map_option (map_value (h_mem h) (map_val_size mp)) u = map_contents (h_mem h) mp (map_key mp key)"
    "map_contents (h_mem h) mp' = (map_contents (h_mem h) mp)(map_key mp key := None)"
    "\<forall>v. u = Some v \<longrightarrow> stored A (map_val_size mp) {v}"
    using Map_Delete_spec [OF assms] by blast
  have a: "arena_ok taken h A" using assms(1) by (simp add: map_ok_def)
  have "upb_map_fromvalue (h_mem h) v (map_val_size mp) = Ok (map_value (h_mem h) (map_val_size mp) v)" if "u = Some v" for v
    using value_loaded [OF a, of "map_val_size mp" "{v}" v] d(5) that by simp
  then show ?thesis
    using Map_Get_spec [OF assms(1,2), of want] d
    by (intro exI [of _ mp']) (cases u; simp add: upb_Map_Delete_def flip: d(3))
qed

theorem map_get_delete_correct_witness:
  "\<exists>mp'. upb_Map_Get 0x1000 (h_mem full_heap) example_map [97] True = Ok (True, Some [7, 0, 0, 0]) \<and>
     upb_Map_Delete 0x1000 (h_mem full_heap) 9 example_map [97] True = Ok (True, Some [7, 0, 0, 0], mp') \<and>
     map_contents (h_mem full_heap) mp' = Map.empty"
  using map_get_delete_correct [OF example_map_ok [OF full_heap_ok], of "[97]" True 9] by (auto simp: example_contents)

text \<open>C7: the loop over a map with \<open>upb_Map_Next\<close> from \<open>kUpb_Map_Begin\<close> ends and yields every key of the finite
  map exactly once, with its value; their number is \<open>upb_Map_Size\<close>.\<close>

theorem map_iteration_complete:
  assumes "map_ok seed taken A h mp"
  shows "\<exists>xs. map_items (unat (upb_Map_Size mp) + 1) (h_mem h) mp kUpb_Map_Begin = Ok xs \<and>
    distinct (map fst xs) \<and> map_of xs = map_contents (h_mem h) mp \<and> length xs = unat (upb_Map_Size mp)"
  by (rule map_items_all [OF assms])

theorem map_iteration_complete_witness:
  "\<exists>xs. map_items (unat (upb_Map_Size example_map) + 1) (h_mem full_heap) example_map kUpb_Map_Begin = Ok xs \<and>
     map_of xs = [[97] \<mapsto> [7, 0, 0, 0]]"
  using map_iteration_complete [OF example_map_ok [OF full_heap_ok]] by (auto simp: example_contents)

text \<open>C38: inserting under a string key when the arena refuses every request (of less than \<open>2 ^ 40\<close> bytes) and stays
  as it is, into a map that is not frozen: the insertion reports that there is no memory. In a map of
  scalars or pointers the entry that the key had is gone, because the old value has been removed before;
  in a map of strings, where the copy of the new value is asked for first, the map is as before.\<close>

theorem map_insert_oom_loses_key:
  assumes "sys_malloc f taken" "map_ok seed taken A h mp" "map_key_size mp = 0" "\<not> map_is_frozen mp" "length val = 16"
    and "\<And>n. 0 < n \<Longrightarrow> n < 2 ^ 40 \<Longrightarrow> arena_request f n h = (False, h)"
  shows "\<exists>mp'. upb_Map_Insert seed f mp key val h = Ok (kUpb_MapInsertStatus_OutOfMemory, mp', h) \<and>
    (if map_val_size mp = 0 then mp' = mp
     else map_contents (h_mem h) mp' = (map_contents (h_mem h) mp)(key := None))"
proof (cases "map_val_size mp = 0")
  case True
  have "arena_ok taken h A" using assms(2) by (simp add: map_ok_def)
  then obtain p h' where p: "upb_Arena_Malloc f (of_nat 16) h = Ok (p, h')" "arena_request f 16 h = (p \<noteq> 0, h')"
    by (rule request_defined [OF assms(1), of h A 16]) simp_all
  have "upb_Arena_Malloc f 16 h = Ok (0, h)" using p assms(6) [of 16] by simp
  then have "upb_Map_Insert seed f mp key val h = Ok (kUpb_MapInsertStatus_OutOfMemory, mp, h)"
    using True assms(4)
    by (simp add: upb_Map_Insert_def upb_Map_Insert_sized_def upb_map_tovalue_def upb_Map_IsFrozen_def UPB_MAPTYPE_STRING_def Let_def)
  then show ?thesis using True by simp
next
  case False
  obtain t where t: "map_t mp = Strtable t" using assms(2,3) by (auto simp: map_ok_def split: upb_Map_Table.splits)
  have ok: "strtable_ok seed t" "map_val_size mp \<in> {1, 4, 8}" using assms(2) False t by (auto simp: map_ok_def stored_def)
  obtain t' where t': "upb_strtable_remove2 seed t key = Ok (t', strtable_map t key)"
    "strtable_map t' = (strtable_map t)(key := None)"
    using strd.rem [OF ok(1)] by blast
  have "upb_map_tovalue f val (map_val_size mp) h = Ok (Some (le_word (take (map_val_size mp) val)), h)"
    using ok(2) assms(5) by (auto simp: upb_map_tovalue_def UPB_MAPTYPE_STRING_def cassert_def)
  then have "upb_Map_Insert seed f mp key val h =
      Ok (kUpb_MapInsertStatus_OutOfMemory, mp\<lparr>map_t := Strtable t'\<rparr>, h)"
    using t t'(1) assms(3,4) strtable_insert_refused [of "arena_request f" h, OF assms(6)]
    by (simp add: upb_Map_Insert_def upb_Map_Insert_sized_def upb_Map_IsFrozen_def upb_map_tokey_def UPB_MAPTYPE_STRING_def Let_def)
  moreover have "map_contents (h_mem h) (mp\<lparr>map_t := Strtable t'\<rparr>) = (map_contents (h_mem h) mp)(key := None)"
    by (simp add: map_contents_def t contents_def t'(2) fun_eq_iff)
  ultimately show ?thesis using False by simp
qed

theorem map_insert_oom_loses_key_witness:
  "\<exists>mp'. upb_Map_Insert 0x1000 bump_sys example_map [97] (replicate 16 5) full_heap =
      Ok (kUpb_MapInsertStatus_OutOfMemory, mp', full_heap) \<and> map_contents (h_mem full_heap) mp' = Map.empty"
proof -
  have no: "arena_request bump_sys n full_heap = (False, full_heap)" if "0 < n" "n < 2 ^ 40" for n
  proof -
    have u: "unat (of_nat n :: u64) = n" using that by (intro unat_of_nat64) simp
    then have "0 < unat (UPB_ALIGN_MALLOC (of_nat n :: u64))" using that align_ge [of "of_nat n"] by simp
    then show ?thesis
      by (simp add: arena_request_def upb_Arena_Malloc_def upb_Arena_SlowMalloc_def full_heap_def no_arena_def
          upb_ArenaHas_def word_less_nat_alt Let_def)
  qed
  show ?thesis
    using map_insert_oom_loses_key [OF bump.sys_malloc_axioms example_map_ok [OF full_heap_ok] _ _ _ no, of "replicate 16 5" "[97]"]
    by (auto simp: example_contents)
qed

end
