(* ===== verification/MtDecode.thy ===== *)
theory MtDecode
  imports MiniTable
begin

text \<open>
  \<open>upb/mini_descriptor/decode.c\<close>: building the table of a message from its mini descriptor. The
  text from \<open>ptr\<close> to \<open>end\<close> is a list of bytes; a \<open>longjmp\<close> is \<open>Fail\<close>; the array \<open>d->fields\<close>, which
  the table shares, is the list of the fields parsed so far.
\<close>

section \<open>State\<close>

text \<open>The allocators the decoder calls: \<open>upb_Arena_Malloc\<close>, \<open>upb_Arena_ShrinkLast\<close> and
  \<open>upb_grealloc\<close> (the parameters of the model), all over one memory.\<close>

record 'a md_memory =
  md_malloc :: "'a malloc"
  md_shrink :: "nat \<Rightarrow> nat \<Rightarrow> 'a \<Rightarrow> 'a"
  md_grealloc :: "'a realloc"

definition kUpb_Reserved_Hasbytes :: nat where "kUpb_Reserved_Hasbytes = 8"
definition kUpb_Reserved_Hasbits :: nat where "kUpb_Reserved_Hasbits = kUpb_Reserved_Hasbytes * 8"
definition kUpb_OneOfLayoutItem_IndexSentinel :: u16 where "kUpb_OneOfLayoutItem_IndexSentinel = - 1"
definition kUpb_OneOf_CaseFieldRep :: nat where "kUpb_OneOf_CaseFieldRep = kUpb_FieldRep_4Byte"

record upb_OneOfLayoutItem =
  oi_field_index :: u16
  oi_rep :: nat

datatype upb_MiniTablePlatform = Platform_32Bit | Platform_64Bit

text \<open>\<open>d_field_count\<close> is the counter behind the pointer \<open>field_count\<close>: the table's own field for a
  message, a local variable for an extension, which has no table.\<close>

record 'a upb_MtDecoder =
  d_table :: "upb_MiniTable option"
  d_fields :: "upb_MiniTableField list"
  d_field_count :: u16
  d_platform :: upb_MiniTablePlatform
  d_oneofs :: "upb_OneOfLayoutItem list"
  d_oneofs_capacity :: nat
  d_arena :: 'a
  rep_counts_offsets :: "u16 list"

text \<open>The presence classifiers that \<open>offset\<close> holds while the table is built.\<close>

definition kNoPresence :: u16 where "kNoPresence = 0"
definition kHasbitPresence :: u16 where "kHasbitPresence = 1"
definition kRequiredPresence :: u16 where "kRequiredPresence = 2"
definition kOneofBase :: u16 where "kOneofBase = 3"

lemmas presence_class_defs =
  kNoPresence_def kHasbitPresence_def kRequiredPresence_def kOneofBase_def

record upb_SubCounts =
  submsg_count :: u16
  subenum_count :: u16

section \<open>Fields\<close>

definition upb_MtDecoder_FieldIsPackable :: "upb_MiniTableField \<Rightarrow> bool" where
  "upb_MtDecoder_FieldIsPackable f \<longleftrightarrow>
     f_mode f AND kUpb_FieldMode_Array \<noteq> 0 \<and> upb_FieldType_IsPackable (f_descriptortype f)"

definition upb_MiniTable_SetTypeAndSub ::
    "upb_MiniTableField \<Rightarrow> upb_FieldType \<Rightarrow> upb_SubCounts \<Rightarrow> u64 \<Rightarrow> bool \<Rightarrow>
     (md_error, upb_MiniTableField \<times> upb_SubCounts) cres" where
  "upb_MiniTable_SetTypeAndSub field type sub_counts msg_mods is_proto3_enum =
     cassert (is_proto3_enum \<longrightarrow> type = FT_Enum)
       (let (type, alt) =
              (if is_proto3_enum then (FT_Int32, kUpb_LabelFlags_IsAlternate)
               else if type = FT_String \<and> msg_mods AND kUpb_MessageModifier_ValidateUtf8 = 0
               then (FT_Bytes, kUpb_LabelFlags_IsAlternate)
               else (type, 0));
            field = field\<lparr>f_mode := f_mode field OR alt, f_descriptortype := type\<rparr>;
            field =
              (if upb_MtDecoder_FieldIsPackable field \<and>
                  msg_mods AND kUpb_MessageModifier_DefaultIsPacked \<noteq> 0
               then field\<lparr>f_mode := f_mode field OR kUpb_LabelFlags_IsPacked\<rparr> else field)
        in Ok (if type = FT_Message \<or> type = FT_Group then
                 (field\<lparr>f_submsg_index := submsg_count sub_counts\<rparr>,
                  sub_counts\<lparr>submsg_count := submsg_count sub_counts + 1\<rparr>)
               else if type = FT_Enum then
                 (field\<lparr>f_submsg_index := subenum_count sub_counts\<rparr>,
                  sub_counts\<lparr>subenum_count := subenum_count sub_counts + 1\<rparr>)
               else (field\<lparr>f_submsg_index := kUpb_NoSub\<rparr>, sub_counts)))"

text \<open>\<open>kUpb_EncodedToFieldRep\<close>, in the order of the encoded types. The entries of groups and
  messages are implicit zeros that the code does not read.\<close>

definition kUpb_EncodedToFieldRep :: "nat list" where
  "kUpb_EncodedToFieldRep =
     [kUpb_FieldRep_8Byte, kUpb_FieldRep_4Byte, kUpb_FieldRep_4Byte, kUpb_FieldRep_8Byte,
      kUpb_FieldRep_4Byte, kUpb_FieldRep_8Byte, kUpb_FieldRep_4Byte, kUpb_FieldRep_4Byte,
      kUpb_FieldRep_4Byte, kUpb_FieldRep_8Byte, kUpb_FieldRep_8Byte, kUpb_FieldRep_8Byte,
      kUpb_FieldRep_4Byte, kUpb_FieldRep_1Byte, kUpb_FieldRep_StringView, kUpb_FieldRep_StringView,
      0, 0, kUpb_FieldRep_4Byte]"

definition rep_bits :: "nat \<Rightarrow> u8" where
  "rep_bits rep = push_bit kUpb_FieldRep_Shift (of_nat rep)"

definition upb_MiniTable_SetField ::
    "upb_MiniTablePlatform \<Rightarrow> u8 \<Rightarrow> upb_MiniTableField \<Rightarrow> u64 \<Rightarrow> upb_SubCounts \<Rightarrow>
     (md_error, upb_MiniTableField \<times> upb_SubCounts) cres" where
  "upb_MiniTable_SetField platform ch field msg_mods sub_counts =
     (let pointer_rep = (if platform = Platform_32Bit then kUpb_FieldRep_4Byte else kUpb_FieldRep_8Byte);
          type = upb_FromBase92 ch in
      cbind
        (if ch \<ge> kUpb_ToBase92 ! kUpb_EncodedType_RepeatedBase then
           Ok (type - int kUpb_EncodedType_RepeatedBase,
               field\<lparr>f_mode := kUpb_FieldMode_Array OR rep_bits pointer_rep, f_offset := kNoPresence\<rparr>)
         else
           (let field = field\<lparr>f_mode := kUpb_FieldMode_Scalar, f_offset := kHasbitPresence\<rparr> in
            if type = int kUpb_EncodedType_Group \<or> type = int kUpb_EncodedType_Message
            then Ok (type, field\<lparr>f_mode := f_mode field OR rep_bits pointer_rep\<rparr>)
            else if type < 0 \<or> int (length kUpb_EncodedToFieldRep) \<le> type then Fail (InvalidFieldType type)
            else Ok (type, field\<lparr>f_mode := f_mode field OR
                       rep_bits (kUpb_EncodedToFieldRep ! nat type)\<rparr>)))
        (\<lambda>(type, field).
          if type < 0 then Fail (InvalidFieldType type)
          else (case kUpb_EncodedToType (nat type) of
                  None \<Rightarrow> Fail (InvalidFieldType type)
                | Some t \<Rightarrow> upb_MiniTable_SetTypeAndSub field t sub_counts msg_mods
                             (type = int kUpb_EncodedType_OpenEnum))))"

definition upb_MtDecoder_ModifyField ::
    "u32 \<Rightarrow> upb_MiniTableField \<Rightarrow> (md_error, upb_MiniTableField) cres" where
  "upb_MtDecoder_ModifyField field_modifiers field =
     cbind
       (if field_modifiers AND kUpb_EncodedFieldModifier_FlipPacked \<noteq> 0 then
          (if \<not> upb_MtDecoder_FieldIsPackable field then Fail (CannotFlipPacked (f_number field))
           else Ok (field\<lparr>f_mode := f_mode field XOR kUpb_LabelFlags_IsPacked\<rparr>))
        else Ok field) (\<lambda>field.
     cbind
       (if field_modifiers AND kUpb_EncodedFieldModifier_FlipValidateUtf8 \<noteq> 0 then
          (if f_descriptortype field \<noteq> FT_Bytes \<or> f_mode field AND kUpb_LabelFlags_IsAlternate = 0
           then Fail (CannotFlipValidateUtf8 (f_number field))
           else Ok (field\<lparr>f_descriptortype := FT_String,
                          f_mode := f_mode field AND NOT kUpb_LabelFlags_IsAlternate\<rparr>))
        else Ok field) (\<lambda>field.
       let singular = (field_modifiers AND kUpb_EncodedFieldModifier_IsProto3Singular \<noteq> 0);
           required = (field_modifiers AND kUpb_EncodedFieldModifier_IsRequired \<noteq> 0)
       in if (singular \<or> required) \<and> f_offset field \<noteq> kHasbitPresence
          then Fail (InvalidModifiersForRepeated (f_number field))
          else if singular \<and> required then Fail (SingularAndRequired (f_number field))
          else if singular \<and> upb_MiniTableField_IsSubMessage field
          then Fail (SingularSubmessage (f_number field))
          else
            (let field = (if singular then field\<lparr>f_offset := kNoPresence\<rparr> else field)
             in Ok (if required then field\<lparr>f_offset := kRequiredPresence\<rparr> else field))))"

section \<open>Oneofs\<close>

definition upb_MtDecoder_SizeOfRep :: "nat \<Rightarrow> upb_MiniTablePlatform \<Rightarrow> nat" where
  "upb_MtDecoder_SizeOfRep rep platform =
     (if platform = Platform_32Bit then [1, 4, 8, 8] ! rep else [1, 4, 16, 8] ! rep)"

definition upb_MtDecoder_AlignOfRep :: "nat \<Rightarrow> upb_MiniTablePlatform \<Rightarrow> nat" where
  "upb_MtDecoder_AlignOfRep rep platform =
     (if platform = Platform_32Bit then [1, 4, 4, 8] ! rep else [1, 4, 8, 8] ! rep)"

definition incr_rep :: "nat \<Rightarrow> u16 list \<Rightarrow> u16 list" where
  "incr_rep rep rs = rs[rep := rs ! rep + 1]"

text \<open>An item of the vector has 4 bytes.\<close>

definition upb_MtDecoder_PushOneof ::
    "'a md_memory \<Rightarrow> 'a upb_MtDecoder \<Rightarrow> upb_OneOfLayoutItem \<Rightarrow> (md_error, 'a upb_MtDecoder) cres" where
  "upb_MtDecoder_PushOneof mem d item =
     (if oi_field_index item = kUpb_OneOfLayoutItem_IndexSentinel then Fail EmptyOneof
      else
        (let size = length (d_oneofs d) in
         cbind
           (if (size + 1) * 4 > d_oneofs_capacity d then
              (let new_cap = max 8 (size * 2) * 4 in
               case md_grealloc mem (d_oneofs_capacity d) new_cap (d_arena d) of (ok, a) \<Rightarrow>
                 (if ok then Ok (d\<lparr>d_oneofs_capacity := new_cap, d_arena := a\<rparr>) else Fail OutOfMemory))
            else Ok d) (\<lambda>d.
           Ok (d\<lparr>rep_counts_offsets :=
                   incr_rep (oi_rep item) (incr_rep kUpb_OneOf_CaseFieldRep (rep_counts_offsets d)),
                 d_oneofs := d_oneofs d @
                   [item\<lparr>oi_field_index := oi_field_index item - kOneofBase\<rparr>]\<rparr>))))"

text \<open>The table as \<open>upb_MiniTable_FindFieldByNumber\<close> sees it while it is built.\<close>

definition table_view :: "'a upb_MtDecoder \<Rightarrow> upb_MiniTable \<Rightarrow> upb_MiniTable" where
  "table_view d t = t\<lparr>mt_fields := d_fields d, mt_field_count := d_field_count d\<rparr>"

text \<open>The slot of a oneof is as large as its largest member.\<close>

definition grow_rep ::
    "upb_MiniTablePlatform \<Rightarrow> nat \<Rightarrow> upb_OneOfLayoutItem \<Rightarrow> (md_error, upb_OneOfLayoutItem) cres" where
  "grow_rep p rep item =
     (let new_size = upb_MtDecoder_SizeOfRep rep p;
          new_align = upb_MtDecoder_AlignOfRep rep p;
          current_size = upb_MtDecoder_SizeOfRep (oi_rep item) p;
          current_align = upb_MtDecoder_AlignOfRep (oi_rep item) p
      in if new_size > current_size \<or> (new_size = current_size \<and> new_align > current_align)
         then cassert (new_align \<ge> current_align) (Ok (item\<lparr>oi_rep := rep\<rparr>))
         else cassert (current_align \<ge> new_align) (Ok item))"

definition upb_MtDecoder_DecodeOneofField ::
    "'a upb_MtDecoder \<Rightarrow> upb_MiniTable \<Rightarrow> bytes \<Rightarrow> u8 \<Rightarrow> upb_OneOfLayoutItem \<Rightarrow>
     (md_error, 'a upb_MtDecoder \<times> upb_OneOfLayoutItem \<times> bytes) cres" where
  "upb_MtDecoder_DecodeOneofField d t rest first_ch item =
     cbind (upb_MdDecoder_DecodeBase92Varint first_ch
              kUpb_EncodedValue_MinOneofField kUpb_EncodedValue_MaxOneofField rest) (\<lambda>(rest, field_num).
     cbind (upb_MiniTable_FindFieldByNumber (table_view d t) field_num) (\<lambda>r.
       case r of
         None \<Rightarrow> Fail (NoSuchOneofField field_num)
       | Some i \<Rightarrow>
           (let f = d_fields d ! i in
            if f_offset f \<noteq> kHasbitPresence then Fail (CannotAddToOneof field_num)
            else
              cbind (grow_rep (d_platform d) (upb_MiniTableField_GetRep f) item) (\<lambda>item.
                 Ok (d\<lparr>d_fields := (d_fields d)[i := f\<lparr>f_offset := oi_field_index item\<rparr>]\<rparr>,
                     item\<lparr>oi_field_index := of_nat i + kOneofBase\<rparr>, rest)))))"

lemma DecodeOneofField_length:
  "upb_MtDecoder_DecodeOneofField d t rest ch item = Ok (d', item', rest') \<Longrightarrow> length rest' \<le> length rest"
  by (auto simp: upb_MtDecoder_DecodeOneofField_def cres_simps Let_def
      split: option.splits if_splits dest: DecodeBase92Varint_length)

text \<open>The loop of \<open>upb_MtDecoder_DecodeOneofs\<close>. The \<open>rep\<close> of the item is not reset when a oneof
  ends.\<close>

function decode_oneofs_loop ::
    "'a md_memory \<Rightarrow> 'a upb_MtDecoder \<Rightarrow> upb_MiniTable \<Rightarrow> bytes \<Rightarrow> upb_OneOfLayoutItem \<Rightarrow>
     (md_error, 'a upb_MtDecoder \<times> upb_OneOfLayoutItem) cres" where
  "decode_oneofs_loop mem d t [] item = Ok (d, item)"
| "decode_oneofs_loop mem d t (ch # rest) item =
     (if ch = kUpb_EncodedValue_FieldSeparator then decode_oneofs_loop mem d t rest item
      else if ch = kUpb_EncodedValue_OneofSeparator then
        cbind (upb_MtDecoder_PushOneof mem d item) (\<lambda>d.
          decode_oneofs_loop mem d t rest (item\<lparr>oi_field_index := kUpb_OneOfLayoutItem_IndexSentinel\<rparr>))
      else
        cbind (upb_MtDecoder_DecodeOneofField d t rest ch item) (\<lambda>(d, item, rest').
          decode_oneofs_loop mem d t rest' item))"
  by pat_completeness auto
termination
  by (relation "measure (\<lambda>(mem, d, t, rest, item). length rest)")
    (auto dest: DecodeOneofField_length)

definition upb_MtDecoder_DecodeOneofs ::
    "'a md_memory \<Rightarrow> 'a upb_MtDecoder \<Rightarrow> upb_MiniTable \<Rightarrow> bytes \<Rightarrow> (md_error, 'a upb_MtDecoder) cres" where
  "upb_MtDecoder_DecodeOneofs mem d t rest =
     cbind (decode_oneofs_loop mem d t rest
              \<lparr>oi_field_index = kUpb_OneOfLayoutItem_IndexSentinel, oi_rep = 0\<rparr>) (\<lambda>(d, item).
       upb_MtDecoder_PushOneof mem d item)"

section \<open>Parsing\<close>

text \<open>\<open>last_field\<close> is the last of the fields, \<open>NULL\<close> before the first.\<close>

definition upb_MtDecoder_ParseModifier ::
    "'a upb_MtDecoder \<Rightarrow> bytes \<Rightarrow> u8 \<Rightarrow> u64 \<Rightarrow> (md_error, 'a upb_MtDecoder \<times> u64 \<times> bytes) cres" where
  "upb_MtDecoder_ParseModifier d rest first_ch msg_mods =
     cbind (upb_MdDecoder_DecodeBase92Varint first_ch
              kUpb_EncodedValue_MinModifier kUpb_EncodedValue_MaxModifier rest) (\<lambda>(rest, m).
       if d_fields d \<noteq> [] then
         cbind (upb_MtDecoder_ModifyField m (last (d_fields d))) (\<lambda>f.
           Ok (d\<lparr>d_fields := butlast (d_fields d) @ [f]\<rparr>, msg_mods, rest))
       else if d_table d = None then Fail ExtensionMessageModifiers
       else Ok (d, ucast m, rest))"

text \<open>The loops over the fields run to \<open>field_count\<close>, which has 16 bits and wraps around: from 65536 fields on
  there are fields behind it, which the loops leave as they are.\<close>

definition counted_fields :: "'a upb_MtDecoder \<Rightarrow> upb_MiniTableField list" where
  "counted_fields d = take (unat (d_field_count d)) (d_fields d)"

definition uncounted_fields :: "'a upb_MtDecoder \<Rightarrow> upb_MiniTableField list" where
  "uncounted_fields d = drop (unat (d_field_count d)) (d_fields d)"

text \<open>The sub-message slots start out with the empty table, the enum slots with \<open>NULL\<close>. A slot and a
  pointer have 8 bytes.\<close>

definition upb_MtDecoder_AllocateSubs ::
    "'a md_memory \<Rightarrow> 'a upb_MtDecoder \<Rightarrow> upb_MiniTable \<Rightarrow> upb_SubCounts \<Rightarrow>
     (md_error, 'a upb_MtDecoder) cres" where
  "upb_MtDecoder_AllocateSubs mem d t sub_counts =
     (let msgs = unat (submsg_count sub_counts); enums = unat (subenum_count sub_counts) in
      case md_malloc mem (8 * (msgs + enums)) (d_arena d) of (ok1, a) \<Rightarrow>
      case md_malloc mem (8 * msgs) a of (ok2, a) \<Rightarrow>
        (if \<not> ok1 \<or> \<not> ok2 then Fail OutOfMemory
         else
           (let fs = (if subenum_count sub_counts = 0 then d_fields d
                      else map (\<lambda>f. if f_descriptortype f = FT_Enum
                                    then f\<lparr>f_submsg_index := f_submsg_index f + submsg_count sub_counts\<rparr>
                                    else f) (counted_fields d) @ uncounted_fields d)
            in Ok (d\<lparr>d_arena := a, d_fields := fs,
                     d_table := Some (t\<lparr>mt_subs :=
                       replicate msgs (SubMsg upb_MiniTable_Empty) @ replicate enums SubNull\<rparr>)\<rparr>))))"

definition set_dense_below :: "bool \<Rightarrow> 'a upb_MtDecoder \<Rightarrow> 'a upb_MtDecoder" where
  "set_dense_below need d =
     (if need then d\<lparr>d_table := map_option (mt_dense_below_update (\<lambda>_. ucast (d_field_count d))) (d_table d)\<rparr>
      else d)"

definition fresh_field :: "u32 \<Rightarrow> upb_MiniTableField" where
  "fresh_field n = \<lparr>f_number = n, f_offset = 0, f_presence = 0, f_submsg_index = 0,
     f_descriptortype = FT_Double, f_mode = 0\<rparr>"

lemma ParseModifier_length:
  "upb_MtDecoder_ParseModifier d rest ch mods = Ok (d', mods', rest') \<Longrightarrow> length rest' \<le> length rest"
  by (auto simp: upb_MtDecoder_ParseModifier_def cres_simps split: if_splits dest: DecodeBase92Varint_length)

text \<open>The loop of \<open>upb_MtDecoder_Parse\<close>, with its local variables. A field's array slot is
  uninitialised memory: \<open>fresh_field\<close> stands for it, and every member is written before it is read.
  The result is what an extension left unread.\<close>

function parse_loop ::
    "'a md_memory \<Rightarrow> 'a upb_MtDecoder \<Rightarrow> upb_SubCounts \<Rightarrow> u64 \<Rightarrow> u32 \<Rightarrow> bool \<Rightarrow> bytes \<Rightarrow>
     (md_error, 'a upb_MtDecoder \<times> upb_SubCounts \<times> bool \<times> bytes) cres" where
  "parse_loop mem d subs mods last_num need_dense [] = Ok (d, subs, need_dense, [])"
| "parse_loop mem d subs mods last_num need_dense (ch # rest) =
     (if sint ch \<le> uint kUpb_EncodedValue_MaxField then
        (if d_table d = None \<and> d_fields d \<noteq> [] then Ok (d, subs, False, ch # rest)
         else
           cbind (upb_MiniTable_SetField (d_platform d) ch (fresh_field (last_num + 1)) mods subs) (\<lambda>(f, subs).
             parse_loop mem (d\<lparr>d_fields := d_fields d @ [f], d_field_count := d_field_count d + 1\<rparr>)
               subs mods (last_num + 1) need_dense rest))
      else if kUpb_EncodedValue_MinModifier \<le> ch \<and> ch \<le> kUpb_EncodedValue_MaxModifier then
        cbind (upb_MtDecoder_ParseModifier d rest ch mods) (\<lambda>(d, mods, rest').
          if mods AND kUpb_MessageModifier_IsExtendable \<noteq> 0 then
            (case d_table d of
               None \<Rightarrow> UB
             | Some t \<Rightarrow> parse_loop mem (d\<lparr>d_table := Some (t\<lparr>mt_ext := mt_ext t OR kUpb_ExtMode_Extendable\<rparr>)\<rparr>)
                          subs mods last_num need_dense rest')
          else parse_loop mem d subs mods last_num need_dense rest')
      else if ch = kUpb_EncodedValue_End then
        (case d_table d of
           None \<Rightarrow> Fail ExtensionOneofs
         | Some t \<Rightarrow> cbind (upb_MtDecoder_DecodeOneofs mem d t rest) (\<lambda>d. Ok (d, subs, need_dense, [])))
      else if kUpb_EncodedValue_MinSkip \<le> ch \<and> ch \<le> kUpb_EncodedValue_MaxSkip then
        cbind (upb_MdDecoder_DecodeBase92Varint ch kUpb_EncodedValue_MinSkip kUpb_EncodedValue_MaxSkip rest)
          (\<lambda>(rest', skip).
            parse_loop mem (set_dense_below need_dense d) subs mods (last_num + skip - 1) False rest')
      else Fail (InvalidChar ch))"
  by pat_completeness auto
termination
  by (relation "measure (\<lambda>(mem, d, subs, mods, last_num, need_dense, rest). length rest)")
    (auto dest: ParseModifier_length DecodeBase92Varint_length)

definition upb_MtDecoder_Parse ::
    "'a md_memory \<Rightarrow> 'a upb_MtDecoder \<Rightarrow> upb_SubCounts \<Rightarrow> bytes \<Rightarrow>
     (md_error, 'a upb_MtDecoder \<times> upb_SubCounts \<times> bytes) cres" where
  "upb_MtDecoder_Parse mem d subs data =
     cbind (parse_loop mem d subs 0 0 (d_table d \<noteq> None) data) (\<lambda>(d, subs, need_dense, rest).
       Ok (set_dense_below need_dense d, subs, rest))"

text \<open>A field has 12 bytes. The size check of the array cannot fail for a string in memory.\<close>

definition upb_MtDecoder_ParseMessage ::
    "'a md_memory \<Rightarrow> 'a upb_MtDecoder \<Rightarrow> bytes \<Rightarrow> (md_error, 'a upb_MtDecoder) cres" where
  "upb_MtDecoder_ParseMessage mem d data =
     (if (2 ^ 64 - 1) div 12 < int (length data) then Fail OutOfMemory
      else (case md_malloc mem (12 * length data) (d_arena d) of (ok, a) \<Rightarrow>
        (if \<not> ok then Fail OutOfMemory
         else
           cbind (upb_MtDecoder_Parse mem (d\<lparr>d_arena := a, d_fields := [], d_field_count := 0\<rparr>)
                    \<lparr>submsg_count = 0, subenum_count = 0\<rparr> data) (\<lambda>(d, sub_counts, _).
             let d = d\<lparr>d_arena := md_shrink mem (12 * length data) (12 * unat (d_field_count d)) (d_arena d)\<rparr>
             in case d_table d of
                  None \<Rightarrow> UB
                | Some t \<Rightarrow> upb_MtDecoder_AllocateSubs mem d t sub_counts))))"

section \<open>Layout\<close>

definition align_up :: "nat \<Rightarrow> nat \<Rightarrow> nat" where
  "align_up n a = (n + a - 1) div a * a"

text \<open>Counting the fields outside oneofs, then one region per representation, smallest alignment
  first.\<close>

definition count_reps :: "upb_MiniTableField list \<Rightarrow> u16 list \<Rightarrow> u16 list" where
  "count_reps fs rs =
     fold (\<lambda>f rs. if f_offset f \<ge> kOneofBase then rs else incr_rep (upb_MiniTableField_GetRep f) rs) fs rs"

fun assign_regions :: "upb_MiniTablePlatform \<Rightarrow> nat list \<Rightarrow> u16 list \<Rightarrow> nat \<Rightarrow> u16 list \<times> nat" where
  "assign_regions p [] rs base = (rs, base)"
| "assign_regions p (rep # reps) rs base =
     (let count = unat (rs ! rep) in
      if count \<noteq> 0 then
        (let base = align_up base (upb_MtDecoder_AlignOfRep rep p)
         in assign_regions p reps (rs[rep := of_nat base]) (base + upb_MtDecoder_SizeOfRep rep p * count))
      else assign_regions p reps rs base)"

definition upb_MtDecoder_CalculateAlignments ::
    "'a upb_MtDecoder \<Rightarrow> upb_MiniTable \<Rightarrow> (md_error, 'a upb_MtDecoder) cres" where
  "upb_MtDecoder_CalculateAlignments d t =
     (let rs = count_reps (counted_fields d) (rep_counts_offsets d);
          (rs, base) = assign_regions (d_platform d) [0..<4] rs (unat (mt_size t))
      in if int base > 65535 then Fail MessageTooLarge
         else Ok (d\<lparr>rep_counts_offsets := rs, d_table := Some (t\<lparr>mt_size := of_nat base\<rparr>)\<rparr>))"

definition upb_MiniTable_DivideRoundUp :: "nat \<Rightarrow> nat \<Rightarrow> nat" where
  "upb_MiniTable_DivideRoundUp n d = (n + d - 1) div d"

text \<open>The two loops over the fields, each with the last hasbit given out.\<close>

definition assign_required :: "upb_MiniTableField list \<Rightarrow> nat \<Rightarrow> upb_MiniTableField list \<times> nat" where
  "assign_required fs last_hasbit =
     fold (\<lambda>f (fs, last).
       if f_offset f = kRequiredPresence then (fs @ [f\<lparr>f_presence := of_nat (last + 1)\<rparr>], last + 1)
       else if f_offset f = kNoPresence then (fs @ [f\<lparr>f_presence := 0\<rparr>], last)
       else (fs @ [f], last)) fs ([], last_hasbit)"

definition assign_optional :: "upb_MiniTableField list \<Rightarrow> nat \<Rightarrow> upb_MiniTableField list \<times> nat" where
  "assign_optional fs last_hasbit =
     fold (\<lambda>f (fs, last).
       if f_offset f = kHasbitPresence then (fs @ [f\<lparr>f_presence := of_nat (last + 1)\<rparr>], last + 1)
       else (fs @ [f], last)) fs ([], last_hasbit)"

definition upb_MtDecoder_AssignHasbits ::
    "'a upb_MtDecoder \<Rightarrow> upb_MiniTable \<Rightarrow> (md_error, 'a upb_MtDecoder) cres" where
  "upb_MtDecoder_AssignHasbits d t =
     (let (fs, last) = assign_required (counted_fields d) (kUpb_Reserved_Hasbits - 1) in
      if last > kUpb_Reserved_Hasbits + 63 then Fail TooManyRequired
      else
        (let t = t\<lparr>mt_required_count := of_nat (last - (kUpb_Reserved_Hasbits - 1))\<rparr>;
             (fs, last) = assign_optional fs last;
             size = (if last \<noteq> 0 then upb_MiniTable_DivideRoundUp (last + 1) 8 else 0)
         in Ok (d\<lparr>d_fields := fs @ uncounted_fields d, d_table := Some (t\<lparr>mt_size := of_nat size\<rparr>)\<rparr>)))"

definition upb_MtDecoder_Place :: "upb_MiniTablePlatform \<Rightarrow> u16 list \<Rightarrow> nat \<Rightarrow> u16 \<times> u16 list" where
  "upb_MtDecoder_Place p rs rep =
     (rs ! rep, rs[rep := rs ! rep + of_nat (upb_MtDecoder_SizeOfRep rep p)])"

definition place_fields ::
    "upb_MiniTablePlatform \<Rightarrow> upb_MiniTableField list \<Rightarrow> u16 list \<Rightarrow> upb_MiniTableField list \<times> u16 list" where
  "place_fields p fs rs =
     fold (\<lambda>f (fs, rs).
       if f_offset f \<ge> kOneofBase then (fs @ [f], rs)
       else (case upb_MtDecoder_Place p rs (upb_MiniTableField_GetRep f) of (off, rs) \<Rightarrow>
               (fs @ [f\<lparr>f_offset := off\<rparr>], rs))) fs ([], rs)"

text \<open>The walk over the members of a oneof. A list with more members than fields is cyclic and the
  walk would not end.\<close>

fun place_members ::
    "nat \<Rightarrow> upb_MiniTableField list \<Rightarrow> nat \<Rightarrow> u16 \<Rightarrow> u16 \<Rightarrow> (md_error, upb_MiniTableField list) cres" where
  "place_members 0 fs i case_offset data_offset = UB"
| "place_members (Suc n) fs i case_offset data_offset =
     cassert (i < length fs)
       (let f = fs ! i;
            next_offset = f_offset f;
            fs = fs[i := f\<lparr>f_presence := NOT case_offset, f_offset := data_offset\<rparr>]
        in if next_offset = kUpb_OneOfLayoutItem_IndexSentinel then Ok fs
           else place_members n fs (unat (next_offset - kOneofBase)) case_offset data_offset)"

definition place_oneofs ::
    "upb_MiniTablePlatform \<Rightarrow> upb_OneOfLayoutItem list \<Rightarrow> upb_MiniTableField list \<Rightarrow> u16 list \<Rightarrow>
     (md_error, upb_MiniTableField list \<times> u16 list) cres" where
  "place_oneofs p oneofs fs rs =
     fold_cres (\<lambda>item (fs, rs).
       case upb_MtDecoder_Place p rs kUpb_OneOf_CaseFieldRep of (case_offset, rs) \<Rightarrow>
       case upb_MtDecoder_Place p rs (oi_rep item) of (data_offset, rs) \<Rightarrow>
         cbind (place_members (length fs) fs (unat (oi_field_index item)) case_offset data_offset)
           (\<lambda>fs. Ok (fs, rs))) oneofs (fs, rs)"

definition upb_MtDecoder_AssignOffsets ::
    "'a upb_MtDecoder \<Rightarrow> upb_MiniTable \<Rightarrow> (md_error, 'a upb_MtDecoder) cres" where
  "upb_MtDecoder_AssignOffsets d t =
     (let (fs, rs) = place_fields (d_platform d) (counted_fields d) (rep_counts_offsets d) in
      cbind (place_oneofs (d_platform d) (d_oneofs d) (fs @ uncounted_fields d) rs) (\<lambda>(fs, rs).
        Ok (d\<lparr>d_fields := fs, rep_counts_offsets := rs,
              d_table := Some (t\<lparr>mt_size := of_nat (align_up (unat (mt_size t)) 8)\<rparr>)\<rparr>)))"

section \<open>Maps, message sets and messages\<close>

definition not_ok_types :: "u32 \<Rightarrow> u32" where
  "not_ok_types expected_num =
     (if expected_num = 1 then
        foldr (\<lambda>t m. push_bit (upb_FieldType_num t) 1 OR m)
          [FT_Float, FT_Double, FT_Message, FT_Group, FT_Bytes, FT_Enum] 0
      else push_bit (upb_FieldType_num FT_Group) 1)"

definition upb_MtDecoder_ValidateEntryField :: "upb_MiniTableField \<Rightarrow> u32 \<Rightarrow> (md_error, unit) cres" where
  "upb_MtDecoder_ValidateEntryField f expected_num =
     (if f_number f \<noteq> expected_num then Fail (MapFieldNumber expected_num (f_number f))
      else if \<not> upb_MiniTableField_IsScalar f then Fail MapFieldNotScalar
      else cbind (upb_MiniTableField_Type f) (\<lambda>type.
        if push_bit (upb_FieldType_num type) 1 AND not_ok_types expected_num \<noteq> 0 then Fail MapFieldType
        else Ok ()))"

text \<open>The table of the decoder; it has one in everything that follows.\<close>

definition with_table ::
    "('a upb_MtDecoder \<Rightarrow> upb_MiniTable \<Rightarrow> (md_error, 'b) cres) \<Rightarrow> 'a upb_MtDecoder \<Rightarrow> (md_error, 'b) cres" where
  "with_table f d = (case d_table d of None \<Rightarrow> UB | Some t \<Rightarrow> f d t)"

text \<open>A \<open>upb_MapEntry\<close>: the message, 8 bytes of hasbits, and 16 bytes each for key and value.\<close>

definition upb_MtDecoder_ParseMap ::
    "'a md_memory \<Rightarrow> 'a upb_MtDecoder \<Rightarrow> bytes \<Rightarrow> (md_error, 'a upb_MtDecoder) cres" where
  "upb_MtDecoder_ParseMap mem d data =
     cbind (upb_MtDecoder_ParseMessage mem d data) (\<lambda>d.
     cbind (with_table upb_MtDecoder_AssignHasbits d) (\<lambda>d.
       if d_field_count d \<noteq> 2 then Fail (MapFieldCount (d_field_count d))
       else if d_oneofs d \<noteq> [] then Fail MapOneof
       else cassert (length (d_fields d) \<ge> 2)
         (cbind (upb_MtDecoder_ValidateEntryField (d_fields d ! 0) 1) (\<lambda>_.
          cbind (upb_MtDecoder_ValidateEntryField (d_fields d ! 1) 2) (\<lambda>_.
            with_table (\<lambda>d t.
              let fs = d_fields d;
                  fs = fs[0 := (fs ! 0)\<lparr>f_offset := 16\<rparr>, 1 := (fs ! 1)\<lparr>f_offset := 32\<rparr>]
              in Ok (d\<lparr>d_fields := fs,
                   d_table := Some (t\<lparr>mt_size := 48, mt_ext := mt_ext t OR kUpb_ExtMode_IsMapEntry\<rparr>)\<rparr>)) d)))))"

definition upb_MtDecoder_ParseMessageSet ::
    "'a upb_MtDecoder \<Rightarrow> upb_MiniTable \<Rightarrow> bytes \<Rightarrow> (md_error, 'a upb_MtDecoder) cres" where
  "upb_MtDecoder_ParseMessageSet d t data =
     (if length data > 0 then Fail MessageSetLength
      else Ok (d\<lparr>d_field_count := 0, d_fields := [],
             d_table := Some (t\<lparr>mt_size := of_nat kUpb_Reserved_Hasbytes, mt_ext := kUpb_ExtMode_IsMessageSet,
               mt_dense_below := 0, mt_table_mask := - 1, mt_required_count := 0\<rparr>)\<rparr>))"

definition initial_table :: upb_MiniTable where
  "initial_table =
     \<lparr>mt_subs = [], mt_fields = [], mt_size = of_nat kUpb_Reserved_Hasbytes, mt_field_count = 0,
      mt_ext = kUpb_ExtMode_NonExtendable, mt_dense_below = 0, mt_table_mask = - 1, mt_required_count = 0\<rparr>"

definition parse_version ::
    "'a md_memory \<Rightarrow> 'a upb_MtDecoder \<Rightarrow> bytes \<Rightarrow> (md_error, 'a upb_MtDecoder) cres" where
  "parse_version mem d data =
     (case data of
        [] \<Rightarrow> Ok d
      | vers # data \<Rightarrow>
          if vers = kUpb_EncodedVersion_MapV1 then upb_MtDecoder_ParseMap mem d data
          else if vers = kUpb_EncodedVersion_MessageV1 then
            cbind (upb_MtDecoder_ParseMessage mem d data) (\<lambda>d.
            cbind (with_table upb_MtDecoder_AssignHasbits d) (\<lambda>d.
            cbind (with_table upb_MtDecoder_CalculateAlignments d) (\<lambda>d.
              with_table upb_MtDecoder_AssignOffsets d)))
          else if vers = kUpb_EncodedVersion_MessageSetV1
          then with_table (\<lambda>d t. upb_MtDecoder_ParseMessageSet d t data) d
          else Fail (InvalidMessageVersion vers))"

text \<open>The finished table, with the arrays of the decoder, and the buffer that is left for reuse.\<close>

definition upb_MiniTable_BuildWithBuf ::
    "'a md_memory \<Rightarrow> bytes \<Rightarrow> upb_MiniTablePlatform \<Rightarrow> nat \<Rightarrow> 'a \<Rightarrow>
     (md_error, upb_MiniTable \<times> nat \<times> 'a) cres" where
  "upb_MiniTable_BuildWithBuf mem data platform buf_size a =
     (case md_malloc mem 24 a of (ok, a) \<Rightarrow>
        (if \<not> ok then Fail OutOfMemory
         else
           cbind (parse_version mem
             \<lparr>d_table = Some initial_table, d_fields = [], d_field_count = 0, d_platform = platform,
              d_oneofs = [], d_oneofs_capacity = buf_size, d_arena = a, rep_counts_offsets = [0, 0, 0, 0]\<rparr>
             data) (\<lambda>d.
           with_table (\<lambda>d t. Ok (table_view d t, d_oneofs_capacity d, d_arena d)) d)))"

definition upb_MiniTable_Build ::
    "'a md_memory \<Rightarrow> bytes \<Rightarrow> upb_MiniTablePlatform \<Rightarrow> 'a \<Rightarrow> (md_error, upb_MiniTable \<times> 'a) cres" where
  "upb_MiniTable_Build mem data platform a =
     cbind (upb_MiniTable_BuildWithBuf mem data platform 0 a) (\<lambda>(t, _, a). Ok (t, a))"

section \<open>Extensions\<close>

text \<open>\<open>extendee\<close> is the table extended and its reference. The result is the extension and what the
  descriptor goes on with, for the next one.\<close>

definition upb_MtDecoder_DoBuildMiniTableExtension ::
    "'a md_memory \<Rightarrow> 'a upb_MtDecoder \<Rightarrow> bytes \<Rightarrow> nat \<Rightarrow> upb_MiniTable \<Rightarrow> upb_MiniTableSub \<Rightarrow>
     (md_error, upb_MiniTableExtension \<times> bytes) cres" where
  "upb_MtDecoder_DoBuildMiniTableExtension mem d data extendee_ref extendee sub =
     (if mt_ext extendee AND (kUpb_ExtMode_Extendable OR kUpb_ExtMode_IsMessageSet) = 0 then Fail NotExtendable
      else
        cbind (case data of
                 [] \<Rightarrow> Ok []
               | c # cs \<Rightarrow> if c \<noteq> kUpb_EncodedVersion_ExtensionV1 then Fail (InvalidExtVersion c) else Ok cs) (\<lambda>data.
        cbind (upb_MtDecoder_Parse mem d \<lparr>submsg_count = 0, subenum_count = 0\<rparr> data) (\<lambda>(d, _, rest).
          if d_field_count d \<noteq> 1 then Fail InvalidExtension
          else cassert (d_fields d \<noteq> [])
            (let f = hd (d_fields d);
                 f = f\<lparr>f_mode := f_mode f OR kUpb_LabelFlags_IsExtension, f_offset := 0, f_presence := 0\<rparr>
             in if mt_ext extendee AND kUpb_ExtMode_IsMessageSet \<noteq> 0 \<and>
                   (\<not> upb_MiniTableField_IsSubMessage f \<or> upb_MiniTableField_IsArray f)
                then Fail InvalidExtension
                else Ok (\<lparr>ext_field = f, ext_extendee = extendee_ref, ext_sub = sub\<rparr>, rest)))))"

text \<open>There is no table and no arena in the decoder of an extension.\<close>

definition upb_MiniTableExtension_Init ::
    "bytes \<Rightarrow> nat \<Rightarrow> upb_MiniTable \<Rightarrow> upb_MiniTableSub \<Rightarrow> upb_MiniTablePlatform \<Rightarrow>
     (md_error, upb_MiniTableExtension \<times> bytes) cres" where
  "upb_MiniTableExtension_Init data extendee_ref extendee sub platform =
     upb_MtDecoder_DoBuildMiniTableExtension
       \<lparr>md_malloc = (\<lambda>_ a. (False, a)), md_shrink = (\<lambda>_ _ a. a), md_grealloc = (\<lambda>_ _ a. (False, a))\<rparr>
       \<lparr>d_table = None, d_fields = [], d_field_count = 0, d_platform = platform,
        d_oneofs = [], d_oneofs_capacity = 0, d_arena = (), rep_counts_offsets = [0, 0, 0, 0]\<rparr>
       data extendee_ref extendee sub"

text \<open>A \<open>upb_MiniTableExtension\<close> has 32 bytes.\<close>

definition upb_MiniTableExtension_Build ::
    "'a md_memory \<Rightarrow> bytes \<Rightarrow> nat \<Rightarrow> upb_MiniTable \<Rightarrow> upb_MiniTableSub \<Rightarrow> upb_MiniTablePlatform \<Rightarrow> 'a \<Rightarrow>
     (md_error, upb_MiniTableExtension \<times> 'a) cres" where
  "upb_MiniTableExtension_Build mem data extendee_ref extendee sub platform a =
     (case md_malloc mem 32 a of (ok, a) \<Rightarrow>
        (if \<not> ok then Fail OutOfMemory
         else cbind (upb_MiniTableExtension_Init data extendee_ref extendee sub platform)
                (\<lambda>(e, _). Ok (e, a))))"

end
