(* ===== verification/MtSlots.thy ===== *)
theory MtSlots
  imports MtDecode
begin

text \<open>
  Slots: the places that \<open>assign_regions\<close>, \<open>place_fields\<close> and \<open>place_oneofs\<close> of
  \<open>upb/mini_descriptor/decode.c\<close> give out. They are aligned, inside the message and apart.
\<close>

section \<open>Slots\<close>

text \<open>The code places every value in the next slot of its representation. Slot \<open>(r, k)\<close> is the
  \<open>k\<close>-th of representation \<open>r\<close>.\<close>

type_synonym slot = "nat \<times> nat"

fun alloc :: "nat list \<Rightarrow> (nat \<Rightarrow> nat) \<Rightarrow> slot list" where
  "alloc [] u = []"
| "alloc (r # rs) u = (r, u r) # alloc rs (u(r := Suc (u r)))"

lemma length_alloc [simp]: "length (alloc rs u) = length rs"
  by (induction rs arbitrary: u) auto

lemma fst_alloc: "i < length rs \<Longrightarrow> fst (alloc rs u ! i) = rs ! i"
proof (induction rs arbitrary: u i)
  case (Cons r rs)
  then show ?case by (cases i) auto
qed simp

lemma alloc_range: "(r, k) \<in> set (alloc rs u) \<Longrightarrow> u r \<le> k \<and> k < u r + count_list rs r"
proof (induction rs arbitrary: u)
  case (Cons a rs)
  then show ?case by (cases "(r, k) = (a, u a)") (auto dest!: Cons.IH split: if_splits)
qed simp

lemma distinct_alloc: "distinct (alloc rs u)"
proof (induction rs arbitrary: u)
  case (Cons a rs)
  then show ?case using alloc_range [of a "u a" rs "u(a := Suc (u a))"] by auto
qed simp

lemma alloc_append: "alloc (rs @ ss) u = alloc rs u @ alloc ss (\<lambda>r. u r + count_list rs r)"
proof (induction rs arbitrary: u)
  case (Cons a rs)
  have *: "(\<lambda>r. (u(a := Suc (u a))) r + count_list rs r) = (\<lambda>r. u r + count_list (a # rs) r)"
    by (rule ext) simp
  show ?case by (simp only: append_Cons alloc.simps Cons.IH *)
qed simp

section \<open>Regions\<close>

text \<open>The regions \<open>b r\<close> for \<open>c r\<close> slots each are aligned, in order, and end at \<open>lim\<close>.\<close>

definition regions :: "upb_MiniTablePlatform \<Rightarrow> (nat \<Rightarrow> nat) \<Rightarrow> (nat \<Rightarrow> nat) \<Rightarrow> nat \<Rightarrow> nat \<Rightarrow> nat list \<Rightarrow> bool" where
  "regions p b c bottom lim rs \<longleftrightarrow>
     (\<forall>r \<in> set rs. 0 < c r \<longrightarrow> upb_MtDecoder_AlignOfRep r p dvd b r \<and> bottom \<le> b r \<and>
        b r + upb_MtDecoder_SizeOfRep r p * c r \<le> lim) \<and>
     (\<forall>i j. i < j \<longrightarrow> j < length rs \<longrightarrow> 0 < c (rs ! i) \<longrightarrow> 0 < c (rs ! j) \<longrightarrow>
        b (rs ! i) + upb_MtDecoder_SizeOfRep (rs ! i) p * c (rs ! i) \<le> b (rs ! j))"

definition slot_off :: "upb_MiniTablePlatform \<Rightarrow> (nat \<Rightarrow> nat) \<Rightarrow> slot \<Rightarrow> nat" where
  "slot_off p b s = b (fst s) + upb_MtDecoder_SizeOfRep (fst s) p * snd s"

definition slot_size :: "upb_MiniTablePlatform \<Rightarrow> slot \<Rightarrow> nat" where
  "slot_size p s = upb_MtDecoder_SizeOfRep (fst s) p"

lemma less_4_cases: "r < (4 :: nat) \<Longrightarrow> r = 0 \<or> r = 1 \<or> r = 2 \<or> r = 3"
  by auto

lemma rep_sizes:
  assumes "r < 4"
  shows "upb_MtDecoder_AlignOfRep r p dvd upb_MtDecoder_SizeOfRep r p" "0 < upb_MtDecoder_SizeOfRep r p"
    "0 < upb_MtDecoder_AlignOfRep r p"
  using less_4_cases [OF assms]
  by (auto simp: upb_MtDecoder_AlignOfRep_def upb_MtDecoder_SizeOfRep_def numeral_2_eq_2 numeral_3_eq_3)

lemma align_up_ge: "0 < a \<Longrightarrow> n \<le> align_up n a"
proof -
  assume a: "0 < a"
  have "(n + a - 1) div a * a + (n + a - 1) mod a = n + a - 1" "(n + a - 1) mod a < a" using a by simp_all
  then have "n + a - 1 < (n + a - 1) div a * a + a" by linarith
  then show ?thesis unfolding align_up_def using a by linarith
qed

lemma align_up_dvd: "a dvd align_up n a"
  by (simp add: align_up_def)


lemma assign_regions_spec:
  "assign_regions p rs cs base = (cs', lim) \<Longrightarrow> distinct rs \<Longrightarrow> set rs \<subseteq> {..<4} \<Longrightarrow> length cs = 4 \<Longrightarrow>
    c = (\<lambda>r. unat (cs ! r)) \<Longrightarrow>
    \<exists>b. regions p b c base lim rs \<and> base \<le> lim \<and> length cs' = 4 \<and>
      (\<forall>r < 4. cs' ! r = (if r \<in> set rs \<and> 0 < c r then of_nat (b r) else cs ! r))"
proof (induction p rs cs base arbitrary: cs' lim c rule: assign_regions.induct)
  case (1 p cs base)
  then show ?case by (auto simp: regions_def)
next
  case (2 p r rs cs base)
  let ?c = "unat (cs ! r)"
  let ?base = "align_up base (upb_MtDecoder_AlignOfRep r p)"
  have r: "r < 4" using "2.prems"(3) by simp
  note sz = rep_sizes [OF r, of p]
  show ?case
  proof (cases "?c = 0")
    case True
    have *: "\<exists>b. regions p b (\<lambda>r. unat (cs ! r)) base lim rs \<and> base \<le> lim \<and> length cs' = 4 \<and>
        (\<forall>i<4. cs' ! i = (if i \<in> set rs \<and> 0 < unat (cs ! i) then of_nat (b i) else cs ! i))"
      by (rule "2.IH"(2) [OF _ _ _ _ _ _ refl]) (use 2 True in auto)
    then obtain b where b: "regions p b (\<lambda>r. unat (cs ! r)) base lim rs" "base \<le> lim" "length cs' = 4"
      "\<forall>i<4. cs' ! i = (if i \<in> set rs \<and> 0 < unat (cs ! i) then of_nat (b i) else cs ! i)" by blast
    have "regions p b c base lim (r # rs)"
      using b(1) True "2.prems"(5) unfolding regions_def
      by (auto simp: nth_Cons split: nat.splits)
    then show ?thesis using b True "2.prems"(5) by (intro exI [of _ b]) auto
  next
    case False
    define cs1 where "cs1 = cs[r := of_nat ?base :: u16]"
    have c1: "unat (cs1 ! i) = unat (cs ! i)" if "i \<in> set rs" for i
    proof -
      have "i \<noteq> r" using that "2.prems"(2) by auto
      then show ?thesis by (simp add: cs1_def)
    qed
    have "\<exists>b. regions p b (\<lambda>r. unat (cs1 ! r)) (?base + upb_MtDecoder_SizeOfRep r p * ?c) lim rs \<and>
        ?base + upb_MtDecoder_SizeOfRep r p * ?c \<le> lim \<and> length cs' = 4 \<and>
        (\<forall>i<4. cs' ! i = (if i \<in> set rs \<and> 0 < unat (cs1 ! i) then of_nat (b i) else cs1 ! i))"
      unfolding cs1_def
      by (rule "2.IH"(1) [OF refl False refl _ _ _ _ refl]) (use 2 False in \<open>auto simp: Let_def\<close>)
    then obtain b where b: "regions p b (\<lambda>r. unat (cs1 ! r)) (?base + upb_MtDecoder_SizeOfRep r p * ?c) lim rs"
      "?base + upb_MtDecoder_SizeOfRep r p * ?c \<le> lim" "length cs' = 4"
      "\<forall>i<4. cs' ! i = (if i \<in> set rs \<and> 0 < unat (cs1 ! i) then of_nat (b i) else cs1 ! i)" by blast
    define b' where "b' = b(r := ?base)"
    have b'_in: "b' i = b i" if "i \<in> set rs" for i using that "2.prems"(2) by (auto simp: b'_def)
    have ge: "base \<le> ?base" by (rule align_up_ge [OF sz(3)])
    have "regions p b' c base lim (r # rs)"
      unfolding regions_def
    proof (intro conjI ballI allI impI)
      fix i assume i: "i \<in> set (r # rs)" "0 < c i"
      show "upb_MtDecoder_AlignOfRep i p dvd b' i" "base \<le> b' i" "b' i + upb_MtDecoder_SizeOfRep i p * c i \<le> lim"
        using i b(1,2) c1 b'_in "2.prems"(5) ge align_up_dvd
        by (cases "i = r"; fastforce simp: regions_def b'_def)+
    next
      fix i j assume ij: "i < j" "j < length (r # rs)" "0 < c ((r # rs) ! i)" "0 < c ((r # rs) ! j)"
      then obtain j' where j: "j = Suc j'" "j' < length rs" by (cases j) auto
      then have mj: "rs ! j' \<in> set rs" by simp
      show "b' ((r # rs) ! i) + upb_MtDecoder_SizeOfRep ((r # rs) ! i) p * c ((r # rs) ! i) \<le> b' ((r # rs) ! j)"
      proof (cases i)
        case 0
        have "?base + upb_MtDecoder_SizeOfRep r p * ?c \<le> b (rs ! j')"
          using b(1) mj ij(4) j c1 [OF mj] "2.prems"(5) by (auto simp: regions_def)
        then show ?thesis using 0 j mj "2.prems"(5) b'_in by (simp add: b'_def)
      next
        case (Suc i')
        then have mi: "i' < length rs" "rs ! i' \<in> set rs" using ij j by auto
        have "b (rs ! i') + upb_MtDecoder_SizeOfRep (rs ! i') p * unat (cs1 ! (rs ! i')) \<le> b (rs ! j')"
          using b(1) ij j Suc mi c1 mj "2.prems"(5) by (auto simp: regions_def)
        then show ?thesis using Suc j b'_in [OF mi(2)] b'_in [OF mj] c1 [OF mi(2)] "2.prems"(5) by simp
      qed
    qed
    moreover have "cs' ! i = (if i \<in> set (r # rs) \<and> 0 < c i then of_nat (b' i) else cs ! i)" if "i < 4" for i
      using that b(4) False "2.prems"(2,4,5) c1 b'_in by (auto simp: cs1_def b'_def)
    moreover have "base \<le> lim" using ge b(2) by linarith
    ultimately show ?thesis using b(3) by blast
  qed
qed


lemma slot_inside:
  assumes "regions p b c bottom lim [0..<4]" "r < 4" "k < c r"
  shows "bottom \<le> slot_off p b (r, k)" "slot_off p b (r, k) + upb_MtDecoder_SizeOfRep r p \<le> lim"
    "upb_MtDecoder_AlignOfRep r p dvd slot_off p b (r, k)"
proof -
  have "upb_MtDecoder_SizeOfRep r p * Suc k \<le> upb_MtDecoder_SizeOfRep r p * c r" using assms(3) by (intro mult_le_mono2) simp
  moreover have r: "upb_MtDecoder_AlignOfRep r p dvd b r" "bottom \<le> b r"
    "b r + upb_MtDecoder_SizeOfRep r p * c r \<le> lim"
    using assms by (auto simp: regions_def)
  ultimately show "slot_off p b (r, k) + upb_MtDecoder_SizeOfRep r p \<le> lim" by (simp add: slot_off_def)
  show "bottom \<le> slot_off p b (r, k)" using r by (simp add: slot_off_def)
  show "upb_MtDecoder_AlignOfRep r p dvd slot_off p b (r, k)"
    using r rep_sizes(1) [OF assms(2)] by (simp add: slot_off_def)
qed

text \<open>Two intervals do not overlap.\<close>

definition apart :: "nat \<Rightarrow> nat \<Rightarrow> nat \<Rightarrow> nat \<Rightarrow> bool" where
  "apart i m j n \<longleftrightarrow> i + m \<le> j \<or> j + n \<le> i"

lemma apart_sym: "apart i m j n = apart j n i m"
  by (auto simp: apart_def)

lemma apart_mono: "apart i m j n \<Longrightarrow> m' \<le> m \<Longrightarrow> n' \<le> n \<Longrightarrow> apart i m' j n'"
  by (auto simp: apart_def)

lemma slots_apart:
  assumes "regions p b c bottom lim [0..<4]" "r < 4" "k < c r" "r' < 4" "k' < c r'" "(r, k) \<noteq> (r', k')"
  shows "apart (slot_off p b (r, k)) (upb_MtDecoder_SizeOfRep r p) (slot_off p b (r', k')) (upb_MtDecoder_SizeOfRep r' p)"
proof -
  have one: "slot_off p b (i, m) + upb_MtDecoder_SizeOfRep i p \<le> slot_off p b (j, n)"
    if "i < j" "j < 4" "m < c i" "n < c j" for i j m n
  proof -
    have "upb_MtDecoder_SizeOfRep i p * Suc m \<le> upb_MtDecoder_SizeOfRep i p * c i" using that by (intro mult_le_mono2) simp
    moreover have "\<forall>i j. i < j \<longrightarrow> j < length [0..<4] \<longrightarrow> 0 < c ([0..<4] ! i) \<longrightarrow> 0 < c ([0..<4] ! j) \<longrightarrow>
        b ([0..<4] ! i) + upb_MtDecoder_SizeOfRep ([0..<4] ! i) p * c ([0..<4] ! i) \<le> b ([0..<4] ! j)"
      using assms(1) unfolding regions_def by (rule conjunct2)
    from this [rule_format, of i j] that
    have "b i + upb_MtDecoder_SizeOfRep i p * c i \<le> b j" by simp
    ultimately show ?thesis using that by (simp add: slot_off_def)
  qed
  have same: "slot_off p b (r, m) + upb_MtDecoder_SizeOfRep r p \<le> slot_off p b (r, n)" if "m < n" for m n
  proof -
    have "upb_MtDecoder_SizeOfRep r p * Suc m \<le> upb_MtDecoder_SizeOfRep r p * n" using that by (intro mult_le_mono2) simp
    then show ?thesis by (simp add: slot_off_def)
  qed
  show ?thesis
  proof (cases r r' rule: linorder_cases)
    case less
    then show ?thesis using one [OF less] assms by (simp add: apart_def)
  next
    case greater
    then show ?thesis using one [OF greater] assms by (simp add: apart_def)
  next
    case equal
    then have "k < k' \<or> k' < k" using assms(6) by auto
    then show ?thesis using same equal by (auto simp: apart_def)
  qed
qed

section \<open>Placing\<close>

fun place_list :: "upb_MiniTablePlatform \<Rightarrow> u16 list \<Rightarrow> nat list \<Rightarrow> u16 list \<times> u16 list" where
  "place_list p rs [] = ([], rs)"
| "place_list p rs (r # reps) =
     (case upb_MtDecoder_Place p rs r of (off, rs) \<Rightarrow>
      case place_list p rs reps of (offs, rs) \<Rightarrow> (off # offs, rs))"

definition counters :: "upb_MiniTablePlatform \<Rightarrow> (nat \<Rightarrow> nat) \<Rightarrow> (nat \<Rightarrow> nat) \<Rightarrow> (nat \<Rightarrow> nat) \<Rightarrow> u16 list \<Rightarrow> bool" where
  "counters p b c u rs \<longleftrightarrow> length rs = 4 \<and>
     (\<forall>r < 4. 0 < c r \<longrightarrow> rs ! r = of_nat (b r + upb_MtDecoder_SizeOfRep r p * u r))"

lemma place_list_append:
  "place_list p rs (xs @ ys) =
    (case place_list p rs xs of (offs, rs) \<Rightarrow> case place_list p rs ys of (offs', rs) \<Rightarrow> (offs @ offs', rs))"
  by (induction xs arbitrary: rs) (auto split: prod.splits)

lemma length_place_list: "length (fst (place_list p rs reps)) = length reps"
  by (induction reps arbitrary: rs) (auto simp: upb_MtDecoder_Place_def Let_def split: prod.splits, metis fst_conv)

lemma place_list_slots:
  "counters p b c u rs \<Longrightarrow> set reps \<subseteq> {..<4} \<Longrightarrow> (\<And>r. u r + count_list reps r \<le> c r) \<Longrightarrow>
    place_list p rs reps = (offs, rs') \<Longrightarrow>
    offs = map (\<lambda>s. of_nat (slot_off p b s)) (alloc reps u) \<and> counters p b c (\<lambda>r. u r + count_list reps r) rs'"
proof (induction reps arbitrary: u rs offs rs')
  case (Cons r reps)
  have r: "r < 4" using Cons.prems(2) by simp
  have "u r + count_list (r # reps) r \<le> c r" by (rule Cons.prems(3))
  then have c: "0 < c r" by simp
  let ?rs = "rs[r := rs ! r + of_nat (upb_MtDecoder_SizeOfRep r p)]" and ?u = "u(r := Suc (u r))"
  have rsr: "rs ! r = of_nat (b r + upb_MtDecoder_SizeOfRep r p * u r)" and l: "length rs = 4"
    using Cons.prems(1) r c by (auto simp: counters_def)
  have c1: "counters p b c ?u ?rs"
    unfolding counters_def
  proof (intro conjI allI impI)
    fix i :: nat assume i: "i < 4" "0 < c i"
    show "?rs ! i = of_nat (b i + upb_MtDecoder_SizeOfRep i p * ?u i)"
      using Cons.prems(1) i l rsr by (cases "i = r") (auto simp: counters_def algebra_simps)
  qed (simp add: l)
  have c2: "?u i + count_list reps i \<le> c i" for i using Cons.prems(3) [of i] by (auto split: if_splits)
  obtain offs1 where o: "place_list p ?rs reps = (offs1, rs')" "offs = rs ! r # offs1"
    using Cons.prems(4) by (auto simp: upb_MtDecoder_Place_def split: prod.splits)
  have "set reps \<subseteq> {..<4}" using Cons.prems(2) by simp
  note IH = Cons.IH [OF c1 this c2 o(1)]
  have "(\<lambda>i. ?u i + count_list reps i) = (\<lambda>i. u i + count_list (r # reps) i)" by (rule ext) simp
  then show ?case using IH o(2) rsr by (simp only: alloc.simps list.map slot_off_def fst_conv snd_conv)
qed (simp_all add: counters_def)


definition plain :: "upb_MiniTableField \<Rightarrow> bool" where
  "plain f \<longleftrightarrow> f_offset f < kOneofBase"

fun fill :: "upb_MiniTableField list \<Rightarrow> u16 list \<Rightarrow> upb_MiniTableField list" where
  "fill [] offs = []"
| "fill (f # fs) offs =
     (if plain f then f\<lparr>f_offset := hd offs\<rparr> # fill fs (tl offs) else f # fill fs offs)"

definition plain_reps :: "upb_MiniTableField list \<Rightarrow> nat list" where
  "plain_reps fs = map upb_MiniTableField_GetRep (filter plain fs)"

lemma place_fields_from:
  "place_list p rs (plain_reps fs) = (offs, rs') \<Longrightarrow>
    fold (\<lambda>f (fs, rs).
       if f_offset f \<ge> kOneofBase then (fs @ [f], rs)
       else (case upb_MtDecoder_Place p rs (upb_MiniTableField_GetRep f) of (off, rs) \<Rightarrow>
               (fs @ [f\<lparr>f_offset := off\<rparr>], rs))) fs (acc, rs) = (acc @ fill fs offs, rs')"
proof (induction fs arbitrary: rs acc offs)
  case (Cons f fs)
  then show ?case by (auto simp: plain_reps_def plain_def split: prod.splits)
qed (simp add: plain_reps_def)

lemma place_fields_eq:
  "place_list p rs (plain_reps fs) = (offs, rs') \<Longrightarrow> place_fields p fs rs = (fill fs offs, rs')"
  unfolding place_fields_def using place_fields_from [where acc = "[]"] by simp

lemma length_fill [simp]: "length (fill fs offs) = length fs"
  by (induction fs arbitrary: offs) auto

lemma fill_nth:
  "i < length fs \<Longrightarrow> length (filter plain fs) \<le> length offs \<Longrightarrow> fill fs offs ! i =
    (if plain (fs ! i) then (fs ! i)\<lparr>f_offset := offs ! length (filter plain (take i fs))\<rparr> else fs ! i)"
proof (induction fs arbitrary: offs i)
  case (Cons f fs)
  show ?case
  proof (cases i)
    case 0
    then show ?thesis using Cons.prems by (cases offs) auto
  next
    case (Suc j)
    then show ?thesis using Cons.prems Cons.IH [of j "tl offs"] Cons.IH [of j offs] by (cases offs) auto
  qed
qed simp

text \<open>The members of a oneof are linked through their offsets, from the last parsed to the first.\<close>

fun chain :: "upb_MiniTableField list \<Rightarrow> nat list \<Rightarrow> bool" where
  "chain fs [] = True"
| "chain fs [m] \<longleftrightarrow> m < length fs \<and> f_offset (fs ! m) = kUpb_OneOfLayoutItem_IndexSentinel"
| "chain fs (m # m' # ms) \<longleftrightarrow>
     m < length fs \<and> m' < 60000 \<and> f_offset (fs ! m) = of_nat (m' + 3) \<and> chain fs (m' # ms)"

lemma chain_cong:
  "chain fs ms \<Longrightarrow> length fs = length fs' \<Longrightarrow> (\<And>m. m \<in> set ms \<Longrightarrow> f_offset (fs' ! m) = f_offset (fs ! m)) \<Longrightarrow>
    chain fs' ms"
  by (induction fs ms rule: chain.induct) auto

lemma chain_bound: "chain fs ms \<Longrightarrow> m \<in> set ms \<Longrightarrow> m < length fs"
  by (induction fs ms rule: chain.induct) auto

lemma link_index: "m < 60000 \<Longrightarrow> unat (of_nat (m + 3) - 3 :: u16) = m" "m < 60000 \<Longrightarrow> of_nat (m + 3) \<noteq> (- 1 :: u16)"
proof -
  assume m: "m < 60000"
  show "unat (of_nat (m + 3) - 3 :: u16) = m" using m by (simp add: unat_of_nat)
  have "unat (of_nat (m + 3) :: u16) = m + 3" using m by (simp add: unat_of_nat del: of_nat_add)
  moreover have "unat (- 1 :: u16) = 65535" by (simp only: unsigned_minus_1_eq_mask mask_eq_exp_minus_1) simp
  ultimately have "unat (of_nat (m + 3) :: u16) \<noteq> unat (- 1 :: u16)" using m by linarith
  then show "of_nat (m + 3) \<noteq> (- 1 :: u16)" by (rule contrapos_nn) (rule arg_cong)
qed

lemma place_members_spec:
  "chain fs (m # ms) \<Longrightarrow> distinct (m # ms) \<Longrightarrow> length (m # ms) \<le> n \<Longrightarrow>
    \<exists>fs'. place_members n fs m c d = Ok fs' \<and> length fs' = length fs \<and>
      (\<forall>i < length fs. fs' ! i = (if i \<in> set (m # ms) then (fs ! i)\<lparr>f_presence := NOT c, f_offset := d\<rparr> else fs ! i))"
proof (induction ms arbitrary: fs m n)
  case Nil
  then obtain n' where "n = Suc n'" by (cases n) auto
  then show ?case using Nil by (auto simp: nth_list_update)
next
  case (Cons m' ms)
  from Cons.prems(3) obtain n' where n: "n = Suc n'" by (cases n) auto
  let ?fs = "fs[m := (fs ! m)\<lparr>f_presence := NOT c, f_offset := d\<rparr>]"
  have m: "m < length fs" "m' < 60000" "f_offset (fs ! m) = of_nat (m' + 3)" "chain fs (m' # ms)"
    using Cons.prems(1) by auto
  have "chain ?fs (m' # ms)" 
  proof (rule chain_cong [OF m(4)])
    fix i assume "i \<in> set (m' # ms)"
    then have "i \<noteq> m" using Cons.prems(2) by auto
    then show "f_offset (?fs ! i) = f_offset (fs ! i)" by simp
  qed simp
  then obtain fs' where "place_members n' ?fs m' c d = Ok fs'" "length fs' = length ?fs"
    "\<forall>i < length ?fs. fs' ! i = (if i \<in> set (m' # ms) then (?fs ! i)\<lparr>f_presence := NOT c, f_offset := d\<rparr> else ?fs ! i)"
    using Cons.IH [of ?fs m' n'] Cons.prems(2,3) n by auto
  then show ?case
    using m link_index [OF m(2)] Cons.prems(2)
    by (intro exI [of _ fs']) (auto simp: n Let_def kUpb_OneOfLayoutItem_IndexSentinel_def kOneofBase_def nth_list_update)
qed

fun oneof_reps :: "upb_OneOfLayoutItem list \<Rightarrow> nat list" where
  "oneof_reps [] = []"
| "oneof_reps (item # items) = kUpb_OneOf_CaseFieldRep # oi_rep item # oneof_reps items"

lemma length_oneof_reps [simp]: "length (oneof_reps items) = 2 * length items"
  by (induction items) auto

text \<open>\<open>mss\<close> are the members of the oneofs.\<close>

definition oneof_ok :: "upb_MiniTableField list \<Rightarrow> upb_OneOfLayoutItem \<Rightarrow> nat list \<Rightarrow> bool" where
  "oneof_ok fs item ms \<longleftrightarrow> ms \<noteq> [] \<and> hd ms < 60000 \<and> oi_field_index item = of_nat (hd ms) \<and> chain fs ms \<and> distinct ms"

lemma oneof_ok_cong:
  "oneof_ok fs item ms \<Longrightarrow> length fs = length fs' \<Longrightarrow> (\<And>m. m \<in> set ms \<Longrightarrow> f_offset (fs' ! m) = f_offset (fs ! m)) \<Longrightarrow>
    oneof_ok fs' item ms"
  by (auto simp: oneof_ok_def intro: chain_cong)

lemma oneofs_cong:
  assumes "list_all2 (oneof_ok fs) items mss" "length fs' = length fs"
    "\<And>m. m \<in> set (concat mss) \<Longrightarrow> f_offset (fs' ! m) = f_offset (fs ! m)"
  shows "list_all2 (oneof_ok fs') items mss"
proof (rule list.rel_mono_strong [OF assms(1)])
  fix item ms assume "ms \<in> set mss" "oneof_ok fs item ms"
  then show "oneof_ok fs' item ms" using assms(2,3) by (intro oneof_ok_cong [of fs item ms fs']) auto
qed

lemma oneofs_bound: "list_all2 (oneof_ok fs) items mss \<Longrightarrow> i \<in> set (concat mss) \<Longrightarrow> i < length fs"
  by (induction rule: list_all2_induct) (auto simp: oneof_ok_def dest: chain_bound)

lemma place_oneofs_spec:
  "list_all2 (oneof_ok fs) items mss \<Longrightarrow> distinct (concat mss) \<Longrightarrow>
    place_list p rs (oneof_reps items) = (offs, rs') \<Longrightarrow>
    \<exists>fs'. place_oneofs p items fs rs = Ok (fs', rs') \<and> length fs' = length fs \<and>
      (\<forall>k < length mss. \<forall>m \<in> set (mss ! k).
         fs' ! m = (fs ! m)\<lparr>f_presence := NOT (offs ! (2 * k)), f_offset := offs ! (2 * k + 1)\<rparr>) \<and>
      (\<forall>i < length fs. i \<notin> set (concat mss) \<longrightarrow> fs' ! i = fs ! i)"
proof (induction items arbitrary: fs mss rs offs)
  case Nil
  then show ?case by (simp add: place_oneofs_def)
next
  case (Cons item items)
  then obtain ms mss' where mss: "mss = ms # mss'" "oneof_ok fs item ms" "list_all2 (oneof_ok fs) items mss'"
    by (auto simp: list_all2_Cons1)
  obtain c rs1 where c: "upb_MtDecoder_Place p rs kUpb_OneOf_CaseFieldRep = (c, rs1)" by force
  obtain d rs2 where d: "upb_MtDecoder_Place p rs1 (oi_rep item) = (d, rs2)" by force
  obtain offs1 where o: "place_list p rs2 (oneof_reps items) = (offs1, rs')" "offs = c # d # offs1"
    using Cons.prems(3) c d by (auto split: prod.splits)
  from mss(2) obtain m ms' where ms: "ms = m # ms'" "unat (oi_field_index item) = m" "chain fs (m # ms')" "distinct (m # ms')"
    by (cases ms) (auto simp: oneof_ok_def unat_of_nat)
  have "set ms \<subseteq> {..<length fs}" using chain_bound [OF ms(3)] ms(1) by auto
  then have "card (set ms) \<le> length fs" by (metis card_lessThan card_mono finite_lessThan)
  then have "length (m # ms') \<le> length fs" using ms(1,4) distinct_card [of ms] by simp
  from place_members_spec [OF ms(3,4) this, of c d]
  obtain fs1 where fs1: "place_members (length fs) fs m c d = Ok fs1" "length fs1 = length fs"
    "\<forall>i < length fs. fs1 ! i = (if i \<in> set ms then (fs ! i)\<lparr>f_presence := NOT c, f_offset := d\<rparr> else fs ! i)"
    using ms(1) by auto
  have other: "fs1 ! i = fs ! i" if "i \<in> set (concat mss')" "i < length fs" for i
    using that fs1(3) Cons.prems(2) mss(1) by auto
  have "list_all2 (oneof_ok fs1) items mss'"
    using oneofs_bound [OF mss(3)] by (intro oneofs_cong [OF mss(3)]) (simp_all only: fs1(2) other)
  moreover have "distinct (concat mss')" using Cons.prems(2) mss(1) by simp
  ultimately obtain fs' where fs': "place_oneofs p items fs1 rs2 = Ok (fs', rs')" "length fs' = length fs1"
    "\<forall>k < length mss'. \<forall>m \<in> set (mss' ! k).
        fs' ! m = (fs1 ! m)\<lparr>f_presence := NOT (offs1 ! (2 * k)), f_offset := offs1 ! (2 * k + 1)\<rparr>"
    "\<forall>i < length fs1. i \<notin> set (concat mss') \<longrightarrow> fs' ! i = fs1 ! i"
    using Cons.IH [OF _ _ o(1)] by blast
  have run: "place_oneofs p (item # items) fs rs = Ok (fs', rs')"
    using fs'(1) fs1(1) by (simp add: place_oneofs_def c d ms(2))
  note bound = oneofs_bound [OF mss(3)]
  have "fs' ! i = (fs ! i)\<lparr>f_presence := NOT (offs ! (2 * k)), f_offset := offs ! (2 * k + 1)\<rparr>"
    if k: "k < length mss" "i \<in> set (mss ! k)" for k i
  proof (cases k)
    case 0
    have "i < length fs" "i \<in> set ms" using k 0 mss(1) ms chain_bound [OF ms(3)] by auto
    moreover have "i \<notin> set (concat mss')" using calculation(2) Cons.prems(2) mss(1) by auto
    ultimately show ?thesis using fs'(2,4) fs1(2,3) o(2) 0 by simp
  next
    case (Suc j)
    then have j: "j < length mss'" "i \<in> set (mss' ! j)" using k mss(1) by auto
    then have i: "i \<in> set (concat mss')" by auto
    then have "i < length fs" by (rule bound)
    then show ?thesis using fs'(3) j other [OF i] o(2) Suc by simp
  qed
  moreover have "fs' ! i = fs ! i" if "i < length fs" "i \<notin> set (concat mss)" for i
    using that fs'(2,4) fs1(2,3) mss(1) by auto
  ultimately show ?case using run fs'(2) fs1(2) by auto
qed

end
