(* ===== verification/MtParsed.thy ===== *)
theory MtParsed
  imports MtSlots
begin

text \<open>
  What parsing a mini descriptor (\<open>upb_MtDecoder_Parse\<close>) leaves behind for the layout: the classes of
  the fields outside oneofs, and the lists that link the members of the oneofs.
\<close>

section \<open>What parsing leaves behind\<close>

text \<open>The value of a member fits into the slot that its oneof gets.\<close>

definition fits :: "upb_MiniTablePlatform \<Rightarrow> nat \<Rightarrow> nat \<Rightarrow> bool" where
  "fits p r r' \<longleftrightarrow> upb_MtDecoder_SizeOfRep r p \<le> upb_MtDecoder_SizeOfRep r' p \<and>
     upb_MtDecoder_AlignOfRep r p dvd upb_MtDecoder_AlignOfRep r' p"

lemma GetRep_less [simp]: "upb_MiniTableField_GetRep f < 4"
  using div_less_iff_less_mult [of 64 "unat (f_mode f)" 4] unsigned_less [of "f_mode f", where ?'a = nat]
  by (simp add: upb_MiniTableField_GetRep_def field_mode_defs unat_drop_bit_eq drop_bit_eq_div unat_div)

lemma align_le_dvd:
  assumes "r < 4" "r' < 4" "upb_MtDecoder_AlignOfRep r p \<le> upb_MtDecoder_AlignOfRep r' p"
  shows "upb_MtDecoder_AlignOfRep r p dvd upb_MtDecoder_AlignOfRep r' p"
  using less_4_cases [OF assms(1)] less_4_cases [OF assms(2)] assms(3)
  by (auto simp: upb_MtDecoder_AlignOfRep_def numeral_2_eq_2 numeral_3_eq_3 split: if_splits)

lemma fits_refl [simp]: "fits p r r"
  by (simp add: fits_def)

lemma fits_trans: "fits p r r' \<Longrightarrow> fits p r' r'' \<Longrightarrow> fits p r r''"
  by (auto simp: fits_def intro: dvd_trans)

text \<open>The fields outside oneofs hold a class in their offset, those inside the link to the member
  parsed before. \<open>ms\<close> are the members of the oneof that is being parsed.\<close>

definition parsed :: "upb_MiniTablePlatform \<Rightarrow> upb_MiniTableField list \<Rightarrow> upb_OneOfLayoutItem list \<Rightarrow> nat list list \<Rightarrow> bool" where
  "parsed p fs items mss \<longleftrightarrow>
     list_all2 (oneof_ok fs) items mss \<and> distinct (concat mss) \<and>
     (\<forall>f \<in> set fs. f_presence f = 0) \<and>
     (\<forall>i < length fs. i \<notin> set (concat mss) \<longrightarrow> f_offset (fs ! i) < kOneofBase) \<and>
     (\<forall>item \<in> set items. oi_rep item < 4) \<and>
     list_all2 (\<lambda>item ms. \<forall>m \<in> set ms. fits p (upb_MiniTableField_GetRep (fs ! m)) (oi_rep item)) items mss"

definition rep_counts_of :: "upb_OneOfLayoutItem list \<Rightarrow> u16 list" where
  "rep_counts_of items = map (\<lambda>r. of_nat (count_list (oneof_reps items) r)) [0..<4]"

definition open_oneof :: "upb_MiniTablePlatform \<Rightarrow> upb_MiniTableField list \<Rightarrow> upb_OneOfLayoutItem \<Rightarrow> nat list \<Rightarrow> bool" where
  "open_oneof p fs item ms \<longleftrightarrow> oi_rep item < 4 \<and>
     (if ms = [] then oi_field_index item = kUpb_OneOfLayoutItem_IndexSentinel
      else hd ms < 60000 \<and> oi_field_index item = of_nat (hd ms + 3) \<and> chain fs ms \<and> distinct ms) \<and>
     (\<forall>m \<in> set ms. fits p (upb_MiniTableField_GetRep (fs ! m)) (oi_rep item))"

lemma oneof_reps_append [simp]: "oneof_reps (xs @ ys) = oneof_reps xs @ oneof_reps ys"
  by (induction xs) auto

lemma count_list_append [simp]: "count_list (xs @ ys) r = count_list xs r + count_list ys r"
  by (induction xs) auto

lemma incr_rep_counts:
  "oi_rep item < 4 \<Longrightarrow> incr_rep (oi_rep item) (incr_rep kUpb_OneOf_CaseFieldRep (rep_counts_of items)) =
    rep_counts_of (items @ [item])"
  by (cases "oi_rep item = 1") (auto simp: incr_rep_def rep_counts_of_def list_eq_iff_nth_eq nth_list_update
      field_mode_defs kUpb_OneOf_CaseFieldRep_def)

lemma PushOneof_parsed:
  assumes "upb_MtDecoder_PushOneof mem d item = Ok d'" "open_oneof p (d_fields d) item ms"
    "rep_counts_offsets d = rep_counts_of (d_oneofs d)"
  shows "ms \<noteq> []" "d_fields d' = d_fields d" "d_oneofs d' = d_oneofs d @ [item\<lparr>oi_field_index := of_nat (hd ms)\<rparr>]"
    "rep_counts_offsets d' = rep_counts_of (d_oneofs d')" "d_table d' = d_table d" "d_platform d' = d_platform d"
    "d_field_count d' = d_field_count d"
proof -
  have idx: "oi_field_index item - kOneofBase = of_nat (hd ms)" if "ms \<noteq> []"
    using that assms(2) by (simp add: open_oneof_def kOneofBase_def)
  have r: "oi_rep item < 4" using assms(2) by (simp add: open_oneof_def)
  note push = assms(1) [unfolded upb_MtDecoder_PushOneof_def]
  show ms: "ms \<noteq> []" using push assms(2) by (auto simp: open_oneof_def split: if_splits)
  show "d_fields d' = d_fields d" "d_table d' = d_table d" "d_platform d' = d_platform d"
    "d_field_count d' = d_field_count d"
    using push by (auto simp: cres_simps Let_def split: if_splits prod.splits)
  show o: "d_oneofs d' = d_oneofs d @ [item\<lparr>oi_field_index := of_nat (hd ms)\<rparr>]"
    using push idx [OF ms] by (auto simp: cres_simps Let_def split: if_splits prod.splits)
  have "rep_counts_offsets d' = incr_rep (oi_rep item) (incr_rep kUpb_OneOf_CaseFieldRep (rep_counts_offsets d))"
    using push by (auto simp: cres_simps Let_def split: if_splits prod.splits)
  then show "rep_counts_offsets d' = rep_counts_of (d_oneofs d')"
    using o incr_rep_counts [of "item\<lparr>oi_field_index := of_nat (hd ms)\<rparr>"] r assms(3) by simp
qed

lemma find_loop_bound:
  "find_loop fs num lo hi = (Ok r :: (md_error, nat option) cres) \<Longrightarrow> r = Some i \<Longrightarrow> i < length fs"
proof (induction fs num lo hi arbitrary: r rule: find_loop.induct)
  case (1 fs num lo hi)
  from "1.prems"(1) [unfolded find_loop.simps [of fs num lo hi]] "1.prems"(2) "1.IH" show ?case
    by (auto simp: cres_simps Let_def split: if_splits)
qed

lemma FindField_bound:
  "upb_MiniTable_FindFieldByNumber t num = (Ok (Some i) :: (md_error, nat option) cres) \<Longrightarrow> i < length (mt_fields t)"
  by (auto simp: upb_MiniTable_FindFieldByNumber_def cres_simps Let_def split: if_splits dest: find_loop_bound)

lemma chain_offset: "chain fs ms \<Longrightarrow> m \<in> set ms \<Longrightarrow> kOneofBase \<le> f_offset (fs ! m)"
proof (induction fs ms rule: chain.induct)
  case (2 fs m)
  then show ?case by (simp add: kUpb_OneOfLayoutItem_IndexSentinel_def)
next
  case (3 fs m m' ms)
  have "kOneofBase \<le> of_nat (m' + 3)" if "m' < 60000"
    using that by (simp add: kOneofBase_def word_le_nat_alt unat_of_nat del: of_nat_add)
  then show ?case using 3 by auto
qed simp

text \<open>The state between two characters of the list of oneofs.\<close>

definition parsing ::
    "upb_MiniTablePlatform \<Rightarrow> upb_MiniTableField list \<Rightarrow> upb_OneOfLayoutItem list \<Rightarrow> nat list list \<Rightarrow>
     upb_OneOfLayoutItem \<Rightarrow> nat list \<Rightarrow> bool" where
  "parsing p fs items mss item ms \<longleftrightarrow>
     list_all2 (oneof_ok fs) items mss \<and> distinct (concat mss @ ms) \<and>
     (\<forall>f \<in> set fs. f_presence f = 0) \<and>
     (\<forall>i < length fs. i \<notin> set (concat mss @ ms) \<longrightarrow> f_offset (fs ! i) < kOneofBase) \<and>
     (\<forall>item \<in> set items. oi_rep item < 4) \<and>
     list_all2 (\<lambda>item ms. \<forall>m \<in> set ms. fits p (upb_MiniTableField_GetRep (fs ! m)) (oi_rep item)) items mss \<and>
     open_oneof p fs item ms"

lemma parsing_member: "parsing p fs items mss item ms \<Longrightarrow> i \<in> set (concat mss @ ms) \<Longrightarrow> kOneofBase \<le> f_offset (fs ! i)"
proof -
  assume p: "parsing p fs items mss item ms" and i: "i \<in> set (concat mss @ ms)"
  show ?thesis
  proof (cases "i \<in> set ms")
    case True
    then have "chain fs ms" using p by (auto simp: parsing_def open_oneof_def split: if_splits)
    then show ?thesis using True by (rule chain_offset)
  next
    case False
    then obtain ys where "ys \<in> set mss" "i \<in> set ys" using i by auto
    then have "chain fs ys" using p by (auto simp: parsing_def list_all2_conv_all_nth in_set_conv_nth oneof_ok_def)
    then show ?thesis using \<open>i \<in> set ys\<close> by (rule chain_offset)
  qed
qed

lemma parsing_close:
  assumes "parsing p fs items mss item ms" "ms \<noteq> []"
  shows "parsed p fs (items @ [item\<lparr>oi_field_index := of_nat (hd ms)\<rparr>]) (mss @ [ms])"
  using assms by (auto simp: parsing_def parsed_def open_oneof_def oneof_ok_def intro!: list_all2_appendI)

lemma parsed_parsing:
  "parsed p fs items mss \<Longrightarrow> oi_rep item < 4 \<Longrightarrow> oi_field_index item = kUpb_OneOfLayoutItem_IndexSentinel \<Longrightarrow>
    parsing p fs items mss item []"
  by (simp add: parsing_def parsed_def open_oneof_def)

lemma cassert_item:
  "cbind (if b then cassert c (Ok x) else cassert c' (Ok y)) g = (Ok r :: (md_error, 'r) cres) \<Longrightarrow>
    (if b then c \<and> g x = Ok r else c' \<and> g y = Ok r)"
  by (auto simp: cres_simps split: if_splits)

lemma parsing_member_added:
  assumes P: "parsing p fs items mss item ms" and i: "i < length fs" "length fs < 60000"
    and o: "f_offset (fs ! i) = kHasbitPresence"
    and item': "oi_rep item' < 4" "fits p (oi_rep item) (oi_rep item')"
      "fits p (upb_MiniTableField_GetRep (fs ! i)) (oi_rep item')" "oi_field_index item' = of_nat i + kOneofBase"
  shows "parsing p (fs[i := (fs ! i)\<lparr>f_offset := oi_field_index item\<rparr>]) items mss item' (i # ms)"
proof -
  let ?fs = "fs[i := (fs ! i)\<lparr>f_offset := oi_field_index item\<rparr>]"
  have new: "i \<notin> set (concat mss @ ms)"
  proof
    assume "i \<in> set (concat mss @ ms)"
    from parsing_member [OF P this] o show False by (simp add: kOneofBase_def kHasbitPresence_def word_le_nat_alt)
  qed
  have off: "f_offset (?fs ! j) = f_offset (fs ! j)" if "j \<in> set (concat mss @ ms)" for j
    using that new by (cases "j = i") auto
  have rep: "upb_MiniTableField_GetRep (?fs ! j) = upb_MiniTableField_GetRep (fs ! j)" for j
    using i by (cases "j = i") (auto simp: upb_MiniTableField_GetRep_def)
  have closed: "list_all2 (oneof_ok fs) items mss" using P by (simp add: parsing_def)
  have "list_all2 (oneof_ok ?fs) items mss"
    by (rule oneofs_cong [OF closed]) (simp, rule off, simp)
  moreover have "chain ?fs (i # ms)"
  proof (cases ms)
    case Nil
    then show ?thesis using P i by (simp add: parsing_def open_oneof_def)
  next
    case (Cons m ms')
    have c: "chain fs ms" "hd ms < 60000" "oi_field_index item = of_nat (hd ms + 3)"
      using P Cons by (auto simp: parsing_def open_oneof_def)
    have "chain ?fs ms" by (rule chain_cong [OF c(1)]) (auto intro: off)
    then show ?thesis using Cons c i by simp
  qed
  moreover have "f_offset (?fs ! j) < kOneofBase" if "j < length ?fs" "j \<notin> set (concat mss @ i # ms)" for j
    using that P by (simp add: parsing_def)
  moreover have "f_presence f = 0" if "f \<in> set ?fs" for f
    using that P i by (auto simp: parsing_def dest!: set_update_subset_insert [THEN subsetD])
  moreover have "fits p (upb_MiniTableField_GetRep (?fs ! m)) (oi_rep item')" if "m \<in> set (i # ms)" for m
    using that P item' fits_trans [OF _ item'(2)] unfolding rep by (auto simp: parsing_def open_oneof_def)
  moreover have "distinct (concat mss @ i # ms)" using P new by (auto simp: parsing_def)
  ultimately show ?thesis
    using P item' i new rep by (simp add: parsing_def open_oneof_def kOneofBase_def)
qed

lemma DecodeOneofField_cases:
  fixes item :: upb_OneOfLayoutItem
  assumes "upb_MtDecoder_DecodeOneofField d t rest ch item = Ok (d', item', rest')"
  obtains i where "i < length (d_fields d)" "f_offset (d_fields d ! i) = kHasbitPresence"
    "d' = d\<lparr>d_fields := (d_fields d)[i := (d_fields d ! i)\<lparr>f_offset := oi_field_index item\<rparr>]\<rparr>"
    "oi_field_index item' = of_nat i + kOneofBase"
    "oi_rep item' = upb_MiniTableField_GetRep (d_fields d ! i) \<and>
       upb_MtDecoder_SizeOfRep (oi_rep item) (d_platform d) \<le> upb_MtDecoder_SizeOfRep (oi_rep item') (d_platform d) \<and>
       upb_MtDecoder_AlignOfRep (oi_rep item) (d_platform d) \<le> upb_MtDecoder_AlignOfRep (oi_rep item') (d_platform d) \<or>
     oi_rep item' = oi_rep item \<and>
       upb_MtDecoder_SizeOfRep (upb_MiniTableField_GetRep (d_fields d ! i)) (d_platform d) \<le>
         upb_MtDecoder_SizeOfRep (oi_rep item) (d_platform d) \<and>
       upb_MtDecoder_AlignOfRep (upb_MiniTableField_GetRep (d_fields d ! i)) (d_platform d) \<le>
         upb_MtDecoder_AlignOfRep (oi_rep item) (d_platform d)"
proof -
  from assms obtain n i r where o': "upb_MiniTable_FindFieldByNumber (table_view d t) n = (Ok (Some i) :: (md_error, nat option) cres)"
    and run: "f_offset (d_fields d ! i) = kHasbitPresence"
      "grow_rep (d_platform d) (upb_MiniTableField_GetRep (d_fields d ! i)) item = Ok r"
      "d' = d\<lparr>d_fields := (d_fields d)[i := (d_fields d ! i)\<lparr>f_offset := oi_field_index r\<rparr>]\<rparr>"
      "item' = r\<lparr>oi_field_index := of_nat i + kOneofBase\<rparr>"
    unfolding upb_MtDecoder_DecodeOneofField_def
    by (auto simp: cbind_Ok_iff Let_def split: option.splits if_splits)
  have "i < length (d_fields d)" using FindField_bound [OF o'] by (simp add: table_view_def)
  then show thesis
    using run by (intro that [of i]) (auto simp: grow_rep_def Let_def cres_simps split: if_split_asm)
qed

lemma DecodeOneofField_parsing:
  assumes run: "upb_MtDecoder_DecodeOneofField d t rest ch item = Ok (d', item', rest')"
    and P: "parsing (d_platform d) (d_fields d) (d_oneofs d) mss item ms" and l: "length (d_fields d) < 60000"
  shows "\<exists>i fs. d' = d\<lparr>d_fields := fs\<rparr> \<and> length fs = length (d_fields d) \<and>
    parsing (d_platform d) fs (d_oneofs d) mss item' (i # ms)"
proof -
  from run obtain i where i: "i < length (d_fields d)" "f_offset (d_fields d ! i) = kHasbitPresence"
    "d' = d\<lparr>d_fields := (d_fields d)[i := (d_fields d ! i)\<lparr>f_offset := oi_field_index item\<rparr>]\<rparr>"
    "oi_field_index item' = of_nat i + kOneofBase"
    and f: "fits (d_platform d) (oi_rep item) (oi_rep item')"
      "fits (d_platform d) (upb_MiniTableField_GetRep (d_fields d ! i)) (oi_rep item')" "oi_rep item' < 4"
  proof (rule DecodeOneofField_cases, goal_cases)
    case (1 i)
    have "oi_rep item < 4" using P by (simp add: parsing_def open_oneof_def)
    then show ?case
      using 1(6) by (intro 1(1) [OF 1(2-5)]) (auto simp: fits_def intro: align_le_dvd)
  qed
  show ?thesis
    using parsing_member_added [OF P i(1) l i(2) f(3) f(1,2) i(4)] i(3)
    by (intro exI [of _ i] exI conjI) auto
qed

lemma decode_oneofs_parsing:
  "decode_oneofs_loop mem d t rest item = Ok (d', item') \<Longrightarrow>
    parsing (d_platform d) (d_fields d) (d_oneofs d) mss item ms \<Longrightarrow> length (d_fields d) < 60000 \<Longrightarrow>
    rep_counts_offsets d = rep_counts_of (d_oneofs d) \<Longrightarrow>
    \<exists>mss' ms'. parsing (d_platform d') (d_fields d') (d_oneofs d') mss' item' ms' \<and>
      rep_counts_offsets d' = rep_counts_of (d_oneofs d') \<and> length (d_fields d') = length (d_fields d) \<and>
      d_table d' = d_table d \<and> d_platform d' = d_platform d \<and> d_field_count d' = d_field_count d"
proof (induction mem d t rest item arbitrary: mss ms rule: decode_oneofs_loop.induct)
  case (1 mem d t item)
  then show ?case by auto
next
  case (2 mem d t ch rest item)
  consider "ch = kUpb_EncodedValue_FieldSeparator"
    | "ch \<noteq> kUpb_EncodedValue_FieldSeparator" "ch = kUpb_EncodedValue_OneofSeparator"
    | "ch \<noteq> kUpb_EncodedValue_FieldSeparator" "ch \<noteq> kUpb_EncodedValue_OneofSeparator" by blast
  then show ?case
  proof cases
    case 1
    then show ?thesis by (intro "2.IH"(1) [OF 1]) (use "2.prems" in simp_all)
  next
    case 2
    let ?item = "item\<lparr>oi_field_index := kUpb_OneOfLayoutItem_IndexSentinel\<rparr>"
    from "2.prems"(1) 2 obtain d1 where d1: "upb_MtDecoder_PushOneof mem d item = Ok d1"
      "decode_oneofs_loop mem d1 t rest ?item = Ok (d', item')" by (auto simp: cres_simps)
    have o: "open_oneof (d_platform d) (d_fields d) item ms" using "2.prems"(2) by (simp add: parsing_def)
    note push = PushOneof_parsed [OF d1(1) o "2.prems"(4)]
    have "parsing (d_platform d1) (d_fields d1) (d_oneofs d1) (mss @ [ms]) ?item []"
      using parsed_parsing [OF parsing_close [OF "2.prems"(2) push(1)], of ?item] o push
      by (simp add: open_oneof_def)
    from "2.IH"(2) [OF 2 d1 this] push "2.prems"(3)
    obtain mss' ms' where "parsing (d_platform d') (d_fields d') (d_oneofs d') mss' item' ms'"
      "rep_counts_offsets d' = rep_counts_of (d_oneofs d')" "length (d_fields d') = length (d_fields d)"
      "d_table d' = d_table d" "d_platform d' = d_platform d" "d_field_count d' = d_field_count d"
      by auto
    then show ?thesis by (intro exI [of _ mss'] exI [of _ ms'] conjI)
  next
    case 3
    from "2.prems"(1) 3 obtain d1 item1 rest1 where d1: "upb_MtDecoder_DecodeOneofField d t rest ch item = Ok (d1, item1, rest1)"
      "decode_oneofs_loop mem d1 t rest1 item1 = Ok (d', item')" by (auto simp: cres_simps)
    from DecodeOneofField_parsing [OF d1(1) "2.prems"(2,3)] obtain i fs where i: "d1 = d\<lparr>d_fields := fs\<rparr>"
      "length fs = length (d_fields d)" "parsing (d_platform d) fs (d_oneofs d) mss item1 (i # ms)" by blast
    from "2.IH"(3) [OF 3 d1(1) refl refl d1(2), of mss "i # ms"] i "2.prems"(3,4)
    obtain mss' ms' where "parsing (d_platform d') (d_fields d') (d_oneofs d') mss' item' ms'"
      "rep_counts_offsets d' = rep_counts_of (d_oneofs d')" "length (d_fields d') = length (d_fields d)"
      "d_table d' = d_table d" "d_platform d' = d_platform d" "d_field_count d' = d_field_count d"
      by auto
    then show ?thesis by (intro exI [of _ mss'] exI [of _ ms'] conjI)
  qed
qed

definition oneofs_parsed :: "'a upb_MtDecoder \<Rightarrow> bool" where
  "oneofs_parsed d \<longleftrightarrow> (\<exists>mss. parsed (d_platform d) (d_fields d) (d_oneofs d) mss) \<and>
     rep_counts_offsets d = rep_counts_of (d_oneofs d)"

lemma oneofs_parsed_empty:
  "d_oneofs d = [] \<Longrightarrow> rep_counts_offsets d = [0, 0, 0, 0] \<Longrightarrow>
    \<forall>f \<in> set (d_fields d). f_presence f = 0 \<and> f_offset f < kOneofBase \<Longrightarrow> oneofs_parsed d"
  by (auto simp: oneofs_parsed_def parsed_def rep_counts_of_def eval_nat_numeral intro!: exI [of _ "[]"])

lemma DecodeOneofs_parsed:
  assumes "upb_MtDecoder_DecodeOneofs mem d t rest = Ok d'" "oneofs_parsed d" "d_oneofs d = []"
    "length (d_fields d) < 60000"
  shows "oneofs_parsed d'" "length (d_fields d') = length (d_fields d)" "d_table d' = d_table d"
    "d_platform d' = d_platform d" "d_field_count d' = d_field_count d"
proof -
  let ?item = "\<lparr>oi_field_index = kUpb_OneOfLayoutItem_IndexSentinel, oi_rep = 0\<rparr>"
  from assms(1) obtain d1 item where d1: "decode_oneofs_loop mem d t rest ?item = Ok (d1, item)"
    "upb_MtDecoder_PushOneof mem d1 item = Ok d'"
    by (auto simp: upb_MtDecoder_DecodeOneofs_def cres_simps)
  from assms(2,3) obtain mss where "parsed (d_platform d) (d_fields d) (d_oneofs d) mss"
    and c: "rep_counts_offsets d = rep_counts_of (d_oneofs d)" by (auto simp: oneofs_parsed_def)
  then have "parsing (d_platform d) (d_fields d) (d_oneofs d) mss ?item []"
    by (intro parsed_parsing) simp_all
  from decode_oneofs_parsing [OF d1(1) this assms(4) c]
  obtain mss' ms' where p: "parsing (d_platform d1) (d_fields d1) (d_oneofs d1) mss' item ms'"
    "rep_counts_offsets d1 = rep_counts_of (d_oneofs d1)" "length (d_fields d1) = length (d_fields d)"
    "d_table d1 = d_table d" "d_platform d1 = d_platform d" "d_field_count d1 = d_field_count d" by blast
  have "open_oneof (d_platform d1) (d_fields d1) item ms'" using p(1) by (simp add: parsing_def)
  note push = PushOneof_parsed [OF d1(2) this p(2)]
  show "oneofs_parsed d'" using parsing_close [OF p(1) push(1)] push by (auto simp: oneofs_parsed_def)
  show "length (d_fields d') = length (d_fields d)" "d_table d' = d_table d" "d_platform d' = d_platform d"
    "d_field_count d' = d_field_count d" using push p by simp_all
qed

section \<open>The loop over the fields\<close>

definition plain_fields :: "upb_MiniTableField list \<Rightarrow> bool" where
  "plain_fields fs \<longleftrightarrow> (\<forall>f \<in> set fs. f_presence f = 0 \<and> f_offset f < kOneofBase)"

lemma SetTypeAndSub_keeps:
  "upb_MiniTable_SetTypeAndSub f type subs mods enum = Ok (f', subs') \<Longrightarrow>
    f_presence f' = f_presence f \<and> f_offset f' = f_offset f"
  by (auto simp: upb_MiniTable_SetTypeAndSub_def cres_simps Let_def split: if_split_asm)

lemma SetField_plain:
  "upb_MiniTable_SetField p ch f mods subs = Ok (f', subs') \<Longrightarrow> f_presence f = 0 \<Longrightarrow>
    f_presence f' = 0 \<and> f_offset f' < kOneofBase"
  by (auto simp: upb_MiniTable_SetField_def cres_simps Let_def presence_class_defs
      split: if_split_asm option.split_asm dest!: SetTypeAndSub_keeps)

lemma ModifyField_plain:
  "upb_MtDecoder_ModifyField m f = Ok f' \<Longrightarrow> f_presence f = 0 \<Longrightarrow> f_offset f < kOneofBase \<Longrightarrow>
    f_presence f' = 0 \<and> f_offset f' < kOneofBase"
  by (auto simp: upb_MtDecoder_ModifyField_def cres_simps Let_def presence_class_defs split: if_split_asm)

text \<open>Before the oneofs; \<open>n\<close> bounds the number of fields.\<close>

definition in_fields :: "nat \<Rightarrow> 'a upb_MtDecoder \<Rightarrow> bool" where
  "in_fields n d \<longleftrightarrow> plain_fields (d_fields d) \<and> d_oneofs d = [] \<and> rep_counts_offsets d = [0, 0, 0, 0] \<and>
     length (d_fields d) \<le> n \<and> d_field_count d = of_nat (length (d_fields d))"

definition after_fields :: "nat \<Rightarrow> 'a upb_MtDecoder \<Rightarrow> bool" where
  "after_fields n d \<longleftrightarrow> oneofs_parsed d \<and> length (d_fields d) \<le> n \<and> d_field_count d = of_nat (length (d_fields d))"

lemma in_fields_after: "in_fields n d \<Longrightarrow> after_fields n d"
  by (auto simp: in_fields_def after_fields_def plain_fields_def intro: oneofs_parsed_empty)

lemma in_fields_mono: "in_fields m d \<Longrightarrow> m \<le> n \<Longrightarrow> in_fields n d"
  by (simp add: in_fields_def)

lemma ParseModifier_in_fields:
  assumes "upb_MtDecoder_ParseModifier d rest ch mods = Ok (d', mods', rest')" "in_fields n d"
  shows "in_fields n d' \<and> d_platform d' = d_platform d"
proof (cases "d_fields d" rule: rev_cases)
  case Nil
  then show ?thesis using assms by (auto simp: upb_MtDecoder_ParseModifier_def cres_simps split: if_split_asm)
next
  case (snoc fs f)
  then obtain m f' where "upb_MtDecoder_ModifyField m f = Ok f'" "d' = d\<lparr>d_fields := fs @ [f']\<rparr>"
    using assms(1) by (auto simp: upb_MtDecoder_ParseModifier_def cres_simps)
  then show ?thesis using assms(2) snoc ModifyField_plain by (auto simp: in_fields_def plain_fields_def)
qed

lemma set_dense_below_simps [simp]:
  "d_fields (set_dense_below b d) = d_fields d" "d_oneofs (set_dense_below b d) = d_oneofs d"
  "rep_counts_offsets (set_dense_below b d) = rep_counts_offsets d" "d_platform (set_dense_below b d) = d_platform d"
  "d_field_count (set_dense_below b d) = d_field_count d"
  by (simp_all add: set_dense_below_def)

lemma parse_loop_after:
  "parse_loop mem d subs mods num need rest = Ok (d', subs', need', rest') \<Longrightarrow> in_fields n d \<Longrightarrow>
    n + length rest < 60000 \<Longrightarrow> after_fields (n + length rest) d' \<and> d_platform d' = d_platform d"
proof (induction mem d subs mods num need rest arbitrary: n rule: parse_loop.induct)
  case (1 mem d subs mods last_num need_dense)
  then show ?case by (auto dest: in_fields_after)
next
  case (2 mem d subs mods last_num need_dense ch rest)
  note prems = "2.prems" and IH = "2.IH"
  consider (field) "sint ch \<le> uint kUpb_EncodedValue_MaxField"
    | (modifier) "\<not> sint ch \<le> uint kUpb_EncodedValue_MaxField"
        "kUpb_EncodedValue_MinModifier \<le> ch \<and> ch \<le> kUpb_EncodedValue_MaxModifier"
    | (oneofs) "\<not> sint ch \<le> uint kUpb_EncodedValue_MaxField"
        "\<not> (kUpb_EncodedValue_MinModifier \<le> ch \<and> ch \<le> kUpb_EncodedValue_MaxModifier)" "ch = kUpb_EncodedValue_End"
    | (skip) "\<not> sint ch \<le> uint kUpb_EncodedValue_MaxField"
        "\<not> (kUpb_EncodedValue_MinModifier \<le> ch \<and> ch \<le> kUpb_EncodedValue_MaxModifier)" "ch \<noteq> kUpb_EncodedValue_End"
    by blast
  then show ?case
  proof cases
    case field
    show ?thesis
    proof (cases "d_table d = None \<and> d_fields d \<noteq> []")
      case True
      then show ?thesis using prems field in_fields_after [OF in_fields_mono, of n d] by auto
    next
      case False
      with field prems(1) obtain f subs1 where
        f: "upb_MiniTable_SetField (d_platform d) ch (fresh_field (last_num + 1)) mods subs = Ok (f, subs1)"
        and run: "parse_loop mem (d\<lparr>d_fields := d_fields d @ [f], d_field_count := d_field_count d + 1\<rparr>)
               subs1 mods (last_num + 1) need_dense rest = Ok (d', subs', need', rest')"
        by (auto simp: cres_simps)
      have "in_fields (Suc n) (d\<lparr>d_fields := d_fields d @ [f], d_field_count := d_field_count d + 1\<rparr>)"
        using prems(2) SetField_plain [OF f] by (auto simp: in_fields_def plain_fields_def fresh_field_def)
      from IH(1) [OF field False f refl run this] prems(3) show ?thesis by simp
    qed
  next
    case modifier
    with prems(1) obtain d1 mods1 rest1 where
      m: "upb_MtDecoder_ParseModifier d rest ch mods = Ok (d1, mods1, rest1)" by (auto simp: cres_simps)
    have d1: "in_fields n d1" "d_platform d1 = d_platform d" using ParseModifier_in_fields [OF m prems(2)] by simp_all
    have l: "length rest1 \<le> length rest" using ParseModifier_length [OF m] .
    have mono: "after_fields (n + length rest1) d' \<Longrightarrow> after_fields (n + length (ch # rest)) d'"
      using l by (simp add: after_fields_def)
    show ?thesis
    proof (cases "mods1 AND kUpb_MessageModifier_IsExtendable \<noteq> 0")
      case True
      with prems(1) modifier m obtain t where t: "d_table d1 = Some t"
        "parse_loop mem (d1\<lparr>d_table := Some (t\<lparr>mt_ext := mt_ext t OR kUpb_ExtMode_Extendable\<rparr>)\<rparr>)
           subs mods1 last_num need_dense rest1 = Ok (d', subs', need', rest')"
        by (auto simp: cres_simps split: option.split_asm)
      have "in_fields n (d1\<lparr>d_table := Some (t\<lparr>mt_ext := mt_ext t OR kUpb_ExtMode_Extendable\<rparr>)\<rparr>)"
        using d1 by (simp add: in_fields_def)
      from IH(2) [OF modifier m refl refl True t this] l prems(3) mono d1 show ?thesis by simp
    next
      case False
      with prems(1) modifier m have run: "parse_loop mem d1 subs mods1 last_num need_dense rest1 = Ok (d', subs', need', rest')"
        by (auto simp: cres_simps)
      from IH(3) [OF modifier m refl refl False run d1(1)] l prems(3) mono d1 show ?thesis by simp
    qed
  next
    case oneofs
    with prems(1) obtain t where t: "upb_MtDecoder_DecodeOneofs mem d t rest = Ok d'"
      by (auto simp: cres_simps split: option.split_asm)
    have p: "oneofs_parsed d" "d_oneofs d = []" "length (d_fields d) < 60000"
      using in_fields_after [OF prems(2)] prems(2,3) by (simp_all add: in_fields_def after_fields_def)
    note dec = DecodeOneofs_parsed [OF t p]
    then show ?thesis using prems(2) by (simp add: in_fields_def after_fields_def)
  next
    case skip
    with prems(1) obtain rest1 sk where s: "kUpb_EncodedValue_MinSkip \<le> ch \<and> ch \<le> kUpb_EncodedValue_MaxSkip"
      "upb_MdDecoder_DecodeBase92Varint ch kUpb_EncodedValue_MinSkip kUpb_EncodedValue_MaxSkip rest = (Ok (rest1, sk) :: (md_error, bytes \<times> u32) cres)"
      "parse_loop mem (set_dense_below need_dense d) subs mods (last_num + sk - 1) False rest1 = Ok (d', subs', need', rest')"
      by (auto simp: cres_simps split: if_split_asm)
    have l: "length rest1 \<le> length rest" using DecodeBase92Varint_length [OF s(2)] .
    have "in_fields n (set_dense_below need_dense d)" using prems(2) by (simp add: in_fields_def)
    from IH(4) [OF skip(1,2) _ s(1,2) refl s(3) this] skip l prems(3) show ?thesis by (auto simp: after_fields_def)
  qed
qed

lemma all_counted:
  "unat (d_field_count d) = length (d_fields d) \<Longrightarrow> counted_fields d = d_fields d \<and> uncounted_fields d = []"
  by (simp add: counted_fields_def uncounted_fields_def)

lemma after_counted: "after_fields n d \<Longrightarrow> n < 60000 \<Longrightarrow> unat (d_field_count d) = length (d_fields d)"
  unfolding after_fields_def by (simp only: unat_of_nat) simp

lemma AllocateSubs_after:
  assumes "upb_MtDecoder_AllocateSubs mem d t sc = Ok d'" "after_fields n d" "n < 60000"
  shows "after_fields n d' \<and> d_platform d' = d_platform d"
proof -
  have d': "d_oneofs d' = d_oneofs d" "rep_counts_offsets d' = rep_counts_offsets d" "d_platform d' = d_platform d"
    "d_field_count d' = d_field_count d"
    using assms(1) by (auto simp: upb_MtDecoder_AllocateSubs_def Let_def split: prod.splits if_split_asm)
  define g where "g f = (if subenum_count sc \<noteq> 0 \<and> f_descriptortype f = FT_Enum
       then f\<lparr>f_submsg_index := f_submsg_index f + submsg_count sc\<rparr> else f)" for f :: upb_MiniTableField
  have fs: "d_fields d' = map g (d_fields d)"
    using assms(1) by (auto simp: upb_MtDecoder_AllocateSubs_def Let_def g_def [abs_def]
        all_counted [OF after_counted [OF assms(2,3)]] split: prod.splits if_split_asm)
  have g: "f_offset (g f) = f_offset f" "f_presence (g f) = f_presence f"
    "upb_MiniTableField_GetRep (g f) = upb_MiniTableField_GetRep f" for f
    by (simp_all add: g_def upb_MiniTableField_GetRep_def)
  from assms(2) obtain mss where P: "parsed (d_platform d) (d_fields d) (d_oneofs d) mss"
    by (auto simp: after_fields_def oneofs_parsed_def)
  have ok: "list_all2 (oneof_ok (d_fields d)) (d_oneofs d) mss" using P by (simp add: parsed_def)
  have b: "m < length (d_fields d)" if "xs \<in> set mss" "m \<in> set xs" for xs m
    using oneofs_bound [OF ok, of m] that by auto
  have "list_all2 (oneof_ok (d_fields d')) (d_oneofs d) mss"
    using oneofs_bound [OF ok] by (intro oneofs_cong [OF ok]) (simp_all only: fs g length_map nth_map)
  moreover have "list_all2 (\<lambda>item ms. \<forall>m \<in> set ms. fits (d_platform d) (upb_MiniTableField_GetRep (d_fields d' ! m))
      (oi_rep item)) (d_oneofs d) mss"
  proof -
    have "list_all2 (\<lambda>item ms. \<forall>m \<in> set ms. fits (d_platform d) (upb_MiniTableField_GetRep (d_fields d ! m))
      (oi_rep item)) (d_oneofs d) mss" using P by (simp add: parsed_def)
    then show ?thesis by (rule list.rel_mono_strong) (auto simp: fs b g)
  qed
  moreover have "\<forall>f \<in> set (d_fields d'). f_presence f = 0" using P by (simp add: parsed_def fs g)
  moreover have "\<forall>i < length (d_fields d'). i \<notin> set (concat mss) \<longrightarrow> f_offset (d_fields d' ! i) < kOneofBase"
    using P by (simp add: parsed_def fs g)
  ultimately have "parsed (d_platform d) (d_fields d') (d_oneofs d) mss"
    using P unfolding parsed_def by blast
  then show ?thesis using assms(2) d' fs by (auto simp: after_fields_def oneofs_parsed_def)
qed

lemma ParseMessage_after:
  assumes "upb_MtDecoder_ParseMessage mem d data = Ok d'" "d_oneofs d = []" "rep_counts_offsets d = [0, 0, 0, 0]"
    "length data < 60000"
  shows "after_fields (length data) d' \<and> d_platform d' = d_platform d"
proof -
  obtain ok a where m: "md_malloc mem (12 * length data) (d_arena d) = (ok, a)" by force
  let ?d = "d\<lparr>d_arena := a, d_fields := [], d_field_count := 0\<rparr>"
  have "in_fields 0 ?d" using assms(2,3) by (simp add: in_fields_def plain_fields_def)
  moreover from assms(1) m obtain d1 subs1 need rest1 t where p:
    "parse_loop mem ?d \<lparr>submsg_count = 0, subenum_count = 0\<rparr> 0 0 (d_table ?d \<noteq> None) data = Ok (d1, subs1, need, rest1)"
    and a: "upb_MtDecoder_AllocateSubs mem ((set_dense_below need d1)
       \<lparr>d_arena := md_shrink mem (12 * length data) (12 * unat (d_field_count d1)) (d_arena (set_dense_below need d1))\<rparr>) t subs1 = Ok d'"
    by (auto simp: upb_MtDecoder_ParseMessage_def upb_MtDecoder_Parse_def cres_simps Let_def
        split: if_split_asm option.split_asm)
  ultimately have d1: "after_fields (length data) d1" "d_platform d1 = d_platform d"
    using parse_loop_after [OF p, of 0] assms(4) by simp_all
  have "after_fields (length data) ((set_dense_below need d1)
       \<lparr>d_arena := md_shrink mem (12 * length data) (12 * unat (d_field_count d1)) (d_arena (set_dense_below need d1))\<rparr>)"
    using d1(1) by (simp add: after_fields_def oneofs_parsed_def)
  from AllocateSubs_after [OF a this assms(4)] d1(2) show ?thesis by simp
qed

end
