(* ===== verification/MtLayout.thy ===== *)
theory MtLayout
  imports MtParsed
begin

text \<open>
  The layout that \<open>upb/mini_descriptor/decode.c\<close> gives a message is safe: the presence bits, the case
  words of the oneofs and the values of the fields lie inside the message, aligned, and overlap only
  where they should, the values of the members of one oneof.
\<close>

section \<open>Presence bits\<close>

abbreviation cnt :: "('b \<Rightarrow> bool) \<Rightarrow> 'b list \<Rightarrow> nat" where
  "cnt P xs \<equiv> length (filter P xs)"

lemma cnt_take_less: "i < j \<Longrightarrow> j \<le> length xs \<Longrightarrow> P (xs ! i) \<Longrightarrow> cnt P (take i xs) < cnt P (take j xs)"
proof -
  assume a: "i < j" "j \<le> length xs" "P (xs ! i)"
  then have "take j xs = take (Suc i) xs @ take (j - Suc i) (drop (Suc i) xs)"
    by (metis Suc_leI le_add_diff_inverse take_add)
  moreover have "cnt P (take (Suc i) xs) = Suc (cnt P (take i xs))"
    using a by (simp add: take_Suc_conv_app_nth)
  ultimately show ?thesis by simp
qed

lemma cnt_take_less_all: "i < length xs \<Longrightarrow> P (xs ! i) \<Longrightarrow> cnt P (take i xs) < cnt P xs"
  using cnt_take_less [of i "length xs" xs P] by simp

abbreviation required :: "upb_MiniTableField \<Rightarrow> bool" where "required f \<equiv> f_offset f = kRequiredPresence"
abbreviation optional :: "upb_MiniTableField \<Rightarrow> bool" where "optional f \<equiv> f_offset f = kHasbitPresence"

lemma all_less_snoc: "(\<forall>i < Suc n. P i) \<longleftrightarrow> (\<forall>i < n. P i) \<and> P n"
  by (auto simp: less_Suc_eq)

lemma assign_required_spec:
  "assign_required fs n = (fs', n') \<Longrightarrow> n' = n + cnt required fs \<and> length fs' = length fs \<and>
    (\<forall>i < length fs. fs' ! i =
       (if required (fs ! i) then (fs ! i)\<lparr>f_presence := of_nat (n + 1 + cnt required (take i fs))\<rparr>
        else if f_offset (fs ! i) = kNoPresence then (fs ! i)\<lparr>f_presence := 0\<rparr> else fs ! i))"
  unfolding assign_required_def
proof (induction fs arbitrary: fs' n' rule: rev_induct)
  case (snoc f fs)
  obtain fs1 n1 where 1: "fold (\<lambda>f (fs, last).
       if f_offset f = kRequiredPresence then (fs @ [f\<lparr>f_presence := of_nat (last + 1)\<rparr>], last + 1)
       else if f_offset f = kNoPresence then (fs @ [f\<lparr>f_presence := 0\<rparr>], last)
       else (fs @ [f], last)) fs ([], n) = (fs1, n1)" by force
  note IH = snoc.IH [OF 1]
  have l: "length fs1 = length fs" "n1 = n + cnt required fs" using IH by simp_all
  have old: "(fs1 @ [g]) ! i = (if required ((fs @ [f]) ! i) then ((fs @ [f]) ! i)
        \<lparr>f_presence := of_nat (n + 1 + cnt required (take i (fs @ [f])))\<rparr>
      else if f_offset ((fs @ [f]) ! i) = kNoPresence then ((fs @ [f]) ! i)\<lparr>f_presence := 0\<rparr> else (fs @ [f]) ! i)"
    if "i < length fs" for i g
    using IH that by (simp add: nth_append)
  have new: "fs' = fs1 @ [if required f then f\<lparr>f_presence := of_nat (n1 + 1)\<rparr>
      else if f_offset f = kNoPresence then f\<lparr>f_presence := 0\<rparr> else f]" "n' = (if required f then n1 + 1 else n1)"
    using snoc.prems 1 by (auto split: if_split_asm)
  show ?case
    unfolding new length_append list.size add_Suc_right add_0_right all_less_snoc
    using old l by (simp add: nth_append)
qed simp

lemma assign_optional_spec:
  "assign_optional fs n = (fs', n') \<Longrightarrow> n' = n + cnt optional fs \<and> length fs' = length fs \<and>
    (\<forall>i < length fs. fs' ! i =
       (if optional (fs ! i) then (fs ! i)\<lparr>f_presence := of_nat (n + 1 + cnt optional (take i fs))\<rparr> else fs ! i))"
  unfolding assign_optional_def
proof (induction fs arbitrary: fs' n' rule: rev_induct)
  case (snoc f fs)
  obtain fs1 n1 where 1: "fold (\<lambda>f (fs, last).
       if f_offset f = kHasbitPresence then (fs @ [f\<lparr>f_presence := of_nat (last + 1)\<rparr>], last + 1)
       else (fs @ [f], last)) fs ([], n) = (fs1, n1)" by force
  note IH = snoc.IH [OF 1]
  have l: "length fs1 = length fs" "n1 = n + cnt optional fs" using IH by simp_all
  have old: "(fs1 @ [g]) ! i = (if optional ((fs @ [f]) ! i) then ((fs @ [f]) ! i)
        \<lparr>f_presence := of_nat (n + 1 + cnt optional (take i (fs @ [f])))\<rparr> else (fs @ [f]) ! i)"
    if "i < length fs" for i g
    using IH that by (simp add: nth_append)
  have new: "fs' = fs1 @ [if optional f then f\<lparr>f_presence := of_nat (n1 + 1)\<rparr> else f]"
      "n' = (if optional f then n1 + 1 else n1)"
    using snoc.prems 1 by (auto split: if_split_asm)
  show ?case
    unfolding new length_append list.size add_Suc_right add_0_right all_less_snoc
    using old l by (simp add: nth_append)
qed simp

text \<open>The hasbits are distinct and lie in the first \<open>sz\<close> bytes of the message, behind the reserved
  ones.\<close>

definition hasbits_ok :: "upb_MiniTableField list \<Rightarrow> nat \<Rightarrow> bool" where
  "hasbits_ok fs sz \<longleftrightarrow>
     inj_on (\<lambda>i. f_presence (fs ! i)) {i. i < length fs \<and> (required (fs ! i) \<or> optional (fs ! i))} \<and>
     (\<forall>f \<in> set fs. if required f \<or> optional f
        then 64 \<le> unat (f_presence f) \<and> unat (f_presence f) div 8 < sz \<and> unat (f_presence f) < 64 + length fs
        else f_presence f = 0)"

lemma cnt_offset: "cnt (\<lambda>f. f_offset f = c) fs = cnt (\<lambda>c'. c' = c) (map f_offset fs)"
  by (induction fs) auto

lemma presence_0: "f_presence f = 0 \<Longrightarrow> f\<lparr>f_presence := 0\<rparr> = (f :: upb_MiniTableField)"
  by (cases f) simp

lemma AssignHasbits_spec:
  assumes run: "upb_MtDecoder_AssignHasbits d t = Ok d'" and p0: "\<forall>f \<in> set (d_fields d). f_presence f = 0"
    and l: "length (d_fields d) < 60000" and fc: "unat (d_field_count d) = length (d_fields d)"
  obtains t' where "hasbits_ok (d_fields d') (unat (mt_size t'))" "8 \<le> unat (mt_size t')"
    "length (d_fields d') = length (d_fields d)"
    "\<forall>i < length (d_fields d). d_fields d' ! i = (d_fields d ! i)\<lparr>f_presence := f_presence (d_fields d' ! i)\<rparr>"
    "d' = d\<lparr>d_fields := d_fields d', d_table := Some t'\<rparr>"
proof -
  let ?fs = "d_fields d"
  obtain fs1 n1 where 1: "assign_required ?fs 63 = (fs1, n1)" by force
  obtain fs2 n2 where 2: "assign_optional fs1 n1 = (fs2, n2)" by force
  note r = assign_required_spec [OF 1] and o = assign_optional_spec [OF 2]
  let ?sz = "(n2 + 8) div 8"
  have "n2 \<noteq> 0" using r o by simp
  have run': "d' = d\<lparr>d_fields := fs2,
      d_table := Some ((t\<lparr>mt_required_count := of_nat (n1 - 63)\<rparr>)\<lparr>mt_size := of_nat ?sz\<rparr>)\<rparr>"
    using run \<open>n2 \<noteq> 0\<close> 2
    by (simp add: upb_MtDecoder_AssignHasbits_def kUpb_Reserved_Hasbits_def kUpb_Reserved_Hasbytes_def 1 all_counted [OF fc]
        upb_MiniTable_DivideRoundUp_def Let_def add.commute [of n2 8] split: if_split_asm)
  have d': "d_fields d' = fs2" "d_table d' = Some ((t\<lparr>mt_required_count := of_nat (n1 - 63)\<rparr>)\<lparr>mt_size := of_nat ?sz\<rparr>)"
    "d' = d\<lparr>d_fields := d_fields d', d_table := d_table d'\<rparr>"
    unfolding run' by simp_all
  have offs: "map f_offset fs1 = map f_offset ?fs" using r by (intro nth_equalityI) auto
  have cnt_opt: "cnt optional (take i fs1) = cnt optional (take i ?fs)" for i
    by (simp only: cnt_offset take_map [symmetric] offs)
  have n: "n1 = 63 + cnt required ?fs" "n2 = n1 + cnt optional ?fs"
    using r o cnt_opt [of "length ?fs"] by simp_all
  have all: "cnt required xs + cnt optional xs \<le> length xs" for xs
    by (induction xs) (auto simp: presence_class_defs)
  have n2: "n2 \<le> 63 + length ?fs" unfolding n using all [of ?fs] by linarith
  define idx where "idx i = 64 + (if required (?fs ! i) then cnt required (take i ?fs)
     else cnt required ?fs + cnt optional (take i ?fs))" for i
  have f2: "fs2 ! i = (?fs ! i)\<lparr>f_presence := (if required (?fs ! i) \<or> optional (?fs ! i) then of_nat (idx i) else 0)\<rparr>"
    if i: "i < length ?fs" for i
  proof -
    have a: "fs1 ! i = (if required (?fs ! i) then (?fs ! i)\<lparr>f_presence := of_nat (63 + 1 + cnt required (take i ?fs))\<rparr>
        else if f_offset (?fs ! i) = kNoPresence then (?fs ! i)\<lparr>f_presence := 0\<rparr> else ?fs ! i)"
      using r i by blast
    have "i < length fs1" using r i by simp
    then have b: "fs2 ! i = (if optional (fs1 ! i) then (fs1 ! i)\<lparr>f_presence := of_nat (n1 + 1 + cnt optional (take i fs1))\<rparr>
        else fs1 ! i)" using o by blast
    have c: "(?fs ! i)\<lparr>f_presence := 0\<rparr> = ?fs ! i" using p0 i by (intro presence_0) simp
    consider "required (?fs ! i)" | "optional (?fs ! i)" "\<not> required (?fs ! i)"
      | "\<not> optional (?fs ! i)" "\<not> required (?fs ! i)" by blast
    then show ?thesis
      unfolding a b
      by cases (simp_all add: idx_def n(1) cnt_opt c, simp_all add: presence_class_defs)
  qed
  have idx: "idx i \<le> n2" if "i < length ?fs" "required (?fs ! i) \<or> optional (?fs ! i)" for i
    using that cnt_take_less_all [of i ?fs required] cnt_take_less_all [of i ?fs optional] by (auto simp: idx_def n)
  have un: "unat (of_nat (idx i) :: u16) = idx i" if "i < length ?fs" "required (?fs ! i) \<or> optional (?fs ! i)" for i
    using idx [OF that] n2 l by (intro of_nat_inverse [OF refl]) simp
  have neq: "idx i < idx j \<or> idx j < idx i" if "i < j" "j < length ?fs" "required (?fs ! i) \<or> optional (?fs ! i)"
    "required (?fs ! j) \<or> optional (?fs ! j)" for i j
    using that cnt_take_less [of i j ?fs required] cnt_take_less [of i j ?fs optional]
      cnt_take_less_all [of i ?fs required] cnt_take_less_all [of j ?fs required]
    by (auto simp: idx_def presence_class_defs)
  have l2: "length fs2 = length ?fs" using r o by simp
  have cl: "f_offset (fs2 ! i) = f_offset (?fs ! i)" if "i < length ?fs" for i by (simp add: f2 [OF that])
  have pr: "f_presence (fs2 ! i) = of_nat (idx i)" if "i < length ?fs" "required (?fs ! i) \<or> optional (?fs ! i)" for i
    using that by (simp add: f2)
  have sz: "unat (of_nat ?sz :: u16) = ?sz" using n2 l by (intro of_nat_inverse [OF refl]) simp
  show thesis
  proof (rule that)
    show "hasbits_ok (d_fields d') (unat (mt_size ((t\<lparr>mt_required_count := of_nat (n1 - 63)\<rparr>)\<lparr>mt_size := of_nat ?sz\<rparr>)))"
      unfolding hasbits_ok_def d'(1)
    proof (intro conjI ballI)
      show "inj_on (\<lambda>i. f_presence (fs2 ! i)) {i. i < length fs2 \<and> (required (fs2 ! i) \<or> optional (fs2 ! i))}"
      proof (rule inj_onI, rule ccontr)
        fix i j assume ij: "i \<in> {i. i < length fs2 \<and> (required (fs2 ! i) \<or> optional (fs2 ! i))}"
          "j \<in> {i. i < length fs2 \<and> (required (fs2 ! i) \<or> optional (fs2 ! i))}"
          "f_presence (fs2 ! i) = f_presence (fs2 ! j)" "i \<noteq> j"
        then have i: "i < length ?fs" "required (?fs ! i) \<or> optional (?fs ! i)"
          and j: "j < length ?fs" "required (?fs ! j) \<or> optional (?fs ! j)" by (auto simp: l2 cl)
        have "(of_nat (idx i) :: u16) = of_nat (idx j)" using ij(3) unfolding pr [OF i] pr [OF j] .
        from arg_cong [OF this, of unat] have "idx i = idx j" by (simp only: un [OF i] un [OF j])
        moreover have "i < j \<or> j < i" using ij(4) by linarith
        ultimately show False using neq [OF _ j(1) i(2) j(2)] neq [OF _ i(1) j(2) i(2)] by auto
      qed
      fix f assume "f \<in> set fs2"
      then obtain i where i: "i < length ?fs" "f = fs2 ! i" using r o by (auto simp: in_set_conv_nth)
      have "64 \<le> idx i" by (simp add: idx_def)
      moreover have "idx i div 8 < (n2 + 8) div 8" if "idx i \<le> n2" using div_le_mono [OF that, of 8] by simp
      moreover have "idx i < 64 + length ?fs" if "idx i \<le> n2" using that n2 by linarith
      ultimately show "if required f \<or> optional f
        then 64 \<le> unat (f_presence f) \<and> unat (f_presence f) div 8 <
          unat (mt_size ((t\<lparr>mt_required_count := of_nat (n1 - 63)\<rparr>)\<lparr>mt_size := of_nat ?sz\<rparr>)) \<and>
          unat (f_presence f) < 64 + length fs2 else f_presence f = 0"
        using i un [of i] idx [of i] sz cl [of i] pr [of i] n2 l2 by (auto simp: f2)
    qed
    show "8 \<le> unat (mt_size ((t\<lparr>mt_required_count := of_nat (n1 - 63)\<rparr>)\<lparr>mt_size := of_nat ?sz\<rparr>))"
      using sz n by (simp add: n)
    show "length (d_fields d') = length (d_fields d)" using d' r o by simp
    show "\<forall>i < length (d_fields d). d_fields d' ! i = (d_fields d ! i)\<lparr>f_presence := f_presence (d_fields d' ! i)\<rparr>"
      by (simp add: d'(1) f2)
    show "d' = d\<lparr>d_fields := d_fields d', d_table := Some ((t\<lparr>mt_required_count := of_nat (n1 - 63)\<rparr>)\<lparr>mt_size := of_nat ?sz\<rparr>)\<rparr>"
      using d'(2,3) by simp
  qed
qed

section \<open>Placing everything\<close>

definition chained :: "upb_MiniTablePlatform \<Rightarrow> upb_MiniTableField list \<Rightarrow> upb_OneOfLayoutItem list \<Rightarrow> nat list list \<Rightarrow> bool" where
  "chained p fs items mss \<longleftrightarrow>
     list_all2 (oneof_ok fs) items mss \<and> distinct (concat mss) \<and>
     (\<forall>i < length fs. i \<notin> set (concat mss) \<longrightarrow> plain (fs ! i)) \<and>
     (\<forall>item \<in> set items. oi_rep item < 4) \<and>
     list_all2 (\<lambda>item ms. \<forall>m \<in> set ms. fits p (upb_MiniTableField_GetRep (fs ! m)) (oi_rep item)) items mss"

lemma chained_cong:
  assumes "chained p fs items mss" "length fs' = length fs"
    "\<And>i. i < length fs \<Longrightarrow> f_offset (fs' ! i) = f_offset (fs ! i) \<and> f_mode (fs' ! i) = f_mode (fs ! i)"
  shows "chained p fs' items mss"
proof -
  have ok: "list_all2 (oneof_ok fs) items mss" using assms(1) by (simp add: chained_def)
  note b = oneofs_bound [OF ok]
  have "list_all2 (\<lambda>item ms. \<forall>m \<in> set ms. fits p (upb_MiniTableField_GetRep (fs ! m)) (oi_rep item)) items mss"
    using assms(1) by (simp add: chained_def)
  then have "list_all2 (\<lambda>item ms. \<forall>m \<in> set ms. fits p (upb_MiniTableField_GetRep (fs' ! m)) (oi_rep item)) items mss"
  proof (rule list.rel_mono_strong)
    fix item ms assume ms: "ms \<in> set mss"
      and f: "\<forall>m \<in> set ms. fits p (upb_MiniTableField_GetRep (fs ! m)) (oi_rep item)"
    show "\<forall>m \<in> set ms. fits p (upb_MiniTableField_GetRep (fs' ! m)) (oi_rep item)"
    proof
      fix m assume m: "m \<in> set ms"
      then have "m \<in> set (concat mss)" using ms by auto
      then have "f_mode (fs' ! m) = f_mode (fs ! m)" using assms(3) [OF b] by blast
      then show "fits p (upb_MiniTableField_GetRep (fs' ! m)) (oi_rep item)"
        using f m by (simp add: upb_MiniTableField_GetRep_def)
    qed
  qed
  moreover have "list_all2 (oneof_ok fs') items mss"
    by (rule oneofs_cong [OF ok assms(2)]) (use b assms(3) in blast)
  ultimately show ?thesis using assms by (simp add: chained_def plain_def)
qed

lemma chain_plain: "chain fs ms \<Longrightarrow> m \<in> set ms \<Longrightarrow> \<not> plain (fs ! m)"
  using chain_offset [of fs ms m] by (simp add: plain_def not_less)

lemma chained_member: "chained p fs items mss \<Longrightarrow> m \<in> set (concat mss) \<Longrightarrow> m < length fs \<and> \<not> plain (fs ! m)"
proof -
  assume c: "chained p fs items mss" and m: "m \<in> set (concat mss)"
  then have ok: "list_all2 (oneof_ok fs) items mss" by (simp add: chained_def)
  from m obtain ms where ms: "ms \<in> set mss" "m \<in> set ms" by auto
  then have "chain fs ms" using ok by (auto simp: list_all2_conv_all_nth in_set_conv_nth oneof_ok_def)
  then show ?thesis using chain_plain ms(2) oneofs_bound [OF ok m] by blast
qed

lemma chained_plain_iff: "chained p fs items mss \<Longrightarrow> i < length fs \<Longrightarrow> plain (fs ! i) \<longleftrightarrow> i \<notin> set (concat mss)"
  using chained_member [of p fs items mss i] by (auto simp: chained_def)

definition all_reps :: "upb_MiniTableField list \<Rightarrow> upb_OneOfLayoutItem list \<Rightarrow> nat list" where
  "all_reps fs items = plain_reps fs @ oneof_reps items"

lemma all_reps_small: "chained p fs items mss \<Longrightarrow> set (all_reps fs items) \<subseteq> {..<4}"
proof -
  have "set (oneof_reps items) \<subseteq> {..<4}" if "\<forall>item \<in> set items. oi_rep item < 4"
    using that by (induction items) (auto simp: kUpb_OneOf_CaseFieldRep_def field_mode_defs)
  then show "chained p fs items mss \<Longrightarrow> ?thesis" by (auto simp: all_reps_def plain_reps_def chained_def)
qed

lemma length_all_reps:
  assumes "chained p fs items mss"
  shows "length (all_reps fs items) \<le> 2 * length fs"
proof -
  have ok: "list_all2 (oneof_ok fs) items mss" and d: "distinct (concat mss)" using assms by (simp_all add: chained_def)
  have "list_all2 (oneof_ok fs) xs yss \<Longrightarrow> length xs \<le> length (concat yss)" for xs yss
    by (induction rule: list_all2_induct) (auto simp: oneof_ok_def Suc_le_eq add_strict_increasing)
  then have 1: "length items \<le> length (concat mss)" using ok .
  have "set (concat mss) = {i. i < length fs \<and> \<not> plain (fs ! i)}"
    using assms oneofs_bound [OF ok] chained_plain_iff [OF assms] by blast
  then have 2: "length (concat mss) = cnt (\<lambda>f. \<not> plain f) fs"
    using distinct_card [OF d] by (simp add: length_filter_conv_card)
  have "cnt plain fs + cnt (\<lambda>f. \<not> plain f) fs = length fs" by (rule sum_length_filter_compl)
  then show ?thesis using 1 2 by (simp add: all_reps_def plain_reps_def)
qed

lemma count_reps_spec:
  "length rs = 4 \<Longrightarrow> length (count_reps fs rs) = 4 \<and>
    (\<forall>r < 4. count_reps fs rs ! r = rs ! r + of_nat (count_list (plain_reps fs) r))"
  unfolding count_reps_def
  by (induction fs rule: rev_induct)
    (auto simp: plain_reps_def plain_def incr_rep_def nth_list_update not_le not_less)

lemma CalculateAlignments_spec:
  assumes run: "upb_MtDecoder_CalculateAlignments d t = Ok d'" and c: "chained (d_platform d) (d_fields d) (d_oneofs d) mss"
    and rc: "rep_counts_offsets d = rep_counts_of (d_oneofs d)" and l: "length (d_fields d) < 30000"
    and fc: "unat (d_field_count d) = length (d_fields d)"
  obtains b lim where "regions (d_platform d) b (count_list (all_reps (d_fields d) (d_oneofs d))) (unat (mt_size t)) lim [0..<4]"
    "counters (d_platform d) b (count_list (all_reps (d_fields d) (d_oneofs d))) (\<lambda>_. 0) (rep_counts_offsets d')"
    "unat (mt_size t) \<le> lim" "lim < 65536" "d' = d\<lparr>rep_counts_offsets := rep_counts_offsets d', d_table := Some (t\<lparr>mt_size := of_nat lim\<rparr>)\<rparr>"
proof -
  let ?fs = "d_fields d" and ?reps = "all_reps (d_fields d) (d_oneofs d)"
  define rs where "rs = count_reps ?fs (rep_counts_offsets d)"
  have rs: "length rs = 4" "\<And>r. r < 4 \<Longrightarrow> rs ! r = of_nat (count_list ?reps r)"
    using count_reps_spec [of "rep_counts_offsets d" ?fs] by (auto simp: rs_def rc rep_counts_of_def all_reps_def)
  have small: "count_list ?reps r < 65536" for r
    using length_all_reps [OF c] count_le_length [of ?reps r] l by linarith
  have cnt: "unat (rs ! r) = count_list ?reps r" if "r < 4" for r
    unfolding rs(2) [OF that] using small [of r] by (intro of_nat_inverse [OF refl]) simp
  obtain rs' lim where a: "assign_regions (d_platform d) [0..<4] rs (unat (mt_size t)) = (rs', lim)" by force
  have "distinct [0..<4]" "set [0..<4] \<subseteq> {..<4 :: nat}" by auto
  from assign_regions_spec [OF a this rs(1) refl] obtain b where
    b: "regions (d_platform d) b (\<lambda>r. unat (rs ! r)) (unat (mt_size t)) lim [0..<4]" "unat (mt_size t) \<le> lim" "length rs' = 4"
      "\<forall>r<4. rs' ! r = (if r \<in> set [0..<4] \<and> 0 < unat (rs ! r) then of_nat (b r) else rs ! r)" by auto
  have d': "lim < 65536" "d' = d\<lparr>rep_counts_offsets := rs', d_table := Some (t\<lparr>mt_size := of_nat lim\<rparr>)\<rparr>"
    using run a by (auto simp: upb_MtDecoder_CalculateAlignments_def Let_def rs_def all_counted [OF fc] split: if_split_asm)
  have "regions (d_platform d) b (count_list ?reps) (unat (mt_size t)) lim [0..<4]"
    using b(1) cnt by (auto simp: regions_def)
  moreover have "counters (d_platform d) b (count_list ?reps) (\<lambda>_. 0) rs'"
    using b(3,4) cnt by (auto simp: counters_def)
  ultimately show thesis using d' b(2) by (intro that [of b lim]) simp_all
qed

text \<open>Which slot a field got: \<open>pos\<close> is its position in the sequence of slots.\<close>

lemma AssignOffsets_spec:
  assumes run: "upb_MtDecoder_AssignOffsets d t = Ok d'" and c: "chained (d_platform d) (d_fields d) (d_oneofs d) mss"
    and k: "counters (d_platform d) b n (\<lambda>_. 0) (rep_counts_offsets d)"
      "n = count_list (all_reps (d_fields d) (d_oneofs d))"
    and S: "S = alloc (all_reps (d_fields d) (d_oneofs d)) (\<lambda>_. 0)"
    and fc: "unat (d_field_count d) = length (d_fields d)"
  shows "length (d_fields d') = length (d_fields d)"
    "\<And>i. i < length (d_fields d) \<Longrightarrow> plain (d_fields d ! i) \<Longrightarrow> d_fields d' ! i = (d_fields d ! i)
       \<lparr>f_offset := of_nat (slot_off (d_platform d) b (S ! cnt plain (take i (d_fields d))))\<rparr>"
    "\<And>k i. k < length mss \<Longrightarrow> i \<in> set (mss ! k) \<Longrightarrow> d_fields d' ! i = (d_fields d ! i)
       \<lparr>f_presence := NOT (of_nat (slot_off (d_platform d) b (S ! (cnt plain (d_fields d) + 2 * k)))),
        f_offset := of_nat (slot_off (d_platform d) b (S ! (cnt plain (d_fields d) + 2 * k + 1)))\<rparr>"
    "d' = d\<lparr>d_fields := d_fields d', rep_counts_offsets := rep_counts_offsets d',
            d_table := Some (t\<lparr>mt_size := of_nat (align_up (unat (mt_size t)) 8)\<rparr>)\<rparr>"
proof -
  let ?fs = "d_fields d" and ?p = "d_platform d"
  obtain offs rs where o: "place_list ?p (rep_counts_offsets d) (all_reps ?fs (d_oneofs d)) = (offs, rs)" by force
  then obtain offs1 rs1 offs2 where
    1: "place_list ?p (rep_counts_offsets d) (plain_reps ?fs) = (offs1, rs1)"
    and 2: "place_list ?p rs1 (oneof_reps (d_oneofs d)) = (offs2, rs)" and o12: "offs = offs1 @ offs2"
    by (auto simp: all_reps_def place_list_append split: prod.splits)
  have l1: "length offs1 = cnt plain ?fs"
    using 1 by (metis length_map length_place_list plain_reps_def fst_conv)
  have offs: "offs = map (\<lambda>s. of_nat (slot_off ?p b s)) S"
    using place_list_slots [OF k(1) all_reps_small [OF c] _ o] by (simp add: k(2) S)
  have lS: "length S = length offs" by (simp add: offs)
  define fs1 where "fs1 = fill ?fs offs1"
  have f1: "place_fields ?p ?fs (rep_counts_offsets d) = (fs1, rs1)"
    unfolding fs1_def by (rule place_fields_eq [OF 1])
  have fs1: "length fs1 = length ?fs" "\<And>i. i < length ?fs \<Longrightarrow> fs1 ! i =
      (if plain (?fs ! i) then (?fs ! i)\<lparr>f_offset := offs1 ! cnt plain (take i ?fs)\<rparr> else ?fs ! i)"
    using fill_nth [of _ ?fs offs1] l1 by (simp_all add: fs1_def)
  have ok: "list_all2 (oneof_ok ?fs) (d_oneofs d) mss" "distinct (concat mss)" using c by (simp_all add: chained_def)
  have "list_all2 (oneof_ok fs1) (d_oneofs d) mss"
    by (rule oneofs_cong [OF ok(1) fs1(1)]) (use chained_member [OF c] fs1(2) in auto)
  from place_oneofs_spec [OF this ok(2) 2] obtain fs2 where
    fs2: "place_oneofs ?p (d_oneofs d) fs1 rs1 = Ok (fs2, rs)" "length fs2 = length fs1"
      "\<forall>k < length mss. \<forall>m \<in> set (mss ! k).
         fs2 ! m = (fs1 ! m)\<lparr>f_presence := NOT (offs2 ! (2 * k)), f_offset := offs2 ! (2 * k + 1)\<rparr>"
      "\<forall>i < length fs1. i \<notin> set (concat mss) \<longrightarrow> fs2 ! i = fs1 ! i" by blast
  have d': "d_fields d' = fs2" "d' = d\<lparr>d_fields := fs2, rep_counts_offsets := rs,
      d_table := Some (t\<lparr>mt_size := of_nat (align_up (unat (mt_size t)) 8)\<rparr>)\<rparr>"
    using run f1 fs2(1) by (auto simp: upb_MtDecoder_AssignOffsets_def all_counted [OF fc])
  show "length (d_fields d') = length ?fs" by (simp add: d'(1) fs2(2) fs1(1))
  show "d' = d\<lparr>d_fields := d_fields d', rep_counts_offsets := rep_counts_offsets d',
      d_table := Some (t\<lparr>mt_size := of_nat (align_up (unat (mt_size t)) 8)\<rparr>)\<rparr>"
    using d' by simp
  have at: "offs ! j = of_nat (slot_off ?p b (S ! j))" if "j < length offs" for j using that by (simp add: offs)
  fix i
  show "d_fields d' ! i = (?fs ! i)\<lparr>f_offset := of_nat (slot_off ?p b (S ! cnt plain (take i ?fs)))\<rparr>"
    if i: "i < length ?fs" "plain (?fs ! i)"
  proof -
    have "cnt plain (take i ?fs) < length offs1" unfolding l1 by (rule cnt_take_less_all [of _ _ plain, OF i])
    then have "offs1 ! cnt plain (take i ?fs) = of_nat (slot_off ?p b (S ! cnt plain (take i ?fs)))"
      using at [of "cnt plain (take i ?fs)"] by (simp add: o12 nth_append)
    then show ?thesis using i fs1 fs2(4) chained_plain_iff [OF c i(1)] by (simp add: d'(1))
  qed
  fix k assume k: "k < length mss" "i \<in> set (mss ! k)"
  have "length offs2 = 2 * length (d_oneofs d)" using 2 by (metis length_oneof_reps length_place_list fst_conv)
  then have "2 * k + 1 < length offs2" using k list_all2_lengthD [OF ok(1)] by linarith
  then have "offs2 ! j = of_nat (slot_off ?p b (S ! (cnt plain ?fs + j)))" if "j \<le> 2 * k + 1" for j
    using that at [of "cnt plain ?fs + j"] by (simp add: o12 l1 [symmetric])
  note e = this [of "2 * k"] this [of "2 * k + 1"]
  have "i \<in> set (concat mss)" using k by auto
  then have "fs1 ! i = ?fs ! i" using chained_member [OF c] fs1(2) by auto
  then show "d_fields d' ! i = (?fs ! i)
       \<lparr>f_presence := NOT (of_nat (slot_off ?p b (S ! (cnt plain ?fs + 2 * k)))),
        f_offset := of_nat (slot_off ?p b (S ! (cnt plain ?fs + 2 * k + 1)))\<rparr>"
    using fs2(3) k e by (simp add: d'(1))
qed

section \<open>The layout of a message\<close>

definition hasbit_byte :: "upb_MiniTableField \<Rightarrow> nat" where
  "hasbit_byte f = (case (upb_MiniTableField_HasbitOffset f :: (unit, u16) cres) of Ok w \<Rightarrow> unat w | _ \<Rightarrow> 0)"

definition case_offset :: "upb_MiniTableField \<Rightarrow> nat" where
  "case_offset f = (case (upb_MiniTableField_OneofOffset f :: (unit, u64) cres) of Ok w \<Rightarrow> unat w | _ \<Rightarrow> 0)"

abbreviation val_offset :: "upb_MiniTableField \<Rightarrow> nat" where "val_offset f \<equiv> unat (f_offset f)"
abbreviation val_size :: "upb_MiniTablePlatform \<Rightarrow> upb_MiniTableField \<Rightarrow> nat" where
  "val_size p f \<equiv> upb_MtDecoder_SizeOfRep (upb_MiniTableField_GetRep f) p"

definition values_inside :: "upb_MiniTablePlatform \<Rightarrow> upb_MiniTable \<Rightarrow> bool" where
  "values_inside p t \<longleftrightarrow> (\<forall>f \<in> set (mt_fields t).
     upb_MtDecoder_AlignOfRep (upb_MiniTableField_GetRep f) p dvd val_offset f \<and>
     8 \<le> val_offset f \<and> val_offset f + val_size p f \<le> unat (mt_size t))"

definition hasbits_apart :: "upb_MiniTable \<Rightarrow> bool" where
  "hasbits_apart t \<longleftrightarrow> (\<forall>f \<in> set (mt_fields t). upb_MiniTableField_HasHasbit f \<longrightarrow>
     64 \<le> unat (f_presence f) \<and>
     (\<forall>g \<in> set (mt_fields t). hasbit_byte f < val_offset g \<and>
        (upb_MiniTableField_IsInOneof g \<longrightarrow> hasbit_byte f < case_offset g)))"

definition cases_apart :: "upb_MiniTablePlatform \<Rightarrow> upb_MiniTable \<Rightarrow> bool" where
  "cases_apart p t \<longleftrightarrow> (\<forall>f \<in> set (mt_fields t). upb_MiniTableField_IsInOneof f \<longrightarrow>
     4 dvd case_offset f \<and> 8 \<le> case_offset f \<and> case_offset f + 4 \<le> unat (mt_size t) \<and>
     (\<forall>g \<in> set (mt_fields t). apart (case_offset f) 4 (val_offset g) (val_size p g)))"

definition fields_apart :: "upb_MiniTablePlatform \<Rightarrow> upb_MiniTableField \<Rightarrow> upb_MiniTableField \<Rightarrow> bool" where
  "fields_apart p f g \<longleftrightarrow>
     (if upb_MiniTableField_IsInOneof f \<and> f_presence f = f_presence g then val_offset f = val_offset g
      else apart (val_offset f) (val_size p f) (val_offset g) (val_size p g) \<and>
        (f_presence f = f_presence g \<longrightarrow> f_presence f = 0) \<and>
        (upb_MiniTableField_IsInOneof f \<and> upb_MiniTableField_IsInOneof g \<longrightarrow>
           apart (case_offset f) 4 (case_offset g) 4))"

definition layout_ok :: "upb_MiniTablePlatform \<Rightarrow> upb_MiniTable \<Rightarrow> bool" where
  "layout_ok p t \<longleftrightarrow> values_inside p t \<and> hasbits_apart t \<and> cases_apart p t \<and>
     (\<forall>i < length (mt_fields t). \<forall>j < length (mt_fields t). i \<noteq> j \<longrightarrow>
        fields_apart p (mt_fields t ! i) (mt_fields t ! j))"

lemma sint_small:
  assumes "c < 32768"
  shows "sint (of_nat c :: u16) = int c"
proof -
  have "uint (of_nat c :: u16) = int c" using assms by (simp add: uint_nat unat_of_nat)
  then show ?thesis using assms by (simp add: sint_uint signed_take_bit_int_eq_self)
qed

lemma oneof_presence:
  assumes "f_presence f = NOT (of_nat c)" "c < 32768"
  shows "upb_MiniTableField_IsInOneof f" "case_offset f = c"
proof -
  have s: "sint (NOT (of_nat c) :: u16) = - int c - 1"
    using assms(2) by (subst signed_not_eq) (simp add: sint_small not_eq_complement signed_take_bit_int_eq_self)
  show o: "upb_MiniTableField_IsInOneof f" unfolding upb_MiniTableField_IsInOneof_def assms(1) s by simp
  have "NOT (scast (f_presence f) :: u64) = of_int (- sint (f_presence f) - 1)"
    by (simp only: not_eq_complement scast_eq of_int_diff of_int_minus of_int_1)
  also have "\<dots> = of_nat c" unfolding assms(1) s by simp
  finally have "NOT (scast (f_presence f) :: u64) = of_nat c" .
  then show "case_offset f = c"
    using o assms(2) by (simp add: case_offset_def upb_MiniTableField_OneofOffset_def unat_of_nat)
qed

lemma hasbit_presence:
  assumes "unat (f_presence f) < 32768"
  shows "\<not> upb_MiniTableField_IsInOneof f" "upb_MiniTableField_HasHasbit f \<Longrightarrow> hasbit_byte f = unat (f_presence f) div 8"
proof -
  have "sint (f_presence f) = int (unat (f_presence f))" using sint_small [OF assms] by simp
  then show "\<not> upb_MiniTableField_IsInOneof f" by (simp add: upb_MiniTableField_IsInOneof_def)
  show "upb_MiniTableField_HasHasbit f \<Longrightarrow> hasbit_byte f = unat (f_presence f) div 8"
    by (simp add: hasbit_byte_def upb_MiniTableField_HasbitOffset_def Let_def unat_div)
qed

lemma of_nat_inj_u16: "(of_nat m :: u16) = of_nat n \<Longrightarrow> m < 65536 \<Longrightarrow> n < 65536 \<Longrightarrow> m = n"
proof -
  assume e: "(of_nat m :: u16) = of_nat n" and b: "m < 65536" "n < 65536"
  have "unat (of_nat m :: u16) = m" "unat (of_nat n :: u16) = n"
    by (rule of_nat_inverse [OF refl], use b in simp)+
  then show "m = n" using e by metis
qed

lemma filter_nth_cnt: "i < length xs \<Longrightarrow> P (xs ! i) \<Longrightarrow> filter P xs ! cnt P (take i xs) = xs ! i"
proof -
  assume i: "i < length xs" "P (xs ! i)"
  have "filter P xs = filter P (take i xs) @ filter P (drop i xs)" by (metis append_take_drop_id filter_append)
  then show ?thesis using i by (simp add: nth_append Cons_nth_drop_Suc [symmetric])
qed

lemma oneof_reps_nth:
  "k < length items \<Longrightarrow> oneof_reps items ! (2 * k) = kUpb_FieldRep_4Byte \<and> oneof_reps items ! (2 * k + 1) = oi_rep (items ! k)"
proof (induction items arbitrary: k)
  case (Cons a items)
  then show ?case by (cases k) (auto simp: kUpb_OneOf_CaseFieldRep_def)
qed simp

text \<open>The layout in terms of slots: \<open>soff\<close> and \<open>ssz\<close> are the offset and size of a slot.\<close>

lemma layout_from_slots:
  fixes soff ssz vs cs :: "nat \<Rightarrow> nat"
  assumes slots: "\<And>j. j < m \<Longrightarrow> hb \<le> soff j \<and> soff j + ssz j \<le> unat (mt_size t)"
      "\<And>i j. i < m \<Longrightarrow> j < m \<Longrightarrow> i \<noteq> j \<Longrightarrow> apart (soff i) (ssz i) (soff j) (ssz j)"
    and size: "unat (mt_size t) \<le> 32768" and hb: "8 \<le> hb"
    and vals: "\<And>i. i < length (mt_fields t) \<Longrightarrow> vs i < m \<and> val_offset (mt_fields t ! i) = soff (vs i) \<and>
        0 < val_size p (mt_fields t ! i) \<and> val_size p (mt_fields t ! i) \<le> ssz (vs i) \<and>
        upb_MtDecoder_AlignOfRep (upb_MiniTableField_GetRep (mt_fields t ! i)) p dvd soff (vs i)"
    and member: "\<And>i. i < length (mt_fields t) \<Longrightarrow> i \<in> M \<Longrightarrow> cs i < m \<and> ssz (cs i) = 4 \<and> 4 dvd soff (cs i) \<and>
        f_presence (mt_fields t ! i) = NOT (of_nat (soff (cs i))) \<and> Suc (cs i) = vs i"
    and plain: "\<And>i. i < length (mt_fields t) \<Longrightarrow> i \<notin> M \<Longrightarrow>
        f_presence (mt_fields t ! i) = 0 \<or> 64 \<le> unat (f_presence (mt_fields t ! i)) \<and>
          unat (f_presence (mt_fields t ! i)) < 32768 \<and> unat (f_presence (mt_fields t ! i)) div 8 < hb"
    and inj: "\<And>i j. i < length (mt_fields t) \<Longrightarrow> j < length (mt_fields t) \<Longrightarrow> i \<noteq> j \<Longrightarrow> i \<notin> M \<Longrightarrow>
        vs i \<noteq> vs j \<and> (j \<notin> M \<longrightarrow> f_presence (mt_fields t ! i) = f_presence (mt_fields t ! j) \<longrightarrow> f_presence (mt_fields t ! i) = 0)"
    and step: "\<And>i j. i < length (mt_fields t) \<Longrightarrow> j < length (mt_fields t) \<Longrightarrow> i \<in> M \<Longrightarrow> cs i \<noteq> vs j"
  shows "layout_ok p t"
proof -
  let ?f = "\<lambda>i. mt_fields t ! i" and ?n = "length (mt_fields t)"
  have lt: "soff j < 32768" if "j < m" "0 < ssz j" for j using slots(1) [OF that(1)] size that(2) by linarith
  have M: "upb_MiniTableField_IsInOneof (?f i)" "case_offset (?f i) = soff (cs i)" if "i < ?n" "i \<in> M" for i
    using oneof_presence [of "?f i" "soff (cs i)"] member [OF that] lt [of "cs i"] by auto
  have P: "\<not> upb_MiniTableField_IsInOneof (?f i)"
    "upb_MiniTableField_HasHasbit (?f i) \<Longrightarrow> hasbit_byte (?f i) < hb \<and> 64 \<le> unat (f_presence (?f i))" if "i < ?n" "i \<notin> M" for i
  proof -
    have s: "unat (f_presence (?f i)) < 32768" using plain [OF that] by (auto simp: unat_eq_0)
    show "\<not> upb_MiniTableField_IsInOneof (?f i)" by (rule hasbit_presence(1) [OF s])
    show "upb_MiniTableField_HasHasbit (?f i) \<Longrightarrow> hasbit_byte (?f i) < hb \<and> 64 \<le> unat (f_presence (?f i))"
      using hasbit_presence(2) [OF s] plain [OF that] by (auto simp: upb_MiniTableField_HasHasbit_def)
  qed
  have hasbit: "i \<notin> M" if "i < ?n" "upb_MiniTableField_HasHasbit (?f i)" for i
    using M(1) [OF that(1)] that(2) by (auto simp: upb_MiniTableField_HasHasbit_def upb_MiniTableField_IsInOneof_def)
  have oneof: "i \<in> M" if "i < ?n" "upb_MiniTableField_IsInOneof (?f i)" for i using P(1) that by blast
  have all: "(\<forall>f \<in> set (mt_fields t). Q f) \<longleftrightarrow> (\<forall>i < ?n. Q (?f i))" for Q by (auto simp: all_set_conv_all_nth)
  have v: "soff (vs i) + val_size p (?f i) \<le> unat (mt_size t)" "hb \<le> soff (vs i)" if "i < ?n" for i
    using vals [OF that] slots(1) [of "vs i"] by auto
  have c: "soff (cs i) + 4 \<le> unat (mt_size t)" "hb \<le> soff (cs i)" if "i < ?n" "i \<in> M" for i
    using member [OF that] slots(1) [of "cs i"] by auto
  have "values_inside p t"
    unfolding values_inside_def all using vals v order.trans [OF hb v(2)] by auto
  moreover have "hasbits_apart t"
    unfolding hasbits_apart_def all
  proof (intro allI impI conjI)
    fix i j assume i: "i < ?n" "upb_MiniTableField_HasHasbit (?f i)"
    note h = P(2) [OF i(1) hasbit [OF i] i(2)]
    show "64 \<le> unat (f_presence (?f i))" using h by blast
    assume j: "j < ?n"
    show "hasbit_byte (?f i) < val_offset (?f j)" using h v(2) [OF j] vals [OF j] by linarith
    assume "upb_MiniTableField_IsInOneof (?f j)"
    then show "hasbit_byte (?f i) < case_offset (?f j)"
      using h c(2) [OF j] M(2) [OF j] oneof [OF j] by auto
  qed
  moreover have "cases_apart p t"
    unfolding cases_apart_def all
  proof (intro allI impI conjI)
    fix i j assume i: "i < ?n" "upb_MiniTableField_IsInOneof (?f i)"
    note m = oneof [OF i] and mem = member [OF i(1) oneof [OF i]]
    show "4 dvd case_offset (?f i)" "8 \<le> case_offset (?f i)" "case_offset (?f i) + 4 \<le> unat (mt_size t)"
      using M(2) [OF i(1) m] mem c [OF i(1) m] hb by auto
    assume j: "j < ?n"
    have "apart (soff (cs i)) (ssz (cs i)) (soff (vs j)) (ssz (vs j))"
      using slots(2) [of "cs i" "vs j"] step [OF i(1) j m] mem vals [OF j] by blast
    then show "apart (case_offset (?f i)) 4 (val_offset (?f j)) (val_size p (?f j))"
      using M(2) [OF i(1) m] mem vals [OF j] by (auto intro: apart_mono)
  qed
  moreover have "fields_apart p (?f i) (?f j)" if ij: "i < ?n" "j < ?n" "i \<noteq> j" for i j
  proof -
    have val: "apart (val_offset (?f i)) (val_size p (?f i)) (val_offset (?f j)) (val_size p (?f j))" if "vs i \<noteq> vs j"
      using slots(2) [of "vs i" "vs j"] that vals [OF ij(1)] vals [OF ij(2)] by (auto intro: apart_mono)
    show ?thesis
    proof (cases "i \<in> M \<and> j \<in> M")
      case True
      then have mi: "i \<in> M" and mj: "j \<in> M" by simp_all
      note mem = member [OF ij(1) mi] member [OF ij(2) mj]
      show ?thesis
      proof (cases "vs i = vs j")
        case True
        then have "cs i = cs j" using mem by linarith
        then have "f_presence (?f i) = f_presence (?f j)" using mem by simp
        then show ?thesis using M(1) [OF ij(1) mi] vals [OF ij(1)] vals [OF ij(2)] True by (simp add: fields_apart_def)
      next
        case False
        then have "cs i \<noteq> cs j" using mem by auto
        then have a: "apart (soff (cs i)) 4 (soff (cs j)) 4" using slots(2) [of "cs i" "cs j"] mem by auto
        then have "soff (cs i) \<noteq> soff (cs j)" by (auto simp: apart_def)
        moreover have "soff (cs i) < 65536" "soff (cs j) < 65536" using lt [of "cs i"] lt [of "cs j"] mem by auto
        ultimately have "(of_nat (soff (cs i)) :: u16) \<noteq> of_nat (soff (cs j))"
          using of_nat_inj_u16 by blast
        then have "f_presence (?f i) \<noteq> f_presence (?f j)" using mem by simp
        then show ?thesis using val [OF False] a M(2) [OF ij(1) mi] M(2) [OF ij(2) mj] by (simp add: fields_apart_def)
      qed
    next
      case False
      have ne: "vs i \<noteq> vs j" using inj [of i j] inj [of j i] ij False by metis
      have "\<not> (upb_MiniTableField_IsInOneof (?f i) \<and> upb_MiniTableField_IsInOneof (?f j))"
        using False oneof ij by blast
      moreover have "f_presence (?f i) = f_presence (?f j) \<longrightarrow>
          \<not> upb_MiniTableField_IsInOneof (?f i) \<and> f_presence (?f i) = 0"
      proof (intro impI)
        assume e: "f_presence (?f i) = f_presence (?f j)"
        then have "upb_MiniTableField_IsInOneof (?f i) = upb_MiniTableField_IsInOneof (?f j)"
          by (simp add: upb_MiniTableField_IsInOneof_def)
        then have "i \<notin> M" "j \<notin> M" using M(1) ij oneof False by blast+
        then show "\<not> upb_MiniTableField_IsInOneof (?f i) \<and> f_presence (?f i) = 0"
          using P(1) [OF ij(1)] inj [OF ij] e by blast
      qed
      ultimately show ?thesis using val [OF ne] by (auto simp: fields_apart_def)
    qed
  qed
  ultimately show ?thesis unfolding layout_ok_def by blast
qed

lemma val_size_pos: "0 < val_size p f"
  by (rule rep_sizes) simp

text \<open>The value slot of field \<open>i\<close>, and the case slot before it where \<open>i\<close> is a member.\<close>

definition value_slot :: "upb_MiniTableField list \<Rightarrow> nat list list \<Rightarrow> nat \<Rightarrow> nat" where
  "value_slot fs mss i =
     (if i \<in> set (concat mss) then cnt plain fs + 2 * (SOME k. k < length mss \<and> i \<in> set (mss ! k)) + 1
      else cnt plain (take i fs))"

lemma value_slot_member:
  assumes "i \<in> set (concat mss)"
  obtains k where "k < length mss" "i \<in> set (mss ! k)" "value_slot fs mss i = cnt plain fs + 2 * k + 1"
proof -
  have "\<exists>k. k < length mss \<and> i \<in> set (mss ! k)" using assms by (metis UN_iff in_set_conv_nth set_concat)
  from someI_ex [OF this] assms show thesis by (intro that [of "SOME k. k < length mss \<and> i \<in> set (mss ! k)"]) (simp_all add: value_slot_def)
qed

lemma laid_out:
  assumes run: "upb_MtDecoder_AssignHasbits d t = Ok d1" "with_table upb_MtDecoder_CalculateAlignments d1 = Ok d2"
      "with_table upb_MtDecoder_AssignOffsets d2 = Ok d3"
    and after: "after_fields n d" "n < 30000"
    and t3: "d_table d3 = Some t3" "0 < mt_size t3" "mt_size t3 \<le> 0x8000"
  shows "layout_ok (d_platform d) (table_view d3 t3)"
proof -
  let ?p = "d_platform d" and ?fs = "d_fields d1" and ?items = "d_oneofs d"
  obtain mss where P: "parsed ?p (d_fields d) ?items mss" and rc: "rep_counts_offsets d = rep_counts_of ?items"
    and l: "length (d_fields d) < 30000" using after by (auto simp: after_fields_def oneofs_parsed_def)
  have p0: "\<forall>f \<in> set (d_fields d). f_presence f = 0" "length (d_fields d) < 60000"
    using P l by (simp_all add: parsed_def)
  have fc: "unat (d_field_count d) = length (d_fields d)" using after_counted [OF after(1)] after(2) by simp
  obtain t1 where h: "hasbits_ok ?fs (unat (mt_size t1))" "8 \<le> unat (mt_size t1)" "length ?fs = length (d_fields d)"
    "\<And>i. i < length (d_fields d) \<Longrightarrow> ?fs ! i = (d_fields d ! i)\<lparr>f_presence := f_presence (?fs ! i)\<rparr>"
    "d1 = d\<lparr>d_fields := ?fs, d_table := Some t1\<rparr>"
    by (rule AssignHasbits_spec [OF run(1) p0 fc]) blast
  have d1: "d_table d1 = Some t1" "d_platform d1 = ?p" "d_oneofs d1 = ?items" "rep_counts_offsets d1 = rep_counts_of ?items"
    "d_field_count d1 = d_field_count d"
    using rc by (subst h(5), simp)+
  have c0: "chained ?p (d_fields d) ?items mss" using P by (auto simp: parsed_def chained_def plain_def)
  have keep: "f_offset (?fs ! i) = f_offset (d_fields d ! i) \<and> f_mode (?fs ! i) = f_mode (d_fields d ! i)"
    if "i < length (d_fields d)" for i
    by (subst (1 2) h(4) [OF that]) simp
  have c: "chained ?p ?fs ?items mss" by (rule chained_cong [OF c0 h(3) keep])
  let ?reps = "all_reps ?fs ?items"
  have run2: "upb_MtDecoder_CalculateAlignments d1 t1 = Ok d2" using run(2) d1(1) by (simp add: with_table_def)
  have l1: "length ?fs < 30000" using l h(3) by simp
  obtain b lim where b: "regions ?p b (count_list ?reps) (unat (mt_size t1)) lim [0..<4]"
    "counters ?p b (count_list ?reps) (\<lambda>_. 0) (rep_counts_offsets d2)" "unat (mt_size t1) \<le> lim" "lim < 65536"
    "d2 = d1\<lparr>rep_counts_offsets := rep_counts_offsets d2, d_table := Some (t1\<lparr>mt_size := of_nat lim\<rparr>)\<rparr>"
    using CalculateAlignments_spec [OF run2 _ _ l1, of mss] c d1 fc h(3) by auto
  have d2: "d_table d2 = Some (t1\<lparr>mt_size := of_nat lim\<rparr>)" "d_fields d2 = ?fs" "d_oneofs d2 = ?items" "d_platform d2 = ?p"
    "d_field_count d2 = d_field_count d"
    using d1 by (subst b(5), simp)+
  have run3: "upb_MtDecoder_AssignOffsets d2 (t1\<lparr>mt_size := of_nat lim\<rparr>) = Ok d3"
    using run(3) d2(1) by (simp add: with_table_def)
  define S where "S = alloc ?reps (\<lambda>_. 0)"
  define T where "T = d_fields d3"
  have fc2: "unat (d_field_count d) = length ?fs" using fc h(3) by simp
  note ao = AssignOffsets_spec [OF run3, unfolded d2, OF c b(2) refl S_def fc2, folded T_def]
  let ?soff = "\<lambda>j. slot_off ?p b (S ! j)" and ?ssz = "\<lambda>j. upb_MtDecoder_SizeOfRep (fst (S ! j)) ?p"
  let ?m = "length ?reps" and ?P = "cnt plain ?fs" and ?vs = "value_slot ?fs mss" and ?M = "set (concat mss)"
  have t3s: "mt_size t3 = of_nat (align_up lim 8)"
    using t3(1) b(4) by (subst (asm) ao(4)) (auto simp: unat_of_nat)
  have al: "lim \<le> align_up lim 8" "align_up lim 8 \<le> 65536" using align_up_ge [of 8 lim] b(4) by (auto simp: align_up_def)
  have "align_up lim 8 \<noteq> 65536" using t3(2) t3s by auto
  then have sz: "unat (mt_size t3) = align_up lim 8" using al(2) unfolding t3s by (intro of_nat_inverse [OF refl]) simp
  have S: "fst (S ! j) = ?reps ! j" "?reps ! j < 4" "S ! j = (?reps ! j, snd (S ! j))"
    "snd (S ! j) < count_list ?reps (?reps ! j)" if "j < ?m" for j
  proof -
    show 1: "fst (S ! j) = ?reps ! j" unfolding S_def by (rule fst_alloc [OF that])
    show "?reps ! j < 4" using all_reps_small [OF c] nth_mem [OF that] by auto
    show 2: "S ! j = (?reps ! j, snd (S ! j))" using 1 by (metis prod.collapse)
    have "S ! j \<in> set S" using that by (simp add: S_def)
    then show "snd (S ! j) < count_list ?reps (?reps ! j)" using alloc_range [of _ _ ?reps "\<lambda>_. 0"] 2 by (metis S_def add_0)
  qed
  have inside: "unat (mt_size t1) \<le> ?soff j" "?soff j + ?ssz j \<le> lim" "upb_MtDecoder_AlignOfRep (?reps ! j) ?p dvd ?soff j"
    if "j < ?m" for j
    using slot_inside [OF b(1) S(2,4) [OF that]] S(1,3) [OF that] by (simp_all only:)
  have disj: "apart (?soff i) (?ssz i) (?soff j) (?ssz j)" if "i < ?m" "j < ?m" "i \<noteq> j" for i j
  proof -
    have "S ! i \<noteq> S ! j" using that distinct_alloc [of ?reps "\<lambda>_. 0"] by (simp add: S_def nth_eq_iff_index_eq)
    then have "(?reps ! i, snd (S ! i)) \<noteq> (?reps ! j, snd (S ! j))" using S(3) that(1,2) by metis
    from slots_apart [OF b(1) S(2,4) [OF that(1)] S(2,4) [OF that(2)] this] show ?thesis
      using S(1,3) [OF that(1)] S(1,3) [OF that(2)] by (simp only:)
  qed
  have lT: "length T = length ?fs" by (rule ao(1))
  have lm: "?m = ?P + 2 * length ?items" "length mss = length ?items"
    using c list_all2_lengthD [of "oneof_ok ?fs" ?items mss] by (simp_all add: all_reps_def plain_reps_def chained_def)
  have plain_slot: "?vs i < ?P \<and> ?reps ! ?vs i = upb_MiniTableField_GetRep (?fs ! i) \<and> T ! i = (?fs ! i)\<lparr>f_offset := of_nat (?soff (?vs i))\<rparr>"
    if i: "i < length T" "i \<notin> ?M" for i
  proof -
    have p: "plain (?fs ! i)" "i < length ?fs" using chained_plain_iff [OF c, of i] i lT by auto
    have "?vs i = cnt plain (take i ?fs)" using i by (simp add: value_slot_def)
    then show ?thesis
      using ao(2) [OF p(2,1)] cnt_take_less_all [of i ?fs plain, OF p(2,1)] filter_nth_cnt [of i ?fs plain, OF p(2,1)]
      by (simp add: all_reps_def plain_reps_def nth_append)
  qed
  have member_slot: "\<exists>k. ?vs i = ?P + 2 * k + 1 \<and> k < length ?items \<and> ?reps ! (?P + 2 * k) = kUpb_FieldRep_4Byte \<and>
      fits ?p (upb_MiniTableField_GetRep (?fs ! i)) (?reps ! ?vs i) \<and>
      T ! i = (?fs ! i)\<lparr>f_presence := NOT (of_nat (?soff (?P + 2 * k))), f_offset := of_nat (?soff (?vs i))\<rparr>"
    if i: "i < length T" "i \<in> ?M" for i
  proof -
    obtain k where k: "k < length mss" "i \<in> set (mss ! k)" "?vs i = ?P + 2 * k + 1" by (rule value_slot_member [OF i(2)])
    have lp: "length (plain_reps ?fs) = ?P" by (simp add: plain_reps_def)
    have nth: "?reps ! (?P + j) = oneof_reps ?items ! j" for j by (simp add: all_reps_def lp [symmetric])
    have r: "?reps ! (?P + 2 * k) = kUpb_FieldRep_4Byte" "?reps ! ?vs i = oi_rep (?items ! k)"
      using oneof_reps_nth [of k ?items] k(1,3) lm(2) nth [of "2 * k"] nth [of "2 * k + 1"] by (simp_all only: add.assoc)
    have "fits ?p (upb_MiniTableField_GetRep (?fs ! i)) (oi_rep (?items ! k))"
      using c k(1,2) by (auto simp: chained_def list_all2_conv_all_nth)
    then show ?thesis using k ao(3) [OF k(1,2)] r lm(2) by (intro exI [of _ k]) simp
  qed
  have vs: "?vs i < ?m \<and> val_offset (T ! i) = ?soff (?vs i) \<and> fits ?p (upb_MiniTableField_GetRep (T ! i)) (?reps ! ?vs i)"
    if i: "i < length T" for i
  proof -
    have rep: "fits ?p (upb_MiniTableField_GetRep (?fs ! i)) (?reps ! ?vs i) \<and> ?vs i < ?m \<and>
      f_offset (T ! i) = of_nat (?soff (?vs i)) \<and> f_mode (T ! i) = f_mode (?fs ! i)"
      using plain_slot [OF i] member_slot [OF i] lm by (cases "i \<in> ?M") auto
    then have "?soff (?vs i) < 65536" using inside(2) [of "?vs i"] b(4) by linarith
    then have "val_offset (T ! i) = ?soff (?vs i)" using rep by (simp add: unat_of_nat)
    then show ?thesis using rep by (simp add: upb_MiniTableField_GetRep_def)
  qed
  have presence: "f_presence (T ! i) = f_presence (?fs ! i)" if "i < length T" "i \<notin> ?M" for i
    using plain_slot [OF that] by auto
  have hb: "f_presence (?fs ! i) = 0 \<or> 64 \<le> unat (f_presence (?fs ! i)) \<and>
      unat (f_presence (?fs ! i)) div 8 < unat (mt_size t1) \<and> unat (f_presence (?fs ! i)) < 64 + length ?fs"
    if "i < length T" for i
  proof -
    have "?fs ! i \<in> set ?fs" using that lT by simp
    from bspec [OF h(1) [unfolded hasbits_ok_def, THEN conjunct2] this] show ?thesis by (auto split: if_split_asm)
  qed
  have unique: "f_presence (?fs ! i) = 0"
    if "i < length ?fs" "j < length ?fs" "i \<noteq> j" "f_presence (?fs ! i) = f_presence (?fs ! j)" for i j
  proof (rule ccontr)
    let ?B = "{i. i < length ?fs \<and> (required (?fs ! i) \<or> optional (?fs ! i))}"
    assume nz: "f_presence (?fs ! i) \<noteq> 0"
    have B: "k \<in> ?B" if k: "k < length ?fs" "f_presence (?fs ! k) \<noteq> 0" for k
      using bspec [OF h(1) [unfolded hasbits_ok_def, THEN conjunct2] nth_mem [OF k(1)]] k by (auto split: if_split_asm)
    have "i \<in> ?B" "j \<in> ?B" using B [OF that(1) nz] B [OF that(2) nz [unfolded that(4)]] by (simp_all only:)
    moreover have "inj_on (\<lambda>i. f_presence (?fs ! i)) ?B" using h(1) by (simp add: hasbits_ok_def)
    ultimately show False using that by (auto dest: inj_onD)
  qed
  have tv: "mt_fields (table_view d3 t3) = T" "mt_size (table_view d3 t3) = mt_size t3" by (simp_all add: table_view_def T_def)
  show ?thesis
  proof (rule layout_from_slots [where m = ?m and hb = "unat (mt_size t1)" and soff = ?soff and ssz = ?ssz and vs = ?vs
        and cs = "\<lambda>i. ?vs i - 1" and M = ?M], unfold tv)
    fix i j assume i: "i < length T"
    show "?vs i < ?m \<and> val_offset (T ! i) = ?soff (?vs i) \<and> 0 < val_size ?p (T ! i) \<and> val_size ?p (T ! i) \<le> ?ssz (?vs i) \<and>
        upb_MtDecoder_AlignOfRep (upb_MiniTableField_GetRep (T ! i)) ?p dvd ?soff (?vs i)"
      using vs [OF i] inside(3) [of "?vs i"] S(1) [of "?vs i"] val_size_pos by (auto simp: fits_def intro: dvd_trans)
    assume j: "j < length T"
    show "?vs i \<noteq> ?vs j \<and> (j \<notin> ?M \<longrightarrow> f_presence (T ! i) = f_presence (T ! j) \<longrightarrow> f_presence (T ! i) = 0)"
      if "i \<noteq> j" "i \<notin> ?M"
    proof (cases "j \<in> ?M")
      case True
      then show ?thesis using plain_slot [OF i that(2)] member_slot [OF j] by auto
    next
      case False
      have "plain (?fs ! i)" "plain (?fs ! j)" using chained_plain_iff [OF c] i j that(2) False lT by auto
      then have "cnt plain (take i ?fs) \<noteq> cnt plain (take j ?fs)"
        using cnt_take_less [of i j ?fs plain] cnt_take_less [of j i ?fs plain] i j lT that(1) by (cases "i < j") auto
      moreover have "f_presence (?fs ! i) = 0" if "f_presence (?fs ! i) = f_presence (?fs ! j)"
        using unique [of i j] that i j lT \<open>i \<noteq> j\<close> by simp
      ultimately show ?thesis
        using that(2) False presence [OF i that(2)] presence [OF j False] by (simp add: value_slot_def)
    qed
    show "?vs i - 1 \<noteq> ?vs j" if m: "i \<in> ?M"
    proof -
      obtain k where k: "?vs i = ?P + 2 * k + 1" using member_slot [OF i m] by blast
      show ?thesis
      proof (cases "j \<in> ?M")
        case True
        then obtain k' where "?vs j = ?P + 2 * k' + 1" using member_slot [OF j] by blast
        then show ?thesis using k by presburger
      next
        case False
        then show ?thesis using plain_slot [OF j] k by auto
      qed
    qed
  next
    show "unat (mt_size t1) \<le> ?soff j \<and> ?soff j + ?ssz j \<le> unat (mt_size t3)" if "j < ?m" for j
      using inside [OF that] al(1) sz by linarith
    show "apart (?soff i) (?ssz i) (?soff j) (?ssz j)" if "i < ?m" "j < ?m" "i \<noteq> j" for i j
      using that by (rule disj)
    show "unat (mt_size t3) \<le> 32768" using t3(3) by (simp add: word_le_nat_alt)
    show "8 \<le> unat (mt_size t1)" by (rule h(2))
    fix i assume i: "i < length T"
    show "?vs i - 1 < ?m \<and> ?ssz (?vs i - 1) = 4 \<and> 4 dvd ?soff (?vs i - 1) \<and>
        f_presence (T ! i) = NOT (of_nat (?soff (?vs i - 1))) \<and> Suc (?vs i - 1) = ?vs i" if m: "i \<in> ?M"
    proof -
      obtain k where k: "?vs i = ?P + 2 * k + 1" "k < length ?items" "?reps ! (?P + 2 * k) = kUpb_FieldRep_4Byte"
        "f_presence (T ! i) = NOT (of_nat (?soff (?P + 2 * k)))" using member_slot [OF i m] by auto
      have j: "?P + 2 * k < ?m" using lm k(2) by linarith
      have "upb_MtDecoder_AlignOfRep 1 ?p = 4" "upb_MtDecoder_SizeOfRep 1 ?p = 4"
        by (simp_all add: upb_MtDecoder_AlignOfRep_def upb_MtDecoder_SizeOfRep_def)
      then show ?thesis using inside(3) [OF j] S(1) [OF j] k j by (simp add: field_mode_defs)
    qed
    show "f_presence (T ! i) = 0 \<or> 64 \<le> unat (f_presence (T ! i)) \<and> unat (f_presence (T ! i)) < 32768 \<and>
        unat (f_presence (T ! i)) div 8 < unat (mt_size t1)" if "i \<notin> ?M"
      using hb [OF i] presence [OF i that] l1 by auto
  qed
qed

lemma built_layout:
  assumes "upb_MiniTable_Build mem (kUpb_EncodedVersion_MessageV1 # data) p a = Ok (t, a')"
    "length data < 30000" "0 < mt_size t" "mt_size t \<le> 0x8000"
  shows "layout_ok p t"
proof -
  obtain a0 where m: "md_malloc mem 24 a = (True, a0)"
    using assms(1) by (cases "md_malloc mem 24 a")
      (auto simp: upb_MiniTable_Build_def upb_MiniTable_BuildWithBuf_def split: if_split_asm)
  let ?d = "\<lparr>d_table = Some initial_table, d_fields = [], d_field_count = 0, d_platform = p,
    d_oneofs = [], d_oneofs_capacity = 0, d_arena = a0, rep_counts_offsets = [0, 0, 0, 0]\<rparr>"
  from assms(1) m obtain d d1 d2 d3 t3 where run: "upb_MtDecoder_ParseMessage mem ?d data = Ok d"
    "with_table upb_MtDecoder_AssignHasbits d = Ok d1" "with_table upb_MtDecoder_CalculateAlignments d1 = Ok d2"
    "with_table upb_MtDecoder_AssignOffsets d2 = Ok d3" "d_table d3 = Some t3" "t = table_view d3 t3"
    by (auto simp: upb_MiniTable_Build_def upb_MiniTable_BuildWithBuf_def parse_version_def cbind_Ok_iff
        kUpb_EncodedVersion_MessageV1_def kUpb_EncodedVersion_MapV1_def with_table_def [of _ d3 for d3] split: option.split_asm)
  from run(2) obtain t0 where t0: "upb_MtDecoder_AssignHasbits d t0 = Ok d1"
    by (auto simp: with_table_def split: option.split_asm)
  have p: "after_fields (length data) d" "d_platform d = p" using ParseMessage_after [OF run(1)] assms(2) by auto
  have "mt_size t3 = mt_size t" by (simp add: run(6) table_view_def)
  then show ?thesis using laid_out [OF t0 run(3,4) p(1) assms(2) run(5)] assms(3,4) p(2) run(6) by simp
qed

section \<open>Properties\<close>

text \<open>C1: a message table that \<open>upb_MiniTable_Build\<close> makes from a descriptor of less than 30000 bytes lays
  its message out safely, as long as the message is not larger than 32 KiB and its size is not 0 (the
  wrap-around of the final rounding): every value is aligned, behind the header word and inside
  the message; the presence bits are distinct, behind the reserved ones and before every value; the case
  words of the oneofs are aligned, inside the message and apart from each other and from every value; and two
  values overlap only if they are members of the same oneof, which share one place. Longer descriptors
  are left out: in them the 16-bit count of fields and the 16-bit links of a oneof can wrap around. In
  messages above 32 KiB the offset of a oneof's case no longer fits the \<open>int16_t\<close> that holds it.\<close>

theorem built_layout_safe:
  assumes "upb_MiniTable_Build mem (kUpb_EncodedVersion_MessageV1 # data) p a = Ok (t, a')"
    "length data < 30000" "0 < mt_size t" "mt_size t \<le> 0x8000"
  shows "layout_ok p t"
  using assms by (rule built_layout)

text \<open>An \<open>int32\<close>, a \<open>bool\<close> and a oneof of a \<open>string\<close> and a \<open>uint32\<close>, with memory that never runs out.\<close>

definition plenty :: "unit md_memory" where
  "plenty = \<lparr>md_malloc = (\<lambda>_ a. (True, a)), md_shrink = (\<lambda>_ _ a. a), md_grealloc = (\<lambda>_ _ a. (True, a))\<rparr>"

theorem built_layout_safe_witness:
  "\<exists>t. upb_MiniTable_Build plenty (kUpb_EncodedVersion_MessageV1 # map of_char ''(/1)^$|%'') Platform_64Bit () = Ok (t, ()) \<and>
     mt_size t = 40 \<and> layout_ok Platform_64Bit t"
proof -
  let ?r = "upb_MiniTable_Build plenty (kUpb_EncodedVersion_MessageV1 # map of_char ''(/1)^$|%'') Platform_64Bit ()"
  have "case ?r of Ok (t, _) \<Rightarrow> mt_size t = 40 | _ \<Rightarrow> False" by code_simp
  then obtain t where t: "?r = Ok (t, ())" "mt_size t = 40" by (auto split: cres.splits)
  then have "layout_ok Platform_64Bit t" by (intro built_layout_safe [OF t(1)]) simp_all
  then show ?thesis using t by blast
qed

text \<open>The final rounding of a message's size to a multiple of 8 is done in 16 bits:
  \<open>upb_MtDecoder_CalculateAlignments\<close> lets sizes up to 65535 through, and
  \<open>upb_MtDecoder_AssignOffsets\<close> turns the ones above 65528 into 0.\<close>

theorem size_rounds_to_zero:
  assumes "upb_MtDecoder_AssignOffsets d t = Ok d'" "65528 < mt_size t"
  shows "\<exists>t'. d_table d' = Some t' \<and> mt_size t' = 0"
proof -
  have "unat (mt_size t) < 65536" using unsigned_less [of "mt_size t", where ?'a = nat] by simp
  moreover have "65528 < unat (mt_size t)" using assms(2) by (simp add: word_less_nat_alt)
  ultimately have "(unat (mt_size t) + 8 - 1) div 8 = 8192" by linarith
  then have "(of_nat (align_up (unat (mt_size t)) 8) :: u16) = 0" unfolding align_up_def by simp
  then show ?thesis using assms(1)
    by (auto simp: upb_MtDecoder_AssignOffsets_def cbind_Ok_iff split: prod.split_asm)
qed

theorem size_rounds_to_zero_witness:
  "\<exists>d' t'. upb_MtDecoder_AssignOffsets
      \<lparr>d_table = None, d_fields = [], d_field_count = 0, d_platform = Platform_64Bit, d_oneofs = [],
       d_oneofs_capacity = 0, d_arena = (), rep_counts_offsets = [0, 0, 0, 0]\<rparr>
      (initial_table\<lparr>mt_size := 65530\<rparr>) = Ok d' \<and> d_table d' = Some t' \<and> mt_size t' = 0"
proof -
  let ?d = "\<lparr>d_table = None, d_fields = [], d_field_count = 0, d_platform = Platform_64Bit, d_oneofs = [],
       d_oneofs_capacity = 0, d_arena = (), rep_counts_offsets = [0, 0, 0, 0]\<rparr>"
  obtain d' where "upb_MtDecoder_AssignOffsets ?d (initial_table\<lparr>mt_size := 65530\<rparr>) = Ok d'"
    by (simp add: upb_MtDecoder_AssignOffsets_def place_fields_def place_oneofs_def counted_fields_def uncounted_fields_def)
  from this size_rounds_to_zero [OF this] show ?thesis by auto
qed

end
