(* ===== verification/MessageProps.thy ===== *)
theory MessageProps
  imports Message MtLayout ArenaProps
begin

text \<open>
  The fields of a message are independent variables, except that setting a member of a oneof unsets the
  others. This rests on the layout that \<open>upb_MiniTable_Build\<close> gives the message.
\<close>

section \<open>Tables and messages\<close>

text \<open>The tables: laid out safely, every field with its own number, no extensions.\<close>

definition table_ok :: "upb_MiniTable \<Rightarrow> bool" where
  "table_ok t \<longleftrightarrow> layout_ok Platform_64Bit t \<and> unat (mt_size t) \<le> 32768 \<and>
     distinct (map f_number (mt_fields t)) \<and>
     (\<forall>f \<in> set (mt_fields t). f_number f \<noteq> 0 \<and> \<not> upb_MiniTableField_IsExtension f)"

definition message_at :: "mem \<Rightarrow> u64 \<Rightarrow> upb_MiniTable \<Rightarrow> bool" where
  "message_at m msg t \<longleftrightarrow> mapped m msg (unat (mt_size t)) \<and> upb_Message_IsFrozen m msg = Ok False"

definition same_oneof :: "upb_MiniTableField \<Rightarrow> upb_MiniTableField \<Rightarrow> bool" where
  "same_oneof f g \<longleftrightarrow> upb_MiniTableField_IsInOneof f \<and> f_presence f = f_presence g"

abbreviation fsize :: "upb_MiniTableField \<Rightarrow> nat" where
  "fsize f \<equiv> val_size Platform_64Bit f"

definition hasbit_mask :: "upb_MiniTableField \<Rightarrow> u8" where
  "hasbit_mask f = push_bit (unat (f_presence f mod 8)) 1"

lemma presence_cases:
  obtains (none) "f_presence f = 0" "\<not> upb_MiniTableField_HasHasbit f" "\<not> upb_MiniTableField_IsInOneof f"
  | (hasbit) "f_presence f \<noteq> 0" "upb_MiniTableField_HasHasbit f" "\<not> upb_MiniTableField_IsInOneof f"
  | (oneof) "f_presence f \<noteq> 0" "\<not> upb_MiniTableField_HasHasbit f" "upb_MiniTableField_IsInOneof f"
proof -
  consider "sint (f_presence f) = 0" | "0 < sint (f_presence f)" | "sint (f_presence f) < 0" by linarith
  then show thesis
    using that unfolding upb_MiniTableField_HasHasbit_def upb_MiniTableField_IsInOneof_def
    by cases (auto simp: signed_eq_0_iff)
qed

lemma data_size_Ok: "data_size f = Ok (fsize f)" "fsize f \<in> {1, 4, 8, 16}"
proof -
  have "upb_MiniTableField_GetRep f < 4" by (rule GetRep_less)
  then consider "upb_MiniTableField_GetRep f = 0" | "upb_MiniTableField_GetRep f = 1"
    | "upb_MiniTableField_GetRep f = 2" | "upb_MiniTableField_GetRep f = 3" by linarith
  then show "data_size f = Ok (fsize f)" "fsize f \<in> {1, 4, 8, 16}"
    by (cases; simp add: data_size_def field_mode_defs upb_MtDecoder_SizeOfRep_def Let_def)+
qed

section \<open>Where things are\<close>

lemma different_fields:
  assumes "table_ok t" "f \<in> set (mt_fields t)" "g \<in> set (mt_fields t)" "f \<noteq> g"
  shows "fields_apart Platform_64Bit f g" "f_number f \<noteq> f_number g"
proof -
  obtain i j where "i < length (mt_fields t)" "j < length (mt_fields t)" "f = mt_fields t ! i" "g = mt_fields t ! j"
    using assms(2,3) by (metis in_set_conv_nth)
  then show "fields_apart Platform_64Bit f g" "f_number f \<noteq> f_number g"
    using assms(1,4) by (auto simp: table_ok_def layout_ok_def distinct_conv_nth)
qed

lemma value_place:
  assumes "table_ok t" "f \<in> set (mt_fields t)"
  shows "8 \<le> val_offset f" "val_offset f + fsize f \<le> unat (mt_size t)" "unat (mt_size t) \<le> 32768"
  using assms by (auto simp: table_ok_def layout_ok_def values_inside_def)

lemma hasbit_place:
  assumes "table_ok t" "f \<in> set (mt_fields t)" "upb_MiniTableField_HasHasbit f"
  shows "8 \<le> hasbit_byte f" "hasbit_byte f + 1 \<le> unat (mt_size t)" "hasbit_byte f = unat (f_presence f) div 8"
    "\<And>g. g \<in> set (mt_fields t) \<Longrightarrow> apart (hasbit_byte f) 1 (val_offset g) (fsize g)"
    "\<And>g. g \<in> set (mt_fields t) \<Longrightarrow> upb_MiniTableField_IsInOneof g \<Longrightarrow> apart (hasbit_byte f) 1 (case_offset g) 4"
proof -
  show h: "hasbit_byte f = unat (f_presence f) div 8"
    using assms(3) by (simp add: hasbit_byte_def upb_MiniTableField_HasbitOffset_def Let_def unat_div)
  have "hasbits_apart t" using assms(1) by (simp add: table_ok_def layout_ok_def)
  then have b: "64 \<le> unat (f_presence f)"
    "\<And>g. g \<in> set (mt_fields t) \<Longrightarrow> hasbit_byte f < val_offset g"
    "\<And>g. g \<in> set (mt_fields t) \<Longrightarrow> upb_MiniTableField_IsInOneof g \<Longrightarrow> hasbit_byte f < case_offset g"
    using assms(2,3) by (auto simp: hasbits_apart_def)
  show "8 \<le> hasbit_byte f" using b(1) unfolding h by linarith
  show "hasbit_byte f + 1 \<le> unat (mt_size t)" using b(2) [OF assms(2)] value_place [OF assms(1,2)] by linarith
  show "apart (hasbit_byte f) 1 (val_offset g) (fsize g)" if "g \<in> set (mt_fields t)" for g
    using b(2) [OF that] by (simp add: apart_def)
  show "apart (hasbit_byte f) 1 (case_offset g) 4" if "g \<in> set (mt_fields t)" "upb_MiniTableField_IsInOneof g" for g
    using b(3) [OF that] by (simp add: apart_def)
qed

lemma case_place:
  assumes "table_ok t" "f \<in> set (mt_fields t)" "upb_MiniTableField_IsInOneof f"
  shows "8 \<le> case_offset f" "case_offset f + 4 \<le> unat (mt_size t)"
    "\<And>g. g \<in> set (mt_fields t) \<Longrightarrow> apart (case_offset f) 4 (val_offset g) (fsize g)"
    "\<And>g. g \<in> set (mt_fields t) \<Longrightarrow> upb_MiniTableField_IsInOneof g \<Longrightarrow> \<not> same_oneof f g \<Longrightarrow>
       apart (case_offset f) 4 (case_offset g) 4"
    "\<And>g. same_oneof f g \<Longrightarrow> case_offset g = case_offset f"
proof -
  have c: "cases_apart Platform_64Bit t" using assms(1) by (simp add: table_ok_def layout_ok_def)
  then show "8 \<le> case_offset f" "case_offset f + 4 \<le> unat (mt_size t)"
    "\<And>g. g \<in> set (mt_fields t) \<Longrightarrow> apart (case_offset f) 4 (val_offset g) (fsize g)"
    using assms(2,3) by (auto simp: cases_apart_def)
  show "apart (case_offset f) 4 (case_offset g) 4"
    if "g \<in> set (mt_fields t)" "upb_MiniTableField_IsInOneof g" "\<not> same_oneof f g" for g
  proof -
    have "f \<noteq> g" using that(3) assms(3) by (auto simp: same_oneof_def)
    from different_fields(1) [OF assms(1,2) that(1) this] show ?thesis
      using that assms(3) by (auto simp: fields_apart_def same_oneof_def)
  qed
  show "case_offset g = case_offset f" if "same_oneof f g" for g
    using that by (simp add: same_oneof_def case_offset_def upb_MiniTableField_OneofOffset_def upb_MiniTableField_IsInOneof_def)
qed

lemma values_apart:
  assumes "table_ok t" "f \<in> set (mt_fields t)" "g \<in> set (mt_fields t)" "f \<noteq> g" "\<not> same_oneof f g"
  shows "apart (val_offset f) (fsize f) (val_offset g) (fsize g)"
  using different_fields(1) [OF assms(1-4)] assms(5) by (auto simp: fields_apart_def same_oneof_def)

lemma hasbits_differ:
  assumes "table_ok t" "f \<in> set (mt_fields t)" "g \<in> set (mt_fields t)" "f \<noteq> g"
    and "upb_MiniTableField_HasHasbit f" "upb_MiniTableField_HasHasbit g" "hasbit_byte f = hasbit_byte g"
  shows "hasbit_mask f AND hasbit_mask g = 0"
proof -
  have "f_presence f \<noteq> 0" "\<not> upb_MiniTableField_IsInOneof f"
    using assms(5) by (auto simp: upb_MiniTableField_HasHasbit_def upb_MiniTableField_IsInOneof_def)
  then have ne: "f_presence f \<noteq> f_presence g"
    using different_fields(1) [OF assms(1-4)] by (auto simp: fields_apart_def)
  have "unat (f_presence f) div 8 = unat (f_presence g) div 8"
    using hasbit_place(3) [OF assms(1,2,5)] hasbit_place(3) [OF assms(1,3,6)] assms(7) by simp
  moreover have "unat (f_presence f) \<noteq> unat (f_presence g)" using ne by (simp add: word_unat_eq_iff)
  ultimately have "unat (f_presence f) mod 8 \<noteq> unat (f_presence g) mod 8" by (metis div_mult_mod_eq)
  then have "unat (f_presence f mod 8) \<noteq> unat (f_presence g mod 8)" by (simp add: unat_mod)
  then show ?thesis
    unfolding hasbit_mask_def by (intro bit_word_eqI) (auto simp: bit_simps)
qed

section \<open>The accessors by places\<close>

lemma ucast_offset: "(ucast (w :: u16) :: u64) = of_nat (unat w)"
proof -
  have "unat w < 2 ^ 16" using unsigned_less [of w] by simp
  then have "unat (of_nat (unat w) :: u64) = unat w" by (intro unat_of_nat64) (rule less_trans, assumption, simp)
  then show ?thesis by (simp only: word_unat_eq_iff unat_ucast_up) (simp add: unat_ucast_up)
qed

lemma hasbit_ptr:
  assumes "upb_MiniTableField_HasHasbit f"
  shows "cbind (upb_MiniTableField_HasbitOffset f) (\<lambda>offset. cbind (upb_MiniTableField_HasbitMask f) (\<lambda>mask. r (ucast offset) mask)) =
    (r (of_nat (hasbit_byte f)) (hasbit_mask f) :: (unit, 'a) cres)"
  using assms
  by (simp add: hasbit_byte_def hasbit_mask_def upb_MiniTableField_HasbitOffset_def upb_MiniTableField_HasbitMask_def
      Let_def ucast_offset)

lemma case_ptr:
  assumes "upb_MiniTableField_IsInOneof f"
  shows "upb_Message_OneofCasePtr msg f = Ok (msg + of_nat (case_offset f))"
proof -
  let ?w = "NOT (scast (f_presence f)) :: u64"
  have o1: "upb_MiniTableField_OneofOffset f = (Ok ?w :: (unit, u64) cres)"
    by (simp only: upb_MiniTableField_OneofOffset_def cassert_def assms if_True)
  then have "case_offset f = unat ?w" by (simp only: case_offset_def cres.case)
  then show ?thesis by (simp only: upb_Message_OneofCasePtr_def o1 cbind.simps of_nat_unat ucast_id)
qed

lemma data_ptr:
  "upb_Message_DataPtr msg f = msg + of_nat (val_offset f)" "upb_Message_MutableDataPtr msg f = msg + of_nat (val_offset f)"
  by (simp_all only: upb_Message_DataPtr_def upb_Message_MutableDataPtr_def ucast_offset)

lemma HasBaseField_eq:
  assumes "table_ok t" "f \<in> set (mt_fields t)"
  shows "upb_Message_HasBaseField m msg f =
    (if upb_MiniTableField_HasHasbit f then
       cbind (load8 m (msg + of_nat (hasbit_byte f))) (\<lambda>b. Ok (b AND hasbit_mask f \<noteq> 0))
     else if upb_MiniTableField_IsInOneof f then
       cbind (load32 m (msg + of_nat (case_offset f))) (\<lambda>c. Ok (c = f_number f))
     else UB)"
proof -
  have e: "\<not> upb_MiniTableField_IsExtension f" using assms by (simp add: table_ok_def)
  show ?thesis
    by (cases f rule: presence_cases)
      (simp_all add: e upb_Message_HasBaseField_def upb_MiniTableField_HasPresence_def upb_Message_GetHasbit_def
        upb_Message_GetOneofCase_def case_ptr cassert_def hasbit_ptr [of f "\<lambda>off mask. cbind (load8 m (msg + off)) (\<lambda>b. Ok (b AND mask \<noteq> 0))"])
qed

text \<open>Whether a default value counts as zero.\<close>

definition is_zero :: "upb_MiniTableField \<Rightarrow> bytes \<Rightarrow> bool" where
  "is_zero f d \<longleftrightarrow>
     (if upb_MiniTableField_GetRep f = kUpb_FieldRep_StringView then le_word (take 8 (drop 8 d)) = 0
      else take (fsize f) d = replicate (fsize f) 0)"

lemma DataIsZero_eq:
  assumes "fsize f \<le> length d"
  shows "upb_MiniTableField_DataIsZero m f d = Ok (is_zero f d)"
proof -
  have "fsize f \<le> 16" using data_size_Ok(2) [of f] by auto
  moreover have "le_word (replicate 8 0) = 0" by (simp add: le_word_def numeral_eq_Suc)
  ultimately show ?thesis
    using assms
    by (auto simp: upb_MiniTableField_DataIsZero_def upb_MiniTableField_DataEquals_def data_size_Ok cassert_def
        string_views_equal_def is_zero_def Let_def min_def)
qed

lemma GetNonExtensionField_eq:
  assumes "table_ok t" "f \<in> set (mt_fields t)" "fsize f \<le> length d"
  shows "upb_Message_GetNonExtensionField m msg f d =
    cbind (if upb_MiniTableField_IsInOneof f \<or> \<not> is_zero f d then upb_Message_HasBaseField m msg f else Ok True) (\<lambda>has.
      if has then load m (msg + of_nat (val_offset f)) (fsize f) else Ok (take (fsize f) d))"
proof -
  have e: "\<not> upb_MiniTableField_IsExtension f" using assms by (simp add: table_ok_def)
  show ?thesis
    using assms(3)
    by (cases "upb_Message_HasBaseField m msg f")
      (simp_all add: e upb_Message_GetNonExtensionField_def DataIsZero_eq upb_MiniTableField_DataCopy_local_def
        upb_MiniTableField_DataLoad_def data_size_Ok data_ptr cassert_def)
qed

section \<open>What a store changes\<close>

lemma frame_at:
  assumes s: "store m (msg + of_nat p) bs = Ok m'" and a: "apart p (length bs) q k" and b: "p + length bs \<le> 32768" "q + k \<le> 32768"
  shows "load m' (msg + of_nat q) k = load m (msg + of_nat q) k"
    "k = 1 \<Longrightarrow> load8 m' (msg + of_nat q) = load8 m (msg + of_nat q)"
    "k = 4 \<Longrightarrow> load32 m' (msg + of_nat q) = load32 m (msg + of_nat q)"
    "k = 8 \<Longrightarrow> load64 m' (msg + of_nat q) = load64 m (msg + of_nat q)"
proof -
  have d: "range_of (msg + of_nat q) k \<inter> range_of (msg + of_nat p) (length bs) = {}"
    using a b by (intro ranges_apart) (auto simp: apart_def)
  show l: "load m' (msg + of_nat q) k = load m (msg + of_nat q) k"
    using load_store_other [OF s d] b by simp
  show "k = 1 \<Longrightarrow> load8 m' (msg + of_nat q) = load8 m (msg + of_nat q)"
    "k = 4 \<Longrightarrow> load32 m' (msg + of_nat q) = load32 m (msg + of_nat q)"
    "k = 8 \<Longrightarrow> load64 m' (msg + of_nat q) = load64 m (msg + of_nat q)"
    using l by (simp_all add: load8_def load32_def load64_def)
qed

text \<open>Only bytes of the message behind its header are written.\<close>

definition within :: "upb_MiniTable \<Rightarrow> u64 \<Rightarrow> mem \<Rightarrow> mem \<Rightarrow> bool" where
  "within t msg m m' \<longleftrightarrow> (\<forall>a. a \<notin> range_of msg (unat (mt_size t)) \<longrightarrow> m' a = m a) \<and>
     (\<forall>a. m' a = None \<longleftrightarrow> m a = None) \<and> load64 m' msg = load64 m msg"

lemma within_refl: "within t msg m m"
  by (simp add: within_def)

lemma within_trans: "within t msg m m' \<Longrightarrow> within t msg m' m'' \<Longrightarrow> within t msg m m''"
  by (simp add: within_def)

lemma within_message: "within t msg m m' \<Longrightarrow> message_at m msg t \<Longrightarrow> message_at m' msg t"
  by (simp add: within_def message_at_def mapped_def upb_Message_IsFrozen_def)

lemma store_within:
  assumes "store m (msg + of_nat p) bs = Ok m'" "8 \<le> p" "p + length bs \<le> unat (mt_size t)" "unat (mt_size t) \<le> 32768"
  shows "within t msg m m'"
proof -
  have "m' a = m a" if "a \<notin> range_of msg (unat (mt_size t))" for a
  proof -
    have "range_of (msg + of_nat p) (length bs) \<subseteq> range_of msg (unat (mt_size t))"
      using assms(3,4) by (intro range_of_offset) auto
    then have "a \<notin> range_of (msg + of_nat p) (length bs)" using that by blast
    moreover have "length bs \<le> 2 ^ 64" using assms(3,4) by simp
    ultimately show ?thesis using assms(1) by (simp add: store_Ok_iff)
  qed
  moreover have "load64 m' (msg + of_nat 0) = load64 m (msg + of_nat 0)"
    using assms(2-4) by (intro frame_at(4) [OF assms(1)]) (auto simp: apart_def)
  ultimately show ?thesis using store_mapped [OF assms(1)] by (simp add: within_def)
qed

lemma store_at:
  assumes "message_at m msg t" "p + length bs \<le> unat (mt_size t)" "unat (mt_size t) \<le> 32768"
  obtains m' where "store m (msg + of_nat p) bs = Ok m'"
proof -
  have "range_of (msg + of_nat p) (length bs) \<subseteq> range_of msg (unat (mt_size t))"
    using assms(2,3) by (intro range_of_offset) auto
  then have "mapped m (msg + of_nat p) (length bs)" using assms(1) by (auto simp: message_at_def mapped_def)
  moreover have "length bs \<le> 2 ^ 64" using assms(2,3) by simp
  ultimately show thesis using that store_exists by blast
qed

lemma load_at:
  assumes "message_at m msg t" "p + n \<le> unat (mt_size t)" "unat (mt_size t) \<le> 32768"
  obtains bs where "load m (msg + of_nat p) n = Ok bs" "length bs = n"
proof -
  have "range_of (msg + of_nat p) n \<subseteq> range_of msg (unat (mt_size t))"
    using assms(2,3) by (intro range_of_offset) auto
  then have "mapped m (msg + of_nat p) n" using assms(1) by (auto simp: message_at_def mapped_def)
  moreover have "n \<le> 2 ^ 64" using assms(2,3) by simp
  ultimately show thesis using that load_exists by blast
qed

lemma load8_at:
  assumes "message_at m msg t" "p + 1 \<le> unat (mt_size t)" "unat (mt_size t) \<le> 32768"
  obtains b where "load8 m (msg + of_nat p) = Ok b"
  by (rule load_at [OF assms]) (rule that, simp only: load8_def cbind.simps)

lemma load32_at:
  assumes "message_at m msg t" "p + 4 \<le> unat (mt_size t)" "unat (mt_size t) \<le> 32768"
  obtains c where "load32 m (msg + of_nat p) = Ok c"
  by (rule load_at [OF assms]) (rule that, simp only: load32_def cbind.simps)

lemma store8_at:
  assumes "message_at m msg t" "p + 1 \<le> unat (mt_size t)" "unat (mt_size t) \<le> 32768"
  obtains m' where "store8 m (msg + of_nat p) b = Ok m'"
  by (rule store_at [OF assms(1) _ assms(3), of p "[b]"]) (use assms(2) that in \<open>simp_all add: store8_def\<close>)

lemma store32_at:
  assumes "message_at m msg t" "p + 4 \<le> unat (mt_size t)" "unat (mt_size t) \<le> 32768"
  obtains m' where "store32 m (msg + of_nat p) c = Ok m'"
  by (rule store_at [OF assms(1) _ assms(3), of p "le_bytes 4 (ucast c)"])
    (use assms(2) that in \<open>simp_all add: store32_def\<close>)

text \<open>The three kinds of writes: presence bits, cases, values.\<close>

lemma hasbit_store:
  assumes t: "table_ok t" "f \<in> set (mt_fields t)" "upb_MiniTableField_HasHasbit f"
    and l: "load8 m (msg + of_nat (hasbit_byte f)) = Ok b"
    and s: "store8 m (msg + of_nat (hasbit_byte f)) b' = Ok m'"
    and other: "\<And>mask. mask AND hasbit_mask f = 0 \<Longrightarrow> b' AND mask = b AND mask"
  shows "within t msg m m'" "upb_Message_HasBaseField m' msg f = Ok (b' AND hasbit_mask f \<noteq> 0)"
    "\<And>g. g \<in> set (mt_fields t) \<Longrightarrow> load m' (msg + of_nat (val_offset g)) (fsize g) = load m (msg + of_nat (val_offset g)) (fsize g)"
    "\<And>g. g \<in> set (mt_fields t) \<Longrightarrow> g \<noteq> f \<Longrightarrow> upb_Message_HasBaseField m' msg g = upb_Message_HasBaseField m msg g"
proof -
  note p = hasbit_place [OF t] and v = value_place [OF t(1)]
  have st: "store m (msg + of_nat (hasbit_byte f)) [b'] = Ok m'" using s by (simp add: store8_def)
  have sz: "hasbit_byte f + length [b'] \<le> 32768" using p(2) v(3) [OF t(2)] by simp
  show "within t msg m m'" using p(1,2) v(3) [OF t(2)] by (intro store_within [OF st]) simp_all
  have l': "load8 m' (msg + of_nat (hasbit_byte f)) = Ok b'" by (rule load8_same [OF s])
  show "upb_Message_HasBaseField m' msg f = Ok (b' AND hasbit_mask f \<noteq> 0)"
    using t(3) by (simp add: HasBaseField_eq [OF t(1,2)] l')
  fix g assume g: "g \<in> set (mt_fields t)"
  show "load m' (msg + of_nat (val_offset g)) (fsize g) = load m (msg + of_nat (val_offset g)) (fsize g)"
    using p(4) [OF g] v(2,3) [OF g] by (intro frame_at(1) [OF st _ sz]) simp_all
  assume ne: "g \<noteq> f"
  show "upb_Message_HasBaseField m' msg g = upb_Message_HasBaseField m msg g"
  proof (cases g rule: presence_cases)
    case hasbit
    note q = hasbit_place [OF t(1) g hasbit(2)]
    show ?thesis
    proof (cases "hasbit_byte g = hasbit_byte f")
      case True
      have "hasbit_mask g AND hasbit_mask f = 0" by (rule hasbits_differ [OF t(1) g t(2) ne hasbit(2) t(3) True])
      then show ?thesis using hasbit(2) other by (simp add: HasBaseField_eq [OF t(1) g] True l l')
    next
      case False
      have "load8 m' (msg + of_nat (hasbit_byte g)) = load8 m (msg + of_nat (hasbit_byte g))"
        using False q(2) v(3) [OF g] by (intro frame_at(2) [OF st _ sz]) (auto simp: apart_def)
      then show ?thesis using hasbit(2) by (simp add: HasBaseField_eq [OF t(1) g])
    qed
  next
    case oneof
    have "load32 m' (msg + of_nat (case_offset g)) = load32 m (msg + of_nat (case_offset g))"
      using p(5) [OF g oneof(3)] case_place(2) [OF t(1) g oneof(3)] v(3) [OF g]
      by (intro frame_at(3) [OF st _ sz]) simp_all
    then show ?thesis using oneof by (simp add: HasBaseField_eq [OF t(1) g])
  qed (simp add: HasBaseField_eq [OF t(1) g])
qed

lemma case_store:
  assumes t: "table_ok t" "f \<in> set (mt_fields t)" "upb_MiniTableField_IsInOneof f"
    and s: "store32 m (msg + of_nat (case_offset f)) c = Ok m'"
  shows "within t msg m m'"
    "\<And>g. g \<in> set (mt_fields t) \<Longrightarrow> load m' (msg + of_nat (val_offset g)) (fsize g) = load m (msg + of_nat (val_offset g)) (fsize g)"
    "\<And>g. g \<in> set (mt_fields t) \<Longrightarrow> upb_Message_HasBaseField m' msg g =
       (if same_oneof f g then Ok (c = f_number g) else upb_Message_HasBaseField m msg g)"
proof -
  note p = case_place [OF t] and v = value_place [OF t(1)]
  have st: "store m (msg + of_nat (case_offset f)) (le_bytes 4 (ucast c)) = Ok m'" using s by (simp add: store32_def)
  have sz: "case_offset f + length (le_bytes 4 (ucast c)) \<le> 32768" using p(2) v(3) [OF t(2)] by simp
  show "within t msg m m'" using p(1,2) v(3) [OF t(2)] by (intro store_within [OF st]) simp_all
  fix g assume g: "g \<in> set (mt_fields t)"
  show "load m' (msg + of_nat (val_offset g)) (fsize g) = load m (msg + of_nat (val_offset g)) (fsize g)"
    using p(3) [OF g] v(2,3) [OF g] by (intro frame_at(1) [OF st _ sz]) simp_all
  show "upb_Message_HasBaseField m' msg g =
      (if same_oneof f g then Ok (c = f_number g) else upb_Message_HasBaseField m msg g)"
  proof (cases g rule: presence_cases)
    case hasbit
    have "apart (case_offset f) 4 (hasbit_byte g) 1"
      using hasbit_place(5) [OF t(1) g hasbit(2) t(2,3)] by (simp add: apart_sym)
    then have "load8 m' (msg + of_nat (hasbit_byte g)) = load8 m (msg + of_nat (hasbit_byte g))"
      using hasbit_place(2) [OF t(1) g hasbit(2)] v(3) [OF g] by (intro frame_at(2) [OF st _ sz]) simp_all
    moreover have "\<not> same_oneof f g" using t(3) hasbit(3) by (auto simp: same_oneof_def upb_MiniTableField_IsInOneof_def)
    ultimately show ?thesis using hasbit(2) by (simp add: HasBaseField_eq [OF t(1) g])
  next
    case oneof
    show ?thesis
    proof (cases "same_oneof f g")
      case True
      then show ?thesis using oneof load32_same [OF s] p(5) by (simp add: HasBaseField_eq [OF t(1) g])
    next
      case False
      have "load32 m' (msg + of_nat (case_offset g)) = load32 m (msg + of_nat (case_offset g))"
        using p(4) [OF g oneof(3) False] case_place(2) [OF t(1) g oneof(3)] v(3) [OF g]
        by (intro frame_at(3) [OF st _ sz]) simp_all
      then show ?thesis using oneof False by (simp add: HasBaseField_eq [OF t(1) g])
    qed
  next
    case none
    then have "\<not> same_oneof f g" using t(3) by (auto simp: same_oneof_def upb_MiniTableField_IsInOneof_def)
    then show ?thesis using none by (simp add: HasBaseField_eq [OF t(1) g])
  qed
qed

lemma value_store:
  assumes t: "table_ok t" "f \<in> set (mt_fields t)"
    and s: "store m (msg + of_nat (val_offset f)) bs = Ok m'" and len: "length bs = fsize f"
  shows "within t msg m m'" "load m' (msg + of_nat (val_offset f)) (fsize f) = Ok bs"
    "\<And>g. g \<in> set (mt_fields t) \<Longrightarrow> upb_Message_HasBaseField m' msg g = upb_Message_HasBaseField m msg g"
    "\<And>g. g \<in> set (mt_fields t) \<Longrightarrow> g \<noteq> f \<Longrightarrow> \<not> same_oneof f g \<Longrightarrow>
       load m' (msg + of_nat (val_offset g)) (fsize g) = load m (msg + of_nat (val_offset g)) (fsize g)"
proof -
  note v = value_place [OF t(1)]
  have sz: "val_offset f + length bs \<le> 32768" using v(2,3) [OF t(2)] len by simp
  show "within t msg m m'" using v [OF t(2)] len by (intro store_within [OF s]) simp_all
  show "load m' (msg + of_nat (val_offset f)) (fsize f) = Ok bs"
    using load_store_same [OF s] sz len by simp
  fix g assume g: "g \<in> set (mt_fields t)"
  show "upb_Message_HasBaseField m' msg g = upb_Message_HasBaseField m msg g"
  proof (cases g rule: presence_cases)
    case hasbit
    have "load8 m' (msg + of_nat (hasbit_byte g)) = load8 m (msg + of_nat (hasbit_byte g))"
      using hasbit_place(2,4) [OF t(1) g hasbit(2)] t(2) v(3) [OF g] len
      by (intro frame_at(2) [OF s _ sz]) (simp_all add: apart_sym)
    then show ?thesis using hasbit by (simp add: HasBaseField_eq [OF t(1) g])
  next
    case oneof
    have "load32 m' (msg + of_nat (case_offset g)) = load32 m (msg + of_nat (case_offset g))"
      using case_place(2,3) [OF t(1) g oneof(3)] t(2) v(3) [OF g] len
      by (intro frame_at(3) [OF s _ sz]) (simp_all add: apart_sym)
    then show ?thesis using oneof by (simp add: HasBaseField_eq [OF t(1) g])
  qed (simp add: HasBaseField_eq [OF t(1) g])
  show "load m' (msg + of_nat (val_offset g)) (fsize g) = load m (msg + of_nat (val_offset g)) (fsize g)"
    if "g \<noteq> f" "\<not> same_oneof f g"
    using values_apart [OF t(1,2) g that(1) [symmetric] that(2)] v(2,3) [OF g] len
    by (intro frame_at(1) [OF s _ sz]) simp_all
qed

section \<open>The accessors\<close>

definition field_bytes :: "mem \<Rightarrow> u64 \<Rightarrow> upb_MiniTableField \<Rightarrow> (unit, bytes) cres" where
  "field_bytes m msg f = load m (msg + of_nat (val_offset f)) (fsize f)"

definition put_bytes :: "mem \<Rightarrow> u64 \<Rightarrow> upb_MiniTableField \<Rightarrow> bytes \<Rightarrow> (unit, mem) cres" where
  "put_bytes m msg f bs = store m (msg + of_nat (val_offset f)) bs"

lemmas hasbit_stored = hasbit_store [folded field_bytes_def]
lemmas case_stored = case_store [folded field_bytes_def]
lemmas value_stored = value_store [folded field_bytes_def put_bytes_def]
lemmas Get_eq = GetNonExtensionField_eq [folded field_bytes_def]

lemma Get_same:
  assumes "table_ok t" "g \<in> set (mt_fields t)" "fsize g \<le> length d"
    and "upb_Message_HasBaseField m' msg g = upb_Message_HasBaseField m msg g"
    and "field_bytes m' msg g = field_bytes m msg g"
  shows "upb_Message_GetNonExtensionField m' msg g d = upb_Message_GetNonExtensionField m msg g d"
  unfolding Get_eq [OF assms(1-3)] assms(4,5) ..

lemma Get_absent:
  assumes "table_ok t" "g \<in> set (mt_fields t)" "fsize g \<le> length d"
    and "upb_MiniTableField_IsInOneof g" "upb_Message_HasBaseField m msg g = Ok False"
  shows "upb_Message_GetNonExtensionField m msg g d = Ok (take (fsize g) d)"
  using assms(4,5) by (simp add: Get_eq [OF assms(1-3)])

lemma hasbit_mask_bits:
  "hasbit_mask f AND hasbit_mask f \<noteq> 0" "(b OR hasbit_mask f) AND hasbit_mask f \<noteq> 0" "(b AND NOT (hasbit_mask f)) AND hasbit_mask f = 0"
  "mk AND hasbit_mask f = 0 \<Longrightarrow> (b OR hasbit_mask f) AND mk = b AND mk"
  "mk AND hasbit_mask f = 0 \<Longrightarrow> (b AND NOT (hasbit_mask f)) AND mk = b AND mk"
proof -
  have "f_presence f mod 8 < 8" by (rule word_mod_less_divisor) simp
  then have k: "unat (f_presence f mod 8) < 8" by (simp add: word_less_nat_alt)
  then have bit: "bit (hasbit_mask f) (unat (f_presence f mod 8))" by (simp add: hasbit_mask_def bit_simps)
  have ne: "w \<noteq> 0" if "bit w (unat (f_presence f mod 8))" for w :: u8 using that by auto
  show "hasbit_mask f AND hasbit_mask f \<noteq> 0" "(b OR hasbit_mask f) AND hasbit_mask f \<noteq> 0"
    using bit by (intro ne; simp add: bit_simps)+
  show "(b AND NOT (hasbit_mask f)) AND hasbit_mask f = 0" by (intro bit_word_eqI) (simp add: bit_simps)
  assume "mk AND hasbit_mask f = 0"
  then have no: "\<not> (bit mk n \<and> bit (hasbit_mask f) n)" for n by (metis bit_and_iff bit_0_eq bot_apply bot_bool_def)
  show "(b OR hasbit_mask f) AND mk = b AND mk" using no by (intro bit_word_eqI) (auto simp: bit_simps)
  show "(b AND NOT (hasbit_mask f)) AND mk = b AND mk" using no by (intro bit_word_eqI) (auto simp: bit_simps)
qed

text \<open>What the three operations on a field do to the fields of the message.\<close>

definition marked :: "upb_MiniTable \<Rightarrow> u64 \<Rightarrow> upb_MiniTableField \<Rightarrow> mem \<Rightarrow> mem \<Rightarrow> bool" where
  "marked t msg f m m' \<longleftrightarrow> within t msg m m' \<and>
     (f_presence f \<noteq> 0 \<longrightarrow> upb_Message_HasBaseField m' msg f = Ok True) \<and>
     (\<forall>g \<in> set (mt_fields t). field_bytes m' msg g = field_bytes m msg g) \<and>
     (\<forall>g \<in> set (mt_fields t). g \<noteq> f \<longrightarrow> upb_Message_HasBaseField m' msg g =
       (if same_oneof f g then Ok False else upb_Message_HasBaseField m msg g))"

definition written :: "upb_MiniTable \<Rightarrow> u64 \<Rightarrow> upb_MiniTableField \<Rightarrow> bytes \<Rightarrow> mem \<Rightarrow> mem \<Rightarrow> bool" where
  "written t msg f bs m m' \<longleftrightarrow> within t msg m m' \<and> field_bytes m' msg f = Ok bs \<and>
     (\<forall>g \<in> set (mt_fields t). upb_Message_HasBaseField m' msg g = upb_Message_HasBaseField m msg g) \<and>
     (\<forall>g \<in> set (mt_fields t). g \<noteq> f \<and> \<not> same_oneof f g \<longrightarrow> field_bytes m' msg g = field_bytes m msg g)"

definition field_set :: "upb_MiniTable \<Rightarrow> u64 \<Rightarrow> upb_MiniTableField \<Rightarrow> bytes \<Rightarrow> mem \<Rightarrow> mem \<Rightarrow> bool" where
  "field_set t msg f bs m m' \<longleftrightarrow> within t msg m m' \<and>
     (f_presence f \<noteq> 0 \<longrightarrow> upb_Message_HasBaseField m' msg f = Ok True) \<and> field_bytes m' msg f = Ok bs \<and>
     (\<forall>g \<in> set (mt_fields t). g \<noteq> f \<longrightarrow> upb_Message_HasBaseField m' msg g =
       (if same_oneof f g then Ok False else upb_Message_HasBaseField m msg g)) \<and>
     (\<forall>g \<in> set (mt_fields t). g \<noteq> f \<and> \<not> same_oneof f g \<longrightarrow> field_bytes m' msg g = field_bytes m msg g)"

definition field_cleared :: "upb_MiniTable \<Rightarrow> u64 \<Rightarrow> upb_MiniTableField \<Rightarrow> mem \<Rightarrow> mem \<Rightarrow> bool" where
  "field_cleared t msg f m m' \<longleftrightarrow> within t msg m m' \<and>
     (f_presence f \<noteq> 0 \<longrightarrow> upb_Message_HasBaseField m' msg f = Ok False) \<and>
     (\<not> upb_MiniTableField_IsInOneof f \<longrightarrow> field_bytes m' msg f = Ok (replicate (fsize f) 0)) \<and>
     (\<forall>g \<in> set (mt_fields t). g \<noteq> f \<longrightarrow> upb_Message_HasBaseField m' msg g = upb_Message_HasBaseField m msg g) \<and>
     (\<forall>g \<in> set (mt_fields t). g \<noteq> f \<and> (same_oneof f g \<longrightarrow> upb_Message_HasBaseField m msg g = Ok True) \<longrightarrow>
       field_bytes m' msg g = field_bytes m msg g)"

lemma SetPresence_spec:
  assumes t: "table_ok t" "f \<in> set (mt_fields t)" and m: "message_at m msg t"
  shows "\<exists>m'. upb_Message_SetPresence m msg f = Ok m' \<and> marked t msg f m m'"
proof (cases f rule: presence_cases)
  case none
  then have "upb_Message_SetPresence m msg f = Ok m" by (simp add: upb_Message_SetPresence_def)
  moreover have "marked t msg f m m" using none by (simp add: marked_def within_refl same_oneof_def)
  ultimately show ?thesis by blast
next
  case hasbit
  note p = hasbit_place(1,2) [OF t hasbit(2)] and z = value_place(3) [OF t]
  obtain b where b: "load8 m (msg + of_nat (hasbit_byte f)) = Ok b"
    by (rule load8_at [OF m p(2) z])
  obtain m' where m': "store8 m (msg + of_nat (hasbit_byte f)) (b OR hasbit_mask f) = Ok m'"
    by (rule store8_at [OF m p(2) z])
  have "upb_Message_SetPresence m msg f = Ok m'"
    by (simp only: upb_Message_SetPresence_def upb_Message_SetHasbit_def hasbit(2) if_True b m' cbind.simps
      hasbit_ptr [OF hasbit(2), of "\<lambda>off mask. cbind (load8 m (msg + off)) (\<lambda>b. store8 m (msg + off) (b OR mask))"])
  moreover note s = hasbit_stored [OF t hasbit(2) b m' hasbit_mask_bits(4)]
  have "marked t msg f m m'"
    unfolding marked_def using s hasbit_mask_bits(2) hasbit(3) by (simp add: same_oneof_def)
  ultimately show ?thesis by blast
next
  case oneof
  note p = case_place(1,2) [OF t oneof(3)] and z = value_place(3) [OF t]
  obtain m' where m': "store32 m (msg + of_nat (case_offset f)) (f_number f) = Ok m'"
    by (rule store32_at [OF m p(2) z])
  have "upb_Message_SetPresence m msg f = Ok m'"
    using oneof m' by (simp add: upb_Message_SetPresence_def upb_Message_SetOneofCase_def case_ptr)
  moreover note s = case_stored [OF t oneof(3) m']
  have "same_oneof f f" using oneof by (simp add: same_oneof_def)
  then have "marked t msg f m m'"
    unfolding marked_def using s(1,2) s(3) [OF t(2)]
    by (auto simp: s(3) dest: different_fields(2) [OF t])
  ultimately show ?thesis by blast
qed

lemma DataCopy_spec:
  assumes t: "table_ok t" "f \<in> set (mt_fields t)" and m: "message_at m msg t" and v: "fsize f \<le> length v"
  shows "\<exists>m'. upb_MiniTableField_DataCopy m f (upb_Message_MutableDataPtr msg f) v = Ok m' \<and>
    written t msg f (take (fsize f) v) m m'"
proof -
  have len: "length (take (fsize f) v) = fsize f" using v by simp
  obtain m' where m': "put_bytes m msg f (take (fsize f) v) = Ok m'"
    using store_at [OF m, of "val_offset f" "take (fsize f) v"] value_place(2,3) [OF t] v unfolding put_bytes_def by auto
  moreover have "upb_MiniTableField_DataCopy m f (upb_Message_MutableDataPtr msg f) v = put_bytes m msg f (take (fsize f) v)"
    using v by (simp only: upb_MiniTableField_DataCopy_def data_size_Ok cbind.simps data_ptr put_bytes_def cassert_def if_True)
  moreover have "written t msg f (take (fsize f) v) m m'"
    unfolding written_def using value_stored [OF t m' len] by blast
  ultimately show ?thesis by auto
qed

lemma zeros_cover: "fsize f \<le> length (replicate 16 (0 :: u8))" "take (fsize f) (replicate 16 (0 :: u8)) = replicate (fsize f) 0"
  using data_size_Ok(2) [of f] by auto

lemma marked_written:
  assumes "marked t msg f m m1" "written t msg f bs m1 m2" "f \<in> set (mt_fields t)"
  shows "field_set t msg f bs m m2"
  using assms within_trans [of t msg m m1 m2] by (simp add: marked_def written_def field_set_def)

lemma SetBaseField_spec:
  assumes t: "table_ok t" "f \<in> set (mt_fields t)" and m: "message_at m msg t" and v: "fsize f \<le> length v"
  shows "\<exists>m'. upb_Message_SetBaseField m msg f v = Ok m' \<and> field_set t msg f (take (fsize f) v) m m'"
proof -
  obtain m1 where 1: "upb_Message_SetPresence m msg f = Ok m1" "marked t msg f m m1"
    using SetPresence_spec [OF t m] by blast
  then have "message_at m1 msg t" using within_message m by (auto simp: marked_def)
  then obtain m2 where 2: "upb_MiniTableField_DataCopy m1 f (upb_Message_MutableDataPtr msg f) v = Ok m2"
    "written t msg f (take (fsize f) v) m1 m2"
    using DataCopy_spec [OF t _ v] by blast
  have "\<not> upb_MiniTableField_IsExtension f" "upb_Message_IsFrozen m msg = Ok False"
    using t m by (simp_all add: table_ok_def message_at_def)
  then have "upb_Message_SetBaseField m msg f v = Ok m2"
    by (simp add: upb_Message_SetBaseField_def assert_not_frozen_def cassert_def 1(1) 2(1))
  then show ?thesis using marked_written [OF 1(2) 2(2) t(2)] by blast
qed

lemma ClearBaseField_spec:
  assumes t: "table_ok t" "f \<in> set (mt_fields t)" and m: "message_at m msg t"
  shows "\<exists>m'. upb_Message_ClearBaseField m msg f = Ok m' \<and> field_cleared t msg f m m'"
proof -
  have ok: "upb_Message_IsFrozen m msg = Ok False" using m by (simp add: message_at_def)
  note z = value_place(3) [OF t]
  have clear: "\<exists>m2. upb_MiniTableField_DataCopy m1 f (upb_Message_MutableDataPtr msg f) (replicate 16 0) = Ok m2 \<and>
      written t msg f (replicate (fsize f) 0) m1 m2" if "within t msg m m1" for m1
    using DataCopy_spec [OF t within_message [OF that m] zeros_cover(1)] unfolding zeros_cover(2) .
  note defs = upb_Message_ClearBaseField_def assert_not_frozen_def cassert_def Let_def ok cbind.simps
  show ?thesis
  proof (cases f rule: presence_cases)
    case none
    obtain m2 where 2: "upb_MiniTableField_DataCopy m f (upb_Message_MutableDataPtr msg f) (replicate 16 0) = Ok m2"
      "written t msg f (replicate (fsize f) 0) m m2"
      using clear [OF within_refl] by blast
    have "upb_Message_ClearBaseField m msg f = Ok m2" using none 2(1) by (simp add: defs)
    moreover have "field_cleared t msg f m m2"
      using 2(2) none by (simp add: written_def field_cleared_def same_oneof_def)
    ultimately show ?thesis by blast
  next
    case hasbit
    note p = hasbit_place(1,2) [OF t hasbit(2)]
    obtain b where b: "load8 m (msg + of_nat (hasbit_byte f)) = Ok b" by (rule load8_at [OF m p(2) z])
    obtain m1 where m1: "store8 m (msg + of_nat (hasbit_byte f)) (b AND NOT (hasbit_mask f)) = Ok m1"
      by (rule store8_at [OF m p(2) z])
    have run: "upb_Message_ClearHasbit m msg f = Ok m1"
      by (simp only: upb_Message_ClearHasbit_def b m1 cbind.simps
        hasbit_ptr [OF hasbit(2), of "\<lambda>off mask. cbind (load8 m (msg + off)) (\<lambda>b. store8 m (msg + off) (b AND NOT mask))"])
    note h = hasbit_stored [OF t hasbit(2) b m1 hasbit_mask_bits(5)]
    obtain m2 where 2: "upb_MiniTableField_DataCopy m1 f (upb_Message_MutableDataPtr msg f) (replicate 16 0) = Ok m2"
      "written t msg f (replicate (fsize f) 0) m1 m2"
      using clear [OF h(1)] by blast
    have "upb_Message_ClearBaseField m msg f = Ok m2" using hasbit run 2(1) by (simp add: defs)
    moreover have "upb_Message_HasBaseField m1 msg f = Ok False" using h(2) hasbit_mask_bits(3) by simp
    then have "field_cleared t msg f m m2"
      using 2(2) h(1,3,4) hasbit(3) t(2) within_trans [OF h(1), of m2]
      by (simp add: written_def field_cleared_def same_oneof_def)
    ultimately show ?thesis by blast
  next
    case oneof
    note p = case_place(1,2) [OF t oneof(3)]
    obtain c where c: "load32 m (msg + of_nat (case_offset f)) = Ok c" by (rule load32_at [OF m p(2) z])
    have has: "upb_Message_HasBaseField m msg g = Ok (c = f_number g)" if "g \<in> set (mt_fields t)" "same_oneof f g" for g
    proof -
      have "upb_MiniTableField_IsInOneof g" "\<not> upb_MiniTableField_HasHasbit g"
        using that oneof by (auto simp: same_oneof_def upb_MiniTableField_IsInOneof_def upb_MiniTableField_HasHasbit_def)
      then show ?thesis using c case_place(5) [OF t oneof(3) that(2)] by (simp add: HasBaseField_eq [OF t(1) that(1)])
    qed
    have ff: "same_oneof f f" using oneof by (simp add: same_oneof_def)
    show ?thesis
    proof (cases "c = f_number f")
      case False
      then have "upb_Message_ClearBaseField m msg f = Ok m" using oneof c by (simp add: defs case_ptr)
      moreover have "field_cleared t msg f m m"
        using has [OF t(2) ff] False oneof by (simp add: field_cleared_def within_refl)
      ultimately show ?thesis by blast
    next
      case True
      obtain m1 where m1: "store32 m (msg + of_nat (case_offset f)) 0 = Ok m1" by (rule store32_at [OF m p(2) z])
      note h = case_stored [OF t oneof(3) m1]
      obtain m2 where 2: "upb_MiniTableField_DataCopy m1 f (upb_Message_MutableDataPtr msg f) (replicate 16 0) = Ok m2"
        "written t msg f (replicate (fsize f) 0) m1 m2"
        using clear [OF h(1)] by blast
      have "upb_Message_ClearBaseField m msg f = Ok m2" using oneof c True m1 2(1) by (simp add: defs case_ptr)
      moreover have number: "f_number g \<noteq> 0" if "g \<in> set (mt_fields t)" for g using t(1) that by (simp add: table_ok_def)
      have m1f: "upb_Message_HasBaseField m1 msg f = Ok False" using h(3) [OF t(2)] ff number [OF t(2)] by simp
      have m1g: "upb_Message_HasBaseField m1 msg g = upb_Message_HasBaseField m msg g"
        "same_oneof f g \<Longrightarrow> upb_Message_HasBaseField m msg g \<noteq> Ok True"
        if "g \<in> set (mt_fields t)" "g \<noteq> f" for g
        using h(3) [OF that(1)] has [OF that(1)] True number [OF that(1)] different_fields(2) [OF t(1) that(1) t(2) that(2)]
        by auto
      have "field_cleared t msg f m m2"
        using 2(2) m1f m1g h(2) oneof(3) t(2) within_trans [OF h(1), of m2]
        by (auto simp: written_def field_cleared_def)
      ultimately show ?thesis by blast
    qed
  qed
qed

section \<open>What the getters see\<close>

text \<open>An absent field: the getters find the default, or zeros where a zero default is asked for and no
  presence is looked up.\<close>

definition absent :: "mem \<Rightarrow> u64 \<Rightarrow> upb_MiniTableField \<Rightarrow> bool" where
  "absent m msg f \<longleftrightarrow> (f_presence f \<noteq> 0 \<longrightarrow> upb_Message_HasBaseField m msg f = Ok False) \<and>
     (\<forall>d. length d = 16 \<and> (f_presence f \<noteq> 0 \<or> is_zero f d) \<longrightarrow>
        upb_Message_GetNonExtensionField m msg f d =
          Ok (if upb_MiniTableField_IsInOneof f \<or> \<not> is_zero f d then take (fsize f) d else replicate (fsize f) 0))"

text \<open>A field that holds a value.\<close>

definition holds :: "mem \<Rightarrow> u64 \<Rightarrow> upb_MiniTableField \<Rightarrow> bytes \<Rightarrow> bool" where
  "holds m msg f v \<longleftrightarrow> (f_presence f \<noteq> 0 \<longrightarrow> upb_Message_HasBaseField m msg f = Ok True) \<and>
     (\<forall>d. length d = 16 \<and> (f_presence f \<noteq> 0 \<or> is_zero f d) \<longrightarrow>
        upb_Message_GetNonExtensionField m msg f d = Ok (take (fsize f) v))"

text \<open>Two memories in which the getters find the same.\<close>

definition same_field :: "mem \<Rightarrow> mem \<Rightarrow> u64 \<Rightarrow> upb_MiniTableField \<Rightarrow> bool" where
  "same_field m m' msg f \<longleftrightarrow> upb_Message_HasBaseField m' msg f = upb_Message_HasBaseField m msg f \<and>
     (\<forall>d. length d = 16 \<longrightarrow> upb_Message_GetNonExtensionField m' msg f d = upb_Message_GetNonExtensionField m msg f d)"

lemma fsize_le: "length d = 16 \<Longrightarrow> fsize f \<le> length d"
  using data_size_Ok(2) [of f] by auto

lemma absent_I:
  assumes t: "table_ok t" "f \<in> set (mt_fields t)"
    and "f_presence f \<noteq> 0 \<Longrightarrow> upb_Message_HasBaseField m msg f = Ok False"
    and "\<not> upb_MiniTableField_IsInOneof f \<Longrightarrow> field_bytes m msg f = Ok (replicate (fsize f) 0)"
  shows "absent m msg f"
proof -
  have "upb_Message_GetNonExtensionField m msg f d =
      Ok (if upb_MiniTableField_IsInOneof f \<or> \<not> is_zero f d then take (fsize f) d else replicate (fsize f) 0)"
    if d: "length d = 16" "f_presence f \<noteq> 0 \<or> is_zero f d" for d
    using assms(3,4) d(2) unfolding Get_eq [OF t fsize_le [OF d(1)]]
    by (cases f rule: presence_cases; cases "is_zero f d") simp_all
  then show ?thesis using assms(3) by (simp add: absent_def)
qed

lemma holds_I:
  assumes t: "table_ok t" "f \<in> set (mt_fields t)"
    and "f_presence f \<noteq> 0 \<Longrightarrow> upb_Message_HasBaseField m msg f = Ok True"
    and "field_bytes m msg f = Ok (take (fsize f) v)"
  shows "holds m msg f v"
proof -
  have "upb_Message_GetNonExtensionField m msg f d = Ok (take (fsize f) v)"
    if d: "length d = 16" "f_presence f \<noteq> 0 \<or> is_zero f d" for d
    using assms(3,4) d(2) unfolding Get_eq [OF t fsize_le [OF d(1)]]
    by (cases f rule: presence_cases; cases "is_zero f d") simp_all
  then show ?thesis using assms(3) by (simp add: holds_def)
qed

lemma same_field_I:
  assumes "table_ok t" "f \<in> set (mt_fields t)"
    and "upb_Message_HasBaseField m' msg f = upb_Message_HasBaseField m msg f"
    and "field_bytes m' msg f = field_bytes m msg f"
  shows "same_field m m' msg f"
  using Get_same [OF assms(1,2) fsize_le assms(3,4)] assms(3) by (simp add: same_field_def)

lemma same_oneof_member:
  assumes "same_oneof f g"
  shows "upb_MiniTableField_IsInOneof g" "f_presence g \<noteq> 0"
  using assms by (auto simp: same_oneof_def upb_MiniTableField_IsInOneof_def)

lemma field_set_visible:
  assumes t: "table_ok t" "f \<in> set (mt_fields t)" and s: "field_set t msg f (take (fsize f) v) m m'"
  shows "holds m' msg f v"
    "\<And>g. g \<in> set (mt_fields t) \<Longrightarrow> g \<noteq> f \<Longrightarrow> if same_oneof f g then absent m' msg g else same_field m m' msg g"
proof -
  show "holds m' msg f v" using s by (intro holds_I [OF t]) (simp_all add: field_set_def)
  fix g assume g: "g \<in> set (mt_fields t)" "g \<noteq> f"
  show "if same_oneof f g then absent m' msg g else same_field m m' msg g"
  proof (cases "same_oneof f g")
    case True
    then have "absent m' msg g"
      using s g same_oneof_member [OF True] by (intro absent_I [OF t(1) g(1)]) (simp_all add: field_set_def)
    then show ?thesis using True by simp
  next
    case False
    then have "same_field m m' msg g" using s g by (intro same_field_I [OF t(1) g(1)]) (simp_all add: field_set_def)
    then show ?thesis using False by simp
  qed
qed

lemma field_cleared_visible:
  assumes t: "table_ok t" "f \<in> set (mt_fields t)" and s: "field_cleared t msg f m m'" and m: "message_at m msg t"
  shows "absent m' msg f" "\<And>g. g \<in> set (mt_fields t) \<Longrightarrow> g \<noteq> f \<Longrightarrow> same_field m m' msg g"
proof -
  show "absent m' msg f" using s by (intro absent_I [OF t]) (simp_all add: field_cleared_def)
  fix g assume g: "g \<in> set (mt_fields t)" "g \<noteq> f"
  have h: "upb_Message_HasBaseField m' msg g = upb_Message_HasBaseField m msg g" using s g by (simp add: field_cleared_def)
  show "same_field m m' msg g"
  proof (cases "same_oneof f g \<and> upb_Message_HasBaseField m msg g \<noteq> Ok True")
    case True
    note o = same_oneof_member(1) [OF conjunct1 [OF True]]
    have "\<not> upb_MiniTableField_HasHasbit g" using o by (cases g rule: presence_cases) simp_all
    moreover obtain c where "load32 m (msg + of_nat (case_offset g)) = Ok c"
      by (rule load32_at [OF m case_place(2) [OF t(1) g(1) o] value_place(3) [OF t(1) g(1)]])
    ultimately have "upb_Message_HasBaseField m msg g = Ok False"
      using o True by (simp add: HasBaseField_eq [OF t(1) g(1)])
    then show ?thesis
      using h o Get_absent [OF t(1) g(1) fsize_le] by (simp add: same_field_def)
  next
    case False
    then have "field_bytes m' msg g = field_bytes m msg g" using s g by (auto simp: field_cleared_def)
    then show ?thesis by (rule same_field_I [OF t(1) g(1) h])
  qed
qed

section \<open>New messages\<close>

lemma load_zeros:
  assumes s: "store m p (replicate n 0) = Ok m'" and b: "q + k \<le> n" "n \<le> 32768"
  shows "load m' (p + of_nat q) k = Ok (replicate k 0)"
proof -
  have n: "mapped m p n" "m' = (\<lambda>a. if a \<in> range_of p n then Some (replicate n 0 ! unat (a - p)) else m a)"
    using s b(2) by (simp_all add: store_Ok_iff)
  have "m' (p + of_nat q + of_nat i) = Some 0" if "i < k" for i
  proof -
    have e: "p + of_nat q + of_nat i = p + of_nat (q + i)" by simp
    have "q + i < n" "q + i < 2 ^ 64" using that b by simp_all
    then show ?thesis unfolding e n(2) using b(2) by (simp add: range_of_def unat_of_nat64 del: of_nat_add)
  qed
  moreover have "mapped m' (p + of_nat q) k"
    using mapped_mono [OF n(1) range_of_offset [OF b(1)]] store_mapped_range [OF s] b(2) by simp
  ultimately show ?thesis
    using b by (auto simp: load_Ok_iff intro!: nth_equalityI)
qed

lemma zeros_absent:
  assumes t: "table_ok t" "f \<in> set (mt_fields t)" and s: "store m msg (replicate (unat (mt_size t)) 0) = Ok m'"
  shows "absent m' msg f"
proof (rule absent_I [OF t])
  note z = load_zeros [OF s _ value_place(3) [OF t]]
  show "field_bytes m' msg f = Ok (replicate (fsize f) 0)"
    unfolding field_bytes_def by (rule z [OF value_place(2) [OF t]])
  show "upb_Message_HasBaseField m' msg f = Ok False" if "f_presence f \<noteq> 0"
  proof (cases f rule: presence_cases)
    case hasbit
    have "load8 m' (msg + of_nat (hasbit_byte f)) = Ok 0"
      using z [OF hasbit_place(2) [OF t hasbit(2)]] by (simp add: load8_def)
    then show ?thesis using hasbit by (simp add: HasBaseField_eq [OF t])
  next
    case oneof
    have "le_word (replicate 4 0) = 0" by (simp add: le_word_def numeral_eq_Suc)
    then have "load32 m' (msg + of_nat (case_offset f)) = Ok 0"
      using z [OF case_place(2) [OF t oneof(3)]] by (simp add: load32_def)
    moreover have "f_number f \<noteq> 0" using t by (simp add: table_ok_def)
    ultimately show ?thesis using oneof by (simp add: HasBaseField_eq [OF t])
  qed (use that in simp)
qed

lemma zeros_message:
  assumes s: "store m msg (replicate (unat (mt_size t)) 0) = Ok m'" and b: "8 \<le> unat (mt_size t)" "unat (mt_size t) \<le> 32768"
  shows "message_at m' msg t"
proof -
  have "mapped m msg (unat (mt_size t))" using s b(2) by (simp add: store_Ok_iff)
  moreover have "load m' (msg + of_nat 0) 8 = Ok (replicate 8 0)" using b by (intro load_zeros [OF s]) simp_all
  moreover have "le_word (replicate 8 0) = 0" by (simp add: le_word_def numeral_eq_Suc)
  ultimately show ?thesis
    using store_mapped_range [OF s] by (simp add: message_at_def upb_Message_IsFrozen_def load64_def)
qed

lemma Message_New_spec:
  assumes sys: "sys_malloc f used" and ok: "arena_ok used h A" and t: "table_ok t" "8 \<le> unat (mt_size t)"
  shows "\<exists>msg h'. upb_Message_New f t h = Ok (msg, h') \<and>
    arena_ok used h' (if msg = 0 then A else (msg, unat (UPB_ALIGN_MALLOC (ucast (mt_size t)))) # A) \<and>
    (\<forall>x \<in> set A. \<forall>a \<in> range_of (fst x) (snd x). h_mem h' a = h_mem h a) \<and>
    (if msg = 0 then no_memory f h (ucast (mt_size t))
     else \<not> no_memory f h (ucast (mt_size t)) \<and> message_at (h_mem h') msg t \<and>
       (\<forall>g \<in> set (mt_fields t). absent (h_mem h') msg g))"
proof -
  define n :: u64 where "n = ucast (mt_size t)"
  have n: "unat n = unat (mt_size t)" unfolding n_def by (simp add: unat_ucast_up)
  have sz: "unat (mt_size t) \<le> 32768" using t(1) by (simp add: table_ok_def)
  have n0: "n \<noteq> 0" "unat n \<le> 2 ^ 64 - 40" using n t(2) sz by (auto simp: unat_eq_0 [symmetric])
  obtain p h1 where 1: "upb_Arena_Malloc f n h = Ok (p, h1)" "keeps h h1"
    "arena_ok used h1 (if p = 0 then A else (p, unat (UPB_ALIGN_MALLOC n)) # A)"
    using sys_malloc.Malloc_spec [OF sys ok n0] by blast
  have null: "p = 0 \<longleftrightarrow> no_memory f h (ucast (mt_size t))"
    using sys_malloc.Malloc_null [OF sys ok n0 1(1)] by (simp only: n_def)
  have keeps: "h_mem h1 a = h_mem h a" if "x \<in> set A" "a \<in> range_of (fst x) (snd x)" for x a
  proof -
    have "alloc_ok h x" using ok that(1) by (simp add: arena_ok_def)
    then have "h_mem h a \<noteq> None" using alloc_mapped that(2) by blast
    then show ?thesis using 1(2) by (simp add: keeps_def)
  qed
  show ?thesis
  proof (cases "p = 0")
    case True
    have "upb_Message_New f t h = Ok (0, h1)"
      using 1(1) True unfolding n_def by (simp add: upb_Message_New_def Let_def)
    then show ?thesis using 1(3) True keeps null by auto
  next
    case False
    have ao: "alloc_ok h1 (p, unat (UPB_ALIGN_MALLOC n))" using 1(3) False by (simp add: arena_ok_def)
    have le: "unat (mt_size t) \<le> unat (UPB_ALIGN_MALLOC n)" using align_ge [of n] n sz by simp
    have sub: "range_of p (unat (mt_size t)) \<subseteq> range_of p (unat (UPB_ALIGN_MALLOC n))"
      using le by (auto simp: range_of_def)
    have "mapped (h_mem h1) p (length (replicate (unat (mt_size t)) (0 :: u8)))"
      using ao sub by (auto simp: alloc_ok_def mapped_def)
    then obtain m where m: "store (h_mem h1) p (replicate (unat (mt_size t)) 0) = Ok m"
      using store_exists sz by fastforce
    have "upb_Message_New f t h = Ok (p, h1\<lparr>h_mem := m\<rparr>)"
      using 1(1) False m unfolding n_def by (simp add: upb_Message_New_def Let_def)
    moreover have "m a = h_mem h a" if x: "x \<in> set A" "a \<in> range_of (fst x) (snd x)" for x a
    proof -
      have "a \<notin> range_of p (unat (mt_size t))" using 1(3) False sub x by (fastforce simp: arena_ok_def)
      then have "m a = h_mem h1 a" using m sz by (simp add: store_Ok_iff)
      then show ?thesis using keeps [OF x] by simp
    qed
    ultimately show ?thesis
      using False null 1(3) zeros_absent [OF t(1) _ m] zeros_message [OF m t(2) sz] store_arena_ok [OF m] n_def
      by (intro exI [of _ p] exI [of _ "h1\<lparr>h_mem := m\<rparr>"]) simp
  qed
qed

section \<open>Properties\<close>

lemma built_table_ok:
  assumes "upb_MiniTable_Build mem (kUpb_EncodedVersion_MessageV1 # data) Platform_64Bit a = Ok (t, a')"
    and "length data < 30000" "8 \<le> mt_size t" "mt_size t \<le> 0x8000"
    and "distinct (map f_number (mt_fields t))"
    and "list_all (\<lambda>f. f_number f \<noteq> 0 \<and> \<not> upb_MiniTableField_IsExtension f) (mt_fields t)"
  shows "table_ok t" "8 \<le> unat (mt_size t)"
proof -
  show 8: "8 \<le> unat (mt_size t)" using assms(3) by (simp add: word_le_nat_alt)
  then have "0 < mt_size t" by (simp add: word_less_nat_alt)
  then have "layout_ok Platform_64Bit t" using built_layout [OF assms(1,2) _ assms(4)] by simp
  then show "table_ok t" using assms(4-6) by (simp add: table_ok_def word_le_nat_alt list_all_iff)
qed

text \<open>For the examples: the table of an \<open>int32\<close>, a \<open>bool\<close> and a oneof of a \<open>string\<close> and a \<open>uint32\<close>, and
  a message of zeros.\<close>

abbreviation example_data :: bytes where
  "example_data \<equiv> map of_char ''(/1)^$|%''"

definition example_mem :: mem where
  "example_mem = (\<lambda>a. if unat (a - 4096) < 40 then Some 0 else None)"

lemma example_table:
  obtains t where "upb_MiniTable_Build plenty (kUpb_EncodedVersion_MessageV1 # example_data) Platform_64Bit () = Ok (t, ())"
    "mt_size t = 40" "length (mt_fields t) = 4" "distinct (map f_number (mt_fields t))"
    "list_all (\<lambda>f. f_number f \<noteq> 0 \<and> \<not> upb_MiniTableField_IsExtension f) (mt_fields t)"
proof -
  let ?r = "upb_MiniTable_Build plenty (kUpb_EncodedVersion_MessageV1 # example_data) Platform_64Bit ()"
  have "case ?r of Ok (t, _) \<Rightarrow> mt_size t = 40 \<and> length (mt_fields t) = 4 \<and> distinct (map f_number (mt_fields t)) \<and>
      list_all (\<lambda>f. f_number f \<noteq> 0 \<and> \<not> upb_MiniTableField_IsExtension f) (mt_fields t) | _ \<Rightarrow> False" by code_simp
  then show thesis using that by (auto split: cres.splits)
qed

lemma example_message: "mt_size t = 40 \<Longrightarrow> message_at example_mem 4096 t"
proof -
  have "upb_Message_IsFrozen example_mem 4096 = Ok False" by code_simp
  then show "mt_size t = 40 \<Longrightarrow> message_at example_mem 4096 t"
    by (simp add: message_at_def mapped_def example_mem_def range_of_def)
qed

text \<open>C2: the fields of a message are independent variables. The message is in memory, not frozen
  (\<open>message_at\<close>), and laid out for 64 bits by a table that \<open>upb_MiniTable_Build\<close> makes from a descriptor of
  less than 30000 bytes, with a size from 8 bytes to 32 KiB and fields whose numbers are distinct and not 0
  and of which none is an extension. (The size is 0 when its rounding wraps around; above 32 KiB the offset
  of a oneof's case no longer fits the \<open>int16_t\<close> that holds it; longer descriptors can wrap 16-bit counts
  and indices.) Setting a field succeeds, writes nothing outside the message and leaves its header alone;
  afterwards the field is present and is read back as the value; every other field is present or absent
  as before and is read as before, with one exception: the other members of its oneof are absent.\<close>

theorem message_set_independent:
  assumes "upb_MiniTable_Build mem (kUpb_EncodedVersion_MessageV1 # data) Platform_64Bit a = Ok (t, a')"
    and "length data < 30000" "8 \<le> mt_size t" "mt_size t \<le> 0x8000"
    and "distinct (map f_number (mt_fields t))"
    and "list_all (\<lambda>f. f_number f \<noteq> 0 \<and> \<not> upb_MiniTableField_IsExtension f) (mt_fields t)"
    and "message_at m msg t" "f \<in> set (mt_fields t)" "length v = 16"
  shows "\<exists>m'. upb_Message_SetBaseField m msg f v = Ok m' \<and> within t msg m m' \<and> holds m' msg f v \<and>
    (\<forall>g \<in> set (mt_fields t). g \<noteq> f \<longrightarrow> (if same_oneof f g then absent m' msg g else same_field m m' msg g))"
proof -
  note t = built_table_ok(1) [OF assms(1-6)] assms(8)
  obtain m' where m': "upb_Message_SetBaseField m msg f v = Ok m'" "field_set t msg f (take (fsize f) v) m m'"
    using SetBaseField_spec [OF t assms(7) fsize_le [OF assms(9)]] by blast
  then show ?thesis using field_set_visible [OF t m'(2)] by (auto simp: field_set_def)
qed

theorem message_set_independent_witness:
  "\<exists>t m'. upb_MiniTable_Build plenty (kUpb_EncodedVersion_MessageV1 # example_data) Platform_64Bit () = Ok (t, ()) \<and>
     length (mt_fields t) = 4 \<and>
     upb_Message_SetBaseField example_mem 4096 (mt_fields t ! 3) (replicate 16 7) = Ok m' \<and>
     holds m' 4096 (mt_fields t ! 3) (replicate 16 7)"
proof -
  obtain t where t: "upb_MiniTable_Build plenty (kUpb_EncodedVersion_MessageV1 # example_data) Platform_64Bit () = Ok (t, ())"
    "mt_size t = 40" "length (mt_fields t) = 4" "distinct (map f_number (mt_fields t))"
    "list_all (\<lambda>f. f_number f \<noteq> 0 \<and> \<not> upb_MiniTableField_IsExtension f) (mt_fields t)"
    by (rule example_table)
  have "\<exists>m'. upb_Message_SetBaseField example_mem 4096 (mt_fields t ! 3) (replicate 16 7) = Ok m' \<and>
      within t 4096 example_mem m' \<and> holds m' 4096 (mt_fields t ! 3) (replicate 16 7) \<and>
      (\<forall>g \<in> set (mt_fields t). g \<noteq> mt_fields t ! 3 \<longrightarrow>
        (if same_oneof (mt_fields t ! 3) g then absent m' 4096 g else same_field example_mem m' 4096 g))"
    by (rule message_set_independent [OF t(1) _ _ _ t(4,5) example_message [OF t(2)]]) (simp_all add: t(2,3))
  then show ?thesis using t(1,3) by blast
qed

text \<open>C3: clearing a field of a message succeeds, writes nothing outside the message, and makes the field
  absent: it is read as the default again. Every other field is present or absent as before and is read
  as before, the members of its oneof too. The message is in memory, not frozen (\<open>message_at\<close>), and laid
  out for 64 bits by a table that \<open>upb_MiniTable_Build\<close> makes from a descriptor of less than 30000 bytes, with
  a size from 8 bytes to 32 KiB and fields whose numbers are distinct and not 0 and of which none is an
  extension. (Above 32 KiB the presence of a oneof's member, an \<open>int16_t\<close>, has the wrong sign.)\<close>

theorem message_clear_independent:
  assumes "upb_MiniTable_Build mem (kUpb_EncodedVersion_MessageV1 # data) Platform_64Bit a = Ok (t, a')"
    and "length data < 30000" "8 \<le> mt_size t" "mt_size t \<le> 0x8000"
    and "distinct (map f_number (mt_fields t))"
    and "list_all (\<lambda>f. f_number f \<noteq> 0 \<and> \<not> upb_MiniTableField_IsExtension f) (mt_fields t)"
    and "message_at m msg t" "f \<in> set (mt_fields t)"
  shows "\<exists>m'. upb_Message_ClearBaseField m msg f = Ok m' \<and> within t msg m m' \<and> absent m' msg f \<and>
    (\<forall>g \<in> set (mt_fields t). g \<noteq> f \<longrightarrow> same_field m m' msg g)"
proof -
  note t = built_table_ok(1) [OF assms(1-6)] assms(8)
  obtain m' where m': "upb_Message_ClearBaseField m msg f = Ok m'" "field_cleared t msg f m m'"
    using ClearBaseField_spec [OF t assms(7)] by blast
  then show ?thesis using field_cleared_visible [OF t m'(2) assms(7)] by (auto simp: field_cleared_def)
qed

theorem message_clear_independent_witness:
  "\<exists>t m'. upb_MiniTable_Build plenty (kUpb_EncodedVersion_MessageV1 # example_data) Platform_64Bit () = Ok (t, ()) \<and>
     length (mt_fields t) = 4 \<and>
     upb_Message_ClearBaseField example_mem 4096 (mt_fields t ! 1) = Ok m' \<and> absent m' 4096 (mt_fields t ! 1)"
proof -
  obtain t where t: "upb_MiniTable_Build plenty (kUpb_EncodedVersion_MessageV1 # example_data) Platform_64Bit () = Ok (t, ())"
    "mt_size t = 40" "length (mt_fields t) = 4" "distinct (map f_number (mt_fields t))"
    "list_all (\<lambda>f. f_number f \<noteq> 0 \<and> \<not> upb_MiniTableField_IsExtension f) (mt_fields t)"
    by (rule example_table)
  have "\<exists>m'. upb_Message_ClearBaseField example_mem 4096 (mt_fields t ! 1) = Ok m' \<and>
      within t 4096 example_mem m' \<and> absent m' 4096 (mt_fields t ! 1) \<and>
      (\<forall>g \<in> set (mt_fields t). g \<noteq> mt_fields t ! 1 \<longrightarrow> same_field example_mem m' 4096 g)"
    by (rule message_clear_independent [OF t(1) _ _ _ t(4,5) example_message [OF t(2)]]) (simp_all add: t(2,3))
  then show ?thesis using t(1,3) by blast
qed

text \<open>C4: \<open>upb_Message_New\<close> gives \<open>NULL\<close> exactly when there is no memory (\<open>no_memory\<close>: the arena's block has
  too little space, and there is no allocator or it refuses the next block); else a new message, an
  allocation of the arena apart from all others, of which every field is absent. The bytes of the other
  allocations are left alone. The table is made for 64 bits by \<open>upb_MiniTable_Build\<close> from a descriptor of
  less than 30000 bytes, has a size from 8 bytes to 32 KiB, and fields whose numbers are distinct and not
  0 and of which none is an extension. The arena satisfies the invariant of arenas (\<open>arena_ok\<close>), by which
  one with an initial block has an allocator.\<close>

theorem message_new_empty:
  assumes "sys_malloc f used" "arena_ok used h A"
    and "upb_MiniTable_Build mem (kUpb_EncodedVersion_MessageV1 # data) Platform_64Bit a = Ok (t, a')"
    and "length data < 30000" "8 \<le> mt_size t" "mt_size t \<le> 0x8000"
    and "distinct (map f_number (mt_fields t))"
    and "list_all (\<lambda>f. f_number f \<noteq> 0 \<and> \<not> upb_MiniTableField_IsExtension f) (mt_fields t)"
  shows "\<exists>msg h'. upb_Message_New f t h = Ok (msg, h') \<and>
    arena_ok used h' (if msg = 0 then A else (msg, unat (UPB_ALIGN_MALLOC (ucast (mt_size t)))) # A) \<and>
    (\<forall>x \<in> set A. \<forall>a \<in> range_of (fst x) (snd x). h_mem h' a = h_mem h a) \<and>
    (if msg = 0 then no_memory f h (ucast (mt_size t))
     else \<not> no_memory f h (ucast (mt_size t)) \<and> message_at (h_mem h') msg t \<and>
       (\<forall>g \<in> set (mt_fields t). absent (h_mem h') msg g))"
  using built_table_ok [OF assms(3-8)] by (rule Message_New_spec [OF assms(1,2)])

theorem message_new_empty_witness:
  "\<exists>t msg h'. upb_MiniTable_Build plenty (kUpb_EncodedVersion_MessageV1 # example_data) Platform_64Bit () = Ok (t, ()) \<and>
     length (mt_fields t) = 4 \<and>
     upb_Message_New bump_sys t (no_arena example_mem 8192 32768\<lparr>a_ptr := 4096, a_end := 4136, a_has_alloc := True\<rparr>) = Ok (msg, h') \<and>
     msg = 4096 \<and> absent (h_mem h') msg (mt_fields t ! 2)"
proof -
  let ?h = "no_arena example_mem (8192 :: u64) 32768\<lparr>a_ptr := 4096, a_end := 4136, a_has_alloc := True\<rparr>"
  obtain t where t: "upb_MiniTable_Build plenty (kUpb_EncodedVersion_MessageV1 # example_data) Platform_64Bit () = Ok (t, ())"
    "mt_size t = 40" "length (mt_fields t) = 4" "distinct (map f_number (mt_fields t))"
    "list_all (\<lambda>f. f_number f \<noteq> 0 \<and> \<not> upb_MiniTableField_IsExtension f) (mt_fields t)"
    by (rule example_table)
  have m: "example_mem a = (if 4096 \<le> unat a \<and> unat a < 4136 then Some 0 else None)" for a
    using range_of_interval [of 4096 40 a] by (simp add: range_of_def example_mem_def)
  have ok: "arena_ok below ?h []"
    unfolding arena_ok_def no_arena_def
    by (auto simp: m free_bytes_def mapped_def range_of_interval below_def split: if_splits)
  have "\<exists>msg h'. upb_Message_New bump_sys t ?h = Ok (msg, h') \<and>
      arena_ok below h' (if msg = 0 then [] else (msg, unat (UPB_ALIGN_MALLOC (ucast (mt_size t)))) # []) \<and>
      (\<forall>x \<in> set []. \<forall>a \<in> range_of (fst x) (snd x). h_mem h' a = h_mem ?h a) \<and>
      (if msg = 0 then no_memory bump_sys ?h (ucast (mt_size t))
       else \<not> no_memory bump_sys ?h (ucast (mt_size t)) \<and> message_at (h_mem h') msg t \<and>
         (\<forall>g \<in> set (mt_fields t). absent (h_mem h') msg g))"
    by (rule message_new_empty [OF bump.sys_malloc_axioms ok t(1) _ _ _ t(4,5)]) (simp_all add: t(2))
  then obtain msg h' where n: "upb_Message_New bump_sys t ?h = Ok (msg, h')"
    "msg \<noteq> 0 \<longrightarrow> (\<forall>g \<in> set (mt_fields t). absent (h_mem h') msg g)"
    by (metis (no_types))
  have "case upb_Arena_Malloc bump_sys 40 ?h of Ok (p, _) \<Rightarrow> p = 4096 | _ \<Rightarrow> False" by code_simp
  then obtain h1 where "upb_Arena_Malloc bump_sys 40 ?h = Ok (4096, h1)" by (auto split: cres.splits)
  then have "msg = 4096" using n(1) by (auto simp: upb_Message_New_def Let_def t(2) cbind_Ok_iff)
  moreover from this have "absent (h_mem h') msg (mt_fields t ! 2)" using n(2) t(3) by simp
  ultimately show ?thesis using t(1,3) n(1) by blast
qed

end
