(* ===== verification/EpsStream.thy ===== *)
theory EpsStream
  imports WireRead
begin

text \<open>
  \<open>upb/wire/eps_copy_input_stream.h\<close> and \<open>.c\<close>: the input of the decoder. The bytes of a message
  are read in place until 16 bytes are left; these are then copied to a patch buffer, where zeros
  follow them, so that a reader never has to check for the end inside a field. Also the functions of
  \<open>upb/wire/reader.h\<close> and \<open>reader.c\<close> that walk over a stream to skip a value.
\<close>

section \<open>Pointers\<close>

text \<open>A pointer into the input or into the patch buffer, as an offset. Pointers into different
  objects cannot be subtracted or compared.\<close>

datatype eps_ptr = Input int | Patch int

fun ptr_add :: "eps_ptr \<Rightarrow> int \<Rightarrow> eps_ptr" where
  "ptr_add (Input i) n = Input (i + n)"
| "ptr_add (Patch i) n = Patch (i + n)"

fun ptr_diff :: "eps_ptr \<Rightarrow> eps_ptr \<Rightarrow> ('e, int) cres" where
  "ptr_diff (Input i) (Input j) = Ok (i - j)"
| "ptr_diff (Patch i) (Patch j) = Ok (i - j)"
| "ptr_diff _ _ = UB"

text \<open>The conversion to \<open>int\<close>, and the check that a sum of \<open>int\<close>s does not overflow.\<close>

definition c_int :: "int \<Rightarrow> int" where
  "c_int n = sint (word_of_int n :: 32 word)"

definition int_ok :: "int \<Rightarrow> bool" where
  "int_ok n \<longleftrightarrow> - 2147483648 \<le> n \<and> n < 2147483648"

section \<open>The stream\<close>

definition kUpb_EpsCopyInputStream_SlopBytes :: int where
  "kUpb_EpsCopyInputStream_SlopBytes = 16"

text \<open>\<open>e_input\<close> is the caller's buffer, which the stream only points to. The difference \<open>input_delta\<close>
  is 0 (\<open>None\<close>), or it takes the start of the patch buffer to the pointer in \<open>e_delta\<close>.\<close>

record upb_EpsCopyInputStream =
  e_input :: bytes
  e_end :: eps_ptr
  e_limit_ptr :: eps_ptr
  e_delta :: "eps_ptr option"
  e_limit :: int
  e_error :: bool
  e_aliasing :: bool
  e_patch :: bytes

text \<open>The memory behind a pointer, up to the end of its buffer.\<close>

fun bytes_at :: "upb_EpsCopyInputStream \<Rightarrow> eps_ptr \<Rightarrow> bytes" where
  "bytes_at e (Input i) = (if i < 0 then [] else drop (nat i) (e_input e))"
| "bytes_at e (Patch i) = (if i < 0 then [] else drop (nat i) (e_patch e))"

definition upb_EpsCopyInputStream_IsError :: "upb_EpsCopyInputStream \<Rightarrow> bool" where
  "upb_EpsCopyInputStream_IsError e = e_error e"

text \<open>\<open>e\<close> is the uninitialised stream; the result is the stream and the updated pointer.\<close>

definition upb_EpsCopyInputStream_Init ::
    "upb_EpsCopyInputStream \<Rightarrow> bytes \<Rightarrow> bool \<Rightarrow> upb_EpsCopyInputStream \<times> eps_ptr" where
  "upb_EpsCopyInputStream_Init e buf enable_aliasing =
     (let size = int (length buf);
          (e, ptr) =
            (if size \<le> kUpb_EpsCopyInputStream_SlopBytes then
               (e\<lparr>e_patch := buf @ replicate (32 - length buf) 0, e_delta := Some (Input 0),
                  e_end := Patch size, e_limit := 0\<rparr>, Patch 0)
             else
               (e\<lparr>e_end := Input (size - kUpb_EpsCopyInputStream_SlopBytes),
                  e_limit := kUpb_EpsCopyInputStream_SlopBytes, e_delta := None\<rparr>, Input 0))
      in (e\<lparr>e_input := buf, e_aliasing := enable_aliasing, e_limit_ptr := e_end e, e_error := False\<rparr>, ptr))"

datatype upb_IsDoneStatus = IsDone_Done | IsDone_NotDone | IsDone_NeedFallback

definition upb_EpsCopyInputStream_IsDoneStatus ::
    "upb_EpsCopyInputStream \<Rightarrow> eps_ptr \<Rightarrow> ('e, upb_IsDoneStatus \<times> int) cres" where
  "upb_EpsCopyInputStream_IsDoneStatus e ptr =
     cbind (ptr_diff ptr (e_end e)) (\<lambda>d.
     cbind (ptr_diff ptr (e_limit_ptr e)) (\<lambda>l.
       let overrun = c_int d in
       Ok (if l < 0 then IsDone_NotDone
           else if overrun = e_limit e then IsDone_Done
           else IsDone_NeedFallback, overrun)))"

text \<open>The callback gets the old end and the new start, \<open>NULL\<close> twice on an error.\<close>

type_synonym 'e flip_callback = "eps_ptr option \<Rightarrow> eps_ptr option \<Rightarrow> ('e, eps_ptr option) cres"

definition upb_EpsCopyInputStream_IsDoneFallbackInline ::
    "'e flip_callback \<Rightarrow> upb_EpsCopyInputStream \<Rightarrow> eps_ptr \<Rightarrow> int \<Rightarrow>
     ('e, upb_EpsCopyInputStream \<times> eps_ptr option) cres" where
  "upb_EpsCopyInputStream_IsDoneFallbackInline callback e ptr overrun =
     (if overrun < e_limit e then
        cassert (overrun < kUpb_EpsCopyInputStream_SlopBytes)
          (let old_end = ptr;
               new_start = Patch overrun;
               e1 = e\<lparr>e_patch := take 16 (e_patch e) @ replicate 16 0\<rparr>;
               data = take 16 (bytes_at e1 (e_end e))
           in cassert (length data = 16 \<and> (case e_end e of Patch i \<Rightarrow> 16 \<le> i | Input _ \<Rightarrow> True))
             (let e2 = e1\<lparr>e_patch := data @ drop 16 (e_patch e1), e_end := Patch 16,
                          e_limit := e_limit e - kUpb_EpsCopyInputStream_SlopBytes,
                          e_limit_ptr := Patch (16 + (e_limit e - kUpb_EpsCopyInputStream_SlopBytes))\<rparr>
              in cbind (ptr_diff new_start (e_limit_ptr e2)) (\<lambda>l. cassert (l < 0)
                   (let e3 = e2\<lparr>e_delta := Some (ptr_add old_end (- overrun))\<rparr>
                    in cbind (callback (Some old_end) (Some new_start)) (\<lambda>p. Ok (e3, p))))))
      else
        cassert (overrun > e_limit e)
          (cbind (callback None None) (\<lambda>p. Ok (e\<lparr>e_error := True\<rparr>, p))))"

text \<open>\<open>func\<close> is the fallback. The result is the return value, the stream and the pointer, which is
  \<open>NULL\<close> after an error.\<close>

definition upb_EpsCopyInputStream_IsDoneWithCallback ::
    "(upb_EpsCopyInputStream \<Rightarrow> eps_ptr \<Rightarrow> int \<Rightarrow> ('e, upb_EpsCopyInputStream \<times> eps_ptr option) cres) \<Rightarrow>
     upb_EpsCopyInputStream \<Rightarrow> eps_ptr \<Rightarrow> ('e, bool \<times> upb_EpsCopyInputStream \<times> eps_ptr option) cres" where
  "upb_EpsCopyInputStream_IsDoneWithCallback func e ptr =
     cbind (upb_EpsCopyInputStream_IsDoneStatus e ptr) (\<lambda>(s, overrun).
       case s of
         IsDone_Done \<Rightarrow> Ok (True, e, Some ptr)
       | IsDone_NotDone \<Rightarrow> Ok (False, e, Some ptr)
       | IsDone_NeedFallback \<Rightarrow> cbind (func e ptr overrun) (\<lambda>(e, p). Ok (p = None, e, p)))"

definition upb_EpsCopyInputStream_NoOpCallback :: "'e flip_callback" where
  "upb_EpsCopyInputStream_NoOpCallback old_end new_start = Ok new_start"

definition upb_EpsCopyInputStream_IsDoneFallbackNoCallback ::
    "upb_EpsCopyInputStream \<Rightarrow> eps_ptr \<Rightarrow> int \<Rightarrow> ('e, upb_EpsCopyInputStream \<times> eps_ptr option) cres" where
  "upb_EpsCopyInputStream_IsDoneFallbackNoCallback =
     upb_EpsCopyInputStream_IsDoneFallbackInline upb_EpsCopyInputStream_NoOpCallback"

definition upb_EpsCopyInputStream_IsDone ::
    "upb_EpsCopyInputStream \<Rightarrow> eps_ptr \<Rightarrow> ('e, bool \<times> upb_EpsCopyInputStream \<times> eps_ptr option) cres" where
  "upb_EpsCopyInputStream_IsDone =
     upb_EpsCopyInputStream_IsDoneWithCallback upb_EpsCopyInputStream_IsDoneFallbackNoCallback"

section \<open>Sizes\<close>

definition upb_EpsCopyInputStream_BytesAvailable ::
    "upb_EpsCopyInputStream \<Rightarrow> eps_ptr \<Rightarrow> ('e, int) cres" where
  "upb_EpsCopyInputStream_BytesAvailable e ptr =
     cbind (ptr_diff (e_end e) ptr) (\<lambda>d. Ok (d + kUpb_EpsCopyInputStream_SlopBytes))"

definition upb_EpsCopyInputStream_CheckSize :: "upb_EpsCopyInputStream \<Rightarrow> eps_ptr \<Rightarrow> int \<Rightarrow> ('e, bool) cres" where
  "upb_EpsCopyInputStream_CheckSize e ptr sz =
     cassert (sz \<ge> 0) (cbind (ptr_diff ptr (e_end e)) (\<lambda>d. Ok (d + sz \<le> e_limit e)))"

text \<open>The addresses of an object are linear and do not wrap around for sizes that fit an \<open>int\<close>; a
  negative size, converted to \<open>size_t\<close>, makes the sum wrap around below \<open>ptr\<close>.\<close>

definition upb_EpsCopyInputStream_CheckSizeAvailable ::
    "upb_EpsCopyInputStream \<Rightarrow> eps_ptr \<Rightarrow> int \<Rightarrow> bool \<Rightarrow> ('e, bool) cres" where
  "upb_EpsCopyInputStream_CheckSizeAvailable e ptr sz submessage =
     cbind (ptr_diff ptr (e_limit_ptr e)) (\<lambda>d.
       Ok (0 \<le> sz \<and> d + sz \<le> (if submessage then 0 else kUpb_EpsCopyInputStream_SlopBytes)))"

definition upb_EpsCopyInputStream_CheckDataSizeAvailable ::
    "upb_EpsCopyInputStream \<Rightarrow> eps_ptr \<Rightarrow> int \<Rightarrow> ('e, bool) cres" where
  "upb_EpsCopyInputStream_CheckDataSizeAvailable e ptr sz =
     upb_EpsCopyInputStream_CheckSizeAvailable e ptr sz False"

definition upb_EpsCopyInputStream_CheckSubMessageSizeAvailable ::
    "upb_EpsCopyInputStream \<Rightarrow> eps_ptr \<Rightarrow> int \<Rightarrow> ('e, bool) cres" where
  "upb_EpsCopyInputStream_CheckSubMessageSizeAvailable e ptr sz =
     upb_EpsCopyInputStream_CheckSizeAvailable e ptr sz True"

section \<open>Strings\<close>

definition upb_EpsCopyInputStream_AliasingEnabled :: "upb_EpsCopyInputStream \<Rightarrow> bool" where
  "upb_EpsCopyInputStream_AliasingEnabled e = e_aliasing e"

definition upb_EpsCopyInputStream_AliasingAvailable ::
    "upb_EpsCopyInputStream \<Rightarrow> eps_ptr \<Rightarrow> int \<Rightarrow> ('e, bool) cres" where
  "upb_EpsCopyInputStream_AliasingAvailable e ptr sz =
     (if \<not> e_aliasing e then Ok False else upb_EpsCopyInputStream_CheckDataSizeAvailable e ptr sz)"

definition upb_EpsCopyInputStream_GetInputPtr :: "upb_EpsCopyInputStream \<Rightarrow> eps_ptr \<Rightarrow> ('e, eps_ptr) cres" where
  "upb_EpsCopyInputStream_GetInputPtr e ptr =
     (case e_delta e of
        None \<Rightarrow> Ok ptr
      | Some p \<Rightarrow> (case ptr of Patch i \<Rightarrow> Ok (ptr_add p i) | Input i \<Rightarrow> UB))"

definition upb_EpsCopyInputStream_GetAliasedPtr :: "upb_EpsCopyInputStream \<Rightarrow> eps_ptr \<Rightarrow> ('e, eps_ptr) cres" where
  "upb_EpsCopyInputStream_GetAliasedPtr e ptr =
     cbind (upb_EpsCopyInputStream_AliasingAvailable e ptr 0) (\<lambda>ok.
       cassert ok (upb_EpsCopyInputStream_GetInputPtr e ptr))"

text \<open>The pointer behind the string, and the one to its data.\<close>

definition upb_EpsCopyInputStream_ReadStringAliased ::
    "upb_EpsCopyInputStream \<Rightarrow> eps_ptr \<Rightarrow> int \<Rightarrow> ('e, eps_ptr \<times> eps_ptr) cres" where
  "upb_EpsCopyInputStream_ReadStringAliased e ptr sz =
     cbind (upb_EpsCopyInputStream_AliasingAvailable e ptr sz) (\<lambda>ok. cassert ok
       (cbind (upb_EpsCopyInputStream_GetAliasedPtr e ptr) (\<lambda>p. Ok (ptr_add ptr sz, p))))"

definition upb_EpsCopyInputStream_Skip :: "upb_EpsCopyInputStream \<Rightarrow> eps_ptr \<Rightarrow> int \<Rightarrow> (unit, eps_ptr) cres" where
  "upb_EpsCopyInputStream_Skip e ptr sz =
     cbind (upb_EpsCopyInputStream_CheckDataSizeAvailable e ptr sz) (\<lambda>ok.
       if ok then Ok (ptr_add ptr sz) else Fail ())"

text \<open>The bytes copied come with the new pointer.\<close>

definition upb_EpsCopyInputStream_Copy ::
    "upb_EpsCopyInputStream \<Rightarrow> eps_ptr \<Rightarrow> int \<Rightarrow> (unit, bytes \<times> eps_ptr) cres" where
  "upb_EpsCopyInputStream_Copy e ptr sz =
     cbind (upb_EpsCopyInputStream_CheckDataSizeAvailable e ptr sz) (\<lambda>ok.
       if \<not> ok then Fail ()
       else cassert (nat sz \<le> length (bytes_at e ptr))
         (Ok (take (nat sz) (bytes_at e ptr), ptr_add ptr sz)))"

text \<open>A string is a pointer into the input, or a copy in the arena.\<close>

datatype string_data = Aliased eps_ptr | Copied bytes

definition upb_EpsCopyInputStream_ReadString ::
    "'a malloc \<Rightarrow> upb_EpsCopyInputStream \<Rightarrow> eps_ptr \<Rightarrow> int \<Rightarrow> 'a \<Rightarrow> (unit, eps_ptr \<times> string_data \<times> 'a) cres" where
  "upb_EpsCopyInputStream_ReadString malloc e ptr sz a =
     cbind (upb_EpsCopyInputStream_AliasingAvailable e ptr sz) (\<lambda>alias.
       if alias then
         cbind (upb_EpsCopyInputStream_ReadStringAliased e ptr sz) (\<lambda>(ret, p). Ok (ret, Aliased p, a))
       else
         cbind (upb_EpsCopyInputStream_CheckDataSizeAvailable e ptr sz) (\<lambda>ok.
           if \<not> ok then Fail ()
           else (case malloc (nat sz) a of (ok, a) \<Rightarrow>
             (if \<not> ok then Fail ()
              else cbind (upb_EpsCopyInputStream_Copy e ptr sz) (\<lambda>(data, ret). Ok (ret, Copied data, a))))))"

section \<open>Limits\<close>

definition upb_EpsCopyInputStream_CheckLimit :: "upb_EpsCopyInputStream \<Rightarrow> bool" where
  "upb_EpsCopyInputStream_CheckLimit e \<longleftrightarrow> e_limit_ptr e = ptr_add (e_end e) (min 0 (e_limit e))"

definition upb_EpsCopyInputStream_PushLimit ::
    "upb_EpsCopyInputStream \<Rightarrow> eps_ptr \<Rightarrow> int \<Rightarrow> ('e, int \<times> upb_EpsCopyInputStream) cres" where
  "upb_EpsCopyInputStream_PushLimit e ptr sz =
     cbind (ptr_diff ptr (e_end e)) (\<lambda>d.
       let limit = sz + c_int d; delta = e_limit e - limit in
       cassert (int_ok limit \<and> int_ok delta \<and> upb_EpsCopyInputStream_CheckLimit e \<and> limit \<le> e_limit e)
         (let e = e\<lparr>e_limit := limit, e_limit_ptr := ptr_add (e_end e) (min 0 limit)\<rparr>
          in cassert (upb_EpsCopyInputStream_CheckLimit e) (Ok (delta, e))))"

definition upb_EpsCopyInputStream_PopLimit ::
    "upb_EpsCopyInputStream \<Rightarrow> eps_ptr \<Rightarrow> int \<Rightarrow> ('e, upb_EpsCopyInputStream) cres" where
  "upb_EpsCopyInputStream_PopLimit e ptr saved_delta =
     cbind (ptr_diff ptr (e_end e)) (\<lambda>d.
       cassert (d = e_limit e \<and> upb_EpsCopyInputStream_CheckLimit e \<and> int_ok (e_limit e + saved_delta))
         (let limit = e_limit e + saved_delta;
              e = e\<lparr>e_limit := limit, e_limit_ptr := ptr_add (e_end e) (min 0 limit)\<rparr>
          in cassert (upb_EpsCopyInputStream_CheckLimit e) (Ok e)))"

text \<open>\<open>func\<close> parses the sub-message; its context is the caller's.\<close>

definition upb_EpsCopyInputStream_TryParseDelimitedFast ::
    "(upb_EpsCopyInputStream \<Rightarrow> eps_ptr \<Rightarrow> ('e, upb_EpsCopyInputStream \<times> eps_ptr option) cres) \<Rightarrow>
     upb_EpsCopyInputStream \<Rightarrow> eps_ptr \<Rightarrow> int \<Rightarrow> ('e, bool \<times> upb_EpsCopyInputStream \<times> eps_ptr option) cres" where
  "upb_EpsCopyInputStream_TryParseDelimitedFast func e ptr len =
     cbind (upb_EpsCopyInputStream_CheckSubMessageSizeAvailable e ptr len) (\<lambda>ok.
       if \<not> ok then Ok (False, e, Some ptr)
       else
         (let saved_limit_ptr = e_limit_ptr e; saved_limit = e_limit e in
          cbind (ptr_diff (ptr_add ptr len) (e_end e)) (\<lambda>limit.
            let e = e\<lparr>e_limit_ptr := ptr_add ptr len, e_limit := c_int limit\<rparr> in
            cassert (upb_EpsCopyInputStream_CheckLimit e)
              (cbind (func e ptr) (\<lambda>(e, p).
                let e = e\<lparr>e_limit_ptr := saved_limit_ptr, e_limit := saved_limit\<rparr>
                in cassert (upb_EpsCopyInputStream_CheckLimit e) (Ok (True, e, p)))))))"


section \<open>Positions\<close>

text \<open>What a pointer stands for: a position in the input. The limit is a position, too.\<close>

fun pos :: "upb_EpsCopyInputStream \<Rightarrow> eps_ptr \<Rightarrow> int" where
  "pos e (Input i) = i"
| "pos e (Patch i) = (case e_delta e of Some (Input b) \<Rightarrow> b + i | _ \<Rightarrow> i)"

definition limit_pos :: "upb_EpsCopyInputStream \<Rightarrow> int" where
  "limit_pos e = pos e (e_end e) + e_limit e"

text \<open>The stream either reads the input in place, all but its last 16 bytes, or a copy of the last
  bytes in the patch buffer, with zeros behind them.\<close>

definition stream_ok :: "upb_EpsCopyInputStream \<Rightarrow> bool" where
  "stream_ok e \<longleftrightarrow>
     (let n = int (length (e_input e)) in
      n < 2147483648 \<and> length (e_patch e) = 32 \<and> upb_EpsCopyInputStream_CheckLimit e \<and> 0 \<le> limit_pos e \<and>
      (case e_end e of
         Input k \<Rightarrow> 16 < n \<and> k = n - 16 \<and> e_delta e = None \<and> e_limit e \<le> 16
       | Patch k \<Rightarrow> 0 \<le> k \<and> k \<le> 16 \<and> k \<le> n \<and> e_delta e = Some (Input (n - k)) \<and> e_limit e \<le> 0 \<and>
           e_patch e = drop (nat (n - k)) (e_input e) @ replicate (nat (32 - k)) 0))"

fun same_buffer :: "eps_ptr \<Rightarrow> eps_ptr \<Rightarrow> bool" where
  "same_buffer (Input _) (Input _) = True"
| "same_buffer (Patch _) (Patch _) = True"
| "same_buffer _ _ = False"

definition ptr_ok :: "upb_EpsCopyInputStream \<Rightarrow> eps_ptr \<Rightarrow> bool" where
  "ptr_ok e ptr \<longleftrightarrow> same_buffer ptr (e_end e) \<and> 0 \<le> pos e ptr \<and> (\<forall>i. ptr = Patch i \<longrightarrow> 0 \<le> i) \<and>
     pos e ptr - pos e (e_end e) < 2147483648"

text \<open>What a reader may read: at least 16 bytes, the input from here on, then zeros.\<close>

definition readable :: "upb_EpsCopyInputStream \<Rightarrow> eps_ptr \<Rightarrow> bool" where
  "readable e ptr \<longleftrightarrow> 16 \<le> length (bytes_at e ptr) \<and>
     (\<exists>pad. bytes_at e ptr = drop (nat (pos e ptr)) (e_input e) @ replicate pad 0)"

lemma c_int_eq: "- 2147483648 \<le> n \<Longrightarrow> n < 2147483648 \<Longrightarrow> c_int n = n"
  by (simp add: c_int_def sint_sbintrunc' signed_take_bit_int_eq_self)

lemma ptr_diff_pos: "ptr_ok e p \<Longrightarrow> same_buffer p q \<Longrightarrow> ptr_diff p q = Ok (pos e p - pos e q)"
  by (cases p; cases q) (auto split: option.splits eps_ptr.splits)

lemma limit_ptr_pos:
  assumes "stream_ok e"
  shows "same_buffer (e_end e) (e_limit_ptr e)" "pos e (e_limit_ptr e) = pos e (e_end e) + min 0 (e_limit e)"
proof -
  have l: "e_limit_ptr e = ptr_add (e_end e) (min 0 (e_limit e))"
    using assms by (simp add: stream_ok_def upb_EpsCopyInputStream_CheckLimit_def Let_def)
  show "same_buffer (e_end e) (e_limit_ptr e)" unfolding l by (cases "e_end e") simp_all
  show "pos e (e_limit_ptr e) = pos e (e_end e) + min 0 (e_limit e)"
    unfolding l by (cases "e_end e") (simp_all split: option.split eps_ptr.split)
qed

lemma same_buffer_trans: "same_buffer p q \<Longrightarrow> same_buffer q r \<Longrightarrow> same_buffer p r"
  by (cases p; cases q; cases r) auto

lemma status_eq:
  assumes "stream_ok e" "ptr_ok e ptr"
  shows "upb_EpsCopyInputStream_IsDoneStatus e ptr =
    Ok (if pos e ptr < pos e (e_end e) + min 0 (e_limit e) then IsDone_NotDone
        else if pos e ptr = limit_pos e then IsDone_Done else IsDone_NeedFallback,
      pos e ptr - pos e (e_end e))"
proof -
  have b: "same_buffer ptr (e_end e)" using assms(2) by (simp add: ptr_ok_def)
  have "pos e (e_end e) \<le> 2147483648"
    using assms(1) by (cases "e_end e") (auto simp: stream_ok_def Let_def)
  then have c: "c_int (pos e ptr - pos e (e_end e)) = pos e ptr - pos e (e_end e)"
    using assms(2) by (intro c_int_eq) (auto simp: ptr_ok_def)
  show ?thesis
    by (simp add: upb_EpsCopyInputStream_IsDoneStatus_def ptr_diff_pos [OF assms(2)] b
        same_buffer_trans [OF b limit_ptr_pos(1) [OF assms(1)]] limit_ptr_pos [OF assms(1)] c limit_pos_def)
qed

lemma not_done_readable:
  assumes "stream_ok e" "ptr_ok e ptr" "pos e ptr < pos e (e_end e) + min 0 (e_limit e)"
  shows "readable e ptr"
proof (cases "e_end e")
  case (Input k)
  then obtain i where "ptr = Input i" "0 \<le> i" "i < k" "k = int (length (e_input e)) - 16"
    using assms by (cases ptr) (auto simp: stream_ok_def ptr_ok_def Let_def)
  then show ?thesis by (auto simp: readable_def intro: exI [of _ 0])
next
  case (Patch k)
  then obtain i where i: "ptr = Patch i" "0 \<le> i" "i < k"
    and k: "0 \<le> k" "k \<le> 16" "k \<le> int (length (e_input e))" "e_delta e = Some (Input (int (length (e_input e)) - k))"
      "e_patch e = drop (nat (int (length (e_input e)) - k)) (e_input e) @ replicate (nat (32 - k)) 0"
    using assms by (cases ptr) (auto simp: stream_ok_def ptr_ok_def Let_def)
  have "nat (pos e ptr) = nat (int (length (e_input e)) - k) + nat i"
    using i k by (simp add: nat_add_distrib)
  moreover have "nat i \<le> length (drop (nat (int (length (e_input e)) - k)) (e_input e))" using i k by simp
  ultimately have "bytes_at e ptr = drop (nat (pos e ptr)) (e_input e) @ replicate (nat (32 - k)) 0"
    using i k by (simp add: drop_append add.commute)
  moreover have "16 \<le> length (bytes_at e ptr)" using i k by simp
  ultimately show ?thesis by (auto simp: readable_def)
qed


section \<open>The end of the data\<close>

text \<open>The flip to the patch buffer keeps the position and the limit.\<close>

lemma flip_ok:
  assumes ok: "stream_ok e" and p: "ptr_ok e ptr"
    and over: "pos e (e_end e) + min 0 (e_limit e) \<le> pos e ptr" "pos e ptr < limit_pos e"
  obtains e' p' where
    "upb_EpsCopyInputStream_IsDoneFallbackInline callback e ptr (pos e ptr - pos e (e_end e)) =
       cbind (callback (Some ptr) (Some p')) (\<lambda>p. Ok (e', p))"
    "stream_ok e'" "ptr_ok e' p'" "pos e' p' = pos e ptr" "limit_pos e' = limit_pos e"
    "e_input e' = e_input e" "e_aliasing e' = e_aliasing e" "e_error e' = e_error e" "readable e' p'"
proof -
  let ?n = "int (length (e_input e))"
  have lim: "0 < e_limit e" using over by (auto simp: limit_pos_def)
  obtain k where k: "e_end e = Input k" "16 < ?n" "k = ?n - 16" "e_limit e \<le> 16" "?n < 2147483648" "0 \<le> limit_pos e"
    "length (e_patch e) = 32" using ok lim by (cases "e_end e") (auto simp: stream_ok_def Let_def)
  obtain i where i: "ptr = Input i" using p k(1) by (cases ptr) (simp_all add: ptr_ok_def)
  have o: "k \<le> i" "i - k < e_limit e" using over lim k(1) i by (auto simp: limit_pos_def)
  let ?o = "i - k" and ?data = "drop (nat k) (e_input e)"
  have len: "length ?data = 16" using k by simp
  define e' where "e' = e\<lparr>e_patch := ?data @ replicate 16 0, e_end := Patch 16, e_limit := e_limit e - 16,
    e_limit_ptr := Patch (16 + (e_limit e - 16)), e_delta := Some (Input k)\<rparr>"
  have "stream_ok e'"
    using k by (auto simp: stream_ok_def e'_def Let_def upb_EpsCopyInputStream_CheckLimit_def limit_pos_def min_def)
  moreover have "ptr_ok e' (Patch ?o)" using o k p by (auto simp: ptr_ok_def e'_def)
  moreover have pos: "pos e' (Patch ?o) = pos e ptr" by (simp add: e'_def i)
  moreover have "limit_pos e' = limit_pos e" using k by (simp add: limit_pos_def e'_def)
  moreover have "readable e' (Patch ?o)"
    by (rule not_done_readable [OF calculation(1,2)]) (use o k in \<open>simp add: e'_def min_def\<close>)
  moreover have "upb_EpsCopyInputStream_IsDoneFallbackInline callback e ptr ?o =
      cbind (callback (Some ptr) (Some (Patch ?o))) (\<lambda>p. Ok (e', p))"
    using o k len lim k(7)
    by (simp add: upb_EpsCopyInputStream_IsDoneFallbackInline_def kUpb_EpsCopyInputStream_SlopBytes_def e'_def i Let_def)
  ultimately show thesis
    by (intro that [of "Patch ?o" e']) (simp_all add: i k(1), simp_all add: e'_def)
qed

lemma fallback_error:
  assumes "pos e ptr - pos e (e_end e) > e_limit e"
  shows "upb_EpsCopyInputStream_IsDoneFallbackInline callback e ptr (pos e ptr - pos e (e_end e)) =
    cbind (callback None None) (\<lambda>p. Ok (e\<lparr>e_error := True\<rparr>, p))"
  using assms by (simp add: upb_EpsCopyInputStream_IsDoneFallbackInline_def)

text \<open>The check for the end, for a callback that continues at the new start.\<close>

lemma is_done_cases:
  assumes ok: "stream_ok e" and p: "ptr_ok e ptr" and cb: "\<And>old new. callback (Some old) (Some new) = Ok (Some new)"
  obtains (at_limit) "pos e ptr = limit_pos e"
      "upb_EpsCopyInputStream_IsDoneWithCallback (upb_EpsCopyInputStream_IsDoneFallbackInline callback) e ptr =
        Ok (True, e, Some ptr)"
  | (beyond) "limit_pos e < pos e ptr"
      "upb_EpsCopyInputStream_IsDoneWithCallback (upb_EpsCopyInputStream_IsDoneFallbackInline callback) e ptr =
        cbind (callback None None) (\<lambda>p. Ok (p = None, e\<lparr>e_error := True\<rparr>, p))"
  | (before) e' p' where "pos e ptr < limit_pos e"
      "upb_EpsCopyInputStream_IsDoneWithCallback (upb_EpsCopyInputStream_IsDoneFallbackInline callback) e ptr =
        Ok (False, e', Some p')"
      "stream_ok e'" "ptr_ok e' p'" "pos e' p' = pos e ptr" "limit_pos e' = limit_pos e"
      "e_input e' = e_input e" "e_aliasing e' = e_aliasing e" "e_error e' = e_error e" "readable e' p'"
proof -
  note def = upb_EpsCopyInputStream_IsDoneWithCallback_def status_eq [OF ok p]
  have mono: "pos e (e_end e) + min 0 (e_limit e) \<le> limit_pos e" by (simp add: limit_pos_def)
  consider "pos e ptr = limit_pos e" | "limit_pos e < pos e ptr"
    | "pos e ptr < limit_pos e" "pos e ptr < pos e (e_end e) + min 0 (e_limit e)"
    | "pos e ptr < limit_pos e" "pos e (e_end e) + min 0 (e_limit e) \<le> pos e ptr"
    by linarith
  then show thesis
  proof cases
    case 1
    then show ?thesis using mono by (intro at_limit) (simp_all add: def)
  next
    case 2
    then have "pos e ptr - pos e (e_end e) > e_limit e" by (simp add: limit_pos_def)
    then show ?thesis using 2 mono by (intro beyond) (simp_all add: def fallback_error cbind_assoc)
  next
    case 3
    then show ?thesis by (intro before [OF 3(1) _ ok p]) (simp_all add: def not_done_readable [OF ok p])
  next
    case 4
    obtain e' p' where f: "upb_EpsCopyInputStream_IsDoneFallbackInline callback e ptr (pos e ptr - pos e (e_end e)) =
        cbind (callback (Some ptr) (Some p')) (\<lambda>p. Ok (e', p))"
      and r: "stream_ok e'" "ptr_ok e' p'" "pos e' p' = pos e ptr" "limit_pos e' = limit_pos e"
        "e_input e' = e_input e" "e_aliasing e' = e_aliasing e" "e_error e' = e_error e" "readable e' p'"
      by (rule flip_ok [OF ok p 4(2,1), where callback = callback])
    show ?thesis using 4 by (intro before [OF 4(1) _ r]) (simp add: def f cb)
  qed
qed


lemma eps_is_done_eq:
  fixes r :: "(unit, bool \<times> upb_EpsCopyInputStream \<times> eps_ptr option) cres"
  assumes "stream_ok e" "ptr_ok e ptr" "r = upb_EpsCopyInputStream_IsDone e ptr"
  shows "if pos e ptr = limit_pos e then r = Ok (True, e, Some ptr)
    else if limit_pos e < pos e ptr then
      (\<exists>e'. r = Ok (True, e', None) \<and> upb_EpsCopyInputStream_IsError e')
    else (\<exists>e' p'. r = Ok (False, e', Some p') \<and> stream_ok e' \<and> ptr_ok e' p' \<and> readable e' p' \<and>
      pos e' p' = pos e ptr \<and> limit_pos e' = limit_pos e \<and> e_input e' = e_input e)"
proof -
  have cb: "upb_EpsCopyInputStream_NoOpCallback (Some old) (Some new) = (Ok (Some new) :: (unit, _) cres)" for old new
    by (simp add: upb_EpsCopyInputStream_NoOpCallback_def)
  note defs = assms(3) upb_EpsCopyInputStream_IsDone_def upb_EpsCopyInputStream_IsDoneFallbackNoCallback_def
    upb_EpsCopyInputStream_NoOpCallback_def upb_EpsCopyInputStream_IsError_def
  show ?thesis
    by (rule is_done_cases [OF assms(1,2), where callback = "upb_EpsCopyInputStream_NoOpCallback :: unit flip_callback"])
      (auto simp: defs)
qed

lemmas eps_is_done_cases = eps_is_done_eq [OF _ _ refl]

text \<open>C8: the check for the end of the data is exact, wherever the stream has its bytes, for every pointer
  less than \<open>2 ^ 31\<close> behind the end of the block (\<open>ptr_ok\<close>; further away the \<open>int\<close>
  \<open>overrun\<close> overflows): it reports the end at the limit, an error beyond the limit, and otherwise
  goes on at the same position with the same limit, where it guarantees 16 readable bytes: the rest of
  the input, then zeros.\<close>

theorem eps_is_done_correct:
  fixes r :: "(unit, bool \<times> upb_EpsCopyInputStream \<times> eps_ptr option) cres"
  assumes "stream_ok e" "ptr_ok e ptr" "r = upb_EpsCopyInputStream_IsDone e ptr"
  shows "if pos e ptr = limit_pos e then r = Ok (True, e, Some ptr)
    else if limit_pos e < pos e ptr then
      (\<exists>e'. r = Ok (True, e', None) \<and> upb_EpsCopyInputStream_IsError e')
    else (\<exists>e' p'. r = Ok (False, e', Some p') \<and> stream_ok e' \<and> ptr_ok e' p' \<and> readable e' p' \<and>
      pos e' p' = pos e ptr \<and> limit_pos e' = limit_pos e \<and> e_input e' = e_input e)"
  using assms by (rule eps_is_done_eq)

lemma stream_init_ok:
  assumes "length buf < 2147483648" "length (e_patch e0) = 32"
    and "upb_EpsCopyInputStream_Init e0 buf alias = (e, ptr)"
  shows "stream_ok e" "ptr_ok e ptr" "pos e ptr = 0" "limit_pos e = int (length buf)" "e_input e = buf"
    "e_error e = False" "e_aliasing e = alias"
proof -
  show "stream_ok e"
    using assms by (auto simp: upb_EpsCopyInputStream_Init_def Let_def stream_ok_def limit_pos_def
        upb_EpsCopyInputStream_CheckLimit_def kUpb_EpsCopyInputStream_SlopBytes_def min_def nat_diff_distrib
        split: if_splits)
qed (use assms in \<open>auto simp: upb_EpsCopyInputStream_Init_def Let_def ptr_ok_def limit_pos_def
        kUpb_EpsCopyInputStream_SlopBytes_def split: if_splits\<close>)

section \<open>Nested limits\<close>

text \<open>The change of a limit: \<open>limit_ptr\<close> follows, the rest of the stream stays.\<close>

lemma set_limit_ok:
  assumes "stream_ok e" "0 \<le> pos e (e_end e) + limit" "limit \<le> (case e_end e of Input _ \<Rightarrow> 16 | Patch _ \<Rightarrow> 0)"
    and e': "e' = e\<lparr>e_limit := limit, e_limit_ptr := ptr_add (e_end e) (min 0 limit)\<rparr>"
  shows "stream_ok e'" "limit_pos e' = pos e (e_end e) + limit" "pos e' p = pos e p"
    "upb_EpsCopyInputStream_CheckLimit e'"
proof -
  show "upb_EpsCopyInputStream_CheckLimit e'" by (simp add: e' upb_EpsCopyInputStream_CheckLimit_def)
  show p: "pos e' p = pos e p" for p by (cases p) (simp_all add: e')
  have "pos e' (e_end e') = pos e (e_end e)" by (simp add: p) (simp add: e')
  then show l: "limit_pos e' = pos e (e_end e) + limit" by (simp add: limit_pos_def) (simp add: e')
  show "stream_ok e'"
    using assms(1-3) l
    by (cases "e_end e") (auto simp: stream_ok_def Let_def e' upb_EpsCopyInputStream_CheckLimit_def)
qed

lemma end_pos_bounds:
  assumes "stream_ok e"
  shows "0 \<le> pos e (e_end e)" "pos e (e_end e) < 2147483648" "- 2147483648 < e_limit e" "e_limit e \<le> 16"
    "e_limit e \<le> (case e_end e of Input _ \<Rightarrow> 16 | Patch _ \<Rightarrow> 0)" "limit_pos e < 2147483648"
  using assms by (cases "e_end e"; auto simp: stream_ok_def Let_def limit_pos_def)+

lemma push_limit:
  assumes ok: "stream_ok e" and p: "ptr_ok e ptr" and sz: "0 \<le> sz" "pos e ptr + sz \<le> limit_pos e"
  obtains e' where "upb_EpsCopyInputStream_PushLimit e ptr sz = Ok (limit_pos e - (pos e ptr + sz), e')"
    "stream_ok e'" "limit_pos e' = pos e ptr + sz" "pos e' ptr = pos e ptr" "ptr_ok e' ptr" "e_input e' = e_input e"
    "e_end e' = e_end e" "e_error e' = e_error e" "e_aliasing e' = e_aliasing e"
proof -
  let ?d = "pos e ptr - pos e (e_end e)"
  note b = end_pos_bounds [OF ok]
  define e' where "e' = e\<lparr>e_limit := sz + ?d, e_limit_ptr := ptr_add (e_end e) (min 0 (sz + ?d))\<rparr>"
  have le: "sz + ?d \<le> e_limit e" using sz(2) by (simp add: limit_pos_def)
  have nn: "0 \<le> pos e ptr" using p by (simp add: ptr_ok_def)
  note s = set_limit_ok [OF ok _ order_trans [OF le b(5)] e'_def]
  have s0: "0 \<le> pos e (e_end e) + (sz + ?d)" using sz(1) nn by simp
  have c: "c_int ?d = ?d" using b nn le sz by (intro c_int_eq) auto
  have d: "ptr_diff ptr (e_end e) = Ok ?d" using p by (intro ptr_diff_pos) (simp_all add: ptr_ok_def)
  have "int_ok (sz + ?d)" "int_ok (e_limit e - (sz + ?d))"
    using b nn le sz by (auto simp: int_ok_def limit_pos_def)
  moreover have "upb_EpsCopyInputStream_CheckLimit e" using ok by (simp add: stream_ok_def Let_def)
  ultimately have "upb_EpsCopyInputStream_PushLimit e ptr sz = Ok (limit_pos e - (pos e ptr + sz), e')"
    using le s(4) [OF s0]
    by (simp add: upb_EpsCopyInputStream_PushLimit_def d c Let_def flip: e'_def) (simp add: limit_pos_def)
  moreover have "ptr_ok e' ptr"
    using p s(3) [OF s0] by (simp add: ptr_ok_def) (simp add: e'_def)
  ultimately show thesis
    using s [OF s0] by (intro that [of e']) (simp_all, simp_all add: e'_def)
qed


lemma pop_limit:
  assumes ok: "stream_ok e" and p: "ptr_ok e ptr" and at: "pos e ptr = limit_pos e"
    and l: "limit_pos e \<le> l" "l \<le> int (length (e_input e))"
  obtains e' where "upb_EpsCopyInputStream_PopLimit e ptr (l - limit_pos e) = Ok e'"
    "stream_ok e'" "limit_pos e' = l" "pos e' ptr = pos e ptr" "ptr_ok e' ptr" "e_input e' = e_input e"
    "e_end e' = e_end e" "e_error e' = e_error e" "e_aliasing e' = e_aliasing e"
proof -
  note b = end_pos_bounds [OF ok]
  let ?lim = "e_limit e + (l - limit_pos e)"
  define e' where "e' = e\<lparr>e_limit := ?lim, e_limit_ptr := ptr_add (e_end e) (min 0 ?lim)\<rparr>"
  have lim: "?lim = l - pos e (e_end e)" by (simp add: limit_pos_def)
  have "0 \<le> limit_pos e" using ok by (simp add: stream_ok_def Let_def)
  then have s0: "0 \<le> pos e (e_end e) + ?lim" using l lim by simp
  have le: "?lim \<le> (case e_end e of Input _ \<Rightarrow> 16 | Patch _ \<Rightarrow> 0)"
    using ok l lim by (cases "e_end e") (auto simp: stream_ok_def Let_def)
  note s = set_limit_ok [OF ok s0 le e'_def]
  have d: "ptr_diff ptr (e_end e) = Ok (pos e ptr - pos e (e_end e))"
    using p by (intro ptr_diff_pos) (simp_all add: ptr_ok_def)
  have "int_ok ?lim" using lim b s0 ok l by (auto simp: int_ok_def stream_ok_def Let_def)
  moreover have "upb_EpsCopyInputStream_CheckLimit e" using ok by (simp add: stream_ok_def Let_def)
  moreover have "pos e ptr - pos e (e_end e) = e_limit e" using at by (simp add: limit_pos_def)
  ultimately have "upb_EpsCopyInputStream_PopLimit e ptr (l - limit_pos e) = Ok e'"
    using s(4) by (simp add: upb_EpsCopyInputStream_PopLimit_def d Let_def flip: e'_def)
  moreover have "ptr_ok e' ptr" using p s(3) by (simp add: ptr_ok_def) (simp add: e'_def)
  ultimately show thesis using s lim by (intro that [of e']) (simp_all, simp_all add: e'_def)
qed

lemma limit_le_input: "stream_ok e \<Longrightarrow> limit_pos e \<le> int (length (e_input e))"
  by (cases "e_end e") (auto simp: stream_ok_def limit_pos_def Let_def)

text \<open>C23: limits nest. A limit pushed inside the current one becomes the limit of the stream; popped
  where it has been reached, perhaps after a flip of the buffers, it gives the old limit back; and no
  assertion of either function fails.\<close>

theorem limits_nest:
  assumes "stream_ok e" "ptr_ok e ptr" "0 \<le> sz" "pos e ptr + sz \<le> limit_pos e"
  shows "\<exists>delta e1. upb_EpsCopyInputStream_PushLimit e ptr sz = (Ok (delta, e1) :: (unit, _) cres) \<and> stream_ok e1 \<and>
    ptr_ok e1 ptr \<and> pos e1 ptr = pos e ptr \<and> limit_pos e1 = pos e ptr + sz \<and>
    (\<forall>e2 ptr2. stream_ok e2 \<and> ptr_ok e2 ptr2 \<and> e_input e2 = e_input e \<and> limit_pos e2 = pos e ptr + sz \<and>
       pos e2 ptr2 = limit_pos e2 \<longrightarrow>
       (\<exists>e3. upb_EpsCopyInputStream_PopLimit e2 ptr2 delta = (Ok e3 :: (unit, _) cres) \<and> stream_ok e3 \<and>
          limit_pos e3 = limit_pos e \<and> pos e3 ptr2 = pos e2 ptr2))"
proof -
  obtain e1 where e1: "upb_EpsCopyInputStream_PushLimit e ptr sz =
      (Ok (limit_pos e - (pos e ptr + sz), e1) :: (unit, _) cres)"
    "stream_ok e1" "limit_pos e1 = pos e ptr + sz" "pos e1 ptr = pos e ptr" "ptr_ok e1 ptr"
    by (rule push_limit [OF assms, where 'a = unit])
  have "\<exists>e3. upb_EpsCopyInputStream_PopLimit e2 ptr2 (limit_pos e - (pos e ptr + sz)) = (Ok e3 :: (unit, _) cres) \<and>
      stream_ok e3 \<and> limit_pos e3 = limit_pos e \<and> pos e3 ptr2 = pos e2 ptr2"
    if e2: "stream_ok e2" "ptr_ok e2 ptr2" "e_input e2 = e_input e" "limit_pos e2 = pos e ptr + sz"
      "pos e2 ptr2 = limit_pos e2" for e2 ptr2
  proof -
    have l: "limit_pos e2 \<le> limit_pos e" "limit_pos e \<le> int (length (e_input e2))"
      using assms(4) e2(3,4) limit_le_input [OF assms(1)] by simp_all
    show ?thesis
      by (rule pop_limit [OF e2(1,2,5) l, where 'a = unit]) (auto simp: e2(4))
  qed
  with e1 show ?thesis by blast
qed

section \<open>Data\<close>

lemma check_size:
  assumes "stream_ok e" "ptr_ok e ptr" "0 \<le> sz"
  shows "upb_EpsCopyInputStream_CheckSize e ptr sz = Ok (pos e ptr + sz \<le> limit_pos e)"
proof -
  have "same_buffer ptr (e_end e)" using assms(2) by (simp add: ptr_ok_def)
  then show ?thesis
    using assms(3) by (auto simp: upb_EpsCopyInputStream_CheckSize_def ptr_diff_pos [OF assms(2)] limit_pos_def)
qed

lemma check_size_available:
  assumes "stream_ok e" "ptr_ok e ptr"
  shows "upb_EpsCopyInputStream_CheckSizeAvailable e ptr sz sub =
    Ok (0 \<le> sz \<and> pos e ptr + sz \<le> pos e (e_end e) + min 0 (e_limit e) + (if sub then 0 else 16))"
proof -
  have "same_buffer ptr (e_end e)" using assms(2) by (simp add: ptr_ok_def)
  note b = same_buffer_trans [OF this limit_ptr_pos(1) [OF assms(1)]]
  show ?thesis
    by (auto simp: upb_EpsCopyInputStream_CheckSizeAvailable_def ptr_diff_pos [OF assms(2) b]
        limit_ptr_pos(2) [OF assms(1)] kUpb_EpsCopyInputStream_SlopBytes_def)
qed

lemma data_available:
  assumes "stream_ok e" "ptr_ok e ptr" "0 \<le> sz" "pos e ptr + sz \<le> limit_pos e"
  shows "upb_EpsCopyInputStream_CheckDataSizeAvailable e ptr sz = Ok True"
    "nat sz \<le> length (bytes_at e ptr)"
    "take (nat sz) (bytes_at e ptr) = take (nat sz) (drop (nat (pos e ptr)) (e_input e))"
proof -
  have "pos e ptr + sz \<le> pos e (e_end e) + min 0 (e_limit e) + 16"
    using assms(4) end_pos_bounds [OF assms(1)] by (auto simp: limit_pos_def)
  then show "upb_EpsCopyInputStream_CheckDataSizeAvailable e ptr sz = Ok True"
    using assms by (simp add: upb_EpsCopyInputStream_CheckDataSizeAvailable_def check_size_available)
  have l: "pos e ptr + sz \<le> int (length (e_input e))" using assms(4) limit_le_input [OF assms(1)] by simp
  have nn: "0 \<le> pos e ptr" using assms(2) by (simp add: ptr_ok_def)
  have "\<exists>pad. bytes_at e ptr = drop (nat (pos e ptr)) (e_input e) @ replicate pad 0"
  proof (cases "e_end e")
    case (Input k)
    then show ?thesis using assms(2) by (cases ptr) (auto simp: ptr_ok_def intro: exI [of _ 0])
  next
    case (Patch k)
    let ?n = "int (length (e_input e))"
    obtain i where i: "ptr = eps_ptr.Patch i" "0 \<le> i" using assms(2) Patch by (cases ptr) (auto simp: ptr_ok_def)
    have k: "0 \<le> k" "k \<le> 16" "k \<le> ?n" "e_delta e = Some (Input (?n - k))"
      "e_patch e = drop (nat (?n - k)) (e_input e) @ replicate (nat (32 - k)) 0"
      using assms(1) Patch by (auto simp: stream_ok_def Let_def)
    have "nat (pos e ptr) = nat (?n - k) + nat i" using i k by (simp add: nat_add_distrib)
    moreover have "nat i \<le> length (drop (nat (?n - k)) (e_input e))" using i k l assms(3) by simp
    ultimately show ?thesis using i k by (simp add: drop_append add.commute)
  qed
  then obtain pad where pad: "bytes_at e ptr = drop (nat (pos e ptr)) (e_input e) @ replicate pad 0" ..
  show "nat sz \<le> length (bytes_at e ptr)" using pad l nn assms(3) by simp
  show "take (nat sz) (bytes_at e ptr) = take (nat sz) (drop (nat (pos e ptr)) (e_input e))"
    using pad l nn assms(3) by simp
qed

text \<open>What the size checks let through is in memory: the input, and zeros behind its end.\<close>

lemma take_padded: "n \<le> length xs + k \<Longrightarrow> take n (xs @ replicate k z) = take n (xs @ replicate n z)"
  by (simp add: min.absorb1)

lemma data_in_memory:
  assumes "stream_ok e" "ptr_ok e ptr" "0 \<le> sz" "pos e ptr + sz \<le> pos e (e_end e) + 16"
  shows "nat sz \<le> length (bytes_at e ptr)"
    "take (nat sz) (bytes_at e ptr) = take (nat sz) (drop (nat (pos e ptr)) (e_input e) @ replicate (nat sz) 0)"
proof -
  have "\<exists>pad. bytes_at e ptr = drop (nat (pos e ptr)) (e_input e) @ replicate pad 0 \<and> nat sz \<le> length (bytes_at e ptr)"
  proof (cases "e_end e")
    case (Input k)
    then show ?thesis using assms by (cases ptr) (auto simp: ptr_ok_def stream_ok_def Let_def intro: exI [of _ 0])
  next
    case (Patch k)
    let ?n = "int (length (e_input e))"
    obtain i where i: "ptr = eps_ptr.Patch i" "0 \<le> i" using assms(2) Patch by (cases ptr) (auto simp: ptr_ok_def)
    have k: "0 \<le> k" "k \<le> 16" "k \<le> ?n" "e_delta e = Some (Input (?n - k))"
      "e_patch e = drop (nat (?n - k)) (e_input e) @ replicate (nat (32 - k)) 0" "length (e_patch e) = 32"
      using assms(1) Patch by (auto simp: stream_ok_def Let_def)
    have "nat (pos e ptr) = nat (?n - k) + nat i" using i k by (simp add: nat_add_distrib)
    moreover have "bytes_at e ptr = drop (nat i) (drop (nat (?n - k)) (e_input e)) @
        replicate (nat (32 - k) - (nat i - length (drop (nat (?n - k)) (e_input e)))) 0"
      using i by (simp add: k(5) drop_append drop_replicate del: drop_drop length_drop)
    moreover have "nat sz \<le> length (bytes_at e ptr)" using i k(2,4,6) assms(3,4) Patch by simp
    ultimately show ?thesis by (auto simp: add.commute)
  qed
  then obtain pad where pad: "bytes_at e ptr = drop (nat (pos e ptr)) (e_input e) @ replicate pad 0"
    "nat sz \<le> length (bytes_at e ptr)" by blast
  show "nat sz \<le> length (bytes_at e ptr)" by (rule pad(2))
  have "nat sz \<le> length (drop (nat (pos e ptr)) (e_input e)) + pad" using pad(2) unfolding pad(1) by simp
  from take_padded [OF this]
  show "take (nat sz) (bytes_at e ptr) = take (nat sz) (drop (nat (pos e ptr)) (e_input e) @ replicate (nat sz) 0)"
    unfolding pad(1) .
qed

lemma get_input_ptr:
  assumes "stream_ok e" "ptr_ok e ptr"
  shows "upb_EpsCopyInputStream_GetInputPtr e ptr = Ok (Input (pos e ptr))"
  using assms
  by (cases "e_end e"; cases ptr)
    (auto simp: upb_EpsCopyInputStream_GetInputPtr_def stream_ok_def ptr_ok_def Let_def)

text \<open>C24: a string inside the limit is never lost. With aliasing it becomes a pointer to the very
  position in the caller's buffer, also when the bytes were read from the patch buffer; without it, a
  copy of exactly these bytes, unless there is no memory.\<close>

theorem read_string_correct:
  assumes "stream_ok e" "ptr_ok e ptr" "0 \<le> sz" "pos e ptr + sz \<le> limit_pos e"
  shows "upb_EpsCopyInputStream_ReadString malloc e ptr sz a =
    (if e_aliasing e then Ok (ptr_add ptr sz, Aliased (Input (pos e ptr)), a)
     else if fst (malloc (nat sz) a) then
       Ok (ptr_add ptr sz, Copied (take (nat sz) (drop (nat (pos e ptr)) (e_input e))), snd (malloc (nat sz) a))
     else Fail ())"
proof -
  note d = data_available [OF assms]
  have "pos e ptr + 0 \<le> limit_pos e" using assms(3,4) by simp
  note d0 = data_available [OF assms(1,2) order.refl this]
  show ?thesis
    by (auto simp: get_input_ptr [OF assms(1,2)] upb_EpsCopyInputStream_ReadString_def upb_EpsCopyInputStream_AliasingAvailable_def d d0
        upb_EpsCopyInputStream_ReadStringAliased_def upb_EpsCopyInputStream_GetAliasedPtr_def
        upb_EpsCopyInputStream_Copy_def split: prod.splits)
qed

section \<open>Skipping values\<close>

text \<open>The functions call each other, with a limit for the depth; the loop over the fields of a group
  has no bound of its own. All of them get fuel, and a run without fuel left is \<open>UB\<close>.\<close>

fun upb_WireReader_SkipValue_limit ::
    "nat \<Rightarrow> upb_EpsCopyInputStream \<Rightarrow> eps_ptr \<Rightarrow> u32 \<Rightarrow> int \<Rightarrow>
     (unit, upb_EpsCopyInputStream \<times> eps_ptr) cres"
and upb_WireReader_SkipGroup_limit ::
    "nat \<Rightarrow> upb_EpsCopyInputStream \<Rightarrow> eps_ptr \<Rightarrow> u32 \<Rightarrow> int \<Rightarrow>
     (unit, upb_EpsCopyInputStream \<times> eps_ptr) cres"
and skip_group_loop ::
    "nat \<Rightarrow> upb_EpsCopyInputStream \<Rightarrow> eps_ptr \<Rightarrow> u32 \<Rightarrow> int \<Rightarrow>
     (unit, upb_EpsCopyInputStream \<times> eps_ptr) cres" where
  "upb_WireReader_SkipValue_limit n e ptr tag depth_limit =
     (let wt = upb_WireReader_GetWireType tag in
      if wt = 0 then
        cbind (upb_WireReader_SkipVarint (bytes_at e ptr)) (\<lambda>len. Ok (e, ptr_add ptr (int len)))
      else if wt = 5 then Ok (e, ptr_add ptr 4)
      else if wt = 1 then Ok (e, ptr_add ptr 8)
      else if wt = 2 then
        cbind (upb_WireReader_ReadSize (bytes_at e ptr)) (\<lambda>(sz, len). Ok (e, ptr_add ptr (int len + sz)))
      else if wt = 3 then
        (case n of 0 \<Rightarrow> UB | Suc n \<Rightarrow> upb_WireReader_SkipGroup_limit n e ptr tag depth_limit)
      else Fail ())"
| "upb_WireReader_SkipGroup_limit n e ptr tag depth_limit =
     (let depth_limit = depth_limit - 1 in
      if depth_limit = 0 then Fail ()
      else
        (let end_group_tag = (tag AND NOT 7) OR 4 in
         case n of 0 \<Rightarrow> UB | Suc n \<Rightarrow> skip_group_loop n e ptr end_group_tag depth_limit))"
| "skip_group_loop n e ptr end_group_tag depth_limit =
     cbind (upb_EpsCopyInputStream_IsDone e ptr) (\<lambda>(is_done, e, p).
       case p of
         None \<Rightarrow> Fail ()
       | Some ptr \<Rightarrow>
           if is_done then Ok (e, ptr)
           else
             cbind (upb_WireReader_ReadTag (bytes_at e ptr)) (\<lambda>(tag, len).
               let ptr = ptr_add ptr (int len) in
               if tag = end_group_tag then Ok (e, ptr)
               else
                 (case n of
                    0 \<Rightarrow> UB
                  | Suc n \<Rightarrow>
                      cbind (upb_WireReader_SkipValue_limit n e ptr tag depth_limit) (\<lambda>(e, ptr).
                        skip_group_loop n e ptr end_group_tag depth_limit))))"

declare upb_WireReader_SkipValue_limit.simps [simp del] upb_WireReader_SkipGroup_limit.simps [simp del]
  skip_group_loop.simps [simp del]

definition upb_WireReader_SkipGroup ::
    "nat \<Rightarrow> upb_EpsCopyInputStream \<Rightarrow> eps_ptr \<Rightarrow> u32 \<Rightarrow> (unit, upb_EpsCopyInputStream \<times> eps_ptr) cres" where
  "upb_WireReader_SkipGroup n e ptr tag = upb_WireReader_SkipGroup_limit n e ptr tag 100"

definition upb_WireReader_SkipValue ::
    "nat \<Rightarrow> upb_EpsCopyInputStream \<Rightarrow> eps_ptr \<Rightarrow> u32 \<Rightarrow> (unit, upb_EpsCopyInputStream \<times> eps_ptr) cres" where
  "upb_WireReader_SkipValue n e ptr tag = upb_WireReader_SkipValue_limit n e ptr tag 100"


text \<open>No size field of the input, wherever it may start, comes close to \<open>INT_MAX\<close>.\<close>

definition sizes_ok :: "bytes \<Rightarrow> bool" where
  "sizes_ok inp \<longleftrightarrow> (\<forall>k pad sz n. upb_WireReader_ReadSize (drop k inp @ replicate pad 0) = Ok (sz, n) \<longrightarrow>
     sz < 2147483600)"

text \<open>A pointer behind a tag that was read from a \<open>readable\<close> position.\<close>

definition reading :: "upb_EpsCopyInputStream \<Rightarrow> eps_ptr \<Rightarrow> bool" where
  "reading e ptr \<longleftrightarrow> ptr_ok e ptr \<and> pos e ptr - pos e (e_end e) \<le> 21 \<and> 10 \<le> length (bytes_at e ptr) \<and>
     (\<exists>pad. bytes_at e ptr = drop (nat (pos e ptr)) (e_input e) @ replicate pad 0)"

definition moved :: "upb_EpsCopyInputStream \<Rightarrow> eps_ptr \<Rightarrow> upb_EpsCopyInputStream \<Rightarrow> eps_ptr \<Rightarrow> bool" where
  "moved e p e' p' \<longleftrightarrow> stream_ok e' \<and> ptr_ok e' p' \<and> pos e p \<le> pos e' p' \<and>
     limit_pos e' = limit_pos e \<and> e_input e' = e_input e"

lemma pos_add [simp]: "pos e (ptr_add ptr k) = pos e ptr + k"
  by (cases ptr) (auto split: option.splits eps_ptr.splits)

lemma ptr_ok_add:
  "ptr_ok e ptr \<Longrightarrow> 0 \<le> k \<Longrightarrow> pos e ptr + k - pos e (e_end e) < 2147483648 \<Longrightarrow> ptr_ok e (ptr_add ptr k)"
  by (cases ptr; cases "e_end e") (auto simp: ptr_ok_def split: option.splits eps_ptr.splits)

lemma bytes_at_add: "ptr_ok e ptr \<Longrightarrow> bytes_at e (ptr_add ptr (int k)) = drop k (bytes_at e ptr)"
  by (cases ptr) (auto simp: ptr_ok_def nat_add_distrib add.commute)

lemma reading_after_tag:
  assumes "stream_ok e" "ptr_ok e ptr" "readable e ptr" "pos e ptr < limit_pos e" "k \<le> 5"
  shows "reading e (ptr_add ptr (int k))"
proof -
  obtain pad where pad: "bytes_at e ptr = drop (nat (pos e ptr)) (e_input e) @ replicate pad 0"
    using assms(3) by (auto simp: readable_def)
  have e: "pos e ptr - pos e (e_end e) < 16"
    using assms(4) end_pos_bounds(4) [OF assms(1)] by (simp add: limit_pos_def)
  have "0 \<le> pos e ptr" using assms(2) by (simp add: ptr_ok_def)
  then have "drop k (bytes_at e ptr) = drop (nat (pos e ptr + int k)) (e_input e) @
      replicate (pad - (k - (length (e_input e) - nat (pos e ptr)))) 0"
    by (simp add: pad nat_add_distrib add.commute)
  moreover have "16 \<le> length (bytes_at e ptr)" using assms(3) by (simp add: readable_def)
  then have "10 \<le> length (drop k (bytes_at e ptr))" using assms(5) by simp
  moreover have "ptr_ok e (ptr_add ptr (int k))" using e assms(2,5) by (intro ptr_ok_add) auto
  moreover have "pos e (ptr_add ptr (int k)) - pos e (e_end e) \<le> 21" using e assms(5) by simp
  ultimately show ?thesis unfolding reading_def bytes_at_add [OF assms(2)] pos_add by blast
qed

lemma moved_add:
  assumes "stream_ok e" "reading e ptr" "0 \<le> k" "k \<le> 2147483620"
  shows "moved e ptr e (ptr_add ptr k)"
  using assms by (auto simp: moved_def reading_def intro!: ptr_ok_add)

lemma moved_trans: "moved e p e' p' \<Longrightarrow> moved e' p' e'' p'' \<Longrightarrow> moved e p e'' p''"
  by (auto simp: moved_def)

text \<open>With fuel for three calls per byte up to the limit the walk ends, and inside the buffers.\<close>

definition safe_walk :: "upb_EpsCopyInputStream \<Rightarrow> eps_ptr \<Rightarrow> (unit, upb_EpsCopyInputStream \<times> eps_ptr) cres \<Rightarrow> bool" where
  "safe_walk e ptr r \<longleftrightarrow> r \<noteq> UB \<and> (\<forall>e' p'. r = Ok (e', p') \<longrightarrow> moved e ptr e' p')"

definition remaining :: "upb_EpsCopyInputStream \<Rightarrow> eps_ptr \<Rightarrow> nat" where
  "remaining e ptr = nat (limit_pos e - pos e ptr)"

lemma skip_primitive:
  assumes "stream_ok e" "reading e ptr" "sizes_ok (e_input e)" "upb_WireReader_GetWireType tag \<noteq> 3"
  shows "safe_walk e ptr (upb_WireReader_SkipValue_limit n e ptr tag depth)"
proof -
  have l: "10 \<le> length (bytes_at e ptr)" using assms(2) by (simp add: reading_def)
  note add = moved_add [OF assms(1,2)]
  obtain pad where pad: "bytes_at e ptr = drop (nat (pos e ptr)) (e_input e) @ replicate pad 0"
    using assms(2) by (auto simp: reading_def)
  have sz: "sz < 2147483600" if "upb_WireReader_ReadSize (bytes_at e ptr) = Ok (sz, k)" for sz k
    using assms(3) that unfolding pad sizes_ok_def by blast
  have v: "upb_WireReader_SkipVarint (bytes_at e ptr) = Fail () \<or>
      (\<exists>k. upb_WireReader_SkipVarint (bytes_at e ptr) = Ok k \<and> k \<le> 10)"
    using readers_in_bounds [OF l]
    by (cases "upb_WireReader_ReadVarint (bytes_at e ptr)") (auto simp: upb_WireReader_SkipVarint_def)
  have s: "upb_WireReader_ReadSize (bytes_at e ptr) = Fail () \<or>
      (\<exists>z k. upb_WireReader_ReadSize (bytes_at e ptr) = Ok (z, k) \<and> k \<le> 10 \<and> 0 \<le> z \<and> z < 2147483600)"
    using readers_in_bounds [OF l] sz by (cases "upb_WireReader_ReadSize (bytes_at e ptr)") auto
  have "moved e ptr e (ptr_add ptr (int k))" if "k \<le> 10" for k using that by (intro add) auto
  moreover have "moved e ptr e (ptr_add ptr (int k + z))" if "k \<le> 10" "0 \<le> z" "z < 2147483600" for k z
    using that by (intro add) auto
  moreover have "moved e ptr e (ptr_add ptr 4)" "moved e ptr e (ptr_add ptr 8)" by (auto intro: add)
  ultimately show ?thesis
    using v s assms(4)
    by (auto simp: safe_walk_def upb_WireReader_SkipValue_limit.simps Let_def)
qed


lemma is_done_walk:
  assumes "stream_ok e" "ptr_ok e ptr"
  obtains (stop) "\<exists>e'. upb_EpsCopyInputStream_IsDone e ptr = (Ok (True, e', None) :: (unit, _) cres)"
  | (at_limit) "upb_EpsCopyInputStream_IsDone e ptr = (Ok (True, e, Some ptr) :: (unit, _) cres)"
  | (go) e' p' where "upb_EpsCopyInputStream_IsDone e ptr = (Ok (False, e', Some p') :: (unit, _) cres)"
      "moved e ptr e' p'" "readable e' p'" "pos e' p' < limit_pos e'" "remaining e' p' = remaining e ptr"
      "0 < remaining e ptr"
  using eps_is_done_cases [OF assms] by (auto simp: moved_def remaining_def split: if_splits)

lemma skip_walk:
  "stream_ok e \<Longrightarrow> reading e ptr \<Longrightarrow> sizes_ok (e_input e) \<Longrightarrow> 3 * remaining e ptr + 2 \<le> n \<Longrightarrow>
    safe_walk e ptr (upb_WireReader_SkipValue_limit n e ptr tag depth)"
  "stream_ok e \<Longrightarrow> ptr_ok e ptr \<Longrightarrow> sizes_ok (e_input e) \<Longrightarrow> 3 * remaining e ptr + 1 \<le> n \<Longrightarrow>
    safe_walk e ptr (upb_WireReader_SkipGroup_limit n e ptr tag depth)"
  "stream_ok e \<Longrightarrow> ptr_ok e ptr \<Longrightarrow> sizes_ok (e_input e) \<Longrightarrow> 3 * remaining e ptr \<le> n \<Longrightarrow>
    safe_walk e ptr (skip_group_loop n e ptr tag depth)"
proof (induction n arbitrary: e ptr tag depth rule: less_induct)
  case (less n)
  {
    case 1
    show ?case
    proof (cases "upb_WireReader_GetWireType tag = 3")
      case True
      moreover obtain n' where "n = Suc n'" using 1(4) by (cases n) auto
      moreover have "safe_walk e ptr (upb_WireReader_SkipGroup_limit n' e ptr tag depth)"
        using 1 calculation by (intro less(2)) (auto simp: reading_def)
      ultimately show ?thesis by (simp add: upb_WireReader_SkipValue_limit.simps)
    qed (rule skip_primitive [OF 1(1,2,3)])
  next
    case 2
    moreover obtain n' where "n = Suc n'" using 2(4) by (cases n) auto
    moreover have "safe_walk e ptr (skip_group_loop n' e ptr end_tag depth')" for end_tag depth'
      using calculation by (intro less(3)) auto
    ultimately show ?case by (simp add: upb_WireReader_SkipGroup_limit.simps Let_def safe_walk_def)
  next
    case 3
    from 3(1,2) show ?case
    proof (cases rule: is_done_walk)
      case (go e1 p1)
      obtain n' where n: "n = Suc n'" using 3(4) go(6) by (cases n) auto
      have ok: "stream_ok e1" "ptr_ok e1 p1" "sizes_ok (e_input e1)" using go(2) 3(3) by (auto simp: moved_def)
      have "10 \<le> length (bytes_at e1 p1)" using go(3) by (auto simp: readable_def)
      from readers_in_bounds [OF this] consider (null) "upb_WireReader_ReadTag (bytes_at e1 p1) = Fail ()"
        | (tag) t k where "upb_WireReader_ReadTag (bytes_at e1 p1) = Ok (t, k)" "0 < k" "k \<le> 5"
        by (cases "upb_WireReader_ReadTag (bytes_at e1 p1)") auto
      then show ?thesis
      proof cases
        case null
        then show ?thesis by (simp add: skip_group_loop.simps go(1) safe_walk_def)
      next
        case (tag t k)
        let ?p2 = "ptr_add p1 (int k)"
        have r2: "reading e1 ?p2" by (rule reading_after_tag [OF ok(1,2) go(3,4) tag(3)])
        have m2: "moved e ptr e1 ?p2"
          using go(2) moved_add [OF ok(1)] r2 by (auto simp: moved_def reading_def)
        have rem: "remaining e1 ?p2 < remaining e ptr"
          using go(4,5) tag(2) by (auto simp: remaining_def)
        have sv: "safe_walk e1 ?p2 (upb_WireReader_SkipValue_limit n' e1 ?p2 t depth)"
          using rem 3(4) n by (intro less(1) ok r2) auto
        have loop: "safe_walk e3 p3 (skip_group_loop n' e3 p3 tag depth)" "moved e ptr e3 p3"
          if "upb_WireReader_SkipValue_limit n' e1 ?p2 t depth = Ok (e3, p3)" for e3 p3
        proof -
          have m: "moved e1 ?p2 e3 p3" using sv that by (auto simp: safe_walk_def)
          then show "moved e ptr e3 p3" by (rule moved_trans [OF m2])
          have "remaining e3 p3 \<le> remaining e1 ?p2" using m by (auto simp: moved_def remaining_def)
          then show "safe_walk e3 p3 (skip_group_loop n' e3 p3 tag depth)"
            using m rem 3(4) n ok by (intro less(3)) (auto simp: moved_def)
        qed
        show ?thesis
          using sv loop m2
          by (cases "upb_WireReader_SkipValue_limit n' e1 ?p2 t depth")
            (auto simp: skip_group_loop.simps [of "Suc n'"] go(1) tag(1) n safe_walk_def Let_def dest: moved_trans)
      qed
    qed (auto simp: skip_group_loop.simps safe_walk_def moved_def 3)
  }
qed


text \<open>C21: skipping a value, groups and all, ends and stays inside the buffers. From a position that
  the check for the end has found to be readable, the walk either fails or comes back with a pointer at
  or behind the start, in a stream in order with the same limit, as long as no size field of the input
  is within 48 of \<open>INT_MAX\<close>; three calls for every byte up to the limit are enough.\<close>

theorem skip_value_safe:
  assumes "stream_ok e" "ptr_ok e ptr" "readable e ptr" "pos e ptr < limit_pos e" "sizes_ok (e_input e)"
    and "upb_WireReader_ReadTag (bytes_at e ptr) = Ok (tag, k)" "n \<ge> 3 * nat (limit_pos e - pos e ptr) + 2"
  shows "upb_WireReader_SkipValue n e (ptr_add ptr (int k)) tag = Fail () \<or>
    (\<exists>e' p'. upb_WireReader_SkipValue n e (ptr_add ptr (int k)) tag = Ok (e', p') \<and> stream_ok e' \<and> ptr_ok e' p' \<and>
       pos e ptr + int k \<le> pos e' p' \<and> limit_pos e' = limit_pos e \<and> e_input e' = e_input e)"
proof -
  have "10 \<le> length (bytes_at e ptr)" using assms(3) by (auto simp: readable_def)
  with readers_in_bounds [OF this] assms(6) have "k \<le> 5" by blast
  note r = reading_after_tag [OF assms(1-4) this]
  have "remaining e (ptr_add ptr (int k)) \<le> nat (limit_pos e - pos e ptr)" by (simp add: remaining_def)
  then have "safe_walk e (ptr_add ptr (int k)) (upb_WireReader_SkipValue n e (ptr_add ptr (int k)) tag)"
    unfolding upb_WireReader_SkipValue_def using assms(7) by (intro skip_walk(1) assms(1,5) r) simp
  then show ?thesis
    by (cases "upb_WireReader_SkipValue n e (ptr_add ptr (int k)) tag") (auto simp: safe_walk_def moved_def)
qed

definition fresh_stream :: upb_EpsCopyInputStream where
  "fresh_stream = \<lparr>e_input = [], e_end = Patch 0, e_limit_ptr = Patch 0, e_delta = None, e_limit = 0,
     e_error = False, e_aliasing = False, e_patch = replicate 32 0\<rparr>"


text \<open>A group that is never closed is skipped without an error: at the end of the data the function
  returns the pointer it has, not \<open>NULL\<close>. Here the tag that would end the group is missing.\<close>

theorem unterminated_group_skipped:
  "case upb_EpsCopyInputStream_Init fresh_stream [0x0B, 0x10, 0x01] False of (e, ptr) \<Rightarrow>
    upb_WireReader_ReadTag (bytes_at e ptr) = Ok (0x0B, 1) \<and> upb_WireReader_GetWireType 0x0B = 3 \<and>
    (case upb_WireReader_SkipGroup 10 e (ptr_add ptr 1) 0x0B of
       Ok (e', p') \<Rightarrow> pos e' p' = 3 \<and> \<not> upb_EpsCopyInputStream_IsError e'
     | _ \<Rightarrow> False)"
  by code_simp

text \<open>An input with a group, in it a field of four bytes and then one of 0x7FFFFFFE bytes.\<close>

definition wild_stream :: upb_EpsCopyInputStream where
  "wild_stream = fst (upb_EpsCopyInputStream_Init fresh_stream
     ([0x0B, 0x12, 0x04, 0, 0, 0, 0, 0x12, 0xFE, 0xFF, 0xFF, 0xFF, 0x07] @ replicate 11 0) False)"

lemma wild_stream_tags:
  "upb_WireReader_ReadTag (bytes_at wild_stream (Input 0)) = Ok (0x0B, 1)"
  "upb_WireReader_ReadTag (bytes_at wild_stream (Input 1)) = Ok (0x12, 1)"
  "upb_WireReader_ReadSize (bytes_at wild_stream (Input 2)) = Ok (4, 1)"
  "upb_WireReader_ReadTag (bytes_at wild_stream (Input 7)) = Ok (0x12, 1)"
  "upb_WireReader_ReadSize (bytes_at wild_stream (Input 8)) = Ok (2147483646, 5)"
  by code_simp+

lemma wild_stream_is_done:
  "upb_EpsCopyInputStream_IsDone wild_stream (Input 1) = (Ok (False, wild_stream, Some (Input 1)) :: (unit, _) cres)"
  "upb_EpsCopyInputStream_IsDone wild_stream (Input 7) = (Ok (False, wild_stream, Some (Input 7)) :: (unit, _) cres)"
  "case upb_EpsCopyInputStream_IsDone wild_stream (Input 2147483659) :: (unit, _) cres of
    Ok (is_done, e, p) \<Rightarrow> \<not> is_done \<and> p = Some (Patch (- 2147483645)) | _ \<Rightarrow> False"
  by code_simp+


text \<open>C25: with a size field close to \<open>INT_MAX\<close> the walk leaves the buffers: the distance to the end
  overflows the \<open>int\<close>, the negative result passes for a position inside the patch buffer, and the next
  tag is read 2 GB below it. This is so for every amount of fuel.\<close>

theorem skip_value_out_of_bounds:
  "upb_WireReader_ReadTag (bytes_at wild_stream (Input 0)) = Ok (0x0B, 1) \<and>
    upb_WireReader_SkipValue n wild_stream (Input 1) 0x0B = UB"
proof -
  obtain e where e: "upb_EpsCopyInputStream_IsDone wild_stream (Input 2147483659) =
      (Ok (False, e, Some (Patch (- 2147483645))) :: (unit, _) cres)"
    using wild_stream_is_done(3)
    by (auto split: cres.splits prod.splits)
  have wt: "upb_WireReader_GetWireType 0x0B = 3" "upb_WireReader_GetWireType 0x12 = 2" by code_simp+
  have tag: "upb_WireReader_ReadTag [] = UB"
    by (simp add: upb_WireReader_ReadTag_def upb_WireReader_ReadVarint_max_def byte_at_def cassert_def)
  have last: "skip_group_loop n wild_stream (Input 2147483659) t d = UB" for n t d
    by (simp add: skip_group_loop.simps e tag)
  have second: "skip_group_loop n wild_stream (Input 7) 0x0C d = UB" for n d
    by (simp add: skip_group_loop.simps [of n] wild_stream_is_done wild_stream_tags last
        upb_WireReader_SkipValue_limit.simps wt split: nat.split del: bytes_at.simps)
  have "skip_group_loop n wild_stream (Input 1) 0x0C d = UB" for n d
    by (simp add: skip_group_loop.simps [of n] wild_stream_is_done wild_stream_tags second
        upb_WireReader_SkipValue_limit.simps wt split: nat.split del: bytes_at.simps)
  moreover have "((0x0B :: u32) AND NOT 7) OR 4 = 0x0C" by code_simp
  ultimately show ?thesis
    by (simp add: wild_stream_tags upb_WireReader_SkipValue_def upb_WireReader_SkipValue_limit.simps [of n]
        upb_WireReader_SkipGroup_limit.simps wt split: nat.split del: bytes_at.simps)
qed


text \<open>C26: what the size checks of the stream let through. A size is available exactly when it is not
  negative and the data ends at most 16 bytes behind the limit and behind the end of the current block
  (the end of the block is 16 bytes before the end of the input, or the end of the input when it has
  been copied to the patch buffer): up to 16 bytes beyond a limit that was pushed are accepted, where
  \<open>upb_EpsCopyInputStream_CheckSize\<close> compares with the limit itself. \<open>Skip\<close> and \<open>Copy\<close> succeed
  in exactly these cases; \<open>Copy\<close> gives the bytes of the input, beyond its end zeros. This holds for every
  stream in its invariant (\<open>stream_ok\<close>) and a pointer that is less than \<open>2 ^ 31\<close> behind the end of the
  block (\<open>ptr_ok\<close>).\<close>

theorem data_available_beyond_limit:
  assumes "stream_ok e" "ptr_ok e ptr"
  shows "let ok = (0 \<le> sz \<and> pos e ptr + sz \<le> min (pos e (e_end e)) (limit_pos e) + 16) in
    upb_EpsCopyInputStream_CheckDataSizeAvailable e ptr sz = (Ok ok :: (unit, _) cres) \<and>
    upb_EpsCopyInputStream_Skip e ptr sz = (if ok then Ok (ptr_add ptr sz) else Fail ()) \<and>
    upb_EpsCopyInputStream_Copy e ptr sz =
      (if ok then Ok (take (nat sz) (drop (nat (pos e ptr)) (e_input e) @ replicate (nat sz) 0), ptr_add ptr sz)
       else Fail ()) \<and>
    upb_EpsCopyInputStream_CheckSize e ptr sz =
      (if 0 \<le> sz then Ok (pos e ptr + sz \<le> limit_pos e) else UB :: (unit, _) cres)"
proof -
  have m: "pos e (e_end e) + min 0 (e_limit e) = min (pos e (e_end e)) (limit_pos e)"
    by (simp add: limit_pos_def min_def)
  have avail: "upb_EpsCopyInputStream_CheckDataSizeAvailable e ptr sz =
      Ok (0 \<le> sz \<and> pos e ptr + sz \<le> min (pos e (e_end e)) (limit_pos e) + 16)"
    by (simp add: upb_EpsCopyInputStream_CheckDataSizeAvailable_def check_size_available [OF assms] m)
  have neg: "upb_EpsCopyInputStream_CheckSize e ptr sz = UB" if "\<not> 0 \<le> sz"
    using that by (simp add: upb_EpsCopyInputStream_CheckSize_def cassert_def)
  have "upb_EpsCopyInputStream_Copy e ptr sz =
      Ok (take (nat sz) (drop (nat (pos e ptr)) (e_input e) @ replicate (nat sz) 0), ptr_add ptr sz)"
    if ok: "0 \<le> sz" "pos e ptr + sz \<le> min (pos e (e_end e)) (limit_pos e) + 16"
  proof -
    have "pos e ptr + sz \<le> pos e (e_end e) + 16" using ok(2) by simp
    note d = data_in_memory [OF assms ok(1) this]
    show ?thesis using ok d(1) unfolding upb_EpsCopyInputStream_Copy_def avail d(2) by simp
  qed
  then show ?thesis using neg check_size [OF assms]
    by (auto simp: upb_EpsCopyInputStream_Skip_def upb_EpsCopyInputStream_Copy_def avail Let_def)
qed

section \<open>Instances\<close>

lemma small_bytes_sizes: "(\<And>b. b \<in> set inp \<Longrightarrow> unat b < 128) \<Longrightarrow> sizes_ok inp"
proof -
  assume small: "\<And>b. b \<in> set inp \<Longrightarrow> unat b < 128"
  have "sz < 2147483600" if r: "upb_WireReader_ReadSize (drop k inp @ replicate pad 0) = Ok (sz, n)" for k pad sz n
  proof -
    let ?p = "drop k inp @ replicate pad 0"
    have ne: "?p \<noteq> []" using r
      by (auto simp: upb_WireReader_ReadSize_def upb_WireReader_ReadVarint_def upb_WireReader_ReadVarint_max_def
          byte_at_def cassert_def split: if_splits)
    have "?p ! 0 \<in> set ?p" using ne by (metis length_greater_0_conv nth_mem)
    then have u: "unat (?p ! 0) < 128" using small by (auto dest: in_set_dropD)
    then have "?p ! 0 AND 0x80 = 0" by (simp only: and_0x80)
    moreover have "byte_at q 0 = Ok (q ! 0)" if "q \<noteq> []" for q using that by (simp add: byte_at_def)
    then have "byte_at ?p 0 = Ok (?p ! 0)" using ne by blast
    ultimately have "upb_WireReader_ReadVarint ?p = Ok (ucast (?p ! 0), 1)"
      by (simp add: upb_WireReader_ReadVarint_def upb_WireReader_ReadVarint_max_def)
    then have "sz = uint (ucast (?p ! 0) :: u64)" using r
      by (auto simp: upb_WireReader_ReadSize_def split: if_splits)
    then have "sz = int (unat (ucast (?p ! 0) :: u64))" by simp
    also have "\<dots> = int (unat (?p ! 0))" by (rule arg_cong [OF unat_ucast_up]) simp
    finally show ?thesis using u by linarith
  qed
  then show ?thesis by (auto simp: sizes_ok_def)
qed

definition ones_stream :: "upb_EpsCopyInputStream" where
  "ones_stream = fst (upb_EpsCopyInputStream_Init fresh_stream (replicate 24 1) False)"

lemma ones_stream_ok:
  "stream_ok ones_stream" "ptr_ok ones_stream (Input 0)" "pos ones_stream (Input 0) = 0"
  "limit_pos ones_stream = 24" "e_input ones_stream = replicate 24 1" "e_aliasing ones_stream = False"
  "readable ones_stream (Input 0)" "sizes_ok (e_input ones_stream)"
proof -
  have i: "upb_EpsCopyInputStream_Init fresh_stream (replicate 24 1) False = (ones_stream, Input 0)"
    by (simp add: ones_stream_def upb_EpsCopyInputStream_Init_def Let_def kUpb_EpsCopyInputStream_SlopBytes_def)
  have p: "length (e_patch fresh_stream) = 32" by (simp add: fresh_stream_def)
  note init = stream_init_ok [OF _ p i]
  show ok: "stream_ok ones_stream" "ptr_ok ones_stream (Input 0)" "pos ones_stream (Input 0) = 0"
    "limit_pos ones_stream = 24" and inp: "e_input ones_stream = replicate 24 1" and "e_aliasing ones_stream = False"
    using init by simp_all
  show "readable ones_stream (Input 0)"
    by (auto simp: readable_def inp intro: exI [of _ 0])
  show "sizes_ok (e_input ones_stream)" by (rule small_bytes_sizes) (simp add: inp)
qed

theorem data_available_beyond_limit_witness:
  "\<exists>e. upb_EpsCopyInputStream_PushLimit ones_stream (Input 0) 3 = (Ok (21, e) :: (unit, _) cres) \<and> limit_pos e = 3 \<and>
     upb_EpsCopyInputStream_CheckSize e (Input 0) 19 = (Ok False :: (unit, _) cres) \<and>
     upb_EpsCopyInputStream_Copy e (Input 0) 19 = Ok (replicate 19 1, Input 19) \<and>
     upb_EpsCopyInputStream_Copy e (Input 0) 20 = Fail ()"
proof -
  obtain e where e: "upb_EpsCopyInputStream_PushLimit ones_stream (Input 0) 3 =
      (Ok (limit_pos ones_stream - (pos ones_stream (Input 0) + 3), e) :: (unit, _) cres)"
    "stream_ok e" "limit_pos e = pos ones_stream (Input 0) + 3" "pos e (Input 0) = pos ones_stream (Input 0)" "ptr_ok e (Input 0)"
    "e_end e = e_end ones_stream" "e_input e = e_input ones_stream"
    by (rule push_limit [OF ones_stream_ok(1,2), of 3, where 'a = unit]) (simp_all add: ones_stream_ok)
  have i: "e_end ones_stream = Input 8" by code_simp
  show ?thesis
    using data_available_beyond_limit [OF e(2,5), of 19] data_available_beyond_limit [OF e(2,5), of 20] e
    by (simp add: ones_stream_ok i Let_def)
qed

theorem eps_is_done_correct_witness:
  "\<exists>e p. upb_EpsCopyInputStream_IsDone ones_stream (Input 0) = (Ok (False, e, Some p) :: (unit, _) cres) \<and> readable e p"
  using eps_is_done_correct [OF ones_stream_ok(1,2) refl] by (auto simp: ones_stream_ok)

theorem limits_nest_witness:
  "\<exists>delta e. upb_EpsCopyInputStream_PushLimit ones_stream (Input 0) 7 = (Ok (delta, e) :: (unit, _) cres) \<and> limit_pos e = 7"
  using limits_nest [OF ones_stream_ok(1,2), of 7] by (auto simp: ones_stream_ok)

theorem read_string_correct_witness:
  "upb_EpsCopyInputStream_ReadString (\<lambda>_ a. (True, a)) ones_stream (Input 0) 3 () =
    Ok (Input 3, Copied [1, 1, 1], ())"
  using read_string_correct [OF ones_stream_ok(1,2), of 3 "\<lambda>_ a. (True, a)" "()"]
  by (simp add: ones_stream_ok eval_nat_numeral)

theorem skip_value_safe_witness:
  "upb_WireReader_SkipValue 74 ones_stream (Input 1) 1 \<noteq> UB"
proof -
  have "upb_WireReader_ReadTag (bytes_at ones_stream (Input 0)) = Ok (1, 1)" by code_simp
  from skip_value_safe [OF ones_stream_ok(1,2,7) _ ones_stream_ok(8) this, of 74] show ?thesis
    by (auto simp: ones_stream_ok)
qed

end
