(* ===== verification/CompareUnknown.thy ===== *)
theory CompareUnknown
  imports EpsStream
begin

text \<open>
  \<open>upb/message/internal/compare_unknown.c\<close>: are the unknown fields of two messages the same? The bytes
  of both messages are parsed, the fields sorted by their tags at every level, and the two trees compared.
  A message is given by its unknown fields, the byte strings that \<open>upb_Message_NextUnknown\<close> yields; the
  three allocators of the function are parameters; a \<open>longjmp\<close> is \<open>Fail\<close> with the status it delivers.
\<close>

section \<open>Data\<close>

datatype upb_UnknownCompareResult =
  kUpb_UnknownCompareResult_Equal
| kUpb_UnknownCompareResult_NotEqual
| kUpb_UnknownCompareResult_OutOfMemory
| kUpb_UnknownCompareResult_MaxDepthExceeded

text \<open>The members of the union are its constructors. A delimited field points to bytes of the message,
  which do not change meanwhile; the array of a group is a list.\<close>

datatype upb_UnknownField = UnknownField (uf_tag: u32) (uf_data: upb_UnknownField_data)
and upb_UnknownField_data =
  U_Varint u64
| U_64Bit u64
| U_32Bit u32
| U_Delimited bytes
| U_Group "upb_UnknownField list"

text \<open>\<open>upb_Arena_Malloc\<close>, \<open>upb_Arena_Realloc\<close> and \<open>upb_grealloc\<close>, and what they depend on.\<close>

record 'a uf_memory =
  uf_malloc :: "'a malloc"
  uf_realloc :: "'a realloc"
  uf_grealloc :: "nat \<Rightarrow> u64 \<Rightarrow> 'a \<Rightarrow> bool \<times> 'a"

record 'a upb_UnknownField_Context =
  uc_stream :: upb_EpsCopyInputStream
  uc_arena :: 'a
  uc_tmp_size :: nat
  uc_depth :: int

text \<open>The array of the builder, from \<open>arr_base\<close> to \<open>arr_ptr\<close>; \<open>arr_end\<close> gives its capacity.\<close>

record upb_UnknownFields_Builder =
  b_fields :: "upb_UnknownField list"
  b_capacity :: nat
  b_last_tag :: u32
  b_sorted :: bool

definition empty_builder :: upb_UnknownFields_Builder where
  "empty_builder = \<lparr>b_fields = [], b_capacity = 0, b_last_tag = 0, b_sorted = True\<rparr>"

definition sizeof_upb_UnknownField :: nat where "sizeof_upb_UnknownField = 24"

definition upb_UnknownFields_Grow ::
    "'a uf_memory \<Rightarrow> 'a upb_UnknownField_Context \<Rightarrow> upb_UnknownFields_Builder \<Rightarrow>
     (upb_UnknownCompareResult, 'a upb_UnknownField_Context \<times> upb_UnknownFields_Builder) cres" where
  "upb_UnknownFields_Grow mem ctx b =
     (let old = length (b_fields b); new = max 4 (old * 2) in
      case uf_realloc mem (old * sizeof_upb_UnknownField) (new * sizeof_upb_UnknownField) (uc_arena ctx) of
        (ok, a) \<Rightarrow>
          if \<not> ok then Fail kUpb_UnknownCompareResult_OutOfMemory
          else Ok (ctx\<lparr>uc_arena := a\<rparr>, b\<lparr>b_capacity := new\<rparr>))"

section \<open>Sorting\<close>

text \<open>The loop over the two halves in \<open>tmp\<close>: what it writes to \<open>arr\<close>, and where \<open>ptr1\<close> and \<open>ptr2\<close>
  stop.\<close>

function merge_loop ::
    "upb_UnknownField list \<Rightarrow> nat \<Rightarrow> nat \<Rightarrow> nat \<Rightarrow> nat \<Rightarrow> upb_UnknownField list \<times> nat \<times> nat" where
  "merge_loop tmp ptr1 end1 ptr2 end2 =
     (if ptr1 < end1 \<and> ptr2 < end2 then
        (if uf_tag (tmp ! ptr1) \<le> uf_tag (tmp ! ptr2) then
           (case merge_loop tmp (ptr1 + 1) end1 ptr2 end2 of (out, p1, p2) \<Rightarrow> (tmp ! ptr1 # out, p1, p2))
         else
           (case merge_loop tmp ptr1 end1 (ptr2 + 1) end2 of (out, p1, p2) \<Rightarrow> (tmp ! ptr2 # out, p1, p2)))
      else ([], ptr1, ptr2))"
  by pat_completeness auto
termination by (relation "measure (\<lambda>(_, p1, e1, p2, e2). (e1 - p1) + (e2 - p2))") auto

declare merge_loop.simps [simp del]

text \<open>The second \<open>memcpy\<close> copies from \<open>ptr1\<close>, as the first does.\<close>

definition upb_UnknownFields_Merge ::
    "upb_UnknownField list \<Rightarrow> nat \<Rightarrow> nat \<Rightarrow> nat \<Rightarrow> upb_UnknownField list" where
  "upb_UnknownFields_Merge arr start mid stop =
     (let tmp = take (stop - start) (drop start arr); end1 = mid - start; end2 = stop - start in
      case merge_loop tmp 0 end1 end1 end2 of
        (out, ptr1, ptr2) \<Rightarrow>
          (let tail = (if ptr1 < end1 then take (end1 - ptr1) (drop ptr1 tmp)
                       else if ptr2 < end2 then take (end2 - ptr2) (drop ptr1 tmp)
                       else [])
           in take start arr @ out @ tail @ drop (start + length out + length tail) arr))"

function upb_UnknownFields_SortRecursive ::
    "upb_UnknownField list \<Rightarrow> nat \<Rightarrow> nat \<Rightarrow> upb_UnknownField list" where
  "upb_UnknownFields_SortRecursive arr start stop =
     (if stop - start > 1 then
        (let mid = start + (stop - start) div 2;
             arr = upb_UnknownFields_SortRecursive arr start mid;
             arr = upb_UnknownFields_SortRecursive arr mid stop
         in upb_UnknownFields_Merge arr start mid stop)
      else arr)"
  by pat_completeness auto
termination by (relation "measure (\<lambda>(_, start, stop). stop - start)") auto

declare upb_UnknownFields_SortRecursive.simps [simp del]

text \<open>The doubling of the \<open>size_t\<close>, without its wrap-around above \<open>2 ^ 63\<close> fields: an array of so many
  does not fit the address space.\<close>

function grow_tmp :: "nat \<Rightarrow> nat \<Rightarrow> nat" where
  "grow_tmp tmp_size n = (if 0 < tmp_size \<and> tmp_size < n then grow_tmp (tmp_size * 2) n else tmp_size)"
  by pat_completeness auto
termination by (relation "measure (\<lambda>(tmp_size, n). n - tmp_size)") auto

declare grow_tmp.simps [simp del]

text \<open>\<open>newsize\<close> is an \<open>int\<close>. The result of \<open>upb_grealloc\<close> is not checked: without memory, the sort
  writes through \<open>NULL\<close>.\<close>

definition upb_UnknownFields_Sort ::
    "'a uf_memory \<Rightarrow> 'a upb_UnknownField_Context \<Rightarrow> upb_UnknownField list \<Rightarrow>
     ('e, 'a upb_UnknownField_Context \<times> upb_UnknownField list) cres" where
  "upb_UnknownFields_Sort mem ctx uf =
     cbind
       (if uc_tmp_size ctx < length uf then
          (let oldsize = uc_tmp_size ctx * sizeof_upb_UnknownField;
               tmp_size = grow_tmp (max 8 (uc_tmp_size ctx)) (length uf);
               newsize = c_int (int (tmp_size * sizeof_upb_UnknownField))
           in case uf_grealloc mem oldsize (word_of_int newsize) (uc_arena ctx) of
                (ok, a) \<Rightarrow> cassert ok (Ok (ctx\<lparr>uc_arena := a, uc_tmp_size := tmp_size\<rparr>)))
        else Ok ctx)
       (\<lambda>ctx. Ok (ctx, upb_UnknownFields_SortRecursive uf 0 (length uf)))"

section \<open>Parsing\<close>

text \<open>The \<open>NULL\<close> of a reader is not checked; whatever comes next with it is undefined.\<close>

definition no_null :: "(unit, 'a) cres \<Rightarrow> ('e, 'a) cres" where
  "no_null r = (case r of Ok x \<Rightarrow> Ok x | _ \<Rightarrow> UB)"

definition upb_UnknownFields_DoBuild ::
    "'a uf_memory \<Rightarrow> 'a upb_UnknownField_Context \<Rightarrow> upb_UnknownFields_Builder \<Rightarrow>
     (upb_UnknownCompareResult, 'a upb_UnknownField_Context \<times> upb_UnknownField list) cres" where
  "upb_UnknownFields_DoBuild mem ctx b =
     (case uf_malloc mem 24 (uc_arena ctx) of
        (ok, a) \<Rightarrow>
          if \<not> ok then Fail kUpb_UnknownCompareResult_OutOfMemory
          else
            (let ctx = ctx\<lparr>uc_arena := a\<rparr> in
             if \<not> b_sorted b then upb_UnknownFields_Sort mem ctx (b_fields b)
             else Ok (ctx, b_fields b)))"

text \<open>The values that are not groups.\<close>

definition read_value ::
    "upb_EpsCopyInputStream \<Rightarrow> u8 \<Rightarrow> eps_ptr \<Rightarrow> ('e, upb_UnknownField_data \<times> eps_ptr) cres" where
  "read_value e wire_type ptr =
     (let p = bytes_at e ptr in
      if wire_type = 0 then
        cbind (no_null (upb_WireReader_ReadVarint p)) (\<lambda>(v, len). Ok (U_Varint v, ptr_add ptr (int len)))
      else if wire_type = 1 then
        cbind (no_null (upb_WireReader_ReadFixed64 p)) (\<lambda>(v, len). Ok (U_64Bit v, ptr_add ptr (int len)))
      else if wire_type = 5 then
        cbind (no_null (upb_WireReader_ReadFixed32 p)) (\<lambda>(v, len). Ok (U_32Bit v, ptr_add ptr (int len)))
      else if wire_type = 2 then
        cbind (no_null (upb_WireReader_ReadSize p)) (\<lambda>(size, len).
          cbind (upb_EpsCopyInputStream_ReadStringAliased e (ptr_add ptr (int len)) size) (\<lambda>(ptr, s_ptr).
            cassert (nat size \<le> length (bytes_at e s_ptr))
              (Ok (U_Delimited (take (nat size) (bytes_at e s_ptr)), ptr))))
      else UB)"

text \<open>The loop over the fields and the parser of a group call each other. Both have fuel; a run without
  fuel left is \<open>UB\<close>. A byte of input per step is enough.\<close>

fun upb_CombineUnknownFields ::
    "nat \<Rightarrow> 'a uf_memory \<Rightarrow> 'a upb_UnknownField_Context \<Rightarrow> upb_UnknownFields_Builder \<Rightarrow> eps_ptr \<Rightarrow>
     (upb_UnknownCompareResult, 'a upb_UnknownField_Context \<times> upb_UnknownFields_Builder \<times> eps_ptr) cres"
and upb_UnknownFields_BuildFromBuffer ::
    "nat \<Rightarrow> 'a uf_memory \<Rightarrow> 'a upb_UnknownField_Context \<Rightarrow> eps_ptr \<Rightarrow>
     (upb_UnknownCompareResult, 'a upb_UnknownField_Context \<times> upb_UnknownField list \<times> eps_ptr) cres" where
  "upb_CombineUnknownFields n mem ctx b ptr =
     cbind (upb_EpsCopyInputStream_IsDone (uc_stream ctx) ptr) (\<lambda>(is_done, e, p).
       let ctx = ctx\<lparr>uc_stream := e\<rparr> in
       case p of
         None \<Rightarrow> UB
       | Some ptr \<Rightarrow>
           if is_done then Ok (ctx, b, ptr)
           else
             cbind (no_null (upb_WireReader_ReadTag (bytes_at e ptr))) (\<lambda>(tag, len).
               let ptr = ptr_add ptr (int len); wire_type = upb_WireReader_GetWireType tag in
               if wire_type = 4 then Ok (ctx, b, ptr)
               else
                 (let b = b\<lparr>b_sorted := (b_sorted b \<and> \<not> tag < b_last_tag b), b_last_tag := tag\<rparr> in
                  cbind (if length (b_fields b) = b_capacity b then upb_UnknownFields_Grow mem ctx b else Ok (ctx, b))
                    (\<lambda>(ctx, b).
                      case n of
                        0 \<Rightarrow> UB
                      | Suc n \<Rightarrow>
                          cbind
                            (if wire_type = 3 then
                               (let depth = uc_depth ctx - 1 in
                                if depth = 0 then Fail kUpb_UnknownCompareResult_MaxDepthExceeded
                                else
                                  cbind (upb_UnknownFields_BuildFromBuffer n mem (ctx\<lparr>uc_depth := depth\<rparr>) ptr)
                                    (\<lambda>(ctx, uf, ptr).
                                      Ok (ctx\<lparr>uc_depth := uc_depth ctx + 1\<rparr>, U_Group uf, ptr)))
                             else cbind (read_value e wire_type ptr) (\<lambda>(d, ptr). Ok (ctx, d, ptr)))
                            (\<lambda>(ctx, d, ptr).
                              upb_CombineUnknownFields n mem ctx
                                (b\<lparr>b_fields := b_fields b @ [UnknownField tag d]\<rparr>) ptr)))))"
| "upb_UnknownFields_BuildFromBuffer n mem ctx ptr =
     (case n of
        0 \<Rightarrow> UB
      | Suc n \<Rightarrow>
          cbind (upb_CombineUnknownFields n mem ctx empty_builder ptr) (\<lambda>(ctx, b, ptr).
          cbind (upb_UnknownFields_DoBuild mem ctx b) (\<lambda>(ctx, uf). Ok (ctx, uf, ptr))))"

declare upb_CombineUnknownFields.simps [simp del] upb_UnknownFields_BuildFromBuffer.simps [simp del]

text \<open>Over all unknown fields of a message.\<close>

fun build_views ::
    "nat \<Rightarrow> 'a uf_memory \<Rightarrow> 'a upb_UnknownField_Context \<Rightarrow> upb_UnknownFields_Builder \<Rightarrow> bytes list \<Rightarrow>
     (upb_UnknownCompareResult, 'a upb_UnknownField_Context \<times> upb_UnknownFields_Builder) cres" where
  "build_views n mem ctx b [] = Ok (ctx, b)"
| "build_views n mem ctx b (view # views) =
     (case upb_EpsCopyInputStream_Init (uc_stream ctx) view True of
        (e, ptr) \<Rightarrow>
          cbind (upb_CombineUnknownFields n mem (ctx\<lparr>uc_stream := e\<rparr>) b ptr) (\<lambda>(ctx, b, ptr).
          cbind (upb_EpsCopyInputStream_IsDone (uc_stream ctx) ptr) (\<lambda>(is_done, e, p).
            cassert (is_done \<and> \<not> upb_EpsCopyInputStream_IsError e)
              (build_views n mem (ctx\<lparr>uc_stream := e\<rparr>) b views))))"

definition upb_UnknownFields_Build ::
    "nat \<Rightarrow> 'a uf_memory \<Rightarrow> 'a upb_UnknownField_Context \<Rightarrow> bytes list \<Rightarrow>
     (upb_UnknownCompareResult, 'a upb_UnknownField_Context \<times> upb_UnknownField list) cres" where
  "upb_UnknownFields_Build n mem ctx msg =
     cbind (build_views n mem ctx empty_builder msg) (\<lambda>(ctx, b). upb_UnknownFields_DoBuild mem ctx b)"

section \<open>Comparing\<close>

text \<open>The wire type is that of the first field; reading another member of the second one's union than was
  written does not happen for fields that were built.\<close>

function upb_UnknownFields_IsEqual ::
    "upb_UnknownField list \<Rightarrow> upb_UnknownField list \<Rightarrow> ('e, bool) cres"
and fields_equal :: "upb_UnknownField list \<Rightarrow> upb_UnknownField list \<Rightarrow> ('e, bool) cres"
and data_equal :: "u32 \<Rightarrow> upb_UnknownField_data \<Rightarrow> upb_UnknownField_data \<Rightarrow> ('e, bool) cres" where
  "upb_UnknownFields_IsEqual uf1 uf2 =
     (if length uf1 \<noteq> length uf2 then Ok False else fields_equal uf1 uf2)"
| "fields_equal uf1 uf2 =
     (case (uf1, uf2) of
        (f1 # uf1, f2 # uf2) \<Rightarrow>
          if uf_tag f1 \<noteq> uf_tag f2 then Ok False
          else cbind (data_equal (uf_tag f1 AND 7) (uf_data f1) (uf_data f2)) (\<lambda>eq.
                 if \<not> eq then Ok False else fields_equal uf1 uf2)
      | _ \<Rightarrow> Ok True)"
| "data_equal wire_type d1 d2 =
     (case (d1, d2) of
        (U_Varint v1, U_Varint v2) \<Rightarrow> cassert (wire_type = 0) (Ok (v1 = v2))
      | (U_64Bit v1, U_64Bit v2) \<Rightarrow> cassert (wire_type = 1) (Ok (v1 = v2))
      | (U_32Bit v1, U_32Bit v2) \<Rightarrow> cassert (wire_type = 5) (Ok (v1 = v2))
      | (U_Delimited s1, U_Delimited s2) \<Rightarrow> cassert (wire_type = 2) (Ok (upb_StringView_IsEqual s1 s2))
      | (U_Group g1, U_Group g2) \<Rightarrow> cassert (wire_type = 3) (upb_UnknownFields_IsEqual g1 g2)
      | _ \<Rightarrow> UB)"
  by pat_completeness auto
termination
proof (relation "measure (case_sum (\<lambda>(uf1, _). 2 * size_list size uf1 + 1)
    (case_sum (\<lambda>(uf1, _). 2 * size_list size uf1) (\<lambda>(_, d, _). 2 * size d)))", goal_cases)
  case (3 uf1 uf2 p q f1)
  then show ?case by (cases f1) auto
qed auto

declare upb_UnknownFields_IsEqual.simps [simp del] fields_equal.simps [simp del] data_equal.simps [simp del]

definition upb_UnknownField_DoCompare ::
    "nat \<Rightarrow> 'a uf_memory \<Rightarrow> 'a upb_UnknownField_Context \<Rightarrow> bytes list \<Rightarrow> bytes list \<Rightarrow>
     (upb_UnknownCompareResult, upb_UnknownCompareResult) cres" where
  "upb_UnknownField_DoCompare n mem ctx msg1 msg2 =
     cbind (upb_UnknownFields_Build n mem ctx msg1) (\<lambda>(ctx, uf1).
     cbind (upb_UnknownFields_Build n mem ctx msg2) (\<lambda>(ctx, uf2).
     cbind (upb_UnknownFields_IsEqual uf1 uf2) (\<lambda>eq.
       Ok (if eq then kUpb_UnknownCompareResult_Equal else kUpb_UnknownCompareResult_NotEqual))))"

text \<open>\<open>setjmp\<close>; the arena and \<open>tmp\<close> are then freed.\<close>

definition upb_UnknownField_Compare ::
    "nat \<Rightarrow> 'a uf_memory \<Rightarrow> 'a upb_UnknownField_Context \<Rightarrow> bytes list \<Rightarrow> bytes list \<Rightarrow>
     (unit, upb_UnknownCompareResult) cres" where
  "upb_UnknownField_Compare n mem ctx msg1 msg2 =
     (case upb_UnknownField_DoCompare n mem ctx msg1 msg2 of
        UB \<Rightarrow> UB
      | Fail status \<Rightarrow> cassert (status \<noteq> kUpb_UnknownCompareResult_Equal) (Ok status)
      | Ok ret \<Rightarrow> Ok ret)"

text \<open>\<open>arena\<close> is what \<open>upb_Arena_New\<close> returns, \<open>e\<close> the stream of the uninitialised context.\<close>

definition upb_Message_UnknownFieldsAreEqual ::
    "nat \<Rightarrow> 'a uf_memory \<Rightarrow> 'a option \<Rightarrow> upb_EpsCopyInputStream \<Rightarrow> bytes list \<Rightarrow> bytes list \<Rightarrow> int \<Rightarrow>
     (unit, upb_UnknownCompareResult) cres" where
  "upb_Message_UnknownFieldsAreEqual n mem arena e msg1 msg2 max_depth =
     (let msg1_empty = (msg1 = []); msg2_empty = (msg2 = []) in
      if msg1_empty \<and> msg2_empty then Ok kUpb_UnknownCompareResult_Equal
      else if msg1_empty \<or> msg2_empty then Ok kUpb_UnknownCompareResult_NotEqual
      else
        (case arena of
           None \<Rightarrow> Ok kUpb_UnknownCompareResult_OutOfMemory
         | Some a \<Rightarrow>
             upb_UnknownField_Compare n mem
               \<lparr>uc_stream = e, uc_arena = a, uc_tmp_size = 0, uc_depth = max_depth\<rparr> msg1 msg2))"

end
