(* ===== verification/CompareUnknownProps.thy ===== *)
theory CompareUnknownProps
  imports CompareUnknown Memory
begin

text \<open>
  The comparison of unknown fields is exact for messages whose fields are in the order of their tags, at
  every level. For others it is not: the merge of the sort loses fields.
\<close>

section \<open>The encoding of a tree\<close>

fun field_bytes :: "upb_UnknownField \<Rightarrow> bytes" and data_bytes :: "u32 \<Rightarrow> upb_UnknownField_data \<Rightarrow> bytes" where
  "field_bytes (UnknownField tag d) = encode_varint64 (ucast tag) @ data_bytes tag d"
| "data_bytes tag (U_Varint v) = encode_varint64 v"
| "data_bytes tag (U_64Bit v) = le_bytes 8 v"
| "data_bytes tag (U_32Bit v) = le_bytes 4 (ucast v)"
| "data_bytes tag (U_Delimited s) = encode_varint64 (of_nat (length s)) @ s"
| "data_bytes tag (U_Group uf) =
     concat (map field_bytes uf) @ encode_varint64 (ucast ((tag AND NOT 7) OR 4))"

abbreviation fields_bytes :: "upb_UnknownField list \<Rightarrow> bytes" where
  "fields_bytes uf \<equiv> concat (map field_bytes uf)"

text \<open>The wire types fit the values, groups are nested less than \<open>k\<close> deep, and the fields of every
  group are in order.\<close>

fun field_ok :: "nat \<Rightarrow> upb_UnknownField \<Rightarrow> bool" and data_ok :: "nat \<Rightarrow> u32 \<Rightarrow> upb_UnknownField_data \<Rightarrow> bool" where
  "field_ok k (UnknownField tag d) \<longleftrightarrow> data_ok k (tag AND 7) d"
| "data_ok k wt (U_Varint v) \<longleftrightarrow> wt = 0"
| "data_ok k wt (U_64Bit v) \<longleftrightarrow> wt = 1"
| "data_ok k wt (U_32Bit v) \<longleftrightarrow> wt = 5"
| "data_ok k wt (U_Delimited s) \<longleftrightarrow> wt = 2"
| "data_ok k wt (U_Group uf) \<longleftrightarrow> wt = 3 \<and> 1 < k \<and> list_all (field_ok (k - 1)) uf \<and> sorted (map uf_tag uf)"

definition message_ok :: "nat \<Rightarrow> upb_UnknownField list \<Rightarrow> bool" where
  "message_ok k uf \<longleftrightarrow> list_all (field_ok k) uf \<and> sorted (map uf_tag uf)"

section \<open>Equality of trees\<close>

lemma field_ok_iff: "field_ok k f \<longleftrightarrow> data_ok k (uf_tag f AND 7) (uf_data f)"
  by (cases f) simp

lemma field_eq_iff: "f = g \<longleftrightarrow> uf_tag f = uf_tag g \<and> uf_data f = uf_data g"
  by (cases f; cases g) simp

lemma fields_equal_lists:
  assumes "\<And>f g. f \<in> set uf1 \<Longrightarrow> field_ok k g \<Longrightarrow> uf_tag f = uf_tag g \<Longrightarrow>
      data_equal (uf_tag f AND 7) (uf_data f) (uf_data g) = (Ok (uf_data f = uf_data g) :: ('e, bool) cres)"
    and "list_all (field_ok k) uf2" "length uf1 = length uf2"
  shows "fields_equal uf1 uf2 = (Ok (uf1 = uf2) :: ('e, bool) cres)"
  using assms(3,1,2)
  by (induction uf1 uf2 rule: list_induct2) (auto simp: field_eq_iff fields_equal.simps)

lemma data_equal_iff:
  "\<forall>k g. field_ok k f \<longrightarrow> field_ok k g \<longrightarrow> uf_tag f = uf_tag g \<longrightarrow>
     data_equal (uf_tag f AND 7) (uf_data f) (uf_data g) = (Ok (uf_data f = uf_data g) :: ('e, bool) cres)"
  "\<forall>k wt d'. data_ok k wt d \<longrightarrow> data_ok k wt d' \<longrightarrow> data_equal wt d d' = (Ok (d = d') :: ('e, bool) cres)"
proof (induction f and d)
  case (UnknownField tag d)
  then show ?case by (auto simp: field_ok_iff)
next
  case (U_Group uf)
  have "fields_equal uf uf' = (Ok (uf = uf') :: ('e, bool) cres)"
    if "length uf = length uf'" "list_all (field_ok k) uf" "list_all (field_ok k) uf'" for uf' k
    using that U_Group by (intro fields_equal_lists [where k = k]) (auto simp: list_all_iff)
  then show ?case by (intro allI, case_tac d') (auto simp: cassert_def data_equal.simps upb_UnknownFields_IsEqual.simps)
qed (auto simp: cassert_def data_equal.simps elim: data_ok.elims split: upb_UnknownField_data.split)

lemma IsEqual_iff:
  assumes "list_all (field_ok k) uf1" "list_all (field_ok k) uf2"
  shows "upb_UnknownFields_IsEqual uf1 uf2 = (Ok (uf1 = uf2) :: ('e, bool) cres)"
proof (cases "length uf1 = length uf2")
  case True
  then have "fields_equal uf1 uf2 = (Ok (uf1 = uf2) :: ('e, bool) cres)"
    using assms by (intro fields_equal_lists [where k = k] data_equal_iff(1) [rule_format, of k])
      (auto simp: list_all_iff)
  then show ?thesis using True by (simp add: upb_UnknownFields_IsEqual.simps)
qed (auto simp: upb_UnknownFields_IsEqual.simps)

section \<open>Reading the encoding\<close>

text \<open>The stream is at the bytes \<open>bs\<close>, and nothing comes after them.\<close>

definition at_bytes :: "upb_EpsCopyInputStream \<Rightarrow> eps_ptr \<Rightarrow> bytes \<Rightarrow> bool" where
  "at_bytes e ptr bs \<longleftrightarrow> stream_ok e \<and> ptr_ok e ptr \<and> e_aliasing e \<and> \<not> e_error e \<and>
     limit_pos e = int (length (e_input e)) \<and> pos e ptr \<le> limit_pos e \<and> drop (nat (pos e ptr)) (e_input e) = bs"

definition sees_bytes :: "upb_EpsCopyInputStream \<Rightarrow> eps_ptr \<Rightarrow> bytes \<Rightarrow> bool" where
  "sees_bytes e ptr bs \<longleftrightarrow> at_bytes e ptr bs \<and> (\<exists>pad. bytes_at e ptr = bs @ replicate pad 0)"

lemma sees_at: "sees_bytes e ptr bs \<Longrightarrow> at_bytes e ptr bs"
  by (simp add: sees_bytes_def)

lemma at_bytes_pos: "at_bytes e ptr bs \<Longrightarrow> pos e ptr + int (length bs) = limit_pos e \<and> limit_pos e < 2147483648 \<and> 0 \<le> pos e ptr"
  using end_pos_bounds(6) [of e] by (auto simp: at_bytes_def ptr_ok_def)

lemma at_bytes_add: "at_bytes e ptr (xs @ ys) \<Longrightarrow> at_bytes e (ptr_add ptr (int (length xs))) ys"
proof -
  assume a: "at_bytes e ptr (xs @ ys)"
  note p = at_bytes_pos [OF a]
  have "ptr_ok e (ptr_add ptr (int (length xs)))"
    using a p end_pos_bounds(1) [of e] by (intro ptr_ok_add) (auto simp: at_bytes_def)
  moreover have "drop (nat (pos e ptr + int (length xs))) (e_input e) = drop (length xs) (xs @ ys)"
    using a p by (simp add: at_bytes_def nat_add_distrib add.commute flip: drop_drop)
  ultimately show ?thesis using a p by (simp add: at_bytes_def)
qed

lemma sees_bytes_add: "sees_bytes e ptr (xs @ ys) \<Longrightarrow> sees_bytes e (ptr_add ptr (int (length xs))) ys"
  using at_bytes_add [of e ptr xs ys] bytes_at_add [of e ptr "length xs"]
  by (auto simp: sees_bytes_def at_bytes_def)

lemma is_done_at_end:
  "at_bytes e ptr [] \<Longrightarrow> upb_EpsCopyInputStream_IsDone e ptr = Ok (True, e, Some ptr)"
proof -
  assume a: "at_bytes e ptr []"
  note p = at_bytes_pos [OF a]
  have ok: "stream_ok e" "ptr_ok e ptr" using a by (simp_all add: at_bytes_def)
  show ?thesis
    unfolding upb_EpsCopyInputStream_IsDone_def upb_EpsCopyInputStream_IsDoneFallbackNoCallback_def
    by (rule is_done_cases [OF ok, of upb_EpsCopyInputStream_NoOpCallback])
      (use p in \<open>simp_all add: upb_EpsCopyInputStream_NoOpCallback_def\<close>)
qed

lemma is_done_before:
  assumes "at_bytes e ptr bs" "bs \<noteq> []"
  obtains e' p' where "upb_EpsCopyInputStream_IsDone e ptr = (Ok (False, e', Some p') :: ('e, _) cres)" "sees_bytes e' p' bs"
proof -
  note p = at_bytes_pos [OF assms(1)]
  have "0 < length bs" using assms(2) by simp
  then have lt: "pos e ptr < limit_pos e" using p by linarith
  have ok: "stream_ok e" "ptr_ok e ptr" using assms(1) by (simp_all add: at_bytes_def)
  show thesis
  proof (rule is_done_cases [OF ok, of "upb_EpsCopyInputStream_NoOpCallback :: 'e flip_callback"])
    fix e' p'
    assume r: "upb_EpsCopyInputStream_IsDoneWithCallback (upb_EpsCopyInputStream_IsDoneFallbackInline
          upb_EpsCopyInputStream_NoOpCallback) e ptr = (Ok (False, e', Some p') :: ('e, _) cres)"
      and s: "stream_ok e'" "ptr_ok e' p'" "pos e' p' = pos e ptr" "limit_pos e' = limit_pos e"
        "e_input e' = e_input e" "e_aliasing e' = e_aliasing e" "e_error e' = e_error e" "readable e' p'"
    have "at_bytes e' p' bs" using s assms(1) by (simp add: at_bytes_def)
    then have "sees_bytes e' p' bs" using s(8) by (auto simp: sees_bytes_def readable_def at_bytes_def)
    then show thesis
      using r that by (simp add: upb_EpsCopyInputStream_IsDone_def upb_EpsCopyInputStream_IsDoneFallbackNoCallback_def)
  qed (use lt in \<open>simp_all add: upb_EpsCopyInputStream_NoOpCallback_def\<close>)
qed

lemma wire_type: "tag AND 7 = (of_nat w :: u32) \<Longrightarrow> w < 8 \<Longrightarrow> upb_WireReader_GetWireType tag = of_nat w"
proof -
  assume "tag AND 7 = (of_nat w :: u32)" and w: "w < 8"
  then have "upb_WireReader_GetWireType tag = ucast (of_nat w :: u32)" by (simp add: upb_WireReader_GetWireType_def)
  moreover have "w \<in> {0, 1, 2, 3, 4, 5, 6, 7}" using w by auto
  ultimately show ?thesis by auto
qed

lemma end_tag_type: "upb_WireReader_GetWireType (((tag :: u32) AND NOT 7) OR 4) = 4"
proof -
  have "((tag AND NOT 7) OR 4) AND 7 = (of_nat 4 :: u32)"
    by (simp add: bit.conj_disj_distrib2 and.assoc)
  from wire_type [OF this] show ?thesis by simp
qed

lemma read_value_bytes:
  assumes s: "sees_bytes e ptr (data_bytes tag d @ rest)" and ok: "data_ok k (tag AND 7) d" and w: "tag AND 7 \<noteq> 3"
  obtains ptr' where "read_value e (upb_WireReader_GetWireType tag) ptr = (Ok (d, ptr') :: ('e, _) cres)" "at_bytes e ptr' rest"
proof -
  obtain pad where b: "bytes_at e ptr = data_bytes tag d @ rest @ replicate pad 0"
    using s by (auto simp: sees_bytes_def)
  note adv = at_bytes_add [OF sees_at [OF s]]
  show thesis
  proof (cases d)
    case (U_Varint v)
    have "upb_WireReader_GetWireType tag = 0" using ok U_Varint wire_type [of tag 0] by simp
    then show thesis using that adv
      by (simp add: read_value_def b U_Varint ReadVarint_encode_varint64 no_null_def)
  next
    case (U_64Bit v)
    have "upb_WireReader_GetWireType tag = 1" using ok U_64Bit wire_type [of tag 1] by simp
    then show thesis using that adv
      by (simp add: read_value_def b U_64Bit upb_WireReader_ReadFixed64_def no_null_def le_word_8 cassert_def)
  next
    case (U_32Bit v)
    have "upb_WireReader_GetWireType tag = 5" using ok U_32Bit wire_type [of tag 5] by simp
    then show thesis using that adv
      by (simp add: read_value_def b U_32Bit upb_WireReader_ReadFixed32_def no_null_def le_word_4 cassert_def)
  next
    case (U_Delimited str)
    have t: "upb_WireReader_GetWireType tag = 2" using ok U_Delimited wire_type [of tag 2] by simp
    let ?len = "encode_varint64 (of_nat (length str))"
    have s1: "sees_bytes e (ptr_add ptr (int (length ?len))) (str @ rest)"
      using s U_Delimited by (intro sees_bytes_add) simp
    note p = at_bytes_pos [OF sees_at [OF s1]]
    note p0 = at_bytes_pos [OF sees_at [OF s]]
    have "0 < length ?len" using length_encode_varint64 by simp
    then have l: "length str < 2147483647"
      using p0 unfolding U_Delimited data_bytes.simps length_append of_nat_add by linarith
    have "uint (of_nat (length str) :: u64) = int (length str)" using l by (simp add: uint_nat unat_of_nat64)
    moreover have "\<not> (0x7FFFFFFF :: u64) \<le> of_nat (length str)" using l by (simp add: word_le_nat_alt unat_of_nat64)
    ultimately have size: "upb_WireReader_ReadSize (bytes_at e ptr) = Ok (int (length str), length ?len)"
      unfolding upb_WireReader_ReadSize_def b U_Delimited by (simp add: ReadVarint_encode_varint64)
    let ?p = "ptr_add ptr (int (length ?len))"
    have ok1: "stream_ok e" "ptr_ok e ?p" "e_aliasing e" using s1 by (simp_all add: sees_bytes_def at_bytes_def)
    have "pos e ?p + int (length str) \<le> limit_pos e" "pos e ?p + 0 \<le> limit_pos e" using p by simp_all
    then have d: "upb_EpsCopyInputStream_CheckDataSizeAvailable e ?p (int (length str)) = (Ok True :: ('e, bool) cres)"
      "upb_EpsCopyInputStream_CheckDataSizeAvailable e ?p 0 = (Ok True :: ('e, bool) cres)"
      by (intro data_available(1) [OF ok1(1,2)]; simp)+
    have g: "upb_EpsCopyInputStream_GetInputPtr e ?p = (Ok (Input (pos e ?p)) :: ('e, _) cres)"
      by (rule get_input_ptr [OF ok1(1,2)])
    have al: "upb_EpsCopyInputStream_ReadStringAliased e ?p (int (length str)) =
        (Ok (ptr_add ?p (int (length str)), Input (pos e ?p)) :: ('e, _) cres)"
      using d ok1(3) g
      by (simp add: upb_EpsCopyInputStream_ReadStringAliased_def upb_EpsCopyInputStream_AliasingAvailable_def
          upb_EpsCopyInputStream_GetAliasedPtr_def cassert_def)
    have at: "bytes_at e (Input (pos e ?p)) = str @ rest" using p s1 by (simp add: sees_bytes_def at_bytes_def del: pos_add)
    have "read_value e (upb_WireReader_GetWireType tag) ptr = (Ok (U_Delimited str, ptr_add ?p (int (length str))) :: ('e, _) cres)"
      unfolding t read_value_def Let_def by (simp add: size no_null_def al at cassert_def del: pos_add bytes_at.simps)
    then show thesis using that at_bytes_add [OF sees_at [OF s1]] U_Delimited by blast
  next
    case (U_Group uf)
    then show thesis using ok w by simp
  qed
qed

section \<open>Parsing gives the tree back\<close>

text \<open>Either an allocation fails, or the result is \<open>x\<close> with \<open>P x\<close>.\<close>

definition never_fails :: "'a uf_memory \<Rightarrow> bool" where
  "never_fails mem \<longleftrightarrow> (\<forall>n a. fst (uf_malloc mem n a)) \<and> (\<forall>m n a. fst (uf_realloc mem m n a))"

definition no_memory :: "'a uf_memory \<Rightarrow> (upb_UnknownCompareResult, 'b) cres \<Rightarrow> bool" where
  "no_memory mem r \<longleftrightarrow> r = Fail kUpb_UnknownCompareResult_OutOfMemory \<and> \<not> never_fails mem"

lemma no_memory_bind: "no_memory mem r \<Longrightarrow> no_memory mem (cbind r g)"
  by (auto simp: no_memory_def)

lemma Grow_cases:
  "no_memory mem (upb_UnknownFields_Grow mem ctx b) \<or>
   (\<exists>a c. upb_UnknownFields_Grow mem ctx b = Ok (ctx\<lparr>uc_arena := a\<rparr>, b\<lparr>b_capacity := c\<rparr>))"
proof -
  let ?old = "length (b_fields b)"
  let ?r = "uf_realloc mem (?old * sizeof_upb_UnknownField) (max 4 (?old * 2) * sizeof_upb_UnknownField) (uc_arena ctx)"
  have "never_fails mem \<Longrightarrow> fst ?r" by (simp add: never_fails_def)
  then show ?thesis
    unfolding upb_UnknownFields_Grow_def Let_def no_memory_def by (cases "fst ?r") (auto simp: case_prod_beta)
qed

lemma DoBuild_cases:
  assumes "b_sorted b"
  shows "no_memory mem (upb_UnknownFields_DoBuild mem ctx b) \<or>
    (\<exists>a. upb_UnknownFields_DoBuild mem ctx b = Ok (ctx\<lparr>uc_arena := a\<rparr>, b_fields b))"
proof -
  let ?r = "uf_malloc mem 24 (uc_arena ctx)"
  have "never_fails mem \<Longrightarrow> fst ?r" by (simp add: never_fails_def)
  then show ?thesis
    unfolding upb_UnknownFields_DoBuild_def Let_def no_memory_def using assms
    by (cases "fst ?r") (auto simp: case_prod_beta)
qed

text \<open>What the loop has after the fields \<open>uf\<close>.\<close>

definition parsed_to ::
    "'a upb_UnknownField_Context \<Rightarrow> upb_UnknownFields_Builder \<Rightarrow> upb_UnknownField list \<Rightarrow> bytes \<Rightarrow>
     'a upb_UnknownField_Context \<Rightarrow> upb_UnknownFields_Builder \<Rightarrow> eps_ptr \<Rightarrow> bool" where
  "parsed_to ctx b uf rest ctx' b' ptr' \<longleftrightarrow>
     at_bytes (uc_stream ctx') ptr' rest \<and> uc_depth ctx' = uc_depth ctx \<and>
     b_fields b' = b_fields b @ uf \<and> b_sorted b' \<and> b_last_tag b' = last (b_last_tag b # map uf_tag uf)"

lemma Combine_step:
  assumes at: "at_bytes (uc_stream ctx) ptr (encode_varint64 (ucast tag) @ bs)"
  obtains e p where
    "upb_EpsCopyInputStream_IsDone (uc_stream ctx) ptr = (Ok (False, e, Some p) :: (upb_UnknownCompareResult, _) cres)"
    "no_null (upb_WireReader_ReadTag (bytes_at e p)) =
      (Ok (tag, length (encode_varint64 (ucast tag))) :: (upb_UnknownCompareResult, _) cres)"
    "sees_bytes e (ptr_add p (int (length (encode_varint64 (ucast tag))))) bs"
proof -
  have "encode_varint64 (ucast tag) @ bs \<noteq> []" using length_encode_varint64 by simp
  from is_done_before [OF at this, where 'e = upb_UnknownCompareResult] obtain e p where
    e: "upb_EpsCopyInputStream_IsDone (uc_stream ctx) ptr = (Ok (False, e, Some p) :: (upb_UnknownCompareResult, _) cres)"
      "sees_bytes e p (encode_varint64 (ucast tag) @ bs)" by blast
  moreover obtain pad where "bytes_at e p = encode_varint64 (ucast tag) @ bs @ replicate pad 0"
    using e(2) by (auto simp: sees_bytes_def)
  then have "no_null (upb_WireReader_ReadTag (bytes_at e p)) =
      (Ok (tag, length (encode_varint64 (ucast tag))) :: (upb_UnknownCompareResult, _) cres)"
    by (simp add: ReadTag_encode_varint64 no_null_def)
  ultimately show thesis using that sees_bytes_add by blast
qed

lemma BuildFromBuffer_group:
  assumes "no_memory mem (upb_CombineUnknownFields n mem ctx empty_builder ptr) \<or>
      (\<exists>n' ctx' b' ptr'. upb_CombineUnknownFields n mem ctx empty_builder ptr =
         upb_CombineUnknownFields n' mem ctx' b' ptr' \<and>
         0 \<le> n' \<and> parsed_to ctx empty_builder g (encode_varint64 (ucast ((tag AND NOT 7) OR 4 :: u32)) @ rest) ctx' b' ptr')"
  shows "no_memory mem (upb_UnknownFields_BuildFromBuffer (Suc n) mem ctx ptr) \<or>
    (\<exists>ctx' ptr'. upb_UnknownFields_BuildFromBuffer (Suc n) mem ctx ptr = Ok (ctx', g, ptr') \<and>
       at_bytes (uc_stream ctx') ptr' rest \<and> uc_depth ctx' = uc_depth ctx)"
  using assms
proof (elim disjE exE conjE)
  fix n' ctx' b' ptr'
  let ?et = "(tag AND NOT 7) OR 4"
  assume eq: "upb_CombineUnknownFields n mem ctx empty_builder ptr = upb_CombineUnknownFields n' mem ctx' b' ptr'"
    and p: "parsed_to ctx empty_builder g (encode_varint64 (ucast ?et) @ rest) ctx' b' ptr'"
  have at: "at_bytes (uc_stream ctx') ptr' (encode_varint64 (ucast ?et) @ rest)" using p by (simp add: parsed_to_def)
  obtain e p1 where e: "upb_EpsCopyInputStream_IsDone (uc_stream ctx') ptr' =
      (Ok (False, e, Some p1) :: (upb_UnknownCompareResult, _) cres)"
    "no_null (upb_WireReader_ReadTag (bytes_at e p1)) =
      (Ok (?et, length (encode_varint64 (ucast ?et))) :: (upb_UnknownCompareResult, _) cres)"
    "sees_bytes e (ptr_add p1 (int (length (encode_varint64 (ucast ?et))))) rest"
    by (rule Combine_step [OF at])
  let ?p = "ptr_add p1 (int (length (encode_varint64 (ucast ?et))))"
  have "upb_CombineUnknownFields n' mem ctx' b' ptr' = Ok (ctx'\<lparr>uc_stream := e\<rparr>, b', ?p)"
    using end_tag_type [of tag]
    by (subst upb_CombineUnknownFields.simps) (simp add: e Let_def)
  then have "upb_UnknownFields_BuildFromBuffer (Suc n) mem ctx ptr =
      cbind (upb_UnknownFields_DoBuild mem (ctx'\<lparr>uc_stream := e\<rparr>) b') (\<lambda>(ctx, uf). Ok (ctx, uf, ?p))"
    by (simp add: upb_UnknownFields_BuildFromBuffer.simps eq)
  moreover have "b_sorted b'" "b_fields b' = g" "uc_depth ctx' = uc_depth ctx"
    using p by (simp_all add: parsed_to_def empty_builder_def)
  ultimately show ?thesis
    using DoBuild_cases [of b' mem "ctx'\<lparr>uc_stream := e\<rparr>"] sees_at [OF e(3)] by (auto intro: no_memory_bind)
qed (simp add: upb_UnknownFields_BuildFromBuffer.simps no_memory_bind)

lemma Combine_fields:
  "at_bytes (uc_stream ctx) ptr (fields_bytes uf @ rest) \<Longrightarrow> list_all (field_ok k) uf \<Longrightarrow> uc_depth ctx = int k \<Longrightarrow>
   length (fields_bytes uf) + j \<le> n \<Longrightarrow> b_sorted b \<Longrightarrow> sorted (b_last_tag b # map uf_tag uf) \<Longrightarrow>
   no_memory mem (upb_CombineUnknownFields n mem ctx b ptr) \<or>
   (\<exists>n' ctx' b' ptr'. upb_CombineUnknownFields n mem ctx b ptr = upb_CombineUnknownFields n' mem ctx' b' ptr' \<and>
      j \<le> n' \<and> parsed_to ctx b uf rest ctx' b' ptr')"
proof (induction n arbitrary: uf k ctx b ptr rest j rule: less_induct)
  case (less n)
  show ?case
  proof (cases uf)
    case Nil
    then show ?thesis using less.prems
      by (intro disjI2 exI [of _ n] exI [of _ ctx] exI [of _ b] exI [of _ ptr]) (simp add: parsed_to_def)
  next
    case (Cons f fs)
    obtain tag d where f: "f = UnknownField tag d" by (cases f)
    let ?tag = "encode_varint64 (ucast tag)"
    have at: "at_bytes (uc_stream ctx) ptr (?tag @ data_bytes tag d @ fields_bytes fs @ rest)"
      using less.prems(1) by (simp add: Cons f)
    obtain e p where e: "upb_EpsCopyInputStream_IsDone (uc_stream ctx) ptr =
        (Ok (False, e, Some p) :: (upb_UnknownCompareResult, _) cres)"
      "no_null (upb_WireReader_ReadTag (bytes_at e p)) = (Ok (tag, length ?tag) :: (upb_UnknownCompareResult, _) cres)"
      "sees_bytes e (ptr_add p (int (length ?tag))) (data_bytes tag d @ fields_bytes fs @ rest)"
      by (rule Combine_step [OF at])
    let ?p = "ptr_add p (int (length ?tag))"
    have tl: "0 < length ?tag" using length_encode_varint64 by simp
    then obtain m where n: "n = Suc m" using less.prems(4) by (cases n) (auto simp: Cons f)
    have ok: "data_ok k (tag AND 7) d" "list_all (field_ok k) fs" using less.prems(2) by (simp_all add: Cons f)
    have srt: "\<not> tag < b_last_tag b" "sorted (tag # map uf_tag fs)" using less.prems(6) by (auto simp: Cons f)
    have len: "length (data_bytes tag d) + length (fields_bytes fs) + j \<le> m"
    proof -
      have "length (fields_bytes uf) = length ?tag + (length (data_bytes tag d) + length (fields_bytes fs))"
        by (simp add: Cons f)
      then show ?thesis using less.prems(4) tl n by linarith
    qed
    define b1 where "b1 = b\<lparr>b_sorted := (b_sorted b \<and> \<not> tag < b_last_tag b), b_last_tag := tag\<rparr>"
    define ctx1 where "ctx1 = ctx\<lparr>uc_stream := e\<rparr>"
    define grow where "grow = (if length (b_fields b1) = b_capacity b1
      then upb_UnknownFields_Grow mem ctx1 b1 else Ok (ctx1, b1))"
    define val :: "'a upb_UnknownField_Context \<Rightarrow>
        (upb_UnknownCompareResult, 'a upb_UnknownField_Context \<times> upb_UnknownField_data \<times> eps_ptr) cres" where
      "val ctx = (if upb_WireReader_GetWireType tag = 3 then
         (let depth = uc_depth ctx - 1 in
          if depth = 0 then Fail kUpb_UnknownCompareResult_MaxDepthExceeded
          else cbind (upb_UnknownFields_BuildFromBuffer m mem (ctx\<lparr>uc_depth := depth\<rparr>) ?p)
            (\<lambda>(ctx, fields, ptr). Ok (ctx\<lparr>uc_depth := uc_depth ctx + 1\<rparr>, U_Group fields, ptr)))
       else cbind (read_value e (upb_WireReader_GetWireType tag) ?p) (\<lambda>(d, ptr). Ok (ctx, d, ptr)))" for ctx
    have wt: "upb_WireReader_GetWireType tag \<noteq> 4" using ok(1) wire_type [of tag]
      by (cases d) (auto dest: wire_type [of tag 0, simplified] wire_type [of tag 1, simplified]
        wire_type [of tag 2, simplified] wire_type [of tag 3, simplified] wire_type [of tag 5, simplified])
    have run: "upb_CombineUnknownFields n mem ctx b ptr =
        cbind grow (\<lambda>(ctx, b). cbind (val ctx) (\<lambda>(ctx, d, ptr).
          upb_CombineUnknownFields m mem ctx (b\<lparr>b_fields := b_fields b @ [UnknownField tag d]\<rparr>) ptr))"
      unfolding n by (subst upb_CombineUnknownFields.simps)
        (simp add: e(1,2) wt Let_def b1_def ctx1_def grow_def val_def)
    have g: "no_memory mem grow \<or> (\<exists>ctx2 b2. grow = Ok (ctx2, b2) \<and> uc_stream ctx2 = e \<and> uc_depth ctx2 = int k \<and>
        b_fields b2 = b_fields b \<and> b_sorted b2 \<and> b_last_tag b2 = tag)"
      using Grow_cases [of mem ctx1 b1] srt(1) less.prems(3,5) by (auto simp: grow_def ctx1_def b1_def)
    have v: "no_memory mem (val ctx2) \<or> (\<exists>ctx3 p3. val ctx2 = Ok (ctx3, d, p3) \<and>
        at_bytes (uc_stream ctx3) p3 (fields_bytes fs @ rest) \<and> uc_depth ctx3 = int k)"
      if c: "uc_stream ctx2 = e" "uc_depth ctx2 = int k" for ctx2
    proof (cases "tag AND 7 = 3")
      case False
      have "upb_WireReader_GetWireType tag \<noteq> 3" using ok(1) False
        by (cases d) (auto dest: wire_type [of tag 0, simplified] wire_type [of tag 1, simplified]
          wire_type [of tag 2, simplified] wire_type [of tag 5, simplified])
      moreover obtain p3 where "read_value e (upb_WireReader_GetWireType tag) ?p =
          (Ok (d, p3) :: (upb_UnknownCompareResult, _) cres)" "at_bytes e p3 (fields_bytes fs @ rest)"
        by (rule read_value_bytes [OF e(3) ok(1) False])
      ultimately show ?thesis using c by (simp add: val_def)
    next
      case True
      then obtain gs where d: "d = U_Group gs" using ok(1) by (cases d) auto
      have k: "1 < k" "list_all (field_ok (k - 1)) gs" "sorted (map uf_tag gs)" using ok(1) by (simp_all add: d)
      let ?et = "encode_varint64 (ucast ((tag AND NOT 7) OR 4))"
      have et: "0 < length ?et" using length_encode_varint64 by blast
      have le: "length (fields_bytes gs) + length ?et \<le> m"
        using len unfolding d data_bytes.simps length_append by linarith
      then obtain m' where m: "m = Suc m'" using et by (cases m) auto
      then have m2: "length (fields_bytes gs) + 0 \<le> m'" using le et by linarith
      let ?ctx = "ctx2\<lparr>uc_depth := uc_depth ctx2 - 1\<rparr>"
      have "m' < n" using m n by simp
      from less.IH [OF this, of ?ctx ?p gs "?et @ fields_bytes fs @ rest" "k - 1" 0 empty_builder]
      have "no_memory mem (upb_CombineUnknownFields m' mem ?ctx empty_builder ?p) \<or>
        (\<exists>n' ctx' b' ptr'. upb_CombineUnknownFields m' mem ?ctx empty_builder ?p =
           upb_CombineUnknownFields n' mem ctx' b' ptr' \<and> 0 \<le> n' \<and>
           parsed_to ?ctx empty_builder gs (?et @ fields_bytes fs @ rest) ctx' b' ptr')"
        using e(3) c k m2 by (simp add: d sees_at empty_builder_def of_nat_diff)
      from BuildFromBuffer_group [OF this] show ?thesis
        using c k(1) m wire_type [of tag 3] True
        by (auto simp: val_def d Let_def dest: no_memory_bind)
    qed
    from g show ?thesis
    proof (elim disjE exE conjE)
      fix ctx2 b2
      assume g2: "grow = Ok (ctx2, b2)" "uc_stream ctx2 = e" "uc_depth ctx2 = int k"
        "b_fields b2 = b_fields b" "b_sorted b2" "b_last_tag b2 = tag"
      from v [OF g2(2,3)] show ?thesis
      proof (elim disjE exE conjE)
        fix ctx3 p3
        assume v3: "val ctx2 = Ok (ctx3, d, p3)" "at_bytes (uc_stream ctx3) p3 (fields_bytes fs @ rest)"
          "uc_depth ctx3 = int k"
        let ?b = "b2\<lparr>b_fields := b_fields b2 @ [UnknownField tag d]\<rparr>"
        have r: "upb_CombineUnknownFields n mem ctx b ptr = upb_CombineUnknownFields m mem ctx3 ?b p3"
          by (simp add: run g2(1) v3(1))
        have "m < n" by (simp add: n)
        from less.IH [OF this v3(2) ok(2) v3(3), of j ?b] show ?thesis
          using len srt(2) g2(4-6) v3(3) less.prems(3) unfolding r by (auto simp: parsed_to_def Cons f)
      qed (simp add: run g2(1) no_memory_bind)
    qed (simp add: run no_memory_bind)
  qed
qed

lemma build_views_spec:
  "\<forall>uf \<in> set ufs. length (fields_bytes uf) < 2147483648 \<and> length (fields_bytes uf) \<le> n \<Longrightarrow>
   list_all (field_ok k) (concat ufs) \<Longrightarrow> sorted (b_last_tag b # map uf_tag (concat ufs)) \<Longrightarrow> b_sorted b \<Longrightarrow>
   uc_depth ctx = int k \<Longrightarrow> length (e_patch (uc_stream ctx)) = 32 \<Longrightarrow>
   no_memory mem (build_views n mem ctx b (map fields_bytes ufs)) \<or>
   (\<exists>ctx' b'. build_views n mem ctx b (map fields_bytes ufs) = Ok (ctx', b') \<and> uc_depth ctx' = int k \<and>
      b_sorted b' \<and> b_fields b' = b_fields b @ concat ufs \<and> length (e_patch (uc_stream ctx')) = 32)"
proof (induction ufs arbitrary: ctx b)
  case Nil
  then show ?case by simp
next
  case (Cons uf ufs)
  obtain e ptr where i: "upb_EpsCopyInputStream_Init (uc_stream ctx) (fields_bytes uf) True = (e, ptr)" by fastforce
  have len: "length (fields_bytes uf) < 2147483648" "length (fields_bytes uf) + 0 \<le> n" using Cons.prems(1) by simp_all
  note ok = stream_init_ok [OF len(1) Cons.prems(6) i]
  have at: "at_bytes e ptr (fields_bytes uf @ [])" using ok by (simp add: at_bytes_def)
  let ?ctx = "ctx\<lparr>uc_stream := e\<rparr>"
  have srt: "sorted (b_last_tag b # map uf_tag uf)" "sorted (last (b_last_tag b # map uf_tag uf) # map uf_tag (concat ufs))"
    using Cons.prems(3) by (auto simp: sorted_append last_map)
  have fo: "list_all (field_ok k) uf" "list_all (field_ok k) (concat ufs)" using Cons.prems(2) by simp_all
  have "no_memory mem (upb_CombineUnknownFields n mem ?ctx b ptr) \<or>
      (\<exists>n' ctx' b' ptr'. upb_CombineUnknownFields n mem ?ctx b ptr = upb_CombineUnknownFields n' mem ctx' b' ptr' \<and>
         0 \<le> n' \<and> parsed_to ?ctx b uf [] ctx' b' ptr')"
    using at fo(1) Cons.prems(4,5) len(2) srt(1) by (intro Combine_fields [where k = k]) simp_all
  then show ?case
  proof (elim disjE exE conjE)
    fix n' ctx' b' ptr'
    assume eq: "upb_CombineUnknownFields n mem ?ctx b ptr = upb_CombineUnknownFields n' mem ctx' b' ptr'"
      and p: "parsed_to ?ctx b uf [] ctx' b' ptr'"
    have at': "at_bytes (uc_stream ctx') ptr' []" using p by (simp add: parsed_to_def)
    have c: "upb_CombineUnknownFields n' mem ctx' b' ptr' = Ok (ctx', b', ptr')"
      by (subst upb_CombineUnknownFields.simps) (simp add: is_done_at_end [OF at'] Let_def)
    have err: "\<not> upb_EpsCopyInputStream_IsError (uc_stream ctx')" "length (e_patch (uc_stream ctx')) = 32"
      using at' by (simp_all add: at_bytes_def upb_EpsCopyInputStream_IsError_def stream_ok_def Let_def)
    have run: "build_views n mem ctx b (map fields_bytes (uf # ufs)) = build_views n mem ctx' b' (map fields_bytes ufs)"
      by (simp add: i eq c is_done_at_end [OF at'] err cassert_def)
    show ?thesis unfolding run
      using Cons.IH [of b' ctx'] Cons.prems(1,5) fo(2) srt(2) p err(2) by (auto simp: parsed_to_def)
  qed (simp add: i no_memory_bind)
qed

lemma Build_spec:
  assumes "\<forall>uf \<in> set ufs. length (fields_bytes uf) < 2147483648 \<and> length (fields_bytes uf) \<le> n"
    and "message_ok k (concat ufs)" "uc_depth ctx = int k" "length (e_patch (uc_stream ctx)) = 32"
  shows "no_memory mem (upb_UnknownFields_Build n mem ctx (map fields_bytes ufs)) \<or>
   (\<exists>ctx'. upb_UnknownFields_Build n mem ctx (map fields_bytes ufs) = Ok (ctx', concat ufs) \<and> uc_depth ctx' = int k \<and>
      length (e_patch (uc_stream ctx')) = 32)"
proof -
  have "no_memory mem (build_views n mem ctx empty_builder (map fields_bytes ufs)) \<or>
   (\<exists>ctx' b'. build_views n mem ctx empty_builder (map fields_bytes ufs) = Ok (ctx', b') \<and> uc_depth ctx' = int k \<and>
      b_sorted b' \<and> b_fields b' = b_fields empty_builder @ concat ufs \<and> length (e_patch (uc_stream ctx')) = 32)"
    using assms by (intro build_views_spec) (simp_all add: message_ok_def empty_builder_def)
  then show ?thesis
  proof (elim disjE exE conjE)
    fix ctx' b'
    assume b: "build_views n mem ctx empty_builder (map fields_bytes ufs) = Ok (ctx', b')" "uc_depth ctx' = int k"
      "b_sorted b'" "b_fields b' = b_fields empty_builder @ concat ufs" "length (e_patch (uc_stream ctx')) = 32"
    then show ?thesis using DoBuild_cases [OF b(3), of mem ctx']
      by (auto simp: upb_UnknownFields_Build_def empty_builder_def)
  qed (simp add: upb_UnknownFields_Build_def no_memory_bind)
qed

section \<open>Properties\<close>

text \<open>C30: The comparison of unknown fields is exact for messages whose fields are in the order of their
  tags, at the top and in every group, not nested too deep. However the fields are cut into chunks, the
  bytes are parsed back into the fields that were encoded, and the answer is \<open>Equal\<close> just when the fields
  of the two messages are the same; if memory runs out, the answer is \<open>OutOfMemory\<close>.\<close>

theorem unknown_compare_exact:
  assumes "message_ok k (concat ufs1)" "message_ok k (concat ufs2)" "[] \<notin> set ufs1" "[] \<notin> set ufs2"
    and "\<forall>uf \<in> set ufs1 \<union> set ufs2. length (fields_bytes uf) < 2147483648 \<and> length (fields_bytes uf) \<le> n"
    and "length (e_patch e) = 32"
    and "r = upb_Message_UnknownFieldsAreEqual n mem arena e (map fields_bytes ufs1) (map fields_bytes ufs2) (int k)"
  shows "r = Ok (if concat ufs1 = concat ufs2 then kUpb_UnknownCompareResult_Equal else kUpb_UnknownCompareResult_NotEqual) \<or>
    r = Ok kUpb_UnknownCompareResult_OutOfMemory \<and> (arena = None \<or> \<not> never_fails mem)"
proof (cases "ufs1 = [] \<or> ufs2 = []")
  case True
  then show ?thesis using assms(3,4) by (cases ufs1; cases ufs2) (auto simp: assms(7) upb_Message_UnknownFieldsAreEqual_def)
next
  case False
  show ?thesis
  proof (cases arena)
    case (Some a)
    let ?ctx = "\<lparr>uc_stream = e, uc_arena = a, uc_tmp_size = 0, uc_depth = int k\<rparr>"
    have r: "r = upb_UnknownField_Compare n mem ?ctx (map fields_bytes ufs1) (map fields_bytes ufs2)"
      using False Some by (simp add: assms(7) upb_Message_UnknownFieldsAreEqual_def)
    have nm: "upb_UnknownField_Compare n mem ?ctx m1 m2 = Ok kUpb_UnknownCompareResult_OutOfMemory \<and> \<not> never_fails mem"
      if "no_memory mem (upb_UnknownField_DoCompare n mem ?ctx m1 m2)" for m1 m2
      using that by (simp add: no_memory_def upb_UnknownField_Compare_def cassert_def)
    have "no_memory mem (upb_UnknownFields_Build n mem ?ctx (map fields_bytes ufs1)) \<or>
      (\<exists>ctx'. upb_UnknownFields_Build n mem ?ctx (map fields_bytes ufs1) = Ok (ctx', concat ufs1) \<and>
        uc_depth ctx' = int k \<and> length (e_patch (uc_stream ctx')) = 32)"
      using assms(1,5,6) by (intro Build_spec) simp_all
    then show ?thesis
    proof (elim disjE exE conjE)
      fix ctx1
      assume 1: "upb_UnknownFields_Build n mem ?ctx (map fields_bytes ufs1) = Ok (ctx1, concat ufs1)"
        "uc_depth ctx1 = int k" "length (e_patch (uc_stream ctx1)) = 32"
      have "no_memory mem (upb_UnknownFields_Build n mem ctx1 (map fields_bytes ufs2)) \<or>
        (\<exists>ctx'. upb_UnknownFields_Build n mem ctx1 (map fields_bytes ufs2) = Ok (ctx', concat ufs2) \<and>
          uc_depth ctx' = int k \<and> length (e_patch (uc_stream ctx')) = 32)"
        using assms(2,5) 1(2,3) by (intro Build_spec) simp_all
      then show ?thesis
      proof (elim disjE exE conjE)
        fix ctx2
        assume 2: "upb_UnknownFields_Build n mem ctx1 (map fields_bytes ufs2) = Ok (ctx2, concat ufs2)"
        have "list_all (field_ok k) (concat ufs1)" "list_all (field_ok k) (concat ufs2)"
          using assms(1,2) by (simp_all add: message_ok_def)
        then show ?thesis
          by (simp add: r upb_UnknownField_Compare_def upb_UnknownField_DoCompare_def 1(1) 2 IsEqual_iff)
      next
        assume "no_memory mem (upb_UnknownFields_Build n mem ctx1 (map fields_bytes ufs2))"
        then have "no_memory mem (upb_UnknownField_DoCompare n mem ?ctx (map fields_bytes ufs1) (map fields_bytes ufs2))"
          by (simp add: upb_UnknownField_DoCompare_def 1(1) no_memory_bind)
        then show ?thesis using nm by (simp add: r)
      qed
    next
      assume "no_memory mem (upb_UnknownFields_Build n mem ?ctx (map fields_bytes ufs1))"
      then have "no_memory mem (upb_UnknownField_DoCompare n mem ?ctx (map fields_bytes ufs1) (map fields_bytes ufs2))"
        unfolding upb_UnknownField_DoCompare_def by (rule no_memory_bind)
      then show ?thesis using nm by (simp add: r)
    qed
  qed (use False in \<open>simp add: assms(7) upb_Message_UnknownFieldsAreEqual_def\<close>)
qed

definition plenty_uf :: "unit uf_memory" where
  "plenty_uf = \<lparr>uf_malloc = (\<lambda>_ a. (True, a)), uf_realloc = (\<lambda>_ _ a. (True, a)), uf_grealloc = (\<lambda>_ _ a. (True, a))\<rparr>"

text \<open>A number and a group with a string in it, in one chunk and in two.\<close>

theorem unknown_compare_exact_witness:
  "upb_Message_UnknownFieldsAreEqual 100 plenty_uf (Some ()) fresh_stream
     [fields_bytes [UnknownField 8 (U_Varint 7), UnknownField 19 (U_Group [UnknownField 10 (U_Delimited [97])])]]
     [fields_bytes [UnknownField 8 (U_Varint 7)], fields_bytes [UnknownField 19 (U_Group [UnknownField 10 (U_Delimited [97])])]] 100 =
   Ok kUpb_UnknownCompareResult_Equal"
proof -
  let ?f = "UnknownField 8 (U_Varint 7)" and ?g = "UnknownField 19 (U_Group [UnknownField 10 (U_Delimited [97])])"
  have l: "length (encode_varint64 v) \<le> 10" for v by (rule length_encode_varint64)
  have "length (field_bytes ?f) \<le> 20" using l [of 8] l [of 7] by simp
  moreover have "length (field_bytes ?g) \<le> 60"
    using l [of 19] l [of 10] l [of 1] l [of "ucast ((19 AND NOT 7) OR 4 :: u32)"] by simp
  ultimately have "\<forall>uf \<in> set [[?f, ?g]] \<union> set [[?f], [?g]]. length (fields_bytes uf) < 2147483648 \<and> length (fields_bytes uf) \<le> 100"
    by simp
  moreover have "message_ok 100 (concat [[?f, ?g]])" "message_ok 100 (concat [[?f], [?g]])"
    by (simp_all add: message_ok_def)
  ultimately show ?thesis
    using unknown_compare_exact [of 100 "[[?f, ?g]]" "[[?f], [?g]]" 100 fresh_stream _ plenty_uf "Some ()"]
    by (simp add: never_fails_def plenty_uf_def fresh_stream_def)
qed

text \<open>C31: The sort of the unknown fields loses fields. When the left half of a merge is used up first, the
  rest of the right half is copied from the wrong place: three fields of which the second has the least
  tag lose the last one to a second copy of the second. So two messages that differ in such a field
  compare as equal, and a message is not equal to the same fields in order.\<close>

theorem unknown_sort_loses_field:
  assumes "uf_tag b < uf_tag a" "uf_tag a \<le> uf_tag c"
  shows "upb_UnknownFields_SortRecursive [a, b, c] 0 3 = [b, a, b] \<and>
    upb_Message_UnknownFieldsAreEqual 20 plenty_uf (Some ()) fresh_stream
      [[0x28, 0, 0x08, 0, 0x48, 1]] [[0x28, 0, 0x08, 0, 0x48, 2]] 100 = Ok kUpb_UnknownCompareResult_Equal \<and>
    upb_Message_UnknownFieldsAreEqual 20 plenty_uf (Some ()) fresh_stream
      [[0x28, 0, 0x08, 0, 0x48, 1]] [[0x08, 0, 0x28, 0, 0x48, 1]] 100 = Ok kUpb_UnknownCompareResult_NotEqual"
proof (intro conjI)
  have bc: "uf_tag b \<le> uf_tag c" using assms by simp
  have m1: "upb_UnknownFields_Merge [a, b, c] (Suc 0) (Suc (Suc 0)) 3 = [a, b, c]"
    using bc by (simp add: upb_UnknownFields_Merge_def merge_loop.simps Let_def numeral_eq_Suc)
  have m2: "upb_UnknownFields_Merge [a, b, c] 0 (Suc 0) 3 = [b, a, b]"
    using assms bc by (simp add: upb_UnknownFields_Merge_def merge_loop.simps Let_def numeral_eq_Suc flip: not_less)
  have s: "upb_UnknownFields_SortRecursive arr i j = arr" if "j - i \<le> 1" for arr i j
    using that by (subst upb_UnknownFields_SortRecursive.simps) simp
  have "upb_UnknownFields_SortRecursive [a, b, c] 1 3 = [a, b, c]"
    by (subst upb_UnknownFields_SortRecursive.simps) (simp add: s m1 Let_def)
  then show "upb_UnknownFields_SortRecursive [a, b, c] 0 3 = [b, a, b]"
    by (subst upb_UnknownFields_SortRecursive.simps) (simp add: s m2 Let_def)
  show "upb_Message_UnknownFieldsAreEqual 20 plenty_uf (Some ()) fresh_stream
      [[0x28, 0, 0x08, 0, 0x48, 1]] [[0x28, 0, 0x08, 0, 0x48, 2]] 100 = Ok kUpb_UnknownCompareResult_Equal"
    by code_simp
  show "upb_Message_UnknownFieldsAreEqual 20 plenty_uf (Some ()) fresh_stream
      [[0x28, 0, 0x08, 0, 0x48, 1]] [[0x08, 0, 0x28, 0, 0x48, 1]] 100 = Ok kUpb_UnknownCompareResult_NotEqual"
    by code_simp
qed

theorem unknown_sort_loses_field_witness:
  "upb_UnknownFields_SortRecursive
     [UnknownField 40 (U_Varint 0), UnknownField 8 (U_Varint 0), UnknownField 72 (U_Varint 1)] 0 3 =
   [UnknownField 8 (U_Varint 0), UnknownField 40 (U_Varint 0), UnknownField 8 (U_Varint 0)]"
  using unknown_sort_loses_field [of "UnknownField 8 (U_Varint 0)" "UnknownField 40 (U_Varint 0)" "UnknownField 72 (U_Varint 1)"]
  by simp

end
