(* ===== verification/ArrayProps.thy ===== *)
theory ArrayProps
  imports Array
begin

text \<open>
  Arrays refine lists: what the memory of an array represents (\<open>array_rep\<close>), and how each operation changes
  the list.
\<close>

section \<open>Lists of elements of one size\<close>

definition elems :: "nat \<Rightarrow> bytes list \<Rightarrow> bool" where
  "elems e xs \<longleftrightarrow> (\<forall>x \<in> set xs. length x = e)"

lemma elems_simps [simp]: "elems e []" "elems e (x # xs) \<longleftrightarrow> length x = e \<and> elems e xs"
  "elems e (xs @ ys) \<longleftrightarrow> elems e xs \<and> elems e ys"
  by (auto simp: elems_def)

lemma elems_parts: "elems e xs \<Longrightarrow> elems e (take k xs)" "elems e xs \<Longrightarrow> elems e (drop k xs)"
  "elems e xs \<Longrightarrow> i < length xs \<Longrightarrow> length (xs ! i) = e" "elems e xs \<Longrightarrow> length v = e \<Longrightarrow> elems e (xs[i := v])"
  by (auto simp: elems_def dest: in_set_takeD in_set_dropD set_update_subset_insert [THEN subsetD])

lemma length_concat_elems: "elems e xs \<Longrightarrow> length (concat xs) = length xs * e"
  by (induction xs) auto

lemma take_concat: "elems e xs \<Longrightarrow> take (k * e) (concat xs) = concat (take k xs)"
proof (induction xs arbitrary: k)
  case (Cons x xs)
  then show ?case by (cases k) auto
qed simp

lemma drop_concat: "elems e xs \<Longrightarrow> drop (k * e) (concat xs) = concat (drop k xs)"
proof (induction xs arbitrary: k)
  case (Cons x xs)
  then show ?case by (cases k) auto
qed simp

lemma concat_injective_elems:
  "length xs = length ys \<Longrightarrow> elems e xs \<Longrightarrow> elems e ys \<Longrightarrow> concat xs = concat ys \<Longrightarrow> xs = ys"
  by (induction xs ys rule: list_induct2) auto

lemma chunks: "length bs = n * e \<Longrightarrow> \<exists>ys. length ys = n \<and> elems e ys \<and> concat ys = bs"
proof (induction n arbitrary: bs)
  case (Suc n)
  have "length (drop e bs) = n * e" using Suc.prems by simp
  then obtain ys where "length ys = n" "elems e ys" "concat ys = drop e bs" using Suc.IH by blast
  then show ?case using Suc.prems by (intro exI [of _ "take e bs # ys"]) simp
qed simp

section \<open>The tagged pointer\<close>

definition lg2_ok :: "nat \<Rightarrow> bool" where
  "lg2_ok lg2 \<longleftrightarrow> lg2 \<noteq> 1 \<and> lg2 \<le> 4"

definition tag_of :: "nat \<Rightarrow> u64" where
  "tag_of lg2 = of_nat (lg2 - (if lg2 \<noteq> 0 then 1 else 0))"

lemma lg2_cases: "lg2_ok lg2 \<Longrightarrow> lg2 = 0 \<or> lg2 = 2 \<or> lg2 = 3 \<or> lg2 = 4"
  by (auto simp: lg2_ok_def)

lemma aligned_and_7: "8 dvd unat d \<Longrightarrow> d AND 7 = (0 :: u64)"
proof -
  assume "8 dvd unat d"
  then have "unat (take_bit 3 d) = 0" by (simp add: unat_take_bit_mod)
  then have "take_bit 3 d = 0" by (simp add: unat_eq_0)
  then show ?thesis by (simp add: take_bit_eq_mask mask_eq_exp_minus_1)
qed

lemma untag:
  assumes "8 dvd unat d"
  shows "d AND 4 = (0 :: u64)" "d AND 3 = (0 :: u64)" "d AND NOT 7 = d"
proof -
  have 7: "d AND 7 = 0" by (rule aligned_and_7 [OF assms])
  have "d AND 4 = (d AND 7) AND 4" by (simp add: and.assoc)
  then show "d AND 4 = 0" by (simp add: 7)
  have "d AND 3 = (d AND 7) AND 3" by (simp add: and.assoc)
  then show "d AND 3 = 0" by (simp add: 7)
  have "d = (d AND 7) OR (d AND NOT 7)" by (simp add: bit.conj_disj_distrib [symmetric])
  then show "d AND NOT 7 = d" by (simp only: 7 or.left_neutral)
qed

lemma header_reads:
  assumes l: "load64 m arr = Ok (d OR tag_of lg2)" and d: "8 dvd unat d" and lg2: "lg2_ok lg2"
  shows "upb_Array_IsFrozen m arr = Ok False" "upb_Array_ElemSizeLg2 m arr = Ok lg2"
    "upb_Array_DataPtr m arr = Ok d" "upb_Array_MutableDataPtr m arr = Ok d" "assert_mutable m arr r = r"
proof -
  note u = untag [OF d]
  have t: "tag_of lg2 AND 4 = 0" "tag_of lg2 AND NOT 7 = 0"
    "(let bits = tag_of lg2 AND 3 in unat (bits + (if bits \<noteq> 0 then 1 else 0))) = lg2"
    using lg2_cases [OF lg2] by (auto simp: tag_of_def Let_def)
  have 4: "(d OR tag_of lg2) AND 4 = 0" "(d OR tag_of lg2) AND 3 = tag_of lg2 AND 3" "(d OR tag_of lg2) AND NOT 7 = d"
    by (simp_all only: bit.conj_disj_distrib2 u t or.left_neutral or.right_neutral)
  show fr: "upb_Array_IsFrozen m arr = Ok False"
    by (simp add: upb_Array_IsFrozen_def arr_data_def l UPB_ARRAY_MASK_IMM_def 4(1))
  show el: "upb_Array_ElemSizeLg2 m arr = Ok lg2"
    using t(3) by (simp add: upb_Array_ElemSizeLg2_def arr_data_def l UPB_ARRAY_MASK_LG2_def 4(2) Let_def)
  have "UPB_ARRAY_MASK_ALL = 7" by (simp add: UPB_ARRAY_MASK_ALL_def UPB_ARRAY_MASK_IMM_def UPB_ARRAY_MASK_LG2_def)
  then show dp: "upb_Array_DataPtr m arr = Ok d"
    using 4(3) by (simp add: upb_Array_DataPtr_def el arr_data_def l)
  then show "upb_Array_MutableDataPtr m arr = Ok d" by (simp add: upb_Array_MutableDataPtr_def)
  show "assert_mutable m arr r = r" by (simp add: assert_mutable_def fr)
qed

section \<open>The representation\<close>

text \<open>The header is an allocation of its own here, although \<open>upb_Array_New\<close> allocates it together with the
  first elements.\<close>

definition array_rep ::
    "('x \<Rightarrow> u64 set) \<Rightarrow> 'x heap \<Rightarrow> (u64 \<times> nat) list \<Rightarrow> u64 \<Rightarrow> nat \<Rightarrow> u64 \<Rightarrow> u64 \<Rightarrow> bytes list \<Rightarrow> bool" where
  "array_rep used h A arr lg2 d cap xs \<longleftrightarrow>
     lg2_ok lg2 \<and> unat cap * 2 ^ lg2 \<le> 2 ^ 63 \<and> length xs \<le> unat cap \<and> elems (2 ^ lg2) xs \<and>
     arena_ok used h ((d, unat (UPB_ALIGN_MALLOC (push_bit lg2 cap))) # (arr, 24) # A) \<and>
     load64 (h_mem h) arr = Ok (d OR tag_of lg2) \<and>
     load64 (h_mem h) (arr + 8) = Ok (of_nat (length xs)) \<and>
     load64 (h_mem h) (arr + 16) = Ok cap \<and>
     load (h_mem h) d (length xs * 2 ^ lg2) = Ok (concat xs)"

text \<open>Other allocations keep their bytes.\<close>

definition others_kept :: "(u64 \<times> nat) list \<Rightarrow> mem \<Rightarrow> mem \<Rightarrow> bool" where
  "others_kept A m m' \<longleftrightarrow> (\<forall>x \<in> set A. \<forall>a \<in> range_of (fst x) (snd x). m' a = m a)"

lemma others_kept_trans: "others_kept A m m' \<Longrightarrow> others_kept A m' m'' \<Longrightarrow> others_kept A m m''"
  by (simp add: others_kept_def)

lemma others_kept_refl [simp]: "others_kept A m m"
  by (simp add: others_kept_def)

lemma load_same:
  assumes "\<And>a. a \<in> range_of p n \<Longrightarrow> m' a = m a" "n \<le> 2 ^ 64"
  shows "load m' p n = load m p n"
proof -
  have "m' (p + of_nat i) = m (p + of_nat i)" if "i < n" for i
    using assms that by (auto simp: range_of_iff)
  then show ?thesis by (simp add: load_def all_mapped_iff cassert_def cong: map_cong)
qed

lemma load64_frame:
  assumes "\<And>a. a \<in> range_of p 8 \<Longrightarrow> m' a = m a"
  shows "load64 m' p = load64 m p"
  using load_same [of p 8 m' m] assms by (simp add: load64_def)

lemma bytes_unat: "lg2_ok lg2 \<Longrightarrow> unat cap * 2 ^ lg2 < 2 ^ 64 \<Longrightarrow> unat (push_bit lg2 (cap :: u64)) = unat cap * 2 ^ lg2"
proof -
  assume "lg2_ok lg2" and b: "unat cap * 2 ^ lg2 < 2 ^ 64"
  have eq: "push_bit lg2 cap = of_nat (unat cap * 2 ^ lg2)" by (simp add: push_bit_eq_mult)
  show ?thesis unfolding eq by (rule unat_of_nat64 [OF b])
qed

lemma push_of_nat: "push_bit lg2 (of_nat i) = (of_nat (i * 2 ^ lg2) :: u64)"
  by (simp add: push_bit_eq_mult)

lemma array_repD:
  assumes "array_rep used h A arr lg2 d cap xs"
  shows "lg2_ok lg2" "unat cap * 2 ^ lg2 \<le> 2 ^ 63" "length xs \<le> unat cap" "elems (2 ^ lg2) xs"
    "arena_ok used h ((d, unat (UPB_ALIGN_MALLOC (push_bit lg2 cap))) # (arr, 24) # A)"
    "load64 (h_mem h) arr = Ok (d OR tag_of lg2)" "load64 (h_mem h) (arr + 8) = Ok (of_nat (length xs))"
    "load64 (h_mem h) (arr + 16) = Ok cap" "load (h_mem h) d (length xs * 2 ^ lg2) = Ok (concat xs)"
    "8 dvd unat d" "d \<noteq> 0"
  using assms by (simp_all add: array_rep_def arena_ok_def alloc_ok_def)

lemma array_header:
  assumes "array_rep used h A arr lg2 d cap xs"
  shows "upb_Array_IsFrozen (h_mem h) arr = Ok False" "upb_Array_ElemSizeLg2 (h_mem h) arr = Ok lg2"
    "upb_Array_DataPtr (h_mem h) arr = Ok d" "upb_Array_MutableDataPtr (h_mem h) arr = Ok d"
    "assert_mutable (h_mem h) arr r = r" "upb_Array_Size (h_mem h) arr = Ok (of_nat (length xs))"
    "load64 (h_mem h) (arr_size arr) = Ok (of_nat (length xs))" "load64 (h_mem h) (arr_capacity arr) = Ok cap"
  using header_reads [OF array_repD(6,10,1) [OF assms]] array_repD(7,8) [OF assms]
  by (simp_all add: upb_Array_Size_def arr_size_def arr_capacity_def)

text \<open>All bytes of the data, the unused ones included.\<close>

lemma array_bytes:
  assumes "array_rep used h A arr lg2 d cap xs"
  obtains junk where "load (h_mem h) d (unat cap * 2 ^ lg2) = Ok (concat xs @ junk)"
    "length junk = (unat cap - length xs) * 2 ^ lg2"
proof -
  note r = array_repD [OF assms]
  let ?n = "unat cap * 2 ^ lg2"
  have u: "unat (push_bit lg2 cap) = ?n" by (rule bytes_unat [OF r(1) le_less_trans [OF r(2)]]) simp
  have "mapped (h_mem h) d (unat (UPB_ALIGN_MALLOC (push_bit lg2 cap)))" using r(5) by (simp add: arena_ok_def alloc_ok_def)
  moreover have "unat (push_bit lg2 cap) \<le> 2 ^ 64 - 8" using u r(2) by simp
  from range_align [OF this, of d] have "range_of d ?n \<subseteq> range_of d (unat (UPB_ALIGN_MALLOC (push_bit lg2 cap)))"
    using u by simp
  ultimately have "mapped (h_mem h) d ?n" by (rule mapped_mono)
  then obtain bs where bs: "load (h_mem h) d ?n = Ok bs" "length bs = ?n" using load_exists r(2) by fastforce
  have le: "length xs * 2 ^ lg2 \<le> ?n" using r(3) by simp
  have "load (h_mem h) (d + of_nat 0) (length xs * 2 ^ lg2) = Ok (take (length xs * 2 ^ lg2) (drop 0 bs))"
    using le by (intro load_take_drop [OF bs(1)]) simp
  then have "take (length xs * 2 ^ lg2) bs = concat xs" using r(9) by simp
  then have "bs = concat xs @ drop (length xs * 2 ^ lg2) bs" by (metis append_take_drop_id)
  then show thesis using that [of "drop (length xs * 2 ^ lg2) bs"] bs by (simp add: diff_mult_distrib)
qed

section \<open>Writing the header and the data\<close>

lemma apart_head:
  assumes "arena_ok used h ((d, n) # (arr, 24) # A)"
  shows "range_of d n \<inter> range_of arr 24 = {}" "\<And>x. x \<in> set A \<Longrightarrow> range_of d n \<inter> range_of (fst x) (snd x) = {}"
    "\<And>x. x \<in> set A \<Longrightarrow> range_of arr 24 \<inter> range_of (fst x) (snd x) = {}" "mapped (h_mem h) arr 24" "mapped (h_mem h) d n"
  using assms by (auto simp: arena_ok_def alloc_ok_def)

lemma word_parts: "range_of (arr + 0) 8 \<inter> range_of (arr + 8) 8 = {}" "range_of (arr + 0) 8 \<inter> range_of (arr + 16) 8 = {}"
    "range_of (arr + 8) 8 \<inter> range_of (arr + 16) 8 = {}"
    "range_of (arr + 0) 8 \<subseteq> range_of arr 24" "range_of (arr + 8) 8 \<subseteq> range_of arr 24" "range_of (arr + 16) 8 \<subseteq> range_of arr 24"
  using ranges_apart [of 0 8 8 8 arr] ranges_apart [of 0 8 16 8 arr] ranges_apart [of 8 8 16 8 arr]
    range_of_offset [of 0 8 24 arr] range_of_offset [of 8 8 24 arr] range_of_offset [of 16 8 24 arr] by simp_all

text \<open>A word of the header is written.\<close>

lemma header_store:
  assumes ok: "arena_ok used h ((d, n) # (arr, 24) # A)" and k: "k = arr + 0 \<or> k = arr + 8 \<or> k = arr + 16"
  obtains m' where "store64 (h_mem h) k x = Ok m'" "load64 m' k = Ok x"
    "arena_ok used (h\<lparr>h_mem := m'\<rparr>) ((d, n) # (arr, 24) # A)" "\<And>a. a \<notin> range_of k 8 \<Longrightarrow> m' a = h_mem h a"
    "others_kept A (h_mem h) m'"
proof -
  have sub: "range_of k 8 \<subseteq> range_of arr 24" using k word_parts(4-6) by blast
  have "mapped (h_mem h) k (length (le_bytes 8 x))" using mapped_mono [OF apart_head(4) [OF ok] sub] by simp
  then obtain m' where st: "store (h_mem h) k (le_bytes 8 x) = Ok m'" using store_exists by fastforce
  have eq: "\<And>a. a \<notin> range_of k 8 \<Longrightarrow> m' a = h_mem h a" using st by (simp add: store_Ok_iff)
  have "store64 (h_mem h) k x = Ok m'" using st by (simp add: store64_def)
  moreover have "others_kept A (h_mem h) m'"
    unfolding others_kept_def using eq sub apart_head(3) [OF ok] by blast
  ultimately show thesis using that load64_same eq store_arena_ok [OF st] ok by blast
qed

lemma data_same:
  assumes ok: "arena_ok used h ((d, n) # (arr, 24) # A)" and k: "k = arr + 0 \<or> k = arr + 8 \<or> k = arr + 16"
    and eq: "\<And>a. a \<notin> range_of k 8 \<Longrightarrow> m' a = h_mem h a" and j: "j \<le> n" "n \<le> 2 ^ 64"
  shows "load m' d j = load (h_mem h) d j"
proof (rule load_same)
  fix a assume "a \<in> range_of d j"
  then have "a \<in> range_of d n" using j by (simp add: range_of_def)
  then show "m' a = h_mem h a" using eq apart_head(1) [OF ok] word_parts(4-6) [of arr] k by blast
qed (use j in simp)

text \<open>The size is set to at most the capacity.\<close>

lemma set_size_spec:
  assumes r: "array_rep used h A arr lg2 d cap xs" and n: "n \<le> unat cap"
  obtains m' ys where "store64 (h_mem h) (arr_size arr) (of_nat n) = Ok m'"
    "array_rep used (h\<lparr>h_mem := m'\<rparr>) A arr lg2 d cap ys" "length ys = n"
    "take (min n (length xs)) ys = take (min n (length xs)) xs" "others_kept A (h_mem h) m'"
proof -
  note d = array_repD [OF r]
  let ?e = "2 ^ lg2 :: nat"
  let ?n = "unat (UPB_ALIGN_MALLOC (push_bit lg2 cap))"
  have u: "unat (push_bit lg2 cap) = unat cap * ?e" by (rule bytes_unat [OF d(1) le_less_trans [OF d(2)]]) simp
  have n64: "?n \<le> 2 ^ 64" by (rule less_imp_le) simp
  have nb: "unat cap * ?e \<le> ?n" using align_ge [of "push_bit lg2 cap"] u d(2) by simp
  obtain junk where full: "load (h_mem h) d (unat cap * ?e) = Ok (concat xs @ junk)"
    "length junk = (unat cap - length xs) * ?e" by (rule array_bytes [OF r])
  have lx: "length (concat xs) = length xs * ?e" by (rule length_concat_elems [OF d(4)])
  obtain m' where m': "store64 (h_mem h) (arr + 8) (of_nat n) = Ok m'" "load64 m' (arr + 8) = Ok (of_nat n)"
    "arena_ok used (h\<lparr>h_mem := m'\<rparr>) ((d, ?n) # (arr, 24) # A)" "\<And>a. a \<notin> range_of (arr + 8) 8 \<Longrightarrow> m' a = h_mem h a"
    "others_kept A (h_mem h) m'" by (rule header_store [OF d(5), of "arr + 8" "of_nat n"]) auto
  have "load64 m' arr = load64 (h_mem h) arr" "load64 m' (arr + 16) = load64 (h_mem h) (arr + 16)"
    using m'(4) word_parts(1,3) [of arr] by (intro load64_frame; force)+
  moreover have "load m' d (unat cap * ?e) = Ok (concat xs @ junk)"
    by (subst data_same [OF d(5) _ m'(4) nb n64]) (simp_all add: full(1))
  moreover
  have le: "n * ?e \<le> unat cap * ?e" using n by simp
  have lb: "length (concat xs @ junk) = unat cap * ?e"
    using lx full(2) d(3) by (simp add: add_mult_distrib [symmetric])
  have "length (take (n * ?e) (concat xs @ junk)) = n * ?e" unfolding length_take lb using le by simp
  then obtain ys where ys: "length ys = n" "elems ?e ys" "concat ys = take (n * ?e) (concat xs @ junk)" using chunks by blast
  have "load m' (d + of_nat 0) (n * ?e) = Ok (take (n * ?e) (drop 0 (concat xs @ junk)))"
    by (rule load_take_drop [OF calculation(3)]) (simp only: add_0 le)
  moreover have "take (min n (length xs)) ys = take (min n (length xs)) xs"
  proof -
    let ?k = "min n (length xs)"
    have "concat (take ?k ys) = take (?k * ?e) (concat ys)" by (rule take_concat [OF ys(2), symmetric])
    also have "\<dots> = take (?k * ?e) (concat xs @ junk)"
    proof -
      have "?k * ?e \<le> n * ?e" by (intro mult_le_mono1) simp
      then show ?thesis unfolding ys(3) take_take by (simp only: min_absorb1)
    qed
    also have "\<dots> = take (?k * ?e) (concat xs)"
    proof -
      have "?k * ?e \<le> length (concat xs)" unfolding lx by (intro mult_le_mono1) simp
      then show ?thesis by simp
    qed
    also have "\<dots> = concat (take ?k xs)" by (rule take_concat [OF d(4)])
    finally have "concat (take ?k ys) = concat (take ?k xs)" .
    then show ?thesis using concat_injective_elems [OF _ elems_parts(1) [OF ys(2)] elems_parts(1) [OF d(4)]] ys(1) by auto
  qed
  moreover have "array_rep used (h\<lparr>h_mem := m'\<rparr>) A arr lg2 d cap ys"
    using d m'(2,3) calculation ys n unfolding array_rep_def by simp
  ultimately show thesis using that m'(1,5) ys(1) by (simp add: arr_size_def)
qed

text \<open>Bytes of the data are written: the elements become the chunks of the new bytes.\<close>

lemma write_data_spec:
  assumes r: "array_rep used h A arr lg2 d cap xs" and i: "i * 2 ^ lg2 + length cs \<le> length xs * 2 ^ lg2"
    and ys: "length ys = length xs" "elems (2 ^ lg2) ys"
      "concat ys = take (i * 2 ^ lg2) (concat xs) @ cs @ drop (i * 2 ^ lg2 + length cs) (concat xs)"
  obtains m' where "store (h_mem h) (d + push_bit lg2 (of_nat i)) cs = Ok m'"
    "array_rep used (h\<lparr>h_mem := m'\<rparr>) A arr lg2 d cap ys" "others_kept A (h_mem h) m'"
proof -
  note d = array_repD [OF r]
  let ?e = "2 ^ lg2 :: nat"
  let ?n = "unat (UPB_ALIGN_MALLOC (push_bit lg2 cap))"
  have u: "unat (push_bit lg2 cap) = unat cap * ?e" by (rule bytes_unat [OF d(1) le_less_trans [OF d(2)]]) simp
  have nb: "unat cap * ?e \<le> ?n" using align_ge [of "push_bit lg2 cap"] u d(2) by simp
  have xn: "length xs * ?e \<le> unat cap * ?e" using d(3) by simp
  have x64: "length xs * ?e < 2 ^ 64" by (rule le_less_trans [OF le_trans [OF xn d(2)]]) simp
  obtain m' where m': "store (h_mem h) (d + of_nat (i * ?e)) cs = Ok m'"
    "load m' d (length xs * ?e) = Ok (take (i * ?e) (concat xs) @ cs @ drop (i * ?e + length cs) (concat xs))"
    "\<And>a. a \<notin> range_of (d + of_nat (i * ?e)) (length cs) \<Longrightarrow> m' a = h_mem h a"
    by (rule store_middle [OF d(9) i x64]) (rule that)
  have "range_of (d + of_nat (i * ?e)) (length cs) \<subseteq> range_of d (length xs * ?e)"
    using i x64 by (intro range_of_offset) simp_all
  also have "\<dots> \<subseteq> range_of d ?n" using le_trans [OF xn nb] by (auto simp: range_of_def)
  finally have sub: "range_of (d + of_nat (i * ?e)) (length cs) \<subseteq> range_of d ?n" .
  have out: "m' a = h_mem h a" if "a \<notin> range_of d ?n" for a using m'(3) sub that by blast
  note ap = apart_head [OF d(5)]
  have hd: "load64 m' k = load64 (h_mem h) k" if "range_of k 8 \<subseteq> range_of arr 24" for k
    using out ap(1) that by (intro load64_frame) blast
  have "load64 m' (arr + 0) = load64 (h_mem h) (arr + 0)" "load64 m' (arr + 8) = load64 (h_mem h) (arr + 8)"
    "load64 m' (arr + 16) = load64 (h_mem h) (arr + 16)" using word_parts(4-6) by (blast intro: hd)+
  moreover have "arena_ok used (h\<lparr>h_mem := m'\<rparr>) ((d, ?n) # (arr, 24) # A)"
    using d(5) by (simp add: store_arena_ok [OF m'(1)])
  ultimately have "array_rep used (h\<lparr>h_mem := m'\<rparr>) A arr lg2 d cap ys"
    using d m'(2) ys unfolding array_rep_def by simp
  moreover have "others_kept A (h_mem h) m'" using out ap(2) unfolding others_kept_def by blast
  ultimately show thesis using that m'(1) unfolding push_of_nat by blast
qed

section \<open>Reading and writing elements\<close>

lemma of_nat_less_array: "array_rep used h A arr lg2 d cap xs \<Longrightarrow> i \<le> length xs \<Longrightarrow> i < 2 ^ 64"
proof -
  assume r: "array_rep used h A arr lg2 d cap xs" and "i \<le> length xs"
  then have "i \<le> unat cap" using array_repD(3) [OF r] by simp
  then show ?thesis by (rule le_less_trans) simp
qed

lemma of_nat_less64: "i < 2 ^ 64 \<Longrightarrow> j < 2 ^ 64 \<Longrightarrow> (of_nat i :: u64) < of_nat j \<longleftrightarrow> i < j"
  by (simp add: word_less_nat_alt unat_of_nat64 del: unat_of_nat)

lemma of_nat_le64: "i < 2 ^ 64 \<Longrightarrow> j < 2 ^ 64 \<Longrightarrow> (of_nat i :: u64) \<le> of_nat j \<longleftrightarrow> i \<le> j"
  by (simp add: word_le_nat_alt unat_of_nat64 del: unat_of_nat)

lemma Get_spec:
  assumes r: "array_rep used h A arr lg2 d cap xs" and i: "i < length xs"
  shows "upb_Array_Get (h_mem h) arr (of_nat i) = Ok (xs ! i)"
proof -
  note d = array_repD [OF r]
  let ?e = "2 ^ lg2 :: nat"
  have "i * ?e + ?e \<le> length xs * ?e"
  proof -
    have "(i + 1) * ?e \<le> length xs * ?e" using i by (intro mult_le_mono1) simp
    then show ?thesis by simp
  qed
  from load_take_drop [OF d(9) this]
  have l: "load (h_mem h) (d + of_nat (i * ?e)) ?e = Ok (take ?e (drop (i * ?e) (concat xs)))" .
  have "drop (i * ?e) (concat xs) = concat (xs ! i # drop (Suc i) xs)"
    using i by (simp only: drop_concat [OF d(4)] Cons_nth_drop_Suc)
  then have "take ?e (drop (i * ?e) (concat xs)) = xs ! i" using elems_parts(3) [OF d(4) i] by simp
  moreover have "(of_nat i :: u64) < of_nat (length xs)"
    using i of_nat_less_array [OF r] by (simp add: of_nat_less64 del: of_nat_less_iff)
  ultimately show ?thesis using l array_header [OF r] by (simp add: upb_Array_Get_def push_of_nat)
qed

lemma Set_spec:
  assumes r: "array_rep used h A arr lg2 d cap xs" and i: "i < length xs" and v: "2 ^ lg2 \<le> length v"
  obtains m' where "upb_Array_Set (h_mem h) arr (of_nat i) v = Ok m'"
    "array_rep used (h\<lparr>h_mem := m'\<rparr>) A arr lg2 d cap (xs[i := take (2 ^ lg2) v])" "others_kept A (h_mem h) m'"
proof -
  note d = array_repD [OF r]
  let ?e = "2 ^ lg2 :: nat"
  let ?v = "take ?e v"
  have lv: "length ?v = ?e" using v by simp
  have "(i + 1) * ?e \<le> length xs * ?e" using i by (intro mult_le_mono1) simp
  then have b: "i * ?e + length ?v \<le> length xs * ?e" using lv by simp
  have "concat (xs[i := ?v]) = concat (take i xs) @ ?v @ concat (drop (Suc i) xs)"
    using i by (simp add: upd_conv_take_nth_drop)
  then have "concat (xs[i := ?v]) = take (i * ?e) (concat xs) @ ?v @ drop (i * ?e + length ?v) (concat xs)"
    using take_concat [OF d(4), of i] drop_concat [OF d(4), of "Suc i"] lv by (simp add: add.commute)
  then obtain m' where m': "store (h_mem h) (d + push_bit lg2 (of_nat i)) ?v = Ok m'"
    "array_rep used (h\<lparr>h_mem := m'\<rparr>) A arr lg2 d cap (xs[i := ?v])" "others_kept A (h_mem h) m'"
    using write_data_spec [OF r b _ elems_parts(4) [OF d(4) lv]] by auto
  have "(of_nat i :: u64) < of_nat (length xs)"
    using i of_nat_less_array [OF r] by (simp add: of_nat_less64 del: of_nat_less_iff)
  then have "upb_Array_Set (h_mem h) arr (of_nat i) v = Ok m'"
    using m'(1) by (simp add: upb_Array_Set_def array_header [OF r])
  then show thesis using that m' by blast
qed

section \<open>Growing\<close>

lemma double_capacity_spec:
  "0 < unat c \<Longrightarrow> unat m \<le> 2 ^ 62 \<Longrightarrow> unat c \<le> 2 ^ 63 \<Longrightarrow>
    \<exists>c'. double_capacity c m = Some c' \<and> unat m \<le> unat c' \<and> unat c \<le> unat c' \<and> (c' = c \<or> unat c' < 2 * unat m)"
proof (induction c rule: measure_induct_rule [of "\<lambda>c. unat m - unat c"])
  case (less c)
  show ?case
  proof (cases "c < m")
    case False
    then show ?thesis by (subst double_capacity.simps) (simp add: word_less_nat_alt)
  next
    case True
    then have lt: "unat c < unat m" by (simp add: word_less_nat_alt)
    then have "unat c + unat c < 2 ^ 64" using less.prems by simp
    then have d: "unat (c * 2) = 2 * unat c" using unat_plus64 [of c c] by (simp add: mult_2_right)
    have "\<exists>c'. double_capacity (c * 2) m = Some c' \<and> unat m \<le> unat c' \<and> unat (c * 2) \<le> unat c' \<and>
        (c' = c * 2 \<or> unat c' < 2 * unat m)"
      using less.prems lt d by (intro less.IH) simp_all
    then obtain c' where "double_capacity (c * 2) m = Some c'" "unat m \<le> unat c'" "unat (c * 2) \<le> unat c'"
      "c' = c * 2 \<or> unat c' < 2 * unat m" by blast
    then show ?thesis using True d lt by (subst double_capacity.simps) auto
  qed
qed

text \<open>A request that the address space can hold.\<close>

definition small_request :: "nat \<Rightarrow> nat \<Rightarrow> bool" where
  "small_request lg2 n \<longleftrightarrow> n * 2 ^ lg2 \<le> 2 ^ 62"

lemma small_request_le: "small_request lg2 n \<Longrightarrow> n \<le> 2 ^ 62"
  unfolding small_request_def by (rule le_trans [of _ "n * 2 ^ lg2"]) simp_all

context sys_malloc begin

lemma Array_Realloc_spec:
  assumes r: "array_rep used h A arr lg2 d cap xs" and n: "small_request lg2 n"
  shows "\<exists>ok h' d' cap'. upb_Array_Realloc f arr (of_nat n) h = Ok (ok, h') \<and>
    array_rep used h' A arr lg2 d' cap' xs \<and> others_kept A (h_mem h) (h_mem h') \<and>
    (if ok then n \<le> unat cap' else refused f h (max (max (unat cap) 4) (2 * n) * 2 ^ lg2))"
proof -
  note d = array_repD [OF r]
  let ?e = "2 ^ lg2 :: nat"
  have n62: "n \<le> 2 ^ 62" by (rule small_request_le [OF n])
  have un: "unat (of_nat n :: u64) = n" using n62 by (intro unat_of_nat64) simp
  have e16: "?e \<le> 16" using lg2_cases [OF d(1)] by auto
  let ?c = "max cap 4"
  have uc: "unat ?c = max (unat cap) 4" by (simp add: max_def word_le_nat_alt)
  have cap63: "unat cap \<le> 2 ^ 63" by (rule le_trans [OF _ d(2)]) simp
  have c0: "0 < unat ?c" and c63: "unat ?c \<le> 2 ^ 63" unfolding uc using cap63 by (simp_all add: max_def)
  obtain c' where c': "double_capacity ?c (of_nat n) = Some c'" "n \<le> unat c'" "unat ?c \<le> unat c'"
    "c' = ?c \<or> unat c' < 2 * n"
    using double_capacity_spec [of ?c "of_nat n"] n62 c0 c63 unfolding un by blast
  have cb: "unat c' * ?e \<le> 2 ^ 63"
  proof -
    consider "c' = ?c" "4 \<le> unat cap" | "c' = ?c" "unat cap < 4" | "unat c' < 2 * n" using c'(4) by linarith
    then show ?thesis
    proof cases
      case 1
      then show ?thesis using uc d(2) by (simp add: max_def)
    next
      case 2
      then have "unat c' = 4" using uc by (simp add: max_def)
      then show ?thesis using e16 by simp
    next
      case 3
      then have "unat c' * ?e \<le> 2 * n * ?e" by (intro mult_le_mono1) simp
      also have "\<dots> = 2 * (n * ?e)" by simp
      also have "\<dots> \<le> 2 * 2 ^ 62" using n unfolding small_request_def by (rule mult_le_mono2)
      finally show ?thesis by simp
    qed
  qed
  have ub: "unat (push_bit lg2 cap) = unat cap * ?e" "unat (push_bit lg2 c') = unat c' * ?e"
    by (rule bytes_unat [OF d(1) le_less_trans [OF d(2)]], simp, rule bytes_unat [OF d(1) le_less_trans [OF cb]], simp)
  have cc: "unat cap * ?e \<le> unat c' * ?e" using c'(3) uc by (intro mult_le_mono1) simp
  have nz: "push_bit lg2 c' \<noteq> 0"
  proof
    assume "push_bit lg2 c' = 0"
    then have "unat c' * ?e = 0" using ub(2) by simp
    then show False using c'(3) uc by simp
  qed
  have "unat c' \<le> max (max (unat cap) 4) (2 * n)" using c'(4) uc by (auto simp: max_def)
  then have ref: "unat (push_bit lg2 c') \<le> max (max (unat cap) 4) (2 * n) * ?e"
    unfolding ub(2) by (rule mult_le_mono1)
  have mn: "min (push_bit lg2 cap) (push_bit lg2 c') = push_bit lg2 cap" using ub cc by (simp add: min_def word_le_nat_alt)
  have ok: "arena_ok used h (with_alloc d (push_bit lg2 cap) ((arr, 24) # A))" using d(5,11) by (simp add: with_alloc_def)
  have b: "unat (push_bit lg2 c') \<le> 2 ^ 64 - 40" "unat (push_bit lg2 cap) \<le> 2 ^ 64 - 40" using ub cb d(2) by simp_all
  obtain q h1 where q: "upb_Arena_Realloc f d (push_bit lg2 cap) (push_bit lg2 c') h = Ok (q, h1)"
    "realloc_ok used ((arr, 24) # A) d (push_bit lg2 cap) (push_bit lg2 c') h q h1"
    "q = 0 \<longrightarrow> no_memory f h (push_bit lg2 c')"
    using Realloc_spec [OF ok _ b] d(11) nz by blast
  show ?thesis
  proof (cases "q = 0")
    case True
    have k: "keeps h h1" and ok1: "arena_ok used h1 ((d, unat (UPB_ALIGN_MALLOC (push_bit lg2 cap))) # (arr, 24) # A)"
      using q(2) True d(11) by (simp_all add: realloc_ok_def with_alloc_def)
    have eq: "h_mem h1 a = h_mem h a" if "h_mem h a \<noteq> None" for a using k that by (simp add: keeps_def)
    have ld: "load64 (h_mem h1) p = Ok x" if "load64 (h_mem h) p = Ok x" for p x
    proof -
      have "mapped (h_mem h) p 8" using that by (auto simp: load64_def cbind_Ok_iff load_Ok_iff)
      then show ?thesis using that keeps_load [OF k] by (simp add: load64_def)
    qed
    have "load (h_mem h1) d (length xs * ?e) = Ok (concat xs)"
    proof -
      have "length xs * ?e \<le> 2 ^ 63" by (rule le_trans [OF mult_le_mono1 [OF d(3)] d(2)])
      then have "length xs * ?e \<le> 2 ^ 64" by simp
      then show ?thesis using keeps_load [OF k] d(9) by (simp add: load_Ok_iff)
    qed
    then have "array_rep used h1 A arr lg2 d cap xs" using d ok1 ld by (simp add: array_rep_def)
    moreover have "others_kept A (h_mem h) (h_mem h1)"
    proof -
      have "h_mem h a \<noteq> None" if "x \<in> set A" "a \<in> range_of (fst x) (snd x)" for x a
        using d(5) that by (auto simp: arena_ok_def alloc_ok_def mapped_def)
      then show ?thesis using eq by (simp add: others_kept_def)
    qed
    moreover have "upb_Array_Realloc f arr (of_nat n) h = Ok (False, h1)"
      using q(1) True c'(1) by (simp add: upb_Array_Realloc_def array_header [OF r] Let_def)
    moreover have "refused f h (max (max (unat cap) 4) (2 * n) * ?e)"
      using q(3) True ref by (auto simp: refused_def)
    ultimately show ?thesis by (intro exI [of _ False] exI [of _ h1] exI [of _ d] exI [of _ cap]) simp
  next
    case False
    let ?n = "unat (UPB_ALIGN_MALLOC (push_bit lg2 c'))"
    have ok1: "arena_ok used h1 ((q, ?n) # (arr, 24) # A)" and fr: "mem_frame h h1 q (push_bit lg2 c')"
      and cp: "load (h_mem h1) q (unat cap * ?e) = load (h_mem h) d (unat cap * ?e)"
      using q(2) False ub(1) unfolding realloc_ok_def mn by (simp_all add: with_alloc_def)
    have mp: "h_mem h a \<noteq> None" if "x \<in> set ((arr, 24) # A)" "a \<in> range_of (fst x) (snd x)" for x a
      using d(5) that by (auto simp: arena_ok_def alloc_ok_def mapped_def)
    have out: "a \<notin> range_of q ?n" if "x \<in> set ((arr, 24) # A)" "a \<in> range_of (fst x) (snd x)" for x a
      using ok1 that by (auto simp: arena_ok_def)
    have eq: "h_mem h1 a = h_mem h a" if "x \<in> set ((arr, 24) # A)" "a \<in> range_of (fst x) (snd x)" for x a
      using fr mp [OF that] out [OF that] by (simp add: mem_frame_def)
    have hd: "load64 (h_mem h1) k = load64 (h_mem h) k" if "range_of k 8 \<subseteq> range_of arr 24" for k
      using eq [of "(arr, 24)"] that by (intro load64_frame) auto
    obtain m2 where m2: "store64 (h_mem h1) (arr + 0) (q OR tag_of lg2) = Ok m2" "load64 m2 (arr + 0) = Ok (q OR tag_of lg2)"
      "arena_ok used (h1\<lparr>h_mem := m2\<rparr>) ((q, ?n) # (arr, 24) # A)" "\<And>a. a \<notin> range_of (arr + 0) 8 \<Longrightarrow> m2 a = h_mem h1 a"
      "others_kept A (h_mem h1) m2" by (rule header_store [OF ok1, of "arr + 0" "q OR tag_of lg2"]) auto
    obtain m3 where m3: "store64 m2 (arr + 16) c' = Ok m3" "load64 m3 (arr + 16) = Ok c'"
      "arena_ok used (h1\<lparr>h_mem := m3\<rparr>) ((q, ?n) # (arr, 24) # A)" "\<And>a. a \<notin> range_of (arr + 16) 8 \<Longrightarrow> m3 a = m2 a"
      "others_kept A m2 m3" using header_store [OF m2(3), of "arr + 16" c'] by auto
    let ?h = "h1\<lparr>h_mem := m3\<rparr>"
    have n64: "?n \<le> 2 ^ 64" by (rule less_imp_le) simp
    have nb: "unat c' * ?e \<le> ?n" using align_ge [of "push_bit lg2 c'"] ub(2) cb by simp
    have xn: "length xs * ?e \<le> unat cap * ?e" using d(3) by simp
    have dl: "load m3 q j = load (h_mem h1) q j" if "j \<le> ?n" for j
      using data_same [OF m2(3), of "arr + 16" m3 j] data_same [OF ok1, of "arr + 0" m2 j] m2(4) m3(4) that n64 by simp
    obtain junk where junk: "load (h_mem h) d (unat cap * ?e) = Ok (concat xs @ junk)"
      "length junk = (unat cap - length xs) * ?e" by (rule array_bytes [OF r])
    have "load (h_mem h1) (q + of_nat 0) (length xs * ?e) = Ok (take (length xs * ?e) (drop 0 (concat xs @ junk)))"
      by (rule load_take_drop [of _ _ "unat cap * ?e"]) (use cp junk(1) xn in simp_all)
    then have "load (h_mem h1) q (length xs * ?e) = Ok (concat xs)"
      using length_concat_elems [OF d(4)] by simp
    then have "load m3 q (length xs * ?e) = Ok (concat xs)"
      using dl [of "length xs * ?e"] le_trans [OF xn le_trans [OF cc nb]] by simp
    moreover have "load64 m3 arr = Ok (q OR tag_of lg2)"
    proof -
      have "load64 m3 (arr + 0) = load64 m2 (arr + 0)" using m3(4) word_parts(2) [of arr] by (intro load64_frame) blast
      then show ?thesis using m2(2) by simp
    qed
    moreover have "load64 m3 (arr + 8) = Ok (of_nat (length xs))"
    proof -
      have "load64 m3 (arr + 8) = load64 m2 (arr + 8)" using m3(4) word_parts(3) [of arr] by (intro load64_frame) blast
      also have "\<dots> = load64 (h_mem h1) (arr + 8)" using m2(4) word_parts(1) [of arr] by (intro load64_frame) blast
      finally show ?thesis using hd [OF word_parts(5)] d(7) by simp
    qed
    moreover have "length xs \<le> unat c'" using d(3) c'(3) uc by simp
    ultimately have "array_rep used ?h A arr lg2 q c' xs"
      using d(1,4) cb m3(2,3) by (simp add: array_rep_def)
    moreover have "others_kept A (h_mem h) m3"
      using eq m2(5) m3(5) by (auto simp: others_kept_def)
    moreover have "upb_Array_Realloc f arr (of_nat n) h = Ok (True, ?h)"
    proof -
      have "upb_Array_SetTaggedPtr (h_mem h1) arr q lg2 = Ok m2"
        using m2(1) d(1) by (simp add: upb_Array_SetTaggedPtr_def arr_data_def tag_of_def lg2_ok_def Let_def)
      then show ?thesis using q(1) False c'(1) m3(1)
        by (simp add: upb_Array_Realloc_def array_header [OF r] Let_def arr_capacity_def d(8))
    qed
    ultimately show ?thesis using c'(2) by auto
  qed
qed

end

context sys_malloc begin

lemma Reserve_spec:
  assumes r: "array_rep used h A arr lg2 d cap xs" and n: "small_request lg2 n"
  shows "\<exists>ok h' d' cap'. upb_Array_Reserve f arr (of_nat n) h = Ok (ok, h') \<and>
    array_rep used h' A arr lg2 d' cap' xs \<and> others_kept A (h_mem h) (h_mem h') \<and>
    (if ok then n \<le> unat cap' else refused f h (max 4 (2 * n) * 2 ^ lg2))"
proof (cases "cap < of_nat n")
  case True
  then have "upb_Array_Reserve f arr (of_nat n) h = upb_Array_Realloc f arr (of_nat n) h"
    by (simp add: upb_Array_Reserve_def array_header [OF r])
  moreover have "max (max (unat cap) 4) (2 * n) = max 4 (2 * n)"
  proof -
    have "unat (of_nat n :: u64) = n" using small_request_le [OF n] by (intro unat_of_nat64) simp
    then have "unat cap < n" using True by (simp add: word_less_nat_alt del: unat_of_nat)
    then show ?thesis by simp
  qed
  ultimately show ?thesis using Array_Realloc_spec [OF r n] by (simp only:)
next
  case False
  have "unat (of_nat n :: u64) = n" using small_request_le [OF n] by (intro unat_of_nat64) simp
  then have "n \<le> unat cap" using False by (simp add: word_less_nat_alt del: unat_of_nat)
  moreover have "upb_Array_Reserve f arr (of_nat n) h = Ok (True, h)"
    using False by (simp add: upb_Array_Reserve_def array_header [OF r])
  ultimately show ?thesis using r by (intro exI [of _ True] exI [of _ h] exI [of _ d] exI [of _ cap]) simp
qed

lemma ResizeUninitialized_spec:
  assumes r: "array_rep used h A arr lg2 d cap xs" and n: "small_request lg2 n"
  shows "\<exists>ok h' d' cap' ys. upb_Array_ResizeUninitialized f arr (of_nat n) h = Ok (ok, h') \<and>
    array_rep used h' A arr lg2 d' cap' ys \<and> others_kept A (h_mem h) (h_mem h') \<and>
    (if ok then length ys = n \<and> take (min n (length xs)) ys = take (min n (length xs)) xs
     else ys = xs \<and> refused f h (max 4 (2 * n) * 2 ^ lg2))"
proof -
  obtain ok h1 d1 cap1 where h1: "upb_Array_Reserve f arr (of_nat n) h = Ok (ok, h1)"
    "array_rep used h1 A arr lg2 d1 cap1 xs" "others_kept A (h_mem h) (h_mem h1)"
    "if ok then n \<le> unat cap1 else refused f h (max 4 (2 * n) * 2 ^ lg2)"
    using Reserve_spec [OF assms] by blast
  show ?thesis
  proof (cases ok)
    case False
    then have "upb_Array_ResizeUninitialized f arr (of_nat n) h = Ok (False, h1)"
      using h1(1) by (simp add: upb_Array_ResizeUninitialized_def array_header [OF r])
    then show ?thesis using h1(2-4) False by (intro exI [of _ False] exI [of _ h1]) auto
  next
    case True
    then obtain m ys where m: "store64 (h_mem h1) (arr_size arr) (of_nat n) = Ok m"
      "array_rep used (h1\<lparr>h_mem := m\<rparr>) A arr lg2 d1 cap1 ys" "length ys = n"
      "take (min n (length xs)) ys = take (min n (length xs)) xs" "others_kept A (h_mem h1) m"
      using set_size_spec [OF h1(2), of n] h1(4) unfolding if_P [OF True] by blast
    have "upb_Array_ResizeUninitialized f arr (of_nat n) h = Ok (True, h1\<lparr>h_mem := m\<rparr>)"
      using h1(1) True m(1) by (simp add: upb_Array_ResizeUninitialized_def array_header [OF r])
    moreover have "others_kept A (h_mem h) (h_mem (h1\<lparr>h_mem := m\<rparr>))"
      using others_kept_trans [OF h1(3) m(5)] by simp
    ultimately show ?thesis using m(2-4) by (intro exI [of _ True] exI [of _ "h1\<lparr>h_mem := m\<rparr>"]) auto
  qed
qed

lemma Append_spec:
  assumes r: "array_rep used h A arr lg2 d cap xs" and n: "small_request lg2 (Suc (length xs))" and v: "2 ^ lg2 \<le> length v"
  shows "\<exists>ok h' d' cap'. upb_Array_Append f arr v h = Ok (ok, h') \<and> others_kept A (h_mem h) (h_mem h') \<and>
    array_rep used h' A arr lg2 d' cap' (if ok then xs @ [take (2 ^ lg2) v] else xs) \<and>
    (ok \<or> refused f h (max 4 (2 * Suc (length xs)) * 2 ^ lg2))"
proof -
  have sz: "of_nat (length xs) + 1 = (of_nat (Suc (length xs)) :: u64)" by simp
  obtain ok h1 d1 cap1 ys where h1: "upb_Array_ResizeUninitialized f arr (of_nat (Suc (length xs))) h = Ok (ok, h1)"
    "array_rep used h1 A arr lg2 d1 cap1 ys" "others_kept A (h_mem h) (h_mem h1)"
    "if ok then length ys = Suc (length xs) \<and> take (min (Suc (length xs)) (length xs)) ys = take (min (Suc (length xs)) (length xs)) xs
     else ys = xs \<and> refused f h (max 4 (2 * Suc (length xs)) * 2 ^ lg2)"
    using ResizeUninitialized_spec [OF r n] by blast
  show ?thesis
  proof (cases ok)
    case False
    then have "upb_Array_Append f arr v h = Ok (False, h1)"
      using h1(1) by (simp add: upb_Array_Append_def array_header [OF r] sz del: of_nat_Suc)
    then show ?thesis using h1 False by (intro exI [of _ False] exI [of _ h1]) auto
  next
    case True
    then have ys: "length ys = Suc (length xs)" "take (length xs) ys = xs" using h1(4) by (simp_all add: min_def)
    obtain m where m: "upb_Array_Set (h_mem h1) arr (of_nat (length xs)) v = Ok m"
      "array_rep used (h1\<lparr>h_mem := m\<rparr>) A arr lg2 d1 cap1 (ys[length xs := take (2 ^ lg2) v])" "others_kept A (h_mem h1) m"
      using Set_spec [OF h1(2) _ v, of "length xs"] ys(1) by auto
    have "ys[length xs := take (2 ^ lg2) v] = xs @ [take (2 ^ lg2) v]"
      using ys by (simp add: upd_conv_take_nth_drop)
    moreover have "upb_Array_Append f arr v h = Ok (True, h1\<lparr>h_mem := m\<rparr>)"
      using h1(1) True m(1) ys(1) array_header(7) [OF h1(2)]
      by (simp add: upb_Array_Append_def array_header [OF r] sz del: of_nat_Suc) simp
    moreover have "others_kept A (h_mem h) (h_mem (h1\<lparr>h_mem := m\<rparr>))"
      using others_kept_trans [OF h1(3) m(3)] by simp
    ultimately show ?thesis using m(2) by (intro exI [of _ True] exI [of _ "h1\<lparr>h_mem := m\<rparr>"]) auto
  qed
qed

end

section \<open>Moving elements\<close>

lemma Move_spec:
  assumes r: "array_rep used h A arr lg2 d cap xs" and b: "src + n \<le> length xs" "dst + n \<le> length xs"
  obtains m' where "upb_Array_Move (h_mem h) arr (of_nat dst) (of_nat src) (of_nat n) = Ok m'"
    "array_rep used (h\<lparr>h_mem := m'\<rparr>) A arr lg2 d cap (take dst xs @ take n (drop src xs) @ drop (dst + n) xs)"
    "others_kept A (h_mem h) m'"
proof -
  note d = array_repD [OF r]
  let ?e = "2 ^ lg2 :: nat"
  let ?cs = "concat (take n (drop src xs))"
  let ?ys = "take dst xs @ take n (drop src xs) @ drop (dst + n) xs"
  have le: "(src + n) * ?e \<le> length xs * ?e" "(dst + n) * ?e \<le> length xs * ?e" using b by (intro mult_le_mono1; simp)+
  have "n * ?e \<le> length xs * ?e" using b by (intro mult_le_mono1) simp
  also have "\<dots> \<le> 2 ^ 63" by (rule le_trans [OF mult_le_mono1 [OF d(3)] d(2)])
  finally have "n * ?e < 2 ^ 64" by simp
  then have nb: "unat (push_bit lg2 (of_nat n :: u64)) = n * ?e" unfolding push_of_nat by (rule unat_of_nat64)
  have lc: "length ?cs = n * ?e"
    using length_concat_elems [OF elems_parts(1) [OF elems_parts(2) [OF d(4)]], of n src] b by simp
  have "load (h_mem h) (d + of_nat (src * ?e)) (n * ?e) = Ok (take (n * ?e) (drop (src * ?e) (concat xs)))"
    using le(1) by (intro load_take_drop [OF d(9)]) (simp add: add_mult_distrib)
  moreover have "take (n * ?e) (drop (src * ?e) (concat xs)) = ?cs"
    by (simp only: drop_concat [OF d(4)] take_concat [OF elems_parts(2) [OF d(4)]])
  ultimately have l: "load (h_mem h) (d + push_bit lg2 (of_nat src)) (n * ?e) = Ok ?cs" by (simp only: push_of_nat)
  have w: "dst * ?e + length ?cs \<le> length xs * ?e" using le(2) lc by (simp add: add_mult_distrib)
  have y: "length ?ys = length xs" "elems ?e ?ys" using b elems_parts(1,2) [OF d(4)] elems_parts(1) by (auto simp: elems_parts d(4))
  have "concat ?ys = take (dst * ?e) (concat xs) @ ?cs @ drop (dst * ?e + length ?cs) (concat xs)"
    using take_concat [OF d(4), of dst] drop_concat [OF d(4), of "dst + n"] lc by (simp add: add_mult_distrib)
  then obtain m' where m': "store (h_mem h) (d + push_bit lg2 (of_nat dst)) ?cs = Ok m'"
    "array_rep used (h\<lparr>h_mem := m'\<rparr>) A arr lg2 d cap ?ys" "others_kept A (h_mem h) m'"
    using write_data_spec [OF r w y] by blast
  have "upb_Array_Move (h_mem h) arr (of_nat dst) (of_nat src) (of_nat n) = Ok m'"
    using m'(1) l nb by (simp add: upb_Array_Move_def array_header [OF r] del: unat_of_nat)
  then show thesis using that m'(2,3) by blast
qed

lemma Delete_spec:
  assumes r: "array_rep used h A arr lg2 d cap xs" and b: "i + n \<le> length xs"
  obtains m' where "upb_Array_Delete (h_mem h) arr (of_nat i) (of_nat n) = Ok m'"
    "array_rep used (h\<lparr>h_mem := m'\<rparr>) A arr lg2 d cap (take i xs @ drop (i + n) xs)" "others_kept A (h_mem h) m'"
proof -
  note d = array_repD [OF r]
  let ?k = "length xs - (i + n)"
  let ?zs = "take i xs @ take ?k (drop (i + n) xs) @ drop (i + ?k) xs"
  have x64: "length xs < 2 ^ 64" by (rule of_nat_less_array [OF r]) simp
  have sub: "(of_nat (length xs) :: u64) - of_nat (i + n) = of_nat ?k" "(of_nat (length xs) :: u64) - of_nat n = of_nat (length xs - n)"
    using b by (simp_all add: of_nat_diff)
  have cond: "(of_nat i :: u64) \<le> of_nat (i + n)" "(of_nat (i + n) :: u64) \<le> of_nat (length xs)"
    using b x64 by (subst of_nat_le64; simp)+
  obtain m1 where m1: "upb_Array_Move (h_mem h) arr (of_nat i) (of_nat (i + n)) (of_nat ?k) = Ok m1"
    "array_rep used (h\<lparr>h_mem := m1\<rparr>) A arr lg2 d cap ?zs" "others_kept A (h_mem h) m1"
    by (rule Move_spec [OF r, of "i + n" ?k i]) (use b in auto)
  have lz: "length ?zs = length xs" using b by simp
  have le: "length xs - n \<le> unat cap" using d(3) by simp
  obtain m2 ys where m2: "store64 m1 (arr_size arr) (of_nat (length xs - n)) = Ok m2"
    "array_rep used (h\<lparr>h_mem := m2\<rparr>) A arr lg2 d cap ys" "length ys = length xs - n"
    "take (min (length xs - n) (length ?zs)) ys = take (min (length xs - n) (length ?zs)) ?zs" "others_kept A m1 m2"
    using set_size_spec [OF m1(2) le] by auto
  have "ys = take i xs @ drop (i + n) xs"
  proof -
    have zs: "?zs = (take i xs @ drop (i + n) xs) @ drop (i + ?k) xs" by simp
    have l1: "length (take i xs @ drop (i + n) xs) = length xs - n" using b by simp
    have "take (length a) (a @ b) = a" for a b :: "bytes list" by simp
    then have tz: "take (length xs - n) ?zs = take i xs @ drop (i + n) xs" unfolding zs l1 [symmetric] .
    have "ys = take (length xs - n) ys" using m2(3) by simp
    also have "\<dots> = take (length xs - n) ?zs" using m2(4) unfolding lz min_absorb1 [OF diff_le_self] .
    also note tz
    finally show ?thesis .
  qed
  moreover have "upb_Array_Delete (h_mem h) arr (of_nat i) (of_nat n) = Ok m2"
  proof -
    have e: "(of_nat i :: u64) + of_nat n = of_nat (i + n)" by simp
    have h: "load64 m1 (arr_size arr) = Ok (of_nat (length xs))" using array_header(7) [OF m1(2)] unfolding lz by simp
    show ?thesis
      by (simp only: upb_Array_Delete_def array_header(5,7) [OF r] Let_def e cond cassert_True cbind.simps sub m1(1) h m2(1))
  qed
  ultimately show thesis using that m2(2) others_kept_trans [OF m1(3) m2(5)] by blast
qed

context sys_malloc begin

lemma Insert_spec:
  assumes r: "array_rep used h A arr lg2 d cap xs" and i: "i \<le> length xs" and n: "small_request lg2 (length xs + n)"
  shows "\<exists>ok h' d' cap' zs. upb_Array_Insert f arr (of_nat i) (of_nat n) h = Ok (ok, h') \<and>
    others_kept A (h_mem h) (h_mem h') \<and> array_rep used h' A arr lg2 d' cap' zs \<and>
    (if ok then length zs = length xs + n \<and> take i zs = take i xs \<and> drop (i + n) zs = drop i xs
     else zs = xs \<and> refused f h (max 4 (2 * (length xs + n)) * 2 ^ lg2))"
proof -
  have l62: "length xs + n \<le> 2 ^ 62" by (rule small_request_le [OF n])
  then have l64: "length xs + n < 2 ^ 64" by simp
  have cond: "(of_nat i :: u64) \<le> of_nat (length xs)" "(of_nat n :: u64) \<le> of_nat (n + length xs)"
    using i l64 by (subst of_nat_le64; simp)+
  have sz: "of_nat (length xs) + of_nat n = (of_nat (length xs + n) :: u64)"
    "of_nat n + of_nat (length xs) = (of_nat (n + length xs) :: u64)" by simp_all
  obtain ok h1 d1 cap1 ys where h1: "upb_Array_ResizeUninitialized f arr (of_nat (length xs + n)) h = Ok (ok, h1)"
    "array_rep used h1 A arr lg2 d1 cap1 ys" "others_kept A (h_mem h) (h_mem h1)"
    "if ok then length ys = length xs + n \<and> take (min (length xs + n) (length xs)) ys = take (min (length xs + n) (length xs)) xs
     else ys = xs \<and> refused f h (max 4 (2 * (length xs + n)) * 2 ^ lg2)"
    using ResizeUninitialized_spec [OF r n] by blast
  show ?thesis
  proof (cases ok)
    case False
    then have "upb_Array_Insert f arr (of_nat i) (of_nat n) h = Ok (False, h1)"
      using h1(1) cond by (simp add: upb_Array_Insert_def array_header [OF r] sz del: of_nat_add)
    then show ?thesis using h1 False by (intro exI [of _ False] exI [of _ h1]) auto
  next
    case True
    then have ys: "length ys = length xs + n" "take (length xs) ys = xs"
      using h1(4) unfolding min_absorb2 [OF le_add1] by simp_all
    let ?k = "length xs - i"
    let ?zs = "take (i + n) ys @ take ?k (drop i ys) @ drop (i + n + ?k) ys"
    obtain m where m: "upb_Array_Move (h_mem h1) arr (of_nat (i + n)) (of_nat i) (of_nat ?k) = Ok m"
      "array_rep used (h1\<lparr>h_mem := m\<rparr>) A arr lg2 d1 cap1 ?zs" "others_kept A (h_mem h1) m"
      by (rule Move_spec [OF h1(2), of i ?k "i + n"]) (use ys i in auto)
    have "take i ys = take i xs" using ys(2) i by (metis min.absorb1 take_take)
    moreover have "take ?k (drop i ys) = drop i xs" using ys(2) by (metis drop_take)
    ultimately have "length ?zs = length xs + n \<and> take i ?zs = take i xs \<and> drop (i + n) ?zs = drop i xs"
      using ys(1) i by simp
    moreover have "upb_Array_Insert f arr (of_nat i) (of_nat n) h = Ok (True, h1\<lparr>h_mem := m\<rparr>)"
    proof -
      have "(of_nat i :: u64) + of_nat n = of_nat (i + n)" "(of_nat (length xs) :: u64) - of_nat i = of_nat ?k"
        using i by (simp_all add: of_nat_diff)
      then show ?thesis using h1(1) True m(1) cond
        by (simp add: upb_Array_Insert_def array_header [OF r] sz del: of_nat_add of_nat_diff)
    qed
    moreover have "others_kept A (h_mem h) (h_mem (h1\<lparr>h_mem := m\<rparr>))"
      using others_kept_trans [OF h1(3) m(3)] by simp
    ultimately show ?thesis using m(2)
      by (intro exI [of _ True] exI [of _ "h1\<lparr>h_mem := m\<rparr>"] exI [of _ d1] exI [of _ cap1] exI [of _ ?zs])
        (simp only: if_True simp_thms)
  qed
qed

lemma Resize_spec:
  assumes r: "array_rep used h A arr lg2 d cap xs" and n: "small_request lg2 n"
  shows "\<exists>ok h' d' cap'. upb_Array_Resize f arr (of_nat n) h = Ok (ok, h') \<and>
    others_kept A (h_mem h) (h_mem h') \<and> array_rep used h' A arr lg2 d' cap'
      (if ok then take n xs @ replicate (n - length xs) (replicate (2 ^ lg2) 0) else xs) \<and>
    (ok \<or> refused f h (max 4 (2 * n) * 2 ^ lg2))"
proof -
  let ?e = "2 ^ lg2 :: nat"
  have n64: "n < 2 ^ 64" using small_request_le [OF n] by simp
  have x64: "length xs < 2 ^ 64" by (rule of_nat_less_array [OF r]) simp
  obtain ok h1 d1 cap1 ys where h1: "upb_Array_ResizeUninitialized f arr (of_nat n) h = Ok (ok, h1)"
    "array_rep used h1 A arr lg2 d1 cap1 ys" "others_kept A (h_mem h) (h_mem h1)"
    "if ok then length ys = n \<and> take (min n (length xs)) ys = take (min n (length xs)) xs
     else ys = xs \<and> refused f h (max 4 (2 * n) * 2 ^ lg2)"
    using ResizeUninitialized_spec [OF r n] by blast
  show ?thesis
  proof (cases ok)
    case False
    then have "upb_Array_Resize f arr (of_nat n) h = Ok (False, h1)"
      using h1(1) by (simp add: upb_Array_Resize_def array_header [OF r])
    then show ?thesis using h1 False by (intro exI [of _ False] exI [of _ h1]) auto
  next
    case True
    then have ys: "length ys = n" "take (min n (length xs)) ys = take (min n (length xs)) xs" using h1(4) by simp_all
    show ?thesis
    proof (cases "length xs < n")
      case False
      then have "\<not> (of_nat (length xs) :: u64) < of_nat n" using of_nat_less64 [OF x64 n64] by simp
      then have "upb_Array_Resize f arr (of_nat n) h = Ok (True, h1)"
        using h1(1) True ys(1) array_header(7) [OF h1(2)] by (simp add: upb_Array_Resize_def array_header [OF r] del: of_nat_less_iff)
      moreover have "ys = take n xs @ replicate (n - length xs) (replicate ?e 0)" using ys False by (simp add: min_def)
      ultimately show ?thesis using h1(2,3) by (intro exI [of _ True] exI [of _ h1]) auto
    next
      case lt: True
      then have gt: "(of_nat (length xs) :: u64) < of_nat n" using of_nat_less64 [OF x64 n64] by simp
      note d = array_repD [OF h1(2)]
      let ?j = "n - length xs"
      let ?cs = "replicate (?j * ?e) (0 :: u8)"
      let ?zs = "xs @ replicate ?j (replicate ?e 0)"
      have tx: "take (length xs) ys = xs" using ys lt by (simp add: min_def)
      have le: "?j * ?e + length xs * ?e = n * ?e" using lt by (simp add: add_mult_distrib [symmetric])
      have jb: "?j * ?e < 2 ^ 64"
      proof -
        have "?j * ?e \<le> n * ?e" by (intro mult_le_mono1) simp
        also have "\<dots> \<le> 2 ^ 62" using n by (simp add: small_request_def)
        finally show ?thesis by simp
      qed
      have "(of_nat n :: u64) - of_nat (length xs) = of_nat ?j" using lt by (simp add: of_nat_diff)
      then have nb: "unat (push_bit lg2 ((of_nat n :: u64) - of_nat (length xs))) = ?j * ?e"
        using unat_of_nat64 [OF jb] by (simp only: push_of_nat)
      have "concat (replicate k (replicate ?e (0 :: u8))) = replicate (k * ?e) 0" for k
        by (induction k) (simp_all add: replicate_add)
      then have cz: "concat ?zs = concat xs @ ?cs" by simp
      have ez: "elems ?e ?zs" using array_repD(4) [OF r] by (auto simp: elems_def)
      have lx: "length (concat xs) = length xs * ?e" by (rule length_concat_elems [OF array_repD(4) [OF r]])
      have ly: "length (concat ys) = n * ?e" using length_concat_elems [OF d(4)] ys(1) by simp
      have "take (length xs * ?e) (concat ys) = concat xs" by (simp only: take_concat [OF d(4)] tx)
      then have "concat ?zs = take (length xs * ?e) (concat ys) @ ?cs @ drop (length xs * ?e + length ?cs) (concat ys)"
        using cz ly le by simp
      then obtain m where m: "store (h_mem h1) (d1 + push_bit lg2 (of_nat (length xs))) ?cs = Ok m"
        "array_rep used (h1\<lparr>h_mem := m\<rparr>) A arr lg2 d1 cap1 ?zs" "others_kept A (h_mem h1) m"
        using write_data_spec [OF h1(2), of "length xs" ?cs ?zs] le ys(1) ez lt by auto
      have "upb_Array_Resize f arr (of_nat n) h = Ok (True, h1\<lparr>h_mem := m\<rparr>)"
        using h1(1) True ys(1) gt m(1) nb array_header [OF h1(2)]
        by (simp add: upb_Array_Resize_def array_header [OF r] del: of_nat_less_iff of_nat_diff)
      moreover have "others_kept A (h_mem h) (h_mem (h1\<lparr>h_mem := m\<rparr>))"
        using others_kept_trans [OF h1(3) m(3)] by simp
      ultimately show ?thesis using m(2) lt by (intro exI [of _ True] exI [of _ "h1\<lparr>h_mem := m\<rparr>"]) auto
    qed
  qed
qed

end

section \<open>New arrays\<close>

lemma arena_split:
  assumes ok: "arena_ok used h ((p, a + b) # A)" and a: "8 dvd a"
  shows "arena_ok used h ((p + of_nat a, b) # (p, a) # A)"
proof -
  have p: "alloc_ok h (p, a + b)" using ok by (simp add: arena_ok_def)
  then have b64: "unat p + (a + b) < 2 ^ 64" by (simp add: alloc_ok_def)
  then have "unat (of_nat a :: u64) = a" by (intro unat_of_nat64) simp
  then have u: "unat (p + of_nat a) = unat p + a" using b64 unat_plus64 [of p "of_nat a"] by simp
  have s: "range_of (p + of_nat a) b \<subseteq> range_of p (a + b)" "range_of p a \<subseteq> range_of p (a + b)"
    "range_of (p + of_nat a) b \<inter> range_of p a = {}"
    using u b64 by (auto simp: range_of_interval)
  have pz: "p \<noteq> 0" "p + of_nat a \<noteq> 0" using p u by (auto simp: alloc_ok_def unat_eq_0 [symmetric])
  have "alloc_ok h (p + of_nat a, b)" "alloc_ok h (p, a)"
    using p s u a pz b64 by (auto simp: alloc_ok_def intro: mapped_mono)
  moreover have "range_of (fst x) (snd x) \<inter> range_of p (a + b) = {}" if "x \<in> set A" for x
    using ok that by (auto simp: arena_ok_def)
  then have "range_of (p + of_nat a) b \<inter> range_of (fst x) (snd x) = {}" "range_of p a \<inter> range_of (fst x) (snd x) = {}"
    if "x \<in> set A" for x using that s by blast+
  ultimately show ?thesis using ok s(3) by (simp add: arena_ok_def)
qed

context sys_malloc begin

lemma New_spec:
  assumes ok: "arena_ok used h A" and l: "lg2_ok lg2" and c: "unat c * 2 ^ lg2 \<le> 2 ^ 62"
  shows "\<exists>arr h'. upb_Array_New_lg2 f c lg2 h = Ok (arr, h') \<and> others_kept A (h_mem h) (h_mem h') \<and>
    (if arr = 0 then arena_ok used h' A else array_rep used h' A arr lg2 (arr + 24) c [])"
proof -
  let ?e = "2 ^ lg2 :: nat"
  let ?b = "24 + push_bit lg2 c"
  have a24: "UPB_ALIGN_MALLOC 24 = 24" by (simp add: UPB_ALIGN_MALLOC_def)
  have ub: "unat (push_bit lg2 c) = unat c * ?e" by (rule bytes_unat [OF l le_less_trans [OF c]]) simp
  have u: "unat ?b = 24 + unat c * ?e" using ub c by (subst unat_plus64) simp_all
  then have b: "?b \<noteq> 0" "unat ?b \<le> 2 ^ 64 - 40" using c by (auto simp: unat_eq_0 [symmetric])
  have al: "unat (UPB_ALIGN_MALLOC ?b) = 24 + unat (UPB_ALIGN_MALLOC (push_bit lg2 c))"
  proof -
    have "(31 + x) div 8 * 8 = 24 + (x + 7) div 8 * 8" for x :: nat by presburger
    then show ?thesis using u ub c by (subst (1 2) align_unat) simp_all
  qed
  obtain arr h1 where m: "upb_Arena_Malloc f ?b h = Ok (arr, h1)" "keeps h h1"
    "arena_ok used h1 (if arr = 0 then A else (arr, unat (UPB_ALIGN_MALLOC ?b)) # A)" by (rule Malloc_spec [OF ok b])
  have kept: "others_kept A (h_mem h) (h_mem h1)"
  proof -
    have "h_mem h a \<noteq> None" if "x \<in> set A" "a \<in> range_of (fst x) (snd x)" for x a
      using ok that by (auto simp: arena_ok_def alloc_ok_def mapped_def)
    then show ?thesis using m(2) by (simp add: others_kept_def keeps_def)
  qed
  show ?thesis
  proof (cases "arr = 0")
    case True
    then have "upb_Array_New_lg2 f c lg2 h = Ok (0, h1)" using m(1) l by (simp add: upb_Array_New_lg2_def lg2_ok_def a24 Let_def)
    then show ?thesis using kept m(3) True by auto
  next
    case False
    let ?n = "unat (UPB_ALIGN_MALLOC (push_bit lg2 c))"
    have "arena_ok used h1 ((arr, 24 + ?n) # A)" using m(3) False al by simp
    from arena_split [OF this] have ok1: "arena_ok used h1 ((arr + 24, ?n) # (arr, 24) # A)" by simp
    obtain m2 where m2: "store64 (h_mem h1) (arr + 0) ((arr + 24) OR tag_of lg2) = Ok m2" "load64 m2 (arr + 0) = Ok ((arr + 24) OR tag_of lg2)"
      "arena_ok used (h1\<lparr>h_mem := m2\<rparr>) ((arr + 24, ?n) # (arr, 24) # A)" "\<And>a. a \<notin> range_of (arr + 0) 8 \<Longrightarrow> m2 a = h_mem h1 a"
      "others_kept A (h_mem h1) m2" by (rule header_store [OF ok1, of "arr + 0"]) auto
    obtain m3 where m3: "store64 m2 (arr + 8) 0 = Ok m3" "load64 m3 (arr + 8) = Ok 0"
      "arena_ok used (h1\<lparr>h_mem := m3\<rparr>) ((arr + 24, ?n) # (arr, 24) # A)" "\<And>a. a \<notin> range_of (arr + 8) 8 \<Longrightarrow> m3 a = m2 a"
      "others_kept A m2 m3" using header_store [OF m2(3), of "arr + 8" 0] by auto
    obtain m4 where m4: "store64 m3 (arr + 16) c = Ok m4" "load64 m4 (arr + 16) = Ok c"
      "arena_ok used (h1\<lparr>h_mem := m4\<rparr>) ((arr + 24, ?n) # (arr, 24) # A)" "\<And>a. a \<notin> range_of (arr + 16) 8 \<Longrightarrow> m4 a = m3 a"
      "others_kept A m3 m4" using header_store [OF m3(3), of "arr + 16" c] by auto
    have "load64 m4 (arr + 0) = load64 m3 (arr + 0)" "load64 m3 (arr + 0) = load64 m2 (arr + 0)" "load64 m4 (arr + 8) = load64 m3 (arr + 8)"
      using m4(4) m3(4) word_parts(1-3) [of arr] by (intro load64_frame; blast)+
    then have "array_rep used (h1\<lparr>h_mem := m4\<rparr>) A arr lg2 (arr + 24) c []"
      using l c m4(2,3) m3(2) m2(2) by (simp add: array_rep_def load_def all_mapped_def)
    moreover have "upb_Array_New_lg2 f c lg2 h = Ok (arr, h1\<lparr>h_mem := m4\<rparr>)"
    proof -
      have "upb_Array_SetTaggedPtr (h_mem h1) arr (arr + 24) lg2 = Ok m2"
        using m2(1) l by (simp add: upb_Array_SetTaggedPtr_def arr_data_def tag_of_def lg2_ok_def Let_def)
      then show ?thesis using m(1) False l m3(1) m4(1)
        by (simp add: upb_Array_New_lg2_def lg2_ok_def a24 Let_def arr_size_def arr_capacity_def)
    qed
    moreover have "others_kept A (h_mem h) m4"
      by (rule others_kept_trans [OF kept others_kept_trans [OF m2(5) others_kept_trans [OF m3(5) m4(5)]]])
    ultimately show ?thesis using False by auto
  qed
qed

end

section \<open>Capacities that overflow\<close>

lemma unat_pow2: "j < 64 \<Longrightarrow> unat (2 ^ j :: u64) = 2 ^ j"
proof -
  assume "j < 64"
  then have "(2 :: nat) ^ j < 2 ^ 64" by (rule power_strict_increasing) simp
  then have "unat (of_nat (2 ^ j) :: u64) = 2 ^ j" by (rule unat_of_nat64)
  then show ?thesis by simp
qed

lemma power_double: "j \<le> k \<Longrightarrow> k \<le> 63 \<Longrightarrow> double_capacity (2 ^ j) (2 ^ k) = Some (2 ^ k)"
proof (induction "k - j" arbitrary: j)
  case 0
  then show ?case by (subst double_capacity.simps) simp
next
  case (Suc n)
  have "unat (2 ^ j :: u64) = 2 ^ j" "unat (2 ^ k :: u64) = 2 ^ k"
    using Suc.hyps(2) Suc.prems by (simp_all add: unat_pow2)
  then have "(2 ^ j :: u64) < 2 ^ k" using Suc by (simp add: word_less_nat_alt)
  moreover have "(2 ^ j :: u64) * 2 = 2 ^ Suc j" by simp
  moreover have "double_capacity (2 ^ Suc j) (2 ^ k) = Some (2 ^ k)" using Suc by (intro Suc.hyps) simp_all
  ultimately show ?case by (subst double_capacity.simps) (simp only: if_True)
qed

lemma unat_power_le: "unat (2 ^ j :: u64) \<le> 2 ^ 63"
proof (cases "j < 64")
  case True
  then have "unat (2 ^ j :: u64) = 2 ^ j" by (rule unat_pow2)
  moreover have "(2 :: nat) ^ j \<le> 2 ^ 63" using True by (intro power_increasing) simp_all
  ultimately show ?thesis by (simp only:)
next
  case False
  have p: "(2 ^ 64 :: u64) = 0" by simp
  have "(2 ^ j :: u64) = 2 ^ 64 * 2 ^ (j - 64)" using False by (metis le_add_diff_inverse not_less power_add)
  then have "(2 ^ j :: u64) = 0" by (simp only: p mult_zero_left)
  then have "unat (2 ^ j :: u64) = 0" by (simp only: unat_0)
  then show ?thesis by (simp only: le0)
qed

lemma double_capacity_Some:
  assumes "double_capacity c m = Some c'"
  shows "(\<exists>j. c = 2 ^ j) \<longrightarrow> (\<exists>j. c' = 2 ^ j) \<and> m \<le> c'"
proof (rule double_capacity.raw_induct [OF _ assms])
  fix dc :: "u64 \<Rightarrow> u64 \<Rightarrow> u64 option" and c m c' :: u64
  assume ih: "\<And>c m c'. dc c m = Some c' \<Longrightarrow> (\<exists>j. c = 2 ^ j) \<longrightarrow> (\<exists>j. c' = 2 ^ j) \<and> m \<le> c'"
    and r: "(if c < m then dc (c * 2) m else Some c) = Some c'"
  show "(\<exists>j. c = 2 ^ j) \<longrightarrow> (\<exists>j. c' = 2 ^ j) \<and> m \<le> c'"
  proof (cases "c < m")
    case True
    then have "dc (c * 2) m = Some c'" using r by simp
    then have "(\<exists>j. c * 2 = 2 ^ j) \<longrightarrow> (\<exists>j. c' = 2 ^ j) \<and> m \<le> c'" by (rule ih)
    moreover have "\<exists>i. 2 ^ j * 2 = (2 ^ i :: u64)" for j by (rule exI [of _ "Suc j"]) simp
    ultimately show ?thesis by blast
  next
    case False
    then show ?thesis using r by auto
  qed
qed

lemma double_capacity_None: "2 ^ 63 < unat m \<Longrightarrow> double_capacity (2 ^ j) m = None"
proof (rule ccontr)
  assume m: "2 ^ 63 < unat m" and "double_capacity (2 ^ j) m \<noteq> None"
  then obtain c' where "double_capacity (2 ^ j) m = Some c'" by blast
  then obtain i where "m \<le> 2 ^ i" using double_capacity_Some by blast
  then have "unat m \<le> 2 ^ 63" using unat_power_le [of i] by (simp add: word_le_nat_alt)
  then show False using m by simp
qed

section \<open>Properties\<close>

text \<open>C32: A repeated field in memory refines a list of elements of 1, 4, 8 or 16 bytes (\<open>array_rep\<close>; the array
  is not frozen). \<open>upb_Array_Get\<close> reads and \<open>upb_Array_Set\<close> replaces the element at any index in the list;
  \<open>upb_Array_Append\<close>, \<open>upb_Array_Insert\<close> at any index up to the end, and \<open>upb_Array_Resize\<close> either succeed
  with the new list, growing or moving the data as needed, or, when the arena refuses at most twice the
  bytes of the new list or four elements (\<open>refused\<close>), leave the list as it is; \<open>upb_Array_Delete\<close> closes the
  gap of any part of the list. The list can be empty. None of these calls is undefined, and the other
  allocations of the arena keep their bytes. The old elements, the new ones and one more must take at
  most \<open>2 ^ 62\<close> bytes (\<open>small_request\<close>; beyond that capacity and byte count can wrap around), and an
  arena that has an initial block must have an allocator.\<close>

theorem array_refines_list:
  assumes "sys_malloc f used" "array_rep used h A arr lg2 d cap xs"
    and "2 ^ lg2 \<le> length v" "small_request lg2 (Suc (length xs + n))"
  shows "(i < length xs \<longrightarrow> upb_Array_Get (h_mem h) arr (of_nat i) = Ok (xs ! i) \<and>
      (\<exists>m. upb_Array_Set (h_mem h) arr (of_nat i) v = Ok m \<and> others_kept A (h_mem h) m \<and>
         array_rep used (h\<lparr>h_mem := m\<rparr>) A arr lg2 d cap (xs[i := take (2 ^ lg2) v]))) \<and>
    (\<exists>ok h' d' cap'. upb_Array_Append f arr v h = Ok (ok, h') \<and> others_kept A (h_mem h) (h_mem h') \<and>
       array_rep used h' A arr lg2 d' cap' (if ok then xs @ [take (2 ^ lg2) v] else xs) \<and>
       (ok \<or> refused f h (max 4 (2 * Suc (length xs)) * 2 ^ lg2))) \<and>
    (i \<le> length xs \<longrightarrow> (\<exists>ok h' d' cap' zs. upb_Array_Insert f arr (of_nat i) (of_nat n) h = Ok (ok, h') \<and>
       others_kept A (h_mem h) (h_mem h') \<and> array_rep used h' A arr lg2 d' cap' zs \<and>
       (if ok then length zs = length xs + n \<and> take i zs = take i xs \<and> drop (i + n) zs = drop i xs
        else zs = xs \<and> refused f h (max 4 (2 * (length xs + n)) * 2 ^ lg2)))) \<and>
    (i + k \<le> length xs \<longrightarrow>
      (\<exists>m. upb_Array_Delete (h_mem h) arr (of_nat i) (of_nat k) = Ok m \<and> others_kept A (h_mem h) m \<and>
         array_rep used (h\<lparr>h_mem := m\<rparr>) A arr lg2 d cap (take i xs @ drop (i + k) xs))) \<and>
    (\<exists>ok h' d' cap'. upb_Array_Resize f arr (of_nat n) h = Ok (ok, h') \<and> others_kept A (h_mem h) (h_mem h') \<and>
       array_rep used h' A arr lg2 d' cap'
         (if ok then take n xs @ replicate (n - length xs) (replicate (2 ^ lg2) 0) else xs) \<and>
       (ok \<or> refused f h (max 4 (2 * n) * 2 ^ lg2)))"
proof (intro conjI impI)
  have small: "small_request lg2 j" if "j \<le> Suc (length xs + n)" for j
    using assms(4) mult_le_mono1 [OF that, of "2 ^ lg2"] unfolding small_request_def by (rule le_trans [rotated])
  note sm = assms(1) and r = assms(2)
  show "upb_Array_Get (h_mem h) arr (of_nat i) = Ok (xs ! i)" if "i < length xs" by (rule Get_spec [OF r that])
  show "\<exists>m. upb_Array_Set (h_mem h) arr (of_nat i) v = Ok m \<and> others_kept A (h_mem h) m \<and>
       array_rep used (h\<lparr>h_mem := m\<rparr>) A arr lg2 d cap (xs[i := take (2 ^ lg2) v])" if "i < length xs"
    using Set_spec [OF r that assms(3)] by blast
  show "\<exists>ok h' d' cap'. upb_Array_Append f arr v h = Ok (ok, h') \<and> others_kept A (h_mem h) (h_mem h') \<and>
       array_rep used h' A arr lg2 d' cap' (if ok then xs @ [take (2 ^ lg2) v] else xs) \<and>
       (ok \<or> refused f h (max 4 (2 * Suc (length xs)) * 2 ^ lg2))"
    by (rule sys_malloc.Append_spec [OF sm r small assms(3)]) simp
  show "\<exists>ok h' d' cap' zs. upb_Array_Insert f arr (of_nat i) (of_nat n) h = Ok (ok, h') \<and>
       others_kept A (h_mem h) (h_mem h') \<and> array_rep used h' A arr lg2 d' cap' zs \<and>
       (if ok then length zs = length xs + n \<and> take i zs = take i xs \<and> drop (i + n) zs = drop i xs
        else zs = xs \<and> refused f h (max 4 (2 * (length xs + n)) * 2 ^ lg2))"
    if "i \<le> length xs" by (rule sys_malloc.Insert_spec [OF sm r that small]) simp
  show "\<exists>m. upb_Array_Delete (h_mem h) arr (of_nat i) (of_nat k) = Ok m \<and> others_kept A (h_mem h) m \<and>
       array_rep used (h\<lparr>h_mem := m\<rparr>) A arr lg2 d cap (take i xs @ drop (i + k) xs)" if "i + k \<le> length xs"
    using Delete_spec [OF r that] by blast
  show "\<exists>ok h' d' cap'. upb_Array_Resize f arr (of_nat n) h = Ok (ok, h') \<and> others_kept A (h_mem h) (h_mem h') \<and>
       array_rep used h' A arr lg2 d' cap'
         (if ok then take n xs @ replicate (n - length xs) (replicate (2 ^ lg2) 0) else xs) \<and>
       (ok \<or> refused f h (max 4 (2 * n) * 2 ^ lg2))"
    by (rule sys_malloc.Resize_spec [OF sm r small]) simp
qed

definition small_arena :: "u64 heap" where
  "small_arena =
     (no_arena (\<lambda>a. if unat (a - 4096) < 1000 then Some 7 else None) 8192 32768)
       \<lparr>a_ptr := 4120, a_end := 5096, a_has_alloc := True\<rparr>"

lemma small_arena_ok: "arena_ok below small_arena []"
proof -
  have m: "(if unat (a - 4096) < 1000 then Some 7 else None) =
      (if 4096 \<le> unat a \<and> unat a < 5096 then Some (7 :: u8) else None)" for a :: u64
    using range_of_interval [of 4096 1000 a] by (simp add: range_of_def)
  show ?thesis
    unfolding arena_ok_def small_arena_def no_arena_def m
    by (auto simp: free_bytes_def mapped_def range_of_interval below_def split: if_splits)
qed

lemma small_array: "\<exists>h. array_rep below h [] 4120 3 4144 4 []"
proof -
  obtain arr h' where n: "upb_Array_New_lg2 bump_sys 4 3 small_arena = Ok (arr, h')"
    "if arr = 0 then arena_ok below h' [] else array_rep below h' [] arr 3 (arr + 24) 4 []"
    using bump.New_spec [OF small_arena_ok, of 3 4] by (auto simp: lg2_ok_def)
  have "upb_Arena_Malloc bump_sys 56 small_arena = Ok (4120, small_arena\<lparr>a_ptr := 4176\<rparr>)"
    by (simp add: upb_Arena_Malloc_def UPB_ALIGN_MALLOC_def upb_ArenaHas_def arena_bump_def small_arena_def)
  then have "arr = 4120" using n(1)
    by (auto simp: upb_Array_New_lg2_def UPB_ALIGN_MALLOC_def cbind_Ok_iff cassert_Ok_iff Let_def)
  then show ?thesis using n(2) by auto
qed

text \<open>Two elements are inserted at the end of an empty array.\<close>

theorem array_refines_list_witness:
  "\<exists>h h' d' cap' ok zs. array_rep below h [] 4120 3 4144 4 [] \<and>
     upb_Array_Insert bump_sys 4120 0 2 h = Ok (ok, h') \<and>
     array_rep below h' [] 4120 3 d' cap' zs \<and> length zs = (if ok then 2 else 0)"
proof -
  obtain h where h: "array_rep below h [] 4120 3 4144 4 []" using small_array by blast
  have "\<exists>ok h' d' cap' zs. upb_Array_Insert bump_sys 4120 0 2 h = Ok (ok, h') \<and>
       others_kept [] (h_mem h) (h_mem h') \<and> array_rep below h' [] 4120 3 d' cap' zs \<and>
       (if ok then length zs = length ([] :: bytes list) + 2 \<and> take 0 zs = take 0 [] \<and> drop (0 + 2) zs = drop 0 []
        else zs = [] \<and> refused bump_sys h (max 4 (2 * (length ([] :: bytes list) + 2)) * 2 ^ 3))"
    using array_refines_list [OF bump.sys_malloc_axioms h, of "replicate 16 9" 2 0 0] by (simp add: small_request_def)
  then show ?thesis using h by fastforce
qed

text \<open>The growth of an array does not check for overflow. A request for more than \<open>2 ^ 63\<close> elements makes
  the doubling of the capacity wrap to zero and loop for ever. A request for \<open>2 ^ 61\<close> elements of 8 bytes
  makes the number of bytes wrap to zero: the call succeeds, the recorded capacity is \<open>2 ^ 61\<close>, and the data
  is still the old memory, of which the arena may even have taken a part back.\<close>

theorem array_growth_overflows:
  assumes "array_rep used h A arr 3 d 4 xs"
  shows "(\<forall>m. 2 ^ 63 < unat m \<longrightarrow> double_capacity 4 m = None \<and> upb_Array_Reserve f arr m h = UB) \<and>
    (\<exists>h'. upb_Array_Reserve f arr (2 ^ 61) h = Ok (True, h') \<and> upb_Array_DataPtr (h_mem h') arr = Ok d \<and>
       load64 (h_mem h') (arr_capacity arr) = Ok (2 ^ 61) \<and> unat (a_ptr h') \<le> unat (a_ptr h))"
proof (intro conjI allI impI)
  note d = array_repD [OF assms]
  fix m :: u64 assume m: "2 ^ 63 < unat m"
  then show 1: "double_capacity 4 m = None" using double_capacity_None [of m 2] by simp
  have "4 < m" using m by (simp add: word_less_nat_alt)
  then show "upb_Array_Reserve f arr m h = UB"
    using 1 by (simp add: upb_Array_Reserve_def upb_Array_Realloc_def array_header [OF assms] Let_def)
next
  note d = array_repD [OF assms]
  let ?h = "if d + 32 = a_ptr h then h\<lparr>a_ptr := d\<rparr> else h"
  have dc: "double_capacity 4 (2 ^ 61) = Some (2 ^ 61)" using power_double [of 2 61] by simp
  have b: "push_bit 3 (4 :: u64) = 32" "push_bit 3 (2 ^ 61 :: u64) = 0" by simp_all
  have z: "(18446744073709551616 :: u64) = 0" by simp
  have al: "UPB_ALIGN_MALLOC 32 = 32" "UPB_ALIGN_MALLOC 0 = 0" by (simp_all add: UPB_ALIGN_MALLOC_def)
  have re: "upb_Arena_Realloc f d 32 0 h = Ok (d, ?h)"
    using d(11) by (simp add: Realloc_cases upb_Arena_ShrinkLast_def al Let_def word_less_nat_alt)
  have re': "upb_Arena_Realloc f d 32 18446744073709551616 h = Ok (d, ?h)" by (subst z) (rule re)
  let ?n = "unat (UPB_ALIGN_MALLOC (push_bit 3 (4 :: u64)))"
  obtain m2 where m2: "store64 (h_mem h) (arr + 0) (d OR tag_of 3) = Ok m2" "load64 m2 (arr + 0) = Ok (d OR tag_of 3)"
    "arena_ok used (h\<lparr>h_mem := m2\<rparr>) ((d, ?n) # (arr, 24) # A)" "\<And>a. a \<notin> range_of (arr + 0) 8 \<Longrightarrow> m2 a = h_mem h a"
    "others_kept A (h_mem h) m2" by (rule header_store [OF d(5), of "arr + 0" "d OR tag_of 3"]) auto
  obtain m3 where m3: "store64 m2 (arr + 16) (2 ^ 61) = Ok m3" "load64 m3 (arr + 16) = Ok (2 ^ 61)"
    "arena_ok used (h\<lparr>h_mem := m3\<rparr>) ((d, ?n) # (arr, 24) # A)" "\<And>a. a \<notin> range_of (arr + 16) 8 \<Longrightarrow> m3 a = m2 a"
    "others_kept A m2 m3" using header_store [OF m2(3), of "arr + 16" "2 ^ 61"] by auto
  have "load64 m3 (arr + 0) = load64 m2 (arr + 0)" using m3(4) word_parts(2) [of arr] by (intro load64_frame) blast
  then have l: "load64 m3 arr = Ok (d OR tag_of 3)" using m2(2) by simp
  have "upb_Array_SetTaggedPtr (h_mem h) arr d 3 = Ok m2"
    using m2(1) by (simp add: upb_Array_SetTaggedPtr_def arr_data_def tag_of_def)
  then have "upb_Array_Reserve f arr (2 ^ 61) h = Ok (True, ?h\<lparr>h_mem := m3\<rparr>)"
    using m3(1) re' dc b d(8) d(11)
    by (simp add: upb_Array_Reserve_def upb_Array_Realloc_def array_header [OF assms] arr_capacity_def Let_def)
  moreover have "upb_Array_DataPtr m3 arr = Ok d" by (rule header_reads(3) [OF l d(10,1)])
  moreover have "unat (a_ptr ?h) \<le> unat (a_ptr h)"
  proof (cases "d + 32 = a_ptr h")
    case True
    have "alloc_ok h (d, 32)" using d(5) al(1) by (simp add: arena_ok_def)
    then have "unat (a_ptr h) = unat d + 32" using unat_plus64 [of d 32] True by (simp add: alloc_ok_def)
    then show ?thesis by simp
  qed simp
  ultimately show "\<exists>h'. upb_Array_Reserve f arr (2 ^ 61) h = Ok (True, h') \<and> upb_Array_DataPtr (h_mem h') arr = Ok d \<and>
       load64 (h_mem h') (arr_capacity arr) = Ok (2 ^ 61) \<and> unat (a_ptr h') \<le> unat (a_ptr h)"
    using m3(2) by (intro exI [of _ "?h\<lparr>h_mem := m3\<rparr>"]) (simp add: arr_capacity_def)
qed

theorem array_growth_overflows_witness:
  "\<exists>h h'. array_rep below h [] 4120 3 4144 4 [] \<and> upb_Array_Reserve bump_sys 4120 (2 ^ 61) h = Ok (True, h') \<and>
     load64 (h_mem h') (arr_capacity 4120) = Ok (2 ^ 61)"
proof -
  obtain h where "array_rep below h [] 4120 3 4144 4 []" using small_array by blast
  with array_growth_overflows [OF this, of bump_sys] show ?thesis by blast
qed

end
