(* ===== verification/ArenaFuse.thy ===== *)
theory ArenaFuse
  imports Memory "HOL-Library.Monad_Syntax"
begin

text \<open>
  The part of \<open>upb/mem/arena.c\<close> that shares the lifetime of arenas: fusing, reference counts, freeing. The
  operations are modelled as one thread sees them: an atomic load, store or compare-exchange is an access of
  the state, and a weak compare-exchange fails only when the value differs. \<open>None\<close> stands for undefined
  behaviour (a node that is not there, a failed assertion) and for a loop that does not end.
\<close>

section \<open>Nodes and tagged words\<close>

record upb_ArenaInternal =
  parent_or_count :: u64
  arena_next :: u64
  previous_or_tail :: u64
  block_alloc :: u64
  space_allocated :: u64

type_synonym arenas = "u64 \<Rightarrow> upb_ArenaInternal option"

definition UPB_ASSERT :: "bool \<Rightarrow> unit option" where
  "UPB_ASSERT b = (if b then Some () else None)"

definition upb_Arena_IsTaggedRefcount :: "u64 \<Rightarrow> bool" where
  "upb_Arena_IsTaggedRefcount poc = (poc AND 1 = 1)"

definition upb_Arena_IsTaggedPointer :: "u64 \<Rightarrow> bool" where
  "upb_Arena_IsTaggedPointer poc = (poc AND 1 = 0)"

definition upb_Arena_RefCountFromTagged :: "u64 \<Rightarrow> u64 option" where
  "upb_Arena_RefCountFromTagged poc =
     do { UPB_ASSERT (upb_Arena_IsTaggedRefcount poc); Some (drop_bit 1 poc) }"

definition upb_Arena_TaggedFromRefcount :: "u64 \<Rightarrow> u64 option" where
  "upb_Arena_TaggedFromRefcount refcount =
     (let poc = push_bit 1 refcount OR 1 in
      do { UPB_ASSERT (upb_Arena_IsTaggedRefcount poc); Some poc })"

definition upb_Arena_PointerFromTagged :: "u64 \<Rightarrow> u64 option" where
  "upb_Arena_PointerFromTagged poc =
     do { UPB_ASSERT (upb_Arena_IsTaggedPointer poc); Some poc }"

definition upb_Arena_TaggedFromPointer :: "u64 \<Rightarrow> u64 option" where
  "upb_Arena_TaggedFromPointer ai = do { UPB_ASSERT (upb_Arena_IsTaggedPointer ai); Some ai }"

definition upb_Arena_IsTaggedTail :: "u64 \<Rightarrow> bool" where
  "upb_Arena_IsTaggedTail pot = (pot AND 1 = 1)"

definition upb_Arena_IsTaggedPrevious :: "u64 \<Rightarrow> bool" where
  "upb_Arena_IsTaggedPrevious pot = (pot AND 1 = 0)"

definition upb_Arena_TailFromTagged :: "u64 \<Rightarrow> u64 option" where
  "upb_Arena_TailFromTagged pot =
     do { UPB_ASSERT (upb_Arena_IsTaggedTail pot); Some (pot XOR 1) }"

definition upb_Arena_TaggedFromTail :: "u64 \<Rightarrow> u64 option" where
  "upb_Arena_TaggedFromTail tail =
     (let pot = tail OR 1 in
      do { UPB_ASSERT (upb_Arena_IsTaggedTail pot); Some pot })"

definition upb_Arena_PreviousFromTagged :: "u64 \<Rightarrow> u64 option" where
  "upb_Arena_PreviousFromTagged pot =
     do { UPB_ASSERT (upb_Arena_IsTaggedPrevious pot); Some pot }"

definition upb_Arena_TaggedFromPrevious :: "u64 \<Rightarrow> u64 option" where
  "upb_Arena_TaggedFromPrevious ai =
     do { UPB_ASSERT (upb_Arena_IsTaggedPrevious ai); Some ai }"

definition upb_ArenaInternal_BlockAlloc :: "upb_ArenaInternal \<Rightarrow> u64" where
  "upb_ArenaInternal_BlockAlloc ai = block_alloc ai AND NOT 1"

definition upb_Arena_MakeBlockAlloc :: "u64 \<Rightarrow> bool \<Rightarrow> u64 option" where
  "upb_Arena_MakeBlockAlloc alloc has_initial =
     do { UPB_ASSERT (alloc AND 1 = 0); Some (alloc OR (if has_initial then 1 else 0)) }"

definition upb_ArenaInternal_HasInitialBlock :: "upb_ArenaInternal \<Rightarrow> bool" where
  "upb_ArenaInternal_HasInitialBlock ai = (block_alloc ai AND 1 \<noteq> 0)"

text \<open>A new node, as both initialisation functions write it.\<close>

definition new_arena :: "u64 \<Rightarrow> u64 \<Rightarrow> bool \<Rightarrow> u64 \<Rightarrow> upb_ArenaInternal option" where
  "new_arena ai alloc has_initial space =
     do { poc \<leftarrow> upb_Arena_TaggedFromRefcount 1;
          pot \<leftarrow> upb_Arena_TaggedFromTail ai;
          ba \<leftarrow> upb_Arena_MakeBlockAlloc alloc has_initial;
          Some \<lparr>parent_or_count = poc, arena_next = 0, previous_or_tail = pot, block_alloc = ba,
                space_allocated = space\<rparr> }"

text \<open>Stores, and a compare-exchange: whether it succeeded, and the state.\<close>

definition set_poc :: "u64 \<Rightarrow> u64 \<Rightarrow> arenas \<Rightarrow> arenas option" where
  "set_poc ai x s = do { n \<leftarrow> s ai; Some (s(ai \<mapsto> n\<lparr>parent_or_count := x\<rparr>)) }"

definition set_next :: "u64 \<Rightarrow> u64 \<Rightarrow> arenas \<Rightarrow> arenas option" where
  "set_next ai x s = do { n \<leftarrow> s ai; Some (s(ai \<mapsto> n\<lparr>arena_next := x\<rparr>)) }"

definition set_pot :: "u64 \<Rightarrow> u64 \<Rightarrow> arenas \<Rightarrow> arenas option" where
  "set_pot ai x s = do { n \<leftarrow> s ai; Some (s(ai \<mapsto> n\<lparr>previous_or_tail := x\<rparr>)) }"

definition cas_poc :: "u64 \<Rightarrow> u64 \<Rightarrow> u64 \<Rightarrow> arenas \<Rightarrow> (bool \<times> arenas) option" where
  "cas_poc ai expected x s =
     do { n \<leftarrow> s ai;
          if parent_or_count n = expected then do { s' \<leftarrow> set_poc ai x s; Some (True, s') }
          else Some (False, s) }"

section \<open>Finding the root\<close>

partial_function (option) find_root_loop :: "u64 \<Rightarrow> u64 \<Rightarrow> arenas \<Rightarrow> ((u64 \<times> u64) \<times> arenas) option" where
  "find_root_loop ai poc s =
     do { next \<leftarrow> upb_Arena_PointerFromTagged poc;
          UPB_ASSERT (ai \<noteq> next);
          n \<leftarrow> s next;
          let poc = parent_or_count n;
          if upb_Arena_IsTaggedPointer poc then
            do { p \<leftarrow> upb_Arena_PointerFromTagged poc;
                 UPB_ASSERT (ai \<noteq> p);
                 s \<leftarrow> set_poc ai poc s;
                 find_root_loop next poc s }
          else Some ((next, poc), s) }"

definition upb_Arena_FindRoot :: "u64 \<Rightarrow> arenas \<Rightarrow> ((u64 \<times> u64) \<times> arenas) option" where
  "upb_Arena_FindRoot ai s =
     do { n \<leftarrow> s ai;
          let poc = parent_or_count n;
          if upb_Arena_IsTaggedRefcount poc then Some ((ai, poc), s) else find_root_loop ai poc s }"

definition upb_Arena_DebugRefCount :: "u64 \<Rightarrow> arenas \<Rightarrow> (u32 \<times> arenas) option" where
  "upb_Arena_DebugRefCount a s =
     do { ((_, tagged), s) \<leftarrow> upb_Arena_FindRoot a s;
          c \<leftarrow> upb_Arena_RefCountFromTagged tagged;
          Some (ucast c, s) }"

text \<open>The space of all arenas fused with this one, and their number.\<close>

partial_function (option) space_backward :: "u64 \<Rightarrow> u64 \<Rightarrow> u64 \<Rightarrow> u64 \<Rightarrow> arenas \<Rightarrow> (u64 \<times> u64) option" where
  "space_backward ai pot memsize fused s =
     (if upb_Arena_IsTaggedPrevious pot then
        do { previous \<leftarrow> upb_Arena_PreviousFromTagged pot;
             UPB_ASSERT (previous \<noteq> ai);
             n \<leftarrow> s previous;
             space_backward ai (previous_or_tail n) (memsize + space_allocated n) (fused + 1) s }
      else Some (memsize, fused))"

partial_function (option) space_forward :: "u64 \<Rightarrow> u64 \<Rightarrow> u64 \<Rightarrow> arenas \<Rightarrow> (u64 \<times> u64) option" where
  "space_forward ai memsize fused s =
     (if ai \<noteq> 0 then
        do { n \<leftarrow> s ai; space_forward (arena_next n) (memsize + space_allocated n) (fused + 1) s }
      else Some (memsize, fused))"

definition upb_Arena_SpaceAllocated :: "u64 \<Rightarrow> arenas \<Rightarrow> (u64 \<times> u64) option" where
  "upb_Arena_SpaceAllocated arena s =
     do { n \<leftarrow> s arena;
          (memsize, fused) \<leftarrow> space_backward arena (previous_or_tail n) 0 0 s;
          space_forward arena memsize fused s }"

section \<open>Fusing\<close>

text \<open>Both loops: to the end of the list, and until the null link has been replaced.\<close>

partial_function (option) link_forward_loop :: "u64 \<Rightarrow> u64 \<Rightarrow> u64 \<Rightarrow> arenas \<Rightarrow> (u64 \<times> arenas) option" where
  "link_forward_loop tail tail_next child s =
     (if tail_next \<noteq> 0 then
        do { n \<leftarrow> s tail_next; link_forward_loop tail_next (arena_next n) child s }
      else
        do { n \<leftarrow> s tail;
             if arena_next n = tail_next then do { s \<leftarrow> set_next tail child s; Some (tail, s) }
             else link_forward_loop tail (arena_next n) child s })"

definition upb_Arena_LinkForward :: "u64 \<Rightarrow> u64 \<Rightarrow> arenas \<Rightarrow> (u64 \<times> arenas) option" where
  "upb_Arena_LinkForward parent child s =
     do { n \<leftarrow> s parent;
          parent_tail \<leftarrow> (if upb_Arena_IsTaggedTail (previous_or_tail n)
                          then upb_Arena_TailFromTagged (previous_or_tail n) else Some parent);
          t \<leftarrow> s parent_tail;
          link_forward_loop parent_tail (arena_next t) child s }"

definition upb_Arena_UpdateParentTail :: "u64 \<Rightarrow> u64 \<Rightarrow> arenas \<Rightarrow> arenas option" where
  "upb_Arena_UpdateParentTail parent child s =
     do { c \<leftarrow> s child;
          new_parent_tail \<leftarrow> upb_Arena_TailFromTagged (previous_or_tail c);
          p \<leftarrow> s parent;
          if upb_Arena_IsTaggedTail (previous_or_tail p) then
            do { x \<leftarrow> upb_Arena_TaggedFromTail new_parent_tail; set_pot parent x s }
          else Some s }"

definition upb_Arena_LinkBackward :: "u64 \<Rightarrow> u64 \<Rightarrow> arenas \<Rightarrow> arenas option" where
  "upb_Arena_LinkBackward child old_parent_tail s =
     do { x \<leftarrow> upb_Arena_TaggedFromPrevious old_parent_tail; set_pot child x s }"

definition upb_Arena_DoFuseArenaLists :: "u64 \<Rightarrow> u64 \<Rightarrow> arenas \<Rightarrow> arenas option" where
  "upb_Arena_DoFuseArenaLists parent child s =
     do { (old_parent_tail, s) \<leftarrow> upb_Arena_LinkForward parent child s;
          s \<leftarrow> upb_Arena_UpdateParentTail parent child s;
          upb_Arena_LinkBackward child old_parent_tail s }"

text \<open>The new root, or 0; the two arenas, which the caller passes by reference; and the references that
  are still to be taken away.\<close>

definition upb_Arena_DoFuse :: "u64 \<Rightarrow> u64 \<Rightarrow> u64 \<Rightarrow> arenas \<Rightarrow> ((u64 \<times> u64 \<times> u64 \<times> u64) \<times> arenas) option" where
  "upb_Arena_DoFuse ai1 ai2 ref_delta s =
     do { ((root1, tagged1), s) \<leftarrow> upb_Arena_FindRoot ai1 s;
          ((root2, tagged2), s) \<leftarrow> upb_Arena_FindRoot ai2 s;
          if root1 = root2 then Some ((root1, ai1, ai2, ref_delta), s)
          else
            (let ai1 = root1; ai2 = root2;
                 (root1, tagged1, root2, tagged2) =
                   (if root1 > root2 then (root2, tagged2, root1, tagged1)
                    else (root1, tagged1, root2, tagged2));
                 r2_untagged_count = tagged2 AND NOT 1;
                 with_r2_refs = tagged1 + r2_untagged_count
             in do { (ok, s) \<leftarrow> cas_poc root1 tagged1 with_r2_refs s;
                     if \<not> ok then Some ((0, ai1, ai2, ref_delta), s)
                     else
                       do { p \<leftarrow> upb_Arena_TaggedFromPointer root1;
                            (ok, s) \<leftarrow> cas_poc root2 tagged2 p s;
                            if \<not> ok then Some ((0, ai1, ai2, ref_delta + r2_untagged_count), s)
                            else do { s \<leftarrow> upb_Arena_DoFuseArenaLists root1 root2 s;
                                      Some ((root1, ai1, ai2, ref_delta), s) } } }) }"

definition upb_Arena_FixupRefs :: "u64 \<Rightarrow> u64 \<Rightarrow> arenas \<Rightarrow> (bool \<times> arenas) option" where
  "upb_Arena_FixupRefs new_root ref_delta s =
     (if ref_delta = 0 then Some (True, s)
      else
        do { n \<leftarrow> s new_root;
             let poc = parent_or_count n;
             if upb_Arena_IsTaggedPointer poc then Some (False, s)
             else
               (let with_refs = poc - ref_delta in
                do { UPB_ASSERT (\<not> upb_Arena_IsTaggedPointer with_refs);
                     cas_poc new_root poc with_refs s }) })"

partial_function (option) fuse_loop :: "u64 \<Rightarrow> u64 \<Rightarrow> u64 \<Rightarrow> arenas \<Rightarrow> (bool \<times> arenas) option" where
  "fuse_loop ai1 ai2 ref_delta s =
     do { ((new_root, ai1, ai2, ref_delta), s) \<leftarrow> upb_Arena_DoFuse ai1 ai2 ref_delta s;
          if new_root \<noteq> 0 then
            do { (ok, s) \<leftarrow> upb_Arena_FixupRefs new_root ref_delta s;
                 if ok then Some (True, s) else fuse_loop ai1 ai2 ref_delta s }
          else fuse_loop ai1 ai2 ref_delta s }"

definition upb_Arena_Fuse :: "u64 \<Rightarrow> u64 \<Rightarrow> arenas \<Rightarrow> (bool \<times> arenas) option" where
  "upb_Arena_Fuse a1 a2 s =
     (if a1 = a2 then Some (True, s)
      else
        do { n1 \<leftarrow> s a1;
             n2 \<leftarrow> s a2;
             if upb_ArenaInternal_HasInitialBlock n1 \<or> upb_ArenaInternal_HasInitialBlock n2
             then Some (False, s) else fuse_loop a1 a2 0 s })"

partial_function (option) is_fused_loop :: "u64 \<Rightarrow> u64 \<Rightarrow> arenas \<Rightarrow> (bool \<times> arenas) option" where
  "is_fused_loop ra rb s =
     do { ((rb, _), s) \<leftarrow> upb_Arena_FindRoot rb s;
          if ra = rb then Some (True, s)
          else
            do { ((tmp, _), s) \<leftarrow> upb_Arena_FindRoot ra s;
                 if ra = tmp then Some (False, s) else is_fused_loop tmp rb s } }"

definition upb_Arena_IsFused :: "u64 \<Rightarrow> u64 \<Rightarrow> arenas \<Rightarrow> (bool \<times> arenas) option" where
  "upb_Arena_IsFused a b s =
     (if a = b then Some (True, s)
      else do { ((ra, _), s) \<leftarrow> upb_Arena_FindRoot a s; is_fused_loop ra b s })"

section \<open>References\<close>

partial_function (option) inc_ref_loop :: "u64 \<Rightarrow> arenas \<Rightarrow> (bool \<times> arenas) option" where
  "inc_ref_loop root s =
     do { ((root, tagged), s) \<leftarrow> upb_Arena_FindRoot root s;
          c \<leftarrow> upb_Arena_RefCountFromTagged tagged;
          x \<leftarrow> upb_Arena_TaggedFromRefcount (c + 1);
          (ok, s) \<leftarrow> cas_poc root tagged x s;
          if ok then Some (True, s) else inc_ref_loop root s }"

definition upb_Arena_IncRefFor :: "u64 \<Rightarrow> arenas \<Rightarrow> (bool \<times> arenas) option" where
  "upb_Arena_IncRefFor a s =
     do { n \<leftarrow> s a; if upb_ArenaInternal_HasInitialBlock n then Some (False, s) else inc_ref_loop a s }"

text \<open>\<open>_upb_Arena_DoFree\<close>: the arenas it frees, in order; each one's blocks are freed as in \<open>Arena\<close>.\<close>

partial_function (option) do_free_loop :: "u64 \<Rightarrow> arenas \<Rightarrow> (u64 list \<times> arenas) option" where
  "do_free_loop ai s =
     (if ai \<noteq> 0 then
        do { n \<leftarrow> s ai;
             (freed, s) \<leftarrow> do_free_loop (arena_next n) (s(ai := None));
             Some (ai # freed, s) }
      else Some ([], s))"

definition upb_Arena_FreeList :: "u64 \<Rightarrow> arenas \<Rightarrow> (u64 list \<times> arenas) option" where
  "upb_Arena_FreeList ai s =
     do { n \<leftarrow> s ai;
          c \<leftarrow> upb_Arena_RefCountFromTagged (parent_or_count n);
          UPB_ASSERT (c = 1);
          do_free_loop ai s }"

partial_function (option) free_loop :: "u64 \<Rightarrow> u64 \<Rightarrow> arenas \<Rightarrow> (u64 list \<times> arenas) option" where
  "free_loop ai poc s =
     (if upb_Arena_IsTaggedPointer poc then
        do { ai \<leftarrow> upb_Arena_PointerFromTagged poc; n \<leftarrow> s ai; free_loop ai (parent_or_count n) s }
      else
        do { one \<leftarrow> upb_Arena_TaggedFromRefcount 1;
             if poc = one then upb_Arena_FreeList ai s
             else
               do { c \<leftarrow> upb_Arena_RefCountFromTagged poc;
                    x \<leftarrow> upb_Arena_TaggedFromRefcount (c - 1);
                    (ok, s) \<leftarrow> cas_poc ai poc x s;
                    if ok then Some ([], s)
                    else do { n \<leftarrow> s ai; free_loop ai (parent_or_count n) s } } })"

definition upb_Arena_Free :: "u64 \<Rightarrow> arenas \<Rightarrow> (u64 list \<times> arenas) option" where
  "upb_Arena_Free a s = do { n \<leftarrow> s a; free_loop a (parent_or_count n) s }"

definition upb_Arena_DecRefFor :: "u64 \<Rightarrow> arenas \<Rightarrow> (u64 list \<times> arenas) option" where
  "upb_Arena_DecRefFor a s = upb_Arena_Free a s"

end
