(* ===== verification/ArenaForest.thy ===== *)
theory ArenaForest
  imports ArenaFuse
begin

text \<open>
  The data of fused arenas: the nodes form a forest whose parents have lower addresses; the nodes of one
  tree are also a doubly linked list from its root, and the root holds the number of references. The
  abstract state maps a root to that list and that number (\<open>rep\<close>). Finding the root, with path splitting,
  and walking the list.
\<close>

section \<open>Tagged words\<close>

definition tagged :: "nat \<Rightarrow> u64" where
  "tagged c = 2 * of_nat c + 1"

lemma odd_one: "odd x \<Longrightarrow> x AND 1 = (1 :: u64)"
  by (simp add: and_one_eq odd_iff_mod_2_eq_one)

lemma even_one: "even x \<Longrightarrow> x AND 1 = (0 :: u64)"
  by (simp add: and_one_eq even_iff_mod_2_eq_zero)

lemma tags [simp]:
  "upb_Arena_IsTaggedRefcount x = odd x" "upb_Arena_IsTaggedPointer x = even x"
  "upb_Arena_IsTaggedTail x = odd x" "upb_Arena_IsTaggedPrevious x = even x"
  unfolding upb_Arena_IsTaggedRefcount_def upb_Arena_IsTaggedPointer_def upb_Arena_IsTaggedTail_def
    upb_Arena_IsTaggedPrevious_def
  by (cases "even x"; simp only: odd_one even_one zero_neq_one one_neq_zero simp_thms not_False_eq_True)+

lemma odd_tagged [simp]: "odd (tagged c)"
  by (simp add: tagged_def)

lemma push_or_1: "push_bit 1 x OR 1 = (2 * x + 1 :: u64)"
proof -
  have "push_bit 1 x AND 1 = (0 :: u64)" by (simp add: even_one)
  then have "push_bit 1 x OR 1 = push_bit 1 x + (1 :: u64)" by (simp add: disjunctive_add_eq_or)
  then show ?thesis by (simp add: push_bit_eq_mult mult.commute)
qed

lemma clear_tag: "tagged c AND NOT 1 = 2 * of_nat c"
proof -
  have "tagged c = push_bit 1 (of_nat c) OR 1" by (simp only: tagged_def push_or_1)
  moreover have "(push_bit 1 x OR 1) AND NOT 1 = push_bit 1 x" for x :: u64
    by (intro bit_word_eqI) (auto simp: bit_simps bit_0 intro!: gr0I)
  ultimately show ?thesis by (simp add: push_bit_eq_mult mult.commute)
qed

lemma drop_tagged: "c < 2 ^ 63 \<Longrightarrow> drop_bit 1 (tagged c) = of_nat c"
proof -
  assume c: "c < 2 ^ 63"
  have "tagged c = push_bit 1 (of_nat c) OR 1" by (simp only: tagged_def push_or_1)
  have "unat (2 * of_nat c + 1 :: u64) = 2 * c + 1"
    using c unat_of_nat64 [of "2 * c + 1"] by (simp add: algebra_simps del: unat_of_nat)
  then have "unat (drop_bit 1 (tagged c)) = c"
    by (simp only: tagged_def unat_drop_bit_eq drop_bit_eq_div power_one_right) (simp add: unat_div)
  moreover have "unat (of_nat c :: u64) = c" using c by (intro unat_of_nat64) simp
  ultimately show ?thesis by (simp only: word_unat_eq_iff)
qed

lemma assert_True [simp]: "UPB_ASSERT True = Some ()" "UPB_ASSERT b = Some () \<longleftrightarrow> b"
  by (simp_all add: UPB_ASSERT_def)

lemma TaggedFromRefcount [simp]: "upb_Arena_TaggedFromRefcount (of_nat c) = Some (tagged c)"
  by (simp only: upb_Arena_TaggedFromRefcount_def Let_def push_or_1 tagged_def [symmetric] tags(1) odd_tagged
      assert_True not_False_eq_True bind.bind_lunit)

lemma tag_functions [simp]:
  "c < 2 ^ 63 \<Longrightarrow> upb_Arena_RefCountFromTagged (tagged c) = Some (of_nat c)"
  "even x \<Longrightarrow> upb_Arena_PointerFromTagged x = Some x"
  "even x \<Longrightarrow> upb_Arena_TaggedFromPointer x = Some x"
  "even x \<Longrightarrow> upb_Arena_PreviousFromTagged x = Some x"
  "even x \<Longrightarrow> upb_Arena_TaggedFromPrevious x = Some x"
  by (simp_all add: upb_Arena_RefCountFromTagged_def drop_tagged upb_Arena_PointerFromTagged_def
      upb_Arena_TaggedFromPointer_def upb_Arena_PreviousFromTagged_def upb_Arena_TaggedFromPrevious_def
      del: One_nat_def)

lemma odd_or_1 [simp]: "odd (x OR 1 :: u64)"
  by (simp add: even_or_iff)

lemma tail_functions [simp]:
  "upb_Arena_TaggedFromTail x = Some (x OR 1)"
  "even x \<Longrightarrow> upb_Arena_TailFromTagged (x OR 1) = Some x"
proof -
  show "upb_Arena_TaggedFromTail x = Some (x OR 1)" by (simp add: upb_Arena_TaggedFromTail_def Let_def)
  assume "even x"
  then have "\<not> bit x 0" by (simp add: bit_0)
  then have "(x OR 1) XOR 1 = x" by (intro bit_word_eqI) (auto simp: bit_simps intro!: gr0I)
  then show "upb_Arena_TailFromTagged (x OR 1) = Some x" by (simp add: upb_Arena_TailFromTagged_def)
qed

lemma tagged_add: "tagged c + (tagged d AND NOT 1) = tagged (c + d)"
  by (simp only: clear_tag) (simp add: tagged_def algebra_simps)

lemma tagged_inj: "tagged c = tagged d \<Longrightarrow> c < 2 ^ 63 \<Longrightarrow> d < 2 ^ 63 \<Longrightarrow> c = d"
  using drop_tagged [of c] drop_tagged [of d] of_nat_inj64 [of c d] by simp

section \<open>The forest\<close>

inductive leads :: "arenas \<Rightarrow> u64 \<Rightarrow> u64 \<Rightarrow> bool" for s where
  root: "s a = Some n \<Longrightarrow> odd (parent_or_count n) \<Longrightarrow> leads s a a"
| step: "s a = Some n \<Longrightarrow> even (parent_or_count n) \<Longrightarrow> leads s (parent_or_count n) r \<Longrightarrow> leads s a r"

inductive_cases leadsE: "leads s a r"

definition forest :: "arenas \<Rightarrow> bool" where
  "forest s \<longleftrightarrow> (\<forall>a n. s a = Some n \<longrightarrow> even a \<and> a \<noteq> 0 \<and>
     (even (parent_or_count n) \<longrightarrow> s (parent_or_count n) \<noteq> None \<and> parent_or_count n < a))"

lemma forestD:
  "forest s \<Longrightarrow> s a = Some n \<Longrightarrow> even a \<and> a \<noteq> 0"
  "forest s \<Longrightarrow> s a = Some n \<Longrightarrow> even (parent_or_count n) \<Longrightarrow>
     (\<exists>p. s (parent_or_count n) = Some p) \<and> parent_or_count n < a"
  by (auto simp: forest_def)

lemma leads_odd: "leads s a r \<Longrightarrow> s a = Some n \<Longrightarrow> odd (parent_or_count n) \<Longrightarrow> r = a"
  by (erule leadsE) auto

lemma leads_even: "leads s a r \<Longrightarrow> s a = Some n \<Longrightarrow> even (parent_or_count n) \<Longrightarrow> leads s (parent_or_count n) r"
  by (erule leadsE) auto

lemma leads_unique: "leads s a r \<Longrightarrow> leads s a q \<Longrightarrow> q = r"
proof (induction arbitrary: q rule: leads.induct)
  case (root a n)
  then show ?case by (intro leads_odd)
next
  case (step a n r)
  then show ?case using leads_even by blast
qed

lemma leads_root: "leads s a r \<Longrightarrow> \<exists>n. s r = Some n \<and> odd (parent_or_count n)"
  by (induction rule: leads.induct) auto

lemma leads_self: "leads s r r \<longleftrightarrow> (\<exists>n. s r = Some n \<and> odd (parent_or_count n))"
  using leads_root [of s r r] leads.root by blast

lemma leads_dom: "leads s a r \<Longrightarrow> s a \<noteq> None"
  by (auto elim: leadsE)

lemma forest_leads: "forest s \<Longrightarrow> s a = Some n \<Longrightarrow> \<exists>r. leads s a r"
proof (induction a arbitrary: n rule: measure_induct_rule [of unat])
  case (less a)
  show ?case
  proof (cases "odd (parent_or_count n)")
    case True
    then show ?thesis using less.prems by (blast intro: leads.root)
  next
    case False
    then obtain p where "s (parent_or_count n) = Some p" "parent_or_count n < a" using forestD less.prems by blast
    then show ?thesis using less.IH [of "parent_or_count n" p] less.prems False
      by (auto simp: word_less_nat_alt intro: leads.step)
  qed
qed

text \<open>Path splitting: parents change, trees do not.\<close>

definition splits :: "arenas \<Rightarrow> arenas \<Rightarrow> bool" where
  "splits s s' \<longleftrightarrow> forest s' \<and> (\<forall>a r. leads s' a r = leads s a r) \<and>
     (\<forall>a n. s a = Some n \<longrightarrow> (\<exists>poc. s' a = Some (n\<lparr>parent_or_count := poc\<rparr>) \<and>
        (odd (parent_or_count n) \<longrightarrow> poc = parent_or_count n))) \<and> dom s' = dom s"

lemma splits_node: "splits s s' \<Longrightarrow> s a = Some n \<Longrightarrow>
    \<exists>poc. s' a = Some (n\<lparr>parent_or_count := poc\<rparr>) \<and> (odd (parent_or_count n) \<longrightarrow> poc = parent_or_count n)"
  by (simp add: splits_def)

lemma splits_root: "splits s s' \<Longrightarrow> s a = Some n \<Longrightarrow> odd (parent_or_count n) \<Longrightarrow> s' a = Some n"
  using splits_node [of s s' a n] by auto

lemma splits_None: "splits s s' \<Longrightarrow> s' a = None \<longleftrightarrow> s a = None"
  unfolding splits_def by (metis domIff)

lemma splits_refl: "forest s \<Longrightarrow> splits s s"
  by (force simp: splits_def)

lemma splits_trans: "splits s t \<Longrightarrow> splits t u \<Longrightarrow> splits s u"
proof -
  assume st: "splits s t" and tu: "splits t u"
  have "\<exists>poc. u a = Some (n\<lparr>parent_or_count := poc\<rparr>) \<and> (odd (parent_or_count n) \<longrightarrow> poc = parent_or_count n)"
    if "s a = Some n" for a n
  proof -
    have "\<exists>poc. t a = Some (n\<lparr>parent_or_count := poc\<rparr>) \<and> (odd (parent_or_count n) \<longrightarrow> poc = parent_or_count n)"
      using st that by (simp add: splits_def)
    then obtain poc where p: "t a = Some (n\<lparr>parent_or_count := poc\<rparr>)" "odd (parent_or_count n) \<longrightarrow> poc = parent_or_count n"
      by blast
    have "\<exists>q. u a = Some (m\<lparr>parent_or_count := q\<rparr>) \<and> (odd (parent_or_count m) \<longrightarrow> q = parent_or_count m)"
      if "t a = Some m" for m using tu that by (simp add: splits_def)
    from this [OF p(1)] show ?thesis using p(2) by auto
  qed
  then show ?thesis using st tu by (auto simp: splits_def)
qed

lemma split_step:
  assumes f: "forest s" and a: "s a = Some n" "even (parent_or_count n)"
    and p: "s (parent_or_count n) = Some p" "even (parent_or_count p)"
  shows "splits s (s(a \<mapsto> n\<lparr>parent_or_count := parent_or_count p\<rparr>))"
proof -
  let ?s = "s(a \<mapsto> n\<lparr>parent_or_count := parent_or_count p\<rparr>)"
  have lt: "parent_or_count n < a" using forestD(2) [OF f a] by simp
  have lt2: "parent_or_count p < parent_or_count n" and q: "\<exists>q. s (parent_or_count p) = Some q"
    using forestD(2) [OF f p] by simp_all
  have lt3: "parent_or_count p < a" using lt lt2 by (rule order.strict_trans [rotated])
  have "\<forall>b m. ?s b = Some m \<longrightarrow> even b \<and> b \<noteq> 0 \<and> (even (parent_or_count m) \<longrightarrow> ?s (parent_or_count m) \<noteq> None \<and> parent_or_count m < b)"
    using f a q lt3 by (auto simp: forest_def)
  then have f': "forest ?s" by (simp add: forest_def)
  have to: "leads ?s b r" if "leads s b r" for b r
    using that
  proof (induction rule: leads.induct)
    case (root b m)
    then have "?s b = Some m" using a by auto
    then show ?case using root(2) by (rule leads.root)
  next
    case (step b m r)
    show ?case
    proof (cases "b = a")
      case True
      then have m: "m = n" using step a by simp
      have "?s (parent_or_count n) = Some p" using p lt by auto
      then have l: "leads ?s (parent_or_count p) r" using leads_even [OF step.IH [unfolded m]] p(2) by blast
      define m' where "m' = n\<lparr>parent_or_count := parent_or_count p\<rparr>"
      have m': "parent_or_count m' = parent_or_count p" "?s a = Some m'" by (simp_all add: m'_def)
      have "leads ?s a r" by (rule leads.step [of ?s a m', OF m'(2)]) (simp_all only: m'(1) p(2) l)
      then show ?thesis by (simp only: True)
    next
      case False
      then have "?s b = Some m" using step.hyps(1) by simp
      then show ?thesis using step.hyps(2) step.IH by (rule leads.step)
    qed
  qed
  have "leads ?s b r = leads s b r" for b r
  proof
    assume l: "leads ?s b r"
    then have "s b \<noteq> None" using leads_dom [OF l] a by (auto split: if_splits)
    then obtain q where q: "leads s b q" using forest_leads f by blast
    have "q = r" by (rule leads_unique [OF l to [OF q]])
    then show "leads s b r" using q by simp
  qed (rule to)
  moreover have "\<exists>poc. ?s b = Some (m\<lparr>parent_or_count := poc\<rparr>) \<and> (odd (parent_or_count m) \<longrightarrow> poc = parent_or_count m)"
    if "s b = Some m" for b m
    using that a by (cases "b = a") (auto intro: exI [of _ "parent_or_count m"])
  ultimately show ?thesis using f' a unfolding splits_def by auto
qed

lemma find_root_loop_spec:
  "forest s \<Longrightarrow> s a = Some n \<Longrightarrow> even (parent_or_count n) \<Longrightarrow>
    \<exists>r m s'. find_root_loop a (parent_or_count n) s = Some ((r, parent_or_count m), s') \<and>
      splits s s' \<and> leads s a r \<and> s r = Some m \<and> s' r = Some m"
proof (induction a arbitrary: n s rule: measure_induct_rule [of unat])
  case (less a)
  obtain p where p: "s (parent_or_count n) = Some p" "parent_or_count n < a"
    using forestD(2) [OF less.prems] by blast
  have ne: "a \<noteq> parent_or_count n" using p(2) by auto
  show ?case
  proof (cases "odd (parent_or_count p)")
    case True
    then have "find_root_loop a (parent_or_count n) s = Some ((parent_or_count n, parent_or_count p), s)"
      using less.prems p ne by (subst find_root_loop.simps) simp
    moreover have "leads s a (parent_or_count n)"
      using less.prems(2,3) p(1) True by (blast intro: leads.root leads.step)
    ultimately show ?thesis using p(1) splits_refl [OF less.prems(1)] by blast
  next
    case False
    let ?s = "s(a \<mapsto> n\<lparr>parent_or_count := parent_or_count p\<rparr>)"
    have lt: "parent_or_count p < a"
      using forestD(2) [OF less.prems(1) p(1)] False p(2) by (blast intro: order.strict_trans)
    have st: "splits s ?s" using less.prems p(1) False by (intro split_step) simp_all
    have p': "?s (parent_or_count n) = Some p" using p(1) ne by simp
    have "find_root_loop a (parent_or_count n) s = find_root_loop (parent_or_count n) (parent_or_count p) ?s"
      using less.prems p ne order.strict_implies_not_eq [OF lt] False
      by (subst find_root_loop.simps) (simp add: set_poc_def Let_def eq_commute [of a])
    moreover
    have fs: "forest ?s" using st by (simp add: splits_def)
    have "unat (parent_or_count n) < unat a" using p(2) by (simp add: word_less_nat_alt)
    from less.IH [OF this fs p'] False
    obtain r m s' where r: "find_root_loop (parent_or_count n) (parent_or_count p) ?s = Some ((r, parent_or_count m), s')"
      "splits ?s s'" "leads ?s (parent_or_count n) r" "?s r = Some m" "s' r = Some m" by blast
    moreover have l: "leads s a r" using r(3) st less.prems(2,3) by (auto simp: splits_def intro: leads.step)
    moreover have "s r = Some m"
    proof -
      obtain m' where m': "s r = Some m'" "odd (parent_or_count m')" using leads_root [OF l] by blast
      then have "r \<noteq> a" using less.prems(2,3) by auto
      then show ?thesis using r(4) by simp
    qed
    ultimately show ?thesis using splits_trans [OF st r(2)] by auto
  qed
qed

lemma FindRoot_spec:
  assumes "forest s" "leads s a r"
  obtains m s' where "upb_Arena_FindRoot a s = Some ((r, parent_or_count m), s')" "splits s s'"
    "s r = Some m" "s' r = Some m" "odd (parent_or_count m)"
proof -
  obtain n where n: "s a = Some n" using leads_dom [OF assms(2)] by blast
  obtain m0 where m0: "s r = Some m0" "odd (parent_or_count m0)" using leads_root [OF assms(2)] by blast
  show thesis
  proof (cases "odd (parent_or_count n)")
    case True
    then have "r = a" using leads_odd assms(2) n by blast
    then show thesis using n True splits_refl [OF assms(1)] by (intro that [of n s]) (simp_all add: upb_Arena_FindRoot_def)
  next
    case False
    obtain q m s' where q: "find_root_loop a (parent_or_count n) s = Some ((q, parent_or_count m), s')"
      "splits s s'" "leads s a q" "s q = Some m" "s' q = Some m"
      using find_root_loop_spec [OF assms(1) n] False by auto
    moreover have "q = r" using leads_unique [OF assms(2) q(3)] .
    ultimately show thesis using False n m0 by (intro that [of m s']) (simp_all add: upb_Arena_FindRoot_def)
  qed
qed

section \<open>The list of a tree\<close>

text \<open>\<open>fwd\<close>: the links \<open>next\<close> from a node; \<open>bwd\<close>: the links to the previous node.\<close>

fun fwd :: "arenas \<Rightarrow> u64 list \<Rightarrow> u64 \<Rightarrow> bool" where
  "fwd s [] x \<longleftrightarrow> x = 0"
| "fwd s (a # l) x \<longleftrightarrow> x = a \<and> (case s a of None \<Rightarrow> False | Some n \<Rightarrow> fwd s l (arena_next n))"

fun bwd :: "arenas \<Rightarrow> u64 \<Rightarrow> u64 list \<Rightarrow> bool" where
  "bwd s p [] = True"
| "bwd s p (a # l) \<longleftrightarrow> (case s a of None \<Rightarrow> False | Some n \<Rightarrow> previous_or_tail n = p) \<and> bwd s a l"

lemma fwd_cong: "(\<And>a. a \<in> set l \<Longrightarrow> map_option arena_next (s' a) = map_option arena_next (s a)) \<Longrightarrow> fwd s' l x = fwd s l x"
proof (induction l arbitrary: x)
  case (Cons a l)
  then have "map_option arena_next (s' a) = map_option arena_next (s a)" "\<And>x. fwd s' l x = fwd s l x" by simp_all
  then show ?case by (cases "s a"; cases "s' a") auto
qed simp

lemma bwd_cong: "(\<And>a. a \<in> set l \<Longrightarrow> map_option previous_or_tail (s' a) = map_option previous_or_tail (s a)) \<Longrightarrow> bwd s' p l = bwd s p l"
proof (induction l arbitrary: p)
  case (Cons a l)
  then have "map_option previous_or_tail (s' a) = map_option previous_or_tail (s a)" "bwd s' a l = bwd s a l" by simp_all
  then show ?case by (cases "s a"; cases "s' a") auto
qed simp

text \<open>The nodes of the tree of \<open>r\<close> with \<open>c\<close> references.\<close>

definition group :: "arenas \<Rightarrow> u64 \<Rightarrow> u64 list \<Rightarrow> nat \<Rightarrow> bool" where
  "group s r l c \<longleftrightarrow>
     set l = {a. leads s a r} \<and> distinct l \<and> 0 < c \<and> c < 2 ^ 63 \<and> fwd s l r \<and> bwd s r (tl l) \<and> hd l = r \<and>
     (\<exists>n. s r = Some n \<and> parent_or_count n = tagged c \<and> (\<exists>t \<in> set l. previous_or_tail n = t OR 1))"

definition rep :: "arenas \<Rightarrow> (u64 \<Rightarrow> (u64 list \<times> nat) option) \<Rightarrow> bool" where
  "rep s gs \<longleftrightarrow> forest s \<and> (\<forall>r. gs r \<noteq> None \<longleftrightarrow> leads s r r) \<and> (\<forall>r l c. gs r = Some (l, c) \<longrightarrow> group s r l c)"

lemma repD:
  assumes "rep s gs" "gs r = Some (l, c)" "a \<in> set l"
  shows "forest s" "leads s a r" "group s r l c" "leads s r r"
proof -
  show "forest s" and g: "group s r l c" and "leads s r r" using assms by (auto simp: rep_def)
  show "leads s a r" using g assms(3) by (auto simp: group_def)
qed

lemma splits_field:
  assumes "splits s s'"
  shows "map_option arena_next (s' a) = map_option arena_next (s a)"
    "map_option previous_or_tail (s' a) = map_option previous_or_tail (s a)"
    "map_option space_allocated (s' a) = map_option space_allocated (s a)"
    "map_option block_alloc (s' a) = map_option block_alloc (s a)"
proof -
  have "(s a = None \<and> s' a = None) \<or> (\<exists>n poc. s a = Some n \<and> s' a = Some (n\<lparr>parent_or_count := poc\<rparr>))"
  proof (cases "s a")
    case None
    then show ?thesis using splits_None [OF assms] by blast
  next
    case (Some n)
    then show ?thesis using splits_node [OF assms] by blast
  qed
  then show "map_option arena_next (s' a) = map_option arena_next (s a)"
    "map_option previous_or_tail (s' a) = map_option previous_or_tail (s a)"
    "map_option space_allocated (s' a) = map_option space_allocated (s a)"
    "map_option block_alloc (s' a) = map_option block_alloc (s a)" by auto
qed

lemma splits_group: "splits s s' \<Longrightarrow> group s r l c \<Longrightarrow> group s' r l c"
proof -
  assume sp: "splits s s'" and g: "group s r l c"
  obtain n where n: "s r = Some n" "parent_or_count n = tagged c" using g by (auto simp: group_def)
  have "s' r = Some n" using splits_root [OF sp n(1)] n(2) by simp
  moreover have "fwd s' l r = fwd s l r" "bwd s' r (tl l) = bwd s r (tl l)"
    by (intro fwd_cong bwd_cong splits_field [OF sp])+
  moreover have "leads s' a r = leads s a r" for a using sp by (simp add: splits_def)
  ultimately show ?thesis using g n unfolding group_def by fastforce
qed

lemma splits_rep: "splits s s' \<Longrightarrow> rep s gs \<Longrightarrow> rep s' gs"
proof -
  assume sp: "splits s s'" and r: "rep s gs"
  have "group s' r l c" if "gs r = Some (l, c)" for r l c
    by (rule splits_group [OF sp]) (use r that in \<open>simp add: rep_def\<close>)
  moreover have "forest s'" "leads s' r r = leads s r r" for r using sp by (simp_all add: splits_def)
  ultimately show ?thesis using r by (simp add: rep_def)
qed

section \<open>Walking the list\<close>

lemma do_free_loop_spec:
  "fwd s l x \<Longrightarrow> distinct l \<Longrightarrow> 0 \<notin> set l \<Longrightarrow> do_free_loop x s = Some (l, s |` (- set l))"
proof (induction l arbitrary: s x)
  case Nil
  then show ?case by (subst do_free_loop.simps) (simp add: restrict_map_def fun_eq_iff)
next
  case (Cons a l)
  obtain n where n: "x = a" "s a = Some n" "fwd s l (arena_next n)" using Cons.prems(1) by (auto split: option.splits)
  have "fwd (s(a := None)) l (arena_next n) = fwd s l (arena_next n)"
    using Cons.prems(2) by (intro fwd_cong) auto
  with n(3) have "fwd (s(a := None)) l (arena_next n)" by simp
  then have "do_free_loop (arena_next n) (s(a := None)) = Some (l, s(a := None) |` (- set l))"
    by (rule Cons.IH) (use Cons.prems in simp_all)
  moreover have "s(a := None) |` (- set l) = s |` (- set (a # l))"
    using Cons.prems(2) by (auto simp: restrict_map_def fun_eq_iff)
  ultimately show ?case using Cons.prems n by (subst do_free_loop.simps) simp
qed

definition spaces :: "arenas \<Rightarrow> u64 list \<Rightarrow> u64" where
  "spaces s l = sum_list (map (\<lambda>a. case s a of None \<Rightarrow> 0 | Some n \<Rightarrow> space_allocated n) l)"

lemma space_forward_spec:
  "fwd s l x \<Longrightarrow> 0 \<notin> set l \<Longrightarrow> space_forward x m k s = Some (m + spaces s l, k + of_nat (length l))"
proof (induction l arbitrary: x m k)
  case Nil
  then show ?case by (subst space_forward.simps) (simp add: spaces_def)
next
  case (Cons a l)
  obtain n where n: "x = a" "s a = Some n" "fwd s l (arena_next n)" using Cons.prems(1) by (auto split: option.splits)
  then show ?case using Cons.IH [OF n(3)] Cons.prems(2)
    by (subst space_forward.simps) (simp add: spaces_def algebra_simps)
qed

text \<open>Walking back from the end of \<open>p # l\<close> to its first node, whose word is a tagged tail.\<close>

lemma space_backward_spec:
  "bwd s p l \<Longrightarrow> list_all (\<lambda>a. even a \<and> a \<noteq> ai) (p # l) \<Longrightarrow> s p = Some np \<Longrightarrow> odd (previous_or_tail np) \<Longrightarrow>
    space_backward ai (last (p # l)) m k s = Some (m + spaces s (p # l), k + of_nat (length (p # l)))"
proof (induction l arbitrary: m k rule: rev_induct)
  case Nil
  then have "upb_Arena_PreviousFromTagged p = Some p" by simp
  then show ?case using Nil by (subst space_backward.simps) (simp add: spaces_def, subst space_backward.simps, simp)
next
  case (snoc a l)
  have app: "bwd s p (xs @ [a]) \<longleftrightarrow> bwd s p xs \<and> (\<exists>n. s a = Some n \<and> previous_or_tail n = last (p # xs))" for xs p
    by (induction xs arbitrary: p) (auto split: option.splits)
  obtain n where n: "s a = Some n" "previous_or_tail n = last (p # l)" "bwd s p l" using snoc.prems(1) app by blast
  have ev: "even a" "a \<noteq> ai" using snoc.prems(2) by simp_all
  have "space_backward ai a m k s = space_backward ai (last (p # l)) (m + space_allocated n) (k + 1) s"
    using ev n(1,2) by (subst space_backward.simps) (simp del: last.simps)
  also have "\<dots> = Some (m + space_allocated n + spaces s (p # l), k + 1 + of_nat (length (p # l)))"
    using snoc.IH [OF n(3) _ snoc.prems(3,4)] snoc.prems(2) by simp
  finally show ?case using n(1) by (simp add: spaces_def algebra_simps)
qed

lemma link_forward_spec:
  "fwd s (t # zs) t \<Longrightarrow> s t = Some n \<Longrightarrow> 0 \<notin> set zs \<Longrightarrow>
    link_forward_loop t (arena_next n) child s =
      (case set_next (last (t # zs)) child s of None \<Rightarrow> None | Some s' \<Rightarrow> Some (last (t # zs), s'))"
proof (induction zs arbitrary: t n)
  case Nil
  then show ?case
    by (subst link_forward_loop.simps) (auto simp: set_next_def)
next
  case (Cons a zs)
  obtain m where m: "arena_next n = a" "s a = Some m" "fwd s (a # zs) a" using Cons.prems by (auto split: option.splits)
  have l: "last (t # a # zs) = last (a # zs)" by simp
  show ?case unfolding l using m Cons.IH [OF m(3,2)] Cons.prems
    by (subst link_forward_loop.simps) (simp del: last.simps)
qed

lemma fwd_suffix: "fwd s (ys @ t # zs) x \<Longrightarrow> fwd s (t # zs) t"
proof (induction ys arbitrary: x)
  case (Cons b ys)
  then obtain y where "fwd s (ys @ t # zs) y" by (auto split: option.split_asm)
  then show ?case by (rule Cons.IH)
qed (auto split: option.splits)

lemma fwd_append:
  "fwd s l x \<Longrightarrow> l \<noteq> [] \<Longrightarrow> distinct l \<Longrightarrow> s (last l) = Some n \<Longrightarrow>
    s' (last l) = Some n' \<Longrightarrow> arena_next n' = y \<Longrightarrow>
    (\<And>a. a \<noteq> last l \<Longrightarrow> map_option arena_next (s' a) = map_option arena_next (s a)) \<Longrightarrow>
    fwd s' k y \<Longrightarrow> fwd s' (l @ k) x"
proof (induction l arbitrary: x)
  case (Cons a l)
  obtain m where m: "x = a" "s a = Some m" "fwd s l (arena_next m)" using Cons.prems(1) by (auto split: option.splits)
  show ?case
  proof (cases "l = []")
    case True
    then show ?thesis using Cons.prems m by simp
  next
    case False
    then have ne: "a \<noteq> last l" using Cons.prems(3) by auto
    have "map_option arena_next (s' a) = map_option arena_next (s a)" using Cons.prems(7) False ne by simp
    then obtain m' where m': "s' a = Some m'" "arena_next m' = arena_next m" using m(2) by auto
    have "fwd s' (l @ k) (arena_next m)"
      using Cons.prems False by (intro Cons.IH [OF m(3) False]) simp_all
    then show ?thesis using m(1) m' by simp
  qed
qed simp

lemma bwd_append: "bwd s p (l @ a # k) \<longleftrightarrow> bwd s p l \<and> (\<exists>n. s a = Some n \<and> previous_or_tail n = last (p # l)) \<and> bwd s a k"
  by (induction l arbitrary: p) (auto split: option.splits)

end
