(* ===== verification/ArenaFuseProps.thy ===== *)
theory ArenaFuseProps
  imports ArenaForest
begin

text \<open>
  What fusing and reference counting promise: every operation on arenas refines the operation on groups
  of arenas with a number of references.
\<close>

section \<open>Changing the count of a root\<close>

definition same_parent :: "upb_ArenaInternal \<Rightarrow> upb_ArenaInternal \<Rightarrow> bool" where
  "same_parent n n' \<longleftrightarrow> odd (parent_or_count n) = odd (parent_or_count n') \<and>
     (even (parent_or_count n) \<longrightarrow> parent_or_count n' = parent_or_count n)"

definition same_parents :: "arenas \<Rightarrow> arenas \<Rightarrow> bool" where
  "same_parents s s' \<longleftrightarrow> (\<forall>a. rel_option same_parent (s a) (s' a))"

lemma same_parent_sym: "same_parent n n' \<Longrightarrow> same_parent n' n"
  unfolding same_parent_def by metis

lemma same_parents_sym: "same_parents s s' \<Longrightarrow> same_parents s' s"
  unfolding same_parents_def
proof (intro allI)
  fix a
  assume "\<forall>a. rel_option same_parent (s a) (s' a)"
  then have "rel_option same_parent (s a) (s' a)" ..
  then show "rel_option same_parent (s' a) (s a)"
    by (cases "s a"; cases "s' a") (simp_all add: same_parent_sym)
qed

lemma same_parents_node: "same_parents s s' \<Longrightarrow> s a = Some n \<Longrightarrow> \<exists>n'. s' a = Some n' \<and> same_parent n n'"
  unfolding same_parents_def by (metis option_rel_Some1)

lemma same_parents_to: "leads s a r \<Longrightarrow> same_parents s s' \<Longrightarrow> leads s' a r"
proof (induction rule: leads.induct)
  case (root a n)
  then obtain n' where "s' a = Some n'" "same_parent n n'" using same_parents_node by blast
  then show ?case using root.hyps by (intro leads.root [of s' a n']) (simp_all add: same_parent_def)
next
  case (step a n r)
  then obtain n' where n': "s' a = Some n'" "same_parent n n'" using same_parents_node by blast
  then have "parent_or_count n' = parent_or_count n" using step.hyps by (simp add: same_parent_def)
  then show ?case using step n' by (intro leads.step [of s' a n']) simp_all
qed

lemma same_parents_leads: "same_parents s s' \<Longrightarrow> leads s' a r = leads s a r"
  using same_parents_to same_parents_sym by blast

lemma set_count_rep:
  assumes r: "rep s gs" and g: "gs r = Some (l, c)" and n: "s r = Some n" and d: "0 < d" "d < 2 ^ 63"
  shows "rep (s(r \<mapsto> n\<lparr>parent_or_count := tagged d\<rparr>)) (gs(r \<mapsto> (l, d)))"
proof -
  let ?s = "s(r \<mapsto> n\<lparr>parent_or_count := tagged d\<rparr>)"
  have gr: "group s r l c" using r g by (simp add: rep_def)
  have odd: "odd (parent_or_count n)" using gr n by (auto simp: group_def)
  have sp: "same_parents s ?s" using n odd by (auto simp: same_parents_def same_parent_def rel_option_iff split: option.splits)
  note leads = same_parents_leads [OF sp]
  have "forest ?s"
    unfolding forest_def
  proof (intro allI impI)
    fix a m
    assume m: "?s a = Some m"
    have "forest s" using r by (simp add: rep_def)
    then have f: "even a \<and> a \<noteq> 0 \<and> (even (parent_or_count k) \<longrightarrow> s (parent_or_count k) \<noteq> None \<and> parent_or_count k < a)"
      if "s a = Some k" for k using that by (simp add: forest_def)
    show "even a \<and> a \<noteq> 0 \<and> (even (parent_or_count m) \<longrightarrow> ?s (parent_or_count m) \<noteq> None \<and> parent_or_count m < a)"
      using f m n by (cases "a = r") auto
  qed
  moreover have "group ?s q k e" if q: "(gs(r \<mapsto> (l, d))) q = Some (k, e)" for q k e
  proof -
    have fld: "map_option arena_next (?s a) = map_option arena_next (s a)"
      "map_option previous_or_tail (?s a) = map_option previous_or_tail (s a)" for a using n by auto
    have ff: "fwd ?s k x = fwd s k x" "bwd ?s x k = bwd s x k" for k x by (intro fwd_cong bwd_cong fld)+
    show ?thesis
    proof (cases "q = r")
      case True
      then show ?thesis using gr q n d unfolding group_def leads ff by auto
    next
      case False
      then have "group s q k e" using r q by (simp add: rep_def)
      then show ?thesis using False unfolding group_def leads ff by auto
    qed
  qed
  moreover have "(gs(r \<mapsto> (l, d))) q \<noteq> None \<longleftrightarrow> leads ?s q q" for q
    using r g unfolding leads rep_def by auto
  ultimately show ?thesis by (simp add: rep_def)
qed

text \<open>What \<open>FindRoot\<close> returns for a member of a group.\<close>

lemma FindRoot_rep:
  assumes r: "rep s gs" and g: "gs r = Some (l, c)" "a \<in> set l"
  obtains n s' where "upb_Arena_FindRoot a s = Some ((r, tagged c), s')" "rep s' gs" "splits s s'"
    "s' r = Some n" "parent_or_count n = tagged c"
proof -
  note d = repD [OF r g]
  obtain m s' where m: "upb_Arena_FindRoot a s = Some ((r, parent_or_count m), s')" "splits s s'"
    "s r = Some m" "s' r = Some m" "odd (parent_or_count m)" by (rule FindRoot_spec [OF d(1,2)])
  have "parent_or_count m = tagged c" using d(3) m(3) by (auto simp: group_def)
  then show thesis using that [of s' m] m splits_rep [OF m(2) r] by simp
qed

lemma rep_count: "rep s gs \<Longrightarrow> gs r = Some (l, c) \<Longrightarrow> 0 < c \<and> c < 2 ^ 63"
  by (simp add: rep_def group_def)

lemma of_nat_Suc_word: "of_nat c + 1 = (of_nat (Suc c) :: u64)"
  by simp

lemma of_nat_pred_word: "0 < c \<Longrightarrow> of_nat c - 1 = (of_nat (c - 1) :: u64)"
  by (cases c) simp_all

lemma IncRef_spec:
  assumes r: "rep s gs" and g: "gs r = Some (l, c)" "a \<in> set l" and c: "Suc c < 2 ^ 63"
    and i: "s a = Some n" "\<not> upb_ArenaInternal_HasInitialBlock n"
  shows "\<exists>s'. upb_Arena_IncRefFor a s = Some (True, s') \<and> rep s' (gs(r \<mapsto> (l, Suc c)))"
proof -
  obtain m s' where m: "upb_Arena_FindRoot a s = Some ((r, tagged c), s')" "rep s' gs"
    "s' r = Some m" "parent_or_count m = tagged c" by (rule FindRoot_rep [OF r g])
  let ?s = "s'(r \<mapsto> m\<lparr>parent_or_count := tagged (Suc c)\<rparr>)"
  have "rep ?s (gs(r \<mapsto> (l, Suc c)))" using c by (intro set_count_rep [OF m(2) g(1) m(3)]) simp_all
  moreover have "upb_Arena_IncRefFor a s = Some (True, ?s)"
    using i m c unfolding upb_Arena_IncRefFor_def
    by (subst inc_ref_loop.simps) (simp add: of_nat_Suc_word cas_poc_def set_poc_def del: of_nat_Suc)
  ultimately show ?thesis by blast
qed

text \<open>Removing a whole tree.\<close>

lemma free_tree_rep:
  assumes r: "rep s gs" and g: "gs r = Some (l, c)"
  shows "rep (s |` (- set l)) (gs(r := None))"
proof -
  let ?s = "s |` (- set l)"
  have f: "forest s" and set: "set l = {a. leads s a r}" using r g by (auto simp: rep_def group_def)
  have up: "leads s a r" if "s a = Some n" "even (parent_or_count n)" "leads s (parent_or_count n) r" for a n
    using that by (rule leads.step)
  have "forest ?s"
    unfolding forest_def
  proof (intro allI impI)
    fix a n
    assume "?s a = Some n"
    then have n: "s a = Some n" "\<not> leads s a r" using set by (auto simp: restrict_map_def split: if_splits)
    then show "even a \<and> a \<noteq> 0 \<and> (even (parent_or_count n) \<longrightarrow> ?s (parent_or_count n) \<noteq> None \<and> parent_or_count n < a)"
      using f up [OF n(1)] set unfolding forest_def by (auto simp: restrict_map_def)
  qed
  have to: "leads ?s a q" if "leads s a q" "q \<noteq> r" for a q
    using that
  proof (induction rule: leads.induct)
    case (root a n)
    then have "\<not> leads s a r" using leads_odd by blast
    then show ?case using root set by (intro leads.root [of _ _ n]) (auto simp: restrict_map_def)
  next
    case (step a n q)
    then have "leads s a q" by (blast intro: leads.step)
    then have "\<not> leads s a r" using leads_unique step.prems by blast
    then have "?s a = Some n" using step.hyps(1) set by (auto simp: restrict_map_def)
    then show ?case using step by (intro leads.step [of ?s a n]) simp_all
  qed
  have "leads s a q \<and> q \<noteq> r" if l: "leads ?s a q" for a q
  proof -
    obtain n where "?s a = Some n" using leads_dom [OF l] by blast
    then have n: "s a = Some n" "\<not> leads s a r" using set by (auto simp: restrict_map_def split: if_splits)
    obtain p where p: "leads s a p" using forest_leads [OF f n(1)] by blast
    then have "p \<noteq> r" using n(2) by auto
    then have "q = p" using leads_unique [OF l to [OF p]] by simp
    then show ?thesis using p \<open>p \<noteq> r\<close> by simp
  qed
  then have leads: "leads ?s a q \<longleftrightarrow> leads s a q \<and> q \<noteq> r" for a q using to by blast
  have "group ?s q k e" if q: "gs q = Some (k, e)" "q \<noteq> r" for q k e
  proof -
    have gr: "group s q k e" using r q by (simp add: rep_def)
    have out: "?s a = s a" if "leads s a q" for a
      using that q(2) set leads_unique by (fastforce simp: restrict_map_def)
    have k: "set k = {a. leads s a q}" using gr by (simp add: group_def)
    have "leads s q q" using r q(1) by (auto simp: rep_def)
    moreover have "fwd ?s k q = fwd s k q" using out k by (intro fwd_cong) simp
    moreover have "bwd ?s q (tl k) = bwd s q (tl k)"
      using out k by (intro bwd_cong) (use list.set_sel(2) [of k] in \<open>cases k; simp\<close>)
    ultimately show ?thesis using gr out q(2) unfolding group_def by (auto simp: leads)
  qed
  then show ?thesis using r \<open>forest ?s\<close> unfolding rep_def leads by auto
qed

lemma free_loop_root:
  "leads s a r \<Longrightarrow> s a = Some n \<Longrightarrow> s r = Some m \<Longrightarrow> forest s \<Longrightarrow>
    free_loop a (parent_or_count n) s = free_loop r (parent_or_count m) s"
proof (induction arbitrary: n rule: leads.induct)
  case (root a k)
  then show ?case by simp
next
  case (step a k r)
  obtain p where p: "s (parent_or_count k) = Some p" using forestD(2) step by blast
  have "free_loop a (parent_or_count n) s = free_loop (parent_or_count k) (parent_or_count p) s"
    using step p by (subst free_loop.simps) simp
  also have "\<dots> = free_loop r (parent_or_count m) s" using step p by blast
  finally show ?case .
qed

lemma Free_spec:
  assumes r: "rep s gs" and g: "gs r = Some (l, c)" "a \<in> set l"
  shows "\<exists>s'. upb_Arena_Free a s = Some (if c = 1 then l else [], s') \<and>
    rep s' (gs(r := if c = 1 then None else Some (l, c - 1)))"
proof -
  note d = repD [OF r g]
  note c = rep_count [OF r g(1)]
  obtain n where n: "s a = Some n" using leads_dom [OF d(2)] by blast
  obtain m where m: "s r = Some m" "parent_or_count m = tagged c" using d(3) by (auto simp: group_def)
  have free: "upb_Arena_Free a s = free_loop r (tagged c) s"
    using free_loop_root [OF d(2) n m(1) d(1)] n m(2) by (simp add: upb_Arena_Free_def)
  have one: "upb_Arena_TaggedFromRefcount 1 = Some (tagged 1)" using TaggedFromRefcount [of 1] by simp
  show ?thesis
  proof (cases "c = 1")
    case True
    have z: "0 \<notin> set l"
    proof
      assume "0 \<in> set l"
      then have "s 0 \<noteq> None" using d(3) leads_dom by (simp add: group_def)
      then show False using forestD(1) [OF d(1)] by blast
    qed
    have "do_free_loop r s = Some (l, s |` (- set l))"
      using d(3) z by (intro do_free_loop_spec) (simp_all add: group_def)
    then have "upb_Arena_Free a s = Some (l, s |` (- set l))"
      using True m tag_functions(1) [of 1] unfolding free
      by (subst free_loop.simps) (simp add: one upb_Arena_FreeList_def del: One_nat_def)
    then show ?thesis using free_tree_rep [OF r g(1)] True by simp
  next
    case False
    let ?s = "s(r \<mapsto> m\<lparr>parent_or_count := tagged (c - 1)\<rparr>)"
    have ne: "tagged c \<noteq> tagged 1" using tagged_inj [of c 1] c False by auto
    have t: "upb_Arena_TaggedFromRefcount (of_nat c - 1) = Some (tagged (c - 1))"
      using c by (simp only: of_nat_pred_word TaggedFromRefcount)
    have "upb_Arena_Free a s = Some ([], ?s)"
      using ne c m unfolding free
      by (subst free_loop.simps) (simp add: one t cas_poc_def set_poc_def)
    moreover have "rep ?s (gs(r \<mapsto> (l, c - 1)))"
      using c False by (intro set_count_rep [OF r g(1) m(1)]) auto
    ultimately show ?thesis using False by simp
  qed
qed

section \<open>Fusing two trees\<close>

text \<open>The state after \<open>r2\<close> has become a child of \<open>r1\<close> and its list the end of the list of \<open>r1\<close>, as far
  as each field is concerned.\<close>

definition fused :: "arenas \<Rightarrow> u64 \<Rightarrow> u64 \<Rightarrow> u64 \<Rightarrow> u64 \<Rightarrow> u64 \<Rightarrow> arenas \<Rightarrow> bool" where
  "fused s r1 r2 e t poc s' \<longleftrightarrow>
     (\<forall>a. map_option parent_or_count (s' a) =
        (if a = r1 then Some poc else if a = r2 then Some r1 else map_option parent_or_count (s a)) \<and>
      map_option arena_next (s' a) = (if a = e then Some r2 else map_option arena_next (s a)) \<and>
      map_option previous_or_tail (s' a) =
        (if a = r1 then Some (t OR 1) else if a = r2 then Some e else map_option previous_or_tail (s a)))"

lemma DoFuseArenaLists_spec:
  assumes n: "s r1 = Some n1" "s r2 = Some n2" "r1 \<noteq> r2"
    and l: "fwd s l r1" "0 \<notin> set l" "t1 \<in> set l" "l \<noteq> []"
    and pot: "previous_or_tail n1 = t1 OR 1" "even t1" "previous_or_tail n2 = t2 OR 1" "even t2"
    and e: "even (last l)" "s (last l) = Some ne"
  obtains s' where "upb_Arena_DoFuseArenaLists r1 r2 s = Some s'"
    "\<And>a. map_option parent_or_count (s' a) = map_option parent_or_count (s a)"
    "\<And>a. map_option arena_next (s' a) = (if a = last l then Some r2 else map_option arena_next (s a))"
    "\<And>a. map_option previous_or_tail (s' a) =
       (if a = r1 then Some (t2 OR 1) else if a = r2 then Some (last l) else map_option previous_or_tail (s a))"
proof -
  obtain ys zs where l': "l = ys @ t1 # zs" using split_list [OF l(3)] by blast
  have fz: "fwd s (t1 # zs) t1" using l(1) unfolding l' by (rule fwd_suffix)
  obtain nt where nt: "s t1 = Some nt" using fz by (auto split: option.splits)
  have lz: "last (t1 # zs) = last l" unfolding l' by simp
  let ?s1 = "s(last l \<mapsto> ne\<lparr>arena_next := r2\<rparr>)"
  have fwd: "upb_Arena_LinkForward r1 r2 s = Some (last l, ?s1)"
    using link_forward_spec [OF fz nt, of r2] l(2) n(1) pot(1,2) nt e(2) unfolding lz
    by (simp add: upb_Arena_LinkForward_def set_next_def l')
  obtain m1 m2 where m: "?s1 r1 = Some m1" "?s1 r2 = Some m2" "previous_or_tail m1 = t1 OR 1" "previous_or_tail m2 = t2 OR 1"
    using n pot e(2) by (cases "r1 = last l"; cases "r2 = last l") auto
  let ?s2 = "?s1(r1 \<mapsto> m1\<lparr>previous_or_tail := t2 OR 1\<rparr>)"
  have up: "upb_Arena_UpdateParentTail r1 r2 ?s1 = Some ?s2"
    using m pot(4) unfolding upb_Arena_UpdateParentTail_def set_pot_def by simp
  let ?s3 = "?s2(r2 \<mapsto> m2\<lparr>previous_or_tail := last l\<rparr>)"
  have bw: "upb_Arena_LinkBackward r2 (last l) ?s2 = Some ?s3"
    using m(2) n(3) e(1) unfolding upb_Arena_LinkBackward_def set_pot_def by simp
  show thesis
  proof (rule that [of ?s3])
    show "upb_Arena_DoFuseArenaLists r1 r2 s = Some ?s3"
      using fwd up bw unfolding upb_Arena_DoFuseArenaLists_def by simp
  qed (use n m e(2) in \<open>auto split: if_splits\<close>)
qed

lemma fused_leads:
  assumes f: "forest s" and u: "fused s r1 r2 e t poc s'" and o: "odd poc" "even r1"
    and r: "leads s r1 r1" "leads s r2 r2" "r1 < r2"
  shows "forest s'" "leads s' a q \<longleftrightarrow> (\<exists>p. leads s a p \<and> q = (if p = r2 then r1 else p))"
proof -
  have parent: "map_option parent_or_count (s' a) =
      (if a = r1 then Some poc else if a = r2 then Some r1 else map_option parent_or_count (s a))" for a
    using u by (simp add: fused_def)
  obtain n1 n2 where n: "s r1 = Some n1" "s r2 = Some n2" using r(1,2) by (auto simp: leads_self)
  have dom: "s' a = None \<longleftrightarrow> s a = None" for a
    using parent [of a] n by (cases "s a"; cases "s' a") (auto split: if_splits)
  show f': "forest s'"
    unfolding forest_def
  proof (intro allI impI)
    fix a m
    assume m: "s' a = Some m"
    then obtain k where k: "s a = Some k" using dom [of a] by auto
    have "even a \<and> a \<noteq> 0" using forestD(1) [OF f k] .
    moreover have "s' (parent_or_count m) \<noteq> None \<and> parent_or_count m < a" if ev: "even (parent_or_count m)"
    proof -
      consider "a = r1" | "a = r2" "parent_or_count m = r1" | "parent_or_count m = parent_or_count k"
        using parent [of a] m k by (auto split: if_splits)
      then show ?thesis
      proof cases
        case 1
        then have "parent_or_count m = poc" using parent [of a] m by simp
        then show ?thesis using o(1) ev by simp
      next
        case 2
        then show ?thesis using n(1) dom [of r1] r(3) by simp
      next
        case 3
        then show ?thesis using forestD(2) [OF f k] ev dom by auto
      qed
    qed
    ultimately show "even a \<and> a \<noteq> 0 \<and> (even (parent_or_count m) \<longrightarrow> s' (parent_or_count m) \<noteq> None \<and> parent_or_count m < a)"
      by blast
  qed
  have r1: "leads s' r1 r1"
    using parent [of r1] o(1) by (auto simp: leads_self)
  have r2: "leads s' r2 r1"
  proof -
    obtain m where m: "s' r2 = Some m" "parent_or_count m = r1" using parent [of r2] r(3) by (auto split: if_splits)
    show ?thesis by (rule leads.step [of s' r2 m, OF m(1)]) (use m(2) o(2) r1 in simp_all)
  qed
  have to: "leads s' b (if p = r2 then r1 else p)" if "leads s b p" for b p
    using that
  proof (induction rule: leads.induct)
    case (root b k)
    show ?case
    proof (cases "b = r2 \<or> b = r1")
      case True
      then show ?thesis using r1 r2 by auto
    next
      case False
      then obtain m where "s' b = Some m" "parent_or_count m = parent_or_count k" using parent [of b] root by auto
      then show ?thesis using root False by (auto simp: leads_self)
    qed
  next
    case (step b k p)
    have "b \<noteq> r1" "b \<noteq> r2" using step.hyps(1,2) r(1,2) by (auto simp: leads_self)
    then obtain m where m: "s' b = Some m" "parent_or_count m = parent_or_count k" using parent [of b] step.hyps by auto
    show ?case by (rule leads.step [of s' b m, OF m(1)]) (use m(2) step in simp_all)
  qed
  show "leads s' a q \<longleftrightarrow> (\<exists>p. leads s a p \<and> q = (if p = r2 then r1 else p))"
  proof
    assume l: "leads s' a q"
    then have "s a \<noteq> None" using leads_dom [OF l] dom by simp
    then obtain p where p: "leads s a p" using forest_leads [OF f] by blast
    then show "\<exists>p. leads s a p \<and> q = (if p = r2 then r1 else p)" using leads_unique [OF l to [OF p]] by metis
  qed (use to in blast)
qed

lemma groupD:
  assumes "group s r l c"
  shows "set l = {a. leads s a r}" "distinct l" "0 < c" "c < 2 ^ 63" "fwd s l r" "bwd s r (tl l)" "hd l = r"
    "\<exists>n. s r = Some n \<and> parent_or_count n = tagged c \<and> (\<exists>t \<in> set l. previous_or_tail n = t OR 1)"
  using assms unfolding group_def by blast+

lemma group_Cons: "group s r l c \<Longrightarrow> \<exists>k. l = r # k"
proof -
  assume g: "group s r l c"
  obtain n where "s r = Some n" "parent_or_count n = tagged c" using groupD(8) [OF g] by blast
  then have "leads s r r" by (auto simp: leads_self)
  then have "l \<noteq> []" using groupD(1) [OF g] by auto
  then show ?thesis using groupD(7) [OF g] by (cases l) auto
qed

lemma fused_other:
  assumes u: "fused s r1 r2 e t poc s'" and g: "group s q k c"
    and out: "r1 \<notin> set k" "r2 \<notin> set k" "e \<notin> set k" and ld: "\<And>a. leads s' a q = leads s a q"
  shows "group s' q k c"
proof -
  have next': "map_option arena_next (s' a) = map_option arena_next (s a)" if "a \<in> set k" for a
    using u out that by (auto simp: fused_def)
  have pot: "map_option previous_or_tail (s' a) = map_option previous_or_tail (s a)" if "a \<in> set k" for a
    using u out that by (auto simp: fused_def)
  have "fwd s' k q = fwd s k q" by (rule fwd_cong) (rule next')
  moreover have "bwd s' q (tl k) = bwd s q (tl k)"
    by (rule bwd_cong) (rule pot, use list.set_sel(2) [of k] in \<open>cases k; simp\<close>)
  moreover have "\<exists>n. s' q = Some n \<and> parent_or_count n = tagged c \<and> (\<exists>t \<in> set k. previous_or_tail n = t OR 1)"
  proof -
    obtain n where n: "s q = Some n" "parent_or_count n = tagged c" "\<exists>t \<in> set k. previous_or_tail n = t OR 1"
      using groupD(8) [OF g] by blast
    have q: "q \<in> set k" using group_Cons [OF g] by auto
    have "map_option parent_or_count (s' q) = map_option parent_or_count (s q)"
      using u out q by (auto simp: fused_def)
    then obtain m where "s' q = Some m" "parent_or_count m = parent_or_count n" using n(1) by auto
    then show ?thesis using pot [OF q] n by auto
  qed
  ultimately show ?thesis using g unfolding group_def ld by blast
qed

lemma fused_group:
  assumes u: "fused s r1 r2 (last l1) t (tagged (c1 + c2)) s'" and g: "group s r1 l1 c1" "group s r2 l2 c2"
    and t: "t \<in> set l2" and c: "c1 + c2 < 2 ^ 63" and dj: "set l1 \<inter> set l2 = {}"
    and ld: "\<And>a. leads s' a r1 \<longleftrightarrow> leads s a r1 \<or> leads s a r2"
  shows "group s' r1 (l1 @ l2) (c1 + c2)"
proof -
  obtain k1 k2 where k: "l1 = r1 # k1" "l2 = r2 # k2" using group_Cons g by blast
  have ne: "r1 \<noteq> r2" using dj k by auto
  have e: "last l1 \<in> set l1" using k by simp
  have nx: "map_option arena_next (s' a) = (if a = last l1 then Some r2 else map_option arena_next (s a))" for a
    using u by (simp add: fused_def)
  have pot: "map_option previous_or_tail (s' a) =
      (if a = r1 then Some (t OR 1) else if a = r2 then Some (last l1) else map_option previous_or_tail (s a))" for a
    using u by (simp add: fused_def)
  have fwd2: "fwd s' l2 r2"
  proof -
    have "fwd s' l2 r2 = fwd s l2 r2" using e dj by (intro fwd_cong) (auto simp: nx)
    then show ?thesis using groupD(5) [OF g(2)] by simp
  qed
  have "fwd s' (l1 @ l2) r1"
  proof -
    obtain n where n: "s (last l1) = Some n" using e groupD(1) [OF g(1)] leads_dom by fastforce
    obtain n' where n': "s' (last l1) = Some n'" "arena_next n' = r2" using nx [of "last l1"] by auto
    show ?thesis
      by (rule fwd_append [OF groupD(5) [OF g(1)] _ groupD(2) [OF g(1)] n n' _ fwd2]) (use k nx in auto)
  qed
  moreover have "bwd s' r1 (tl (l1 @ l2))"
  proof -
    have d: "r1 \<notin> set k1" "r2 \<notin> set k1" "r1 \<notin> set k2" "r2 \<notin> set k2"
      using groupD(2) [OF g(1)] groupD(2) [OF g(2)] dj unfolding k by auto
    have "bwd s' r1 k1 = bwd s r1 k1" "bwd s' r2 k2 = bwd s r2 k2"
      using d by (intro bwd_cong; auto simp: pot)+
    moreover have "bwd s r1 k1" "bwd s r2 k2" using groupD(6) [OF g(1)] groupD(6) [OF g(2)] by (simp_all add: k)
    moreover have "\<exists>n. s' r2 = Some n \<and> previous_or_tail n = last (r1 # k1)"
      using pot [of r2] ne k by auto
    ultimately show ?thesis by (simp add: k bwd_append)
  qed
  moreover have "\<exists>n. s' r1 = Some n \<and> parent_or_count n = tagged (c1 + c2) \<and> (\<exists>t \<in> set (l1 @ l2). previous_or_tail n = t OR 1)"
  proof -
    have "map_option parent_or_count (s' r1) = Some (tagged (c1 + c2))" using u by (simp add: fused_def)
    then obtain n where n: "s' r1 = Some n" "parent_or_count n = tagged (c1 + c2)" by auto
    then have "previous_or_tail n = t OR 1" using pot [of r1] by simp
    then show ?thesis using n t by auto
  qed
  moreover have "set (l1 @ l2) = {a. leads s' a r1}" using groupD(1) [OF g(1)] groupD(1) [OF g(2)] by (auto simp: ld)
  moreover have "distinct (l1 @ l2)" using groupD(2) [OF g(1)] groupD(2) [OF g(2)] dj by simp
  moreover have "0 < c1 + c2" using groupD(3) [OF g(1)] by simp
  moreover have "hd (l1 @ l2) = r1" by (simp add: k)
  ultimately show ?thesis using c unfolding group_def by blast
qed

lemma fused_rep:
  assumes r: "rep s gs" and g: "gs r1 = Some (l1, c1)" "gs r2 = Some (l2, c2)" "r1 < r2"
    and c: "c1 + c2 < 2 ^ 63" and u: "fused s r1 r2 (last l1) t (tagged (c1 + c2)) s'" and t: "t \<in> set l2"
  shows "rep s' (gs(r2 := None, r1 \<mapsto> (l1 @ l2, c1 + c2)))"
proof -
  have f: "forest s" and gr: "group s r1 l1 c1" "group s r2 l2 c2" and rt: "leads s r1 r1" "leads s r2 r2"
    using r g by (auto simp: rep_def)
  have ev: "even r1" using rt(1) forestD(1) [OF f] leads_dom by blast
  note fl = fused_leads [OF f u odd_tagged ev rt g(3)]
  have ne: "r1 \<noteq> r2" using g(3) by auto
  have dj: "set l1 \<inter> set l2 = {}"
    using groupD(1) [OF gr(1)] groupD(1) [OF gr(2)] leads_unique ne by fastforce
  have roots: "leads s' q q \<longleftrightarrow> q = r1 \<or> (q \<noteq> r2 \<and> leads s q q)" for q
    unfolding fl(2) using rt leads_unique [OF rt(2)] ne by (auto split: if_splits)
  have "group s' q k d" if q: "(gs(r2 := None, r1 \<mapsto> (l1 @ l2, c1 + c2))) q = Some (k, d)" for q k d
  proof (cases "q = r1")
    case True
    have "leads s' a r1 \<longleftrightarrow> leads s a r1 \<or> leads s a r2" for a unfolding fl(2) by auto
    then show ?thesis using fused_group [OF u gr t c dj] True q by simp
  next
    case False
    then have gq: "gs q = Some (k, d)" "q \<noteq> r2" using q by (auto split: if_splits)
    have gk: "group s q k d" using r gq(1) by (simp add: rep_def)
    have out: "set k \<inter> set l1 = {}" "set k \<inter> set l2 = {}"
      using groupD(1) [OF gk] groupD(1) [OF gr(1)] groupD(1) [OF gr(2)] leads_unique False gq(2) by fastforce+
    have "leads s' a q = leads s a q" for a unfolding fl(2) using False gq(2) by auto
    then show ?thesis
      by (intro fused_other [OF u gk]) (use out group_Cons [OF gr(1)] group_Cons [OF gr(2)] in auto)
  qed
  moreover have "(gs(r2 := None, r1 \<mapsto> (l1 @ l2, c1 + c2))) q \<noteq> None \<longleftrightarrow> leads s' q q" for q
    unfolding roots using r ne by (auto simp: rep_def)
  ultimately show ?thesis using fl(1) unfolding rep_def by blast
qed

section \<open>The operations on groups\<close>

definition fuse_groups ::
    "u64 \<Rightarrow> u64 \<Rightarrow> (u64 \<Rightarrow> (u64 list \<times> nat) option) \<Rightarrow> u64 \<Rightarrow> (u64 list \<times> nat) option" where
  "fuse_groups r1 r2 gs =
     (if r1 = r2 then gs
      else
        (let lo = min r1 r2; hi = max r1 r2 in
         case (gs lo, gs hi) of
           (Some (l1, c1), Some (l2, c2)) \<Rightarrow> gs(hi := None, lo \<mapsto> (l1 @ l2, c1 + c2))
         | _ \<Rightarrow> gs))"

lemma fuse_roots:
  assumes r: "rep s gs" and g: "gs r1 = Some (l1, c1)" "gs r2 = Some (l2, c2)" "r1 < r2" and c: "c1 + c2 < 2 ^ 63"
  obtains sa sb s' where "cas_poc r1 (tagged c1) (tagged (c1 + c2)) s = Some (True, sa)"
    "cas_poc r2 (tagged c2) r1 sa = Some (True, sb)" "upb_Arena_DoFuseArenaLists r1 r2 sb = Some s'"
    "rep s' (gs(r2 := None, r1 \<mapsto> (l1 @ l2, c1 + c2)))"
proof -
  have f: "forest s" and gr: "group s r1 l1 c1" "group s r2 l2 c2" using r g by (auto simp: rep_def)
  obtain n1 t1 where n1: "s r1 = Some n1" "parent_or_count n1 = tagged c1" "t1 \<in> set l1" "previous_or_tail n1 = t1 OR 1"
    using groupD(8) [OF gr(1)] by blast
  obtain n2 t2 where n2: "s r2 = Some n2" "parent_or_count n2 = tagged c2" "t2 \<in> set l2" "previous_or_tail n2 = t2 OR 1"
    using groupD(8) [OF gr(2)] by blast
  have ne: "r1 \<noteq> r2" using g(3) by auto
  have node: "\<exists>n. s a = Some n" if "a \<in> set l1 \<or> a \<in> set l2" for a
    using that groupD(1) [OF gr(1)] groupD(1) [OF gr(2)] leads_dom by fastforce
  have ev: "even a \<and> a \<noteq> 0" if "a \<in> set l1 \<or> a \<in> set l2" for a
    using node [OF that] forestD(1) [OF f] by blast
  obtain k1 where k1: "l1 = r1 # k1" using group_Cons gr(1) by blast
  have last: "last l1 \<in> set l1" by (simp add: k1)
  have dj: "set l1 \<inter> set l2 = {}"
    using groupD(1) [OF gr(1)] groupD(1) [OF gr(2)] leads_unique ne by fastforce
  let ?n1 = "n1\<lparr>parent_or_count := tagged (c1 + c2)\<rparr>" and ?n2 = "n2\<lparr>parent_or_count := r1\<rparr>"
  let ?sa = "s(r1 \<mapsto> ?n1)"
  let ?sb = "?sa(r2 \<mapsto> ?n2)"
  have cas: "cas_poc r1 (tagged c1) (tagged (c1 + c2)) s = Some (True, ?sa)"
    "cas_poc r2 (tagged c2) r1 ?sa = Some (True, ?sb)"
    using n1 n2 ne by (simp_all add: cas_poc_def set_poc_def)
  have nx: "map_option arena_next (?sb a) = map_option arena_next (s a)" for a using n1(1) n2(1) by auto
  have pot: "map_option previous_or_tail (?sb a) = map_option previous_or_tail (s a)" for a using n1(1) n2(1) by auto
  have poc: "map_option parent_or_count (?sb a) =
      (if a = r1 then Some (tagged (c1 + c2)) else if a = r2 then Some r1 else map_option parent_or_count (s a))" for a
    using ne by auto
  have sb: "?sb r1 = Some ?n1" "?sb r2 = Some ?n2" using ne by auto
  have "fwd ?sb l1 r1 = fwd s l1 r1" by (rule fwd_cong) (rule nx)
  then have fw: "fwd ?sb l1 r1" using groupD(5) [OF gr(1)] by simp
  obtain n where "s (last l1) = Some n" using node last by blast
  then obtain n' where e: "?sb (last l1) = Some n'" using nx [of "last l1"] by auto
  have z: "0 \<notin> set l1" using ev by blast
  obtain s' where s': "upb_Arena_DoFuseArenaLists r1 r2 ?sb = Some s'"
    "\<And>a. map_option parent_or_count (s' a) = map_option parent_or_count (?sb a)"
    "\<And>a. map_option arena_next (s' a) = (if a = last l1 then Some r2 else map_option arena_next (?sb a))"
    "\<And>a. map_option previous_or_tail (s' a) =
       (if a = r1 then Some (t2 OR 1) else if a = r2 then Some (last l1) else map_option previous_or_tail (?sb a))"
    by (rule DoFuseArenaLists_spec [OF sb ne fw z n1(3) _ _ _ _ _ _ e, of t2])
      (use n1(4) n2(4) ev n1(3) n2(3) last k1 in auto)
  have "fused s r1 r2 (last l1) t2 (tagged (c1 + c2)) s'"
    unfolding fused_def s'(2-4) nx pot poc by simp
  then show thesis using that cas s'(1) fused_rep [OF r g c _ n2(3)] by blast
qed

lemma DoFuse_spec:
  assumes r: "rep s gs" and g: "gs r1 = Some (l1, c1)" "gs r2 = Some (l2, c2)" and a: "a1 \<in> set l1" "a2 \<in> set l2"
    and c: "c1 + c2 < 2 ^ 63"
  shows "\<exists>x y s'. upb_Arena_DoFuse a1 a2 d s = Some ((min r1 r2, x, y, d), s') \<and> rep s' (fuse_groups r1 r2 gs)"
proof -
  obtain s1 where s1: "upb_Arena_FindRoot a1 s = Some ((r1, tagged c1), s1)" "rep s1 gs"
    by (rule FindRoot_rep [OF r g(1) a(1)])
  obtain s2 where s2: "upb_Arena_FindRoot a2 s1 = Some ((r2, tagged c2), s2)" "rep s2 gs"
    by (rule FindRoot_rep [OF s1(2) g(2) a(2)])
  have ev: "even r1" "even r2"
    using r g forestD(1) leads_dom unfolding rep_def by blast+
  consider "r1 = r2" | "r1 < r2" | "r2 < r1" by force
  then show ?thesis
  proof cases
    case 1
    then show ?thesis using s1(1) s2 by (simp add: upb_Arena_DoFuse_def fuse_groups_def)
  next
    case 2
    then have ne: "r1 \<noteq> r2" "\<not> r2 < r1" by auto
    obtain sa sb s' where *: "cas_poc r1 (tagged c1) (tagged (c1 + c2)) s2 = Some (True, sa)"
      "cas_poc r2 (tagged c2) r1 sa = Some (True, sb)" "upb_Arena_DoFuseArenaLists r1 r2 sb = Some s'"
      "rep s' (gs(r2 := None, r1 \<mapsto> (l1 @ l2, c1 + c2)))" by (rule fuse_roots [OF s2(2) g 2 c])
    have "upb_Arena_DoFuse a1 a2 d s = Some ((r1, r1, r2, d), s')"
      using s1(1) s2(1) ne *(1-3) ev unfolding upb_Arena_DoFuse_def by (simp add: tagged_add [simplified] Let_def)
    then show ?thesis using *(4) ne order_less_imp_le [OF 2] g by (simp add: fuse_groups_def min_def max_def)
  next
    case 3
    then have ne: "r1 \<noteq> r2" "\<not> r1 < r2" "\<not> r1 \<le> r2" by auto
    have c': "c2 + c1 < 2 ^ 63" using c by simp
    obtain sa sb s' where *: "cas_poc r2 (tagged c2) (tagged (c2 + c1)) s2 = Some (True, sa)"
      "cas_poc r1 (tagged c1) r2 sa = Some (True, sb)" "upb_Arena_DoFuseArenaLists r2 r1 sb = Some s'"
      "rep s' (gs(r1 := None, r2 \<mapsto> (l2 @ l1, c2 + c1)))" by (rule fuse_roots [OF s2(2) g(2,1) 3 c'])
    have "upb_Arena_DoFuse a1 a2 d s = Some ((r2, r1, r2, d), s')"
      using s1(1) s2(1) ne 3 *(1-3) ev unfolding upb_Arena_DoFuse_def by (simp add: tagged_add [simplified] Let_def)
    then show ?thesis using *(4) 3 ne g by (simp add: fuse_groups_def min_def max_def)
  qed
qed

lemma same_group: "rep s gs \<Longrightarrow> gs r = Some (l, c) \<Longrightarrow> gs q = Some (k, d) \<Longrightarrow> a \<in> set l \<Longrightarrow> a \<in> set k \<Longrightarrow> q = r"
  using repD(2) leads_unique by metis

lemma Fuse_spec:
  assumes r: "rep s gs" and g: "gs r1 = Some (l1, c1)" "gs r2 = Some (l2, c2)" and a: "a1 \<in> set l1" "a2 \<in> set l2"
    and c: "c1 + c2 < 2 ^ 63"
    and i: "s a1 = Some n1" "\<not> upb_ArenaInternal_HasInitialBlock n1" "s a2 = Some n2" "\<not> upb_ArenaInternal_HasInitialBlock n2"
  shows "\<exists>s'. upb_Arena_Fuse a1 a2 s = Some (True, s') \<and> rep s' (fuse_groups r1 r2 gs)"
proof (cases "a1 = a2")
  case True
  then have "r2 = r1" using same_group [OF r g] a by simp
  then show ?thesis using True r by (simp add: upb_Arena_Fuse_def fuse_groups_def)
next
  case False
  obtain x y s' where d: "upb_Arena_DoFuse a1 a2 0 s = Some ((min r1 r2, x, y, 0), s')" "rep s' (fuse_groups r1 r2 gs)"
    using DoFuse_spec [OF r g a c] by blast
  have "r1 \<noteq> 0" "r2 \<noteq> 0" using r g forestD(1) leads_dom unfolding rep_def by blast+
  then have nz: "min r1 r2 \<noteq> 0" by (simp add: min_def)
  have "fuse_loop a1 a2 0 s = Some (True, s')"
    using d(1) nz by (subst fuse_loop.simps) (simp add: upb_Arena_FixupRefs_def)
  then show ?thesis using False i d(2) by (simp add: upb_Arena_Fuse_def)
qed

lemma IsFused_spec:
  assumes r: "rep s gs" and g: "gs r1 = Some (l1, c1)" "gs r2 = Some (l2, c2)" and a: "a1 \<in> set l1" "a2 \<in> set l2"
  shows "\<exists>s'. upb_Arena_IsFused a1 a2 s = Some (r1 = r2, s') \<and> rep s' gs"
proof (cases "a1 = a2")
  case True
  then have "r2 = r1" using same_group [OF r g] a by simp
  then show ?thesis using True r by (simp add: upb_Arena_IsFused_def)
next
  case False
  obtain s1 where s1: "upb_Arena_FindRoot a1 s = Some ((r1, tagged c1), s1)" "rep s1 gs"
    by (rule FindRoot_rep [OF r g(1) a(1)])
  obtain s2 where s2: "upb_Arena_FindRoot a2 s1 = Some ((r2, tagged c2), s2)" "rep s2 gs"
    by (rule FindRoot_rep [OF s1(2) g(2) a(2)])
  have "r1 \<in> set l1" using group_Cons repD(3) [OF r g(1) a(1)] by fastforce
  then obtain s3 where s3: "upb_Arena_FindRoot r1 s2 = Some ((r1, tagged c1), s3)" "rep s3 gs"
    using FindRoot_rep [OF s2(2) g(1)] by metis
  show ?thesis
  proof (cases "r1 = r2")
    case True
    then have "is_fused_loop r1 a2 s1 = Some (True, s2)" using s2(1) by (subst is_fused_loop.simps) simp
    then show ?thesis using False True s1(1) s2(2) by (simp add: upb_Arena_IsFused_def)
  next
    case ne: False
    then have "is_fused_loop r1 a2 s1 = Some (False, s3)" using s2(1) s3(1) by (subst is_fused_loop.simps) simp
    then show ?thesis using False ne s1(1) s3(2) by (simp add: upb_Arena_IsFused_def)
  qed
qed

lemma SpaceAllocated_spec:
  assumes r: "rep s gs" and g: "gs r = Some (l, c)" and a: "a \<in> set l"
  shows "upb_Arena_SpaceAllocated a s = Some (spaces s l, of_nat (length l))"
proof -
  note d = repD [OF r g a]
  note gr = groupD [OF d(3)]
  have node: "\<exists>n. s b = Some n" if "b \<in> set l" for b using that gr(1) leads_dom by fastforce
  have ev: "even b \<and> b \<noteq> 0" if "b \<in> set l" for b using node [OF that] forestD(1) [OF d(1)] by blast
  obtain n where n: "s a = Some n" using node [OF a] by blast
  obtain ys zs where l: "l = ys @ a # zs" using split_list [OF a] by blast
  have "fwd s (a # zs) a" using gr(5) unfolding l by (rule fwd_suffix)
  then have fw: "space_forward a m k s = Some (m + spaces s (a # zs), k + of_nat (length (a # zs)))" for m k
    using ev unfolding l by (intro space_forward_spec) auto
  have "space_backward a (previous_or_tail n) 0 0 s = Some (spaces s ys, of_nat (length ys))"
  proof (cases ys)
    case Nil
    then have "a = r" using gr(7) unfolding l by simp
    then have "odd (previous_or_tail n)" using gr(8) n by auto
    then show ?thesis using Nil by (subst space_backward.simps) (simp add: spaces_def)
  next
    case (Cons b ys')
    then have b: "b = r" using gr(7) unfolding l by simp
    obtain nr where nr: "s r = Some nr" "odd (previous_or_tail nr)" using gr(8) by auto
    have "bwd s r (ys' @ a # zs)" using gr(6) by (simp add: l Cons)
    then have bw: "bwd s r ys'" "previous_or_tail n = last (r # ys')" using n by (auto simp: bwd_append)
    have "list_all (\<lambda>x. even x \<and> x \<noteq> a) (r # ys')"
      using ev gr(2) unfolding l Cons b by (auto simp: list_all_iff)
    then show ?thesis using space_backward_spec [OF bw(1) _ nr, of a 0 0] unfolding bw(2) Cons b by simp
  qed
  then show ?thesis using n fw by (simp add: upb_Arena_SpaceAllocated_def l spaces_def)
qed

section \<open>New arenas\<close>

lemma new_arena_rep:
  assumes r: "rep s gs" and a: "s a = None" "even a" "a \<noteq> 0" and n: "new_arena a alloc init space = Some n"
  shows "rep (s(a \<mapsto> n)) (gs(a \<mapsto> ([a], 1)))"
proof -
  let ?s = "s(a \<mapsto> n)"
  have one: "upb_Arena_TaggedFromRefcount 1 = Some (tagged 1)" using TaggedFromRefcount [of 1] by simp
  have n': "parent_or_count n = tagged 1" "arena_next n = 0" "previous_or_tail n = a OR 1"
    using n by (auto simp: new_arena_def one split: bind_splits)
  have f: "forest s" using r by (simp add: rep_def)
  have out: "\<not> leads s b a" "\<not> leads s a b" for b using leads_root [of s b a] leads_dom [of s a b] a(1) by auto
  have f': "forest ?s"
    using f a n'(1) unfolding forest_def by auto
  have to: "leads ?s b q" if "leads s b q" for b q
    using that
  proof (induction rule: leads.induct)
    case (root b m)
    then have "?s b = Some m" using a(1) by auto
    then show ?case using root(2) by (rule leads.root)
  next
    case (step b m q)
    then have "?s b = Some m" using a(1) by auto
    then show ?case using step.hyps(2) step.IH by (rule leads.step)
  qed
  have new: "leads ?s a a" using n'(1) by (simp add: leads_self)
  have leads: "leads ?s b q \<longleftrightarrow> leads s b q \<or> (b = a \<and> q = a)" for b q
  proof
    assume l: "leads ?s b q"
    show "leads s b q \<or> (b = a \<and> q = a)"
    proof (cases "b = a")
      case True
      then show ?thesis using leads_unique [OF new] l by blast
    next
      case False
      then obtain m where "s b = Some m" using leads_dom [OF l] by auto
      then obtain p where "leads s b p" using forest_leads [OF f] by blast
      then show ?thesis using leads_unique [OF l to] by metis
    qed
  qed (use to new in blast)
  have "group ?s q k c" if q: "(gs(a \<mapsto> ([a], 1))) q = Some (k, c)" for q k c
  proof (cases "q = a")
    case True
    then show ?thesis using q n' out by (auto simp: group_def leads)
  next
    case False
    then have g: "group s q k c" using q r by (simp add: rep_def)
    have ak: "a \<notin> set k" using groupD(1) [OF g] out by auto
    have "fwd ?s k q = fwd s k q" using ak by (intro fwd_cong) auto
    moreover have "bwd ?s q (tl k) = bwd s q (tl k)"
      using ak list.set_sel(2) [of k] by (intro bwd_cong) (cases k; auto)
    ultimately show ?thesis using g False unfolding group_def leads by auto
  qed
  moreover have "(gs(a \<mapsto> ([a], 1))) q \<noteq> None \<longleftrightarrow> leads ?s q q" for q
    using r out by (auto simp: leads rep_def)
  ultimately show ?thesis using f' by (simp add: rep_def)
qed

lemma rep_empty: "rep Map.empty Map.empty"
  by (auto simp: rep_def forest_def elim: leadsE)

section \<open>Dropping all references\<close>

fun free_all :: "u64 list \<Rightarrow> arenas \<Rightarrow> (u64 list \<times> arenas) option" where
  "free_all [] s = Some ([], s)"
| "free_all (a # as) s =
     do { (freed, s) \<leftarrow> upb_Arena_Free a s; (freed', s) \<leftarrow> free_all as s; Some (freed @ freed', s) }"

text \<open>The list of references to drop names every group as often as the group has references.\<close>

definition holds_refs :: "(u64 \<Rightarrow> (u64 list \<times> nat) option) \<Rightarrow> u64 list \<Rightarrow> bool" where
  "holds_refs gs as \<longleftrightarrow>
     (\<forall>r l c. gs r = Some (l, c) \<longrightarrow> c = length (filter (\<lambda>a. a \<in> set l) as)) \<and>
     (\<forall>a \<in> set as. \<exists>r l c. gs r = Some (l, c) \<and> a \<in> set l)"

lemma rep_dom: "rep s gs \<Longrightarrow> a \<in> dom s \<longleftrightarrow> (\<exists>r l c. gs r = Some (l, c) \<and> a \<in> set l)"
proof
  assume r: "rep s gs" and "a \<in> dom s"
  then obtain n where "s a = Some n" by blast
  moreover have "forest s" using r by (simp add: rep_def)
  ultimately obtain q where q: "leads s a q" using forest_leads by blast
  then have "leads s q q" using leads_root by (auto simp: leads_self)
  then have "gs q \<noteq> None" using r by (simp add: rep_def)
  then obtain l c where l: "gs q = Some (l, c)" by auto
  then have "group s q l c" using r by (simp add: rep_def)
  then show "\<exists>r l c. gs r = Some (l, c) \<and> a \<in> set l" using l q groupD(1) by blast
next
  assume "rep s gs" "\<exists>r l c. gs r = Some (l, c) \<and> a \<in> set l"
  then show "a \<in> dom s" using repD(2) leads_dom by blast
qed

lemma holds_refs_step:
  assumes r: "rep s gs" and g: "gs r = Some (l, c)" "a \<in> set l" and h: "holds_refs gs (a # as)"
  shows "holds_refs (gs(r := if c = 1 then None else Some (l, c - 1))) as"
proof -
  have "c = length (filter (\<lambda>a. a \<in> set l) (a # as))" using h g(1) unfolding holds_refs_def by blast
  then have c: "c = Suc (length (filter (\<lambda>a. a \<in> set l) as))" using g(2) by simp
  have other: "a \<notin> set k" if "gs q = Some (k, d)" "q \<noteq> r" for q k d
    using same_group [OF r g(1) that(1) g(2)] that(2) by blast
  have 1: "d = length (filter (\<lambda>x. x \<in> set k) as)"
    if q: "(gs(r := if c = 1 then None else Some (l, c - 1))) q = Some (k, d)" for q k d
  proof (cases "q = r")
    case True
    then show ?thesis using q c by (auto split: if_splits)
  next
    case False
    then have "gs q = Some (k, d)" using q by simp
    then show ?thesis using h other False by (fastforce simp: holds_refs_def)
  qed
  have 2: "\<exists>q k d. (gs(r := if c = 1 then None else Some (l, c - 1))) q = Some (k, d) \<and> x \<in> set k" if x: "x \<in> set as" for x
  proof -
    obtain q k d where q: "gs q = Some (k, d)" "x \<in> set k" using h x by (auto simp: holds_refs_def)
    show ?thesis
    proof (cases "q = r")
      case True
      then have k: "k = l" using q g by simp
      then have "c \<noteq> 1" using c q(2) x by (auto simp: filter_empty_conv)
      then show ?thesis using q(2) k by (intro exI [of _ r]) simp
    next
      case False
      then show ?thesis using q by (intro exI [of _ q]) simp
    qed
  qed
  show ?thesis using 1 2 unfolding holds_refs_def by blast
qed

lemma free_all_spec:
  "rep s gs \<Longrightarrow> holds_refs gs as \<Longrightarrow>
    \<exists>order. free_all as s = Some (order, Map.empty) \<and> distinct order \<and> set order = dom s"
proof (induction as arbitrary: s gs)
  case Nil
  have "c = 0" if "gs r = Some (l, c)" for r l c using Nil.prems(2) that by (simp add: holds_refs_def)
  then have "gs r = None" for r using rep_count [OF Nil.prems(1), of r] by (cases "gs r") fastforce+
  then have "dom s = {}" using rep_dom [OF Nil.prems(1)] by auto
  then show ?case by simp
next
  case (Cons a as)
  obtain r l c where g: "gs r = Some (l, c)" "a \<in> set l" using Cons.prems(2) by (auto simp: holds_refs_def)
  note d = repD(3) [OF Cons.prems(1) g]
  let ?gs = "gs(r := if c = 1 then None else Some (l, c - 1))"
  obtain s' where s': "upb_Arena_Free a s = Some (if c = 1 then l else [], s')" "rep s' ?gs"
    using Free_spec [OF Cons.prems(1) g] by blast
  obtain order where o: "free_all as s' = Some (order, Map.empty)" "distinct order" "set order = dom s'"
    using Cons.IH [OF s'(2) holds_refs_step [OF Cons.prems(1) g Cons.prems(2)]] by blast
  have disj: "x \<notin> set l" if "gs q = Some (k, e)" "q \<noteq> r" "x \<in> set k" for x q k e
    using same_group [OF Cons.prems(1) g(1) that(1)] that(2,3) by blast
  have dom: "dom s = (if c = 1 then set l else {}) \<union> dom s'" "c = 1 \<Longrightarrow> set l \<inter> dom s' = {}"
  proof -
    have s: "x \<in> dom s \<longleftrightarrow> x \<in> set l \<or> (\<exists>q k e. q \<noteq> r \<and> gs q = Some (k, e) \<and> x \<in> set k)" for x
      unfolding rep_dom [OF Cons.prems(1)] using g(1) by (metis option.inject prod.inject)
    have s2: "x \<in> dom s' \<longleftrightarrow> (c \<noteq> 1 \<and> x \<in> set l) \<or> (\<exists>q k e. q \<noteq> r \<and> gs q = Some (k, e) \<and> x \<in> set k)" for x
      unfolding rep_dom [OF s'(2)] by (auto split: if_splits)
    show "dom s = (if c = 1 then set l else {}) \<union> dom s'" using s s2 by (simp add: set_eq_iff)
    show "c = 1 \<Longrightarrow> set l \<inter> dom s' = {}" using s2 disj by (simp add: set_eq_iff) blast
  qed
  have "free_all (a # as) s = Some ((if c = 1 then l else []) @ order, Map.empty)" using s'(1) o(1) by simp
  moreover have "distinct ((if c = 1 then l else []) @ order)" using o(2,3) dom(2) groupD(2) [OF d] by auto
  moreover have "set ((if c = 1 then l else []) @ order) = dom s" using o(3) dom(1) by auto
  ultimately show ?case by blast
qed

section \<open>Two arenas\<close>

definition two_arenas :: arenas where
  "two_arenas =
     [16 \<mapsto> \<lparr>parent_or_count = 3, arena_next = 0, previous_or_tail = 17, block_alloc = 8, space_allocated = 344\<rparr>,
      32 \<mapsto> \<lparr>parent_or_count = 3, arena_next = 0, previous_or_tail = 33, block_alloc = 8, space_allocated = 600\<rparr>]"

lemma new_nodes:
  "new_arena 16 8 False 344 =
     Some \<lparr>parent_or_count = 3, arena_next = 0, previous_or_tail = 17, block_alloc = 8, space_allocated = 344\<rparr>"
  "new_arena 32 8 False 600 =
     Some \<lparr>parent_or_count = 3, arena_next = 0, previous_or_tail = 33, block_alloc = 8, space_allocated = 600\<rparr>"
  by code_simp+

lemma two_arenas_rep: "rep two_arenas [16 \<mapsto> ([16], 1), 32 \<mapsto> ([32], 1)]"
proof -
  have "rep [16 \<mapsto> \<lparr>parent_or_count = 3, arena_next = 0, previous_or_tail = 17, block_alloc = 8, space_allocated = 344\<rparr>]
      [16 \<mapsto> ([16], 1)]"
    by (rule new_arena_rep [OF rep_empty _ _ _ new_nodes(1)]) simp_all
  then show ?thesis unfolding two_arenas_def
    by (rule new_arena_rep [OF _ _ _ _ new_nodes(2)]) simp_all
qed

text \<open>And a third one, in a buffer of the caller.\<close>

definition three_arenas :: arenas where
  "three_arenas = two_arenas(48 \<mapsto>
     \<lparr>parent_or_count = 3, arena_next = 0, previous_or_tail = 49, block_alloc = 9, space_allocated = 0\<rparr>)"

lemma three_arenas_rep: "rep three_arenas [16 \<mapsto> ([16], 1), 32 \<mapsto> ([32], 1), 48 \<mapsto> ([48], 1)]"
proof -
  have "new_arena 48 8 True 0 =
      Some \<lparr>parent_or_count = 3, arena_next = 0, previous_or_tail = 49, block_alloc = 9, space_allocated = 0\<rparr>" by code_simp
  from new_arena_rep [OF two_arenas_rep _ _ _ this] show ?thesis unfolding three_arenas_def
    by (simp add: two_arenas_def)
qed

lemma two_arenas_nodes:
  "\<exists>n. two_arenas 16 = Some n \<and> \<not> upb_ArenaInternal_HasInitialBlock n"
  "\<exists>n. two_arenas 32 = Some n \<and> \<not> upb_ArenaInternal_HasInitialBlock n"
  by (simp_all add: two_arenas_def upb_ArenaInternal_HasInitialBlock_def)

definition with_initial :: "arenas \<Rightarrow> u64 \<Rightarrow> bool" where
  "with_initial s a \<longleftrightarrow> (case s a of Some n \<Rightarrow> upb_ArenaInternal_HasInitialBlock n | None \<Rightarrow> False)"

section \<open>Properties\<close>

text \<open>C29: The forest of arenas with its linked lists and tagged counts refines groups with a number of
  references (\<open>rep\<close>), as one thread runs the operations on two arenas whose groups have less than \<open>2 ^ 63\<close>
  references together. \<open>upb_Arena_Fuse\<close> returns: it refuses two different arenas of which one has an initial
  block, and changes nothing; else it joins the two groups under the lower root with the sum of their
  references. \<open>upb_Arena_IsFused\<close> tells whether two arenas are in one group. \<open>upb_Arena_IncRefFor\<close>
  refuses an arena with an initial block, or adds a reference to the whole group; \<open>upb_Arena_Free\<close> drops one,
  and with the last frees exactly the arenas of the group; and the space is that of all its arenas. Path
  splitting changes none of this.\<close>

theorem arena_groups_refined:
  assumes "rep s gs" "gs r1 = Some (l1, c1)" "gs r2 = Some (l2, c2)" "a1 \<in> set l1" "a2 \<in> set l2"
    and "c1 + c2 < 2 ^ 63"
  shows "(if a1 \<noteq> a2 \<and> (with_initial s a1 \<or> with_initial s a2) then upb_Arena_Fuse a1 a2 s = Some (False, s)
     else \<exists>s'. upb_Arena_Fuse a1 a2 s = Some (True, s') \<and> rep s' (fuse_groups r1 r2 gs)) \<and>
    (\<exists>s'. upb_Arena_IsFused a1 a2 s = Some (r1 = r2, s') \<and> rep s' gs) \<and>
    (if with_initial s a1 then upb_Arena_IncRefFor a1 s = Some (False, s)
     else \<exists>s'. upb_Arena_IncRefFor a1 s = Some (True, s') \<and> rep s' (gs(r1 \<mapsto> (l1, Suc c1)))) \<and>
    (\<exists>s'. upb_Arena_Free a1 s = Some (if c1 = 1 then l1 else [], s') \<and>
       rep s' (gs(r1 := if c1 = 1 then None else Some (l1, c1 - 1)))) \<and>
    upb_Arena_SpaceAllocated a1 s = Some (spaces s l1, of_nat (length l1))"
proof -
  obtain n1 n2 where n: "s a1 = Some n1" "s a2 = Some n2"
    using leads_dom [OF repD(2) [OF assms(1,2,4)]] leads_dom [OF repD(2) [OF assms(1,3,5)]] by blast
  have "0 < c2" using rep_count [OF assms(1,3)] by simp
  then have c: "Suc c1 < 2 ^ 63" using assms(6) by linarith
  have same: "r2 = r1" if "a1 = a2" using same_group [OF assms(1-4)] assms(5) that by simp
  have "if a1 \<noteq> a2 \<and> (with_initial s a1 \<or> with_initial s a2) then upb_Arena_Fuse a1 a2 s = Some (False, s)
     else \<exists>s'. upb_Arena_Fuse a1 a2 s = Some (True, s') \<and> rep s' (fuse_groups r1 r2 gs)"
    using Fuse_spec [OF assms(1-6) n(1) _ n(2)] n same assms(1)
    by (cases "a1 = a2") (auto simp: with_initial_def upb_Arena_Fuse_def fuse_groups_def)
  moreover have "if with_initial s a1 then upb_Arena_IncRefFor a1 s = Some (False, s)
     else \<exists>s'. upb_Arena_IncRefFor a1 s = Some (True, s') \<and> rep s' (gs(r1 \<mapsto> (l1, Suc c1)))"
    using IncRef_spec [OF assms(1,2,4) c n(1)] n(1) by (simp add: with_initial_def upb_Arena_IncRefFor_def)
  ultimately show ?thesis
    using IsFused_spec [OF assms(1-5)] Free_spec [OF assms(1,2,4)] SpaceAllocated_spec [OF assms(1,2,4)] by blast
qed

theorem arena_groups_refined_witness:
  "(\<exists>s'. upb_Arena_Fuse 32 16 two_arenas = Some (True, s') \<and>
     rep s' (fuse_groups 32 16 [16 \<mapsto> ([16], 1), 32 \<mapsto> ([32], 1)])) \<and>
   fuse_groups 32 16 [16 \<mapsto> ([16], 1), 32 \<mapsto> ([32], 1)] 16 = Some ([16, 32], 2) \<and>
   upb_Arena_Fuse 32 48 three_arenas = Some (False, three_arenas)"
proof -
  have "fuse_groups 32 16 [16 \<mapsto> ([16], 1), 32 \<mapsto> ([32], 1)] 16 = Some ([16, 32], 2)"
    by (simp add: fuse_groups_def min_def max_def)
  moreover have "\<not> with_initial two_arenas 16" "\<not> with_initial two_arenas 32" "with_initial three_arenas 48"
    by (simp_all add: with_initial_def two_arenas_def three_arenas_def upb_ArenaInternal_HasInitialBlock_def)
  moreover have "\<exists>s'. upb_Arena_Fuse 32 16 two_arenas = Some (True, s') \<and>
      rep s' (fuse_groups 32 16 [16 \<mapsto> ([16], 1), 32 \<mapsto> ([32], 1)])"
    if "\<not> with_initial two_arenas 16" "\<not> with_initial two_arenas 32"
    using arena_groups_refined [OF two_arenas_rep, of 32 "[32]" 1 16 "[16]" 1 32 16] that by simp
  moreover have "upb_Arena_Fuse 32 48 three_arenas = Some (False, three_arenas)" if "with_initial three_arenas 48"
    using arena_groups_refined [OF three_arenas_rep, of 32 "[32]" 1 48 "[48]" 1 32 48] that by simp
  ultimately show ?thesis by blast
qed

text \<open>C33: When every reference of every group has been dropped, in any order and through any of the arenas
  of the group, each call of \<open>upb_Arena_Free\<close> has returned, every arena has been freed exactly once, and
  none is left.\<close>

theorem arenas_all_freed:
  assumes "rep s gs" "holds_refs gs as"
  shows "\<exists>order. free_all as s = Some (order, Map.empty) \<and> distinct order \<and> set order = dom s"
  by (rule free_all_spec [OF assms])

theorem arenas_all_freed_witness:
  "\<exists>s'. upb_Arena_Fuse 32 16 two_arenas = Some (True, s') \<and>
     (\<exists>order. free_all [32, 32] s' = Some (order, Map.empty) \<and> distinct order \<and> set order = dom s')"
proof -
  obtain n1 n2 where n: "two_arenas 16 = Some n1" "\<not> upb_ArenaInternal_HasInitialBlock n1"
    "two_arenas 32 = Some n2" "\<not> upb_ArenaInternal_HasInitialBlock n2" using two_arenas_nodes by blast
  let ?gs = "fuse_groups 32 16 [16 \<mapsto> ([16], 1), 32 \<mapsto> ([32], 1)]"
  have gs: "?gs = [16 \<mapsto> ([16, 32], 2)]" by (auto simp: fuse_groups_def min_def max_def)
  obtain s' where s': "upb_Arena_Fuse 32 16 two_arenas = Some (True, s')" "rep s' ?gs"
    using Fuse_spec [OF two_arenas_rep, of 32 "[32]" 1 16 "[16]" 1 32 16 n2 n1] n by fastforce
  have "holds_refs ?gs [32, 32]" unfolding gs by (simp add: holds_refs_def)
  then show ?thesis using arenas_all_freed [OF s'(2)] s'(1) by blast
qed

end
