(* ===== verification/MdEnumProps.thy ===== *)
theory MdEnumProps
  imports MdEnum
begin

text \<open>
  Correctness of closed enum validation: the table that \<open>upb_MiniTableEnum_Build\<close> makes of the
  text written by \<open>upb_MtDataEncoder_StartEnum\<close>, \<open>_PutEnumValue\<close> and \<open>_EndEnum\<close> accepts
  exactly the values that were put.
\<close>

section \<open>Reading the table\<close>

text \<open>The table stands for the words of its mask and the values listed after it.\<close>

definition table_holds :: "upb_MiniTableEnum \<Rightarrow> u32 list \<Rightarrow> u32 list \<Rightarrow> bool" where
  "table_holds t ws ls \<longleftrightarrow>
     enum_data t = ws @ ls \<and> unat (mask_limit t) = 32 * length ws \<and> 2 \<le> length ws \<and>
     unat (value_count t) = length ls"

definition mask_bit :: "u32 list \<Rightarrow> u32 \<Rightarrow> bool" where
  "mask_bit ws v \<longleftrightarrow> unat v div 32 < length ws \<and> bit (ws ! (unat v div 32)) (unat v mod 32)"

lemma and_push_bit_1_iff: "m AND push_bit n 1 \<noteq> 0 \<longleftrightarrow> bit (m :: 'a :: len word) n"
  by (metis push_bit_of_1 and_exp_eq_0_iff_not_bit)

lemma enum_scan_eq:
  "p + n \<le> length (enum_data e) \<Longrightarrow>
     enum_scan e p n v = Ok (v \<in> set (take n (drop p (enum_data e))))"
  by (induction n arbitrary: p)
    (auto simp: enum_data_at_def take_Suc_conv_app_nth Cons_nth_drop_Suc [symmetric])

lemma unat_div_mod_32 [simp]:
  "unat ((v :: u32) div 32) = unat v div 32" "unat ((v :: u32) mod 32) = unat v mod 32"
  by (simp_all add: unat_div_distrib unat_mod_distrib)

lemma CheckValue_eq:
  assumes "table_holds t ws ls"
  shows "upb_MiniTableEnum_CheckValue t v =
    Ok (if unat v div 32 < length ws then mask_bit ws v else v \<in> set ls)"
proof -
  note t = assms [unfolded table_holds_def]
  consider "unat v < 64" | "64 \<le> unat v" "unat v < 32 * length ws" | "32 * length ws \<le> unat v"
    by linarith
  then show ?thesis
  proof cases
    case 1
    then have v: "v < 64" by (simp add: word_less_nat_alt)
    have data: "enum_data t ! 0 = ws ! 0" "enum_data t ! 1 = ws ! 1" "2 \<le> length (enum_data t)"
      "enum_data t \<noteq> []"
      using t by (auto simp: nth_append)
    have "bit ((ucast (ws ! 0) :: u64) OR push_bit 32 (ucast (ws ! 1))) (unat v) = mask_bit ws v"
    proof (cases "unat v < 32")
      case True
      then show ?thesis using t
        by (auto simp: mask_bit_def bit_or_iff bit_push_bit_iff bit_unsigned_iff)
    next
      case False
      then have "unat v div 32 = 1" "unat v mod 32 = unat v - 32" using 1 by (simp_all add: le_mod_geq)
      then show ?thesis using t False 1
        by (auto simp: mask_bit_def bit_or_iff bit_push_bit_iff bit_unsigned_iff dest: bit_imp_le_length)
    qed
    moreover have "unat v div 32 < length ws" using 1 t by (auto intro!: less_mult_imp_div_less)
    ultimately show ?thesis
      using v data by (simp add: upb_MiniTableEnum_CheckValue_def enum_data_at_def and_push_bit_1_iff del: push_bit_of_1)
  next
    case 2
    then have "\<not> v < 64" "v < mask_limit t" "unat v div 32 < length ws"
      using t by (simp_all add: word_less_nat_alt less_mult_imp_div_less mult.commute)
    then show ?thesis using t
      by (simp add: upb_MiniTableEnum_CheckValue_def enum_data_at_def and_push_bit_1_iff mask_bit_def nth_append del: push_bit_of_1)
  next
    case 3
    then have "\<not> v < 64" "\<not> v < mask_limit t" "\<not> unat v div 32 < length ws"
      using t by (simp_all add: word_less_nat_alt not_less)
    then show ?thesis using t
      by (simp add: upb_MiniTableEnum_CheckValue_def enum_scan_eq)
  qed
qed

section \<open>One value\<close>

definition counts_ok :: "'a upb_MdEnumDecoder \<Rightarrow> bool" where
  "counts_ok d \<longleftrightarrow>
     length (enum_data (enum_table d)) = unat (enum_data_count d) \<and>
     unat (enum_data_count d) \<le> unat (enum_data_capacity d)"

definition total_realloc :: "'a realloc \<Rightarrow> bool" where
  "total_realloc realloc \<longleftrightarrow> (\<forall>m n a. fst (realloc m n a))"

lemma AddEnumDataMember_total:
  assumes "total_realloc realloc" "counts_ok d" "unat (enum_data_count d) < 2 ^ 31"
  obtains d' where "upb_MiniTable_AddEnumDataMember realloc d val = Ok d'" "counts_ok d'"
    "enum_table d' = (enum_table d)\<lparr>enum_data := enum_data (enum_table d) @ [val]\<rparr>"
    "enum_value_count d' = enum_value_count d"
proof -
  let ?cap = "enum_data_capacity d"
  have step: "unat (enum_data_count d + 1) = unat (enum_data_count d) + 1"
    using assms(3) by (simp add: unat_word_ariths)
  obtain ok a where r: "realloc (upb_MiniTableEnum_Size ?cap) (upb_MiniTableEnum_Size (max 2 (?cap * 2)))
      (ed_arena d) = (ok, a)" by fastforce
  with assms(1) have ok by (metis fst_conv total_realloc_def)
  have "\<exists>d'. upb_MiniTable_AddEnumDataMember realloc d val = Ok d' \<and> counts_ok d' \<and>
    enum_table d' = (enum_table d)\<lparr>enum_data := enum_data (enum_table d) @ [val]\<rparr> \<and>
    enum_value_count d' = enum_value_count d"
  proof (cases "enum_data_count d = ?cap")
    case False
    then have "unat (enum_data_count d) < unat ?cap"
      using assms(2) by (simp add: counts_ok_def le_neq_implies_less word_unat_eq_iff)
    then show ?thesis
      using assms(2) False step
      by (auto simp: upb_MiniTable_AddEnumDataMember_def counts_ok_def word_less_nat_alt)
  next
    case True
    have small: "\<not> ?cap > (2 ^ 32 - 1) div 2" using assms(3) True
      by (simp add: word_less_nat_alt unat_div_distrib)
    have "unat (?cap * 2) = unat ?cap * 2"
      using assms(3) True by (simp add: unat_word_ariths)
    then have cap: "unat ?cap < unat (max 2 (?cap * 2))"
      by (simp add: max_def word_le_nat_alt)
    have "\<not> enum_size_overflows (max 2 (?cap * 2))"
      using unat_less_numeral_power(3) [of "max 2 (?cap * 2)"]
      by (simp add: enum_size_overflows_def uint_nat del: unat_less_numeral_power of_nat_unat)
    with small cap True r \<open>ok\<close> assms(2) step show ?thesis
      by (auto simp: upb_MiniTable_AddEnumDataMember_def counts_ok_def Let_def
          word_less_nat_alt)
  qed
  with that show thesis by blast
qed

lemma extend_mask_total:
  assumes "total_realloc realloc" "counts_ok d" "table_holds (enum_table d) ws []"
    and "unat lim = 32 * k"
  obtains d' where "extend_mask realloc lim d = Ok d'" "counts_ok d'"
    "table_holds (enum_table d') (ws @ replicate (k - length ws) 0) []"
    "enum_value_count d' = enum_value_count d"
proof -
  have "\<exists>d'. extend_mask realloc lim d = Ok d' \<and> counts_ok d' \<and>
    table_holds (enum_table d') (ws @ replicate (k - length ws) 0) [] \<and>
    enum_value_count d' = enum_value_count d"
    using assms(2-)
  proof (induction "k - length ws" arbitrary: d ws)
    case 0
    then have "\<not> mask_limit (enum_table d) < lim"
      by (simp add: table_holds_def word_less_nat_alt)
    with 0 show ?case by (subst extend_mask.simps) simp
  next
    case (Suc n)
    note t = Suc.prems(2) [unfolded table_holds_def]
    have lt: "mask_limit (enum_table d) < lim"
      using t Suc.hyps(2) Suc.prems(3) by (simp add: word_less_nat_alt)
    have bound: "32 * k < 4294967296"
      using unat_less_numeral_power(3) [of lim] Suc.prems(3) by simp
    then have "unat (enum_data_count d) < 2 ^ 31"
      using Suc.prems(1) t Suc.hyps(2) by (simp add: counts_ok_def)
    then obtain d1 where d1: "upb_MiniTable_AddEnumDataMember realloc d 0 = Ok d1" "counts_ok d1"
      "enum_table d1 = (enum_table d)\<lparr>enum_data := enum_data (enum_table d) @ [0]\<rparr>"
      "enum_value_count d1 = enum_value_count d"
      using AddEnumDataMember_total [OF assms(1) Suc.prems(1)] by metis
    let ?d2 = "d1\<lparr>enum_table := (enum_table d1)\<lparr>mask_limit := mask_limit (enum_table d1) + 32\<rparr>\<rparr>"
    have "unat (mask_limit (enum_table d) + 32) = 32 * length (ws @ [0])"
      using t bound Suc.hyps(2) by (simp add: unat_word_ariths)
    then have "table_holds (enum_table ?d2) (ws @ [0]) []"
      using t d1(3) by (simp add: table_holds_def)
    moreover have "counts_ok ?d2" using d1(2) by (simp add: counts_ok_def)
    moreover have "n = k - length (ws @ [0])" using Suc.hyps(2) by simp
    ultimately obtain d' where "extend_mask realloc lim ?d2 = Ok d'" "counts_ok d'"
      "table_holds (enum_table d') ((ws @ [0]) @ replicate (k - length (ws @ [0])) 0) []"
      "enum_value_count d' = enum_value_count ?d2"
      using Suc.hyps(1) [of "ws @ [0]" ?d2] Suc.prems(3) by blast
    moreover have "k - length ws = Suc (k - length (ws @ [0]))" using Suc.hyps(2) by simp
    ultimately show ?case
      using lt d1 by (subst extend_mask.simps) simp
  qed
  with that show thesis by blast
qed

lemma mask_bit_set:
  assumes "unat u div 32 < length ws"
  shows "mask_bit (ws[unat u div 32 := ws ! (unat u div 32) OR push_bit (unat u mod 32) 1]) v \<longleftrightarrow>
    mask_bit ws v \<or> v = u"
proof -
  have "v = u \<longleftrightarrow> unat v div 32 = unat u div 32 \<and> unat v mod 32 = unat u mod 32"
    by (metis div_mult_mod_eq word_unat_eq_iff)
  with assms show ?thesis
    by (auto simp: mask_bit_def nth_list_update bit_or_iff bit_push_bit_iff bit_1_iff
        simp del: push_bit_of_1)
qed

lemma mask_bit_append_zeros: "mask_bit (ws @ replicate n 0) v \<longleftrightarrow> mask_bit ws v"
  by (auto simp: mask_bit_def nth_append)

text \<open>The state after the values \<open>vs\<close>, which were put in increasing order: the mask holds the
  first of them and the list the others, all of them beyond the mask.\<close>

definition built :: "'a upb_MdEnumDecoder \<Rightarrow> u32 list \<Rightarrow> bool" where
  "built d vs \<longleftrightarrow> counts_ok d \<and> unat (enum_value_count d) = length vs \<and>
     (\<exists>ws ms ls. vs = ms @ ls \<and> table_holds (enum_table d) ws ls \<and>
        (\<forall>v. mask_bit ws v \<longleftrightarrow> v \<in> set ms) \<and> (\<forall>v\<in>set ls. length ws \<le> unat v div 32) \<and>
        length ws \<le> 17 + length ms \<and>
        (ls = [] \<longrightarrow> vs \<noteq> [] \<longrightarrow> length ws = max 2 (unat (last vs) div 32 + 1)) \<and>
        (ls = [] \<longrightarrow> vs = [] \<longrightarrow> length ws = 2) \<and>
        (ls = [] \<longrightarrow> vs \<noteq> [] \<longrightarrow> unat (last vs) \<le> 512 \<or> unat (last vs) div 32 \<le> length vs))"

text \<open>The one case the sorted order does not cover: 512 is the last value whose word is always in
  the mask, and a value of the same word that comes too early would be listed instead.\<close>

definition avoids_word_16 :: "u32 list \<Rightarrow> bool" where
  "avoids_word_16 vs \<longleftrightarrow>
     (512 \<in> set vs \<longrightarrow> (\<forall>v\<in>set vs. 512 < v \<and> v < 544 \<longrightarrow> 16 \<le> length (filter (\<lambda>u. u \<le> v) vs)))"

lemma BuildValue_listed:
  assumes "total_realloc realloc" "counts_ok d" "unat (enum_data_count d) < 2 ^ 31"
    and "table_holds (enum_table d) ws ls" "unat (enum_value_count d) < 2 ^ 31"
    and "length ws \<le> unat v div 32" "length ls < 2 ^ 31"
    and "ls \<noteq> [] \<or> 512 < unat v \<and> unat (enum_value_count d) + 1 < unat v div 32"
  obtains d' where "upb_MiniTableEnum_BuildValue realloc v d = Ok d'" "counts_ok d'"
    "table_holds (enum_table d') ws (ls @ [v])"
    "unat (enum_value_count d') = unat (enum_value_count d) + 1"
proof -
  let ?d = "d\<lparr>enum_value_count := enum_value_count d + 1\<rparr>"
  note t = assms(4) [unfolded table_holds_def]
  have n: "unat (enum_value_count d + 1) = unat (enum_value_count d) + 1"
    using assms(5) by (simp add: unat_word_ariths)
  have c: "unat (value_count (enum_table d) + 1) = unat (value_count (enum_table d)) + 1"
    using assms(7) t by (simp add: unat_word_ariths)
  have "counts_ok ?d" using assms(2) by (simp add: counts_ok_def)
  then obtain d1 where d1: "upb_MiniTable_AddEnumDataMember realloc ?d v = Ok d1" "counts_ok d1"
    "enum_table d1 = (enum_table d)\<lparr>enum_data := enum_data (enum_table d) @ [v]\<rparr>"
    "enum_value_count d1 = enum_value_count d + 1"
    using AddEnumDataMember_total [OF assms(1), of ?d v thesis] assms(3) by auto
  have "value_count (enum_table d) \<noteq> 0 \<or> (v > 512 \<and> enum_value_count d + 1 < v div 32)"
    using assms(8) t n by (auto simp: word_less_nat_alt unat_eq_0 [symmetric])
  moreover have "enum_data_count d = mask_limit (enum_table d) div 32" if "value_count (enum_table d) = 0"
    using that t assms(2) by (simp add: counts_ok_def word_unat_eq_iff)
  moreover have "enum_table (d1\<lparr>enum_table := (enum_table d1)
      \<lparr>value_count := value_count (enum_table d1) + 1\<rparr>\<rparr>) = (enum_table d)
      \<lparr>enum_data := enum_data (enum_table d) @ [v], value_count := value_count (enum_table d) + 1\<rparr>"
    using d1(3) by simp
  ultimately show thesis
    using d1 t c n
    by (intro that [of "d1\<lparr>enum_table := (enum_table d1)
          \<lparr>value_count := value_count (enum_table d1) + 1\<rparr>\<rparr>"])
      (auto simp: upb_MiniTableEnum_BuildValue_def Let_def table_holds_def counts_ok_def)
qed

lemma BuildValue_mask:
  assumes "total_realloc realloc" "counts_ok d"
    and "table_holds (enum_table d) ws []" "unat (enum_value_count d) < 2 ^ 31"
    and "unat v \<le> 512 \<or> unat v div 32 \<le> unat (enum_value_count d) + 1"
    and "unat v div 32 + 1 < 2 ^ 27"
  obtains d' ws' where "upb_MiniTableEnum_BuildValue realloc v d = Ok d'" "counts_ok d'"
    "table_holds (enum_table d') ws' []" "length ws' = max (length ws) (unat v div 32 + 1)"
    "\<And>u. mask_bit ws' u \<longleftrightarrow> mask_bit ws u \<or> u = v"
    "unat (enum_value_count d') = unat (enum_value_count d) + 1"
proof -
  let ?d = "d\<lparr>enum_value_count := enum_value_count d + 1\<rparr>"
  let ?i = "unat v div 32"
  define w1 where "w1 = ws @ replicate (?i + 1 - length ws) 0"
  have n: "unat (enum_value_count d + 1) = unat (enum_value_count d) + 1"
    using assms(4) by (simp add: unat_word_ariths)
  have lim: "unat ((v div 32 + 1) * 32) = 32 * (?i + 1)"
    using assms(6) by (simp add: unat_word_ariths)
  have "counts_ok ?d" "table_holds (enum_table ?d) ws []"
    using assms(2,3) by (simp_all add: counts_ok_def)
  then obtain d1 where d1: "extend_mask realloc ((v div 32 + 1) * 32) ?d = Ok d1" "counts_ok d1"
    "table_holds (enum_table d1) w1 []" "enum_value_count d1 = enum_value_count d + 1"
    using extend_mask_total [OF assms(1) _ _ lim, of ?d ws thesis] by (auto simp: w1_def)
  have i: "?i < length w1" by (simp add: w1_def)
  let ?ws = "w1[?i := w1 ! ?i OR push_bit (unat v mod 32) 1]"
  let ?d' = "d1\<lparr>enum_table := (enum_table d1)\<lparr>enum_data := ?ws\<rparr>\<rparr>"
  have "value_count (enum_table d) = 0" "\<not> (v > 512 \<and> enum_value_count d + 1 < v div 32)"
    using assms(3,5) n by (auto simp: table_holds_def word_less_nat_alt unat_eq_0)
  then have "upb_MiniTableEnum_BuildValue realloc v d = Ok ?d'"
    using d1 i by (auto simp: upb_MiniTableEnum_BuildValue_def Let_def enum_data_at_def
        table_holds_def simp del: push_bit_of_1)
  moreover have "counts_ok ?d'" "table_holds (enum_table ?d') ?ws []"
    using d1(2,3) by (simp_all add: counts_ok_def table_holds_def)
  moreover have "mask_bit ?ws u \<longleftrightarrow> mask_bit ws u \<or> u = v" for u
    unfolding mask_bit_set [OF i] by (simp add: w1_def mask_bit_append_zeros)
  ultimately show thesis
    using d1(4) n by (intro that [of ?d' ?ws]) (auto simp: w1_def)
qed

lemma builtI:
  assumes "counts_ok d" "unat (enum_value_count d) = length vs" "vs = ms @ ls" "table_holds (enum_table d) ws ls"
    and "\<And>v. mask_bit ws v \<longleftrightarrow> v \<in> set ms" "\<And>v. v \<in> set ls \<Longrightarrow> length ws \<le> unat v div 32"
    and "length ws \<le> 17 + length ms"
    and "ls = [] \<Longrightarrow> vs \<noteq> [] \<Longrightarrow> length ws = max 2 (unat (last vs) div 32 + 1)"
      "ls = [] \<Longrightarrow> vs = [] \<Longrightarrow> length ws = 2"
      "ls = [] \<Longrightarrow> vs \<noteq> [] \<Longrightarrow> unat (last vs) \<le> 512 \<or> unat (last vs) div 32 \<le> length vs"
  shows "built d vs"
  unfolding built_def using assms by blast

lemma built_step:
  assumes tr: "total_realloc realloc" and b: "built d vs" and sorted: "sorted_wrt (<) (vs @ [v])"
    and len: "length vs + 2 < 2 ^ 27"
    and avoid: "vs \<noteq> [] \<Longrightarrow> last vs = 512 \<Longrightarrow> v < 544 \<Longrightarrow> 16 \<le> length vs + 1"
  shows "\<exists>d'. upb_MiniTableEnum_BuildValue realloc v d = Ok d' \<and> built d' (vs @ [v])"
proof -
  from b obtain ws ms ls where co: "counts_ok d" and vc: "unat (enum_value_count d) = length vs"
    and vs: "vs = ms @ ls" and t: "table_holds (enum_table d) ws ls"
    and ms: "\<And>v. mask_bit ws v \<longleftrightarrow> v \<in> set ms" and ls: "\<And>v. v \<in> set ls \<Longrightarrow> length ws \<le> unat v div 32"
    and ws: "length ws \<le> 17 + length ms"
    and last: "ls = [] \<Longrightarrow> vs \<noteq> [] \<Longrightarrow> length ws = max 2 (unat (last vs) div 32 + 1)"
      "ls = [] \<Longrightarrow> vs = [] \<Longrightarrow> length ws = 2"
      "ls = [] \<Longrightarrow> vs \<noteq> [] \<Longrightarrow> unat (last vs) \<le> 512 \<or> unat (last vs) div 32 \<le> length vs"
    unfolding built_def by blast
  have cnt: "unat (enum_data_count d) < 2 ^ 31"
    using co t ws vs len by (simp add: counts_ok_def table_holds_def)
  have less: "unat (last vs) < unat v" if "vs \<noteq> []"
    using that sorted by (simp add: sorted_wrt_append word_less_nat_alt)
  show ?thesis
  proof (cases "ls \<noteq> [] \<or> 512 < unat v \<and> length vs + 1 < unat v div 32")
    case True
    have far: "length ws \<le> unat v div 32"
    proof (cases "ls = []")
      case False
      then have "length ws \<le> unat (last ls) div 32" "last ls = last vs" using ls vs by auto
      moreover have "unat (last vs) div 32 \<le> unat v div 32"
        using False less vs by (intro div_le_mono) auto
      ultimately show ?thesis by simp
    next
      case nil: True
      with True have v: "512 < unat v" "length vs + 1 < unat v div 32" by auto
      show ?thesis
      proof (cases "vs = []")
        case False
        have "unat (last vs) div 32 < unat v div 32"
        proof (cases "unat (last vs) = 512")
          case True
          then have "last vs = 512" by (simp add: word_unat_eq_iff)
          then have "\<not> unat v < 544" using avoid False v(2) by (auto simp: word_less_nat_alt)
          with True show ?thesis by simp
        next
          case ne: False
          show ?thesis
          proof (cases "unat (last vs) \<le> 512")
            case True
            then have "unat (last vs) div 32 < 16" using ne by (intro less_mult_imp_div_less) simp
            moreover have "16 \<le> unat v div 32" using v(1) by (simp add: less_eq_div_iff_mult_less_eq)
            ultimately show ?thesis by (rule less_le_trans)
          next
            case gt: False
            then show ?thesis using last(3) [OF nil False] v(2) by simp
          qed
        qed
        with last(1) [OF nil False] v show ?thesis by simp
      qed (use last(2) nil v in simp)
    qed
    obtain d' where "upb_MiniTableEnum_BuildValue realloc v d = Ok d'" "counts_ok d'"
      "table_holds (enum_table d') ws (ls @ [v])" "unat (enum_value_count d') = length vs + 1"
      using BuildValue_listed [OF tr co cnt t _ far] True vc vs len by auto
    moreover from this(2-) far have "built d' (vs @ [v])"
      using vs ws by (intro builtI [of _ _ ms "ls @ [v]" ws]) (auto simp: ms dest: ls)
    ultimately show ?thesis by blast
  next
    case False
    then have nil: "ls = []" and v: "unat v \<le> 512 \<or> unat v div 32 \<le> length vs + 1" by auto
    have small: "unat v div 32 + 1 < 2 ^ 27" using v len by auto
    obtain d' ws' where d': "upb_MiniTableEnum_BuildValue realloc v d = Ok d'" "counts_ok d'"
      "table_holds (enum_table d') ws' []" "length ws' = max (length ws) (unat v div 32 + 1)"
      "\<And>u. mask_bit ws' u \<longleftrightarrow> mask_bit ws u \<or> u = v" "unat (enum_value_count d') = length vs + 1"
      using BuildValue_mask [OF tr co t [unfolded nil] _ _ small] v vc len by auto
    have "length ws' = max 2 (unat v div 32 + 1)"
    proof (cases "vs = []")
      case False
      then have "unat (last vs) div 32 \<le> unat v div 32" using less by (intro div_le_mono) auto
      then show ?thesis using d'(4) last(1) [OF nil False] by (simp add: max.assoc max_absorb2)
    qed (use last(2) nil d'(4) in simp)
    moreover have "unat v div 32 + 1 \<le> 17 + (length ms + 1)" using v vs nil by auto
    ultimately have "built d' (vs @ [v])"
      using d'(2,3,6) vs nil ws v
      by (intro builtI [of _ _ "ms @ [v]" "[]" ws']) (auto simp: d'(5) ms)
    with d'(1) show ?thesis by blast
  qed
qed

section \<open>The text as a list of values\<close>

fun build_values :: "'a realloc \<Rightarrow> u32 list \<Rightarrow> 'a upb_MdEnumDecoder \<Rightarrow>
    (md_error, 'a upb_MdEnumDecoder) cres" where
  "build_values realloc [] d = Ok d"
| "build_values realloc (v # vs) d =
     cbind (upb_MiniTableEnum_BuildValue realloc v d) (build_values realloc vs)"

lemma build_values_append:
  "build_values realloc (vs @ us) d = cbind (build_values realloc vs d) (build_values realloc us)"
proof (induction vs arbitrary: d)
  case (Cons v vs)
  have "build_values realloc (vs @ us) = (\<lambda>d. cbind (build_values realloc vs d) (build_values realloc us))"
    by (rule ext) (rule Cons.IH)
  then show ?case by (simp add: cbind_assoc)
qed simp

lemma build_values_total:
  assumes "total_realloc realloc" "built d []" "sorted_wrt (<) vs" "length vs + 1 < 2 ^ 27"
    "avoids_word_16 vs"
  shows "\<exists>d'. build_values realloc vs d = Ok d' \<and> built d' vs"
proof -
  have "\<exists>d'. build_values realloc us d = Ok d' \<and> built d' us" if "vs = us @ rs" for us rs
    using that
  proof (induction us arbitrary: rs rule: rev_induct)
    case (snoc v us)
    then obtain d1 where d1: "build_values realloc us d = Ok d1" "built d1 us" by force
    have avoid: "16 \<le> length us + 1" if "us \<noteq> []" "last us = 512" "v < 544"
    proof -
      have "512 \<in> set us" using that by (metis last_in_set)
      moreover from this have "512 < v" using assms(3) snoc.prems by (simp add: sorted_wrt_append)
      moreover have "filter (\<lambda>u. u \<le> v) vs = us @ [v]"
      proof -
        have "filter (\<lambda>u. u \<le> v) us = us" "filter (\<lambda>u. u \<le> v) rs = []"
          using assms(3) snoc.prems
          by (auto simp: sorted_wrt_append filter_id_conv filter_empty_conv intro: less_imp_le)
        then show ?thesis by (simp add: snoc.prems)
      qed
      moreover have "v \<in> set vs" "set us \<subseteq> set vs" by (auto simp: snoc.prems)
      ultimately have "16 \<le> length (us @ [v])"
        using mp [OF assms(5) [unfolded avoids_word_16_def], THEN bspec, of v] that(3) by (simp add: subset_iff)
      then show ?thesis by simp
    qed
    have "sorted_wrt (<) (us @ [v])" using assms(3) snoc.prems by (simp add: sorted_wrt_append)
    moreover have "length us + 2 < 2 ^ 27" using assms(4) snoc.prems by simp
    ultimately obtain d2 where "upb_MiniTableEnum_BuildValue realloc v d1 = Ok d2" "built d2 (us @ [v])"
      using built_step [OF assms(1) d1(2) _ _ avoid] by blast
    with d1(1) show ?case by (simp add: build_values_append)
  qed (use assms(2) in simp)
  from this [of vs "[]"] show ?thesis by simp
qed

definition mask_list :: "u64 \<Rightarrow> u32 \<Rightarrow> u32 list" where
  "mask_list m base = map (\<lambda>i. base + of_nat i) (filter (bit m) [0..<5])"

lemma and_1_iff_bit_0: "m AND 1 \<noteq> 0 \<longleftrightarrow> bit (m :: 'a :: len word) 0"
  using and_push_bit_1_iff [of m 0] by simp

lemma build_mask_bits_eq:
  "build_mask_bits realloc n m base d =
     cbind (build_values realloc (map (\<lambda>i. base + of_nat i) (filter (bit m) [0..<n])) d)
       (\<lambda>d. Ok (base + of_nat n, d))"
proof (induction n arbitrary: m base d)
  case (Suc n)
  have *: "[0..<Suc n] = 0 # map Suc [0..<n]" by (simp add: map_Suc_upt upt_conv_Cons del: upt_Suc)
  have "map (\<lambda>i. base + of_nat i) (filter (bit m) [0..<Suc n]) =
    (if bit m 0 then [base] else []) @
    map (\<lambda>i. (base + 1) + of_nat i) (filter (bit (drop_bit 1 m)) [0..<n])"
    unfolding * by (simp add: filter_map comp_def bit_drop_bit_eq add.assoc)
  moreover have "build_mask_bits realloc n (drop_bit 1 m) (base + 1) = (\<lambda>d.
      cbind (build_values realloc (map (\<lambda>i. (base + 1) + of_nat i) (filter (bit (drop_bit 1 m)) [0..<n])) d)
        (\<lambda>d. Ok ((base + 1) + of_nat n, d)))"
    by (rule ext) (rule Suc.IH)
  ultimately show ?case
    by (simp add: build_values_append cbind_assoc and_1_iff_bit_0 add.assoc del: upt_Suc)
qed simp

function enum_values :: "bytes \<Rightarrow> u32 \<Rightarrow> u32 list option" where
  "enum_values [] base = Some []"
| "enum_values (ch # ptr) base =
     (if sint ch \<le> sint kUpb_EncodedValue_MaxEnumMask then
        map_option ((@) (mask_list (word_of_int (upb_FromBase92 ch)) base)) (enum_values ptr (base + 5))
      else if sint kUpb_EncodedValue_MinSkip \<le> sint ch \<and> sint ch \<le> sint kUpb_EncodedValue_MaxSkip
      then
        (case upb_MdDecoder_DecodeBase92Varint ch kUpb_EncodedValue_MinSkip
                kUpb_EncodedValue_MaxSkip ptr of
           UB \<Rightarrow> None
         | Fail e \<Rightarrow> None
         | Ok (ptr', skip) \<Rightarrow> enum_values ptr' (base + skip))
      else None)"
  by pat_completeness auto
termination
  by (relation "measure (\<lambda>(ptr, _). length ptr)") (auto dest: DecodeBase92Varint_length)

lemma build_enum_loop_eq:
  "enum_values bs base = Some vs \<Longrightarrow> build_enum_loop realloc bs base d = build_values realloc vs d"
proof (induction bs base arbitrary: vs d rule: enum_values.induct)
  case (2 ch ptr base)
  show ?case
  proof (cases "sint ch \<le> sint kUpb_EncodedValue_MaxEnumMask")
    case True
    then obtain us where us: "enum_values ptr (base + 5) = Some us"
      "vs = mask_list (word_of_int (upb_FromBase92 ch)) base @ us"
      using "2.prems" by auto
    have "filter (bit (word_of_int (upb_FromBase92 ch) :: u32)) [0..<5] =
      filter (bit (word_of_int (upb_FromBase92 ch) :: u64)) [0..<5]"
      by (rule filter_cong) (auto simp: bit_word_of_int_iff)
    then show ?thesis
      using True us "2.IH"(1) [OF True us(1)]
      by (simp add: build_mask_bits_eq build_values_append mask_list_def cbind_assoc)
  next
    case False
    then show ?thesis
      using "2.prems" "2.IH"(2) by (auto split: if_splits cres.splits)
  qed
qed simp

section \<open>The writer\<close>

definition continues :: "bytes \<Rightarrow> bool" where
  "continues rest \<longleftrightarrow> rest = [] \<or> sint (hd rest) \<le> sint kUpb_EncodedValue_MaxEnumMask"

text \<open>What the text so far, \<open>bs\<close>, means: the values \<open>fl\<close>, and whatever follows (up to the
  restriction \<open>P\<close> on how it starts) is read with the base \<open>base\<close>.\<close>

definition reads_as :: "bytes \<Rightarrow> (bytes \<Rightarrow> bool) \<Rightarrow> u32 list \<Rightarrow> u32 \<Rightarrow> bool" where
  "reads_as bs P fl base \<longleftrightarrow>
     (\<forall>rest. P rest \<longrightarrow> enum_values (bs @ rest) 0 = map_option ((@) fl) (enum_values rest base))"

definition enum_written :: "upb_MtDataEncoder \<Rightarrow> u64 \<Rightarrow> u32 \<Rightarrow> u32 list \<Rightarrow> (bytes \<Rightarrow> bool) \<Rightarrow> bool" where
  "enum_written e m base fl P \<longleftrightarrow>
     enc_state e = EnumState \<lparr>present_values_mask = m, last_written_value = base\<rparr> \<and>
     (\<exists>bs. enc_out e = kUpb_EncodedVersion_EnumV1 # bs \<and> reads_as bs P fl base)"

lemma max_enum_mask_char: "kUpb_EncodedValue_MaxEnumMask = kUpb_ToBase92 ! 31"
  by (simp add: md_char_defs kUpb_ToBase92_codes)

lemma mask_char:
  assumes "i < 32"
  shows "sint (kUpb_ToBase92 ! i) \<le> sint kUpb_EncodedValue_MaxEnumMask"
    and "word_of_int (upb_FromBase92 (kUpb_ToBase92 ! i)) = (of_nat i :: u64)"
proof -
  have "kUpb_ToBase92 ! i \<le> kUpb_ToBase92 ! 31" using assms by (intro kUpb_ToBase92_mono) auto
  then show "sint (kUpb_ToBase92 ! i) \<le> sint kUpb_EncodedValue_MaxEnumMask"
    using assms by (simp add: sint_kUpb_ToBase92 word_le_def max_enum_mask_char)
qed (use assms in \<open>simp add: upb_FromBase92_ToBase92(1)\<close>)

lemma Flush_enum:
  assumes "enum_written e m base fl continues" "unat m < 32"
    and "length (enc_out e) < buf_start e + 16" "length (enc_out e) < enc_end e"
  obtains e' where "upb_MtDataEncoder_FlushDenseEnumMask e = Ok e'"
    "enum_written e' 0 (base + 5) (fl @ mask_list m base) (\<lambda>_. True)"
    "length (enc_out e') = length (enc_out e) + 1" "buf_start e' = buf_start e" "enc_end e' = enc_end e"
proof -
  let ?c = "kUpb_ToBase92 ! unat m"
  have "sint (ucast m :: u8) = int (unat m)"
  proof -
    have m: "uint m < 32" using assms(2) by (metis nat_less_numeral_power_cancel_iff nat_uint_eq numeral_less_iff
          of_nat_less_iff of_nat_numeral of_nat_unat uint_nat)
    moreover from this have "uint (ucast m :: u8) = uint m"
      by (simp add: unsigned_ucast_eq take_bit_int_eq_self)
    ultimately show ?thesis
      by (simp only: sint_uint) (subst signed_take_bit_int_eq_self, simp_all add: order_trans [OF _ uint_ge_0])
  qed
  then have flush: "upb_MtDataEncoder_FlushDenseEnumMask e = Ok (e\<lparr>enc_out := enc_out e @ [?c],
      enc_state := EnumState \<lparr>present_values_mask = 0, last_written_value = base + 5\<rparr>\<rparr>)"
    using assms by (auto simp: upb_MtDataEncoder_FlushDenseEnumMask_def enum_written_def cres_simps
        simp del: of_nat_unat)
  obtain bs where bs: "enc_out e = kUpb_EncodedVersion_EnumV1 # bs" "reads_as bs continues fl base"
    using assms(1) by (auto simp: enum_written_def)
  have "enum_values (bs @ ?c # rest) 0 = map_option ((@) (fl @ mask_list m base)) (enum_values rest (base + 5))" for rest
    using bs(2) mask_char [OF assms(2)]
    by (simp add: reads_as_def continues_def option.map_comp comp_def fun_eq_iff
        cong: option.map_cong)
  then have "reads_as (bs @ [?c]) (\<lambda>_. True) (fl @ mask_list m base) (base + 5)"
    by (simp add: reads_as_def)
  then show thesis
    using bs(1) by (intro that [OF flush]) (auto simp: enum_written_def)
qed

lemma Skip_enum:
  assumes "enum_written e 0 base fl (\<lambda>_. True)"
    and "buf_start e \<le> length (enc_out e)" "length (enc_out e) \<le> buf_start e + 8"
      "length (enc_out e) + 8 \<le> enc_end e"
  obtains e' where "upb_MtDataEncoder_PutBase92Varint e delta
      kUpb_EncodedValue_MinSkip kUpb_EncodedValue_MaxSkip = Ok e'" "enc_state e' = enc_state e"
    "\<exists>bs. enc_out e' = kUpb_EncodedVersion_EnumV1 # bs \<and> reads_as bs continues fl (base + delta)"
    "length (enc_out e') \<le> length (enc_out e) + 8" "buf_start e' = buf_start e" "enc_end e' = enc_end e"
    "length (enc_out e) \<le> length (enc_out e')"
proof -
  obtain c cs where c: "length (c # cs) \<le> 8"
    "upb_MtDataEncoder_PutBase92Varint e delta kUpb_EncodedValue_MinSkip kUpb_EncodedValue_MaxSkip =
      Ok (e\<lparr>enc_out := enc_out e @ c # cs\<rparr>)"
    "uint kUpb_EncodedValue_MinSkip \<le> sint c" "sint c \<le> uint kUpb_EncodedValue_MaxSkip"
    "\<And>rest. not_in_range kUpb_EncodedValue_MinSkip kUpb_EncodedValue_MaxSkip rest \<Longrightarrow>
       upb_Base92_DecodeVarint c kUpb_EncodedValue_MinSkip kUpb_EncodedValue_MaxSkip (cs @ rest) = Some (rest, delta)"
    by (rule varint_written [of kUpb_EncodedValue_MinSkip kUpb_EncodedValue_MaxSkip e])
      (use assms in \<open>auto simp: varint_ranges_def\<close>)
  obtain bs where bs: "enc_out e = kUpb_EncodedVersion_EnumV1 # bs" "reads_as bs (\<lambda>_. True) fl base"
    using assms(1) by (auto simp: enum_written_def)
  have "enum_values (c # cs @ rest) base = enum_values rest (base + delta)" if "continues rest" for rest
  proof -
    have "not_in_range kUpb_EncodedValue_MinSkip kUpb_EncodedValue_MaxSkip rest"
      using that by (auto simp: not_in_range_def continues_def md_char_defs)
    then show ?thesis
      using c(3-5) by (simp add: upb_MdDecoder_DecodeBase92Varint_def) (simp add: md_char_defs)
  qed
  then have "reads_as (bs @ c # cs) continues fl (base + delta)"
    using bs(2) by (simp add: reads_as_def)
  with c(1,2) bs(1) show thesis by (intro that [OF c(2)]) auto
qed

lemma mask_list_insert:
  assumes "drop_bit k m = 0" "k < 5"
  shows "mask_list (m OR push_bit k 1) base = mask_list m base @ [base + of_nat k]"
proof -
  have hi: "\<not> bit m i" if "k \<le> i" for i
    using arg_cong [OF assms(1), of "\<lambda>w. bit w (i - k)"] that by (simp add: bit_drop_bit_eq)
  have "[0..<5] = [0..<k] @ k # [Suc k..<5]"
    using assms(2) upt_add_eq_append [of 0 k "5 - k"] by (simp add: upt_conv_Cons)
  then show ?thesis
    using hi assms(2)
    by (simp add: mask_list_def bit_or_iff bit_push_bit_iff bit_1_iff filter_empty_conv
        del: push_bit_of_1 cong: conj_cong)
      (rule arg_cong [where f = "map _"], rule filter_cong, auto simp: bit_or_iff bit_exp_iff)
qed

text \<open>Between two calls: the values \<open>vs\<close> are those of the text and those of the pending mask.
  \<open>room\<close> is what one call may use.\<close>

definition written :: "upb_MtDataEncoder \<Rightarrow> u32 list \<Rightarrow> bool" where
  "written e vs \<longleftrightarrow> (\<exists>m base fl.
     enum_written e m base fl (if m = 0 then (\<lambda>_. True) else continues) \<and>
     vs = fl @ mask_list m base \<and> unat m < 32 \<and>
     (\<forall>i. bit m i \<longrightarrow> unat base + i < 2 ^ 32) \<and> (m = 0 \<longrightarrow> base = 0))"

definition put_step :: "upb_MtDataEncoder \<Rightarrow> upb_MtDataEncoder \<Rightarrow> nat \<Rightarrow> bool" where
  "put_step e e' n \<longleftrightarrow> enc_end e' = enc_end e \<and> buf_start e' = buf_start e \<and>
     length (enc_out e) \<le> length (enc_out e') \<and> length (enc_out e') \<le> length (enc_out e) + n"

lemma small_mask_bits: "unat (m :: u64) < 32 \<Longrightarrow> bit m i \<Longrightarrow> i < 5"
  using not_bit_less_exp [of "unat m" 5 i] by (rule_tac ccontr) (simp add: bit_unsigned_iff not_less)

lemma small_mask: "(\<And>i. 5 \<le> i \<Longrightarrow> \<not> bit (m :: u64) i) \<Longrightarrow> unat m < 32"
proof -
  assume "\<And>i. 5 \<le> i \<Longrightarrow> \<not> bit m i"
  then have "take_bit 5 m = m"
    by (intro bit_word_eqI) (metis bit_take_bit_iff not_less)
  then have "unat m = unat m mod 2 ^ 5" by (metis unat_take_bit_mod)
  also have "\<dots> < 2 ^ 5" by (rule mod_less_divisor) simp
  finally show ?thesis by simp
qed

lemma enum_written_mono:
  "enum_written e m base fl P \<Longrightarrow> (\<And>rest. Q rest \<Longrightarrow> P rest) \<Longrightarrow> enum_written e m base fl Q"
  unfolding enum_written_def reads_as_def by meson

text \<open>The last part of \<open>PutEnumValue\<close>: \<open>delta\<close> is now less than 5.\<close>

lemma set_value_bit:
  assumes "enum_written e m base fl continues" "unat m < 32"
    and "\<And>i. bit m i \<Longrightarrow> unat base + i < unat val" "unat base \<le> unat val" "unat val - unat base < 5"
    and "delta = val - base"
  shows "cbind (get_enum_state (enc_state e)) (\<lambda>s2.
         cassert (drop_bit (unat delta) (present_values_mask s2) = 0)
           (Ok (e\<lparr>enc_state := EnumState
              (s2\<lparr>present_values_mask := present_values_mask s2 OR push_bit (unat delta) 1\<rparr>)\<rparr>))) =
      Ok (e\<lparr>enc_state := EnumState \<lparr>present_values_mask = m OR push_bit (unat delta) 1,
            last_written_value = base\<rparr>\<rparr>)" (is ?eq)
    and "written (e\<lparr>enc_state := EnumState \<lparr>present_values_mask = m OR push_bit (unat delta) 1,
            last_written_value = base\<rparr>\<rparr>) ((fl @ mask_list m base) @ [val])" (is ?written)
proof -
  let ?k = "unat delta" let ?m = "m OR push_bit ?k 1"
  have k: "?k = unat val - unat base"
    using assms(4,6) by (simp add: unat_sub word_le_nat_alt)
  have hi: "\<not> bit m i" if "?k \<le> i" for i using assms(3) [of i] assms(4) that k by auto
  have drop: "drop_bit ?k m = 0"
    by (rule bit_word_eqI) (simp add: bit_drop_bit_eq hi)
  with assms(1) show ?eq by (simp add: enum_written_def)
  have bit_m: "bit ?m i \<longleftrightarrow> bit m i \<or> i = ?k" for i
    using assms(5) k by (auto simp: bit_or_iff bit_push_bit_iff bit_1_iff simp del: push_bit_of_1)
  have "base + of_nat ?k = val" using assms(6) by simp
  then have "mask_list ?m base = mask_list m base @ [val]"
    using mask_list_insert [OF drop, of base] assms(5) k by simp
  moreover have "unat ?m < 32"
  proof -
    have "\<not> bit ?m i" if "5 \<le> i" for i
      using small_mask_bits [OF assms(2), of i] that assms(5) k unfolding bit_m by auto
    then show ?thesis by (rule small_mask)
  qed
  moreover have "unat base + i < 2 ^ 32" if "bit ?m i" for i
  proof -
    have "unat base + i \<le> unat val" using that assms(3) [of i] assms(4) k unfolding bit_m by auto
    also have "unat val < 2 ^ 32" by simp
    finally show ?thesis .
  qed
  moreover have "?m \<noteq> 0" using bit_m [of ?k] by (intro notI) simp
  moreover have "enum_written (e\<lparr>enc_state := EnumState \<lparr>present_values_mask = ?m,
            last_written_value = base\<rparr>\<rparr>) ?m base fl continues"
    using assms(1) by (simp add: enum_written_def)
  ultimately show ?written
    unfolding written_def by (intro exI [of _ ?m] exI [of _ base] exI [of _ fl]) (simp del: push_bit_of_1)
qed

lemma PutEnumValue_written:
  assumes "written e vs" "\<And>v. v \<in> set vs \<Longrightarrow> v < val" "length (enc_out e) + 16 \<le> enc_end e"
  obtains e' where "upb_MtDataEncoder_PutEnumValue e val = Ok e'" "written e' (vs @ [val])"
    "enc_end e' = enc_end e" "length (enc_out e') \<le> length (enc_out e) + 9"
proof -
  let ?e = "upb_MtDataEncoder_GetInternal e"
  from assms(1) obtain m base fl where w: "enum_written e m base fl (if m = 0 then (\<lambda>_. True) else continues)"
    and vs: "vs = fl @ mask_list m base" and m: "unat m < 32" and wrap: "\<And>i. bit m i \<Longrightarrow> unat base + i < 2 ^ 32"
    and zero: "m = 0 \<Longrightarrow> base = 0" unfolding written_def by blast
  have below: "unat base + i < unat val" if "bit m i" for i
  proof -
    have "base + of_nat i \<in> set vs" using that small_mask_bits [OF m that] by (auto simp: vs mask_list_def)
    from assms(2) [OF this] have "unat (base + of_nat i) < unat val" by (simp add: word_less_nat_alt)
    moreover have "unat (base + of_nat i) = unat base + i"
      using wrap [OF that] by (simp add: unat_word_ariths unat_of_nat)
    ultimately show ?thesis by simp
  qed
  have le: "unat base \<le> unat val"
  proof (cases "m = 0")
    case False
    then obtain i where "bit m i" using bit_word_eqI [of m 0] by auto
    with below [of i] show ?thesis by simp
  qed (simp add: zero)
  define delta where "delta = val - base"
  have delta: "unat delta = unat val - unat base" using le by (simp add: delta_def unat_sub word_le_nat_alt)
  have we: "enum_written ?e m base fl (if m = 0 then (\<lambda>_. True) else continues)"
    using w by (simp add: enum_written_def upb_MtDataEncoder_GetInternal_def)
  have st: "get_enum_state (enc_state ?e) = Ok \<lparr>present_values_mask = m, last_written_value = base\<rparr>"
    using we by (simp add: enum_written_def)
  have "\<exists>e1 m1 base1 fl1. (if 5 \<le> delta \<and> m \<noteq> 0
        then cbind (upb_MtDataEncoder_FlushDenseEnumMask ?e) (\<lambda>e1. Ok (e1, delta - 5))
        else Ok (?e, delta)) = Ok (e1, val - base1) \<and> put_step ?e e1 1 \<and> unat m1 < 32 \<and>
      enum_written e1 m1 base1 fl1 (if m1 = 0 then (\<lambda>_. True) else continues) \<and>
      vs = fl1 @ mask_list m1 base1 \<and> unat base1 \<le> unat val \<and>
      (\<forall>i. bit m1 i \<longrightarrow> unat base1 + i < unat val) \<and> (m1 \<noteq> 0 \<longrightarrow> unat val - unat base1 < 5)"
  proof (cases "5 \<le> delta \<and> m \<noteq> 0")
    case True
    have "buf_start ?e = length (enc_out ?e)" by (simp add: upb_MtDataEncoder_GetInternal_def)
    then obtain e1 where "upb_MtDataEncoder_FlushDenseEnumMask ?e = Ok e1"
      "enum_written e1 0 (base + 5) (fl @ mask_list m base) (\<lambda>_. True)"
      "length (enc_out e1) = length (enc_out ?e) + 1" "buf_start e1 = buf_start ?e" "enc_end e1 = enc_end ?e"
      using Flush_enum [of ?e m base fl thesis] we m assms(3) True
      by (auto simp: upb_MtDataEncoder_GetInternal_def)
    moreover have "5 \<le> unat delta" using True by (simp add: word_le_nat_alt)
    moreover from this have "unat base + 5 < 4294967296"
      using delta unat_less_numeral_power(3) [of val] by linarith
    then have "unat (base + 5) = unat base + 5" by (simp add: unat_word_ariths)
    ultimately show ?thesis
      using True delta by (intro exI [of _ e1] exI [of _ 0] exI [of _ "base + 5"] exI [of _ vs])
        (simp add: put_step_def delta_def vs mask_list_def)
  next
    case False
    then have "m \<noteq> 0 \<longrightarrow> unat val - unat base < 5" using delta by (auto simp: word_le_nat_alt)
    with False we m vs le below show ?thesis
      by (intro exI [of _ ?e] exI [of _ m] exI [of _ base] exI [of _ fl]) (auto simp: put_step_def delta_def)
  qed
  then obtain e1 m1 base1 fl1 where s1: "(if 5 \<le> delta \<and> m \<noteq> 0
        then cbind (upb_MtDataEncoder_FlushDenseEnumMask ?e) (\<lambda>e1. Ok (e1, delta - 5))
        else Ok (?e, delta)) = Ok (e1, val - base1)" "put_step ?e e1 1" "unat m1 < 32"
      "enum_written e1 m1 base1 fl1 (if m1 = 0 then (\<lambda>_. True) else continues)"
      "vs = fl1 @ mask_list m1 base1" "unat base1 \<le> unat val"
      "\<And>i. bit m1 i \<Longrightarrow> unat base1 + i < unat val" "m1 \<noteq> 0 \<Longrightarrow> unat val - unat base1 < 5"
    by blast
  have ge: "5 \<le> val - base1 \<longleftrightarrow> 5 \<le> unat val - unat base1"
    using s1(6) by (simp add: word_le_nat_alt unat_sub)
  have "\<exists>e2 m2 base2 fl2. (if 5 \<le> val - base1
            then cbind (upb_MtDataEncoder_PutBase92Varint e1 (val - base1)
                          kUpb_EncodedValue_MinSkip kUpb_EncodedValue_MaxSkip) (\<lambda>e2.
                 cbind (get_enum_state (enc_state e2)) (\<lambda>s2.
                   Ok (e2\<lparr>enc_state := EnumState
                       (s2\<lparr>last_written_value := last_written_value s2 + (val - base1)\<rparr>)\<rparr>, 0)))
            else Ok (e1, val - base1)) = Ok (e2, val - base2) \<and> put_step ?e e2 9 \<and> unat m2 < 32 \<and>
      enum_written e2 m2 base2 fl2 continues \<and> vs = fl2 @ mask_list m2 base2 \<and> unat base2 \<le> unat val \<and>
      (\<forall>i. bit m2 i \<longrightarrow> unat base2 + i < unat val) \<and> unat val - unat base2 < 5"
  proof (cases "5 \<le> val - base1")
    case False
    then show ?thesis
      using s1 ge by (intro exI [of _ e1] exI [of _ m1] exI [of _ base1] exI [of _ fl1])
        (auto simp: put_step_def intro: enum_written_mono split: if_splits)
  next
    case True
    with ge s1(8) have m1: "m1 = 0" by force
    have "enum_written e1 0 base1 fl1 (\<lambda>_. True)" using s1(4) m1 by simp
    moreover have "buf_start e1 \<le> length (enc_out e1)" "length (enc_out e1) \<le> buf_start e1 + 8"
      "length (enc_out e1) + 8 \<le> enc_end e1"
      using s1(2) assms(3) by (auto simp: put_step_def upb_MtDataEncoder_GetInternal_def)
    ultimately obtain e2 where e2: "upb_MtDataEncoder_PutBase92Varint e1 (val - base1)
      kUpb_EncodedValue_MinSkip kUpb_EncodedValue_MaxSkip = Ok e2" "enc_state e2 = enc_state e1"
    "\<exists>bs. enc_out e2 = kUpb_EncodedVersion_EnumV1 # bs \<and> reads_as bs continues fl1 (base1 + (val - base1))"
    "length (enc_out e2) \<le> length (enc_out e1) + 8" "buf_start e2 = buf_start e1" "enc_end e2 = enc_end e1"
    "length (enc_out e1) \<le> length (enc_out e2)"
      by (rule Skip_enum)
    let ?e3 = "e2\<lparr>enc_state := EnumState \<lparr>present_values_mask = 0, last_written_value = val\<rparr>\<rparr>"
    have "enum_written ?e3 0 val fl1 continues"
      using e2(3) by (simp add: enum_written_def)
    then show ?thesis
      using True e2 s1(2,4,5) m1 by (intro exI [of _ ?e3] exI [of _ 0] exI [of _ val] exI [of _ fl1])
        (auto simp: put_step_def enum_written_def mask_list_def)
  qed
  then obtain e2 m2 base2 fl2 where s2: "(if 5 \<le> val - base1
            then cbind (upb_MtDataEncoder_PutBase92Varint e1 (val - base1)
                          kUpb_EncodedValue_MinSkip kUpb_EncodedValue_MaxSkip) (\<lambda>e2.
                 cbind (get_enum_state (enc_state e2)) (\<lambda>s2.
                   Ok (e2\<lparr>enc_state := EnumState
                       (s2\<lparr>last_written_value := last_written_value s2 + (val - base1)\<rparr>)\<rparr>, 0)))
            else Ok (e1, val - base1)) = Ok (e2, val - base2)" "put_step ?e e2 9" "unat m2 < 32"
      "enum_written e2 m2 base2 fl2 continues" "vs = fl2 @ mask_list m2 base2" "unat base2 \<le> unat val"
      "\<And>i. bit m2 i \<Longrightarrow> unat base2 + i < unat val" "unat val - unat base2 < 5"
    by blast
  note last = set_value_bit [OF s2(4,3,7,6,8) refl]
  let ?e' = "e2\<lparr>enc_state := EnumState \<lparr>present_values_mask = m2 OR push_bit (unat (val - base2)) 1,
            last_written_value = base2\<rparr>\<rparr>"
  have "upb_MtDataEncoder_PutEnumValue e val = Ok ?e'"
    unfolding upb_MtDataEncoder_PutEnumValue_def Let_def st cbind.simps
      upb_MtDataEncoderInternal_EnumState.select_convs delta_def [symmetric] s1(1) prod.case s2(1) last(1)
    using le last(1) by (simp add: word_le_nat_alt del: push_bit_of_1)
  moreover have "written ?e' (vs @ [val])" using last(2) s2(5) by simp
  ultimately show thesis
    using that s2(2) by (simp add: put_step_def upb_MtDataEncoder_GetInternal_def)
qed


fun put_enum_values :: "u32 list \<Rightarrow> upb_MtDataEncoder \<Rightarrow> enc_res" where
  "put_enum_values [] e = Ok e"
| "put_enum_values (v # vs) e = cbind (upb_MtDataEncoder_PutEnumValue e v) (put_enum_values vs)"

lemma put_enum_values_written:
  assumes "written e us" "sorted_wrt (<) (us @ vs)" "length (enc_out e) + 9 * length vs + 16 \<le> enc_end e"
  shows "\<exists>e'. put_enum_values vs e = Ok e' \<and> written e' (us @ vs) \<and> enc_end e' = enc_end e \<and>
    length (enc_out e') \<le> length (enc_out e) + 9 * length vs"
  using assms
proof (induction vs arbitrary: e us)
  case (Cons v vs)
  have "v' < v" if "v' \<in> set us" for v' using Cons.prems(2) that by (simp add: sorted_wrt_append)
  then obtain e1 where e1: "upb_MtDataEncoder_PutEnumValue e v = Ok e1" "written e1 (us @ [v])"
    "enc_end e1 = enc_end e" "length (enc_out e1) \<le> length (enc_out e) + 9"
    using PutEnumValue_written [OF Cons.prems(1)] Cons.prems(3) by auto
  have "sorted_wrt (<) ((us @ [v]) @ vs)" using Cons.prems(2) by simp
  moreover have "length (enc_out e1) + 9 * length vs + 16 \<le> enc_end e1" using e1 Cons.prems(3) by simp
  ultimately show ?case using Cons.IH [OF e1(2)] e1 by fastforce
qed simp

lemma EndEnum_written:
  assumes "written e vs" "length (enc_out e) + 16 \<le> enc_end e"
  obtains e' bs where "upb_MtDataEncoder_EndEnum e = Ok e'"
    "enc_out e' = kUpb_EncodedVersion_EnumV1 # bs" "enum_values bs 0 = Some vs"
proof -
  let ?e = "upb_MtDataEncoder_GetInternal e"
  from assms(1) obtain m base fl where w: "enum_written e m base fl (if m = 0 then (\<lambda>_. True) else continues)"
    and vs: "vs = fl @ mask_list m base" and m: "unat m < 32" unfolding written_def by blast
  then have we: "enum_written ?e m base fl continues"
    by (auto simp: enum_written_def upb_MtDataEncoder_GetInternal_def reads_as_def split: if_splits)
  obtain e1 where "upb_MtDataEncoder_EndEnum e = Ok e1"
    "\<exists>m base. enum_written e1 m base vs continues"
  proof (cases "m = 0")
    case True
    with we vs show thesis
      by (intro that [of ?e]) (auto simp: upb_MtDataEncoder_EndEnum_def Let_def enum_written_def mask_list_def)
  next
    case False
    have b: "buf_start ?e = length (enc_out ?e)" by (simp add: upb_MtDataEncoder_GetInternal_def)
    obtain e1 where "upb_MtDataEncoder_FlushDenseEnumMask ?e = Ok e1"
      "enum_written e1 0 (base + 5) (fl @ mask_list m base) (\<lambda>_. True)"
      using Flush_enum [OF we m] assms(2) b by (auto simp: upb_MtDataEncoder_GetInternal_def)
    with False we vs show thesis
      by (intro that [of e1])
        (auto simp: upb_MtDataEncoder_EndEnum_def Let_def intro: enum_written_mono simp: enum_written_def [of ?e])
  qed
  moreover from this obtain bs where "enc_out e1 = kUpb_EncodedVersion_EnumV1 # bs" "enum_values (bs @ []) 0 = Some vs"
    unfolding enum_written_def reads_as_def continues_def by force
  ultimately show thesis using that by simp
qed

definition enum_start :: "'a \<Rightarrow> 'a upb_MdEnumDecoder" where
  "enum_start a = \<lparr>ed_arena = a, enum_table = \<lparr>mask_limit = 64, value_count = 0, enum_data = [0, 0]\<rparr>,
     enum_value_count = 0, enum_data_count = 2, enum_data_capacity = 2\<rparr>"

lemma Build_eq:
  assumes "malloc 16 a = (True, a')" "enum_values bs 0 = Some vs"
  shows "upb_MiniTableEnum_Build malloc realloc garbage (kUpb_EncodedVersion_EnumV1 # bs) a =
    build_values realloc vs (enum_start a')"
  by (simp add: upb_MiniTableEnum_Build_def upb_MiniTableEnum_Size_def assms(1) Let_def
      upb_MtDecoder_DoBuildMiniTableEnum_def upb_MiniTable_AddEnumDataMember_def
      build_enum_loop_eq [OF assms(2)] enum_start_def)

lemma built_enum_start: "built (enum_start a) []"
proof -
  have "mask_bit [0, 0] v = False" for v
    by (cases "unat v div 32") (auto simp: mask_bit_def)
  then show ?thesis by (simp add: enum_start_def built_def counts_ok_def table_holds_def)
qed

section \<open>The properties\<close>

text \<open>Writing an enum: \<open>StartEnum\<close>, the values in order, \<open>EndEnum\<close>.\<close>

definition encode_enum :: "u32 list \<Rightarrow> nat \<Rightarrow> (unit, bytes) cres" where
  "encode_enum vs room =
     cbind (upb_MtDataEncoder_StartEnum
              \<lparr>enc_out = [], enc_end = room, buf_start = 0, enc_state = Uninitialized\<rparr>) (\<lambda>e.
     cbind (put_enum_values vs e) (\<lambda>e.
     cbind (upb_MtDataEncoder_EndEnum e) (\<lambda>e. Ok (enc_out e))))"

lemma encode_enum_written:
  assumes "sorted_wrt (<) vs" "9 * length vs + 17 \<le> room"
  obtains bs where "encode_enum vs room = Ok (kUpb_EncodedVersion_EnumV1 # bs)" "enum_values bs 0 = Some vs"
proof -
  let ?e0 = "\<lparr>enc_out = [kUpb_EncodedVersion_EnumV1], enc_end = room, buf_start = 0,
      enc_state = EnumState \<lparr>present_values_mask = 0, last_written_value = 0\<rparr>\<rparr>"
  have start: "upb_MtDataEncoder_StartEnum
      \<lparr>enc_out = [], enc_end = room, buf_start = 0, enc_state = Uninitialized\<rparr> = Ok ?e0"
    using assms(2) by (simp add: upb_MtDataEncoder_StartEnum_def PutRaw_Ok_iff upb_MtDataEncoder_GetInternal_def)
  have "enum_written ?e0 0 0 [] (\<lambda>_. True)"
    by (auto simp: enum_written_def reads_as_def option.map_ident append_Nil [abs_def]
        intro!: exI [of _ "[]"])
  then have "written ?e0 []"
    unfolding written_def by (intro exI [of _ 0] exI [of _ "[]"]) (simp add: mask_list_def)
  with put_enum_values_written [of ?e0 "[]" vs] assms obtain e1 where
    e1: "put_enum_values vs ?e0 = Ok e1" "written e1 vs" "enc_end e1 = room"
      "length (enc_out e1) \<le> 1 + 9 * length vs" by auto
  from e1(3,4) assms(2) obtain e' bs where "upb_MtDataEncoder_EndEnum e1 = Ok e'"
    "enc_out e' = kUpb_EncodedVersion_EnumV1 # bs" "enum_values bs 0 = Some vs"
    using EndEnum_written [OF e1(2)] by auto
  with start e1(1) show thesis by (intro that) (simp_all add: encode_enum_def)
qed

text \<open>
  C17: validation of closed enums. For values written in increasing order, into a buffer with room
  for 9 bytes a value, the writer succeeds; building the table from its text succeeds whenever
  memory is found; and the table then accepts a number exactly when it is one of the values. The
  list must be shorter than \<open>2 ^ 27 - 1\<close>, and if 512 is a value then the others of
  513 to 543 must not come before the 16th (see the counterexample below).
\<close>

theorem enum_roundtrip:
  assumes "sorted_wrt (<) vs" "length vs + 1 < 2 ^ 27" "avoids_word_16 vs"
    and "9 * length vs + 17 \<le> room"
    and "fst (malloc 16 a)" "total_realloc realloc"
  shows "\<exists>data d. encode_enum vs room = Ok data \<and>
    upb_MiniTableEnum_Build malloc realloc garbage data a = Ok d \<and>
    (\<forall>v. upb_MiniTableEnum_CheckValue (enum_table d) v = Ok (v \<in> set vs))"
proof -
  obtain bs where bs: "encode_enum vs room = Ok (kUpb_EncodedVersion_EnumV1 # bs)" "enum_values bs 0 = Some vs"
    using encode_enum_written [OF assms(1,4)] .
  obtain d where d: "upb_MiniTableEnum_Build malloc realloc garbage (kUpb_EncodedVersion_EnumV1 # bs) a = Ok d"
    "built d vs"
  proof -
    obtain a' where "malloc 16 a = (True, a')" using assms(5) by (cases "malloc 16 a") auto
    moreover obtain d where "build_values realloc vs (enum_start a') = Ok d" "built d vs"
      using build_values_total [OF assms(6) built_enum_start assms(1-3)] by blast
    ultimately show thesis using that Build_eq [of malloc a a' bs vs realloc garbage] bs(2) by simp
  qed
  then obtain ws ms ls where t: "vs = ms @ ls" "table_holds (enum_table d) ws ls"
    "\<And>v. mask_bit ws v \<longleftrightarrow> v \<in> set ms" "\<And>v. v \<in> set ls \<Longrightarrow> length ws \<le> unat v div 32"
    unfolding built_def by blast
  have "upb_MiniTableEnum_CheckValue (enum_table d) v = Ok (v \<in> set vs)" for v
    using CheckValue_eq [OF t(2), of v] t(1) t(3) [of v] t(4) [of v]
    by (auto simp: mask_bit_def split: if_splits)
  with bs(1) d(1) show ?thesis by blast
qed

definition free_realloc :: "unit realloc" where
  "free_realloc m n a = (True, a)"

definition free_malloc :: "unit malloc" where
  "free_malloc n a = (True, a)"

theorem enum_roundtrip_witness:
  "\<exists>data d. encode_enum [0, 1, 5, 63, 64, 100000, 0xFFFFFFFF] 100 = Ok data \<and>
    upb_MiniTableEnum_Build free_malloc free_realloc (0, 7) data () = Ok d \<and>
    (\<forall>v. upb_MiniTableEnum_CheckValue (enum_table d) v =
      Ok (v \<in> set [0, 1, 5, 63, 64, 100000, 0xFFFFFFFF]))"
  by (rule enum_roundtrip)
    (simp_all add: avoids_word_16_def free_malloc_def total_realloc_def free_realloc_def)

lemma encode_512_513: "encode_enum [512, 513] 100 = Ok (kUpb_EncodedVersion_EnumV1 # [95, 111, 36])"
  by (simp add: encode_enum_def upb_MtDataEncoder_StartEnum_def upb_MtDataEncoder_GetInternal_def
      upb_MtDataEncoder_PutRaw_def kUpb_MtDataEncoder_MinSize_def md_char_defs
      upb_MtDataEncoder_PutEnumValue_def Let_def upb_MtDataEncoder_PutBase92Varint_def
      upb_FromBase92_def kUpb_FromBase92_def log2_ranges put_varint_loop.simps
      upb_MtDataEncoder_Put_def upb_ToBase92_def kUpb_ToBase92_codes upb_MtDataEncoder_EndEnum_def
      upb_MtDataEncoder_FlushDenseEnumMask_def word_le_nat_alt)

lemma build_512_513:
  "\<exists>d. build_values free_realloc [512, 513] (enum_start ()) = Ok d \<and>
    enum_table d = \<lparr>mask_limit = 544, value_count = 1,
      enum_data = [0, 0, 0, 0, 0, 0, 0, 0, 0, 0, 0, 0, 0, 0, 0, 0, 1, 513]\<rparr>"
  by (simp add: upb_MiniTableEnum_BuildValue_def free_realloc_def Let_def enum_start_def
      upb_MiniTable_AddEnumDataMember_def extend_mask.simps enum_data_at_def
      enum_size_overflows_def max_def)

text \<open>
  C20: a value the table loses. For the closed enum with the values 512 and 513 the builder puts
  512 into the mask, which then reaches up to 543, and lists 513 behind the mask; the check of 513
  reads the mask and rejects a declared value.
\<close>

theorem enum_512_513_rejected:
  "\<exists>data d. encode_enum [512, 513] 100 = Ok data \<and>
    upb_MiniTableEnum_Build free_malloc free_realloc (0, 0) data () = Ok d \<and>
    upb_MiniTableEnum_CheckValue (enum_table d) 512 = Ok True \<and>
    upb_MiniTableEnum_CheckValue (enum_table d) 513 = Ok False"
proof -
  have "enum_values [95, 111, 36] 0 = Some [512, 513]" by code_simp
  from Build_eq [OF _ this, of free_malloc "()" "()" free_realloc "(0, 0)"] build_512_513 obtain d where
    "upb_MiniTableEnum_Build free_malloc free_realloc (0, 0) (kUpb_EncodedVersion_EnumV1 # [95, 111, 36]) () = Ok d"
    and "enum_table d = \<lparr>mask_limit = 544, value_count = 1,
      enum_data = [0, 0, 0, 0, 0, 0, 0, 0, 0, 0, 0, 0, 0, 0, 0, 0, 1, 513]\<rparr>"
    by (auto simp: free_malloc_def)
  then show ?thesis
    by (intro exI [of _ "kUpb_EncodedVersion_EnumV1 # [95, 111, 36]"] exI [of _ d])
      (simp add: encode_512_513 upb_MiniTableEnum_CheckValue_def enum_data_at_def)
qed

end
