(* ===== verification/Spec2Isabelle.thy ===== *)
theory Spec2Isabelle
  imports MsgMapProps MessageProps CompareUnknownProps ArrayProps ArenaProps ArenaFuseProps MtLayout MdEnumProps IntCompact MtDecode EpsStream Utf8
begin

text \<open>
  A verification development of upb, the C runtime of protocol buffers that encodes and decodes the
  messages of Warpinator's remote calls. The sources are those bundled under
  \<open>src/src/protobuf-6.31.1/upb/\<close>, with \<open>utf8_range/utf8_range.c\<close> beside it. File names below are relative
  to \<open>upb/\<close>.

  \<^bold>\<open>How the parts fit together.\<close> A message type reaches the runtime as a \<^emph>\<open>mini descriptor\<close>, a string in
  base 92. \<open>mini_descriptor/decode.c\<close> turns it into a \<^emph>\<open>mini table\<close>, which says where each field lies in
  a message; \<open>build_enum.c\<close> does the same for closed enums and \<open>link.c\<close> connects the tables. All memory
  comes from \<^emph>\<open>arenas\<close> (\<open>mem/arena.c\<close>), which can be fused and are freed together. Messages, arrays and maps
  live in arenas; maps rest on the hash tables of \<open>hash/common.c\<close>. The wire format is written backwards
  into a growing buffer (\<open>wire/encode.c\<close>) and read through a stream that copies the last bytes of every
  buffer into a patch buffer (\<open>wire/eps_copy_input_stream.h\<close>, \<open>wire/reader.h\<close>). Strings are checked by
  \<open>utf8_range.c\<close>; unknown fields are kept as bytes and compared by \<open>message/internal/compare_unknown.c\<close>.

  \<^bold>\<open>Conventions.\<close>
  \<^item> Words keep their width (\<open>u8\<close> to \<open>u64\<close>) and wrap; a C \<open>int\<close> is an \<open>int\<close> with its range checked, or a word,
    as the theory says.
  \<^item> \<open>'e cres\<close> of \<open>Prelude\<close> is the outcome of a C function: \<open>Ok\<close>, an error of the code, or \<open>UB\<close> for
    undefined behaviour: reads and writes outside of what is mapped, failed assertions and \<open>UPB_ASSUME\<close>s,
    null dereferences. A theorem that a call is \<open>Ok\<close> therefore excludes all of these.
  \<^item> Structures are records with the members of the source. The messages, arrays and arenas share a memory
    of bytes (\<open>Memory\<close>); hash tables and mini tables are values.
  \<^item> What is not in the sources is a parameter: the allocator of the system (the locale \<open>sys_malloc\<close> of
    \<open>Arena\<close> states what \<open>malloc\<close> promises: fresh, aligned memory or \<open>NULL\<close>), the seed of the hash function,
    and for the tables and the descriptors an allocator that may refuse any request.
  \<^item> Loops are structural recursion, \<open>function\<close>s with a measure, or take fuel. Running out of fuel is \<open>UB\<close>, so
    that a theorem with \<open>Ok\<close> also says that the fuel was enough: the number of table slots for chains and
    iterations, the number of bytes for walks over wire data. Loops whose end depends on the state, in the
    forest of arenas and in the growth of arrays, are \<open>partial_function (option)\<close>; \<open>None\<close> is not
    returning, and in the forest also undefined behaviour.

  \<^bold>\<open>Theories, what they model, and what they show.\<close>
  \<^item> \<open>Prelude\<close>: results, words, list lemmas. \<open>Base\<close>, \<open>Descriptor\<close>: \<open>base/\<close>, the constants and field types.
  \<^item> \<open>Base92\<close>, \<open>MdEncode\<close>, \<open>MdVarint\<close>, \<open>MdEnum\<close>, \<open>MdEnumProps\<close>: \<open>mini_descriptor/internal/\<close> and
    \<open>build_enum.c\<close>. Round trips of the numbers and of enums; the pair of values an enum table loses.
  \<^item> \<open>MiniTable\<close>, \<open>MtDecode\<close>: \<open>mini_table/\<close>, \<open>mini_descriptor/decode.c\<close> and \<open>link.c\<close>. Search by number is
    exact. \<open>MtSlots\<close> (slots of the regions), \<open>MtParsed\<close> (what the parser leaves) and \<open>MtLayout\<close> show
    that every table that is built lays its message out safely (\<open>built_layout_safe\<close>), up to 32 KiB.
  \<^item> \<open>Table\<close>: the hash tables common to both kinds, with the invariant and the chains in \<open>TableInv\<close>, the
    insertion in \<open>TableOps\<close>, the removal in \<open>TableRemove\<close>, iteration and rehashing in \<open>TableIter\<close>, once
    for any hash and equality in the locale \<open>hash_table\<close>. \<open>StrTable\<close> and \<open>IntTable\<close>,
    \<open>IntTableProps\<close>, \<open>IntIter\<close>, \<open>IntCompact\<close> interpret it: both tables refine finite maps, whatever
    memory they get; \<open>removeiter\<close> does not.
  \<^item> \<open>Memory\<close>; \<open>Arena\<close>, \<open>ArenaProps\<close>: one arena of \<open>mem/arena.c\<close>: allocations are disjoint, mapped and
    aligned, reallocation keeps bytes, every block is returned once. \<open>ArenaFuse\<close>, \<open>ArenaForest\<close>,
    \<open>ArenaFuseProps\<close>: fusing. The forest of tagged counts and lists refines groups with a number of
    references; all arenas are freed when the last reference goes.
  \<^item> \<open>Array\<close>, \<open>ArrayProps\<close>: \<open>message/array.c\<close>: repeated fields in memory refine lists.
  \<^item> \<open>Message\<close>, \<open>MessageProps\<close>: the accessors of \<open>message/internal/accessors.h\<close> and the creation of messages.
    With \<open>built_layout_safe\<close>: fields are independent variables but for the members of a oneof.
  \<^item> \<open>MsgMap\<close>, \<open>MsgMapOps\<close>, \<open>MsgMapProps\<close>: \<open>message/map.c\<close>, \<open>message/internal/map.h\<close>. The locale \<open>dictionary\<close> is
    what a map asks of its table; both tables provide it. Maps refine finite maps from keys to values,
    with the strings in the arena.
  \<^item> \<open>WireEncode\<close>, \<open>WireRead\<close>: the buffer and the numbers of \<open>wire/encode.c\<close> and the readers: round trips
    and bounds. \<open>EpsStream\<close>: the input stream and \<open>wire/reader.c\<close>: the end of data is found exactly, limits
    nest, the size checks allow 16 bytes beyond them, strings are not lost, skipping stays inside the
    buffers.
  \<^item> \<open>CompareUnknown\<close>, \<open>CompareUnknownProps\<close>: \<open>message/internal/compare_unknown.c\<close>: exact on sorted fields; its
    merge sort loses fields on others.
  \<^item> \<open>Utf8\<close>: \<open>utf8_range.c\<close> (the portable version) and \<open>lex/unicode.c\<close>: exactly UTF-8 is accepted.

  \<^bold>\<open>Bounds of the theorems.\<close> Each property names the inputs it holds for; these come back in several.
  \<^item> Message tables: descriptors of less than 30000 bytes, so that the 16-bit counts and links of the decoder
    do not wrap (its loops are modelled with the 16-bit count, \<open>counted_fields\<close>); messages of at most 32 KiB,
    because above that the complement of a case offset is no longer negative as an \<open>int16_t\<close>; a size that is not 0,
    which is what the rounding of sizes above 65528 gives.
  \<^item> Arenas: requests of at most \<open>2 ^ 64 - 40\<close> bytes, beyond which the rounding can wrap; an arena with an initial
    block has an allocator (\<open>arena_ok\<close>), for without one \<open>upb_Arena_SlowMalloc\<close> is undefined when the buffer is
    full (shown in \<open>ArenaProps\<close>). \<open>NULL\<close> stands for a full block and a refusal of the system (\<open>no_memory\<close>).
  \<^item> Arrays: at most \<open>2 ^ 62\<close> bytes of elements (\<open>small_request\<close>), beyond which the growth can overflow (shown
    in \<open>ArrayProps\<close>).
  \<^item> Streams: pointers less than \<open>2 ^ 31\<close> behind the end of the block (\<open>ptr_ok\<close>), beyond which an \<open>int\<close>
    overflows (shown in \<open>EpsStream\<close>).
  \<^item> Groups of fused arenas: less than \<open>2 ^ 63\<close> references.

  \<^bold>\<open>Not modelled.\<close>
  \<^item> \<open>wire/decode.c\<close> and the walk over messages in \<open>wire/encode.c\<close>: they rest on all of the above and on
    extensions and linked sub-tables; only the primitives they use are here.
  \<^item> Extensions and unknown fields behind a message (\<open>message/message.c\<close>), sorted maps, the deep operations
    \<open>copy\<close>, \<open>compare\<close>, \<open>promote\<close> and \<open>freeze\<close>, which recurse over linked tables.
  \<^item> The text and JSON formats, reflection (\<open>reflection/\<close>) and generated accessors.
  \<^item> Threads: the arenas' counts are atomic in C; here operations on a forest are a sequence of steps.
  \<^item> Variants chosen at compile time: big-endian and 32-bit hosts, the SIMD versions of the UTF-8 check,
    ASAN and TSAN instrumentation, tracing.
  \<^item> gRPC, and the application in Python: remotes, transfers, registration and authentication are calls
    into GTK, gRPC, zeroconf and the file system.
\<close>

end
